(* ===== verification/Prelude.thy ===== *)
theory Prelude
  imports Main "HOL-Library.Word"
begin

unbundle bit_operations_syntax

text \<open>
  Shared vocabulary of the xv6 development: the widths of the kernel's integers
  (\<open>kernel/types.h\<close>), the outcome of a kernel routine, little-endian encodings of words in
  byte lists, and the generic lemmas that the components use.

  A kernel routine either returns (\<open>Ok\<close>), calls \<open>panic\<close> with a message (\<open>Panic\<close>), or
  does not return until another process, CPU or device acts (\<open>Block\<close>: it sleeps or spins).
\<close>

section \<open>Integers\<close>

type_synonym u8 = "8 word"
type_synonym u16 = "16 word"
type_synonym u32 = "32 word"
type_synonym u64 = "64 word"

section \<open>Outcomes of kernel routines\<close>

datatype 'a outcome = Ok 'a | Panic string | Block

primrec obind :: "'a outcome \<Rightarrow> ('a \<Rightarrow> 'b outcome) \<Rightarrow> 'b outcome" where
  "obind (Ok x) f = f x"
| "obind (Panic e) f = Panic e"
| "obind Block f = Block"

primrec is_ok :: "'a outcome \<Rightarrow> bool" where
  "is_ok (Ok x) = True"
| "is_ok (Panic e) = False"
| "is_ok Block = False"

primrec is_panic :: "'a outcome \<Rightarrow> bool" where
  "is_panic (Ok x) = False"
| "is_panic (Panic e) = True"
| "is_panic Block = False"

text \<open>Run a state transformer \<open>n\<close> times, stopping at the first one that does not return.\<close>

primrec times :: "nat \<Rightarrow> ('s \<Rightarrow> 's outcome) \<Rightarrow> 's \<Rightarrow> 's outcome" where
  "times 0 f s = Ok s"
| "times (Suc n) f s = obind (f s) (times n f)"

named_theorems outcome_simps \<open>rewrite rules for the result of a kernel routine\<close>
named_theorems addr_simps \<open>rewrite rules for address arithmetic\<close>
named_theorems frame_simps \<open>what an operation leaves unchanged\<close>

section \<open>Little-endian encodings\<close>

primrec word_of_bytes :: "u8 list \<Rightarrow> 'a::len word" where
  "word_of_bytes [] = 0"
| "word_of_bytes (b # bs) = ucast b OR push_bit 8 (word_of_bytes bs)"

primrec bytes_of_word :: "nat \<Rightarrow> 'a::len word \<Rightarrow> u8 list" where
  "bytes_of_word 0 w = []"
| "bytes_of_word (Suc n) w = ucast w # bytes_of_word n (drop_bit 8 w)"

section \<open>Lemmas on outcomes\<close>

lemma obind_Ok_iff [outcome_simps]:
  "obind m f = Ok y \<longleftrightarrow> (\<exists>x. m = Ok x \<and> f x = Ok y)"
  by (cases m) auto

lemma obind_Panic_iff [outcome_simps]:
  "obind m f = Panic e \<longleftrightarrow> m = Panic e \<or> (\<exists>x. m = Ok x \<and> f x = Panic e)"
  by (cases m) auto

lemma obind_Block_iff [outcome_simps]:
  "obind m f = Block \<longleftrightarrow> m = Block \<or> (\<exists>x. m = Ok x \<and> f x = Block)"
  by (cases m) auto

lemma obind_assoc: "obind (obind m f) g = obind m (\<lambda>x. obind (f x) g)"
  by (cases m) auto

lemma obind_cong [fundef_cong]:
  "m = m' \<Longrightarrow> (\<And>x. m' = Ok x \<Longrightarrow> f x = g x) \<Longrightarrow> obind m f = obind m' g"
  by (cases m') auto

lemma is_ok_iff: "is_ok m \<longleftrightarrow> (\<exists>x. m = Ok x)"
  by (cases m) auto

section \<open>Bounds of words\<close>

lemma unat64_less: "unat (a :: u64) < 2 ^ 64"
  by (rule order.strict_trans2 [OF unsigned_less]) simp

lemma unat32_less: "unat (a :: u32) < 2 ^ 32"
  by (rule order.strict_trans2 [OF unsigned_less]) simp

section \<open>Lemmas on encodings\<close>

lemma length_bytes_of_word [simp]: "length (bytes_of_word n w) = n"
  by (induction n arbitrary: w) auto

lemma word_of_bytes_of_word:
  fixes w :: "'a::len word"
  shows "(word_of_bytes (bytes_of_word n w) :: 'a word) = take_bit (8 * n) w"
proof (induction n arbitrary: w)
  case 0
  then show ?case by simp
next
  case (Suc n)
  have "ucast (ucast w :: u8) OR push_bit 8 (take_bit (8 * n) (drop_bit 8 w)) =
      take_bit (8 * Suc n) w"
    by (rule bit_word_eqI) (auto simp: bit_simps not_le less_diff_conv)
  with Suc show ?case by simp
qed

lemma word64_of_bytes_of_word [simp]: "word_of_bytes (bytes_of_word 8 w) = (w :: u64)"
  by (simp add: word_of_bytes_of_word take_bit_word_eq_self)

lemma word32_of_bytes_of_word [simp]: "word_of_bytes (bytes_of_word 4 w) = (w :: u32)"
  by (simp add: word_of_bytes_of_word take_bit_word_eq_self)

lemma word16_of_bytes_of_word [simp]: "word_of_bytes (bytes_of_word 2 w) = (w :: u16)"
  by (simp add: word_of_bytes_of_word take_bit_word_eq_self)

lemma bytes_of_word_of_bytes:
  "8 * length bs \<le> LENGTH('a) \<Longrightarrow>
     bytes_of_word (length bs) (word_of_bytes bs :: 'a::len word) = bs"
proof (induction bs)
  case Nil
  then show ?case by simp
next
  case (Cons b bs)
  let ?w = "word_of_bytes bs :: 'a word"
  have len: "8 \<le> LENGTH('a)" using Cons.prems by simp
  have lo: "ucast (ucast b OR push_bit 8 ?w) = b"
    using len by (intro bit_word_eqI) (auto simp: bit_simps)
  have hi: "drop_bit 8 (ucast b OR push_bit 8 ?w) = take_bit (LENGTH('a) - 8) ?w"
    using len by (intro bit_word_eqI) (auto simp: bit_simps dest: bit_imp_le_length)
  have tb: "bytes_of_word n (take_bit k v) = bytes_of_word n v"
    if "8 * n \<le> k" for n k and v :: "'a word"
    using that
  proof (induction n arbitrary: k v)
    case 0
    then show ?case by simp
  next
    case (Suc n)
    have "drop_bit 8 (take_bit k v) = take_bit (k - 8) (drop_bit 8 v)"
      by (simp add: drop_bit_take_bit)
    moreover have "ucast (take_bit k v) = (ucast v :: u8)"
      using Suc.prems by (intro bit_word_eqI) (auto simp: bit_simps)
    ultimately show ?case using Suc.IH [of "k - 8"] Suc.prems by simp
  qed
  show ?case using Cons lo hi by (simp add: tb)
qed

end
