(* ===== verification/Riscv.thy ===== *)
theory Riscv
  imports Prelude
begin

text \<open>
  The constants of \<open>kernel/param.h\<close> and \<open>kernel/memlayout.h\<close>, and the address and page-table
  entry macros of \<open>kernel/riscv.h\<close>. The lemmas give the arithmetic meaning of the bit
  manipulations: rounding to page boundaries, the round trip of a physical address through a
  page-table entry, and the decomposition of a virtual address into its three 9-bit indices.
\<close>

section \<open>param.h\<close>

definition NPROC :: nat where "NPROC = 64"
definition NCPU :: nat where "NCPU = 8"
definition NOFILE :: nat where "NOFILE = 16"
definition NFILE :: nat where "NFILE = 100"
definition NINODE :: nat where "NINODE = 50"
definition NDEV :: nat where "NDEV = 10"
definition ROOTDEV :: u32 where "ROOTDEV = 1"
definition MAXARG :: nat where "MAXARG = 32"
definition MAXOPBLOCKS :: nat where "MAXOPBLOCKS = 10"
definition LOGSIZE :: nat where "LOGSIZE = MAXOPBLOCKS * 3"
definition NBUF :: nat where "NBUF = MAXOPBLOCKS * 3"
definition FSSIZE :: nat where "FSSIZE = 2000"
definition MAXPATH :: nat where "MAXPATH = 128"
definition PBS_DEF_SP :: u32 where "PBS_DEF_SP = 50"
definition PBS_DEF_RBI :: u32 where "PBS_DEF_RBI = 25"
definition PBS_DEF_DP :: u32 where "PBS_DEF_DP = PBS_DEF_SP + PBS_DEF_RBI"

section \<open>riscv.h: pages and page-table entries\<close>

definition PGSIZE :: u64 where "PGSIZE = 4096"

definition PGROUNDUP :: "u64 \<Rightarrow> u64" where
  "PGROUNDUP sz = (sz + PGSIZE - 1) AND NOT (PGSIZE - 1)"

definition PGROUNDDOWN :: "u64 \<Rightarrow> u64" where
  "PGROUNDDOWN a = a AND NOT (PGSIZE - 1)"

definition PTE_V :: u64 where "PTE_V = 1"
definition PTE_R :: u64 where "PTE_R = 2"
definition PTE_W :: u64 where "PTE_W = 4"
definition PTE_X :: u64 where "PTE_X = 8"
definition PTE_U :: u64 where "PTE_U = 16"
definition PTE_COW :: u64 where "PTE_COW = 32"

definition PA2PTE :: "u64 \<Rightarrow> u64" where "PA2PTE pa = push_bit 10 (drop_bit 12 pa)"
definition PTE2PA :: "u64 \<Rightarrow> u64" where "PTE2PA pte = push_bit 12 (drop_bit 10 pte)"
definition PTE_FLAGS :: "u64 \<Rightarrow> u64" where "PTE_FLAGS pte = pte AND 0x3FF"

definition PXSHIFT :: "nat \<Rightarrow> nat" where "PXSHIFT level = 12 + 9 * level"
definition PX :: "nat \<Rightarrow> u64 \<Rightarrow> u64" where "PX level va = drop_bit (PXSHIFT level) va AND 0x1FF"

definition MAXVA :: u64 where "MAXVA = push_bit (9 + 9 + 9 + 12 - 1) 1"

definition SSTATUS_SPP :: u64 where "SSTATUS_SPP = push_bit 8 1"
definition SSTATUS_SPIE :: u64 where "SSTATUS_SPIE = push_bit 5 1"
definition SSTATUS_SIE :: u64 where "SSTATUS_SIE = push_bit 1 1"
definition SATP_SV39 :: u64 where "SATP_SV39 = push_bit 60 8"
definition MAKE_SATP :: "u64 \<Rightarrow> u64" where "MAKE_SATP pagetable = SATP_SV39 OR drop_bit 12 pagetable"

section \<open>memlayout.h\<close>

definition UART0 :: u64 where "UART0 = 0x10000000"
definition UART0_IRQ :: u32 where "UART0_IRQ = 10"
definition VIRTIO0 :: u64 where "VIRTIO0 = 0x10001000"
definition VIRTIO0_IRQ :: u32 where "VIRTIO0_IRQ = 1"
definition PLIC :: u64 where "PLIC = 0x0c000000"
definition KERNBASE :: u64 where "KERNBASE = 0x80000000"
definition PHYSTOP :: u64 where "PHYSTOP = KERNBASE + 128 * 1024 * 1024"
definition TRAMPOLINE :: u64 where "TRAMPOLINE = MAXVA - PGSIZE"
definition KSTACK :: "u64 \<Rightarrow> u64" where "KSTACK p = TRAMPOLINE - (p + 1) * 2 * PGSIZE"
definition TRAPFRAME :: u64 where "TRAPFRAME = TRAMPOLINE - PGSIZE"

lemmas param_defs = NPROC_def NCPU_def NOFILE_def NFILE_def NINODE_def NDEV_def ROOTDEV_def
  MAXARG_def MAXOPBLOCKS_def LOGSIZE_def NBUF_def FSSIZE_def MAXPATH_def
  PBS_DEF_SP_def PBS_DEF_RBI_def PBS_DEF_DP_def

lemmas pte_bit_defs = PTE_V_def PTE_R_def PTE_W_def PTE_X_def PTE_U_def PTE_COW_def

lemmas layout_defs = UART0_def VIRTIO0_def PLIC_def KERNBASE_def PHYSTOP_def TRAMPOLINE_def
  KSTACK_def TRAPFRAME_def MAXVA_def PGSIZE_def

section \<open>Page rounding\<close>

definition page_aligned :: "u64 \<Rightarrow> bool" where
  "page_aligned a \<longleftrightarrow> a mod PGSIZE = 0"

lemma bit_page_mask: "bit (4095 :: u64) n \<longleftrightarrow> n < 12"
proof -
  have "(4095 :: u64) = mask 12" by (simp add: mask_eq_exp_minus_1)
  then have "bit (4095 :: u64) n = bit (mask 12 :: u64) n" by (rule arg_cong)
  also have "\<dots> \<longleftrightarrow> n < 12" by (subst bit_mask_iff) auto
  finally show ?thesis .
qed

lemma PGROUNDDOWN_shift: "PGROUNDDOWN a = push_bit 12 (drop_bit 12 a)"
proof (rule bit_word_eqI)
  fix n assume "n < LENGTH(64)"
  then show "bit (PGROUNDDOWN a) n = bit (push_bit 12 (drop_bit 12 a)) n"
    using bit_page_mask [of n]
    by (cases "12 \<le> n") (auto simp: PGROUNDDOWN_def PGSIZE_def bit_simps)
qed

lemma PGROUNDDOWN_take_bit: "a = PGROUNDDOWN a + take_bit 12 a"
proof -
  have "PGROUNDDOWN a + take_bit 12 a = PGROUNDDOWN a OR take_bit 12 a"
    by (rule disjunctive_add) (auto simp: PGROUNDDOWN_shift bit_simps)
  also have "\<dots> = a"
    by (rule bit_word_eqI) (auto simp: PGROUNDDOWN_shift bit_simps)
  finally show ?thesis by simp
qed

lemma unat_PGROUNDDOWN: "unat (PGROUNDDOWN a) = unat a div 4096 * 4096"
proof -
  have b: "unat a div 4096 * 4096 < 2 ^ 64"
    using le_less_trans [OF div_times_less_eq_dividend unsigned_less [of a]] by simp
  have "PGROUNDDOWN a = of_nat (unat a div 4096 * 4096)"
    by (simp add: PGROUNDDOWN_shift push_bit_eq_mult drop_bit_eq_div word_arith_nat_div)
  then have "unat (PGROUNDDOWN a) = (unat a div 4096 * 4096) mod 2 ^ LENGTH(64)"
    by (simp only: unat_of_nat)
  then show ?thesis using b by simp
qed

lemma page_aligned_unat: "page_aligned a \<longleftrightarrow> unat a mod 4096 = 0"
  by (simp add: page_aligned_def PGSIZE_def unat_eq_zero [symmetric] unat_mod)

lemma page_aligned_unat_eq: "page_aligned a \<Longrightarrow> unat a = 4096 * (unat a div 4096)"
  using mult_div_mod_eq [of 4096 "unat a"] by (simp add: page_aligned_unat)

lemma page_aligned_PGROUNDDOWN [simp]: "page_aligned (PGROUNDDOWN a)"
  by (simp add: page_aligned_unat unat_PGROUNDDOWN)

lemma PGROUNDDOWN_id: "page_aligned a \<Longrightarrow> PGROUNDDOWN a = a"
  by (auto simp: word_unat_eq_iff unat_PGROUNDDOWN page_aligned_unat)

lemma PGROUNDDOWN_le: "PGROUNDDOWN a \<le> a"
  by (simp add: word_le_nat_alt unat_PGROUNDDOWN)

lemma PGROUNDUP_PGROUNDDOWN: "PGROUNDUP a = PGROUNDDOWN (a + 4095)"
  by (simp add: PGROUNDUP_def PGROUNDDOWN_def PGSIZE_def add.commute add_diff_eq [symmetric])

lemma page_aligned_PGROUNDUP [simp]: "page_aligned (PGROUNDUP a)"
  by (simp add: PGROUNDUP_PGROUNDDOWN)

lemma unat_PGROUNDUP:
  "unat a + 4095 < 2 ^ 64 \<Longrightarrow> unat (PGROUNDUP a) = (unat a + 4095) div 4096 * 4096"
  by (simp add: PGROUNDUP_PGROUNDDOWN unat_PGROUNDDOWN unat_word_ariths)

lemma page_aligned_add: "page_aligned a \<Longrightarrow> page_aligned (a + 4096)"
proof -
  assume "page_aligned a"
  then have "unat a mod 4096 = 0" by (simp add: page_aligned_unat)
  moreover have "(4096 :: nat) dvd 2 ^ 64" by simp
  ultimately have "((unat a + 4096) mod 2 ^ 64) mod 4096 = 0"
    by (simp only: mod_mod_cancel) simp
  then show ?thesis by (simp add: page_aligned_unat unat_word_ariths)
qed

section \<open>Page-table entries\<close>

lemma bit_flag_mask: "bit (0x3FF :: u64) n \<longleftrightarrow> n < 10"
proof -
  have "(0x3FF :: u64) = mask 10" by (simp add: mask_eq_exp_minus_1)
  then have "bit (0x3FF :: u64) n = bit (mask 10 :: u64) n" by (rule arg_cong)
  also have "\<dots> \<longleftrightarrow> n < 10" by (subst bit_mask_iff) auto
  finally show ?thesis .
qed

lemma PTE_FLAGS_take_bit: "PTE_FLAGS pte = take_bit 10 pte"
proof (rule bit_word_eqI)
  fix n show "bit (PTE_FLAGS pte) n = bit (take_bit 10 pte) n"
    using bit_flag_mask [of n] by (auto simp: PTE_FLAGS_def bit_simps)
qed

lemma page_aligned_bits: "page_aligned pa \<longleftrightarrow> take_bit 12 pa = 0"
  by (simp add: page_aligned_def PGSIZE_def take_bit_eq_mod)

lemma page_aligned_no_low_bits: "page_aligned pa \<Longrightarrow> n < 12 \<Longrightarrow> \<not> bit pa n"
  by (metis bit_0_eq bit_take_bit_iff bot_apply bot_bool_def page_aligned_bits)

lemma small_no_high_bits: "(f :: u64) < 2 ^ k \<Longrightarrow> k \<le> n \<Longrightarrow> k < 64 \<Longrightarrow> \<not> bit f n"
  by (metis bit_take_bit_iff less_mask_eq linorder_not_less mask_eq_exp_minus_1 take_bit_eq_mask)

text \<open>
  A page-aligned physical address below $2^{56}$ survives the round trip through an entry,
  whatever flag bits are set, and so do the flags.
\<close>

lemma PTE2PA_PA2PTE_flags:
  assumes "page_aligned pa" and "pa < 2 ^ 56" and "f < 2 ^ 10"
  shows "PTE2PA (PA2PTE pa OR f) = pa" and "PTE_FLAGS (PA2PTE pa OR f) = f"
proof -
  note lo = page_aligned_no_low_bits [OF assms(1)]
  have hi: "\<not> bit pa n" if "56 \<le> n" for n
    using small_no_high_bits [OF assms(2) that] by simp
  have fh: "\<not> bit f n" if "10 \<le> n" for n
    using small_no_high_bits [OF assms(3) that] by simp
  show "PTE2PA (PA2PTE pa OR f) = pa"
  proof (rule bit_word_eqI)
    fix n assume "n < LENGTH(64)"
    then show "bit (PTE2PA (PA2PTE pa OR f)) n = bit pa n"
      using lo [of n] hi [of n] fh [of "n - 2"]
      by (cases "12 \<le> n"; cases "56 \<le> n") (auto simp: PTE2PA_def PA2PTE_def bit_simps)
  qed
  show "PTE_FLAGS (PA2PTE pa OR f) = f"
    by (rule bit_word_eqI)
      (use fh in \<open>auto simp: PTE_FLAGS_take_bit PA2PTE_def bit_simps not_less\<close>)
qed

lemma page_aligned_PTE2PA [simp]: "page_aligned (PTE2PA pte)"
  unfolding page_aligned_bits PTE2PA_def
  by (rule bit_word_eqI) (auto simp: bit_simps)

section \<open>Virtual-address indices\<close>

lemma PX_mod: "PX l va = take_bit 9 (drop_bit (PXSHIFT l) va)"
proof -
  have "(0x1FF :: u64) = mask 9" by (simp add: mask_eq_exp_minus_1)
  then show ?thesis by (simp add: PX_def take_bit_eq_mask)
qed

lemma PX_less: "PX l va < 512"
  unfolding PX_mod word_less_nat_alt
  by (simp add: unat_mod take_bit_eq_mod)

text \<open>Two page-aligned virtual addresses below \<open>MAXVA\<close> with equal indices are equal.\<close>

lemma PX_inj:
  assumes "page_aligned a" "page_aligned b" "a < MAXVA" "b < MAXVA"
    and "PX 2 a = PX 2 b" "PX 1 a = PX 1 b" "PX 0 a = PX 0 b"
  shows "a = b"
proof (rule bit_word_eqI)
  fix n assume "n < LENGTH(64)"
  have px: "bit (PX l v) k \<longleftrightarrow> k < 9 \<and> bit v (12 + 9 * l + k)" for l v k
    by (auto simp: PX_mod PXSHIFT_def bit_simps)
  have hi: "\<not> bit a n \<and> \<not> bit b n" if "38 \<le> n"
    using small_no_high_bits [of a 38 n] small_no_high_bits [of b 38 n] assms(3,4) that
    by (simp add: MAXVA_def push_bit_eq_mult)
  consider "n < 12" | "12 \<le> n" "n < 21" | "21 \<le> n" "n < 30" | "30 \<le> n" "n < 39" | "38 \<le> n"
    by linarith
  then show "bit a n = bit b n"
  proof cases
    case 1
    then show ?thesis using assms(1,2) page_aligned_no_low_bits by blast
  next
    case 2
    then show ?thesis using px [of 0 a "n - 12"] px [of 0 b "n - 12"] assms(7) by auto
  next
    case 3
    then show ?thesis using px [of 1 a "n - 21"] px [of 1 b "n - 21"] assms(6) by auto
  next
    case 4
    then show ?thesis using px [of 2 a "n - 30"] px [of 2 b "n - 30"] assms(5) by auto
  next
    case 5
    then show ?thesis using hi by simp
  qed
qed

end
