(* ===== verification/Cstring.thy ===== *)
theory Cstring
  imports Riscv
begin

text \<open>
  Physical memory as a function from 64-bit addresses to bytes, with 64-bit little-endian loads
  and stores, and the routines of \<open>kernel/string.c\<close>.

  \<open>memset\<close> and \<open>memmove\<close> write memory that other pointers may alias, so they act on the whole
  memory. The other routines only look at their arguments through a \<open>char *\<close>, which is the
  stream of bytes found from the pointer on (\<open>cstr\<close>); the two that write a string return the
  destination's new bytes. Loops that are bounded by \<open>n\<close> recurse on what is left of \<open>n\<close>;
  \<open>strlen\<close>, whose loop ends only at a NUL byte, is a partial function.
\<close>

type_synonym memory = "u64 \<Rightarrow> u8"
type_synonym cstr = "nat \<Rightarrow> u8"

section \<open>Loads and stores\<close>

definition load_bytes :: "memory \<Rightarrow> u64 \<Rightarrow> nat \<Rightarrow> u8 list" where
  "load_bytes m a n = map (\<lambda>i. m (a + of_nat i)) [0..<n]"

definition store_bytes :: "memory \<Rightarrow> u64 \<Rightarrow> u8 list \<Rightarrow> memory" where
  "store_bytes m a bs = (\<lambda>x. if unat (x - a) < length bs then bs ! unat (x - a) else m x)"

definition load64 :: "memory \<Rightarrow> u64 \<Rightarrow> u64" where
  "load64 m a = word_of_bytes (load_bytes m a 8)"

definition store64 :: "memory \<Rightarrow> u64 \<Rightarrow> u64 \<Rightarrow> memory" where
  "store64 m a w = store_bytes m a (bytes_of_word 8 w)"

definition at_addr :: "memory \<Rightarrow> u64 \<Rightarrow> cstr" where
  "at_addr m a = (\<lambda>i. m (a + of_nat i))"

section \<open>string.c\<close>

primrec memset_loop :: "nat \<Rightarrow> memory \<Rightarrow> u64 \<Rightarrow> u8 \<Rightarrow> nat \<Rightarrow> memory" where
  "memset_loop 0 m cdst c i = m"
| "memset_loop (Suc k) m cdst c i = memset_loop k (m(cdst + of_nat i := c)) cdst c (Suc i)"

definition memset :: "memory \<Rightarrow> u64 \<Rightarrow> u8 \<Rightarrow> nat \<Rightarrow> memory" where
  "memset m dst c n = memset_loop n m dst c 0"

definition incr :: "cstr \<Rightarrow> cstr" where
  "incr p = (\<lambda>i. p (Suc i))"

primrec memcmp :: "nat \<Rightarrow> cstr \<Rightarrow> cstr \<Rightarrow> int" where
  "memcmp 0 s1 s2 = 0"
| "memcmp (Suc n) s1 s2 =
     (if s1 0 \<noteq> s2 0 then uint (s1 0) - uint (s2 0) else memcmp n (incr s1) (incr s2))"

primrec memmove_up :: "nat \<Rightarrow> memory \<Rightarrow> u64 \<Rightarrow> u64 \<Rightarrow> memory" where
  "memmove_up 0 m d s = m"
| "memmove_up (Suc n) m d s = memmove_up n (m(d := m s)) (d + 1) (s + 1)"

primrec memmove_down :: "nat \<Rightarrow> memory \<Rightarrow> u64 \<Rightarrow> u64 \<Rightarrow> memory" where
  "memmove_down 0 m d s = m"
| "memmove_down (Suc n) m d s = memmove_down n (m(d - 1 := m (s - 1))) (d - 1) (s - 1)"

definition memmove :: "memory \<Rightarrow> u64 \<Rightarrow> u64 \<Rightarrow> nat \<Rightarrow> memory" where
  "memmove m dst src n =
     (if n = 0 then m
      else if src < dst \<and> src + of_nat n > dst
      then memmove_down n m (dst + of_nat n) (src + of_nat n)
      else memmove_up n m dst src)"

definition memcpy :: "memory \<Rightarrow> u64 \<Rightarrow> u64 \<Rightarrow> nat \<Rightarrow> memory" where
  "memcpy m dst src n = memmove m dst src n"

primrec strncmp :: "nat \<Rightarrow> cstr \<Rightarrow> cstr \<Rightarrow> int" where
  "strncmp 0 p q = 0"
| "strncmp (Suc n) p q =
     (if p 0 \<noteq> 0 \<and> p 0 = q 0 then strncmp n (incr p) (incr q) else uint (p 0) - uint (q 0))"

primrec strncpy_pad :: "nat \<Rightarrow> cstr \<Rightarrow> nat \<Rightarrow> cstr" where
  "strncpy_pad 0 s i = s"
| "strncpy_pad (Suc n) s i = strncpy_pad n (s(i := 0)) (Suc i)"

primrec strncpy_loop :: "nat \<Rightarrow> cstr \<Rightarrow> cstr \<Rightarrow> nat \<Rightarrow> cstr" where
  "strncpy_loop 0 s t i = s"
| "strncpy_loop (Suc n) s t i =
     (if t i \<noteq> 0 then strncpy_loop n (s(i := t i)) t (Suc i)
      else strncpy_pad n (s(i := t i)) (Suc i))"

definition strncpy :: "cstr \<Rightarrow> cstr \<Rightarrow> int \<Rightarrow> cstr" where
  "strncpy s t n = strncpy_loop (nat n) s t 0"

primrec safestrcpy_loop :: "nat \<Rightarrow> cstr \<Rightarrow> cstr \<Rightarrow> nat \<Rightarrow> cstr" where
  "safestrcpy_loop 0 s t i = s(i := 0)"
| "safestrcpy_loop (Suc n) s t i =
     (if t i \<noteq> 0 then safestrcpy_loop n (s(i := t i)) t (Suc i)
      else s(i := t i, Suc i := 0))"

definition safestrcpy :: "cstr \<Rightarrow> cstr \<Rightarrow> int \<Rightarrow> cstr" where
  "safestrcpy s t n = (if n \<le> 0 then s else safestrcpy_loop (nat (n - 1)) s t 0)"

partial_function (option) strlen_loop :: "cstr \<Rightarrow> nat \<Rightarrow> nat option" where
  "strlen_loop s n = (if s n = 0 then Some n else strlen_loop s (Suc n))"

definition strlen :: "cstr \<Rightarrow> nat option" where
  "strlen s = strlen_loop s 0"

section \<open>Reference definitions\<close>

text \<open>The string a \<open>char[n]\<close> array holds: its bytes up to the first NUL, at most \<open>n\<close> of them.\<close>

definition str_of :: "cstr \<Rightarrow> nat \<Rightarrow> u8 list" where
  "str_of s n = takeWhile (\<lambda>c. c \<noteq> 0) (map s [0..<n])"

section \<open>Address arithmetic\<close>

lemma unat_diff_eq:
  fixes a b :: "'a::len word"
  shows "b \<le> a \<Longrightarrow> unat (a - b) = unat a - unat b"
  by (simp add: unat_sub)

lemma unat_add_of_nat: "unat a + k < 2 ^ 64 \<Longrightarrow> unat (a + of_nat k :: u64) = unat a + k"
  by (simp add: unat_word_ariths unat_of_nat)

lemma unat_of_nat64: "k < 2 ^ 64 \<Longrightarrow> unat (of_nat k :: u64) = k"
  by (simp add: unat_of_nat)

lemma unat_offset_lt: "k < 2 ^ 64 \<Longrightarrow> unat ((a + of_nat k :: u64) - a) = k"
  by (simp add: unat_of_nat64)

lemma add_unat_diff: "(a :: u64) + of_nat (unat (x - a)) = x"
  by simp

lemma unat_diff_Suc:
  fixes a d :: u64
  assumes "a \<noteq> d"
  shows "unat (a - (d + 1)) = unat (a - d) - 1" and "0 < unat (a - d)"
proof -
  have nz: "a - d \<noteq> 0" using assms by simp
  have "unat (a - (d + 1)) = unat ((a - d) - 1)" by (simp add: algebra_simps)
  also have "\<dots> = unat (a - d) - 1" using unat_minus_one [OF nz] .
  finally show "unat (a - (d + 1)) = unat (a - d) - 1" .
  show "0 < unat (a - d)" using nz by (simp add: unat_gt_0)
qed

section \<open>Loads after stores\<close>

lemma length_load_bytes [simp]: "length (load_bytes m a n) = n"
  by (simp add: load_bytes_def)

lemma nth_load_bytes [simp]: "i < n \<Longrightarrow> load_bytes m a n ! i = m (a + of_nat i)"
  by (simp add: load_bytes_def)

lemma load_bytes_cong:
  "(\<And>i. i < n \<Longrightarrow> m (a + of_nat i) = m' (a + of_nat i)) \<Longrightarrow> load_bytes m a n = load_bytes m' a n"
  by (simp add: load_bytes_def)

lemma load64_cong:
  "(\<And>i. i < 8 \<Longrightarrow> m (a + of_nat i) = m' (a + of_nat i)) \<Longrightarrow> load64 m a = load64 m' a"
  unfolding load64_def by (rule arg_cong [where f = word_of_bytes], rule load_bytes_cong)

lemma load_bytes_store_same:
  "length bs = n \<Longrightarrow> n < 2 ^ 64 \<Longrightarrow> load_bytes (store_bytes m a bs) a n = bs"
  by (rule nth_equalityI) (auto simp: store_bytes_def unat_of_nat64)

lemma load64_store64_same [simp]: "load64 (store64 m a w) a = w"
  by (simp add: load64_def store64_def load_bytes_store_same)

lemma store_bytes_other: "length bs \<le> unat (x - a) \<Longrightarrow> store_bytes m a bs x = m x"
  by (simp add: store_bytes_def)

lemma store64_other: "8 \<le> unat (x - a) \<Longrightarrow> store64 m a w x = m x"
  by (simp add: store64_def store_bytes_other)

lemma aligned8_disjoint:
  fixes a b :: u64
  assumes "unat a mod 8 = 0" "unat b mod 8 = 0" "a \<noteq> b" "i < 8"
  shows "8 \<le> unat (b + of_nat i - a)"
proof (rule ccontr)
  assume "\<not> ?thesis"
  then have j: "unat (b + of_nat i - a) < 8" by simp
  define k where "k = unat (b + of_nat i - a)"
  have e: "b + of_nat i = a + of_nat k" by (simp add: k_def)
  have "unat b + i < 2 ^ 64" "unat a + k < 2 ^ 64"
  proof -
    have "x + y < 2 ^ 64" if "x mod 8 = 0" "x < 2 ^ 64" "y < 8" for x y :: nat
    proof -
      have "x = 8 * (x div 8)" using that(1) by presburger
      moreover have "x div 8 < 2305843009213693952" using that(2) by simp
      ultimately show ?thesis using that(3) by simp
    qed
    note this [OF assms(1) _ j] this [OF assms(2) _ assms(4)]
    then show "unat b + i < 2 ^ 64" "unat a + k < 2 ^ 64"
      using unsigned_less [of a] unsigned_less [of b] by (simp_all add: k_def)
  qed
  then have "unat b + i = unat a + k"
    using arg_cong [OF e, of unat] by (simp add: unat_add_of_nat)
  moreover have "k < 8" using j by (simp add: k_def)
  ultimately have "unat a = unat b" using assms(1,2,4) by presburger
  then show False using assms(3) by (simp add: word_unat_eq_iff)
qed

lemma load64_store64_other:
  "unat a mod 8 = 0 \<Longrightarrow> unat b mod 8 = 0 \<Longrightarrow> a \<noteq> b \<Longrightarrow> load64 (store64 m a w) b = load64 m b"
  by (rule load64_cong) (simp add: store64_other aligned8_disjoint)

section \<open>Strings\<close>

lemma incr_apply [simp]: "incr p i = p (Suc i)"
  by (simp add: incr_def)

lemma str_of_0 [simp]: "str_of s 0 = []"
  by (simp add: str_of_def)

lemma str_of_Suc: "str_of s (Suc n) = (if s 0 = 0 then [] else s 0 # str_of (incr s) n)"
proof -
  have "map s [0..<Suc n] = s 0 # map (incr s) [0..<n]"
    by (simp add: upt_conv_Cons map_Suc_upt [symmetric] del: upt_Suc)
  then show ?thesis by (simp add: str_of_def)
qed

lemma strncmp_0_iff: "strncmp n p q = 0 \<longleftrightarrow> str_of p n = str_of q n"
  by (induction n arbitrary: p q) (auto simp: str_of_Suc uint_0_iff word_uint_eq_iff [symmetric])

lemma memcmp_0_iff: "memcmp n p q = 0 \<longleftrightarrow> (\<forall>i<n. p i = q i)"
  by (induction n arbitrary: p q) (auto simp: less_Suc_eq_0_disj word_uint_eq_iff [symmetric])

lemma strncpy_pad_apply:
  "strncpy_pad n s i x = (if i \<le> x \<and> x < i + n then 0 else s x)"
  by (induction n arbitrary: s i) auto

lemma strncpy_loop_apply:
  "strncpy_loop n s t i x =
     (if i \<le> x \<and> x < i + n then (if \<exists>j\<in>{i..<x}. t j = 0 then 0 else t x) else s x)"
proof (induction n arbitrary: s i)
  case 0
  then show ?case by auto
next
  case (Suc n)
  have split: "(\<exists>j\<in>{i..<x}. t j = 0) \<longleftrightarrow> i < x \<and> (t i = 0 \<or> (\<exists>j\<in>{Suc i..<x}. t j = 0))"
    by (auto simp: Suc_le_eq) (metis atLeastLessThan_iff le_neq_implies_less Suc_leI)
  show ?case
    by (cases "t i = 0") (auto simp: Suc.IH strncpy_pad_apply split)
qed

lemma safestrcpy_loop_frame: "i + n < x \<Longrightarrow> safestrcpy_loop n s t i x = s x"
  by (induction n arbitrary: s i) auto

lemma safestrcpy_loop_below: "x < i \<Longrightarrow> safestrcpy_loop n s t i x = s x"
  by (induction n arbitrary: s i) auto

lemma safestrcpy_loop_copies:
  "(\<And>j. i \<le> j \<Longrightarrow> j < x \<Longrightarrow> t j \<noteq> 0) \<Longrightarrow> i \<le> x \<Longrightarrow> x < i + n \<Longrightarrow>
     safestrcpy_loop n s t i x = t x"
proof (induction n arbitrary: s i)
  case 0
  then show ?case by simp
next
  case (Suc n)
  show ?case
  proof (cases "x = i")
    case True
    then show ?thesis by (simp add: safestrcpy_loop_below)
  next
    case False
    then have "t i \<noteq> 0" using Suc.prems(1) [of i] Suc.prems(2) by simp
    then show ?thesis using Suc False by simp
  qed
qed

lemma safestrcpy_loop_end:
  "(\<And>j. i \<le> j \<Longrightarrow> j < i + n \<Longrightarrow> t j \<noteq> 0) \<Longrightarrow> safestrcpy_loop n s t i (i + n) = 0"
proof (induction n arbitrary: s i)
  case 0
  then show ?case by simp
next
  case (Suc n)
  then have "t i \<noteq> 0" by simp
  moreover have "safestrcpy_loop n (s(i := t i)) t (Suc i) (Suc i + n) = 0"
    using Suc.prems by (intro Suc.IH) simp
  ultimately show ?case by simp
qed

lemma strlen_loop_Some:
  "t k = 0 \<Longrightarrow> n \<le> k \<Longrightarrow> (\<And>j. n \<le> j \<Longrightarrow> j < k \<Longrightarrow> t j \<noteq> 0) \<Longrightarrow> strlen_loop t n = Some k"
proof (induction "k - n" arbitrary: n)
  case 0
  then show ?case by (simp add: strlen_loop.simps)
next
  case (Suc d)
  then have "strlen_loop t (Suc n) = Some k" by simp
  moreover have "t n \<noteq> 0" using Suc.prems(3) [of n] Suc.hyps(2) by simp
  ultimately show ?case by (subst strlen_loop.simps) simp
qed

section \<open>memset and memmove\<close>

lemma memset_loop_apply:
  "i + k \<le> 2 ^ 64 \<Longrightarrow>
     memset_loop k m d c i x =
       (if i \<le> unat (x - d) \<and> unat (x - d) < i + k then c else m x)"
proof (induction k arbitrary: m i)
  case 0
  then show ?case by auto
next
  case (Suc k)
  have "unat (x - d) = i" if "x = d + of_nat i"
    using that Suc.prems by (simp add: unat_of_nat64)
  moreover have "x = d + of_nat i" if "unat (x - d) = i"
    using that by (metis add_unat_diff)
  ultimately have eq: "x = d + of_nat i \<longleftrightarrow> unat (x - d) = i" by blast
  have step: "memset_loop (Suc k) m d c i x =
      (if Suc i \<le> unat (x - d) \<and> unat (x - d) < Suc i + k then c
       else (m(d + of_nat i := c)) x)"
    using Suc.IH [of "Suc i"] Suc.prems by simp
  show ?case
    unfolding step fun_upd_apply eq by auto
qed

lemma memset_apply:
  "n \<le> 2 ^ 64 \<Longrightarrow> memset m d c n x = (if unat (x - d) < n then c else m x)"
  by (simp add: memset_def memset_loop_apply)

lemma memmove_up_apply:
  assumes "unat s + n \<le> 2 ^ 64" and "d \<le> s \<or> unat s + n \<le> unat d"
  shows "memmove_up n m d s x = (if unat (x - d) < n then m (s + (x - d)) else m x)"
  using assms
proof (induction n arbitrary: m d s)
  case 0
  then show ?case by simp
next
  case (Suc n)
  let ?m = "m(d := m s)"
  show ?case
  proof (cases "n = 0")
    case True
    then show ?thesis by (auto simp: unat_eq_0)
  next
    case False
    have s1: "unat (s + 1) = unat s + 1"
      using unat_add_of_nat [of s 1] Suc.prems(1) False by simp
    have "d + 1 \<le> s + 1 \<or> unat (s + 1) + n \<le> unat (d + 1)"
    proof (cases "d \<le> s")
      case True
      then have "unat (d + 1) = unat d + 1"
        using unat_add_of_nat [of d 1] Suc.prems(1) False by (simp add: word_le_nat_alt)
      with True s1 show ?thesis by (simp add: word_le_nat_alt)
    next
      case False
      then have le: "unat s + Suc n \<le> unat d" using Suc.prems(2) by simp
      show ?thesis
      proof (cases "d = - 1")
        case True
        then show ?thesis by simp
      next
        case False
        then have "unat (d + 1) = unat d + 1"
          by (metis add_eq_0_iff2 add.commute unatSuc Suc_eq_plus1 Suc_eq_plus1_left
              add.inverse_inverse)
        with le s1 show ?thesis by simp
      qed
    qed
    then have IH: "memmove_up n ?m (d + 1) (s + 1) x =
        (if unat (x - (d + 1)) < n then ?m (s + 1 + (x - (d + 1))) else ?m x)"
      using Suc.prems(1) s1 by (intro Suc.IH) simp_all
    show ?thesis
    proof (cases "x = d")
      case True
      have "unat (x - (d + 1)) = 2 ^ 64 - 1" using True by (simp add: unsigned_minus_1_eq_mask mask_eq_exp_minus_1)
      moreover have "n \<le> 2 ^ 64 - 1" using Suc.prems(1) by simp
      ultimately have "\<not> unat (x - (d + 1)) < n" by simp
      with IH True show ?thesis by simp
    next
      case nd: False
      note dif = unat_diff_Suc [OF nd]
      have src: "?m (s + 1 + (x - (d + 1))) = m (s + (x - d))" if lt: "unat (x - d) < Suc n"
      proof -
        have ov: "unat (s + (x - d)) = unat s + unat (x - d)"
          using unat_add_of_nat [of s "unat (x - d)"] lt Suc.prems(1) by simp
        have "s + (x - d) \<noteq> d"
        proof
          assume "s + (x - d) = d"
          then have "unat d = unat s + unat (x - d)" using ov by (simp only:)
          with Suc.prems(2) lt dif(2) show False by (auto simp: word_le_nat_alt)
        qed
        then show ?thesis by (simp add: algebra_simps)
      qed
      have "unat (x - (d + 1)) < n \<longleftrightarrow> unat (x - d) < Suc n" using dif by linarith
      with IH src nd show ?thesis by simp
    qed
  qed
qed

lemma memmove_down_apply:
  assumes "unat d + n \<le> 2 ^ 64" and "s \<le> d"
  shows "memmove_down n m (d + of_nat n) (s + of_nat n) x =
    (if unat (x - d) < n then m (s + (x - d)) else m x)"
  using assms
proof (induction n arbitrary: m)
  case 0
  then show ?case by simp
next
  case (Suc n)
  let ?m = "m(d + of_nat n := m (s + of_nat n))"
  have "memmove_down (Suc n) m (d + of_nat (Suc n)) (s + of_nat (Suc n)) x =
      memmove_down n ?m (d + of_nat n) (s + of_nat n) x"
    by (simp add: algebra_simps)
  also have "\<dots> = (if unat (x - d) < n then ?m (s + (x - d)) else ?m x)"
    using Suc by simp
  also have "\<dots> = (if unat (x - d) < Suc n then m (s + (x - d)) else m x)"
  proof -
    have n64: "n < 2 ^ 64" using Suc.prems(1) by simp
    have eq: "x = d + of_nat n \<longleftrightarrow> unat (x - d) = n"
      using n64 by (metis add_unat_diff unat_offset_lt)
    have "s + (x - d) \<noteq> d + of_nat n" if lt: "unat (x - d) < n"
    proof
      assume e: "s + (x - d) = d + of_nat n"
      have "unat s \<le> unat d" using Suc.prems(2) by (simp add: word_le_nat_alt)
      then have "unat (s + (x - d)) = unat s + unat (x - d)"
        using unat_add_of_nat [of s "unat (x - d)"] lt Suc.prems(1) by simp
      moreover have "unat (d + of_nat n) = unat d + n"
        using unat_add_of_nat [of d n] Suc.prems(1) by simp
      ultimately show False using \<open>unat s \<le> unat d\<close> lt arg_cong [OF e, of unat] by linarith
    qed
    moreover have "x - d = of_nat n" if "unat (x - d) = n"
      using that by auto
    ultimately show ?thesis unfolding fun_upd_apply eq by auto
  qed
  finally show ?case .
qed

lemma memmove_apply:
  assumes "unat d + n \<le> 2 ^ 64" and "unat s + n \<le> 2 ^ 64"
  shows "memmove m d s n x = (if unat (x - d) < n then m (s + (x - d)) else m x)"
proof (cases "n = 0")
  case True
  then show ?thesis by (simp add: memmove_def)
next
  case nz: False
  show ?thesis
  proof (cases "s < d \<and> s + of_nat n > d")
    case True
    then show ?thesis using memmove_down_apply [OF assms(1), of s m x] nz
      by (simp add: memmove_def less_imp_le)
  next
    case False
    have "d \<le> s \<or> unat s + n \<le> unat d"
    proof (cases "unat s + n = 2 ^ 64")
      case True
      then have "unat (s + of_nat n) = 0"
        by (simp add: unat_word_ariths unat_of_nat mod_simps)
      then have "s + of_nat n = 0" by (simp add: unat_eq_0)
      then show ?thesis using False True assms(1) nz by (auto simp: word_le_nat_alt not_less)
    next
      case lt: False
      then have "unat (s + of_nat n) = unat s + n"
        using assms(2) unat_add_of_nat [of s n] by simp
      with False show ?thesis by (auto simp: word_le_nat_alt word_less_nat_alt)
    qed
    then show ?thesis using memmove_up_apply [OF assms(2)] False nz
      by (auto simp: memmove_def)
  qed
qed

end
