(* ===== verification/Kalloc.thy ===== *)
theory Kalloc
  imports Cstring
begin

text \<open>
  \<open>kernel/kalloc.c\<close>: the physical page allocator with the reference counts of copy-on-write
  fork. The free list is the linked list the code keeps: \<open>freelist\<close> is the address of the first
  free page and the first eight bytes of a free page hold the address of the next one. The
  counter array \<open>pte_count\<close> is indexed by page number. The linker symbol \<open>end\<close> is the field
  \<open>kend\<close>, which no routine writes. \<open>kmem.lock\<close> makes each routine one atomic step.
\<close>

section \<open>State\<close>

record kmem =
  mem :: memory
  freelist :: u64
  pte_count :: "u64 \<Rightarrow> int"
  kend :: u64

section \<open>kalloc.c\<close>

definition inc_count :: "u64 \<Rightarrow> kmem \<Rightarrow> kmem" where
  "inc_count pa km = km\<lparr>pte_count := (pte_count km)(pa div PGSIZE := pte_count km (pa div PGSIZE) + 1)\<rparr>"

definition dec_count :: "u64 \<Rightarrow> kmem \<Rightarrow> kmem" where
  "dec_count pa km = km\<lparr>pte_count := (pte_count km)(pa div PGSIZE := pte_count km (pa div PGSIZE) - 1)\<rparr>"

definition safe_inc_count :: "u64 \<Rightarrow> kmem \<Rightarrow> kmem" where
  "safe_inc_count pa km = inc_count pa km"

definition set_count :: "u64 \<Rightarrow> int \<Rightarrow> kmem \<Rightarrow> kmem" where
  "set_count pa cnt km = km\<lparr>pte_count := (pte_count km)(pa div PGSIZE := cnt)\<rparr>"

definition kfree :: "u64 \<Rightarrow> kmem \<Rightarrow> kmem outcome" where
  "kfree pa km =
     (if pa mod PGSIZE \<noteq> 0 \<or> pa < kend km \<or> PHYSTOP \<le> pa then Panic ''kfree''
      else let km = dec_count pa km
           in if pte_count km (pa div PGSIZE) > 0 then Ok km
              else let m = memset (mem km) pa 1 4096;
                       m = store64 m pa (freelist km)
                   in Ok (km\<lparr>mem := m, freelist := pa\<rparr>))"

definition kalloc :: "kmem \<Rightarrow> u64 \<times> kmem" where
  "kalloc km =
     (let r = freelist km;
          km = (if r \<noteq> 0 then km\<lparr>freelist := load64 (mem km) r\<rparr> else km);
          km = (if r \<noteq> 0 then set_count r 1 (km\<lparr>mem := memset (mem km) r 5 4096\<rparr>) else km)
      in (r, km))"

function freerange_loop :: "u64 \<Rightarrow> u64 \<Rightarrow> kmem \<Rightarrow> kmem outcome" where
  "freerange_loop p pa_end km =
     (if p + PGSIZE \<le> pa_end
      then obind (kfree p (set_count p 1 km)) (\<lambda>km. freerange_loop (p + PGSIZE) pa_end km)
      else Ok km)"
  by pat_completeness auto
termination
proof (relation "measure (\<lambda>(p, _, _). 0x88001000 - unat p)")
  fix p pa_end :: u64 and km km' :: kmem
  assume "kfree p (set_count p 1 km) = Ok km'"
  then have "p < PHYSTOP" by (auto simp: kfree_def split: if_splits)
  then have "unat p < 0x88000000" by (simp add: PHYSTOP_def KERNBASE_def word_less_nat_alt)
  moreover from this have "unat (p + PGSIZE) = unat p + 4096"
    by (simp add: PGSIZE_def unat_word_ariths)
  ultimately show "((p + PGSIZE, pa_end, km'), (p, pa_end, km))
      \<in> measure (\<lambda>(p, _, _). 0x88001000 - unat p)" by simp
qed simp

declare freerange_loop.simps [simp del]

definition freerange :: "u64 \<Rightarrow> u64 \<Rightarrow> kmem \<Rightarrow> kmem outcome" where
  "freerange pa_start pa_end km = freerange_loop (PGROUNDUP pa_start) pa_end km"

definition kinit :: "kmem \<Rightarrow> kmem outcome" where
  "kinit km = freerange (kend km) PHYSTOP (km\<lparr>freelist := 0, pte_count := (\<lambda>_. 0)\<rparr>)"

section \<open>Abstraction and invariant\<close>

definition phys_page :: "kmem \<Rightarrow> u64 \<Rightarrow> bool" where
  "phys_page km a \<longleftrightarrow> page_aligned a \<and> kend km \<le> a \<and> a < PHYSTOP"

definition refs :: "kmem \<Rightarrow> u64 \<Rightarrow> int" where
  "refs km a = pte_count km (a div PGSIZE)"

definition in_page :: "u64 \<Rightarrow> u64 \<Rightarrow> bool" where
  "in_page a x \<longleftrightarrow> unat (x - a) < 4096"

primrec fl_list :: "memory \<Rightarrow> u64 \<Rightarrow> u64 list \<Rightarrow> bool" where
  "fl_list m r [] \<longleftrightarrow> r = 0"
| "fl_list m r (a # as) \<longleftrightarrow> r = a \<and> r \<noteq> 0 \<and> fl_list m (load64 m r) as"

definition kmem_inv :: "kmem \<Rightarrow> u64 list \<Rightarrow> bool" where
  "kmem_inv km xs \<longleftrightarrow>
     0 < kend km \<and> kend km \<le> PHYSTOP \<and>
     fl_list (mem km) (freelist km) xs \<and> distinct xs \<and>
     (\<forall>a\<in>set xs. phys_page km a) \<and>
     (\<forall>a. phys_page km a \<longrightarrow> 0 \<le> refs km a \<and> (refs km a = 0 \<longleftrightarrow> a \<in> set xs))"

section \<open>Pages\<close>

lemma unat_PHYSTOP: "unat PHYSTOP = 0x88000000"
  by (simp add: PHYSTOP_def KERNBASE_def)

lemma phys_page_bound: "phys_page km a \<Longrightarrow> unat a + 4096 \<le> 0x88000000"
proof -
  assume p: "phys_page km a"
  then have "unat a = 4096 * (unat a div 4096)"
    by (intro page_aligned_unat_eq) (simp add: phys_page_def)
  moreover have "unat a div 4096 < 0x88000"
    using p by (simp add: phys_page_def word_less_nat_alt unat_PHYSTOP less_mult_imp_div_less)
  ultimately show ?thesis by linarith
qed

lemma phys_page_less: "phys_page km a \<Longrightarrow> a < 2 ^ 56"
  using phys_page_bound [of km a] by (simp add: word_less_nat_alt)

lemma phys_page_kend: "kend km' = kend km \<Longrightarrow> phys_page km' a = phys_page km a"
  by (simp add: phys_page_def)

lemma in_page_self [simp]: "in_page a a"
  by (simp add: in_page_def)

lemma in_page_offset: "i < 4096 \<Longrightarrow> in_page a (a + of_nat i)"
  by (simp add: in_page_def unat_of_nat64)

lemma in_page_iff_PGROUNDDOWN:
  assumes "page_aligned a"
  shows "in_page a x \<longleftrightarrow> PGROUNDDOWN x = a"
proof
  assume "in_page a x"
  define k where "k = unat (x - a)"
  have k: "k < 4096" and x: "x = a + of_nat k"
    using \<open>in_page a x\<close> by (simp_all add: in_page_def k_def)
  obtain q where a: "unat a = 4096 * q" using page_aligned_unat_eq [OF assms] by blast
  then have "q < 4503599627370496" using unat64_less [of a] by simp
  with a k have "unat a + k < 2 ^ 64" by simp
  then have "unat x = 4096 * q + k" using x a by (simp add: unat_add_of_nat)
  then have "unat (PGROUNDDOWN x) = unat a"
    using a k by (simp add: unat_PGROUNDDOWN)
  then show "PGROUNDDOWN x = a" by (simp add: word_unat_eq_iff)
next
  assume "PGROUNDDOWN x = a"
  then have "x - a = take_bit 12 x"
    using PGROUNDDOWN_take_bit [of x] by (metis add_diff_cancel_left')
  then have "x - a = x mod 4096" by (simp add: take_bit_eq_mod)
  then show "in_page a x" by (simp add: in_page_def unat_mod)
qed

lemma in_page_disjoint:
  "page_aligned a \<Longrightarrow> page_aligned b \<Longrightarrow> a \<noteq> b \<Longrightarrow> in_page b x \<Longrightarrow> \<not> in_page a x"
  by (simp add: in_page_iff_PGROUNDDOWN)

lemma page_number_inj:
  "page_aligned a \<Longrightarrow> page_aligned b \<Longrightarrow> a div PGSIZE = b div PGSIZE \<longleftrightarrow> a = b"
  unfolding page_aligned_def by (metis mult_div_mod_eq add.right_neutral)

lemma memset_page: "memset m a c 4096 x = (if in_page a x then c else m x)"
  by (simp add: memset_apply in_page_def)

lemma store64_in_page: "\<not> in_page a x \<Longrightarrow> store64 m a w x = m x"
  by (simp add: in_page_def store64_other)

section \<open>The free list\<close>

lemma fl_list_cong:
  "(\<And>a i. a \<in> set xs \<Longrightarrow> i < 8 \<Longrightarrow> m (a + of_nat i) = m' (a + of_nat i)) \<Longrightarrow>
     fl_list m r xs = fl_list m' r xs"
proof (induction xs arbitrary: r)
  case Nil
  then show ?case by simp
next
  case (Cons a as)
  have "load64 m a = load64 m' a" by (rule load64_cong) (simp add: Cons.prems)
  with Cons show ?case by auto
qed

lemma fl_list_frame:
  assumes "\<And>x. \<not> in_page p x \<Longrightarrow> m' x = m x" and "page_aligned p"
    and "\<forall>a\<in>set xs. page_aligned a \<and> a \<noteq> p"
  shows "fl_list m' r xs = fl_list m r xs"
proof (rule fl_list_cong)
  fix a and i :: nat assume a: "a \<in> set xs" and i: "i < 8"
  have "\<not> in_page p (a + of_nat i)"
    using in_page_disjoint [of p a "a + of_nat i"] assms(2,3) a i
    by (auto simp: in_page_offset)
  then show "m' (a + of_nat i) = m (a + of_nat i)" by (rule assms(1))
qed

lemma kmem_inv_Nil: "kmem_inv km [] \<Longrightarrow> kalloc km = (0, km)"
  by (simp add: kmem_inv_def kalloc_def)

text \<open>What \<open>kalloc\<close> does when a page is free.\<close>

lemma kalloc_Cons:
  assumes inv: "kmem_inv km (a # as)"
  obtains km' where "kalloc km = (a, km')" "kmem_inv km' as" "a \<noteq> 0" "phys_page km a"
    "pte_count km' = (pte_count km)(a div PGSIZE := 1)" "kend km' = kend km"
    "\<And>x. mem km' x = (if in_page a x then 5 else mem km x)"
proof
  let ?km' = "snd (kalloc km)"
  have r: "freelist km = a" "a \<noteq> 0" and pg: "phys_page km a"
    and al: "\<forall>b\<in>set as. page_aligned b \<and> b \<noteq> a"
    using inv by (auto simp: kmem_inv_def phys_page_def)
  have km': "?km' = km\<lparr>freelist := load64 (mem km) a, mem := memset (mem km) a 5 4096,
      pte_count := (pte_count km)(a div PGSIZE := 1)\<rparr>"
    using r by (simp add: kalloc_def Let_def set_count_def)
  show "kalloc km = (a, ?km')" using r by (simp add: kalloc_def Let_def)
  show "mem ?km' x = (if in_page a x then 5 else mem km x)" for x
    by (simp add: km' memset_page)
  show "pte_count ?km' = (pte_count km)(a div PGSIZE := 1)" "kend ?km' = kend km"
    by (simp_all add: km')
  have fl: "fl_list (mem ?km') (load64 (mem km) a) as = fl_list (mem km) (load64 (mem km) a) as"
    using pg al by (intro fl_list_frame [of a]) (auto simp: km' memset_page phys_page_def)
  have "refs ?km' b = (if b = a then 1 else refs km b)" if "phys_page km b" for b
    using that pg by (auto simp: refs_def km' page_number_inj phys_page_def)
  then show "kmem_inv ?km' as"
    using inv fl r by (auto simp: kmem_inv_def km' phys_page_def)
  show "a \<noteq> 0" "phys_page km a" using r pg by simp_all
qed

text \<open>What \<open>kfree\<close> does with a page in use: one reference less, and a free page at the last.\<close>

lemma kfree_shared:
  assumes "phys_page km a" and "1 < refs km a"
  shows "kfree a km = Ok (dec_count a km)"
  using assms by (auto simp: kfree_def phys_page_def page_aligned_def refs_def dec_count_def)

lemma kmem_inv_dec:
  assumes "kmem_inv km xs" and "phys_page km a" and "1 < refs km a"
  shows "kmem_inv (dec_count a km) xs"
proof -
  have r: "refs (dec_count a km) b = (if b = a then refs km a - 1 else refs km b)"
    if "phys_page km b" for b
    using that assms(2) by (auto simp: refs_def dec_count_def page_number_inj phys_page_def)
  have p: "phys_page (dec_count a km) b = phys_page km b" for b
    by (simp add: phys_page_def dec_count_def)
  show ?thesis
    unfolding kmem_inv_def p
    using assms r by (auto simp: kmem_inv_def dec_count_def [of a km])
qed

lemma kmem_inv_inc:
  assumes "kmem_inv km xs" and "phys_page km a" and "0 < refs km a"
  shows "kmem_inv (inc_count a km) xs"
proof -
  have r: "refs (inc_count a km) b = (if b = a then refs km a + 1 else refs km b)"
    if "phys_page km b" for b
    using that assms(2) by (auto simp: refs_def inc_count_def page_number_inj phys_page_def)
  have p: "phys_page (inc_count a km) b = phys_page km b" for b
    by (simp add: phys_page_def inc_count_def)
  show ?thesis
    unfolding kmem_inv_def p
    using assms r by (auto simp: kmem_inv_def inc_count_def [of a km])
qed

lemma kfree_last:
  assumes inv: "kmem_inv km xs" and pg: "phys_page km a" and one: "refs km a = 1"
  obtains km' where "kfree a km = Ok km'" "kmem_inv km' (a # xs)"
    "pte_count km' = (pte_count km)(a div PGSIZE := 0)" "kend km' = kend km"
    "\<And>x. \<not> in_page a x \<Longrightarrow> mem km' x = mem km x"
proof
  let ?m = "store64 (memset (mem km) a 1 4096) a (freelist km)"
  let ?km' = "km\<lparr>mem := ?m, freelist := a, pte_count := (pte_count km)(a div PGSIZE := 0)\<rparr>"
  have notin: "a \<notin> set xs" using inv pg one by (auto simp: kmem_inv_def)
  have a0: "a \<noteq> 0" using inv pg by (auto simp: kmem_inv_def phys_page_def)
  show "kfree a km = Ok ?km'"
    using pg one
    by (simp add: kfree_def phys_page_def page_aligned_def refs_def dec_count_def Let_def not_less not_le)
  have frame: "?m x = mem km x" if "\<not> in_page a x" for x
    using that by (simp add: store64_in_page memset_page)
  then show "mem ?km' x = mem km x" if "\<not> in_page a x" for x
    using that by simp
  have al: "\<forall>b\<in>set xs. page_aligned b \<and> b \<noteq> a"
    using inv notin by (auto simp: kmem_inv_def phys_page_def)
  have "fl_list ?m (freelist km) xs = fl_list (mem km) (freelist km) xs"
    using pg al by (intro fl_list_frame [of a] frame) (simp_all add: phys_page_def)
  then have fl: "fl_list ?m a (a # xs)" using inv a0 by (simp add: kmem_inv_def)
  have "refs ?km' b = (if b = a then 0 else refs km b)" if "phys_page km b" for b
    using that pg by (auto simp: refs_def page_number_inj phys_page_def)
  then show "kmem_inv ?km' (a # xs)"
    using inv fl notin pg by (auto simp: kmem_inv_def phys_page_def)
qed simp_all

section \<open>Initialisation\<close>

lemma freerange_loop_spec:
  assumes "page_aligned p" "kend km \<le> p" "p \<le> PHYSTOP" "0 < kend km"
    and "pte_count km = (\<lambda>_. 0)" "fl_list (mem km) (freelist km) xs" "distinct xs"
    and "set xs = {a. phys_page km a \<and> a < p}"
  shows "\<exists>km' xs'. freerange_loop p PHYSTOP km = Ok km' \<and> pte_count km' = (\<lambda>_. 0) \<and>
    kend km' = kend km \<and> fl_list (mem km') (freelist km') xs' \<and> distinct xs' \<and>
    set xs' = {a. phys_page km a}"
  using assms
proof (induction p PHYSTOP km arbitrary: xs rule: freerange_loop.induct)
  case (1 p km)
  have up: "unat p \<le> 0x88000000" using "1.prems"(3) by (simp add: word_le_nat_alt unat_PHYSTOP)
  then have p4: "unat (p + PGSIZE) = unat p + 4096" by (simp add: PGSIZE_def unat_word_ariths)
  obtain q where q: "unat p = 4096 * q" using page_aligned_unat_eq [OF "1.prems"(1)] by blast
  show ?case
  proof (cases "p + PGSIZE \<le> PHYSTOP")
    case False
    then have "unat p = 0x88000000" using up p4 q by (simp add: word_le_nat_alt unat_PHYSTOP)
    then have "phys_page km a \<longrightarrow> a < p" for a
      by (simp add: phys_page_def word_less_nat_alt unat_PHYSTOP)
    then have "set xs = {a. phys_page km a}" using "1.prems"(8) by auto
    then show ?thesis using False "1.prems" by (subst freerange_loop.simps) auto
  next
    case True
    then have pg: "phys_page km p"
      using "1.prems" p4 by (simp add: phys_page_def word_le_nat_alt word_less_nat_alt)
    let ?k = "set_count p 1 km"
    let ?m = "store64 (memset (mem km) p 1 4096) p (freelist km)"
    let ?km' = "?k\<lparr>mem := ?m, freelist := p, pte_count := (\<lambda>_. 0)\<rparr>"
    have kf: "kfree p ?k = Ok ?km'"
      using pg "1.prems"(5)
      by (auto simp: kfree_def set_count_def dec_count_def phys_page_def page_aligned_def Let_def
          not_le not_less fun_upd_idem)
    have same: "phys_page ?km' a = phys_page km a" for a
      by (simp add: phys_page_def set_count_def)
    have al: "\<forall>b\<in>set xs. page_aligned b \<and> b \<noteq> p"
      using "1.prems"(8) by (auto simp: phys_page_def)
    have "fl_list ?m (freelist km) xs = fl_list (mem km) (freelist km) xs"
      using al "1.prems"(1) by (intro fl_list_frame [of p]) (simp_all add: store64_in_page memset_page)
    moreover have p0: "p \<noteq> 0" using "1.prems"(2,4) by auto
    ultimately have fl: "fl_list ?m p (p # xs)" using "1.prems"(6) by simp
    have next_page: "a < p + PGSIZE \<longleftrightarrow> a < p \<or> a = p" if al_a: "page_aligned a" for a
    proof -
      obtain r where "unat a = 4096 * r" using page_aligned_unat_eq [OF al_a] by blast
      then show ?thesis using q p4 by (auto simp: word_less_nat_alt word_unat_eq_iff)
    qed
    have "set (p # xs) = {a. phys_page ?km' a \<and> a < p + PGSIZE}"
      using "1.prems"(8) next_page pg unfolding same by (auto simp: phys_page_def)
    moreover have "page_aligned (p + PGSIZE)"
      using page_aligned_add [OF "1.prems"(1)] by (simp add: PGSIZE_def)
    moreover have "kend ?km' \<le> p + PGSIZE"
      using "1.prems"(2) p4 by (simp add: word_le_nat_alt set_count_def)
    ultimately have "\<exists>km'' xs'. freerange_loop (p + PGSIZE) PHYSTOP ?km' = Ok km'' \<and>
        pte_count km'' = (\<lambda>_. 0) \<and> kend km'' = kend ?km' \<and>
        fl_list (mem km'') (freelist km'') xs' \<and> distinct xs' \<and> set xs' = {a. phys_page ?km' a}"
      using True "1.prems" fl al
      by (intro "1.hyps" [OF True kf, of "p # xs"]) (auto simp: set_count_def)
    then show ?thesis
      unfolding same using True kf by (subst freerange_loop.simps) (auto simp: set_count_def)
  qed
qed

lemma no_page_below_PGROUNDUP:
  assumes "phys_page km a" and "kend km \<le> PHYSTOP"
  shows "\<not> a < PGROUNDUP (kend km)"
proof -
  obtain r where r: "unat a = 4096 * r"
    using page_aligned_unat_eq assms(1) by (auto simp: phys_page_def)
  have "unat (kend km) \<le> 0x88000000" using assms(2) by (simp add: word_le_nat_alt unat_PHYSTOP)
  then have "unat (PGROUNDUP (kend km)) = (unat (kend km) + 4095) div 4096 * 4096"
    by (simp add: unat_PGROUNDUP)
  moreover have "(unat (kend km) + 4095) div 4096 \<le> r"
    using assms(1) r by (simp add: phys_page_def word_le_nat_alt div_le_mono less_mult_imp_div_less
        le_simps(2) [symmetric])
  ultimately show ?thesis using r by (simp add: word_less_nat_alt)
qed

lemma kinit_inv:
  assumes "0 < kend km" and "kend km \<le> PHYSTOP"
  shows "\<exists>km' xs. kinit km = Ok km' \<and> kmem_inv km' xs \<and> kend km' = kend km \<and>
    set xs = {a. phys_page km a}"
proof -
  let ?k = "km\<lparr>freelist := 0, pte_count := (\<lambda>_. 0)\<rparr>"
  let ?p = "PGROUNDUP (kend km)"
  have up: "unat (kend km) \<le> 0x88000000" using assms(2) by (simp add: word_le_nat_alt unat_PHYSTOP)
  then have u: "unat ?p = (unat (kend km) + 4095) div 4096 * 4096" by (simp add: unat_PGROUNDUP)
  have "kend km \<le> ?p" "?p \<le> PHYSTOP"
    using up by (simp_all add: word_le_nat_alt u unat_PHYSTOP)
  moreover have "{a. phys_page ?k a \<and> a < ?p} = {}"
    using no_page_below_PGROUNDUP [OF _ assms(2)] by (auto simp: phys_page_def)
  ultimately obtain km' xs where r: "freerange_loop ?p PHYSTOP ?k = Ok km'" and
    c: "pte_count km' = (\<lambda>_. 0)" "kend km' = kend ?k" "fl_list (mem km') (freelist km') xs"
    "distinct xs" "set xs = {a. phys_page ?k a}"
    using freerange_loop_spec [of ?p ?k "[]"] assms by auto
  have ph: "phys_page ?k = phys_page km" "phys_page km' = phys_page km"
    using c(2) by (auto simp: phys_page_def fun_eq_iff)
  have "kinit km = Ok km'" using r by (simp add: kinit_def freerange_def)
  moreover have "kmem_inv km' xs"
    unfolding kmem_inv_def ph refs_def using c assms by (auto simp: ph)
  ultimately show ?thesis using c by (auto simp: ph)
qed

section \<open>The allocator as an interface\<close>

locale page_allocator =
  fixes alloc :: "'s \<Rightarrow> u64 \<times> 's"
    and share :: "u64 \<Rightarrow> 's \<Rightarrow> 's"
    and dealloc :: "u64 \<Rightarrow> 's \<Rightarrow> 's outcome"
    and inv :: "'s \<Rightarrow> bool"
    and page :: "'s \<Rightarrow> u64 \<Rightarrow> bool"
    and rc :: "'s \<Rightarrow> u64 \<Rightarrow> int"
  assumes alloc_none: "inv s \<Longrightarrow> (\<And>a. page s a \<Longrightarrow> rc s a \<noteq> 0) \<Longrightarrow> alloc s = (0, s)"
    and alloc_some: "inv s \<Longrightarrow> page s b \<Longrightarrow> rc s b = 0 \<Longrightarrow>
      \<exists>a s'. alloc s = (a, s') \<and> a \<noteq> 0 \<and> page s a \<and> rc s a = 0 \<and> inv s' \<and> page s' = page s \<and>
        (\<forall>c. page s c \<longrightarrow> rc s' c = (if c = a then 1 else rc s c))"
    and share: "inv s \<Longrightarrow> page s a \<Longrightarrow> 0 < rc s a \<Longrightarrow>
      inv (share a s) \<and> page (share a s) = page s \<and>
      (\<forall>c. page s c \<longrightarrow> rc (share a s) c = (if c = a then rc s c + 1 else rc s c))"
    and dealloc: "inv s \<Longrightarrow> page s a \<Longrightarrow> 0 < rc s a \<Longrightarrow>
      \<exists>s'. dealloc a s = Ok s' \<and> inv s' \<and> page s' = page s \<and>
        (\<forall>c. page s c \<longrightarrow> rc s' c = (if c = a then rc s c - 1 else rc s c))"
begin

lemma share_times:
  assumes "inv s" "page s a" "0 < rc s a"
  shows "inv ((share a ^^ n) s) \<and> page ((share a ^^ n) s) = page s \<and>
    (\<forall>c. page s c \<longrightarrow> rc ((share a ^^ n) s) c = (if c = a then rc s c + int n else rc s c))"
proof (induction n)
  case 0
  then show ?case using assms by simp
next
  case (Suc n)
  let ?s = "(share a ^^ n) s"
  have "inv (share a ?s) \<and> page (share a ?s) = page ?s \<and>
      (\<forall>c. page ?s c \<longrightarrow> rc (share a ?s) c = (if c = a then rc ?s c + 1 else rc ?s c))"
    using Suc assms by (intro share) auto
  then show ?case using Suc by auto
qed

lemma dealloc_times:
  assumes "inv s" "page s a" "int n \<le> rc s a"
  shows "\<exists>s'. times n (dealloc a) s = Ok s' \<and> inv s' \<and> page s' = page s \<and>
    (\<forall>c. page s c \<longrightarrow> rc s' c = (if c = a then rc s c - int n else rc s c))"
  using assms
proof (induction n arbitrary: s)
  case 0
  then show ?case by simp
next
  case (Suc n)
  then obtain t where t: "dealloc a s = Ok t" "inv t" "page t = page s"
      "\<forall>c. page s c \<longrightarrow> rc t c = (if c = a then rc s c - 1 else rc s c)"
    using dealloc [of s a] by auto
  moreover have "int n \<le> rc t a" using t(4) Suc.prems by auto
  ultimately obtain s' where s': "times n (dealloc a) t = Ok s'" "inv s'" "page s' = page t"
      "\<forall>c. page t c \<longrightarrow> rc s' c = (if c = a then rc t c - int n else rc t c)"
    using Suc.IH [of t] Suc.prems by auto
  have "times (Suc n) (dealloc a) s = Ok s'" using t(1) s'(1) by simp
  moreover have "rc s' c = (if c = a then rc s c - int (Suc n) else rc s c)" if "page s c" for c
    using s'(4) t(3,4) that by auto
  ultimately show ?case using s'(2,3) t(3) by auto
qed

lemma freed_by_last:
  assumes "inv s" "alloc s = (a, t)" "a \<noteq> 0" "k \<le> Suc n"
  shows "\<exists>u. times k (dealloc a) ((share a ^^ n) t) = Ok u \<and> inv u \<and>
    rc u a = int (Suc n) - int k \<and> (\<forall>c. page s c \<longrightarrow> c \<noteq> a \<longrightarrow> rc u c = rc s c)"
proof -
  obtain b where "page s b" "rc s b = 0"
    using alloc_none [OF assms(1)] assms(2,3) by auto
  then have t: "page s a" "inv t" "page t = page s"
      "\<forall>c. page s c \<longrightarrow> rc t c = (if c = a then 1 else rc s c)"
    using alloc_some [OF assms(1)] assms(2) by auto
  let ?v = "(share a ^^ n) t"
  have v: "inv ?v \<and> page ?v = page t \<and>
      (\<forall>c. page t c \<longrightarrow> rc ?v c = (if c = a then rc t c + int n else rc t c))"
    using t by (intro share_times) auto
  then have "rc ?v a = 1 + int n" using t by auto
  then obtain u where u: "times k (dealloc a) ?v = Ok u" "inv u" "page u = page ?v"
      "\<forall>c. page ?v c \<longrightarrow> rc u c = (if c = a then rc ?v c - int k else rc ?v c)"
    using dealloc_times [of ?v a k] v t assms(4) by auto
  then show ?thesis using v t by auto
qed

end

definition kalloc_ok :: "kmem \<Rightarrow> bool" where
  "kalloc_ok km \<longleftrightarrow> (\<exists>xs. kmem_inv km xs)"

lemma phys_page_fun: "kend km' = kend km \<Longrightarrow> phys_page km' = phys_page km"
  by (simp add: phys_page_def fun_eq_iff)

lemma refs_upd:
  "phys_page km a \<Longrightarrow> phys_page km c \<Longrightarrow> pte_count km' = (pte_count km)(a div PGSIZE := v) \<Longrightarrow>
     refs km' c = (if c = a then v else refs km c)"
  by (auto simp: refs_def page_number_inj phys_page_def)

lemma kfree_in_use:
  assumes "kalloc_ok km" "phys_page km a" "0 < refs km a"
  shows "\<exists>km'. kfree a km = Ok km' \<and> kalloc_ok km' \<and> kend km' = kend km \<and>
    pte_count km' = (pte_count km)(a div PGSIZE := refs km a - 1) \<and>
    (\<forall>x. \<not> in_page a x \<longrightarrow> mem km' x = mem km x) \<and> (1 < refs km a \<longrightarrow> mem km' = mem km)"
proof -
  obtain xs where xs: "kmem_inv km xs" using assms(1) by (auto simp: kalloc_ok_def)
  show ?thesis
  proof (cases "1 < refs km a")
    case True
    then show ?thesis
      using kfree_shared [OF assms(2) True] kmem_inv_dec [OF xs assms(2) True]
      by (auto simp: kalloc_ok_def dec_count_def refs_def)
  next
    case False
    then have "refs km a = 1" using assms(3) by simp
    then show ?thesis
      using kfree_last [OF xs assms(2)] False by (metis kalloc_ok_def diff_self)
  qed
qed

interpretation ka: page_allocator kalloc safe_inc_count kfree kalloc_ok phys_page refs
proof (unfold_locales, goal_cases)
  case (1 s)
  then obtain xs where xs: "kmem_inv s xs" by (auto simp: kalloc_ok_def)
  moreover have "xs = []" using xs 1(2) by (cases xs) (auto simp: kmem_inv_def)
  ultimately show ?case by (simp add: kmem_inv_Nil)
next
  case (2 s b)
  then obtain xs where "kmem_inv s xs" and "b \<in> set xs" by (auto simp: kalloc_ok_def kmem_inv_def)
  then obtain a as where "kmem_inv s (a # as)" by (cases xs) auto
  moreover from this have "refs s a = 0" by (auto simp: kmem_inv_def)
  ultimately show ?case
    by (elim kalloc_Cons) (force simp: kalloc_ok_def refs_upd dest: phys_page_fun)
next
  case (3 s a)
  then show ?case
    using kmem_inv_inc [of s _ a]
    by (auto simp: kalloc_ok_def safe_inc_count_def inc_count_def refs_def page_number_inj
        phys_page_def fun_eq_iff)
next
  case (4 s a)
  then show ?case using kfree_in_use [of s a] by (auto simp: refs_upd dest: phys_page_fun)
qed

section \<open>Properties\<close>

text \<open>
  C2: \<open>kinit()\<close> returns, and afterwards every page between the end of the kernel and
  \<open>PHYSTOP\<close> is on the free list exactly once, with reference count 0, and nothing else is.
\<close>

theorem kinit_frees_all_memory:
  assumes "0 < kend km" and "kend km \<le> PHYSTOP"
  shows "\<exists>km' xs. kinit km = Ok km' \<and> fl_list (mem km') (freelist km') xs \<and> distinct xs \<and>
    set xs = {a. page_aligned a \<and> kend km \<le> a \<and> a < PHYSTOP} \<and> (\<forall>a\<in>set xs. refs km' a = 0)"
proof -
  obtain km' xs where "kinit km = Ok km'" "kmem_inv km' xs" "kend km' = kend km"
    "set xs = {a. phys_page km a}"
    using kinit_inv [OF assms] by blast
  then show ?thesis by (fastforce simp: kmem_inv_def phys_page_def)
qed

definition demo_ram :: kmem where
  "demo_ram = \<lparr>mem = (\<lambda>_. 0), freelist = 0, pte_count = (\<lambda>_. 0), kend = PHYSTOP - 8192\<rparr>"

theorem kinit_frees_all_memory_witness:
  "\<exists>km' xs. kinit demo_ram = Ok km' \<and> fl_list (mem km') (freelist km') xs \<and> distinct xs \<and>
    set xs = {a. page_aligned a \<and> kend demo_ram \<le> a \<and> a < PHYSTOP} \<and> (\<forall>a\<in>set xs. refs km' a = 0)"
  by (rule kinit_frees_all_memory) (simp_all add: demo_ram_def PHYSTOP_def KERNBASE_def)

text \<open>
  C3: a page handed out by \<open>kalloc\<close> and shared \<open>n\<close> more times (\<open>safe_inc_count\<close>, one call per
  copy-on-write sharer) survives \<open>n\<close> calls of \<open>kfree\<close> and goes back on the free list with call
  \<open>n + 1\<close>: none of these calls panics, and no other page's count changes.
\<close>

theorem shared_page_freed_by_last_kfree:
  assumes "kalloc_ok km" and "kalloc km = (a, km')" and "a \<noteq> 0" and "k \<le> Suc n"
  shows "\<exists>u xs. times k (kfree a) ((safe_inc_count a ^^ n) km') = Ok u \<and> kmem_inv u xs \<and>
    refs u a = int (Suc n) - int k \<and> (\<forall>c. phys_page km c \<longrightarrow> c \<noteq> a \<longrightarrow> refs u c = refs km c)"
  using ka.freed_by_last [OF assms] by (auto simp: kalloc_ok_def)

definition one_page :: kmem where
  "one_page = \<lparr>mem = (\<lambda>_. 0), freelist = 0x87FFF000, pte_count = (\<lambda>_. 0), kend = 0x87FFF000\<rparr>"

lemma word_of_zero_bytes: "\<forall>b\<in>set bs. b = 0 \<Longrightarrow> word_of_bytes bs = 0"
  by (induction bs) auto

lemma load64_zero: "(\<And>i. i < 8 \<Longrightarrow> m (a + of_nat i) = 0) \<Longrightarrow> load64 m a = 0"
  unfolding load64_def by (rule word_of_zero_bytes) (auto simp: load_bytes_def)

lemma one_page_inv: "kmem_inv one_page [0x87FFF000]"
proof -
  have only: "a = 0x87FFF000" if pg: "phys_page one_page a" for a
  proof -
    have "page_aligned a" using pg by (simp add: phys_page_def)
    then obtain q where "unat a = 4096 * q" using page_aligned_unat_eq by blast
    then show ?thesis
      using pg phys_page_bound [OF pg]
      by (auto simp: phys_page_def one_page_def word_le_nat_alt word_unat_eq_iff)
  qed
  moreover have "phys_page one_page 0x87FFF000"
    by (simp add: phys_page_def page_aligned_def one_page_def PHYSTOP_def KERNBASE_def PGSIZE_def)
  moreover have "load64 (mem one_page) 0x87FFF000 = 0"
    by (rule load64_zero) (simp add: one_page_def)
  ultimately show ?thesis
    by (auto simp: kmem_inv_def one_page_def PHYSTOP_def KERNBASE_def refs_def dest!: only)
qed

theorem shared_page_freed_by_last_kfree_witness:
  "\<exists>u xs. times 3 (kfree 0x87FFF000)
      ((safe_inc_count 0x87FFF000 ^^ 2) (snd (kalloc one_page))) = Ok u \<and>
    kmem_inv u xs \<and> refs u 0x87FFF000 = 0"
proof -
  have ok: "kalloc_ok one_page" using one_page_inv by (auto simp: kalloc_ok_def)
  have al: "kalloc one_page = (0x87FFF000, snd (kalloc one_page))"
    by (simp add: kalloc_def one_page_def Let_def)
  show ?thesis using shared_page_freed_by_last_kfree [OF ok al, of 3 2] by auto
qed

end
