(* ===== verification/Vm.thy ===== *)
theory Vm
  imports Kalloc
begin

text \<open>
  \<open>kernel/vm.c\<close> and \<open>cow_page_fault\<close> of \<open>kernel/trap.c\<close>: Sv39 page tables in physical memory.
  A \<open>pagetable_t\<close> is the physical address of a page of 512 eight-byte entries; a \<open>pte_t *\<close> is the
  physical address of an entry, 0 standing for the null pointer. Every routine passes the
  allocator state, whose \<open>mem\<close> holds the page-table pages and the user pages alike.

  A loop over pages recurses on the address; it ends because \<open>walk\<close> panics from \<open>MAXVA\<close> on.
  \<open>freewalk\<close> recurses along the entries it finds in memory, so it carries the number of levels
  it may still descend (three at the root); deeper than that it would not return (\<open>Block\<close>).
  Kernel-side buffers (\<open>char *src\<close>, \<open>char *dst\<close>) are byte lists.
\<close>

definition pte_slot :: "u64 \<Rightarrow> u64 \<Rightarrow> u64" where
  "pte_slot pagetable i = pagetable + 8 * i"

section \<open>walk, walkaddr, mappages\<close>

definition walk_step :: "bool \<Rightarrow> u64 \<Rightarrow> u64 \<Rightarrow> kmem \<Rightarrow> u64 option \<times> kmem" where
  "walk_step alloc pagetable i km =
     (let pte = pte_slot pagetable i
      in if load64 (mem km) pte AND PTE_V \<noteq> 0 then (Some (PTE2PA (load64 (mem km) pte)), km)
         else if \<not> alloc then (None, km)
         else let (pg, km) = kalloc km
              in if pg = 0 then (None, km)
                 else let m = memset (mem km) pg 0 4096
                      in (Some pg, km\<lparr>mem := store64 m pte (PA2PTE pg OR PTE_V)\<rparr>))"

primrec walk_loop :: "nat \<Rightarrow> u64 \<Rightarrow> u64 \<Rightarrow> bool \<Rightarrow> kmem \<Rightarrow> u64 \<times> kmem" where
  "walk_loop 0 pagetable va alloc km = (pte_slot pagetable (PX 0 va), km)"
| "walk_loop (Suc l) pagetable va alloc km =
     (let (t, km) = walk_step alloc pagetable (PX (Suc l) va) km
      in case t of None \<Rightarrow> (0, km) | Some pagetable \<Rightarrow> walk_loop l pagetable va alloc km)"

definition walk :: "u64 \<Rightarrow> u64 \<Rightarrow> bool \<Rightarrow> kmem \<Rightarrow> (u64 \<times> kmem) outcome" where
  "walk pagetable va alloc km =
     (if MAXVA \<le> va then Panic ''walk'' else Ok (walk_loop 2 pagetable va alloc km))"

definition walkaddr :: "u64 \<Rightarrow> u64 \<Rightarrow> kmem \<Rightarrow> u64 outcome" where
  "walkaddr pagetable va km =
     (if MAXVA \<le> va then Ok 0
      else obind (walk pagetable va False km) (\<lambda>(pte, km).
        if pte = 0 then Ok 0
        else let e = load64 (mem km) pte
             in if e AND PTE_V = 0 then Ok 0
                else if e AND PTE_U = 0 then Ok 0
                else Ok (PTE2PA e)))"

lemma walk_below_MAXVA: "walk pagetable va alloc km = Ok x \<Longrightarrow> va < MAXVA"
  by (auto simp: walk_def not_le split: if_splits)

lemma page_step_measure:
  fixes a :: u64
  assumes "a < MAXVA"
  shows "0x4000001000 - unat (a + PGSIZE) < 0x4000001000 - unat a"
proof -
  have "unat a < 0x4000000000" using assms by (simp add: MAXVA_def push_bit_eq_mult word_less_nat_alt)
  moreover from this have "unat (a + PGSIZE) = unat a + 4096"
    by (simp add: PGSIZE_def unat_word_ariths)
  ultimately show ?thesis by simp
qed

function mappages_loop :: "u64 \<Rightarrow> u64 \<Rightarrow> u64 \<Rightarrow> u64 \<Rightarrow> u64 \<Rightarrow> kmem \<Rightarrow> (int \<times> kmem) outcome" where
  "mappages_loop pagetable a a_last pa perm km =
     obind (walk pagetable a True km) (\<lambda>(pte, km).
       if pte = 0 then Ok (- 1, km)
       else if load64 (mem km) pte AND PTE_V \<noteq> 0 then Panic ''mappages: remap''
       else let km = km\<lparr>mem := store64 (mem km) pte (PA2PTE pa OR perm OR PTE_V)\<rparr>
            in if a = a_last then Ok (0, km)
               else mappages_loop pagetable (a + PGSIZE) a_last (pa + PGSIZE) perm km)"
  by pat_completeness auto
termination
  by (relation "measure (\<lambda>(_, a, _). 0x4000001000 - unat a)")
    (auto dest!: walk_below_MAXVA intro: page_step_measure)

declare mappages_loop.simps [simp del]

definition mappages :: "u64 \<Rightarrow> u64 \<Rightarrow> u64 \<Rightarrow> u64 \<Rightarrow> u64 \<Rightarrow> kmem \<Rightarrow> (int \<times> kmem) outcome" where
  "mappages pagetable va sz pa perm km =
     (if sz = 0 then Panic ''mappages: size''
      else mappages_loop pagetable (PGROUNDDOWN va) (PGROUNDDOWN (va + sz - 1)) pa perm km)"

lemma mappages_below_MAXVA:
  assumes "mappages pagetable va sz pa perm km = Ok x"
  shows "va < MAXVA"
proof -
  have "PGROUNDDOWN va < MAXVA"
    using assms by (subst (asm) mappages_def, subst (asm) mappages_loop.simps)
      (auto simp: outcome_simps dest: walk_below_MAXVA split: if_splits)
  then have "unat va div 4096 < 0x4000000"
    by (simp add: word_less_nat_alt unat_PGROUNDDOWN MAXVA_def push_bit_eq_mult)
  then have "unat va < 0x4000000 * 4096" by (simp add: div_less_iff_less_mult)
  then show ?thesis by (simp add: word_less_nat_alt MAXVA_def push_bit_eq_mult)
qed

definition kvmmap :: "u64 \<Rightarrow> u64 \<Rightarrow> u64 \<Rightarrow> u64 \<Rightarrow> u64 \<Rightarrow> kmem \<Rightarrow> kmem outcome" where
  "kvmmap kpgtbl va pa sz perm km =
     obind (mappages kpgtbl va sz pa perm km) (\<lambda>(r, km).
       if r \<noteq> 0 then Panic ''kvmmap'' else Ok km)"

section \<open>The kernel's page table\<close>

primrec proc_mapstacks_loop :: "nat list \<Rightarrow> u64 \<Rightarrow> kmem \<Rightarrow> kmem outcome" where
  "proc_mapstacks_loop [] kpgtbl km = Ok km"
| "proc_mapstacks_loop (p # ps) kpgtbl km =
     (let (pa, km) = kalloc km
      in if pa = 0 then Panic ''kalloc''
         else obind (kvmmap kpgtbl (KSTACK (of_nat p)) pa PGSIZE (PTE_R OR PTE_W) km)
                (\<lambda>km. proc_mapstacks_loop ps kpgtbl km))"

definition proc_mapstacks :: "u64 \<Rightarrow> kmem \<Rightarrow> kmem outcome" where
  "proc_mapstacks kpgtbl km = proc_mapstacks_loop [0..<NPROC] kpgtbl km"

text \<open>The linker symbols \<open>etext\<close> and \<open>trampoline\<close> are arguments.\<close>

definition kvmmake :: "u64 \<Rightarrow> u64 \<Rightarrow> kmem \<Rightarrow> (u64 \<times> kmem) outcome" where
  "kvmmake etext trampoline km =
     (let (kpgtbl, km) = kalloc km;
          km = km\<lparr>mem := memset (mem km) kpgtbl 0 4096\<rparr>
      in obind (kvmmap kpgtbl UART0 UART0 PGSIZE (PTE_R OR PTE_W) km) (\<lambda>km.
         obind (kvmmap kpgtbl VIRTIO0 VIRTIO0 PGSIZE (PTE_R OR PTE_W) km) (\<lambda>km.
         obind (kvmmap kpgtbl PLIC PLIC 0x400000 (PTE_R OR PTE_W) km) (\<lambda>km.
         obind (kvmmap kpgtbl KERNBASE KERNBASE (etext - KERNBASE) (PTE_R OR PTE_X) km) (\<lambda>km.
         obind (kvmmap kpgtbl etext etext (PHYSTOP - etext) (PTE_R OR PTE_W) km) (\<lambda>km.
         obind (kvmmap kpgtbl TRAMPOLINE trampoline PGSIZE (PTE_R OR PTE_X) km) (\<lambda>km.
         obind (proc_mapstacks kpgtbl km) (\<lambda>km. Ok (kpgtbl, km)))))))))"

section \<open>User page tables\<close>

function uvmunmap_loop :: "u64 \<Rightarrow> u64 \<Rightarrow> u64 \<Rightarrow> bool \<Rightarrow> kmem \<Rightarrow> kmem outcome" where
  "uvmunmap_loop pagetable a a_end do_free km =
     (if a < a_end
      then obind (walk pagetable a False km) (\<lambda>(pte, km).
        if pte = 0 then Panic ''uvmunmap: walk''
        else let e = load64 (mem km) pte
             in if e AND PTE_V = 0 then Panic ''uvmunmap: not mapped''
                else if PTE_FLAGS e = PTE_V then Panic ''uvmunmap: not a leaf''
                else obind (if do_free then kfree (PTE2PA e) km else Ok km) (\<lambda>km.
                  uvmunmap_loop pagetable (a + PGSIZE) a_end do_free
                    (km\<lparr>mem := store64 (mem km) pte 0\<rparr>)))
      else Ok km)"
  by pat_completeness auto
termination
  by (relation "measure (\<lambda>(_, a, _). 0x4000001000 - unat a)")
    (auto dest!: walk_below_MAXVA intro: page_step_measure)

declare uvmunmap_loop.simps [simp del]

definition uvmunmap :: "u64 \<Rightarrow> u64 \<Rightarrow> u64 \<Rightarrow> bool \<Rightarrow> kmem \<Rightarrow> kmem outcome" where
  "uvmunmap pagetable va npages do_free km =
     (if va mod PGSIZE \<noteq> 0 then Panic ''uvmunmap: not aligned''
      else uvmunmap_loop pagetable va (va + npages * PGSIZE) do_free km)"

definition uvmcreate :: "kmem \<Rightarrow> u64 \<times> kmem" where
  "uvmcreate km =
     (let (pagetable, km) = kalloc km
      in if pagetable = 0 then (0, km)
         else (pagetable, km\<lparr>mem := memset (mem km) pagetable 0 4096\<rparr>))"

definition uvmfirst :: "u64 \<Rightarrow> u8 list \<Rightarrow> kmem \<Rightarrow> kmem outcome" where
  "uvmfirst pagetable src km =
     (if 4096 \<le> length src then Panic ''uvmfirst: more than a page''
      else let (pg, km) = kalloc km;
               km = km\<lparr>mem := memset (mem km) pg 0 4096\<rparr>
           in obind (mappages pagetable 0 PGSIZE pg (PTE_W OR PTE_R OR PTE_X OR PTE_U) km) (\<lambda>(_, km).
              Ok (km\<lparr>mem := store_bytes (mem km) pg src\<rparr>)))"

definition int_to_u64 :: "u32 \<Rightarrow> u64" where
  "int_to_u64 n = scast n"

definition uvmdealloc :: "u64 \<Rightarrow> u64 \<Rightarrow> u64 \<Rightarrow> kmem \<Rightarrow> (u64 \<times> kmem) outcome" where
  "uvmdealloc pagetable oldsz newsz km =
     (if oldsz \<le> newsz then Ok (oldsz, km)
      else if PGROUNDUP newsz < PGROUNDUP oldsz
      then let npages = int_to_u64 (ucast ((PGROUNDUP oldsz - PGROUNDUP newsz) div PGSIZE))
           in obind (uvmunmap pagetable (PGROUNDUP newsz) npages True km) (\<lambda>km. Ok (newsz, km))
      else Ok (newsz, km))"

function uvmalloc_loop :: "u64 \<Rightarrow> u64 \<Rightarrow> u64 \<Rightarrow> u64 \<Rightarrow> u64 \<Rightarrow> kmem \<Rightarrow> (u64 \<times> kmem) outcome" where
  "uvmalloc_loop pagetable a oldsz newsz xperm km =
     (if a < newsz
      then let (pg, km) = kalloc km
           in if pg = 0
              then obind (uvmdealloc pagetable a oldsz km) (\<lambda>(_, km). Ok (0, km))
              else let km = km\<lparr>mem := memset (mem km) pg 0 4096\<rparr>
                   in obind (mappages pagetable a PGSIZE pg (PTE_R OR PTE_U OR xperm) km) (\<lambda>(r, km).
                        if r \<noteq> 0
                        then obind (kfree pg km) (\<lambda>km.
                             obind (uvmdealloc pagetable a oldsz km) (\<lambda>(_, km). Ok (0, km)))
                        else uvmalloc_loop pagetable (a + PGSIZE) oldsz newsz xperm km)
      else Ok (newsz, km))"
  by pat_completeness auto
termination
  by (relation "measure (\<lambda>(_, a, _). 0x4000001000 - unat a)")
    (auto dest!: mappages_below_MAXVA intro: page_step_measure)

declare uvmalloc_loop.simps [simp del]

definition uvmalloc :: "u64 \<Rightarrow> u64 \<Rightarrow> u64 \<Rightarrow> u64 \<Rightarrow> kmem \<Rightarrow> (u64 \<times> kmem) outcome" where
  "uvmalloc pagetable oldsz newsz xperm km =
     (if newsz < oldsz then Ok (oldsz, km)
      else uvmalloc_loop pagetable (PGROUNDUP oldsz) (PGROUNDUP oldsz) newsz xperm km)"

primrec freewalk_loop :: "nat list \<Rightarrow> (u64 \<Rightarrow> kmem \<Rightarrow> kmem outcome) \<Rightarrow> u64 \<Rightarrow> kmem \<Rightarrow> kmem outcome" where
  "freewalk_loop [] rec pagetable km = Ok km"
| "freewalk_loop (i # is) rec pagetable km =
     (let pte = load64 (mem km) (pte_slot pagetable (of_nat i))
      in if pte AND PTE_V \<noteq> 0 \<and> pte AND (PTE_R OR PTE_W OR PTE_X) = 0
         then obind (rec (PTE2PA pte) km) (\<lambda>km.
                freewalk_loop is rec pagetable
                  (km\<lparr>mem := store64 (mem km) (pte_slot pagetable (of_nat i)) 0\<rparr>))
         else if pte AND PTE_V \<noteq> 0 then Panic ''freewalk: leaf''
         else freewalk_loop is rec pagetable km)"

primrec freewalk :: "nat \<Rightarrow> u64 \<Rightarrow> kmem \<Rightarrow> kmem outcome" where
  "freewalk 0 pagetable km = Block"
| "freewalk (Suc levels) pagetable km =
     obind (freewalk_loop [0..<512] (freewalk levels) pagetable km) (kfree pagetable)"

definition uvmfree :: "u64 \<Rightarrow> u64 \<Rightarrow> kmem \<Rightarrow> kmem outcome" where
  "uvmfree pagetable sz km =
     obind (if 0 < sz then uvmunmap pagetable 0 (PGROUNDUP sz div PGSIZE) True km else Ok km)
       (freewalk 3 pagetable)"

definition cow_entry :: "u64 \<Rightarrow> u64" where
  "cow_entry e = (e AND NOT PTE_W) OR PTE_COW"

function uvmcopy_loop :: "u64 \<Rightarrow> u64 \<Rightarrow> u64 \<Rightarrow> u64 \<Rightarrow> kmem \<Rightarrow> (int \<times> kmem) outcome" where
  "uvmcopy_loop old new i sz km =
     (if i < sz
      then obind (walk old i False km) (\<lambda>(pte, km).
        if pte = 0 then Panic ''uvmcopy: pte should exist''
        else if load64 (mem km) pte AND PTE_V = 0 then Panic ''uvmcopy: page not present''
        else let km = km\<lparr>mem := store64 (mem km) pte (cow_entry (load64 (mem km) pte))\<rparr>;
                 e = load64 (mem km) pte;
                 pa = PTE2PA e;
                 km = safe_inc_count pa km
             in obind (mappages new i PGSIZE pa (PTE_FLAGS e) km) (\<lambda>(r, km).
                  if r \<noteq> 0
                  then obind (uvmunmap new 0 (i div PGSIZE) True km) (\<lambda>km. Ok (- 1, km))
                  else uvmcopy_loop old new (i + PGSIZE) sz km))
      else Ok (0, km))"
  by pat_completeness auto
termination
  by (relation "measure (\<lambda>(_, _, i, _). 0x4000001000 - unat i)")
    (auto dest!: walk_below_MAXVA intro: page_step_measure)

declare uvmcopy_loop.simps [simp del]

definition uvmcopy :: "u64 \<Rightarrow> u64 \<Rightarrow> u64 \<Rightarrow> kmem \<Rightarrow> (int \<times> kmem) outcome" where
  "uvmcopy old new sz km = uvmcopy_loop old new 0 sz km"

definition uvmclear :: "u64 \<Rightarrow> u64 \<Rightarrow> kmem \<Rightarrow> kmem outcome" where
  "uvmclear pagetable va km =
     obind (walk pagetable va False km) (\<lambda>(pte, km).
       if pte = 0 then Panic ''uvmclear''
       else Ok (km\<lparr>mem := store64 (mem km) pte (load64 (mem km) pte AND NOT PTE_U)\<rparr>))"

section \<open>Copy-on-write faults (trap.c)\<close>

definition cow_page_fault :: "u64 \<Rightarrow> u64 \<Rightarrow> kmem \<Rightarrow> (int \<times> kmem) outcome" where
  "cow_page_fault pt va km =
     (if MAXVA \<le> va then Ok (- 1, km)
      else obind (walk pt va False km) (\<lambda>(my_pte, km).
        if my_pte = 0 then Ok (- 1, km)
        else let flags = PTE_FLAGS (load64 (mem km) my_pte)
             in if flags AND PTE_U = 0 \<or> flags AND PTE_V = 0 \<or> flags AND PTE_COW = 0
                then Ok (- 1, km)
                else let old_pa = PTE2PA (load64 (mem km) my_pte)
                     in if old_pa = 0 then Ok (- 1, km)
                        else let flags = (flags OR PTE_W) AND NOT PTE_COW;
                                 (new_pa, km) = kalloc km
                             in if new_pa = 0 then Ok (- 1, km)
                                else let m = memmove (mem km) new_pa old_pa 4096;
                                         m = store64 m my_pte (PA2PTE new_pa OR flags)
                                     in obind (kfree old_pa (km\<lparr>mem := m\<rparr>)) (\<lambda>km. Ok (0, km))))"

section \<open>Copies between kernel and user memory\<close>

function copyout :: "u64 \<Rightarrow> u64 \<Rightarrow> u8 list \<Rightarrow> kmem \<Rightarrow> (int \<times> kmem) outcome" where
  "copyout pagetable dstva src km =
     (if src = [] then Ok (0, km)
      else let va0 = PGROUNDDOWN dstva
           in if MAXVA \<le> va0 then Ok (- 1, km)
              else obind (walk pagetable va0 False km) (\<lambda>(p, km).
                if p = 0 \<or> load64 (mem km) p AND PTE_U = 0 \<or> load64 (mem km) p AND PTE_V = 0
                then Ok (- 1, km)
                else let flags = PTE_FLAGS (load64 (mem km) p)
                     in obind (if flags AND PTE_COW \<noteq> 0 then cow_page_fault pagetable va0 km
                               else Ok (0, km)) (\<lambda>(r, km).
                        if r \<noteq> 0 then Ok (- 1, km)
                        else obind (walkaddr pagetable va0 km) (\<lambda>pa0.
                          if pa0 = 0 then Ok (- 1, km)
                          else let n = min (4096 - unat (dstva - va0)) (length src);
                                   m = store_bytes (mem km) (pa0 + (dstva - va0)) (take n src)
                               in copyout pagetable (va0 + PGSIZE) (drop n src) (km\<lparr>mem := m\<rparr>)))))"
  by pat_completeness auto

lemma page_offset_less: "unat (a - PGROUNDDOWN a) < 4096"
  using in_page_iff_PGROUNDDOWN [of "PGROUNDDOWN a" a] by (simp add: in_page_def)

termination copyout
proof (relation "measure (\<lambda>(_, _, src, _). length src)", goal_cases)
  case 1
  then show ?case by simp
next
  case (2 pagetable dstva src km va0 x p km1 flags x' r km2 pa0 n m)
  then show ?case using page_offset_less [of dstva] by auto
qed

declare copyout.simps [simp del]

function copyin :: "u64 \<Rightarrow> u64 \<Rightarrow> nat \<Rightarrow> kmem \<Rightarrow> (int \<times> u8 list) outcome" where
  "copyin pagetable srcva len km =
     (if len = 0 then Ok (0, [])
      else let va0 = PGROUNDDOWN srcva
           in obind (walkaddr pagetable va0 km) (\<lambda>pa0.
                if pa0 = 0 then Ok (- 1, [])
                else let n = min (4096 - unat (srcva - va0)) len;
                         bs = load_bytes (mem km) (pa0 + (srcva - va0)) n
                     in obind (copyin pagetable (va0 + PGSIZE) (len - n) km) (\<lambda>(r, rest).
                          Ok (r, bs @ rest))))"
  by pat_completeness auto

termination copyin
proof (relation "measure (\<lambda>(_, _, len, _). len)", goal_cases)
  case 1
  then show ?case by simp
next
  case (2 pagetable srcva len km va0 pa0 n bs)
  then show ?case using page_offset_less [of srcva] by auto
qed

declare copyin.simps [simp del]

primrec copyinstr_page :: "nat \<Rightarrow> memory \<Rightarrow> u64 \<Rightarrow> bool \<times> u8 list" where
  "copyinstr_page 0 m p = (False, [])"
| "copyinstr_page (Suc n) m p =
     (if m p = 0 then (True, [0])
      else let (got_null, dst) = copyinstr_page n m (p + 1) in (got_null, m p # dst))"

function copyinstr :: "u64 \<Rightarrow> u64 \<Rightarrow> nat \<Rightarrow> kmem \<Rightarrow> (int \<times> u8 list) outcome" where
  "copyinstr pagetable srcva maxlen km =
     (if maxlen = 0 then Ok (- 1, [])
      else let va0 = PGROUNDDOWN srcva
           in obind (walkaddr pagetable va0 km) (\<lambda>pa0.
                if pa0 = 0 then Ok (- 1, [])
                else let n = min (4096 - unat (srcva - va0)) maxlen;
                         (got_null, bs) = copyinstr_page n (mem km) (pa0 + (srcva - va0))
                     in if got_null then Ok (0, bs)
                        else obind (copyinstr pagetable (va0 + PGSIZE) (maxlen - n) km) (\<lambda>(r, rest).
                          Ok (r, bs @ rest))))"
  by pat_completeness auto

termination copyinstr
proof (relation "measure (\<lambda>(_, _, maxlen, _). maxlen)", goal_cases)
  case 1
  then show ?case by simp
next
  case (2 pagetable srcva maxlen km va0 pa0 n x got_null bs)
  then show ?case using page_offset_less [of srcva] by auto
qed

declare copyinstr.simps [simp del]

end
