(* ===== verification/Vm_Tree.thy ===== *)
theory Vm_Tree
  imports Vm
begin

text \<open>
  Page tables as trees. \<open>tab m r p\<close> is the address of the page-table page reached from the root
  \<open>r\<close> along the path \<open>p\<close> of indices, \<open>leaf m r va\<close> the entry that \<open>walk\<close> finds for \<open>va\<close>. A
  forest is a set of page tables whose pages are allocated and pairwise different; \<open>walk\<close> with
  allocation extends a forest without changing any entry (\<open>extends\<close>), and storing an entry
  changes exactly one leaf.
\<close>

section \<open>Definitions\<close>

definition next_tab :: "memory \<Rightarrow> u64 \<Rightarrow> u64 \<Rightarrow> u64 option" where
  "next_tab m t i =
     (let e = load64 m (pte_slot t i) in if e AND PTE_V \<noteq> 0 then Some (PTE2PA e) else None)"

primrec tab :: "memory \<Rightarrow> u64 list \<Rightarrow> u64 \<Rightarrow> u64 option" where
  "tab m [] t = Some t"
| "tab m (i # is) t = (case next_tab m t i of None \<Rightarrow> None | Some t' \<Rightarrow> tab m is t')"

declare tab.simps(2) [simp del]

definition vpath :: "u64 \<Rightarrow> u64 list" where
  "vpath va = [PX 2 va, PX 1 va]"

definition leaf :: "memory \<Rightarrow> u64 \<Rightarrow> u64 \<Rightarrow> u64" where
  "leaf m r va =
     (case tab m (vpath va) r of None \<Rightarrow> 0 | Some t \<Rightarrow> load64 m (pte_slot t (PX 0 va)))"

definition tpath :: "u64 list \<Rightarrow> bool" where
  "tpath p \<longleftrightarrow> length p \<le> 2 \<and> (\<forall>i\<in>set p. i < 512)"

definition owned :: "kmem \<Rightarrow> u64 set \<Rightarrow> u64 \<Rightarrow> bool" where
  "owned km R a \<longleftrightarrow> (\<exists>r\<in>R. \<exists>p. tpath p \<and> tab (mem km) p r = Some a)"

definition forest :: "kmem \<Rightarrow> u64 set \<Rightarrow> bool" where
  "forest km R \<longleftrightarrow>
     (\<forall>a. owned km R a \<longrightarrow> phys_page km a \<and> 0 < refs km a) \<and>
     (\<forall>r\<in>R. \<forall>r'\<in>R. \<forall>p p' a. tpath p \<longrightarrow> tpath p' \<longrightarrow>
        tab (mem km) p r = Some a \<longrightarrow> tab (mem km) p' r' = Some a \<longrightarrow> r = r' \<and> p = p')"

definition data_page :: "kmem \<Rightarrow> u64 set \<Rightarrow> u64 \<Rightarrow> bool" where
  "data_page km R a \<longleftrightarrow> phys_page km a \<and> 0 < refs km a \<and> \<not> owned km R a"

definition same_page :: "kmem \<Rightarrow> kmem \<Rightarrow> u64 \<Rightarrow> bool" where
  "same_page km km' a \<longleftrightarrow> (\<forall>x. in_page a x \<longrightarrow> mem km' x = mem km x)"

definition extends :: "u64 set \<Rightarrow> kmem \<Rightarrow> kmem \<Rightarrow> bool" where
  "extends R km km' \<longleftrightarrow>
     kalloc_ok km' \<and> forest km' R \<and> kend km' = kend km \<and>
     (\<forall>r\<in>R. \<forall>p a. tpath p \<longrightarrow> tab (mem km) p r = Some a \<longrightarrow> tab (mem km') p r = Some a) \<and>
     (\<forall>r\<in>R. \<forall>va. leaf (mem km') r va = leaf (mem km) r va) \<and>
     (\<forall>a. phys_page km a \<longrightarrow> 0 < refs km a \<longrightarrow> refs km' a = refs km a) \<and>
     (\<forall>a. data_page km R a \<longrightarrow> data_page km' R a \<and> same_page km km' a)"

section \<open>Slots\<close>

lemma unat_slot:
  assumes "page_aligned t" "i < 512"
  shows "unat (pte_slot t i) = unat t + 8 * unat i" and "unat i < 512"
proof -
  show i: "unat i < 512" using assms(2) by (simp add: word_less_nat_alt)
  obtain q where q: "unat t = 4096 * q" using page_aligned_unat_eq [OF assms(1)] by blast
  then have "unat t + 8 * unat i < 2 ^ 64" using unat64_less [of t] i by simp
  then show "unat (pte_slot t i) = unat t + 8 * unat i"
    using i by (simp add: pte_slot_def unat_word_ariths)
qed

lemma slot_offset:
  assumes "page_aligned t" "i < 512" "k < 8"
  shows "in_page t (pte_slot t i + of_nat k)"
proof -
  have "unat i < 512" using assms(2) by (simp add: word_less_nat_alt)
  then have "unat (8 * i + of_nat k) = 8 * unat i + k"
    using assms(3) by (simp add: unat_word_ariths unat_of_nat)
  moreover have "pte_slot t i + of_nat k - t = 8 * i + of_nat k"
    by (simp add: pte_slot_def add.assoc)
  ultimately show ?thesis using \<open>unat i < 512\<close> assms(3) by (simp only: in_page_def)
qed

lemma slot_mod8: "page_aligned t \<Longrightarrow> i < 512 \<Longrightarrow> unat (pte_slot t i) mod 8 = 0"
proof -
  assume a: "page_aligned t" "i < 512"
  obtain q where "unat t = 4096 * q" using page_aligned_unat_eq [OF a(1)] by blast
  then have "unat (pte_slot t i) = 8 * (512 * q + unat i)" using a by (simp add: unat_slot)
  then show ?thesis by simp
qed

lemma slot_inj:
  assumes "page_aligned t" "page_aligned t'" "i < 512" "i' < 512"
  shows "pte_slot t i = pte_slot t' i' \<longleftrightarrow> t = t' \<and> i = i'"
proof
  assume e: "pte_slot t i = pte_slot t' i'"
  have "in_page t (pte_slot t i)" "in_page t' (pte_slot t' i')"
    using slot_offset [OF assms(1,3), of 0] slot_offset [OF assms(2,4), of 0] by simp_all
  then have "t = t'" using in_page_iff_PGROUNDDOWN assms(1,2) e by metis
  moreover from this have "unat i = unat i'" using arg_cong [OF e, of unat] assms by (simp add: unat_slot)
  ultimately show "t = t' \<and> i = i'" by (simp add: word_unat_eq_iff)
qed simp

lemma slot_nonzero: "page_aligned t \<Longrightarrow> i < 512 \<Longrightarrow> t \<noteq> 0 \<Longrightarrow> pte_slot t i \<noteq> 0"
proof -
  assume a: "page_aligned t" "i < 512" "t \<noteq> 0"
  then have "0 < unat (pte_slot t i)" by (simp add: unat_slot unat_gt_0)
  then show ?thesis by (simp add: unat_gt_0)
qed

lemma load64_slot_other:
  "page_aligned t \<Longrightarrow> page_aligned t' \<Longrightarrow> i < 512 \<Longrightarrow> i' < 512 \<Longrightarrow> (t, i) \<noteq> (t', i') \<Longrightarrow>
     load64 (store64 m (pte_slot t i) w) (pte_slot t' i') = load64 m (pte_slot t' i')"
  by (rule load64_store64_other) (auto simp: slot_mod8 slot_inj)

lemma store64_slot_page:
  assumes "page_aligned t" "i < 512" "\<not> in_page t x"
  shows "store64 m (pte_slot t i) w x = m x"
proof (rule store64_other, rule ccontr)
  assume "\<not> 8 \<le> unat (x - pte_slot t i)"
  then have "in_page t (pte_slot t i + of_nat (unat (x - pte_slot t i)))"
    using assms(1,2) by (intro slot_offset) auto
  then show False using assms(3) by simp
qed

lemma load64_slot_cong:
  assumes "page_aligned t" "i < 512" "\<And>x. in_page t x \<Longrightarrow> m' x = m x"
  shows "load64 m' (pte_slot t i) = load64 m (pte_slot t i)"
  by (rule load64_cong) (simp add: assms slot_offset)

section \<open>Paths\<close>

lemma next_tab_aligned: "next_tab m t i = Some t' \<Longrightarrow> page_aligned t'"
  by (auto simp: next_tab_def Let_def split: if_splits)

lemma tab_append: "tab m (p @ q) t = (case tab m p t of None \<Rightarrow> None | Some t' \<Rightarrow> tab m q t')"
  by (induction p arbitrary: t) (auto simp: tab.simps(2) split: option.splits)

lemma tab_snoc: "tab m (p @ [i]) t = (case tab m p t of None \<Rightarrow> None | Some t' \<Rightarrow> next_tab m t' i)"
  by (simp add: tab_append tab.simps(2) split: option.splits)

lemma tpath_prefix: "tpath (p @ q) \<Longrightarrow> tpath p"
  by (auto simp: tpath_def)

lemma tpath_snoc: "tpath (p @ [i]) \<longleftrightarrow> length p \<le> 1 \<and> tpath p \<and> i < 512"
  by (auto simp: tpath_def)

lemma tpath_vpath [simp]: "tpath (vpath va)"
  by (simp add: tpath_def vpath_def PX_less)

lemma length_vpath [simp]: "length (vpath va) = 2"
  by (simp add: vpath_def)

lemma vpath_inj:
  "page_aligned a \<Longrightarrow> page_aligned b \<Longrightarrow> a < MAXVA \<Longrightarrow> b < MAXVA \<Longrightarrow> vpath a = vpath b \<Longrightarrow>
     PX 0 a = PX 0 b \<Longrightarrow> a = b"
  by (rule PX_inj) (simp_all add: vpath_def)

lemma tpath_simps [simp]: "tpath []" "tpath [i] \<longleftrightarrow> i < 512" "tpath [i, j] \<longleftrightarrow> i < 512 \<and> j < 512"
  by (auto simp: tpath_def)

text \<open>A path leads to the same page if every entry it reads is unchanged.\<close>

lemma tab_cong:
  "(\<And>q t i rest. p = q @ i # rest \<Longrightarrow> tab m q r = Some t \<Longrightarrow>
      load64 m' (pte_slot t i) = load64 m (pte_slot t i)) \<Longrightarrow> tab m' p r = tab m p r"
proof (induction p arbitrary: r)
  case Nil
  then show ?case by simp
next
  case (Cons i p)
  have e: "next_tab m' r i = next_tab m r i"
    using Cons.prems [of "[]" i p r] by (simp add: next_tab_def)
  show ?case
  proof (cases "next_tab m r i")
    case None
    with e show ?thesis by (simp add: tab.simps(2))
  next
    case (Some t')
    have "tab m' p t' = tab m p t'"
    proof (rule Cons.IH)
      fix q t j rest
      assume "p = q @ j # rest" "tab m q t' = Some t"
      then show "load64 m' (pte_slot t j) = load64 m (pte_slot t j)"
        using Cons.prems [of "i # q" j rest t] Some by (simp add: tab.simps(2))
    qed
    with e Some show ?thesis by (simp add: tab.simps(2))
  qed
qed

lemma forest_page:
  assumes "forest km R" "r \<in> R" "tpath p" "tab (mem km) p r = Some t"
  shows "phys_page km t" "0 < refs km t" "page_aligned t"
  using assms unfolding forest_def owned_def by (auto simp: phys_page_def)

lemma forest_inj:
  assumes "forest km R" "r \<in> R" "r' \<in> R" "tpath p" "tpath p'"
    "tab (mem km) p r = Some t" "tab (mem km) p' r' = Some t"
  shows "r = r'" "p = p'"
  using assms unfolding forest_def by blast+

lemma tab_prefix_tpath: "tpath p \<Longrightarrow> p = q @ i # rest \<Longrightarrow> tpath q \<and> i < 512 \<and> length q \<le> 1"
  by (auto simp: tpath_def)

section \<open>Memory changes that keep a forest\<close>

text \<open>Changing a page that no table of the forest occupies changes no path and no leaf.\<close>

lemma tab_frame:
  assumes f: "forest km R" and r: "r \<in> R" and p: "tpath p"
    and nt: "\<not> owned km R b" and m': "\<And>x. \<not> in_page b x \<Longrightarrow> m' x = mem km x" and "page_aligned b"
  shows "tab m' p r = tab (mem km) p r"
proof (rule tab_cong)
  fix q t i rest assume e: "p = q @ i # rest" and t: "tab (mem km) q r = Some t"
  have q: "tpath q" "i < 512" using tab_prefix_tpath [OF p e] by auto
  have al: "page_aligned t" using forest_page(3) [OF f r q(1) t] .
  have "t \<noteq> b" using nt t q(1) r by (auto simp: owned_def)
  then have "m' x = mem km x" if "in_page t x" for x
    using m' in_page_disjoint [OF \<open>page_aligned b\<close> al _ that] by auto
  then show "load64 m' (pte_slot t i) = load64 (mem km) (pte_slot t i)"
    using al q(2) by (intro load64_slot_cong)
qed

lemma leaf_frame:
  assumes f: "forest km R" and r: "r \<in> R"
    and nt: "\<not> owned km R b" and m': "\<And>x. \<not> in_page b x \<Longrightarrow> m' x = mem km x" and b: "page_aligned b"
  shows "leaf m' r va = leaf (mem km) r va"
proof -
  let ?p = "vpath va"
  have p: "tpath ?p" by simp
  have e: "tab m' ?p r = tab (mem km) ?p r" by (rule tab_frame [OF f r p nt m' b])
  show ?thesis
  proof (cases "tab (mem km) ?p r")
    case None
    with e show ?thesis by (simp add: leaf_def)
  next
    case (Some t)
    have al: "page_aligned t" using forest_page(3) [OF f r p Some] .
    have "t \<noteq> b" using nt Some p r by (auto simp: owned_def)
    then have "m' x = mem km x" if "in_page t x" for x
      using m' in_page_disjoint [OF b al _ that] by auto
    then have "load64 m' (pte_slot t (PX 0 va)) = load64 (mem km) (pte_slot t (PX 0 va))"
      using al by (intro load64_slot_cong) (auto simp: PX_less)
    with e Some show ?thesis by (simp add: leaf_def)
  qed
qed

text \<open>Storing into a third-level table changes no path, and one leaf.\<close>

lemma tab_store_leaf:
  assumes f: "forest km R" and r: "r \<in> R" and r0: "r0 \<in> R" and p: "tpath p"
    and p0: "tpath p0" "length p0 = 2" and t0: "tab (mem km) p0 r0 = Some t0" and k0: "k0 < 512"
  shows "tab (store64 (mem km) (pte_slot t0 k0) w) p r = tab (mem km) p r"
proof (rule tab_cong)
  fix q t i rest assume e: "p = q @ i # rest" and t: "tab (mem km) q r = Some t"
  have q: "tpath q" "i < 512" "length q \<le> 1" using tab_prefix_tpath [OF p e] by auto
  have "t \<noteq> t0" using forest_inj(2) [OF f r r0 q(1) p0(1)] t t0 q(3) p0(2) by auto
  then show "load64 (store64 (mem km) (pte_slot t0 k0) w) (pte_slot t i) = load64 (mem km) (pte_slot t i)"
    using forest_page(3) [OF f r q(1) t] forest_page(3) [OF f r0 p0(1) t0] q(2) k0
    by (intro load64_slot_other) auto
qed

lemma leaf_store_leaf:
  assumes f: "forest km R" and r: "r \<in> R" and r0: "r0 \<in> R"
    and t0: "tab (mem km) (vpath va0) r0 = Some t0"
    and va: "page_aligned va" "page_aligned va0" "va < MAXVA" "va0 < MAXVA"
  shows "leaf (store64 (mem km) (pte_slot t0 (PX 0 va0)) w) r va =
    (if r = r0 \<and> va = va0 then w else leaf (mem km) r va)"
proof -
  let ?m = "store64 (mem km) (pte_slot t0 (PX 0 va0)) w"
  let ?p = "vpath va" and ?pz = "vpath va0"
  have p: "tpath ?p" "tpath ?pz" by simp_all
  have e: "tab ?m ?p r = tab (mem km) ?p r"
    by (rule tab_store_leaf [OF f r r0 p(1) p(2) _ t0]) (simp_all add: PX_less)
  show ?thesis
  proof (cases "tab (mem km) ?p r")
    case None
    then have n: "\<not> (r = r0 \<and> va = va0)" using t0 by auto
    have "leaf ?m r va = leaf (mem km) r va" using None e by (simp add: leaf_def)
    with n show ?thesis by presburger
  next
    case (Some t)
    show ?thesis
    proof (cases "r = r0 \<and> va = va0")
      case True
      with Some t0 e show ?thesis by (simp add: leaf_def)
    next
      case False
      have "(t0, PX 0 va0) \<noteq> (t, PX 0 va)"
      proof
        assume eq: "(t0, PX 0 va0) = (t, PX 0 va)"
        have "r = r0" "?p = ?pz"
          using forest_inj [OF f r r0 p(1) p(2) Some] t0 eq by auto
        then have "va = va0" using vpath_inj [OF va] eq by simp
        with False \<open>r = r0\<close> show False by simp
      qed
      then have "load64 ?m (pte_slot t (PX 0 va)) = load64 (mem km) (pte_slot t (PX 0 va))"
        using forest_page(3) [OF f r p(1) Some] forest_page(3) [OF f r0 p(2) t0]
        by (intro load64_slot_other) (auto simp: PX_less)
      with Some e have "leaf ?m r va = leaf (mem km) r va" by (simp add: leaf_def)
      with False show ?thesis by presburger
    qed
  qed
qed

section \<open>Adding a page-table page\<close>

text \<open>The memory after \<open>walk\<close> has taken the free page \<open>pg\<close>, cleared it and linked it from entry
  \<open>i\<close> of the table \<open>t\<close>, described by what the entries of the old tables and of \<open>pg\<close> read.\<close>

definition linked :: "kmem \<Rightarrow> u64 set \<Rightarrow> u64 \<Rightarrow> u64 \<Rightarrow> u64 \<Rightarrow> memory \<Rightarrow> bool" where
  "linked km R t i pg m' \<longleftrightarrow>
     (\<forall>t' j. owned km R t' \<longrightarrow> j < 512 \<longrightarrow> load64 m' (pte_slot t' j) =
        (if t' = t \<and> j = i then PA2PTE pg OR PTE_V else load64 (mem km) (pte_slot t' j))) \<and>
     (\<forall>j<512. load64 m' (pte_slot pg j) = 0)"

lemma linked_old:
  "linked km R t i pg m' \<Longrightarrow> owned km R t' \<Longrightarrow> j < 512 \<Longrightarrow> (t', j) \<noteq> (t, i) \<Longrightarrow>
     load64 m' (pte_slot t' j) = load64 (mem km) (pte_slot t' j)"
  by (auto simp: linked_def)

lemma ownedI: "r \<in> R \<Longrightarrow> tpath p \<Longrightarrow> tab (mem km) p r = Some a \<Longrightarrow> owned km R a"
  by (auto simp: owned_def)

lemma tab_linked_other:
  assumes f: "forest km R" and r: "r \<in> R" "r' \<in> R" and p: "tpath p" "tab (mem km) p r = Some t"
    and l: "linked km R t i pg m'" and q: "tpath q" and np: "\<not> (r' = r \<and> (\<exists>rest. q = p @ i # rest))"
  shows "tab m' q r' = tab (mem km) q r'"
proof (rule tab_cong)
  fix q1 t1 j rest assume e: "q = q1 @ j # rest" and t1: "tab (mem km) q1 r' = Some t1"
  have q1: "tpath q1" "j < 512" using tab_prefix_tpath [OF q e] by auto
  have "(t1, j) \<noteq> (t, i)"
    using forest_inj [OF f r(2,1) q1(1) p(1)] t1 p(2) np e by auto
  then show "load64 m' (pte_slot t1 j) = load64 (mem km) (pte_slot t1 j)"
    using l ownedI [OF r(2) q1(1) t1] q1(2) by (intro linked_old)
qed

lemma tab_linked_new:
  assumes f: "forest km R" and r: "r \<in> R" and p: "tpath (p @ [i])" "tab (mem km) p r = Some t"
    and l: "linked km R t i pg m'" and pg: "page_aligned pg" "pg < 2 ^ 56"
  shows "tab m' (p @ [i]) r = Some pg" and "j < 512 \<Longrightarrow> tab m' (p @ [i, j]) r = None"
proof -
  have i: "i < 512" "tpath p" using p(1) by (simp_all add: tpath_snoc)
  have "tab m' p r = Some t"
    using tab_linked_other [OF f r r i(2) p(2) l i(2)] p(2) by simp
  moreover have "next_tab m' t i = Some pg"
  proof -
    have "load64 m' (pte_slot t i) = PA2PTE pg OR PTE_V"
      using l ownedI [OF r i(2) p(2)] i(1) by (simp add: linked_def)
    moreover have "(PA2PTE pg OR PTE_V) AND PTE_V \<noteq> 0"
      by (simp add: bit.conj_disj_distrib2 PTE_V_def)
    moreover have "PTE2PA (PA2PTE pg OR PTE_V) = pg"
      using pg by (intro PTE2PA_PA2PTE_flags) (simp_all add: PTE_V_def)
    ultimately show ?thesis by (simp add: next_tab_def)
  qed
  ultimately show new: "tab m' (p @ [i]) r = Some pg" by (simp add: tab_snoc)
  assume "j < 512"
  then have "next_tab m' pg j = None" using l by (simp add: linked_def next_tab_def)
  then show "tab m' (p @ [i, j]) r = None"
    using tab_snoc [of m' "p @ [i]" j r] new by simp
qed

lemma tab_linked:
  assumes f: "forest km R" and r: "r \<in> R" and r': "r' \<in> R"
    and p: "tpath (p @ [i])" "tab (mem km) p r = Some t"
    and none: "next_tab (mem km) t i = None" and q: "tpath q"
    and l: "linked km R t i pg m'" and pg: "page_aligned pg" "pg < 2 ^ 56"
  shows "tab m' q r' = (if r' = r \<and> q = p @ [i] then Some pg else tab (mem km) q r')"
proof (cases "r' = r \<and> (\<exists>rest. q = p @ i # rest)")
  case False
  then show ?thesis
    using tab_linked_other [OF f r r' _ p(2) l q] p(1) by (auto simp: tpath_snoc)
next
  case True
  then obtain rest where rest: "q = p @ i # rest" by blast
  have old: "tab (mem km) q r = None"
    using tab_append [of "mem km" "p @ [i]" rest r] p(2) none rest by (simp add: tab_snoc)
  show ?thesis
  proof (cases rest)
    case Nil
    then show ?thesis using True rest tab_linked_new(1) [OF f r p l pg] by simp
  next
    case (Cons j rs)
    have "rs = [] \<and> j < 512" using q rest Cons by (auto simp: tpath_def)
    then show ?thesis
      using True rest Cons old tab_linked_new(2) [OF f r p l pg, of j] by simp
  qed
qed

lemma leaf_linked:
  assumes f: "forest km R" and r: "r \<in> R" and r': "r' \<in> R"
    and p: "tpath (p @ [i])" "tab (mem km) p r = Some t"
    and none: "next_tab (mem km) t i = None"
    and l: "linked km R t i pg m'" and pg: "page_aligned pg" "pg < 2 ^ 56"
  shows "leaf m' r' va = leaf (mem km) r' va"
proof -
  have e: "tab m' (vpath va) r' =
      (if r' = r \<and> vpath va = p @ [i] then Some pg else tab (mem km) (vpath va) r')"
    using tab_linked [OF f r r' p none _ l pg, of "vpath va"] by simp
  show ?thesis
  proof (cases "r' = r \<and> vpath va = p @ [i]")
    case True
    then have "tab (mem km) (vpath va) r' = None" using p(2) none by (simp add: tab_snoc)
    then show ?thesis using e True l by (simp add: leaf_def linked_def PX_less)
  next
    case False
    then have eq: "tab m' (vpath va) r' = tab (mem km) (vpath va) r'"
      using e by (simp only: if_False)
    show ?thesis
    proof (cases "tab (mem km) (vpath va) r'")
      case None
      then show ?thesis using eq by (simp add: leaf_def)
    next
      case (Some t1)
      have "tpath p" "length p \<le> 1" using p(1) by (simp_all add: tpath_snoc)
      moreover have "length (vpath va) = 2" by simp
      ultimately have "t1 \<noteq> t"
        using forest_inj(2) [OF f r' r, of "vpath va" p t1] Some p(2) by fastforce
      then have "load64 m' (pte_slot t1 (PX 0 va)) = load64 (mem km) (pte_slot t1 (PX 0 va))"
        using l ownedI [OF r' _ Some] by (intro linked_old) (auto simp: PX_less)
      then show ?thesis using eq Some by (simp add: leaf_def)
    qed
  qed
qed

text \<open>So linking a fresh page extends the forest.\<close>

lemma extends_linked:
  assumes ok': "kalloc_ok km'" and f: "forest km R" and r: "r \<in> R"
    and p: "tpath (p @ [i])" "tab (mem km) p r = Some t" and none: "next_tab (mem km) t i = None"
    and l: "linked km R t i pg (mem km')" and pg: "phys_page km pg" "refs km pg = 0"
    and k: "kend km' = kend km" "pte_count km' = (pte_count km)(pg div PGSIZE := 1)"
    and m: "\<And>x. \<not> in_page pg x \<Longrightarrow> \<not> in_page t x \<Longrightarrow> mem km' x = mem km x"
  shows "extends R km km'"
proof -
  have pg': "page_aligned pg" "pg < 2 ^ 56" using pg(1) phys_page_less by (auto simp: phys_page_def)
  have i: "i < 512" "tpath p" using p(1) by (simp_all add: tpath_snoc)
  have ph: "phys_page km' = phys_page km" using k(1) by (rule phys_page_fun)
  have rc: "refs km' a = (if a = pg then 1 else refs km a)" if "phys_page km a" for a
    using that pg(1) k(2) by (simp add: refs_upd)
  have tb: "tab (mem km') q r' = (if r' = r \<and> q = p @ [i] then Some pg else tab (mem km) q r')"
    if "tpath q" "r' \<in> R" for q r'
    by (rule tab_linked [OF f r that(2) p none that(1) l pg'])
  have old: "tab (mem km) (p @ [i]) r = None" using p(2) none by (simp add: tab_snoc)
  have keep: "tab (mem km') q r' = Some a" if "r' \<in> R" "tpath q" "tab (mem km) q r' = Some a" for r' q a
    using tb [OF that(2,1)] that(3) old by auto
  have ow: "owned km' R a \<longleftrightarrow> owned km R a \<or> a = pg" for a
  proof
    assume "owned km' R a"
    then obtain q r' where "r' \<in> R" "tpath q" "tab (mem km') q r' = Some a" by (auto simp: owned_def)
    then show "owned km R a \<or> a = pg" using tb [of q r'] by (auto simp: owned_def split: if_splits)
  next
    assume "owned km R a \<or> a = pg"
    then show "owned km' R a"
      using keep tb [OF p(1) r] r p(1) unfolding owned_def by (metis (no_types, lifting))
  qed
  have npg: "\<not> owned km R pg" using f pg(2) unfolding forest_def by fastforce
  have "forest km' R"
    unfolding forest_def
  proof (intro conjI allI ballI impI)
    fix a assume "owned km' R a"
    then have "a = pg \<or> phys_page km a \<and> 0 < refs km a" using ow f by (auto simp: forest_def)
    then show "phys_page km' a" "0 < refs km' a" using rc pg(1) by (auto simp: ph)
  next
    fix r1 r2 q1 q2 a
    assume a: "r1 \<in> R" "r2 \<in> R" "tpath q1" "tpath q2" "tab (mem km') q1 r1 = Some a"
      "tab (mem km') q2 r2 = Some a"
    then have "r1 = r2 \<and> q1 = q2"
      using tb [OF a(3,1)] tb [OF a(4,2)] npg forest_inj [OF f a(1,2,3,4)] ownedI
      by (auto split: if_splits)
    then show "r1 = r2" "q1 = q2" by auto
  qed
  moreover have "leaf (mem km') r' va = leaf (mem km) r' va" if "r' \<in> R" for r' va
    by (rule leaf_linked [OF f r that p none l pg'])
  moreover have "data_page km' R a \<and> same_page km km' a" if d: "data_page km R a" for a
  proof -
    have "a \<noteq> pg" "a \<noteq> t" using d pg(2) ownedI [OF r i(2) p(2)] by (auto simp: data_page_def)
    moreover have "page_aligned a" "page_aligned t" using d forest_page(3) [OF f r i(2) p(2)]
      by (auto simp: data_page_def phys_page_def)
    ultimately have "same_page km km' a"
      using m pg'(1) by (auto simp: same_page_def in_page_iff_PGROUNDDOWN)
    then show ?thesis using d \<open>a \<noteq> pg\<close> rc ow by (auto simp: data_page_def ph)
  qed
  ultimately show ?thesis
    using ok' k(1) rc pg(2) keep unfolding extends_def by auto
qed

section \<open>walk\<close>

lemma walk_step_found: "next_tab (mem km) t i = Some t' \<Longrightarrow> walk_step al t i km = (Some t', km)"
  by (auto simp: walk_step_def next_tab_def Let_def split: if_splits)

lemma walk_step_none: "next_tab (mem km) t i = None \<Longrightarrow> walk_step False t i km = (None, km)"
  by (auto simp: walk_step_def next_tab_def Let_def split: if_splits)

lemma load64_zero_page:
  "page_aligned a \<Longrightarrow> j < 512 \<Longrightarrow> (\<And>x. in_page a x \<Longrightarrow> m x = 0) \<Longrightarrow> load64 m (pte_slot a j) = 0"
  by (rule load64_zero) (simp add: slot_offset)

lemma linked_store:
  assumes f: "forest km R" and t: "owned km R t" and i: "i < 512"
    and pg: "page_aligned pg" "\<not> owned km R pg"
    and m: "\<And>x. \<not> in_page pg x \<Longrightarrow> m x = mem km x" "\<And>x. in_page pg x \<Longrightarrow> m x = 0"
  shows "linked km R t i pg (store64 m (pte_slot t i) (PA2PTE pg OR PTE_V))"
  unfolding linked_def
proof (intro conjI allI impI)
  let ?m = "store64 m (pte_slot t i) (PA2PTE pg OR PTE_V)"
  have al: "page_aligned t'" if "owned km R t'" for t'
    using that f by (auto simp: forest_def phys_page_def)
  fix j :: u64 assume j: "j < 512"
  have "load64 ?m (pte_slot pg j) = load64 m (pte_slot pg j)"
    using pg t al i j by (intro load64_slot_other) auto
  then show "load64 ?m (pte_slot pg j) = 0" using load64_zero_page [OF pg(1) j m(2)] by simp
  fix t' assume t': "owned km R t'"
  have "t' \<noteq> pg" using t' pg(2) by auto
  then have "m x = mem km x" if "in_page t' x" for x
    using m(1) in_page_disjoint [OF pg(1) al [OF t'] _ that] by auto
  then have eq: "load64 m (pte_slot t' j) = load64 (mem km) (pte_slot t' j)"
    using al [OF t'] j by (intro load64_slot_cong)
  show "load64 ?m (pte_slot t' j) =
      (if t' = t \<and> j = i then PA2PTE pg OR PTE_V else load64 (mem km) (pte_slot t' j))"
  proof (cases "t' = t \<and> j = i")
    case True
    then show ?thesis by (simp add: load64_store64_same)
  next
    case False
    then have "load64 ?m (pte_slot t' j) = load64 m (pte_slot t' j)"
      using al t t' i j by (intro load64_slot_other) auto
    with False eq show ?thesis by presburger
  qed
qed

lemma kalloc_ok_mem:
  assumes "kmem_inv km xs" and "\<And>a i. a \<in> set xs \<Longrightarrow> i < 8 \<Longrightarrow> m (a + of_nat i) = mem km (a + of_nat i)"
  shows "kmem_inv (km\<lparr>mem := m\<rparr>) xs"
proof -
  have "fl_list m (freelist km) xs = fl_list (mem km) (freelist km) xs"
    by (rule fl_list_cong) (rule assms(2))
  then show ?thesis using assms(1) by (auto simp: kmem_inv_def phys_page_def refs_def)
qed

text \<open>Writing to pages in use keeps the allocator's invariant.\<close>

lemma kalloc_ok_write:
  assumes ok: "kalloc_ok km" and m: "\<And>x. m x \<noteq> mem km x \<Longrightarrow> \<exists>a. phys_page km a \<and> 0 < refs km a \<and> in_page a x"
  shows "kalloc_ok (km\<lparr>mem := m\<rparr>)"
proof -
  obtain xs where xs: "kmem_inv km xs" using ok by (auto simp: kalloc_ok_def)
  have "m (b + of_nat i) = mem km (b + of_nat i)" if b: "b \<in> set xs" "i < 8" for b i
  proof (rule ccontr)
    assume "\<not> ?thesis"
    then obtain a where a: "phys_page km a" "0 < refs km a" "in_page a (b + of_nat i)" using m by blast
    have pb: "phys_page km b" "refs km b = 0" using xs b(1) by (auto simp: kmem_inv_def)
    then have "a \<noteq> b" using a(2) by auto
    then have "\<not> in_page a (b + of_nat i)"
      using a(1) pb(1) b(2) by (intro in_page_disjoint [of a b]) (auto simp: phys_page_def in_page_offset)
    with a(3) show False by simp
  qed
  then show ?thesis using kalloc_ok_mem [OF xs, of m] by (auto simp: kalloc_ok_def)
qed

lemma walk_step_alloc:
  assumes ok: "kalloc_ok km" and f: "forest km R" and r: "r \<in> R"
    and p: "tpath (p @ [i])" "tab (mem km) p r = Some t"
    and w: "walk_step True t i km = (res, km')"
  shows "(res = None \<and> km' = km) \<or>
    (\<exists>t'. res = Some t' \<and> extends R km km' \<and> tab (mem km') (p @ [i]) r = Some t')"
proof (cases "next_tab (mem km) t i")
  case (Some t')
  then have "res = Some t' \<and> km' = km" using w by (simp add: walk_step_found)
  then show ?thesis using Some p(2) f ok by (auto simp: tab_snoc extends_def same_page_def)
next
  case None
  obtain xs where xs: "kmem_inv km xs" using ok by (auto simp: kalloc_ok_def)
  have v: "load64 (mem km) (pte_slot t i) AND PTE_V = 0"
    using None by (auto simp: next_tab_def Let_def split: if_splits)
  show ?thesis
  proof (cases xs)
    case Nil
    then show ?thesis using w v xs by (simp add: walk_step_def kmem_inv_Nil)
  next
    case (Cons a as)
    obtain k1 where k1: "kalloc km = (a, k1)" "kmem_inv k1 as" "a \<noteq> 0" "phys_page km a"
        "pte_count k1 = (pte_count km)(a div PGSIZE := 1)" "kend k1 = kend km"
        "\<And>x. mem k1 x = (if in_page a x then 5 else mem km x)"
      using kalloc_Cons xs Cons by blast
    let ?m = "memset (mem k1) a 0 4096"
    have km': "res = Some a" "km' = k1\<lparr>mem := store64 ?m (pte_slot t i) (PA2PTE a OR PTE_V)\<rparr>"
      using w v k1(1,3) by (simp_all add: walk_step_def Let_def)
    have i: "i < 512" "tpath p" using p(1) by (simp_all add: tpath_snoc)
    have ra: "refs km a = 0" using xs Cons by (auto simp: kmem_inv_def)
    have t: "owned km R t" using ownedI [OF r i(2) p(2)] .
    then have t': "phys_page km t" "0 < refs km t" using f by (auto simp: forest_def)
    have na: "\<not> owned km R a" "page_aligned a" using f ra k1(4) by (auto simp: forest_def phys_page_def)
    have l: "linked km R t i a (mem km')"
      unfolding km' using f t i(1) na k1(7) by (simp, intro linked_store) (auto simp: memset_page)
    have m: "mem km' x = mem km x" if "\<not> in_page a x" "\<not> in_page t x" for x
      using that t'(1) i(1) k1(7) by (simp add: km' store64_slot_page memset_page phys_page_def)
    have "kalloc_ok km'"
      unfolding km'
    proof (rule kalloc_ok_write)
      show "kalloc_ok k1" using k1(2) by (auto simp: kalloc_ok_def)
      fix x assume "store64 ?m (pte_slot t i) (PA2PTE a OR PTE_V) x \<noteq> mem k1 x"
      then have "in_page a x \<or> in_page t x"
        using t'(1) i(1) by (auto simp: store64_slot_page memset_page phys_page_def split: if_splits)
      moreover have "refs k1 a = 1" "refs k1 t = refs km t"
        using k1(4,5) t' ra by (auto simp: refs_upd)
      ultimately show "\<exists>b. phys_page k1 b \<and> 0 < refs k1 b \<and> in_page b x"
        using k1(4) t' ra unfolding phys_page_fun [OF k1(6)] by auto
    qed
    then have "extends R km km'"
      using k1(4,5,6) ra m by (intro extends_linked [OF _ f r p None l]) (auto simp: km')
    moreover have "tab (mem km') (p @ [i]) r = Some a"
      using tab_linked_new(1) [OF f r p l] na k1(4) phys_page_less by auto
    ultimately show ?thesis using km'(1) by simp
  qed
qed

lemma extends_refl: "kalloc_ok km \<Longrightarrow> forest km R \<Longrightarrow> extends R km km"
  by (simp add: extends_def same_page_def)

lemma extends_trans:
  assumes a: "extends R k1 k2" and b: "extends R k2 k3"
  shows "extends R k1 k3"
proof -
  have ph: "phys_page k2 = phys_page k1" using a by (intro phys_page_fun) (simp add: extends_def)
  have "refs k3 x = refs k1 x" if "phys_page k1 x" "0 < refs k1 x" for x
    using a b that ph unfolding extends_def by metis
  then show ?thesis using a b unfolding extends_def same_page_def by auto
qed

lemma slot_of_table:
  assumes "kalloc_ok km" "forest km R" "r \<in> R" "tpath p" "tab (mem km) p r = Some t" "i < 512"
  shows "pte_slot t i \<noteq> 0"
proof -
  have "phys_page km t" using forest_page [OF assms(2-5)] by simp
  moreover have "0 < kend km" using assms(1) by (auto simp: kalloc_ok_def kmem_inv_def)
  ultimately show ?thesis using assms(6) by (intro slot_nonzero) (auto simp: phys_page_def)
qed

text \<open>Without allocation \<open>walk\<close> finds the leaf entry or reports that there is none.\<close>

lemma walk_loop_find:
  "walk_loop 2 r va False km =
     ((case tab (mem km) (vpath va) r of None \<Rightarrow> 0 | Some t \<Rightarrow> pte_slot t (PX 0 va)), km)"
  by (auto simp: numeral_2_eq_2 vpath_def tab.simps(2) walk_step_found walk_step_none
      split: option.splits)

text \<open>With allocation it fails only when memory runs out, and changes no entry it did not add.\<close>

lemma walk_loop_alloc:
  assumes ok: "kalloc_ok km" and f: "forest km R" and r: "r \<in> R"
    and w: "walk_loop 2 r va True km = (pte, km')"
  shows "extends R km km' \<and>
    (pte = 0 \<or> (\<exists>t. tab (mem km') (vpath va) r = Some t \<and> pte = pte_slot t (PX 0 va)))"
proof -
  obtain t1 k1 where s1: "walk_step True r (PX 2 va) km = (t1, k1)" by fastforce
  have p1: "tpath ([] @ [PX 2 va])" by (simp add: PX_less)
  note a1 = walk_step_alloc [OF ok f r p1 _ s1, simplified]
  show ?thesis
  proof (cases t1)
    case None
    then show ?thesis using a1 w s1 extends_refl [OF ok f] by (auto simp: numeral_2_eq_2)
  next
    case (Some u)
    then have e1: "extends R km k1" "tab (mem k1) [PX 2 va] r = Some u" using a1 by auto
    obtain t2 k2 where s2: "walk_step True u (PX 1 va) k1 = (t2, k2)" by fastforce
    have p2: "tpath ([PX 2 va] @ [PX 1 va])" by (simp add: PX_less)
    have e1': "kalloc_ok k1" "forest k1 R" using e1(1) by (auto simp: extends_def)
    note a2 = walk_step_alloc [OF e1' r p2 e1(2) s2]
    have w2: "(pte, km') = (case t2 of None \<Rightarrow> (0, k2) | Some t \<Rightarrow> (pte_slot t (PX 0 va), k2))"
      using w s1 s2 Some by (simp add: numeral_2_eq_2 split: option.splits)
    show ?thesis
    proof (cases t2)
      case None
      then show ?thesis using w2 a2 e1(1) by auto
    next
      case (Some v)
      then show ?thesis using w2 a2 e1(1) extends_trans by (auto simp: vpath_def)
    qed
  qed
qed

section \<open>Changing one entry\<close>

text \<open>\<open>upd_leaf R km km' r va e\<close>: from \<open>km\<close> to \<open>km'\<close> the entry for \<open>va\<close> in the table \<open>r\<close> became \<open>e\<close>,
  and no other entry of the forest, no reference count and no data page changed.\<close>

definition upd_leaf :: "u64 set \<Rightarrow> kmem \<Rightarrow> kmem \<Rightarrow> u64 \<Rightarrow> u64 \<Rightarrow> u64 \<Rightarrow> bool" where
  "upd_leaf R km km' r va e \<longleftrightarrow>
     kalloc_ok km' \<and> forest km' R \<and> kend km' = kend km \<and>
     (\<forall>r'\<in>R. \<forall>va'. page_aligned va' \<longrightarrow> va' < MAXVA \<longrightarrow>
        leaf (mem km') r' va' = (if r' = r \<and> va' = va then e else leaf (mem km) r' va')) \<and>
     (\<forall>a. phys_page km a \<longrightarrow> 0 < refs km a \<longrightarrow> refs km' a = refs km a) \<and>
     (\<forall>a. data_page km R a \<longrightarrow> data_page km' R a \<and> same_page km km' a)"

lemma upd_leaf_store:
  assumes ok: "kalloc_ok km" and f: "forest km R" and r: "r \<in> R"
    and t: "tab (mem km) (vpath va) r = Some t" and va: "page_aligned va" "va < MAXVA"
    and km': "km' = km\<lparr>mem := store64 (mem km) (pte_slot t (PX 0 va)) e\<rparr>"
  shows "upd_leaf R km km' r va e"
proof -
  have tp: "phys_page km t" "0 < refs km t" using forest_page [OF f r _ t] by simp_all
  have tow: "owned km R t" using ownedI [OF r _ t] by simp
  have out: "mem km' x = mem km x" if "\<not> in_page t x" for x
    using that tp(1) by (simp add: km' store64_slot_page phys_page_def PX_less)
  have "kalloc_ok km'"
    unfolding km' using tp out by (intro kalloc_ok_write [OF ok]) (auto simp: km')
  moreover have tb: "tab (mem km') p r' = tab (mem km) p r'" if "r' \<in> R" "tpath p" for r' p
    unfolding km' by (simp, rule tab_store_leaf [OF f that(1) r that(2) _ _ t]) (simp_all add: PX_less)
  moreover have ow: "owned km' R a = owned km R a" for a
    unfolding owned_def using tb by (metis (no_types, lifting))
  moreover have same: "phys_page km' = phys_page km" "refs km' = refs km"
    by (auto simp: km' phys_page_def refs_def fun_eq_iff)
  moreover have "forest km' R"
    using f tb unfolding forest_def ow same by (metis (no_types, lifting))
  moreover have "leaf (mem km') r' va' = (if r' = r \<and> va' = va then e else leaf (mem km) r' va')"
    if "r' \<in> R" "page_aligned va'" "va' < MAXVA" for r' va'
    unfolding km' using leaf_store_leaf [OF f that(1) r t that(2) va(1) that(3) va(2)] by simp
  moreover have "same_page km km' a" if d: "data_page km R a" for a
  proof -
    have "a \<noteq> t" using d tow by (auto simp: data_page_def)
    then show ?thesis
      using d tp(1) out in_page_disjoint [of t a] by (auto simp: same_page_def data_page_def phys_page_def)
  qed
  ultimately show ?thesis unfolding upd_leaf_def data_page_def by (auto simp: km')
qed

lemma upd_leaf_extends:
  assumes a: "extends R k1 k2" and b: "upd_leaf R k2 k3 r va e"
  shows "upd_leaf R k1 k3 r va e"
proof -
  have ph: "phys_page k2 = phys_page k1" using a by (intro phys_page_fun) (simp add: extends_def)
  have "refs k3 x = refs k1 x" if "phys_page k1 x" "0 < refs k1 x" for x
    using a b that ph unfolding extends_def upd_leaf_def by metis
  then show ?thesis using a b unfolding extends_def upd_leaf_def same_page_def by auto
qed

text \<open>Mapping one page.\<close>

lemma page_aligned_last: "page_aligned va \<Longrightarrow> PGROUNDDOWN (va + PGSIZE - 1) = va"
  using in_page_iff_PGROUNDDOWN [of va "va + PGSIZE - 1"] by (simp add: in_page_def PGSIZE_def)

lemma mappages_one:
  assumes ok: "kalloc_ok km" and f: "forest km R" and r: "r \<in> R"
    and va: "page_aligned va" "va < MAXVA" and free: "leaf (mem km) r va AND PTE_V = 0"
  shows "\<exists>res km'. mappages r va PGSIZE pa perm km = Ok (res, km') \<and>
    (res = - 1 \<and> extends R km km' \<or>
     res = 0 \<and> upd_leaf R km km' r va (PA2PTE pa OR perm OR PTE_V))"
proof -
  obtain pte k1 where w: "walk_loop 2 r va True km = (pte, k1)" by fastforce
  note a = walk_loop_alloc [OF ok f r w]
  have rd: "PGROUNDDOWN va = va" "PGROUNDDOWN (va + PGSIZE - 1) = va"
    using va(1) by (simp_all add: page_aligned_last PGROUNDDOWN_id)
  have m: "mappages r va PGSIZE pa perm km =
      (if pte = 0 then Ok (- 1, k1)
       else if load64 (mem k1) pte AND PTE_V \<noteq> 0 then Panic ''mappages: remap''
       else Ok (0, k1\<lparr>mem := store64 (mem k1) pte (PA2PTE pa OR perm OR PTE_V)\<rparr>))"
    unfolding mappages_def rd
    by (subst mappages_loop.simps) (use va(2) w in \<open>simp add: PGSIZE_def walk_def\<close>)
  show ?thesis
  proof (cases "pte = 0")
    case True
    then show ?thesis using m a by simp
  next
    case False
    then obtain t where t: "tab (mem k1) (vpath va) r = Some t" "pte = pte_slot t (PX 0 va)"
      using a by auto
    have e: "extends R km k1" using a by simp
    then have "load64 (mem k1) pte = leaf (mem km) r va"
      using t r by (simp add: extends_def leaf_def [of "mem k1"] split: option.splits)
    then show ?thesis
      using False m free t e upd_leaf_extends [OF e upd_leaf_store [OF _ _ r t(1) va]]
      by (auto simp: extends_def)
  qed
qed

end
