(* ===== verification/Vm_Cow.thy ===== *)
theory Vm_Cow
  imports Vm_Tree
begin

text \<open>
  Copy-on-write: what \<open>uvmcopy\<close> leaves behind on success and on failure, and what
  \<open>cow_page_fault\<close> does to a shared page. The state of a half-finished copy is \<open>cow_state\<close>; each
  step of the loops moves from one such state to the next.
\<close>

section \<open>Entries\<close>

definition child_entry :: "u64 \<Rightarrow> u64" where
  "child_entry e = PA2PTE (PTE2PA (cow_entry e)) OR PTE_FLAGS (cow_entry e) OR PTE_V"

lemma bit_pow2: "(w :: u64) = 2 ^ k \<Longrightarrow> k < 64 \<Longrightarrow> bit w n \<longleftrightarrow> n = k"
  by (auto simp: bit_exp_iff)

lemma bit_PTE:
  "bit PTE_V n \<longleftrightarrow> n = 0" "bit PTE_R n \<longleftrightarrow> n = 1" "bit PTE_W n \<longleftrightarrow> n = 2" "bit PTE_X n \<longleftrightarrow> n = 3"
  "bit PTE_U n \<longleftrightarrow> n = 4" "bit PTE_COW n \<longleftrightarrow> n = 5"
  by (rule bit_pow2; simp add: pte_bit_defs)+

lemma and_flag_iff:
  assumes "\<And>n. bit f n \<longleftrightarrow> n = k" and "k < 64"
  shows "(e :: u64) AND f \<noteq> 0 \<longleftrightarrow> bit e k"
proof -
  have "e AND f = (if bit e k then f else 0)"
    using assms(1) by (intro bit_word_eqI) (auto simp: bit_simps)
  moreover have "f \<noteq> 0" using assms(1) [of k] by auto
  ultimately show ?thesis by simp
qed

lemma flag0_iff:
  fixes e :: u64
  shows "e AND PTE_V = 0 \<longleftrightarrow> \<not> bit e 0" "e AND PTE_W = 0 \<longleftrightarrow> \<not> bit e 2"
    "e AND PTE_U = 0 \<longleftrightarrow> \<not> bit e 4" "e AND PTE_COW = 0 \<longleftrightarrow> \<not> bit e 5"
  using and_flag_iff [OF bit_PTE(1), of e] and_flag_iff [OF bit_PTE(3), of e]
    and_flag_iff [OF bit_PTE(5), of e] and_flag_iff [OF bit_PTE(6), of e] by auto

lemma bit_cow_entry: "bit (cow_entry e) n \<longleftrightarrow> n < 64 \<and> n \<noteq> 2 \<and> (bit e n \<or> n = 5)"
  by (auto simp: cow_entry_def bit_simps bit_PTE dest: bit_imp_le_length)

lemma bit_PTE_FLAGS: "bit (PTE_FLAGS e) n \<longleftrightarrow> n < 10 \<and> bit e n"
  by (auto simp: PTE_FLAGS_take_bit bit_simps)

lemma PTE2PA_cow_entry [simp]: "PTE2PA (cow_entry e) = PTE2PA e"
  unfolding PTE2PA_def by (rule bit_word_eqI) (auto simp: bit_simps bit_cow_entry)

lemma PTE_FLAGS_small: "PTE_FLAGS e < 2 ^ 10"
  by (simp add: PTE_FLAGS_take_bit take_bit_eq_mod word_less_nat_alt unat_mod)

lemma child_entry:
  assumes "PTE2PA e < 2 ^ 56" "e AND PTE_V \<noteq> 0"
  shows "PTE2PA (child_entry e) = PTE2PA e" and "PTE_FLAGS (child_entry e) = PTE_FLAGS (cow_entry e)"
proof -
  have v: "PTE_FLAGS (cow_entry e) OR PTE_V = PTE_FLAGS (cow_entry e)"
    using assms(2) by (intro bit_word_eqI) (auto simp: bit_simps bit_PTE_FLAGS bit_PTE bit_cow_entry flag0_iff)
  have c: "child_entry e = PA2PTE (PTE2PA e) OR PTE_FLAGS (cow_entry e)"
    by (simp add: child_entry_def or.assoc v)
  show "PTE2PA (child_entry e) = PTE2PA e" "PTE_FLAGS (child_entry e) = PTE_FLAGS (cow_entry e)"
    unfolding c by (rule PTE2PA_PA2PTE_flags [OF page_aligned_PTE2PA assms(1) PTE_FLAGS_small])+
qed

lemma flags_of_PTE_FLAGS [simp]:
  "PTE_FLAGS e AND PTE_V = 0 \<longleftrightarrow> e AND PTE_V = 0" "PTE_FLAGS e AND PTE_W = 0 \<longleftrightarrow> e AND PTE_W = 0"
  "PTE_FLAGS e AND PTE_U = 0 \<longleftrightarrow> e AND PTE_U = 0" "PTE_FLAGS e AND PTE_COW = 0 \<longleftrightarrow> e AND PTE_COW = 0"
  by (simp_all add: flag0_iff bit_PTE_FLAGS)

lemma cow_entry_bits [simp]:
  "cow_entry e AND PTE_V = 0 \<longleftrightarrow> e AND PTE_V = 0" "cow_entry e AND PTE_W = 0"
  "cow_entry e AND PTE_U = 0 \<longleftrightarrow> e AND PTE_U = 0" "cow_entry e AND PTE_COW \<noteq> 0"
  by (simp_all add: flag0_iff bit_cow_entry)

section \<open>Page numbers\<close>

definition vpage :: "nat \<Rightarrow> u64" where
  "vpage k = of_nat (4096 * k)"

lemma unat_MAXVA: "unat MAXVA = 0x4000000000"
  by (simp add: MAXVA_def push_bit_eq_mult)

lemma unat_vpage: "k \<le> 0x4000000 \<Longrightarrow> unat (vpage k) = 4096 * k"
  by (simp add: vpage_def unat_of_nat64 del: of_nat_mult)

lemma vpage_Suc: "vpage k + PGSIZE = vpage (Suc k)"
  by (simp add: vpage_def PGSIZE_def)

lemma page_aligned_vpage: "k \<le> 0x4000000 \<Longrightarrow> page_aligned (vpage k)"
  by (simp add: page_aligned_unat unat_vpage)

lemma vpage_below: "k < 0x4000000 \<Longrightarrow> vpage k < MAXVA"
  by (simp add: word_less_nat_alt unat_vpage unat_MAXVA)

section \<open>Walking to a valid entry\<close>

lemma leaf_tab: "leaf m r va AND PTE_V \<noteq> 0 \<Longrightarrow> \<exists>t. tab m (vpath va) r = Some t \<and> load64 m (pte_slot t (PX 0 va)) = leaf m r va"
  by (cases "tab m (vpath va) r") (auto simp: leaf_def)

lemma walk_valid:
  assumes "kalloc_ok km" "forest km R" "r \<in> R" "va < MAXVA" "leaf (mem km) r va AND PTE_V \<noteq> 0"
  obtains t where "tab (mem km) (vpath va) r = Some t" "walk r va False km = Ok (pte_slot t (PX 0 va), km)"
    "pte_slot t (PX 0 va) \<noteq> 0" "load64 (mem km) (pte_slot t (PX 0 va)) = leaf (mem km) r va"
proof -
  obtain t where t: "tab (mem km) (vpath va) r = Some t"
      "load64 (mem km) (pte_slot t (PX 0 va)) = leaf (mem km) r va" using leaf_tab [OF assms(5)] by blast
  moreover have "walk r va False km = Ok (pte_slot t (PX 0 va), km)"
    using t assms(4) by (simp add: walk_def walk_loop_find)
  moreover have "pte_slot t (PX 0 va) \<noteq> 0"
    using slot_of_table [OF assms(1-3) _ t(1)] by (simp add: PX_less)
  ultimately show thesis using that by blast
qed

section \<open>A copy in progress\<close>

text \<open>
  Between the pages of two tables \<open>old\<close> and \<open>new\<close>: the first \<open>u\<close> entries of \<open>old\<close> are marked,
  the entries \<open>j .. k - 1\<close> of \<open>new\<close> are copies, those below \<open>j\<close> are cleared, and page \<open>a\<close> has
  \<open>c a\<close> references more than in \<open>km0\<close>.
\<close>

definition cow_state ::
    "u64 set \<Rightarrow> u64 \<Rightarrow> u64 \<Rightarrow> kmem \<Rightarrow> nat \<Rightarrow> nat \<Rightarrow> nat \<Rightarrow> (u64 \<Rightarrow> int) \<Rightarrow> kmem \<Rightarrow> bool" where
  "cow_state R old new km0 u j k c km \<longleftrightarrow>
     kalloc_ok km \<and> forest km R \<and> kend km = kend km0 \<and>
     (\<forall>r\<in>R. \<forall>va. page_aligned va \<longrightarrow> va < MAXVA \<longrightarrow> leaf (mem km) r va =
        (if r = old \<and> unat va < 4096 * u then cow_entry (leaf (mem km0) old va)
         else if r = new \<and> unat va < 4096 * j then 0
         else if r = new \<and> unat va < 4096 * k then child_entry (leaf (mem km0) old va)
         else leaf (mem km0) r va)) \<and>
     (\<forall>a. data_page km0 R a \<longrightarrow>
        data_page km R a \<and> same_page km0 km a \<and> refs km a = refs km0 a + c a)"

definition copyable :: "u64 set \<Rightarrow> u64 \<Rightarrow> u64 \<Rightarrow> nat \<Rightarrow> kmem \<Rightarrow> bool" where
  "copyable R old new n km \<longleftrightarrow>
     kalloc_ok km \<and> forest km R \<and> old \<in> R \<and> new \<in> R \<and> old \<noteq> new \<and> n < 0x4000000 \<and>
     (\<forall>j<n. leaf (mem km) old (vpage j) AND PTE_V \<noteq> 0 \<and>
        data_page km R (PTE2PA (leaf (mem km) old (vpage j))) \<and>
        leaf (mem km) new (vpage j) AND PTE_V = 0)"

lemma aligned_less_Suc:
  assumes "page_aligned va" "k < 0x4000000"
  shows "unat va < 4096 * Suc k \<longleftrightarrow> unat va < 4096 * k \<or> va = vpage k"
proof -
  obtain q where "unat va = 4096 * q" using page_aligned_unat_eq [OF assms(1)] by blast
  then show ?thesis using assms(2) by (auto simp: word_unat_eq_iff unat_vpage)
qed

lemma cow_state_init: "copyable R old new n km \<Longrightarrow> cow_state R old new km 0 0 0 (\<lambda>_. 0) km"
  by (auto simp: copyable_def cow_state_def same_page_def)

lemma cow_state_leaf:
  "cow_state R old new km0 u j k c km \<Longrightarrow> r \<in> R \<Longrightarrow> i < 0x4000000 \<Longrightarrow>
     leaf (mem km) r (vpage i) =
       (if r = old \<and> i < u then cow_entry (leaf (mem km0) old (vpage i))
        else if r = new \<and> i < j then 0
        else if r = new \<and> i < k then child_entry (leaf (mem km0) old (vpage i))
        else leaf (mem km0) r (vpage i))"
  by (auto simp: cow_state_def page_aligned_vpage vpage_below unat_vpage)

lemma cow_state_upd:
  assumes c: "cow_state R old new km0 u j k c km" and up: "upd_leaf R km km' r (vpage i) e"
    and i: "i < 0x4000000" "old \<noteq> new" "r = old \<or> r = new"
    and new: "\<And>va. va = vpage i \<Longrightarrow> e =
      (if r = old \<and> unat va < 4096 * u' then cow_entry (leaf (mem km0) old va)
       else if r = new \<and> unat va < 4096 * j' then 0
       else if r = new \<and> unat va < 4096 * k' then child_entry (leaf (mem km0) old va)
       else leaf (mem km0) r va)"
    and rest: "\<And>va. page_aligned va \<Longrightarrow> va \<noteq> vpage i \<Longrightarrow>
      (r = old \<longrightarrow> (unat va < 4096 * u') = (unat va < 4096 * u)) \<and>
      (r = new \<longrightarrow> (unat va < 4096 * j') = (unat va < 4096 * j) \<and> (unat va < 4096 * k') = (unat va < 4096 * k))"
    and frame: "r = old \<Longrightarrow> j' = j \<and> k' = k" "r = new \<Longrightarrow> u' = u"
  shows "cow_state R old new km0 u' j' k' c km'"
proof -
  have "leaf (mem km') r' va =
        (if r' = old \<and> unat va < 4096 * u' then cow_entry (leaf (mem km0) old va)
         else if r' = new \<and> unat va < 4096 * j' then 0
         else if r' = new \<and> unat va < 4096 * k' then child_entry (leaf (mem km0) old va)
         else leaf (mem km0) r' va)" if a: "r' \<in> R" "page_aligned va" "va < MAXVA" for r' va
  proof (cases "r' = r \<and> va = vpage i")
    case True
    then show ?thesis using up a new by (auto simp: upd_leaf_def)
  next
    case False
    then have "leaf (mem km') r' va = leaf (mem km) r' va"
      using up a by (auto simp: upd_leaf_def)
    then show ?thesis using c a rest [OF a(2)] frame False i by (auto simp: cow_state_def)
  qed
  moreover have "data_page km' R a \<and> same_page km0 km' a \<and> refs km' a = refs km0 a + c a"
    if "data_page km0 R a" for a
    using that c up by (auto simp: cow_state_def upd_leaf_def same_page_def data_page_def)
  ultimately show ?thesis using c up by (auto simp: cow_state_def upd_leaf_def)
qed

lemma cow_state_extends:
  assumes c: "cow_state R old new km0 u j k c km" and e: "extends R km km'"
  shows "cow_state R old new km0 u j k c km'"
proof -
  have "data_page km' R a \<and> same_page km0 km' a \<and> refs km' a = refs km0 a + c a"
    if "data_page km0 R a" for a
    using that c e by (auto simp: cow_state_def extends_def same_page_def data_page_def)
  then show ?thesis using c e by (auto simp: cow_state_def extends_def)
qed

lemma refs_count_upd:
  assumes "data_page km R a" "pte_count km' = (pte_count km)(a div PGSIZE := v)" "kend km' = kend km"
    "mem km' = mem km" "kalloc_ok km'" "0 < v" "forest km R"
  shows "forest km' R" "data_page km R b \<Longrightarrow> data_page km' R b \<and> same_page km km' b \<and>
    refs km' b = (if b = a then v else refs km b)"
proof -
  have ph: "phys_page km' = phys_page km" using assms(3) by (rule phys_page_fun)
  have rc: "refs km' b = (if b = a then v else refs km b)" if "phys_page km b" for b
    using assms(1,2) that by (auto simp: refs_upd data_page_def)
  have ow: "owned km' R b = owned km R b" for b by (simp add: owned_def assms(4))
  show "forest km' R"
    using assms(4,6,7) rc unfolding forest_def ow ph by auto
  show "data_page km R b \<Longrightarrow> data_page km' R b \<and> same_page km km' b \<and>
      refs km' b = (if b = a then v else refs km b)"
    using rc assms(4,6) by (auto simp: data_page_def ow ph same_page_def)
qed

lemma cow_state_count:
  assumes c: "cow_state R old new km0 u j k c km" and a: "data_page km0 R a"
    and k: "pte_count km' = (pte_count km)(a div PGSIZE := v)" "kend km' = kend km"
      "mem km' = mem km" "kalloc_ok km'" "0 < v"
  shows "cow_state R old new km0 u j k (c(a := v - refs km0 a)) km'"
proof -
  have d: "data_page km R a" and f: "forest km R" using c a by (auto simp: cow_state_def)
  note up = refs_count_upd [OF d k f]
  have "data_page km' R b \<and> same_page km0 km' b \<and> refs km' b = refs km0 b + (c(a := v - refs km0 a)) b"
    if "data_page km0 R b" for b
    using up(2) [of b] that c by (auto simp: cow_state_def same_page_def)
  then show ?thesis using up(1) c k by (auto simp: cow_state_def)
qed

text \<open>One iteration of \<open>uvmcopy\<close>: mark the parent's entry, count the reference, map the child's.\<close>

definition shared_count :: "u64 \<Rightarrow> kmem \<Rightarrow> nat \<Rightarrow> u64 \<Rightarrow> int" where
  "shared_count old km k a =
     int (card {j. j < k \<and> PTE2PA (leaf (mem km) old (vpage j)) = a})"

lemma shared_count_Suc:
  "shared_count old km (Suc k) a =
     shared_count old km k a + (if PTE2PA (leaf (mem km) old (vpage k)) = a then 1 else 0)"
proof -
  let ?S = "\<lambda>k. {j. j < k \<and> PTE2PA (leaf (mem km) old (vpage j)) = a}"
  have "?S (Suc k) = (if PTE2PA (leaf (mem km) old (vpage k)) = a then insert k (?S k) else ?S k)"
    by (auto simp: less_Suc_eq)
  moreover have "finite (?S k)" "k \<notin> ?S k" by auto
  ultimately show ?thesis unfolding shared_count_def by simp
qed

lemma shared_count_0 [simp]: "shared_count old km 0 = (\<lambda>_. 0)"
  by (simp add: shared_count_def fun_eq_iff)

lemma shared_count_pos:
  "j < k \<Longrightarrow> shared_count old km j (PTE2PA (leaf (mem km) old (vpage j))) <
     shared_count old km k (PTE2PA (leaf (mem km) old (vpage j)))"
proof -
  assume "j < k"
  then have "{x. x < Suc j \<and> PTE2PA (leaf (mem km) old (vpage x)) = a} \<subseteq>
      {x. x < k \<and> PTE2PA (leaf (mem km) old (vpage x)) = a}" for a by auto
  then have "shared_count old km (Suc j) a \<le> shared_count old km k a" for a
    unfolding shared_count_def by (simp add: card_mono)
  from this [of "PTE2PA (leaf (mem km) old (vpage j))"] show ?thesis
    by (simp add: shared_count_Suc)
qed

lemma mark_step:
  assumes cp: "copyable R old new n km0" and k: "k < n" and c: "cow_state R old new km0 k 0 k c km"
    and cc: "0 \<le> c (PTE2PA (leaf (mem km0) old (vpage k)))"
  obtains t km1 where
    "walk old (vpage k) False km = Ok (pte_slot t (PX 0 (vpage k)), km)" "pte_slot t (PX 0 (vpage k)) \<noteq> 0"
    "load64 (mem km) (pte_slot t (PX 0 (vpage k))) = leaf (mem km0) old (vpage k)"
    "km1 = safe_inc_count (PTE2PA (leaf (mem km0) old (vpage k)))
       (km\<lparr>mem := store64 (mem km) (pte_slot t (PX 0 (vpage k))) (cow_entry (leaf (mem km0) old (vpage k)))\<rparr>)"
    "cow_state R old new km0 (Suc k) 0 k
       (\<lambda>a. c a + (if PTE2PA (leaf (mem km0) old (vpage k)) = a then 1 else 0)) km1"
proof -
  let ?va = "vpage k" and ?e = "leaf (mem km0) old (vpage k)"
  have k': "k < 0x4000000" and R: "old \<in> R" "new \<in> R" "old \<noteq> new" and v: "?e AND PTE_V \<noteq> 0"
    and d: "data_page km0 R (PTE2PA ?e)"
    using cp k by (auto simp: copyable_def)
  have st: "kalloc_ok km" "forest km R" using c by (auto simp: cow_state_def)
  have lf: "leaf (mem km) old ?va = ?e" using cow_state_leaf [OF c R(1) k'] R(3) by simp
  obtain t where t: "tab (mem km) (vpath ?va) old = Some t"
      "walk old ?va False km = Ok (pte_slot t (PX 0 ?va), km)" "pte_slot t (PX 0 ?va) \<noteq> 0"
      "load64 (mem km) (pte_slot t (PX 0 ?va)) = leaf (mem km) old ?va"
    using walk_valid [OF st R(1) vpage_below [OF k']] v lf by metis
  let ?km = "km\<lparr>mem := store64 (mem km) (pte_slot t (PX 0 ?va)) (cow_entry ?e)\<rparr>"
  have up: "upd_leaf R km ?km old ?va (cow_entry ?e)"
    using k' by (intro upd_leaf_store [OF st R(1) t(1)]) (simp_all add: page_aligned_vpage vpage_below)
  have s1: "cow_state R old new km0 (Suc k) 0 k c ?km"
    by (rule cow_state_upd [OF c up k' R(3)])
      (use R k' in \<open>auto simp: unat_vpage aligned_less_Suc [simplified]\<close>)
  let ?pa = "PTE2PA ?e"
  let ?km1 = "safe_inc_count ?pa ?km"
  have d1: "phys_page ?km ?pa" "refs ?km ?pa = refs km0 ?pa + c ?pa" "0 < refs km0 ?pa"
    using s1 d by (auto simp: cow_state_def data_page_def)
  have ok1: "kalloc_ok ?km1"
    using ka.share [of ?km ?pa] s1 d1 cc by (auto simp: cow_state_def)
  have "cow_state R old new km0 (Suc k) 0 k (c(?pa := refs ?km ?pa + 1 - refs km0 ?pa)) ?km1"
    using d1 cc ok1 by (intro cow_state_count [OF s1 d]) (auto simp: safe_inc_count_def inc_count_def refs_def)
  moreover have "c(?pa := refs ?km ?pa + 1 - refs km0 ?pa) = (\<lambda>a. c a + (if ?pa = a then 1 else 0))"
    using d1(2) by auto
  ultimately have "cow_state R old new km0 (Suc k) 0 k (\<lambda>a. c a + (if ?pa = a then 1 else 0)) ?km1"
    by simp
  then show thesis using that t lf by auto
qed

lemma map_step:
  assumes cp: "copyable R old new n km0" and k: "k < n" and c: "cow_state R old new km0 (Suc k) 0 k c km"
    and e: "e = cow_entry (leaf (mem km0) old (vpage k))"
  shows "\<exists>res km'. mappages new (vpage k) PGSIZE (PTE2PA e) (PTE_FLAGS e) km = Ok (res, km') \<and>
    (res = - 1 \<and> cow_state R old new km0 (Suc k) 0 k c km' \<or>
     res = 0 \<and> cow_state R old new km0 (Suc k) 0 (Suc k) c km')"
proof -
  let ?va = "vpage k"
  have k': "k < 0x4000000" and R: "old \<in> R" "new \<in> R" "old \<noteq> new"
    and v: "leaf (mem km0) new ?va AND PTE_V = 0"
    using cp k by (auto simp: copyable_def)
  have st: "kalloc_ok km" "forest km R" using c by (auto simp: cow_state_def)
  have lf: "leaf (mem km) new ?va AND PTE_V = 0" using cow_state_leaf [OF c R(2) k'] R(3) v by simp
  have al: "page_aligned ?va" "?va < MAXVA" using k' by (simp_all add: page_aligned_vpage vpage_below)
  obtain res km' where m: "mappages new ?va PGSIZE (PTE2PA e) (PTE_FLAGS e) km = Ok (res, km')"
      "res = - 1 \<and> extends R km km' \<or>
       res = 0 \<and> upd_leaf R km km' new ?va (PA2PTE (PTE2PA e) OR PTE_FLAGS e OR PTE_V)"
    using mappages_one [OF st R(2) al lf] by blast
  have "cow_state R old new km0 (Suc k) 0 (Suc k) c km'"
    if up: "upd_leaf R km km' new ?va (PA2PTE (PTE2PA e) OR PTE_FLAGS e OR PTE_V)"
    by (rule cow_state_upd [OF c up k' R(3)])
      (use R k' in \<open>auto simp: unat_vpage aligned_less_Suc [simplified] child_entry_def e\<close>)
  then show ?thesis using m cow_state_extends [OF c] by blast
qed

text \<open>One iteration of the \<open>uvmunmap\<close> that undoes a partial copy.\<close>

lemma unmap_step:
  assumes cp: "copyable R old new n km0" and j: "j < k" "k \<le> n"
    and c: "cow_state R old new km0 u j k c km"
    and pos: "0 < c (PTE2PA (leaf (mem km0) old (vpage j)))"
  shows "\<exists>km'. cow_state R old new km0 u (Suc j) k
      (\<lambda>a. c a - (if PTE2PA (leaf (mem km0) old (vpage j)) = a then 1 else 0)) km' \<and>
    (vpage j < a_end \<longrightarrow>
      uvmunmap_loop new (vpage j) a_end True km = uvmunmap_loop new (vpage (Suc j)) a_end True km')"
proof -
  let ?va = "vpage j" and ?ep = "leaf (mem km0) old (vpage j)"
  let ?e = "child_entry ?ep" and ?pa = "PTE2PA ?ep"
  have k': "j < 0x4000000" and R: "old \<in> R" "new \<in> R" "old \<noteq> new" and v: "?ep AND PTE_V \<noteq> 0"
    and d: "data_page km0 R ?pa"
    using cp j by (auto simp: copyable_def)
  have pa: "?pa < 2 ^ 56" using d by (auto simp: data_page_def dest: phys_page_less)
  have fl: "PTE_FLAGS ?e = PTE_FLAGS (cow_entry ?ep)" "PTE2PA ?e = ?pa" using child_entry [OF pa v] by auto
  have bits: "?e AND PTE_V \<noteq> 0" "PTE_FLAGS ?e AND PTE_COW \<noteq> 0" "PTE_V AND PTE_COW = 0"
    using v flags_of_PTE_FLAGS(1) [of ?e] by (simp_all add: fl(1)) (simp add: pte_bit_defs)
  have nl: "PTE_FLAGS ?e \<noteq> PTE_V" using bits(2,3) by metis
  have st: "kalloc_ok km" "forest km R" using c by (auto simp: cow_state_def)
  have lf: "leaf (mem km) new ?va = ?e" using cow_state_leaf [OF c R(2) k'] R(3) j by simp
  obtain t where t: "tab (mem km) (vpath ?va) new = Some t"
      "walk new ?va False km = Ok (pte_slot t (PX 0 ?va), km)" "pte_slot t (PX 0 ?va) \<noteq> 0"
      "load64 (mem km) (pte_slot t (PX 0 ?va)) = ?e"
    using walk_valid [OF st R(2) vpage_below [OF k']] bits(1) lf by metis
  have d1: "phys_page km ?pa" "refs km ?pa = refs km0 ?pa + c ?pa" "0 < refs km0 ?pa"
    using c d by (auto simp: cow_state_def data_page_def)
  let ?km1 = "dec_count ?pa km"
  have kf: "kfree ?pa km = Ok ?km1" using kfree_shared [OF d1(1)] d1 pos by simp
  have ok1: "kalloc_ok ?km1"
    using kmem_inv_dec [of km _ ?pa] st d1 pos by (auto simp: kalloc_ok_def)
  have s1: "cow_state R old new km0 u j k (c(?pa := refs km ?pa - 1 - refs km0 ?pa)) ?km1"
    using d1 pos ok1 by (intro cow_state_count [OF c d]) (auto simp: dec_count_def refs_def)
  moreover have "c(?pa := refs km ?pa - 1 - refs km0 ?pa) = (\<lambda>a. c a - (if ?pa = a then 1 else 0))"
    using d1(2) by auto
  ultimately have s1: "cow_state R old new km0 u j k (\<lambda>a. c a - (if ?pa = a then 1 else 0)) ?km1"
    by simp
  then have st1: "kalloc_ok ?km1" "forest ?km1 R" by (auto simp: cow_state_def)
  have m1: "mem ?km1 = mem km" by (simp add: dec_count_def)
  let ?km2 = "?km1\<lparr>mem := store64 (mem ?km1) (pte_slot t (PX 0 ?va)) 0\<rparr>"
  have up: "upd_leaf R ?km1 ?km2 new ?va 0"
    using k' t(1) m1
    by (intro upd_leaf_store [OF st1 R(2)]) (simp_all add: page_aligned_vpage vpage_below)
  have s2: "cow_state R old new km0 u (Suc j) k (\<lambda>a. c a - (if ?pa = a then 1 else 0)) ?km2"
    by (rule cow_state_upd [OF s1 up k' R(3)])
      (use R k' in \<open>auto simp: unat_vpage aligned_less_Suc [simplified]\<close>)
  moreover have "uvmunmap_loop new ?va a_end True km = uvmunmap_loop new (vpage (Suc j)) a_end True ?km2"
    if "?va < a_end"
    by (subst uvmunmap_loop.simps)
      (use that t(2-4) bits nl fl kf in \<open>simp add: vpage_Suc Let_def\<close>)
  ultimately show ?thesis by blast
qed

lemma unmap_copies:
  assumes cp: "copyable R old new n km0" and jk: "j \<le> k" "k \<le> n"
    and c: "cow_state R old new km0 u j k c km"
    and pos: "\<And>a. c a = shared_count old km0 k a - shared_count old km0 j a + x a" "\<And>a. 0 \<le> x a"
  shows "\<exists>km'. uvmunmap_loop new (vpage j) (vpage k) True km = Ok km' \<and>
    cow_state R old new km0 u k k x km'"
  using jk c pos
proof (induction "k - j" arbitrary: j c km)
  case 0
  then have "j = k" "c = x" by (auto simp: fun_eq_iff)
  then show ?case using 0 by (subst uvmunmap_loop.simps) simp
next
  case (Suc d)
  let ?pa = "PTE2PA (leaf (mem km0) old (vpage j))"
  have j: "j < k" using Suc.hyps(2) by simp
  have n: "n < 0x4000000" using cp by (simp add: copyable_def)
  have pos: "0 < c ?pa" using shared_count_pos [OF j] Suc.prems(4,5) by (smt (verit))
  obtain km' where km': "cow_state R old new km0 u (Suc j) k (\<lambda>a. c a - (if ?pa = a then 1 else 0)) km'"
      "vpage j < vpage k \<longrightarrow>
        uvmunmap_loop new (vpage j) (vpage k) True km = uvmunmap_loop new (vpage (Suc j)) (vpage k) True km'"
    using unmap_step [OF cp j Suc.prems(2,3) pos] by blast
  have "vpage j < vpage k" using j n Suc.prems(2) by (simp add: word_less_nat_alt unat_vpage)
  then show ?case
    using Suc.hyps(1) [OF _ _ Suc.prems(2) km'(1)] Suc.hyps(2) j km'(2) Suc.prems(4,5)
    by (auto simp: shared_count_Suc)
qed

section \<open>The whole copy\<close>

lemma uvmcopy_loop_spec:
  assumes cp: "copyable R old new n km0" and k: "k \<le> n" and sz: "n = (unat sz + 4095) div 4096"
    and c: "cow_state R old new km0 k 0 k (shared_count old km0 k) km"
  shows "(\<exists>km'. uvmcopy_loop old new (vpage k) sz km = Ok (0, km') \<and>
      cow_state R old new km0 n 0 n (shared_count old km0 n) km') \<or>
    (\<exists>i<n. \<exists>km'. uvmcopy_loop old new (vpage k) sz km = Ok (- 1, km') \<and>
      cow_state R old new km0 (Suc i) i i
        (\<lambda>a. if a = PTE2PA (leaf (mem km0) old (vpage i)) then 1 else 0) km')"
  using k c
proof (induction "n - k" arbitrary: k km)
  case 0
  have "n < 0x4000000" using cp by (simp add: copyable_def)
  then have "k = n" "\<not> vpage k < sz" using 0 sz by (auto simp: word_less_nat_alt unat_vpage)
  then show ?case using 0 by (subst uvmcopy_loop.simps) simp
next
  case (Suc d)
  let ?va = "vpage k" and ?ep = "leaf (mem km0) old (vpage k)"
  let ?c = "shared_count old km0" and ?pa = "PTE2PA ?ep"
  have k: "k < n" using Suc.hyps(2) by simp
  have n: "n < 0x4000000" using cp by (simp add: copyable_def)
  have lt: "?va < sz" using k n sz by (simp add: word_less_nat_alt unat_vpage)
  have v: "?ep AND PTE_V \<noteq> 0" using cp k by (simp add: copyable_def)
  have nn: "0 \<le> ?c k ?pa" by (simp add: shared_count_def)
  obtain t km1 where t: "walk old ?va False km = Ok (pte_slot t (PX 0 ?va), km)" "pte_slot t (PX 0 ?va) \<noteq> 0"
    "load64 (mem km) (pte_slot t (PX 0 ?va)) = ?ep"
    "km1 = safe_inc_count ?pa (km\<lparr>mem := store64 (mem km) (pte_slot t (PX 0 ?va)) (cow_entry ?ep)\<rparr>)"
    "cow_state R old new km0 (Suc k) 0 k (\<lambda>a. ?c k a + (if ?pa = a then 1 else 0)) km1"
    by (rule mark_step [OF cp k Suc.prems(2) nn]) blast
  have c1: "cow_state R old new km0 (Suc k) 0 k (?c (Suc k)) km1"
  proof -
    have "?c (Suc k) = (\<lambda>a. ?c k a + (if ?pa = a then 1 else 0))"
      by (rule ext) (rule shared_count_Suc)
    then show ?thesis using t(5) by (simp only:)
  qed
  obtain res km2 where m: "mappages new ?va PGSIZE ?pa (PTE_FLAGS (cow_entry ?ep)) km1 = Ok (res, km2)"
    "res = - 1 \<and> cow_state R old new km0 (Suc k) 0 k (?c (Suc k)) km2 \<or>
     res = 0 \<and> cow_state R old new km0 (Suc k) 0 (Suc k) (?c (Suc k)) km2"
    using map_step [OF cp k c1 refl] by auto
  have un: "uvmcopy_loop old new ?va sz km =
      (if res \<noteq> 0 then obind (uvmunmap new 0 (?va div PGSIZE) True km2) (\<lambda>km. Ok (- 1, km))
       else uvmcopy_loop old new (vpage (Suc k)) sz km2)"
    by (subst uvmcopy_loop.simps)
      (use lt v t(1-4) m(1) in \<open>simp add: Let_def load64_store64_same vpage_Suc\<close>)
  show ?case
  proof (cases "res = 0")
    case True
    then show ?thesis using un m(2) Suc.hyps k by auto
  next
    case False
    then have c2: "cow_state R old new km0 (Suc k) 0 k (?c (Suc k)) km2" using m(2) by auto
    have "0 + ?va div PGSIZE * PGSIZE = ?va" "(0 :: u64) = vpage 0"
      using page_aligned_vpage [of k] k n by (simp_all add: page_aligned_def minus_mod_eq_div_mult [symmetric] vpage_def)
    then have "uvmunmap new 0 (?va div PGSIZE) True km2 = uvmunmap_loop new (vpage 0) ?va True km2"
      by (simp add: uvmunmap_def)
    then show ?thesis
      using unmap_copies [OF cp _ _ c2, of "\<lambda>a. if a = ?pa then 1 else 0"] un False k
      by (fastforce simp: shared_count_Suc)
  qed
qed

section \<open>Enough memory\<close>

definition free_pages :: "kmem \<Rightarrow> u64 set" where
  "free_pages km = {a. phys_page km a \<and> refs km a = 0}"

lemma free_pages_cong: "kend km' = kend km \<Longrightarrow> pte_count km' = pte_count km \<Longrightarrow> free_pages km' = free_pages km"
  by (simp add: free_pages_def phys_page_def refs_def)

lemma walk_step_spare:
  assumes ok: "kalloc_ok km" and fr: "free_pages km \<noteq> {}"
  shows "\<exists>t' km'. walk_step True t i km = (Some t', km') \<and> card (free_pages km) \<le> Suc (card (free_pages km'))"
proof (cases "next_tab (mem km) t i")
  case (Some t')
  then show ?thesis by (simp add: walk_step_found)
next
  case None
  then have v: "load64 (mem km) (pte_slot t i) AND PTE_V = 0"
    by (auto simp: next_tab_def Let_def split: if_splits)
  obtain b where b: "phys_page km b" "refs km b = 0" using fr by (auto simp: free_pages_def)
  obtain a k1 where k1: "kalloc km = (a, k1)" "a \<noteq> 0" "phys_page k1 = phys_page km"
      "\<forall>c. phys_page km c \<longrightarrow> refs k1 c = (if c = a then 1 else refs km c)"
    using ka.alloc_some [OF ok b] by blast
  let ?k = "k1\<lparr>mem := store64 (memset (mem k1) a 0 4096) (pte_slot t i) (PA2PTE a OR PTE_V)\<rparr>"
  have "walk_step True t i km = (Some a, ?k)" using v k1(1,2) by (simp add: walk_step_def Let_def)
  moreover have "free_pages ?k = free_pages k1" by (rule free_pages_cong) simp_all
  moreover have "free_pages k1 = free_pages km - {a}" using k1(3,4) by (auto simp: free_pages_def split: if_splits)
  moreover have "card (free_pages km) \<le> Suc (card (free_pages km - {a}))"
    by (cases "a \<in> free_pages km") (simp_all add: card_Diff_singleton)
  ultimately show ?thesis by simp
qed

lemma mappages_enough:
  assumes ok: "kalloc_ok km" and f: "forest km R" and r: "r \<in> R" and va: "page_aligned va" "va < MAXVA"
    and free: "leaf (mem km) r va AND PTE_V = 0" and two: "2 \<le> card (free_pages km)"
  shows "\<exists>km'. mappages r va PGSIZE pa perm km = Ok (0, km') \<and>
    card (free_pages km) \<le> card (free_pages km') + 2"
proof -
  obtain t1 k1 where s1: "walk_step True r (PX 2 va) km = (Some t1, k1)"
      "card (free_pages km) \<le> Suc (card (free_pages k1))"
    using walk_step_spare [OF ok, of r "PX 2 va"] two by fastforce
  have e1: "kalloc_ok k1"
    using walk_step_alloc [OF ok f r, of "[]" "PX 2 va" r "Some t1" k1] s1(1)
    by (auto simp: PX_less extends_def)
  have "free_pages k1 \<noteq> {}" using two s1(2) by auto
  then obtain t2 k2 where s2: "walk_step True t1 (PX 1 va) k1 = (Some t2, k2)"
      and c2: "card (free_pages k1) \<le> Suc (card (free_pages k2))"
    using walk_step_spare [OF e1] by blast
  have w: "walk_loop 2 r va True km = (pte_slot t2 (PX 0 va), k2)"
    using s1(1) s2 by (simp add: numeral_2_eq_2)
  have nz: "pte_slot t2 (PX 0 va) \<noteq> 0"
  proof -
    have a: "extends R km k1 \<and> tab (mem k1) [PX 2 va] r = Some t1"
      using walk_step_alloc [OF ok f r, of "[]" "PX 2 va" r "Some t1" k1] s1(1) by (simp add: PX_less)
    then have "extends R k1 k2 \<and> tab (mem k2) [PX 2 va, PX 1 va] r = Some t2"
      using walk_step_alloc [OF e1 _ r, of "[PX 2 va]" "PX 1 va" t1 "Some t2" k2] s2
      by (simp add: PX_less extends_def)
    then show ?thesis
      using slot_of_table [of k2 R r "[PX 2 va, PX 1 va]" t2 "PX 0 va"] r by (simp add: PX_less extends_def)
  qed
  let ?km = "k2\<lparr>mem := store64 (mem k2) (pte_slot t2 (PX 0 va)) (PA2PTE pa OR perm OR PTE_V)\<rparr>"
  have "mappages r va PGSIZE pa perm km = mappages_loop r va va pa perm km"
    using va(1) page_aligned_last [OF va(1)] by (simp add: mappages_def PGROUNDDOWN_id PGSIZE_def)
  also have "\<dots> = Ok (0, ?km) \<or> is_panic \<dots>"
    by (subst (1 2) mappages_loop.simps) (use w nz va(2) in \<open>simp add: walk_def Let_def\<close>)
  finally have "mappages r va PGSIZE pa perm km = Ok (0, ?km)"
    using mappages_one [OF ok f r va free, of pa perm] by auto
  moreover have "free_pages ?km = free_pages k2" by (rule free_pages_cong) simp_all
  ultimately show ?thesis using s1(2) c2 by auto
qed

section \<open>Changes outside the tables\<close>

lemma forest_frame:
  assumes f: "forest km R" and b: "page_aligned b" "\<not> owned km R b"
    and m: "\<And>x. \<not> in_page b x \<Longrightarrow> mem km' x = mem km x" and k: "kend km' = kend km"
    and rc: "\<And>a. phys_page km a \<Longrightarrow> a \<noteq> b \<Longrightarrow> refs km' a = refs km a"
  shows "forest km' R" and "r \<in> R \<Longrightarrow> tpath p \<Longrightarrow> tab (mem km') p r = tab (mem km) p r"
    and "r \<in> R \<Longrightarrow> leaf (mem km') r va = leaf (mem km) r va" and "owned km' R = owned km R"
proof -
  show tb: "tab (mem km') p r = tab (mem km) p r" if "r \<in> R" "tpath p" for r p
    by (rule tab_frame [OF f that b(2) m b(1)])
  show "r \<in> R \<Longrightarrow> leaf (mem km') r va = leaf (mem km) r va"
    by (rule leaf_frame [OF f _ b(2) m b(1)])
  show ow: "owned km' R = owned km R"
    unfolding owned_def fun_eq_iff using tb by (metis (no_types, lifting))
  have "phys_page km' a \<and> 0 < refs km' a" if "owned km R a" for a
  proof -
    have "a \<noteq> b" "phys_page km a" "0 < refs km a" using that f b(2) by (auto simp: forest_def)
    then show ?thesis using rc [of a] phys_page_fun [OF k] by simp
  qed
  then show "forest km' R"
    using f tb unfolding forest_def ow by (metis (no_types, lifting))
qed

section \<open>A store to a shared page\<close>

definition private_entry :: "u64 \<Rightarrow> u64 \<Rightarrow> u64" where
  "private_entry e pa = PA2PTE pa OR ((PTE_FLAGS e OR PTE_W) AND NOT PTE_COW)"

lemma private_entry:
  assumes "phys_page km pa"
  shows "PTE2PA (private_entry e pa) = pa"
    and "PTE_FLAGS (private_entry e pa) = (PTE_FLAGS e OR PTE_W) AND NOT PTE_COW"
proof -
  have "(PTE_FLAGS e OR PTE_W) AND NOT PTE_COW = take_bit 10 ((e OR PTE_W) AND NOT PTE_COW)"
    by (rule bit_word_eqI) (auto simp: bit_simps bit_PTE_FLAGS bit_PTE)
  then have "(PTE_FLAGS e OR PTE_W) AND NOT PTE_COW < 2 ^ 10"
    by (simp add: take_bit_eq_mod word_less_nat_alt unat_mod)
  then show "PTE2PA (private_entry e pa) = pa"
      "PTE_FLAGS (private_entry e pa) = (PTE_FLAGS e OR PTE_W) AND NOT PTE_COW"
    unfolding private_entry_def using assms phys_page_less [OF assms]
    by (auto simp: phys_page_def intro!: PTE2PA_PA2PTE_flags)
qed

lemma memmove_page:
  "phys_page km d \<Longrightarrow> phys_page km s \<Longrightarrow>
     memmove m d s 4096 x = (if in_page d x then m (s + (x - d)) else m x)"
  using phys_page_bound [of km d] phys_page_bound [of km s] by (simp add: memmove_apply in_page_def)

lemma in_page_shift: "page_aligned s \<Longrightarrow> in_page d x \<Longrightarrow> in_page s (s + (x - d))"
  by (simp add: in_page_def)

text \<open>Dropping a reference to a data page.\<close>

lemma kfree_data:
  assumes ok: "kalloc_ok km" and f: "forest km R" and d: "data_page km R a"
  shows "\<exists>km'. kfree a km = Ok km' \<and> kalloc_ok km' \<and> forest km' R \<and> kend km' = kend km \<and>
    (\<forall>r\<in>R. \<forall>va. leaf (mem km') r va = leaf (mem km) r va) \<and>
    (\<forall>b. phys_page km b \<longrightarrow> refs km' b = refs km b - (if b = a then 1 else 0)) \<and>
    (\<forall>b. data_page km R b \<longrightarrow> 0 < refs km' b \<longrightarrow> data_page km' R b \<and> same_page km km' b)"
proof -
  have a: "phys_page km a" "0 < refs km a" "\<not> owned km R a" "page_aligned a"
    using d by (auto simp: data_page_def phys_page_def)
  obtain k where k: "kfree a km = Ok k" "kalloc_ok k" "kend k = kend km"
      "pte_count k = (pte_count km)(a div PGSIZE := refs km a - 1)"
      "\<And>x. \<not> in_page a x \<Longrightarrow> mem k x = mem km x" "1 < refs km a \<longrightarrow> mem k = mem km"
    using kfree_in_use [OF ok a(1,2)] by blast
  have rc: "refs k b = refs km b - (if b = a then 1 else 0)" if "phys_page km b" for b
    using refs_upd [OF a(1) that k(4)] by auto
  have ph: "phys_page k = phys_page km" using k(3) by (rule phys_page_fun)
  note fr = forest_frame [OF f a(4,3) k(5,3)]
  have "data_page k R b \<and> same_page km k b" if b: "data_page km R b" "0 < refs k b" for b
  proof -
    have "mem k x = mem km x" if "in_page b x" for x
      using b rc [of b] k(5,6) in_page_disjoint [OF a(4) _ _ that]
      by (cases "b = a") (auto simp: data_page_def phys_page_def)
    then show ?thesis using b fr(4) rc by (auto simp: data_page_def ph same_page_def)
  qed
  then show ?thesis using k(1-3) fr(1,3) rc by auto
qed

text \<open>Taking the first free page and copying a data page into it.\<close>

lemma fresh_copy:
  assumes ok: "kmem_inv km (pg # xs)" and f: "forest km R" and d: "data_page km R pa"
  shows "\<exists>k1. kalloc km = (pg, k1) \<and> pg \<noteq> 0 \<and> phys_page km pg \<and> refs km pg = 0 \<and>
    (\<forall>k2. k2 = k1\<lparr>mem := memmove (mem k1) pg pa 4096\<rparr> \<longrightarrow>
      kalloc_ok k2 \<and> forest k2 R \<and> kend k2 = kend km \<and> owned k2 R = owned km R \<and>
      (\<forall>r\<in>R. \<forall>va. tab (mem k2) (vpath va) r = tab (mem km) (vpath va) r \<and>
         leaf (mem k2) r va = leaf (mem km) r va) \<and>
      (\<forall>a. phys_page km a \<longrightarrow> refs k2 a = (if a = pg then 1 else refs km a)) \<and>
      (\<forall>x. mem k2 x = (if in_page pg x then mem km (pa + (x - pg)) else mem km x)))"
proof -
  obtain k1 where k1: "kalloc km = (pg, k1)" "kmem_inv k1 xs" "pg \<noteq> 0" "phys_page km pg"
      "pte_count k1 = (pte_count km)(pg div PGSIZE := 1)" "kend k1 = kend km"
      "\<And>x. mem k1 x = (if in_page pg x then 5 else mem km x)"
    using kalloc_Cons [OF ok] by blast
  have pa: "phys_page km pa" "0 < refs km pa" using d by (auto simp: data_page_def)
  have rpg: "refs km pg = 0" using ok by (auto simp: kmem_inv_def)
  then have ne: "pg \<noteq> pa" using pa(2) by auto
  have npg: "\<not> owned km R pg" using f rpg unfolding forest_def by fastforce
  have al: "page_aligned pg" "page_aligned pa" using k1(4) pa(1) by (auto simp: phys_page_def)
  let ?k2 = "k1\<lparr>mem := memmove (mem k1) pg pa 4096\<rparr>"
  have m2: "mem ?k2 x = (if in_page pg x then mem km (pa + (x - pg)) else mem km x)" for x
    using k1(7) in_page_shift [OF al(2), of pg x] in_page_disjoint [OF al(1) al(2) ne]
    by (auto simp: memmove_page [OF k1(4) pa(1)])
  have rc2: "refs ?k2 a = (if a = pg then 1 else refs km a)" if "phys_page km a" for a
    using that k1(4,5) by (simp add: refs_upd)
  have ph: "phys_page k1 = phys_page km" using k1(6) by (rule phys_page_fun)
  have "refs k1 pg = 1" using rc2 [OF k1(4)] by (simp add: refs_def)
  then have ok2: "kalloc_ok ?k2"
    using k1(2,4,7) m2 by (intro kalloc_ok_write) (auto simp: kalloc_ok_def ph split: if_splits)
  note fr = forest_frame [OF f al(1) npg, of ?k2]
  have fr2: "forest ?k2 R" "owned ?k2 R = owned km R"
      "\<And>r va. r \<in> R \<Longrightarrow> tab (mem ?k2) (vpath va) r = tab (mem km) (vpath va) r \<and>
         leaf (mem ?k2) r va = leaf (mem km) r va"
    using fr(1) fr(2) [OF _ _ _ _ tpath_vpath] fr(3) fr(4) m2 rc2 k1(6) by simp_all
  show ?thesis using k1(1,3,4,6) rpg ok2 fr2 rc2 m2 by auto
qed

text \<open>What \<open>cow_page_fault\<close> does when memory is left: the faulting table gets a private copy.\<close>

definition cow_result :: "u64 set \<Rightarrow> kmem \<Rightarrow> kmem \<Rightarrow> u64 \<Rightarrow> u64 \<Rightarrow> u64 \<Rightarrow> bool" where
  "cow_result R km km' r va pg \<longleftrightarrow>
     kalloc_ok km' \<and> forest km' R \<and> kend km' = kend km \<and>
     (\<forall>r'\<in>R. \<forall>va'. page_aligned va' \<longrightarrow> va' < MAXVA \<longrightarrow> leaf (mem km') r' va' =
        (if r' = r \<and> va' = va then private_entry (leaf (mem km) r va) pg else leaf (mem km) r' va')) \<and>
     phys_page km pg \<and> refs km pg = 0 \<and> refs km' pg = 1 \<and>
     (\<forall>x. in_page pg x \<longrightarrow> mem km' x = mem km (PTE2PA (leaf (mem km) r va) + (x - pg))) \<and>
     (\<forall>a. data_page km R a \<longrightarrow>
        refs km' a = refs km a - (if a = PTE2PA (leaf (mem km) r va) then 1 else 0) \<and>
        (0 < refs km' a \<longrightarrow> data_page km' R a \<and> same_page km km' a))"

lemma cow_page_fault_copies:
  assumes ok: "kmem_inv km (pg # xs)" and f: "forest km R" and r: "r \<in> R"
    and va: "page_aligned va" "va < MAXVA" and e: "e = leaf (mem km) r va"
    and fl: "e AND PTE_V \<noteq> 0" "e AND PTE_U \<noteq> 0" "e AND PTE_COW \<noteq> 0" and d: "data_page km R (PTE2PA e)"
  shows "\<exists>km'. cow_page_fault r va km = Ok (0, km') \<and> cow_result R km km' r va pg"
proof -
  let ?pa = "PTE2PA e"
  have ok': "kalloc_ok km" using ok by (auto simp: kalloc_ok_def)
  obtain t where t: "tab (mem km) (vpath va) r = Some t"
      "walk r va False km = Ok (pte_slot t (PX 0 va), km)" "pte_slot t (PX 0 va) \<noteq> 0"
      "load64 (mem km) (pte_slot t (PX 0 va)) = e"
    using walk_valid [OF ok' f r va(2)] fl(1) e by metis
  obtain k1 where k1: "kalloc km = (pg, k1)" "pg \<noteq> 0" "phys_page km pg" "refs km pg = 0"
    and c: "\<And>k2. k2 = k1\<lparr>mem := memmove (mem k1) pg ?pa 4096\<rparr> \<Longrightarrow>
      kalloc_ok k2 \<and> forest k2 R \<and> kend k2 = kend km \<and> owned k2 R = owned km R \<and>
      (\<forall>r\<in>R. \<forall>va. tab (mem k2) (vpath va) r = tab (mem km) (vpath va) r \<and>
         leaf (mem k2) r va = leaf (mem km) r va) \<and>
      (\<forall>a. phys_page km a \<longrightarrow> refs k2 a = (if a = pg then 1 else refs km a)) \<and>
      (\<forall>x. mem k2 x = (if in_page pg x then mem km (?pa + (x - pg)) else mem km x))"
    using fresh_copy [OF ok f d] by blast
  define k2 where "k2 = k1\<lparr>mem := memmove (mem k1) pg ?pa 4096\<rparr>"
  note c2 = c [OF k2_def]
  define k3 where "k3 = k2\<lparr>mem := store64 (mem k2) (pte_slot t (PX 0 va)) (private_entry e pg)\<rparr>"
  have up: "upd_leaf R k2 k3 r va (private_entry e pg)"
    using c2 r t(1) va by (intro upd_leaf_store [OF _ _ r _ va k3_def]) auto
  have ph: "phys_page k2 = phys_page km" "phys_page k3 = phys_page km"
    using c2 up by (auto simp: upd_leaf_def intro: phys_page_fun)
  have dpg: "data_page k2 R pg"
    using k1(3,4) c2 f by (fastforce simp: data_page_def ph forest_def)
  have d2: "data_page k2 R a \<and> a \<noteq> pg" if "data_page km R a" for a
    using that c2 k1(4) by (auto simp: data_page_def ph)
  have d3: "data_page k3 R ?pa" using up d2 [OF d] by (auto simp: upd_leaf_def)
  obtain k4 where k4: "kfree ?pa k3 = Ok k4" "kalloc_ok k4" "forest k4 R" "kend k4 = kend k3"
    "\<And>r va. r \<in> R \<Longrightarrow> leaf (mem k4) r va = leaf (mem k3) r va"
    "\<And>b. phys_page k3 b \<Longrightarrow> refs k4 b = refs k3 b - (if b = ?pa then 1 else 0)"
    "\<And>b. data_page k3 R b \<Longrightarrow> 0 < refs k4 b \<Longrightarrow> data_page k4 R b \<and> same_page k3 k4 b"
    using kfree_data [OF _ _ d3] up by (auto simp: upd_leaf_def)
  have rc3: "refs k3 a = refs k2 a" for a by (simp add: k3_def refs_def)
  have rpg: "refs k4 pg = 1" using k4(6) [of pg] k1(3) c2 rc3 d2 [OF d] by (auto simp: ph)
  have pgc: "mem k4 x = mem km (?pa + (x - pg))" if "in_page pg x" for x
    using that k4(7) [of pg] rpg up dpg c2 by (auto simp: upd_leaf_def same_page_def)
  have dp: "refs k4 a = refs km a - (if a = ?pa then 1 else 0) \<and>
      (0 < refs k4 a \<longrightarrow> data_page k4 R a \<and> same_page km k4 a)" if da: "data_page km R a" for a
  proof -
    have a: "phys_page km a" "a \<noteq> pg" using da d2 by (auto simp: data_page_def)
    have s: "same_page km k2 a"
      using c2 in_page_disjoint [of pg a] k1(3) a by (auto simp: same_page_def phys_page_def)
    have "data_page k3 R a \<and> same_page k2 k3 a" using up d2 [OF da] by (auto simp: upd_leaf_def)
    then show ?thesis using s k4(6) [of a] k4(7) [of a] a c2 rc3 by (auto simp: ph same_page_def)
  qed
  have "?pa \<noteq> 0" using d ok by (auto simp: data_page_def phys_page_def kmem_inv_def)
  then have "cow_page_fault r va km = Ok (0, k4)"
    unfolding cow_page_fault_def
    using va(2) t k1(1,2) fl k4(1) by (simp add: Let_def private_entry_def k3_def k2_def)
  moreover have "cow_result R km k4 r va pg"
    unfolding cow_result_def e [symmetric]
    using k4(2-5) up c2 k1(3,4) rpg pgc dp r by (auto simp: upd_leaf_def)
  ultimately show ?thesis by blast
qed

end
