(* ===== verification/Vm_Demo.thy ===== *)
theory Vm_Demo
  imports Vm_Cow
begin

text \<open>
  A small concrete machine for the witnesses of the virtual-memory properties: eight pages of
  memory, a parent page table that maps one writable user page at address 0, an empty child page
  table, and three free pages.
\<close>

section \<open>The machine\<close>

definition dH :: u64 where "dH = 0x87FF8000"
definition dO :: u64 where "dO = 0x87FF9000"
definition dT :: u64 where "dT = 0x87FFA000"
definition dL :: u64 where "dL = 0x87FFB000"
definition dN :: u64 where "dN = 0x87FFC000"
definition dD :: u64 where "dD = 0x87FFD000"
definition dF :: u64 where "dF = 0x87FFE000"
definition dG :: u64 where "dG = 0x87FFF000"

lemmas demo_addr = dH_def dO_def dT_def dL_def dN_def dD_def dF_def dG_def

definition demo_entry :: u64 where
  "demo_entry = PA2PTE dD OR (PTE_V OR PTE_R OR PTE_W OR PTE_U)"

definition demo_mem :: memory where
  "demo_mem =
     store64 (store64 (store64 (store64 (store64 (\<lambda>_. 0) (pte_slot dG 0) dH) (pte_slot dF 0) dG)
       (pte_slot dL 0) demo_entry) (pte_slot dT 0) (PA2PTE dL OR PTE_V)) (pte_slot dO 0) (PA2PTE dT OR PTE_V)"

definition demo_km :: kmem where
  "demo_km = \<lparr>mem = demo_mem, freelist = dF,
     pte_count = (\<lambda>p. if p \<in> {dF div PGSIZE, dG div PGSIZE, dH div PGSIZE} then 0 else 1), kend = dH\<rparr>"

section \<open>Its pages and tables\<close>

lemma demo_aligned [simp]:
  "page_aligned dO" "page_aligned dT" "page_aligned dL" "page_aligned dN" "page_aligned dD"
  "page_aligned dF" "page_aligned dG" "page_aligned dH"
  by (simp_all add: page_aligned_def demo_addr PGSIZE_def)

lemma demo_distinct [simp]:
  "dH \<noteq> dO" "dH \<noteq> dT" "dH \<noteq> dL" "dH \<noteq> dN" "dH \<noteq> dD" "dH \<noteq> dF" "dH \<noteq> dG"
  "dO \<noteq> dH" "dO \<noteq> dT" "dO \<noteq> dL" "dO \<noteq> dN" "dO \<noteq> dD" "dO \<noteq> dF" "dO \<noteq> dG"
  "dT \<noteq> dH" "dT \<noteq> dO" "dT \<noteq> dL" "dT \<noteq> dN" "dT \<noteq> dD" "dT \<noteq> dF" "dT \<noteq> dG"
  "dL \<noteq> dH" "dL \<noteq> dO" "dL \<noteq> dT" "dL \<noteq> dN" "dL \<noteq> dD" "dL \<noteq> dF" "dL \<noteq> dG"
  "dN \<noteq> dH" "dN \<noteq> dO" "dN \<noteq> dT" "dN \<noteq> dL" "dN \<noteq> dD" "dN \<noteq> dF" "dN \<noteq> dG"
  "dD \<noteq> dH" "dD \<noteq> dO" "dD \<noteq> dT" "dD \<noteq> dL" "dD \<noteq> dN" "dD \<noteq> dF" "dD \<noteq> dG"
  "dF \<noteq> dH" "dF \<noteq> dO" "dF \<noteq> dT" "dF \<noteq> dL" "dF \<noteq> dN" "dF \<noteq> dD" "dF \<noteq> dG"
  "dG \<noteq> dH" "dG \<noteq> dO" "dG \<noteq> dT" "dG \<noteq> dL" "dG \<noteq> dN" "dG \<noteq> dD" "dG \<noteq> dF"
  by (simp_all add: demo_addr)

lemma load64_slot_store:
  "page_aligned t \<Longrightarrow> page_aligned t' \<Longrightarrow> i < 512 \<Longrightarrow> i' < 512 \<Longrightarrow>
     load64 (store64 m (pte_slot t i) w) (pte_slot t' i') =
       (if t' = t \<and> i' = i then w else load64 m (pte_slot t' i'))"
  using load64_slot_other [of t t' i i' m w] by (cases "t' = t \<and> i' = i") (auto simp: load64_store64_same)

lemma load64_zero_mem [simp]: "load64 (\<lambda>_. 0) a = 0"
  by (rule load64_zero) simp

lemma demo_load:
  "page_aligned t \<Longrightarrow> i < 512 \<Longrightarrow> load64 demo_mem (pte_slot t i) =
     (if t = dO \<and> i = 0 then PA2PTE dT OR PTE_V else if t = dT \<and> i = 0 then PA2PTE dL OR PTE_V
      else if t = dL \<and> i = 0 then demo_entry else if t = dF \<and> i = 0 then dG
      else if t = dG \<and> i = 0 then dH else 0)"
  by (simp add: demo_mem_def load64_slot_store)

lemma demo_pages: "phys_page demo_km a \<longleftrightarrow> a \<in> {dH, dO, dT, dL, dN, dD, dF, dG}"
proof
  assume p: "phys_page demo_km a"
  then obtain q where q: "unat a = 4096 * q" using page_aligned_unat_eq by (auto simp: phys_page_def)
  then have "0x87FF8 \<le> q" "q < 0x88000"
    using p by (simp_all add: phys_page_def demo_km_def word_le_nat_alt word_less_nat_alt unat_PHYSTOP dH_def)
  then have "q \<in> {0x87FF8, 0x87FF9, 0x87FFA, 0x87FFB, 0x87FFC, 0x87FFD, 0x87FFE, 0x87FFF}" by simp arith
  then show "a \<in> {dH, dO, dT, dL, dN, dD, dF, dG}" using q by (auto simp: word_unat_eq_iff demo_addr)
next
  assume "a \<in> {dH, dO, dT, dL, dN, dD, dF, dG}"
  then show "phys_page demo_km a"
    by (auto simp: phys_page_def demo_km_def) (simp_all add: demo_addr PHYSTOP_def KERNBASE_def)
qed

lemma demo_refs:
  "refs demo_km a = (if a div PGSIZE \<in> {dF div PGSIZE, dG div PGSIZE, dH div PGSIZE} then 0 else 1)"
  by (simp add: refs_def demo_km_def)

lemma demo_refs_page: "phys_page demo_km a \<Longrightarrow> refs demo_km a = (if a \<in> {dF, dG, dH} then 0 else 1)"
  by (auto simp: demo_pages demo_refs demo_addr PGSIZE_def)

lemma demo_inv: "kmem_inv demo_km [dF, dG, dH]"
proof -
  have "load64 demo_mem dF = dG" "load64 demo_mem dG = dH" "load64 demo_mem dH = 0"
    using demo_load [of dF 0] demo_load [of dG 0] demo_load [of dH 0] by (simp_all add: pte_slot_def)
  then have "fl_list (mem demo_km) (freelist demo_km) [dF, dG, dH]"
    by (simp add: demo_km_def demo_addr)
  moreover have "refs demo_km a = (if a \<in> {dF, dG, dH} then 0 else 1)" if "phys_page demo_km a" for a
    using that by (simp add: demo_refs_page)
  moreover have "0 < kend demo_km" "kend demo_km \<le> PHYSTOP"
    by (simp_all add: demo_km_def dH_def PHYSTOP_def KERNBASE_def)
  moreover have "\<forall>a\<in>set [dF, dG, dH]. phys_page demo_km a" by (simp add: demo_pages)
  ultimately show ?thesis unfolding kmem_inv_def by auto
qed

lemma demo_next:
  "page_aligned t \<Longrightarrow> i < 512 \<Longrightarrow> t \<in> {dO, dT, dN} \<Longrightarrow> next_tab demo_mem t i =
     (if t = dO \<and> i = 0 then Some dT else if t = dT \<and> i = 0 then Some dL else None)"
proof -
  have "dT < 2 ^ 56" "dL < 2 ^ 56" by (simp_all add: demo_addr)
  then have "PTE2PA (PA2PTE dT OR PTE_V) = dT" "PTE2PA (PA2PTE dL OR PTE_V) = dL"
    by (simp_all add: PTE2PA_PA2PTE_flags PTE_V_def)
  moreover have "(PA2PTE dT OR PTE_V) AND PTE_V \<noteq> 0" "(PA2PTE dL OR PTE_V) AND PTE_V \<noteq> 0"
    by (auto simp: bit.conj_disj_distrib2 PTE_V_def)
  ultimately show "page_aligned t \<Longrightarrow> i < 512 \<Longrightarrow> t \<in> {dO, dT, dN} \<Longrightarrow> ?thesis"
    by (auto simp: next_tab_def demo_load)
qed

lemma demo_tab:
  assumes "r = dO \<or> r = dN" "tpath p"
  shows "tab demo_mem p r =
    (if p = [] then Some r else if r = dO \<and> p = [0] then Some dT
     else if r = dO \<and> p = [0, 0] then Some dL else None)"
proof -
  have "p = [] \<or> (\<exists>i. p = [i]) \<or> (\<exists>i j. p = [i, j])"
    using assms(2) by (auto simp: tpath_def le_Suc_eq length_Suc_conv numeral_2_eq_2)
  then show ?thesis
    using assms by (auto simp: tab.simps(2) demo_next split: option.splits if_splits)
qed

lemma demo_km_mem [simp]: "mem demo_km = demo_mem"
  by (simp add: demo_km_def)

lemma demo_owned: "owned demo_km {dO, dN} a \<longleftrightarrow> a \<in> {dO, dT, dL, dN}"
proof
  assume "owned demo_km {dO, dN} a"
  then obtain r p where "r = dO \<or> r = dN" "tpath p" "tab demo_mem p r = Some a"
    by (auto simp: owned_def)
  then show "a \<in> {dO, dT, dL, dN}" by (auto simp: demo_tab split: if_splits)
next
  have "tpath []" "tpath [0]" "tpath [0, 0]" by simp_all
  moreover have "tab demo_mem [] dO = Some dO" "tab demo_mem [0] dO = Some dT"
    "tab demo_mem [0, 0] dO = Some dL" "tab demo_mem [] dN = Some dN"
    by (simp_all add: demo_tab)
  moreover assume "a \<in> {dO, dT, dL, dN}"
  ultimately show "owned demo_km {dO, dN} a" unfolding owned_def by (auto simp del: tab.simps)
qed

lemma demo_forest: "forest demo_km {dO, dN}"
  unfolding forest_def
proof (intro conjI allI ballI impI)
  fix a assume "owned demo_km {dO, dN} a"
  then have a: "a \<in> {dO, dT, dL, dN}" by (simp add: demo_owned)
  then show "phys_page demo_km a" by (auto simp: demo_pages)
  show "0 < refs demo_km a" using a by (auto simp: demo_refs) (simp_all add: demo_addr PGSIZE_def)
next
  fix r r' p p' a
  assume a: "r \<in> {dO, dN}" "r' \<in> {dO, dN}" "tpath p" "tpath p'" "tab (mem demo_km) p r = Some a"
    "tab (mem demo_km) p' r' = Some a"
  then have "r = r' \<and> p = p'"
    using demo_tab [of r p] demo_tab [of r' p'] by (auto split: if_splits)
  then show "r = r'" "p = p'" by auto
qed

lemma demo_leaf:
  "r \<in> {dO, dN} \<Longrightarrow> leaf demo_mem r 0 = (if r = dO then demo_entry else 0)"
  using demo_tab [of r "[0, 0]"] demo_load [of dL 0]
  by (auto simp: leaf_def vpath_def PX_def)

lemma demo_entry:
  "PTE2PA demo_entry = dD" "demo_entry AND PTE_V \<noteq> 0" "demo_entry AND PTE_U \<noteq> 0" "demo_entry AND PTE_W \<noteq> 0"
  "demo_entry AND PTE_COW = 0"
proof -
  show "PTE2PA demo_entry = dD" unfolding demo_entry_def
    by (rule PTE2PA_PA2PTE_flags) (simp_all add: pte_bit_defs dD_def page_aligned_def PGSIZE_def)
  show "demo_entry AND PTE_V \<noteq> 0" "demo_entry AND PTE_U \<noteq> 0" "demo_entry AND PTE_W \<noteq> 0"
      "demo_entry AND PTE_COW = 0"
    by (simp_all add: demo_entry_def dD_def PA2PTE_def pte_bit_defs)
qed

lemma demo_copyable: "copyable {dO, dN} dO dN 1 demo_km"
proof -
  have "data_page demo_km {dO, dN} dD"
    by (auto simp: data_page_def demo_pages demo_owned demo_refs) (simp_all add: demo_addr PGSIZE_def)
  then show ?thesis
    using demo_inv demo_forest by (auto simp: copyable_def kalloc_ok_def vpage_def demo_leaf demo_entry)
qed

end
