(* ===== verification/Vm_Props.thy ===== *)
theory Vm_Props
  imports Vm_Demo
begin

text \<open>
  The properties of copy-on-write fork: \<open>uvmcopy\<close> and \<open>cow_page_fault\<close>, with the eight-page
  machine of \<open>Vm_Demo\<close> as the concrete instance.
\<close>

section \<open>Library facts\<close>

lemma uvmcopy_cases:
  assumes "copyable R old new n km" and "n = (unat sz + 4095) div 4096"
  shows "(\<exists>km'. uvmcopy old new sz km = Ok (0, km') \<and>
      cow_state R old new km n 0 n (shared_count old km n) km') \<or>
    (\<exists>i<n. \<exists>km'. uvmcopy old new sz km = Ok (- 1, km') \<and>
      cow_state R old new km (Suc i) i i
        (\<lambda>a. if a = PTE2PA (leaf (mem km) old (vpage i)) then 1 else 0) km')"
proof -
  have "vpage 0 = 0" by (simp add: vpage_def)
  then show ?thesis
    using uvmcopy_loop_spec [OF assms(1) _ assms(2), of 0 km] cow_state_init [OF assms(1)]
    by (simp add: uvmcopy_def)
qed

lemma uvmcopy_ok:
  assumes "copyable R old new n km" and "n = (unat sz + 4095) div 4096"
    and "uvmcopy old new sz km = Ok (0, km')"
  shows "cow_state R old new km n 0 n (shared_count old km n) km'"
  using uvmcopy_cases [OF assms(1,2)] assms(3) by auto

lemma cow_page_fault_no_memory:
  assumes ok: "kmem_inv km []" and f: "forest km R" and r: "r \<in> R"
    and va: "page_aligned va" "va < MAXVA" and e: "e = leaf (mem km) r va"
    and fl: "e AND PTE_V \<noteq> 0" "e AND PTE_U \<noteq> 0" "e AND PTE_COW \<noteq> 0" and d: "data_page km R (PTE2PA e)"
  shows "cow_page_fault r va km = Ok (- 1, km)"
proof -
  obtain t where t: "walk r va False km = Ok (pte_slot t (PX 0 va), km)" "pte_slot t (PX 0 va) \<noteq> 0"
      "load64 (mem km) (pte_slot t (PX 0 va)) = e"
    using walk_valid [OF _ f r va(2)] fl(1) e ok kalloc_ok_def by metis
  have "PTE2PA e \<noteq> 0" using d ok by (auto simp: data_page_def phys_page_def kmem_inv_def)
  then show ?thesis
    using t va(2) fl kmem_inv_Nil ok by (simp add: cow_page_fault_def Let_def)
qed

section \<open>Properties\<close>

text \<open>
  C4: a successful \<open>uvmcopy\<close> (the memory half of \<open>fork\<close>) shares every page: parent and child map the
  same physical page with the same flags, not writable and marked \<open>PTE_COW\<close>; the page's bytes are
  untouched and its reference count grows by the number of new mappings.
\<close>

theorem uvmcopy_shares_pages:
  assumes cp: "copyable R old new n km" and sz: "n = (unat sz + 4095) div 4096"
    and ok: "uvmcopy old new sz km = Ok (0, km')" and i: "i < n"
    and e: "e = leaf (mem km) old (vpage i)" and p: "p = leaf (mem km') old (vpage i)"
    and c: "c = leaf (mem km') new (vpage i)"
  shows "PTE2PA p = PTE2PA e \<and> PTE2PA c = PTE2PA e \<and> PTE_FLAGS c = PTE_FLAGS p \<and>
    p AND PTE_V \<noteq> 0 \<and> p AND PTE_W = 0 \<and> p AND PTE_COW \<noteq> 0 \<and>
    (\<forall>x. in_page (PTE2PA e) x \<longrightarrow> mem km' x = mem km x) \<and>
    refs km' (PTE2PA e) =
      refs km (PTE2PA e) + int (card {j. j < n \<and> PTE2PA (leaf (mem km) old (vpage j)) = PTE2PA e})"
proof -
  have st: "cow_state R old new km n 0 n (shared_count old km n) km'" by (rule uvmcopy_ok [OF cp sz ok])
  have R: "old \<in> R" "new \<in> R" "old \<noteq> new" "i < 0x4000000" and v: "e AND PTE_V \<noteq> 0"
    and d: "data_page km R (PTE2PA e)" using cp i e by (auto simp: copyable_def)
  have pe: "p = cow_entry e" "c = child_entry e"
    using cow_state_leaf [OF st R(1,4)] cow_state_leaf [OF st R(2,4)] R(3) i e p c by auto
  have pa: "PTE2PA e < 2 ^ 56" using d by (auto simp: data_page_def dest: phys_page_less)
  have "same_page km km' (PTE2PA e) \<and> refs km' (PTE2PA e) = refs km (PTE2PA e) + shared_count old km n (PTE2PA e)"
    using st d by (auto simp: cow_state_def)
  then show ?thesis
    using child_entry [OF pa v] v by (auto simp: pe same_page_def shared_count_def)
qed

definition forked_km :: kmem where
  "forked_km = (case uvmcopy dO dN 4096 demo_km of Ok x \<Rightarrow> snd x | _ \<Rightarrow> demo_km)"

lemma demo_forked_spare: "uvmcopy dO dN 4096 demo_km = Ok (0, forked_km) \<and> free_pages forked_km \<noteq> {}"
proof -
  let ?R = "{dO, dN}"
  obtain t km1 where t: "walk dO (vpage 0) False demo_km = Ok (pte_slot t (PX 0 (vpage 0)), demo_km)"
    "pte_slot t (PX 0 (vpage 0)) \<noteq> 0"
    "load64 (mem demo_km) (pte_slot t (PX 0 (vpage 0))) = demo_entry"
    "km1 = safe_inc_count dD
       (demo_km\<lparr>mem := store64 (mem demo_km) (pte_slot t (PX 0 (vpage 0))) (cow_entry demo_entry)\<rparr>)"
    "cow_state ?R dO dN demo_km 1 0 0 (\<lambda>a. if dD = a then 1 else 0) km1"
    using mark_step [OF demo_copyable _ cow_state_init [OF demo_copyable]]
    by (force simp: vpage_def demo_leaf demo_entry)
  have st: "kalloc_ok km1" "forest km1 ?R" using t(5) by (auto simp: cow_state_def)
  have lf: "leaf (mem km1) dN 0 AND PTE_V = 0"
    using cow_state_leaf [OF t(5), of dN 0] by (simp add: vpage_def demo_leaf)
  have fp: "free_pages km1 = {dF, dG, dH}"
  proof -
    have ph: "phys_page km1 = phys_page demo_km" using t(4) by (intro phys_page_fun) (simp add: safe_inc_count_def inc_count_def)
    have rc: "refs km1 a = (if a = dD then 2 else refs demo_km a)" if "phys_page demo_km a" for a
    proof -
      have "pte_count km1 = (pte_count demo_km)(dD div PGSIZE := refs demo_km dD + 1)"
        using t(4) by (simp add: safe_inc_count_def inc_count_def refs_def)
      moreover have "refs demo_km dD = 1" by (simp add: demo_refs demo_addr PGSIZE_def)
      ultimately show ?thesis using that refs_upd [of demo_km dD a km1] by (simp add: demo_pages)
    qed
    have "phys_page km1 a \<and> refs km1 a = 0 \<longleftrightarrow> phys_page demo_km a \<and> a \<in> {dF, dG, dH}" for a
      using rc [of a] demo_refs_page [of a] ph by (cases "phys_page demo_km a") auto
    moreover have "phys_page demo_km dF" "phys_page demo_km dG" "phys_page demo_km dH" by (simp_all add: demo_pages)
    ultimately have "phys_page km1 a \<and> refs km1 a = 0 \<longleftrightarrow> a \<in> {dF, dG, dH}" for a by auto
    then show ?thesis by (auto simp: free_pages_def)
  qed
  from fp obtain km2 where m: "mappages dN 0 PGSIZE dD (PTE_FLAGS (cow_entry demo_entry)) km1 = Ok (0, km2)"
      and c: "card (free_pages km1) \<le> card (free_pages km2) + 2"
    using mappages_enough [OF st _ _ _ lf] by (fastforce simp: page_aligned_def MAXVA_def)
  have "uvmcopy dO dN 4096 demo_km = uvmcopy_loop dO dN PGSIZE 4096 km2"
    unfolding uvmcopy_def
    by (subst uvmcopy_loop.simps)
      (use t(1-4) m demo_entry in \<open>simp add: vpage_def Let_def load64_store64_same\<close>)
  also have "\<dots> = Ok (0, km2)" by (subst uvmcopy_loop.simps) (simp add: PGSIZE_def)
  finally have "uvmcopy dO dN 4096 demo_km = Ok (0, km2)" .
  moreover have "free_pages km2 \<noteq> {}" using c fp by auto
  ultimately show ?thesis by (simp add: forked_km_def)
qed

lemmas demo_forked = demo_forked_spare [THEN conjunct1]

lemma demo_entry_at_0: "leaf (mem demo_km) dO (vpage 0) = demo_entry"
  by (simp add: vpage_def demo_leaf)

theorem uvmcopy_shares_pages_witness:
  "PTE2PA (leaf (mem forked_km) dO (vpage 0)) = dD \<and> PTE2PA (leaf (mem forked_km) dN (vpage 0)) = dD \<and>
   leaf (mem forked_km) dO (vpage 0) AND PTE_W = 0"
  using uvmcopy_shares_pages [OF demo_copyable _ demo_forked _ demo_entry_at_0 [symmetric] refl refl]
  by (simp add: demo_entry)

text \<open>
  C5: \<open>uvmcopy\<close> never panics on a table whose pages below \<open>sz\<close> are mapped, and when it fails it does
  not undo everything: the child's mappings are gone, but the page at which it failed keeps one
  reference too many, so it can never be freed (\<open>safe_inc_count\<close> precedes the failing \<open>mappages\<close>).
\<close>

theorem uvmcopy_failure_leaks_a_reference:
  assumes cp: "copyable R old new n km" and sz: "n = (unat sz + 4095) div 4096"
  shows "\<exists>r km'. uvmcopy old new sz km = Ok (r, km') \<and> (r = 0 \<or> r = - 1) \<and>
    (r = - 1 \<longrightarrow> (\<exists>i<n.
      (\<forall>j<i. leaf (mem km') new (vpage j) = 0) \<and>
      (\<forall>a. data_page km R a \<longrightarrow> refs km' a =
         (if a = PTE2PA (leaf (mem km) old (vpage i)) then refs km a + 1 else refs km a))))"
proof -
  have R: "new \<in> R" "old \<noteq> new" "n < 0x4000000" using cp by (auto simp: copyable_def)
  show ?thesis
  proof (cases "\<exists>km'. uvmcopy old new sz km = Ok (0, km')")
    case True
    then show ?thesis by auto
  next
    case False
    then obtain i km' where i: "i < n" "uvmcopy old new sz km = Ok (- 1, km')" and
      st: "cow_state R old new km (Suc i) i i
        (\<lambda>a. if a = PTE2PA (leaf (mem km) old (vpage i)) then 1 else 0) km'"
      using uvmcopy_cases [OF assms] by blast
    have "leaf (mem km') new (vpage j) = 0" if "j < i" for j
      using cow_state_leaf [OF st R(1), of j] that i(1) R by simp
    moreover have "refs km' a =
        (if a = PTE2PA (leaf (mem km) old (vpage i)) then refs km a + 1 else refs km a)"
      if "data_page km R a" for a
      using st that unfolding cow_state_def by simp
    ultimately show ?thesis using i by blast
  qed
qed

definition full_km :: kmem where
  "full_km = demo_km\<lparr>freelist := 0, pte_count := (\<lambda>_. 1)\<rparr>"

lemma full_simps: "mem full_km = demo_mem" "phys_page full_km = phys_page demo_km" "refs full_km a = 1"
  by (simp_all add: full_km_def phys_page_def fun_eq_iff refs_def)

lemma full_copyable: "copyable {dO, dN} dO dN 1 full_km"
proof -
  have ow: "owned full_km R = owned demo_km R" for R by (simp add: owned_def full_simps fun_eq_iff)
  have "kmem_inv full_km []"
  proof -
    have "freelist full_km = 0" "0 < kend full_km" "kend full_km \<le> PHYSTOP"
      by (simp_all add: full_km_def demo_km_def dH_def PHYSTOP_def KERNBASE_def)
    then show ?thesis unfolding kmem_inv_def by (simp add: full_simps(3))
  qed
  moreover have "forest full_km {dO, dN}"
    unfolding forest_def ow full_simps
  proof (intro conjI)
    show "\<forall>a. owned demo_km {dO, dN} a \<longrightarrow> phys_page demo_km a \<and> (0 :: int) < 1"
      using demo_forest by (auto simp: forest_def)
  qed (use demo_forest in \<open>unfold forest_def demo_km_mem, blast\<close>)
  moreover have "data_page full_km {dO, dN} dD"
    by (simp add: data_page_def ow full_simps demo_pages demo_owned)
  ultimately show ?thesis
    using demo_copyable by (auto simp: copyable_def kalloc_ok_def full_simps vpage_def demo_leaf demo_entry)
qed

lemma mappages_no_memory:
  assumes "page_aligned va" "va < MAXVA" "next_tab (mem km) r (PX 2 va) = None" "kalloc km = (0, km)"
  shows "mappages r va PGSIZE pa perm km = Ok (- 1, km)"
proof -
  have "load64 (mem km) (pte_slot r (PX 2 va)) AND PTE_V = 0"
    using assms(3) by (auto simp: next_tab_def Let_def split: if_splits)
  then have "walk_loop 2 r va True km = (0, km)"
    using assms(4) by (simp add: numeral_2_eq_2 walk_step_def)
  then have "mappages_loop r va va pa perm km = Ok (- 1, km)"
    using assms(2) by (subst mappages_loop.simps) (simp add: walk_def)
  then show ?thesis
    using assms(1) page_aligned_last [OF assms(1)] by (simp add: mappages_def PGROUNDDOWN_id PGSIZE_def)
qed

lemma full_uvmcopy: "\<exists>km'. uvmcopy dO dN 4096 full_km = Ok (- 1, km')"
proof -
  let ?slot = "pte_slot dL 0"
  let ?km = "safe_inc_count dD (full_km\<lparr>mem := store64 demo_mem ?slot (cow_entry demo_entry)\<rparr>)"
  have w: "walk dO 0 False full_km = Ok (?slot, full_km)"
    using demo_tab [of dO "[0, 0]"]
    by (simp add: walk_def walk_loop_find full_simps vpath_def PX_def MAXVA_def)
  have l: "load64 demo_mem ?slot = demo_entry" using demo_load [of dL 0] by simp
  have mk: "mem ?km = store64 demo_mem ?slot (cow_entry demo_entry)" "kalloc ?km = (0, ?km)"
    by (simp_all add: safe_inc_count_def inc_count_def kalloc_def full_km_def)
  have "next_tab (mem ?km) dN (PX 2 0) = None"
    using demo_load [of dN 0] by (simp add: next_tab_def mk load64_slot_store PX_def)
  then have m: "mappages dN 0 PGSIZE dD (PTE_FLAGS (cow_entry demo_entry)) ?km = Ok (- 1, ?km)"
    by (intro mappages_no_memory mk(2)) (simp_all add: page_aligned_def MAXVA_def)
  have "?slot \<noteq> 0" by (simp add: pte_slot_def dL_def)
  then have "uvmcopy dO dN 4096 full_km = obind (uvmunmap dN 0 0 True ?km) (\<lambda>km. Ok (- 1, km))"
    unfolding uvmcopy_def
    by (subst uvmcopy_loop.simps)
      (use w l m demo_entry in \<open>simp add: Let_def load64_store64_same full_simps\<close>)
  also have "\<dots> = Ok (- 1, ?km)"
    by (simp add: uvmunmap_def) (subst uvmunmap_loop.simps, simp)
  finally show ?thesis by blast
qed

theorem uvmcopy_failure_leaks_a_reference_witness:
  "\<exists>km'. uvmcopy dO dN 4096 full_km = Ok (- 1, km') \<and> refs km' dD = refs full_km dD + 1"
proof -
  have d: "data_page full_km {dO, dN} dD" and e: "PTE2PA (leaf (mem full_km) dO (vpage 0)) = dD"
    using full_copyable by (auto simp: copyable_def full_simps vpage_def demo_leaf demo_entry)
  obtain r km' where "uvmcopy dO dN 4096 full_km = Ok (r, km')" and
    "r = - 1 \<longrightarrow> (\<exists>i<1. (\<forall>a. data_page full_km {dO, dN} a \<longrightarrow> refs km' a =
       (if a = PTE2PA (leaf (mem full_km) dO (vpage i)) then refs full_km a + 1 else refs full_km a)))"
    using uvmcopy_failure_leaks_a_reference [OF full_copyable, of 4096] by fastforce
  then show ?thesis using full_uvmcopy d e by auto
qed

text \<open>
  C6: \<open>cow_page_fault\<close> on a valid user page marked \<open>PTE_COW\<close> gives the faulting table a private copy:
  a page nobody used, with one reference and the old page's bytes, mapped writable and unmarked; no
  other entry of any table changes, the old page loses one reference, and every page still in use
  keeps its bytes. With no free page it returns -1 and changes nothing.
\<close>

theorem cow_page_fault_gives_private_copy:
  assumes ok: "kmem_inv km fl" and f: "forest km R" and r: "r \<in> R"
    and va: "page_aligned va" "va < MAXVA" and e: "e = leaf (mem km) r va"
    and fl: "e AND PTE_V \<noteq> 0" "e AND PTE_U \<noteq> 0" "e AND PTE_COW \<noteq> 0" and d: "data_page km R (PTE2PA e)"
  shows "case fl of [] \<Rightarrow> cow_page_fault r va km = Ok (- 1, km)
    | pg # _ \<Rightarrow> \<exists>km'. cow_page_fault r va km = Ok (0, km') \<and>
        refs km pg = 0 \<and> refs km' pg = 1 \<and>
        PTE2PA (leaf (mem km') r va) = pg \<and>
        PTE_FLAGS (leaf (mem km') r va) = (PTE_FLAGS e OR PTE_W) AND NOT PTE_COW \<and>
        (\<forall>x. in_page pg x \<longrightarrow> mem km' x = mem km (PTE2PA e + (x - pg))) \<and>
        (\<forall>r'\<in>R. \<forall>va'. page_aligned va' \<longrightarrow> va' < MAXVA \<longrightarrow> (r', va') \<noteq> (r, va) \<longrightarrow>
           leaf (mem km') r' va' = leaf (mem km) r' va') \<and>
        (\<forall>a. data_page km R a \<longrightarrow> refs km' a = refs km a - (if a = PTE2PA e then 1 else 0) \<and>
           (0 < refs km' a \<longrightarrow> (\<forall>x. in_page a x \<longrightarrow> mem km' x = mem km x)))"
proof (cases fl)
  case Nil
  then have "cow_page_fault r va km = Ok (- 1, km)"
    using cow_page_fault_no_memory [OF _ f r va e fl d] ok by simp
  then show ?thesis using Nil by simp
next
  case (Cons pg xs)
  obtain km' where c: "cow_page_fault r va km = Ok (0, km')" "cow_result R km km' r va pg"
    using cow_page_fault_copies [OF _ f r va e fl d] ok Cons by blast
  have "leaf (mem km') r va = private_entry e pg" "phys_page km pg"
    using c(2) r va e by (auto simp: cow_result_def)
  then show ?thesis
    using c private_entry [of km pg e] Cons
    by (auto simp: cow_result_def e same_page_def)
qed

lemma forked_state:
  "cow_state {dO, dN} dO dN demo_km 1 0 1 (shared_count dO demo_km 1) forked_km"
  by (rule uvmcopy_ok [OF demo_copyable _ demo_forked]) simp

lemma forked_leaf:
  "leaf (mem forked_km) dN 0 = child_entry demo_entry" "leaf (mem forked_km) dO 0 = cow_entry demo_entry"
  using cow_state_leaf [OF forked_state, of dN 0] cow_state_leaf [OF forked_state, of dO 0]
  by (simp_all add: vpage_def demo_leaf)

lemma forked_inv: "\<exists>fl. kmem_inv forked_km fl" "forest forked_km {dO, dN}" "data_page forked_km {dO, dN} dD"
proof -
  have "data_page demo_km {dO, dN} dD"
    using demo_copyable by (auto simp: copyable_def vpage_def demo_leaf demo_entry)
  then show "\<exists>fl. kmem_inv forked_km fl" "forest forked_km {dO, dN}" "data_page forked_km {dO, dN} dD"
    using forked_state by (auto simp: cow_state_def kalloc_ok_def)
qed

lemma child_demo: "PTE2PA (child_entry demo_entry) = dD" "child_entry demo_entry AND PTE_V \<noteq> 0"
  "child_entry demo_entry AND PTE_U \<noteq> 0" "child_entry demo_entry AND PTE_COW \<noteq> 0"
proof -
  have b: "PTE2PA demo_entry < 2 ^ 56" by (simp add: demo_entry dD_def)
  note c = child_entry [OF b demo_entry(2)]
  show "PTE2PA (child_entry demo_entry) = dD" by (simp add: c demo_entry)
  show "child_entry demo_entry AND PTE_V \<noteq> 0" "child_entry demo_entry AND PTE_U \<noteq> 0"
      "child_entry demo_entry AND PTE_COW \<noteq> 0"
    using flags_of_PTE_FLAGS [of "child_entry demo_entry"] flags_of_PTE_FLAGS [of "cow_entry demo_entry"] demo_entry c(2)
    by auto
qed

theorem cow_page_fault_gives_private_copy_witness:
  "\<exists>r km'. cow_page_fault dN 0 forked_km = Ok (r, km') \<and> (r = 0 \<longrightarrow> PTE2PA (leaf (mem km') dO 0) = dD)"
proof -
  obtain fl where fl: "kmem_inv forked_km fl" using forked_inv(1) by blast
  have va: "page_aligned 0" "0 < MAXVA" by (simp_all add: page_aligned_def MAXVA_def)
  have d: "data_page forked_km {dO, dN} (PTE2PA (child_entry demo_entry))"
    using forked_inv(3) by (simp add: child_demo)
  have "PTE2PA (leaf (mem forked_km) dO 0) = dD" by (simp add: forked_leaf demo_entry)
  moreover have "(dO, 0) \<noteq> (dN, 0 :: u64)" by simp
  ultimately show ?thesis
    using cow_page_fault_gives_private_copy [OF fl forked_inv(2) _ va forked_leaf(1) [symmetric] child_demo(2-4) d]
      va by (cases fl) auto
qed

lemma cow_page_fault_after_copy:
  assumes cp: "copyable R old new n km" and sz: "n = (unat sz + 4095) div 4096"
    and ok: "uvmcopy old new sz km = Ok (0, km1)" and i: "i < n" and s: "s = old \<or> s = new"
    and u: "leaf (mem km) old (vpage i) AND PTE_U \<noteq> 0"
    and flt: "cow_page_fault s (vpage i) km1 = Ok (0, km2)"
  shows "\<exists>pg. cow_result R km1 km2 s (vpage i) pg \<and>
    PTE2PA (leaf (mem km1) s (vpage i)) = PTE2PA (leaf (mem km) old (vpage i))"
proof -
  let ?e = "leaf (mem km) old (vpage i)"
  have st: "cow_state R old new km n 0 n (shared_count old km n) km1" by (rule uvmcopy_ok [OF cp sz ok])
  have R: "old \<in> R" "new \<in> R" "old \<noteq> new" "i < 0x4000000" and v: "?e AND PTE_V \<noteq> 0"
    and d: "data_page km R (PTE2PA ?e)" using cp i by (auto simp: copyable_def)
  have le: "leaf (mem km1) old (vpage i) = cow_entry ?e" "leaf (mem km1) new (vpage i) = child_entry ?e"
    using cow_state_leaf [OF st R(1,4)] cow_state_leaf [OF st R(2,4)] R(3) i by auto
  have pa: "PTE2PA ?e < 2 ^ 56" using d by (auto simp: data_page_def dest: phys_page_less)
  note ch = child_entry [OF pa v]
  let ?s = "leaf (mem km1) s (vpage i)"
  have fl: "PTE_FLAGS ?s = PTE_FLAGS (cow_entry ?e)" "PTE2PA ?s = PTE2PA ?e" using s ch le by auto
  have bits: "?s AND PTE_V \<noteq> 0" "?s AND PTE_U \<noteq> 0" "?s AND PTE_COW \<noteq> 0"
    using flags_of_PTE_FLAGS [of ?s] flags_of_PTE_FLAGS [of "cow_entry ?e"] fl(1) v u by auto
  obtain fl where inv: "kmem_inv km1 fl" "forest km1 R" using st by (auto simp: cow_state_def kalloc_ok_def)
  have ds: "data_page km1 R (PTE2PA ?s)" using st d fl(2) by (auto simp: cow_state_def)
  have va: "page_aligned (vpage i)" "vpage i < MAXVA" "s \<in> R"
    using R s by (auto simp: page_aligned_vpage vpage_below)
  show ?thesis
  proof (cases fl)
    case Nil
    then have "cow_page_fault s (vpage i) km1 = Ok (- 1, km1)"
      using cow_page_fault_no_memory [OF _ inv(2) va(3,1,2) refl bits ds] inv(1) by simp
    then show ?thesis using flt by simp
  next
    case (Cons pg xs)
    then show ?thesis
      using cow_page_fault_copies [OF _ inv(2) va(3,1,2) refl bits ds] inv(1) flt fl by force
  qed
qed

text \<open>
  C7: after \<open>fork\<close>'s copy of the address space, a store by either side (its \<open>cow_page_fault\<close>) separates
  the two: they map different physical pages at the address, both holding the bytes from before the
  fork, and the storing side's page is writable, whether or not it was writable before the fork.
\<close>

theorem fork_write_isolation:
  assumes cp: "copyable R old new n km" and sz: "n = (unat sz + 4095) div 4096"
    and ok: "uvmcopy old new sz km = Ok (0, km1)" and i: "i < n"
    and so: "s = old \<and> w = new \<or> s = new \<and> w = old"
    and e: "e = leaf (mem km) old (vpage i)" and u: "e AND PTE_U \<noteq> 0"
    and flt: "cow_page_fault s (vpage i) km1 = Ok (0, km2)"
    and ps: "ps = PTE2PA (leaf (mem km2) s (vpage i))" and pw: "pw = PTE2PA (leaf (mem km2) w (vpage i))"
  shows "pw = PTE2PA e \<and> ps \<noteq> pw \<and> leaf (mem km2) s (vpage i) AND PTE_W \<noteq> 0 \<and>
    (\<forall>k<4096. mem km2 (ps + of_nat k) = mem km (PTE2PA e + of_nat k) \<and>
      mem km2 (pw + of_nat k) = mem km (PTE2PA e + of_nat k))"
proof -
  have st: "cow_state R old new km n 0 n (shared_count old km n) km1" by (rule uvmcopy_ok [OF cp sz ok])
  have R: "old \<in> R" "new \<in> R" "old \<noteq> new" "i < 0x4000000" and v: "e AND PTE_V \<noteq> 0"
    and d: "data_page km R (PTE2PA e)" using cp i e by (auto simp: copyable_def)
  have va: "page_aligned (vpage i)" "vpage i < MAXVA" using R by (auto simp: page_aligned_vpage vpage_below)
  have s: "s = old \<or> s = new" "w = old \<or> w = new" "s \<noteq> w" "s \<in> R" "w \<in> R" using so R by auto
  obtain pg where c: "cow_result R km1 km2 s (vpage i) pg" and ps1: "PTE2PA (leaf (mem km1) s (vpage i)) = PTE2PA e"
    using cow_page_fault_after_copy [OF cp sz ok i s(1) _ flt] u e by auto
  have pa: "PTE2PA e < 2 ^ 56" using d by (auto simp: data_page_def dest: phys_page_less)
  have "PTE2PA (leaf (mem km1) w (vpage i)) = PTE2PA e"
    using cow_state_leaf [OF st R(1,4)] cow_state_leaf [OF st R(2,4)] R(3) i e s(2) child_entry [OF pa v] by auto
  moreover have "leaf (mem km2) w (vpage i) = leaf (mem km1) w (vpage i)"
    using c s va unfolding cow_result_def by auto
  ultimately have pwe: "pw = PTE2PA e" using pw by simp
  have lf: "leaf (mem km2) s (vpage i) = private_entry (leaf (mem km1) s (vpage i)) pg" "phys_page km1 pg"
    using c s(4) va by (auto simp: cow_result_def)
  have ps2: "ps = pg" using ps lf private_entry(1) by simp
  have wr: "leaf (mem km2) s (vpage i) AND PTE_W \<noteq> 0"
    unfolding lf(1) private_entry_def by (simp add: flag0_iff bit_simps bit_PTE)
  have d1: "data_page km1 R (PTE2PA e)" "same_page km km1 (PTE2PA e)" "1 < refs km1 (PTE2PA e)"
  proof -
    have "0 < shared_count old km n (PTE2PA e)"
      using shared_count_pos [OF i, of old km] e by (simp add: shared_count_def)
    then show "data_page km1 R (PTE2PA e)" "same_page km km1 (PTE2PA e)" "1 < refs km1 (PTE2PA e)"
      using st d by (auto simp: cow_state_def data_page_def)
  qed
  then have "refs km2 (PTE2PA e) = refs km1 (PTE2PA e) - 1" "same_page km1 km2 (PTE2PA e)"
    using c ps1 unfolding cow_result_def by auto
  then have old: "mem km2 (PTE2PA e + of_nat k) = mem km (PTE2PA e + of_nat k)" if "k < 4096" for k
    using d1(2) in_page_offset [OF that, of "PTE2PA e"] by (simp add: same_page_def)
  have "mem km2 (pg + of_nat k) = mem km (PTE2PA e + of_nat k)" if "k < 4096" for k
    using c d1(2) in_page_offset [OF that, of pg] in_page_offset [OF that, of "PTE2PA e"] ps1
    by (simp add: cow_result_def same_page_def)
  moreover have "pg \<noteq> PTE2PA e" using c d1(3) by (auto simp: cow_result_def)
  ultimately show ?thesis using pwe ps2 wr old by simp
qed

lemma forked_fault: "\<exists>km2. cow_page_fault dN (vpage 0) forked_km = Ok (0, km2)"
proof -
  obtain fl where fl: "kmem_inv forked_km fl" using forked_inv(1) by blast
  moreover have "fl \<noteq> []" using demo_forked_spare fl by (auto simp: free_pages_def kmem_inv_def)
  ultimately obtain pg xs where "kmem_inv forked_km (pg # xs)" by (cases fl) auto
  moreover have "data_page forked_km {dO, dN} (PTE2PA (child_entry demo_entry))"
    using forked_inv(3) by (simp add: child_demo)
  ultimately show ?thesis
    using cow_page_fault_copies [OF _ forked_inv(2) _ _ _ forked_leaf(1) [symmetric] child_demo(2-4)]
    by (auto simp: vpage_def page_aligned_def MAXVA_def)
qed

theorem fork_write_isolation_witness:
  "\<exists>km2. cow_page_fault dN (vpage 0) forked_km = Ok (0, km2) \<and>
    PTE2PA (leaf (mem km2) dO (vpage 0)) = dD \<and> PTE2PA (leaf (mem km2) dN (vpage 0)) \<noteq> dD"
proof -
  obtain km2 where f: "cow_page_fault dN (vpage 0) forked_km = Ok (0, km2)" using forked_fault by blast
  have "PTE2PA (leaf (mem km2) dO (vpage 0)) = PTE2PA demo_entry \<and>
      PTE2PA (leaf (mem km2) dN (vpage 0)) \<noteq> PTE2PA (leaf (mem km2) dO (vpage 0))"
    using fork_write_isolation [OF demo_copyable _ demo_forked _ _ demo_entry_at_0 [symmetric] demo_entry(3) f
        refl refl, of dO] by simp metis
  then show ?thesis using f by (auto simp: demo_entry)
qed

end
