(* ===== verification/Spinlock.thy ===== *)
theory Spinlock
  imports Prelude
begin

text \<open>
  \<open>kernel/spinlock.c\<close> and \<open>kernel/sleeplock.c\<close>. A CPU's part of the state is its \<open>struct cpu\<close>
  with the interrupt-enable bit \<open>sstatus.SIE\<close> of its hart; CPUs are named by their index in
  \<open>cpus[]\<close>, which is what \<open>mycpu()\<close> returns.

  The first group of definitions translates the routines as they run on one CPU: a lock that
  another CPU holds makes \<open>acquire\<close> spin (\<open>Block\<close>). The second group splits \<open>acquire\<close> and
  \<open>release\<close> into the individual memory accesses that other CPUs can observe, as a step relation
  over one lock and any number of CPUs; mutual exclusion is an invariant of its reachable states.
\<close>

section \<open>State\<close>

record spinlock =
  lk_locked :: bool
  lk_name :: string
  lk_cpu :: "nat option"

record cpu =
  c_proc :: "nat option"
  noff :: int
  intena :: bool
  sie :: bool

record sleeplock =
  sl_locked :: bool
  sl_name :: string
  sl_pid :: int

section \<open>spinlock.c\<close>

definition initlock :: "string \<Rightarrow> spinlock" where
  "initlock nm = \<lparr>lk_locked = False, lk_name = nm, lk_cpu = None\<rparr>"

definition holding :: "nat \<Rightarrow> spinlock \<Rightarrow> bool" where
  "holding me lk \<longleftrightarrow> lk_locked lk \<and> lk_cpu lk = Some me"

definition push_off :: "cpu \<Rightarrow> cpu" where
  "push_off c =
     (let old = sie c;
          c = c\<lparr>sie := False\<rparr>;
          c = (if noff c = 0 then c\<lparr>intena := old\<rparr> else c)
      in c\<lparr>noff := noff c + 1\<rparr>)"

definition pop_off :: "cpu \<Rightarrow> cpu outcome" where
  "pop_off c =
     (if sie c then Panic ''pop_off - interruptible''
      else if noff c < 1 then Panic ''pop_off''
      else let c = c\<lparr>noff := noff c - 1\<rparr>
           in Ok (if noff c = 0 \<and> intena c then c\<lparr>sie := True\<rparr> else c))"

definition acquire :: "nat \<Rightarrow> cpu \<Rightarrow> spinlock \<Rightarrow> (cpu \<times> spinlock) outcome" where
  "acquire me c lk =
     (let c = push_off c
      in if holding me lk then Panic ''acquire''
         else if lk_locked lk then Block
         else Ok (c, lk\<lparr>lk_locked := True, lk_cpu := Some me\<rparr>))"

definition release :: "nat \<Rightarrow> cpu \<Rightarrow> spinlock \<Rightarrow> (cpu \<times> spinlock) outcome" where
  "release me c lk =
     (if \<not> holding me lk then Panic ''release''
      else let lk = lk\<lparr>lk_cpu := None\<rparr>; lk = lk\<lparr>lk_locked := False\<rparr>
           in obind (pop_off c) (\<lambda>c. Ok (c, lk)))"

section \<open>sleeplock.c\<close>

definition initsleeplock :: "string \<Rightarrow> sleeplock" where
  "initsleeplock nm = \<lparr>sl_locked = False, sl_name = nm, sl_pid = 0\<rparr>"

definition acquiresleep :: "int \<Rightarrow> sleeplock \<Rightarrow> sleeplock outcome" where
  "acquiresleep pid lk =
     (if sl_locked lk then Block else Ok (lk\<lparr>sl_locked := True, sl_pid := pid\<rparr>))"

definition releasesleep :: "sleeplock \<Rightarrow> sleeplock" where
  "releasesleep lk = lk\<lparr>sl_locked := False, sl_pid := 0\<rparr>"

definition holdingsleep :: "int \<Rightarrow> sleeplock \<Rightarrow> bool" where
  "holdingsleep pid lk \<longleftrightarrow> sl_locked lk \<and> sl_pid lk = pid"

section \<open>The accesses of acquire and release, interleaved\<close>

datatype lock_pc = Idle | Spinning | Swapped | Holding | Releasing

record lock_sys =
  the_lock :: spinlock
  lpc :: "nat \<Rightarrow> lock_pc"
  lcpu :: "nat \<Rightarrow> cpu"

inductive lock_step :: "lock_sys \<Rightarrow> lock_sys \<Rightarrow> bool" where
  enter: "lpc s i = Idle \<Longrightarrow> \<not> holding i (the_lock s) \<Longrightarrow>
    lock_step s (s\<lparr>lpc := (lpc s)(i := Spinning), lcpu := (lcpu s)(i := push_off (lcpu s i))\<rparr>)"
| swap_fails: "lpc s i = Spinning \<Longrightarrow> lk_locked (the_lock s) \<Longrightarrow> lock_step s s"
| swap: "lpc s i = Spinning \<Longrightarrow> \<not> lk_locked (the_lock s) \<Longrightarrow>
    lock_step s (s\<lparr>lpc := (lpc s)(i := Swapped), the_lock := (the_lock s)\<lparr>lk_locked := True\<rparr>\<rparr>)"
| record_cpu: "lpc s i = Swapped \<Longrightarrow>
    lock_step s (s\<lparr>lpc := (lpc s)(i := Holding), the_lock := (the_lock s)\<lparr>lk_cpu := Some i\<rparr>\<rparr>)"
| clear_cpu: "lpc s i = Holding \<Longrightarrow> holding i (the_lock s) \<Longrightarrow>
    lock_step s (s\<lparr>lpc := (lpc s)(i := Releasing), the_lock := (the_lock s)\<lparr>lk_cpu := None\<rparr>\<rparr>)"
| unlock: "lpc s i = Releasing \<Longrightarrow> pop_off (lcpu s i) = Ok c \<Longrightarrow>
    lock_step s (s\<lparr>lpc := (lpc s)(i := Idle), lcpu := (lcpu s)(i := c),
      the_lock := (the_lock s)\<lparr>lk_locked := False\<rparr>\<rparr>)"

inductive lock_reachable :: "lock_sys \<Rightarrow> bool" where
  boot: "(\<And>i. noff (cs i) = 0) \<Longrightarrow>
    lock_reachable \<lparr>the_lock = initlock nm, lpc = (\<lambda>_. Idle), lcpu = cs\<rparr>"
| step: "lock_reachable s \<Longrightarrow> lock_step s t \<Longrightarrow> lock_reachable t"

definition in_section :: "lock_pc \<Rightarrow> bool" where
  "in_section pc \<longleftrightarrow> pc = Swapped \<or> pc = Holding \<or> pc = Releasing"

definition lock_inv :: "lock_sys \<Rightarrow> bool" where
  "lock_inv s \<longleftrightarrow>
     (\<forall>i j. in_section (lpc s i) \<longrightarrow> in_section (lpc s j) \<longrightarrow> i = j) \<and>
     (lk_locked (the_lock s) \<longleftrightarrow> (\<exists>i. in_section (lpc s i))) \<and>
     (\<forall>i. lk_cpu (the_lock s) = Some i \<longleftrightarrow> lpc s i = Holding) \<and>
     (\<forall>i. noff (lcpu s i) = (if lpc s i = Idle then 0 else 1)) \<and>
     (\<forall>i. lpc s i \<noteq> Idle \<longrightarrow> \<not> sie (lcpu s i))"

section \<open>Lemmas on the routines\<close>

lemma push_off_simps [simp]:
  "sie (push_off c) = False" "noff (push_off c) = noff c + 1" "c_proc (push_off c) = c_proc c"
  by (simp_all add: push_off_def Let_def)

lemma pop_off_push_off:
  assumes "0 \<le> noff c" and "noff c = 0 \<or> \<not> sie c"
  shows "\<exists>ie. pop_off (push_off c) = Ok (c\<lparr>intena := ie\<rparr>)"
    and "0 < noff c \<Longrightarrow> pop_off (push_off c) = Ok c"
  using assms by (cases c; auto simp: pop_off_def push_off_def Let_def)+

lemma acquire_Ok:
  "acquire me c lk = Ok (c', lk') \<longleftrightarrow>
     \<not> lk_locked lk \<and> c' = push_off c \<and> lk' = lk\<lparr>lk_locked := True, lk_cpu := Some me\<rparr>"
  by (auto simp: acquire_def Let_def holding_def)

lemma holding_acquired [simp]:
  "holding me (lk\<lparr>lk_locked := True, lk_cpu := Some me\<rparr>)"
  by (simp add: holding_def)

section \<open>Mutual exclusion\<close>

lemmas lock_inv_defs = lock_inv_def in_section_def holding_def

lemma pop_off_noff: "pop_off c = Ok c' \<Longrightarrow> noff c' = noff c - 1"
  by (auto simp: pop_off_def Let_def split: if_splits)

lemma lock_step_inv: "lock_step s t \<Longrightarrow> lock_inv s \<Longrightarrow> lock_inv t"
proof (induction rule: lock_step.induct)
  case (enter s i)
  then show ?case by (simp add: lock_inv_defs) (metis lock_pc.distinct)
next
  case (swap_fails s i)
  then show ?case by simp
next
  case (swap s i)
  then show ?case by (simp add: lock_inv_defs)
next
  case (record_cpu s i)
  then show ?case by (simp add: lock_inv_defs) (metis lock_pc.distinct option.inject)
next
  case (clear_cpu s i)
  then show ?case by (simp add: lock_inv_defs) (metis lock_pc.distinct option.inject)
next
  case (unlock s i c)
  then show ?case
    using pop_off_noff [OF unlock(2)]
    by (simp add: lock_inv_defs) (metis lock_pc.distinct)
qed

lemma lock_reachable_inv: "lock_reachable s \<Longrightarrow> lock_inv s"
proof (induction rule: lock_reachable.induct)
  case (boot cs nm)
  then show ?case by (simp add: lock_inv_defs initlock_def)
next
  case (step s t)
  then show ?case by (blast intro: lock_step_inv)
qed

section \<open>Facts about the routines as a whole\<close>

text \<open>
  An uncontended \<open>acquire\<close> is a run of the interleaved system that takes the CPU from outside
  the section to holding the lock, with the same final lock and CPU state.
\<close>

lemma acquire_is_run:
  assumes "acquire i (lcpu s i) (the_lock s) = Ok (c, lk)" and "lpc s i = Idle"
  shows "lock_step\<^sup>*\<^sup>* s (s\<lparr>lpc := (lpc s)(i := Holding), lcpu := (lcpu s)(i := c), the_lock := lk\<rparr>)"
proof -
  from assms(1) have free: "\<not> lk_locked (the_lock s)" and c: "c = push_off (lcpu s i)"
    and lk: "lk = (the_lock s)\<lparr>lk_locked := True, lk_cpu := Some i\<rparr>"
    by (auto simp: acquire_Ok)
  let ?s1 = "s\<lparr>lpc := (lpc s)(i := Spinning), lcpu := (lcpu s)(i := push_off (lcpu s i))\<rparr>"
  let ?s2 = "?s1\<lparr>lpc := (lpc ?s1)(i := Swapped), the_lock := (the_lock ?s1)\<lparr>lk_locked := True\<rparr>\<rparr>"
  let ?s3 = "?s2\<lparr>lpc := (lpc ?s2)(i := Holding), the_lock := (the_lock ?s2)\<lparr>lk_cpu := Some i\<rparr>\<rparr>"
  have st1: "lock_step s ?s1" using assms(2) free by (intro lock_step.enter) (auto simp: holding_def)
  have st2: "lock_step ?s1 ?s2" using free by (intro lock_step.swap) auto
  have st3: "lock_step ?s2 ?s3" by (intro lock_step.record_cpu) auto
  have "lock_step\<^sup>*\<^sup>* s ?s3"
    by (rule converse_rtranclp_into_rtranclp, rule st1,
        rule converse_rtranclp_into_rtranclp, rule st2, rule r_into_rtranclp, rule st3)
  moreover have "?s3 = s\<lparr>lpc := (lpc s)(i := Holding), lcpu := (lcpu s)(i := c), the_lock := lk\<rparr>"
    by (simp add: c lk)
  ultimately show ?thesis by simp
qed

text \<open>
  C1: in every reachable state of the lock and its CPUs, interleaved at every memory access of
  \<open>acquire\<close> and \<open>release\<close>, two CPUs inside the critical section are the same CPU; a CPU past
  \<open>acquire\<close> runs with interrupts disabled and \<open>holding()\<close> answers exactly whether it is the
  holder, so neither the \<open>panic\<close> of \<open>release\<close> nor those of \<open>pop_off\<close> can be reached by it.
\<close>

theorem spinlock_mutual_exclusion:
  assumes "lock_reachable s" and "lpc s i = Holding"
  shows "(in_section (lpc s j) \<longrightarrow> j = i) \<and> (holding j (the_lock s) \<longleftrightarrow> j = i) \<and>
    \<not> sie (lcpu s i) \<and>
    (\<exists>c. release i (lcpu s i) (the_lock s) =
      Ok (c, (the_lock s)\<lparr>lk_locked := False, lk_cpu := None\<rparr>))"
proof (intro conjI)
  from assms(1) have inv: "lock_inv s" by (rule lock_reachable_inv)
  show "in_section (lpc s j) \<longrightarrow> j = i"
    using inv assms(2) unfolding lock_inv_def by (auto simp: in_section_def)
  have h: "holding k (the_lock s) \<longleftrightarrow> k = i" for k
    using inv assms(2) unfolding lock_inv_def holding_def by (auto simp: in_section_def)
  then show "holding j (the_lock s) \<longleftrightarrow> j = i" .
  have off: "\<not> sie (lcpu s i)" and one: "noff (lcpu s i) = 1"
    using inv assms(2) by (auto simp: lock_inv_def)
  then show "\<not> sie (lcpu s i)" by simp
  show "\<exists>c. release i (lcpu s i) (the_lock s) = Ok (c, (the_lock s)\<lparr>lk_locked := False, lk_cpu := None\<rparr>)"
    using h [of i] off one by (auto simp: release_def pop_off_def Let_def)
qed

lemma lock_reachable_star: "lock_step\<^sup>*\<^sup>* s t \<Longrightarrow> lock_reachable s \<Longrightarrow> lock_reachable t"
  by (induction rule: rtranclp_induct) (auto intro: lock_reachable.step)

definition demo_cpu :: cpu where
  "demo_cpu = \<lparr>c_proc = None, noff = 0, intena = False, sie = True\<rparr>"

definition demo_locked :: lock_sys where
  "demo_locked =
     \<lparr>the_lock = \<lparr>lk_locked = True, lk_name = ''kmem'', lk_cpu = Some 0\<rparr>,
      lpc = (\<lambda>_. Idle)(0 := Holding), lcpu = (\<lambda>_. demo_cpu)(0 := push_off demo_cpu)\<rparr>"

lemma demo_locked_reachable: "lock_reachable demo_locked"
proof -
  let ?s0 = "\<lparr>the_lock = initlock ''kmem'', lpc = (\<lambda>_. Idle), lcpu = (\<lambda>_. demo_cpu)\<rparr>"
  have "lock_reachable ?s0" by (rule lock_reachable.boot) (simp add: demo_cpu_def)
  moreover have "lock_step\<^sup>*\<^sup>* ?s0 demo_locked"
    using acquire_is_run [of 0 ?s0] by (simp add: acquire_Ok demo_locked_def initlock_def)
  ultimately show ?thesis by (blast intro: lock_reachable_star)
qed

theorem spinlock_mutual_exclusion_witness:
  "lock_reachable demo_locked \<and> lpc demo_locked 0 = Holding \<and> \<not> holding 1 (the_lock demo_locked)"
proof -
  have h: "lpc demo_locked 0 = Holding" by (simp add: demo_locked_def)
  show ?thesis
    using spinlock_mutual_exclusion [OF demo_locked_reachable h, of 1] h demo_locked_reachable
    by simp
qed

end
