(* ===== verification/Proc.thy ===== *)
theory Proc
  imports Spinlock Vm
begin

text \<open>
  \<open>kernel/proc.c\<close> and \<open>kernel/proc.h\<close>: the process table, process memory, the priority-based
  scheduler (the build with \<open>PBS\<close> defined) and sleep/wakeup. \<open>fork\<close>, \<open>exit\<close>, \<open>userinit\<close> and
  \<open>forkret\<close>, which also call the file system, are in the theory \<open>Fork\<close>.

  The state is that of the whole kernel as one hart sees it: \<open>k_hart\<close> is the hart that executes
  (register \<open>tp\<close>), \<open>k_cpus\<close> the array \<open>cpus\<close>, \<open>k_proc\<close> the array \<open>proc\<close> indexed by slot number
  (indices from \<open>NPROC\<close> on lie behind the array). A \<open>struct proc *\<close> is a slot number, the null
  pointer \<open>None\<close>; dereferencing it faults in the kernel, which ends in \<open>kerneltrap\<close>'s panic. The
  trapframe is the physical page that \<open>p->trapframe\<close> points to. \<open>swtch\<close> hands the CPU over, so a
  routine that calls \<open>sched\<close> is split into the part before the switch and the part after it.
  Every lock operation of the code is present.
\<close>

section \<open>proc.h\<close>

datatype procstate = UNUSED | USED | SLEEPING | RUNNABLE | RUNNING | ZOMBIE

text \<open>Sleep channels are the addresses of kernel objects; each object the kernel sleeps on has a name.\<close>

datatype chan =
  TicksChan | ProcChan nat | PipeRead u64 | PipeWrite u64 | SleepLockChan nat | LogChan |
  ConsChan | UartChan | DiskChan nat | DiskFree

record kcontext =
  ctx_ra :: u64
  ctx_sp :: u64
  ctx_s :: "u64 list"

definition zero_context :: kcontext where
  "zero_context = \<lparr>ctx_ra = 0, ctx_sp = 0, ctx_s = replicate 12 0\<rparr>"

definition tf_kernel_satp :: u64 where "tf_kernel_satp = 0"
definition tf_kernel_sp :: u64 where "tf_kernel_sp = 8"
definition tf_kernel_trap :: u64 where "tf_kernel_trap = 16"
definition tf_epc :: u64 where "tf_epc = 24"
definition tf_kernel_hartid :: u64 where "tf_kernel_hartid = 32"
definition tf_sp :: u64 where "tf_sp = 48"
definition tf_a :: "nat \<Rightarrow> u64" where "tf_a n = 112 + 8 * of_nat n"
definition tf_size :: nat where "tf_size = 288"

record proc =
  p_lock :: spinlock
  p_state :: procstate
  p_chan :: "chan option"
  p_killed :: bool
  p_xstate :: u32
  p_pid :: int
  p_parent :: "nat option"
  p_kstack :: u64
  p_sz :: u64
  p_pagetable :: u64
  p_trapframe :: u64
  p_context :: kcontext
  p_ofile :: "nat option list"
  p_cwd :: "nat option"
  p_name :: "u8 list"
  p_rtime :: u32
  p_ctime :: u32
  p_etime :: u32
  p_rntime :: u32
  p_wtime :: u32
  p_stime :: u32
  p_num_sch :: u32
  p_sp :: u32
  p_rbi :: u32
  p_dp :: u32

record kstate =
  k_hart :: nat
  k_cpus :: "nat \<Rightarrow> cpu"
  k_proc :: "nat \<Rightarrow> proc"
  pid_lock :: spinlock
  wait_lock :: spinlock
  tickslock :: spinlock
  nextpid :: int
  initproc :: "nat option"
  ticks :: u32
  k_mem :: kmem
  k_trampoline :: u64
  k_forkret :: u64

section \<open>Access to the state\<close>

definition upd_p :: "nat \<Rightarrow> (proc \<Rightarrow> proc) \<Rightarrow> 'z kstate_scheme \<Rightarrow> 'z kstate_scheme" where
  "upd_p i f s = s\<lparr>k_proc := (k_proc s)(i := f (k_proc s i))\<rparr>"

definition mycpu :: "'z kstate_scheme \<Rightarrow> cpu" where
  "mycpu s = k_cpus s (k_hart s)"

definition set_cpu :: "cpu \<Rightarrow> 'z kstate_scheme \<Rightarrow> 'z kstate_scheme" where
  "set_cpu c s = s\<lparr>k_cpus := (k_cpus s)(k_hart s := c)\<rparr>"

text \<open>\<open>push_off\<close> and \<open>pop_off\<close> around the read of \<open>c->proc\<close> cancel out.\<close>

definition myproc :: "'z kstate_scheme \<Rightarrow> nat option" where
  "myproc s = c_proc (mycpu s)"

definition with_proc :: "'z kstate_scheme \<Rightarrow> (nat \<Rightarrow> 'b outcome) \<Rightarrow> 'b outcome" where
  "with_proc s f = (case myproc s of None \<Rightarrow> Panic ''kerneltrap'' | Some p \<Rightarrow> f p)"

datatype lockref = PidLock | WaitLock | TicksLock | ProcLock nat

primrec get_lock :: "lockref \<Rightarrow> 'z kstate_scheme \<Rightarrow> spinlock" where
  "get_lock PidLock s = pid_lock s"
| "get_lock WaitLock s = wait_lock s"
| "get_lock TicksLock s = tickslock s"
| "get_lock (ProcLock i) s = p_lock (k_proc s i)"

primrec put_lock :: "lockref \<Rightarrow> spinlock \<Rightarrow> 'z kstate_scheme \<Rightarrow> 'z kstate_scheme" where
  "put_lock PidLock lk s = s\<lparr>pid_lock := lk\<rparr>"
| "put_lock WaitLock lk s = s\<lparr>wait_lock := lk\<rparr>"
| "put_lock TicksLock lk s = s\<lparr>tickslock := lk\<rparr>"
| "put_lock (ProcLock i) lk s = upd_p i (\<lambda>p. p\<lparr>p_lock := lk\<rparr>) s"

definition acquire_l :: "lockref \<Rightarrow> 'z kstate_scheme \<Rightarrow> 'z kstate_scheme outcome" where
  "acquire_l r s = obind (acquire (k_hart s) (mycpu s) (get_lock r s)) (\<lambda>(c, lk).
     Ok (put_lock r lk (set_cpu c s)))"

definition release_l :: "lockref \<Rightarrow> 'z kstate_scheme \<Rightarrow> 'z kstate_scheme outcome" where
  "release_l r s = obind (release (k_hart s) (mycpu s) (get_lock r s)) (\<lambda>(c, lk).
     Ok (put_lock r lk (set_cpu c s)))"

definition holding_l :: "lockref \<Rightarrow> 'z kstate_scheme \<Rightarrow> bool" where
  "holding_l r s = holding (k_hart s) (get_lock r s)"

text \<open>Run a virtual-memory routine on the kernel's memory.\<close>

definition on_mem :: "(kmem \<Rightarrow> ('b \<times> kmem) outcome) \<Rightarrow> 'z kstate_scheme \<Rightarrow> ('b \<times> 'z kstate_scheme) outcome" where
  "on_mem f s = obind (f (k_mem s)) (\<lambda>(r, km). Ok (r, s\<lparr>k_mem := km\<rparr>))"

definition on_memu :: "(kmem \<Rightarrow> kmem outcome) \<Rightarrow> 'z kstate_scheme \<Rightarrow> 'z kstate_scheme outcome" where
  "on_memu f s = obind (f (k_mem s)) (\<lambda>km. Ok (s\<lparr>k_mem := km\<rparr>))"

definition read_tf :: "nat \<Rightarrow> u64 \<Rightarrow> 'z kstate_scheme \<Rightarrow> u64" where
  "read_tf i off s = load64 (mem (k_mem s)) (p_trapframe (k_proc s i) + off)"

definition write_tf :: "nat \<Rightarrow> u64 \<Rightarrow> u64 \<Rightarrow> 'z kstate_scheme \<Rightarrow> 'z kstate_scheme" where
  "write_tf i off v s =
     s\<lparr>k_mem := (k_mem s)\<lparr>mem := store64 (mem (k_mem s)) (p_trapframe (k_proc s i) + off) v\<rparr>\<rparr>"

section \<open>procinit, allocpid, page tables\<close>

definition procinit :: "'z kstate_scheme \<Rightarrow> 'z kstate_scheme" where
  "procinit s = fold (\<lambda>i. upd_p i (\<lambda>p. p\<lparr>p_lock := initlock ''proc'', p_state := UNUSED,
       p_kstack := KSTACK (of_nat i)\<rparr>)) [0..<NPROC]
     (s\<lparr>pid_lock := initlock ''nextpid'', wait_lock := initlock ''wait_lock''\<rparr>)"

definition allocpid :: "'z kstate_scheme \<Rightarrow> (int \<times> 'z kstate_scheme) outcome" where
  "allocpid s =
     obind (acquire_l PidLock s) (\<lambda>s.
       let pid = nextpid s; s = s\<lparr>nextpid := nextpid s + 1\<rparr>
       in obind (release_l PidLock s) (\<lambda>s. Ok (pid, s)))"

definition proc_pagetable :: "nat \<Rightarrow> 'z kstate_scheme \<Rightarrow> (u64 \<times> 'z kstate_scheme) outcome" where
  "proc_pagetable p s =
     (let (pagetable, km) = uvmcreate (k_mem s); s = s\<lparr>k_mem := km\<rparr>
      in if pagetable = 0 then Ok (0, s)
         else obind (on_mem (mappages pagetable TRAMPOLINE PGSIZE (k_trampoline s) (PTE_R OR PTE_X)) s)
           (\<lambda>(r, s). if r < 0
             then obind (on_memu (uvmfree pagetable 0) s) (\<lambda>s. Ok (0, s))
             else obind (on_mem (mappages pagetable TRAPFRAME PGSIZE (p_trapframe (k_proc s p)) (PTE_R OR PTE_W)) s)
               (\<lambda>(r, s). if r < 0
                 then obind (on_memu (uvmunmap pagetable TRAMPOLINE 1 False) s) (\<lambda>s.
                      obind (on_memu (uvmfree pagetable 0) s) (\<lambda>s. Ok (0, s)))
                 else Ok (pagetable, s))))"

definition proc_freepagetable :: "u64 \<Rightarrow> u64 \<Rightarrow> 'z kstate_scheme \<Rightarrow> 'z kstate_scheme outcome" where
  "proc_freepagetable pagetable sz s =
     obind (on_memu (uvmunmap pagetable TRAMPOLINE 1 False) s) (\<lambda>s.
     obind (on_memu (uvmunmap pagetable TRAPFRAME 1 False) s)
       (on_memu (uvmfree pagetable sz)))"

section \<open>freeproc, allocproc\<close>

definition reset_proc :: "proc \<Rightarrow> proc" where
  "reset_proc p = p\<lparr>p_pagetable := 0, p_sz := 0, p_pid := 0, p_parent := None,
     p_name := (p_name p)[0 := 0], p_chan := None, p_killed := False, p_xstate := 0,
     p_state := UNUSED, p_rntime := 0, p_stime := 0, p_wtime := 0, p_sp := PBS_DEF_SP,
     p_rbi := PBS_DEF_RBI, p_dp := PBS_DEF_DP, p_num_sch := 0\<rparr>"

definition freeproc :: "nat \<Rightarrow> 'z kstate_scheme \<Rightarrow> 'z kstate_scheme outcome" where
  "freeproc i s =
     obind (if p_trapframe (k_proc s i) \<noteq> 0 then on_memu (kfree (p_trapframe (k_proc s i))) s else Ok s) (\<lambda>s.
       let s = upd_p i (\<lambda>p. p\<lparr>p_trapframe := 0\<rparr>) s
       in obind (if p_pagetable (k_proc s i) \<noteq> 0
                 then proc_freepagetable (p_pagetable (k_proc s i)) (p_sz (k_proc s i)) s
                 else Ok s) (\<lambda>s.
          Ok (upd_p i reset_proc s)))"

primrec allocproc_scan :: "nat list \<Rightarrow> 'z kstate_scheme \<Rightarrow> (nat option \<times> 'z kstate_scheme) outcome" where
  "allocproc_scan [] s = Ok (None, s)"
| "allocproc_scan (i # is) s =
     obind (acquire_l (ProcLock i) s) (\<lambda>s.
       if p_state (k_proc s i) = UNUSED then Ok (Some i, s)
       else obind (release_l (ProcLock i) s) (allocproc_scan is))"

definition allocproc :: "'z kstate_scheme \<Rightarrow> (nat option \<times> 'z kstate_scheme) outcome" where
  "allocproc s =
     obind (allocproc_scan [0..<NPROC] s) (\<lambda>(f, s). case f of None \<Rightarrow> Ok (None, s) | Some i \<Rightarrow>
       obind (allocpid s) (\<lambda>(pid, s).
         let s = upd_p i (\<lambda>p. p\<lparr>p_pid := pid, p_state := USED\<rparr>) s;
             (tf, km) = kalloc (k_mem s);
             s = upd_p i (\<lambda>p. p\<lparr>p_trapframe := tf\<rparr>) (s\<lparr>k_mem := km\<rparr>)
         in if tf = 0
            then obind (freeproc i s) (\<lambda>s. obind (release_l (ProcLock i) s) (\<lambda>s. Ok (None, s)))
            else obind (proc_pagetable i s) (\<lambda>(pt, s).
              let s = upd_p i (\<lambda>p. p\<lparr>p_pagetable := pt\<rparr>) s
              in if pt = 0
                 then obind (freeproc i s) (\<lambda>s. obind (release_l (ProcLock i) s) (\<lambda>s. Ok (None, s)))
                 else Ok (Some i, upd_p i (\<lambda>p. p\<lparr>
                   p_context := zero_context\<lparr>ctx_ra := k_forkret s, ctx_sp := p_kstack p + PGSIZE\<rparr>,
                   p_rtime := 0, p_etime := 0, p_ctime := ticks s,
                   p_rntime := 0, p_stime := 0, p_wtime := 0, p_num_sch := 0,
                   p_sp := PBS_DEF_SP, p_rbi := PBS_DEF_RBI, p_dp := PBS_DEF_DP\<rparr>) s))))"

definition growproc :: "u32 \<Rightarrow> 'z kstate_scheme \<Rightarrow> (int \<times> 'z kstate_scheme) outcome" where
  "growproc n s = with_proc s (\<lambda>p.
     let sz = p_sz (k_proc s p); pt = p_pagetable (k_proc s p); newsz = sz + int_to_u64 n
     in if 0 < sint n
        then obind (on_mem (uvmalloc pt sz newsz PTE_W) s) (\<lambda>(sz, s).
               if sz = 0 then Ok (- 1, s) else Ok (0, upd_p p (\<lambda>p. p\<lparr>p_sz := sz\<rparr>) s))
        else if sint n < 0
        then obind (on_mem (uvmdealloc pt sz newsz) s) (\<lambda>(sz, s).
               Ok (0, upd_p p (\<lambda>p. p\<lparr>p_sz := sz\<rparr>) s))
        else Ok (0, upd_p p (\<lambda>p. p\<lparr>p_sz := sz\<rparr>) s))"

section \<open>Scheduling\<close>

text \<open>The condition under which the scan of \<open>scheduler\<close> replaces its candidate.\<close>

definition pbs_better :: "proc \<Rightarrow> proc \<Rightarrow> u32 \<Rightarrow> bool" where
  "pbs_better p highest min_dp \<longleftrightarrow>
     p_dp p < min_dp \<or>
     (p_dp p = min_dp \<and> p_num_sch p < p_num_sch highest) \<or>
     (p_dp p = min_dp \<and> p_num_sch p = p_num_sch highest \<and> p_ctime p < p_ctime highest)"

primrec scheduler_scan ::
    "nat list \<Rightarrow> nat option \<Rightarrow> u32 \<Rightarrow> 'z kstate_scheme \<Rightarrow> (nat option \<times> 'z kstate_scheme) outcome" where
  "scheduler_scan [] highest min_dp s = Ok (highest, s)"
| "scheduler_scan (i # is) highest min_dp s =
     obind (acquire_l (ProcLock i) s) (\<lambda>s.
       if p_state (k_proc s i) \<noteq> RUNNABLE
       then obind (release_l (ProcLock i) s) (scheduler_scan is highest min_dp)
       else case highest of
         None \<Rightarrow> scheduler_scan is (Some i) (p_dp (k_proc s i)) s
       | Some h \<Rightarrow>
           if pbs_better (k_proc s i) (k_proc s h) min_dp
           then obind (release_l (ProcLock h) s) (scheduler_scan is (Some i) (p_dp (k_proc s i)))
           else obind (release_l (ProcLock i) s) (scheduler_scan is highest min_dp))"

definition dispatch :: "nat \<Rightarrow> 'z kstate_scheme \<Rightarrow> 'z kstate_scheme" where
  "dispatch h s =
     (let s = upd_p h (\<lambda>p. p\<lparr>p_state := RUNNING, p_rntime := 0, p_stime := 0, p_num_sch := p_num_sch p + 1\<rparr>) s
      in set_cpu ((mycpu s)\<lparr>c_proc := Some h\<rparr>) s)"

text \<open>One round of the scheduler's loop up to \<open>swtch\<close>: the process it switched to, if any.\<close>

definition scheduler_round :: "'z kstate_scheme \<Rightarrow> (nat option \<times> 'z kstate_scheme) outcome" where
  "scheduler_round s =
     (let s = set_cpu ((mycpu s)\<lparr>sie := True\<rparr>) s
      in obind (scheduler_scan [0..<NPROC] None 100 s) (\<lambda>(highest, s).
           case highest of None \<Rightarrow> Ok (None, s) | Some h \<Rightarrow> Ok (Some h, dispatch h s)))"

text \<open>The rest of the round, when the process has switched back.\<close>

definition scheduler_resume :: "nat \<Rightarrow> 'z kstate_scheme \<Rightarrow> 'z kstate_scheme outcome" where
  "scheduler_resume h s = release_l (ProcLock h) (set_cpu ((mycpu s)\<lparr>c_proc := None\<rparr>) s)"

text \<open>The scheduler's entry.\<close>

definition scheduler_init :: "'z kstate_scheme \<Rightarrow> 'z kstate_scheme" where
  "scheduler_init s = set_cpu ((mycpu s)\<lparr>c_proc := None\<rparr>) s"

text \<open>\<open>sched\<close> up to \<open>swtch\<close>, returning the local \<open>intena\<close>, and after it.\<close>

definition sched :: "'z kstate_scheme \<Rightarrow> (bool \<times> 'z kstate_scheme) outcome" where
  "sched s = with_proc s (\<lambda>p.
     if \<not> holding_l (ProcLock p) s then Panic ''sched p->lock''
     else if noff (mycpu s) \<noteq> 1 then Panic ''sched locks''
     else if p_state (k_proc s p) = RUNNING then Panic ''sched running''
     else if sie (mycpu s) then Panic ''sched interruptible''
     else Ok (intena (mycpu s), s))"

definition sched_resume :: "bool \<Rightarrow> 'z kstate_scheme \<Rightarrow> 'z kstate_scheme" where
  "sched_resume ia s = set_cpu ((mycpu s)\<lparr>intena := ia\<rparr>) s"

definition yield_out :: "'z kstate_scheme \<Rightarrow> (bool \<times> 'z kstate_scheme) outcome" where
  "yield_out s = with_proc s (\<lambda>p.
     obind (acquire_l (ProcLock p) s) (\<lambda>s. sched (upd_p p (\<lambda>p. p\<lparr>p_state := RUNNABLE\<rparr>) s)))"

definition yield_in :: "bool \<Rightarrow> 'z kstate_scheme \<Rightarrow> 'z kstate_scheme outcome" where
  "yield_in ia s = with_proc s (\<lambda>p. release_l (ProcLock p) (sched_resume ia s))"

text \<open>\<open>sleep(chan, lk)\<close>, up to the switch and after it; the lock is given by its release and acquire.\<close>

definition sleep_out_with ::
    "chan \<Rightarrow> ('z kstate_scheme \<Rightarrow> 'z kstate_scheme outcome) \<Rightarrow> 'z kstate_scheme \<Rightarrow>
      (bool \<times> 'z kstate_scheme) outcome" where
  "sleep_out_with ch release_lk s = with_proc s (\<lambda>p.
     obind (acquire_l (ProcLock p) s) (\<lambda>s.
     obind (release_lk s) (\<lambda>s.
       sched (upd_p p (\<lambda>p. p\<lparr>p_chan := Some ch, p_state := SLEEPING\<rparr>) s))))"

definition sleep_in_with ::
    "bool \<Rightarrow> ('z kstate_scheme \<Rightarrow> 'z kstate_scheme outcome) \<Rightarrow> 'z kstate_scheme \<Rightarrow>
      'z kstate_scheme outcome" where
  "sleep_in_with ia acquire_lk s = with_proc s (\<lambda>p.
     obind (release_l (ProcLock p) (upd_p p (\<lambda>p. p\<lparr>p_chan := None\<rparr>) (sched_resume ia s)))
       acquire_lk)"

definition sleep_out :: "chan \<Rightarrow> lockref \<Rightarrow> 'z kstate_scheme \<Rightarrow> (bool \<times> 'z kstate_scheme) outcome" where
  "sleep_out ch lk s = sleep_out_with ch (release_l lk) s"

definition sleep_in :: "bool \<Rightarrow> lockref \<Rightarrow> 'z kstate_scheme \<Rightarrow> 'z kstate_scheme outcome" where
  "sleep_in ia lk s = sleep_in_with ia (acquire_l lk) s"

primrec wakeup_loop :: "nat list \<Rightarrow> chan option \<Rightarrow> 'z kstate_scheme \<Rightarrow> 'z kstate_scheme outcome" where
  "wakeup_loop [] ch s = Ok s"
| "wakeup_loop (i # is) ch s =
     (if Some i \<noteq> myproc s
      then obind (acquire_l (ProcLock i) s) (\<lambda>s.
        let s = (if p_state (k_proc s i) = SLEEPING \<and> p_chan (k_proc s i) = ch
                 then upd_p i (\<lambda>p. p\<lparr>p_state := RUNNABLE\<rparr>) s else s)
        in obind (release_l (ProcLock i) s) (wakeup_loop is ch))
      else wakeup_loop is ch s)"

definition wakeup :: "chan option \<Rightarrow> 'z kstate_scheme \<Rightarrow> 'z kstate_scheme outcome" where
  "wakeup ch s = wakeup_loop [0..<NPROC] ch s"

primrec kill_loop :: "nat list \<Rightarrow> int \<Rightarrow> 'z kstate_scheme \<Rightarrow> (int \<times> 'z kstate_scheme) outcome" where
  "kill_loop [] pid s = Ok (- 1, s)"
| "kill_loop (i # is) pid s =
     obind (acquire_l (ProcLock i) s) (\<lambda>s.
       if p_pid (k_proc s i) = pid
       then let s = upd_p i (\<lambda>p. p\<lparr>p_killed := True\<rparr>) s;
                s = (if p_state (k_proc s i) = SLEEPING then upd_p i (\<lambda>p. p\<lparr>p_state := RUNNABLE\<rparr>) s else s)
            in obind (release_l (ProcLock i) s) (\<lambda>s. Ok (0, s))
       else obind (release_l (ProcLock i) s) (kill_loop is pid))"

definition kill :: "int \<Rightarrow> 'z kstate_scheme \<Rightarrow> (int \<times> 'z kstate_scheme) outcome" where
  "kill pid s = kill_loop [0..<NPROC] pid s"

definition setkilled :: "nat \<Rightarrow> 'z kstate_scheme \<Rightarrow> 'z kstate_scheme outcome" where
  "setkilled p s =
     obind (acquire_l (ProcLock p) s) (\<lambda>s.
       release_l (ProcLock p) (upd_p p (\<lambda>p. p\<lparr>p_killed := True\<rparr>) s))"

definition killed :: "nat \<Rightarrow> 'z kstate_scheme \<Rightarrow> (bool \<times> 'z kstate_scheme) outcome" where
  "killed p s =
     obind (acquire_l (ProcLock p) s) (\<lambda>s.
       let k = p_killed (k_proc s p) in obind (release_l (ProcLock p) s) (\<lambda>s. Ok (k, s)))"

section \<open>Parents and children\<close>

primrec reparent_loop :: "nat list \<Rightarrow> nat \<Rightarrow> 'z kstate_scheme \<Rightarrow> 'z kstate_scheme outcome" where
  "reparent_loop [] p s = Ok s"
| "reparent_loop (i # is) p s =
     (if p_parent (k_proc s i) = Some p
      then obind (wakeup (map_option ProcChan (initproc s)) (upd_p i (\<lambda>q. q\<lparr>p_parent := initproc s\<rparr>) s))
             (reparent_loop is p)
      else reparent_loop is p s)"

definition reparent :: "nat \<Rightarrow> 'z kstate_scheme \<Rightarrow> 'z kstate_scheme outcome" where
  "reparent p s = reparent_loop [0..<NPROC] p s"

text \<open>
  One pass of \<open>wait\<close> over the table: \<open>Inl (havekids)\<close> if no child is a zombie, otherwise
  \<open>Inr\<close> of the return value (with both locks released).
\<close>

primrec wait_scan ::
    "nat list \<Rightarrow> nat \<Rightarrow> u64 \<Rightarrow> bool \<Rightarrow> 'z kstate_scheme \<Rightarrow> ((bool + int) \<times> 'z kstate_scheme) outcome" where
  "wait_scan [] p addr havekids s = Ok (Inl havekids, s)"
| "wait_scan (i # is) p addr havekids s =
     (if p_parent (k_proc s i) = Some p
      then obind (acquire_l (ProcLock i) s) (\<lambda>s.
        if p_state (k_proc s i) = ZOMBIE
        then let pid = p_pid (k_proc s i)
             in obind (if addr \<noteq> 0
                       then on_mem (copyout (p_pagetable (k_proc s p)) addr (bytes_of_word 4 (p_xstate (k_proc s i)))) s
                       else Ok (0, s)) (\<lambda>(r, s).
                  if r < 0
                  then obind (release_l (ProcLock i) s) (\<lambda>s.
                       obind (release_l WaitLock s) (\<lambda>s. Ok (Inr (- 1), s)))
                  else obind (freeproc i s) (\<lambda>s.
                       obind (release_l (ProcLock i) s) (\<lambda>s.
                       obind (release_l WaitLock s) (\<lambda>s. Ok (Inr pid, s)))))
        else obind (release_l (ProcLock i) s) (wait_scan is p addr True))
      else wait_scan is p addr havekids s)"

text \<open>
  One iteration of the loop of \<open>wait\<close>, with \<open>wait_lock\<close> held: \<open>Inr r\<close> when it returns \<open>r\<close>,
  \<open>Inl ia\<close> when it went to sleep (with the saved \<open>intena\<close>) and will iterate again.
\<close>

definition wait_iter :: "u64 \<Rightarrow> 'z kstate_scheme \<Rightarrow> ((bool + int) \<times> 'z kstate_scheme) outcome" where
  "wait_iter addr s = with_proc s (\<lambda>p.
     obind (wait_scan [0..<NPROC] p addr False s) (\<lambda>(r, s).
       case r of Inr v \<Rightarrow> Ok (Inr v, s)
       | Inl havekids \<Rightarrow>
           obind (if havekids then killed p s else Ok (True, s)) (\<lambda>(stop, s).
             if stop then obind (release_l WaitLock s) (\<lambda>s. Ok (Inr (- 1), s))
             else obind (sleep_out (ProcChan p) WaitLock s) (\<lambda>(ia, s). Ok (Inl ia, s)))))"

definition wait :: "u64 \<Rightarrow> 'z kstate_scheme \<Rightarrow> ((bool + int) \<times> 'z kstate_scheme) outcome" where
  "wait addr s = obind (acquire_l WaitLock s) (wait_iter addr)"

definition wait_resume :: "u64 \<Rightarrow> bool \<Rightarrow> 'z kstate_scheme \<Rightarrow> ((bool + int) \<times> 'z kstate_scheme) outcome" where
  "wait_resume addr ia s = obind (sleep_in ia WaitLock s) (wait_iter addr)"

text \<open>\<open>waitx\<close> also returns the child's waiting and running times.\<close>

primrec waitx_scan ::
    "nat list \<Rightarrow> nat \<Rightarrow> u64 \<Rightarrow> bool \<Rightarrow> 'z kstate_scheme \<Rightarrow>
      ((bool + int \<times> u32 \<times> u32) \<times> 'z kstate_scheme) outcome" where
  "waitx_scan [] p addr havekids s = Ok (Inl havekids, s)"
| "waitx_scan (i # is) p addr havekids s =
     (if p_parent (k_proc s i) = Some p
      then obind (acquire_l (ProcLock i) s) (\<lambda>s.
        if p_state (k_proc s i) = ZOMBIE
        then let np = k_proc s i; pid = p_pid np; rtime = p_rtime np;
                 wtime = p_etime np - p_ctime np - p_rtime np
             in obind (if addr \<noteq> 0
                       then on_mem (copyout (p_pagetable (k_proc s p)) addr (bytes_of_word 4 (p_xstate np))) s
                       else Ok (0, s)) (\<lambda>(r, s).
                  if r < 0
                  then obind (release_l (ProcLock i) s) (\<lambda>s.
                       obind (release_l WaitLock s) (\<lambda>s. Ok (Inr (- 1, wtime, rtime), s)))
                  else obind (freeproc i s) (\<lambda>s.
                       obind (release_l (ProcLock i) s) (\<lambda>s.
                       obind (release_l WaitLock s) (\<lambda>s. Ok (Inr (pid, wtime, rtime), s)))))
        else obind (release_l (ProcLock i) s) (waitx_scan is p addr True))
      else waitx_scan is p addr havekids s)"

text \<open>\<open>wtime\<close> and \<open>rtime\<close> are the caller's variables, left as they were when there is no zombie.\<close>

definition waitx_iter ::
    "u64 \<Rightarrow> u32 \<Rightarrow> u32 \<Rightarrow> 'z kstate_scheme \<Rightarrow> ((bool + int \<times> u32 \<times> u32) \<times> 'z kstate_scheme) outcome" where
  "waitx_iter addr wtime rtime s = with_proc s (\<lambda>p.
     obind (waitx_scan [0..<NPROC] p addr False s) (\<lambda>(r, s).
       case r of Inr v \<Rightarrow> Ok (Inr v, s)
       | Inl havekids \<Rightarrow>
           if \<not> havekids \<or> p_killed (k_proc s p)
           then obind (release_l WaitLock s) (\<lambda>s. Ok (Inr (- 1, wtime, rtime), s))
           else obind (sleep_out (ProcChan p) WaitLock s) (\<lambda>(ia, s). Ok (Inl ia, s))))"

definition waitx ::
    "u64 \<Rightarrow> u32 \<Rightarrow> u32 \<Rightarrow> 'z kstate_scheme \<Rightarrow> ((bool + int \<times> u32 \<times> u32) \<times> 'z kstate_scheme) outcome" where
  "waitx addr wtime rtime s = obind (acquire_l WaitLock s) (waitx_iter addr wtime rtime)"

definition waitx_resume ::
    "u64 \<Rightarrow> u32 \<Rightarrow> u32 \<Rightarrow> bool \<Rightarrow> 'z kstate_scheme \<Rightarrow> ((bool + int \<times> u32 \<times> u32) \<times> 'z kstate_scheme) outcome" where
  "waitx_resume addr wtime rtime ia s = obind (sleep_in ia WaitLock s) (waitx_iter addr wtime rtime)"

section \<open>Times\<close>

definition tick_proc :: "proc \<Rightarrow> proc" where
  "tick_proc p =
     (if p_state p = RUNNING then p\<lparr>p_rntime := p_rntime p + 1, p_rtime := p_rtime p + 1\<rparr>
      else if p_state p = SLEEPING then p\<lparr>p_stime := p_stime p + 1\<rparr>
      else if p_state p = RUNNABLE then p\<lparr>p_wtime := p_wtime p + 1\<rparr>
      else p)"

primrec update_time_loop :: "nat list \<Rightarrow> 'z kstate_scheme \<Rightarrow> 'z kstate_scheme outcome" where
  "update_time_loop [] s = Ok s"
| "update_time_loop (i # is) s =
     obind (acquire_l (ProcLock i) s) (\<lambda>s.
       if p_state (k_proc s i) = UNUSED
       then obind (release_l (ProcLock i) s) (update_time_loop is)
       else obind (release_l (ProcLock i) (upd_p i tick_proc s)) (update_time_loop is))"

definition update_time :: "'z kstate_scheme \<Rightarrow> 'z kstate_scheme outcome" where
  "update_time s = update_time_loop [0..<NPROC] s"

section \<open>Copies to user or kernel memory\<close>

definition either_copyout :: "bool \<Rightarrow> u64 \<Rightarrow> u8 list \<Rightarrow> 'z kstate_scheme \<Rightarrow> (int \<times> 'z kstate_scheme) outcome" where
  "either_copyout user_dst dst src s = with_proc s (\<lambda>p.
     if user_dst then on_mem (copyout (p_pagetable (k_proc s p)) dst src) s
     else Ok (0, s\<lparr>k_mem := (k_mem s)\<lparr>mem := store_bytes (mem (k_mem s)) dst src\<rparr>\<rparr>))"

definition either_copyin :: "bool \<Rightarrow> u64 \<Rightarrow> nat \<Rightarrow> 'z kstate_scheme \<Rightarrow> (int \<times> u8 list) outcome" where
  "either_copyin user_src src len s = with_proc s (\<lambda>p.
     if user_src then copyin (p_pagetable (k_proc s p)) src len (k_mem s)
     else Ok (0, load_bytes (mem (k_mem s)) src len))"

end
