(* ===== verification/Sched.thy ===== *)
theory Sched
  imports Proc
begin

text \<open>
  Lemmas on the process table: lock operations on the kernel state, what a locked update of one
  process does, and the functional behaviour of the loops of \<open>proc.c\<close>: the scheduler's choice,
  \<open>wakeup\<close>, \<open>kill\<close> and \<open>update_time\<close>.
\<close>

section \<open>Lock operations on the kernel state\<close>

definition lock_free :: "spinlock \<Rightarrow> bool" where
  "lock_free lk \<longleftrightarrow> \<not> lk_locked lk \<and> lk_cpu lk = None"

definition held_by :: "nat \<Rightarrow> spinlock \<Rightarrow> spinlock" where
  "held_by h lk = lk\<lparr>lk_locked := True, lk_cpu := Some h\<rparr>"

text \<open>A hart outside every critical section with interrupts on, or inside with them off.\<close>

definition cpu_ok :: "cpu \<Rightarrow> bool" where
  "cpu_ok c \<longleftrightarrow> 0 \<le> noff c \<and> (0 < noff c \<longrightarrow> \<not> sie c)"

definition bump :: "cpu \<Rightarrow> cpu" where
  "bump c = (if noff c = 0 then c\<lparr>intena := sie c\<rparr> else c)"

lemma bump_simps [simp]: "bump (bump c) = bump c" "cpu_ok (bump c) = cpu_ok c" "c_proc (bump c) = c_proc c"
    "noff (bump c) = noff c" "sie (bump c) = sie c"
  by (auto simp: bump_def cpu_ok_def)

lemma get_put_lock [simp]: "get_lock r (put_lock r' lk s) = (if r = r' then lk else get_lock r s)"
  by (cases r; cases r') (auto simp: upd_p_def)

lemma get_lock_set_cpu [simp]: "get_lock r (set_cpu c s) = get_lock r s"
  by (cases r) (auto simp: set_cpu_def)

lemma mycpu_simps [simp]: "mycpu (set_cpu c s) = c" "mycpu (upd_p i f s) = mycpu s"
    "mycpu (put_lock r lk s) = mycpu s" "k_hart (set_cpu c s) = k_hart s" "k_hart (upd_p i f s) = k_hart s"
    "k_hart (put_lock r lk s) = k_hart s" "set_cpu c' (set_cpu c s) = set_cpu c' s"
    "k_proc (set_cpu c s) = k_proc s" "set_cpu (mycpu s) s = s"
  by (cases r; auto simp: mycpu_def set_cpu_def upd_p_def)+

lemma set_cpu_upd_p [simp]: "set_cpu c (upd_p i f s) = upd_p i f (set_cpu c s)"
  by (simp add: set_cpu_def upd_p_def)

lemma upd_p_proc [simp]: "k_proc (upd_p i f s) = (k_proc s)(i := f (k_proc s i))"
  by (simp add: upd_p_def)

lemma acquire_free:
  "lock_free (get_lock r s) \<Longrightarrow>
     acquire_l r s = Ok (put_lock r (held_by (k_hart s) (get_lock r s)) (set_cpu (push_off (mycpu s)) s))"
  by (simp add: acquire_l_def acquire_def lock_free_def holding_def held_by_def Let_def)

lemma release_held:
  assumes "get_lock r s = held_by (k_hart s) lk" "lock_free lk" "mycpu s = push_off c" "cpu_ok c"
  shows "release_l r s = Ok (put_lock r lk (set_cpu (bump c) s))"
proof -
  have "pop_off (push_off c) = Ok (bump c)"
    using assms(4) by (auto simp: pop_off_def push_off_def Let_def bump_def cpu_ok_def)
  moreover have "lk\<lparr>lk_cpu := None, lk_locked := False\<rparr> = lk"
    using assms(2) by (cases lk) (simp add: lock_free_def)
  ultimately show ?thesis
    using assms by (simp add: release_l_def release_def holding_def held_by_def Let_def)
qed

text \<open>A change of one process under its lock. \<open>f\<close> does not look at the lock.\<close>

definition lock_blind :: "(proc \<Rightarrow> proc) \<Rightarrow> bool" where
  "lock_blind f \<longleftrightarrow> (\<forall>p l. f (p\<lparr>p_lock := l\<rparr>) = (f p)\<lparr>p_lock := l\<rparr>)"

lemma lock_blind_id [simp]: "lock_blind (\<lambda>p. p)"
  by (simp add: lock_blind_def)

lemma locked_update:
  assumes "lock_free (p_lock (k_proc s i))" "cpu_ok (mycpu s)" "lock_blind f"
  shows "release_l (ProcLock i) (upd_p i f (put_lock (ProcLock i) (held_by (k_hart s) (p_lock (k_proc s i)))
      (set_cpu (push_off (mycpu s)) s))) = Ok (upd_p i f (set_cpu (bump (mycpu s)) s))"
proof -
  let ?lk = "p_lock (k_proc s i)"
  let ?s = "upd_p i f (put_lock (ProcLock i) (held_by (k_hart s) ?lk) (set_cpu (push_off (mycpu s)) s))"
  have keep: "p_lock (f (p\<lparr>p_lock := l\<rparr>)) = l" "(f p)\<lparr>p_lock := p_lock p\<rparr> = f p" for p l
    using assms(3) unfolding lock_blind_def by (simp, metis proc.surjective proc.update_convs(1) proc.select_convs(1))
  have "get_lock (ProcLock i) ?s = held_by (k_hart ?s) ?lk" by (simp add: keep)
  then have "release_l (ProcLock i) ?s = Ok (put_lock (ProcLock i) ?lk (set_cpu (bump (mycpu s)) ?s))"
    by (rule release_held) (use assms in simp_all)
  also have "put_lock (ProcLock i) ?lk (set_cpu (bump (mycpu s)) ?s) = upd_p i f (set_cpu (bump (mycpu s)) s)"
    using assms(3) by (simp add: upd_p_def set_cpu_def lock_blind_def keep)
  finally show ?thesis .
qed

lemma locked_look:
  "lock_free (p_lock (k_proc s i)) \<Longrightarrow> cpu_ok (mycpu s) \<Longrightarrow>
     release_l (ProcLock i) (put_lock (ProcLock i) (held_by (k_hart s) (p_lock (k_proc s i)))
       (set_cpu (push_off (mycpu s)) s)) = Ok (set_cpu (bump (mycpu s)) s)"
  using locked_update [of s i "\<lambda>p. p"] by (simp add: upd_p_def)

section \<open>Loops over the table\<close>

text \<open>What a loop that changes each process under its lock leaves behind.\<close>

definition map_procs :: "nat list \<Rightarrow> (nat \<Rightarrow> proc \<Rightarrow> proc) \<Rightarrow> 'z kstate_scheme \<Rightarrow> 'z kstate_scheme" where
  "map_procs is f s = s\<lparr>k_proc := (\<lambda>i. if i \<in> set is then f i (k_proc s i) else k_proc s i)\<rparr>"

definition table_ok :: "nat list \<Rightarrow> 'z kstate_scheme \<Rightarrow> bool" where
  "table_ok is s \<longleftrightarrow> cpu_ok (mycpu s) \<and> (\<forall>i\<in>set is. lock_free (p_lock (k_proc s i)))"

lemma lock_blind_lock: "lock_blind f \<Longrightarrow> p_lock (f p) = p_lock p"
  unfolding lock_blind_def by (metis proc.select_convs(1) proc.surjective proc.update_convs(1))

lemma table_ok_step:
  "table_ok (i # is) s \<Longrightarrow> lock_blind f \<Longrightarrow> table_ok is (upd_p i f (set_cpu (bump (mycpu s)) s))"
  by (auto simp: table_ok_def lock_blind_lock)

lemma map_procs_step:
  "i \<notin> set is \<Longrightarrow> map_procs is f (upd_p i (f i) (set_cpu c s)) = map_procs (i # is) f (set_cpu c s)"
  by (auto simp: map_procs_def upd_p_def set_cpu_def fun_eq_iff)

lemma map_procs_simps [simp]:
  "mycpu (map_procs is f s) = mycpu s" "k_hart (map_procs is f s) = k_hart s"
  "map_procs [] f s = s" "set_cpu c (map_procs is f s) = map_procs is f (set_cpu c s)"
  by (simp_all add: map_procs_def mycpu_def set_cpu_def cong: if_cong)

definition wake_proc :: "chan option \<Rightarrow> proc \<Rightarrow> proc" where
  "wake_proc ch p = (if p_state p = SLEEPING \<and> p_chan p = ch then p\<lparr>p_state := RUNNABLE\<rparr> else p)"

lemma lock_blinds [simp]: "lock_blind (wake_proc ch)" "lock_blind tick_proc"
  by (simp_all add: lock_blind_def wake_proc_def tick_proc_def)

locale locked_loop =
  fixes loop :: "nat list \<Rightarrow> 'z kstate_scheme \<Rightarrow> 'z kstate_scheme outcome"
    and skip :: "nat \<Rightarrow> 'z kstate_scheme \<Rightarrow> bool"
    and body :: "proc \<Rightarrow> proc"
  assumes loop_Nil: "loop [] s = Ok s"
    and loop_skip: "skip i s \<Longrightarrow> loop (i # is) s = loop is s"
    and loop_body: "\<not> skip i s \<Longrightarrow> lock_free (p_lock (k_proc s i)) \<Longrightarrow> cpu_ok (mycpu s) \<Longrightarrow>
      loop (i # is) s = loop is (upd_p i body (set_cpu (bump (mycpu s)) s))"
    and skip_body: "skip j (upd_p i body (set_cpu (bump (mycpu s)) s)) = skip j s"
    and body_blind: "lock_blind body"
begin

lemma run:
  "distinct is \<Longrightarrow> table_ok (filter (\<lambda>i. \<not> skip i s) is) s \<Longrightarrow>
     \<exists>c. loop is s = Ok (map_procs (filter (\<lambda>i. \<not> skip i s) is) (\<lambda>_. body) (set_cpu c s)) \<and>
       (c = mycpu s \<or> c = bump (mycpu s))"
proof (induction "is" arbitrary: s)
  case Nil
  then show ?case by (intro exI [of _ "mycpu s"]) (simp add: loop_Nil)
next
  case (Cons i "is")
  let ?f = "filter (\<lambda>i. \<not> skip i s) is"
  show ?case
  proof (cases "skip i s")
    case True
    then show ?thesis using Cons by (simp add: loop_skip)
  next
    case False
    let ?s = "upd_p i body (set_cpu (bump (mycpu s)) s)"
    have free: "lock_free (p_lock (k_proc s i))" "cpu_ok (mycpu s)"
      using Cons.prems(2) False by (auto simp: table_ok_def)
    have "table_ok ?f ?s"
      using Cons.prems(2) False table_ok_step [OF _ body_blind, of i ?f s] by simp
    then obtain c where c: "loop (i # is) s = Ok (map_procs ?f (\<lambda>_. body) (set_cpu c ?s))" "c = bump (mycpu s)"
      using Cons.IH [of ?s] Cons.prems(1) loop_body [OF False free] by (auto simp: skip_body)
    then show ?thesis
      using False Cons.prems(1) map_procs_step [of i ?f "\<lambda>_. body" "bump (mycpu s)" s] by auto
  qed
qed

end

interpretation wk: locked_loop "\<lambda>is s. wakeup_loop is ch s" "\<lambda>i s. Some i = myproc s" "wake_proc ch" for ch
proof (unfold_locales, goal_cases)
  case (3 i s "is")
  let ?a = "put_lock (ProcLock i) (held_by (k_hart s) (p_lock (k_proc s i))) (set_cpu (push_off (mycpu s)) s)"
  have "(if p_state (k_proc ?a i) = SLEEPING \<and> p_chan (k_proc ?a i) = ch
      then upd_p i (\<lambda>p. p\<lparr>p_state := RUNNABLE\<rparr>) ?a else ?a) = upd_p i (wake_proc ch) ?a"
    by (simp add: wake_proc_def upd_p_def)
  then show ?case
    using 3 acquire_free [of "ProcLock i" s] locked_update [OF 3(2,3) lock_blinds(1)]
    by (simp add: Let_def del: put_lock.simps)
qed (simp_all add: myproc_def)

interpretation ut: locked_loop update_time_loop "\<lambda>i s. False" tick_proc
proof (unfold_locales, goal_cases)
  case (3 i s "is")
  let ?a = "put_lock (ProcLock i) (held_by (k_hart s) (p_lock (k_proc s i))) (set_cpu (push_off (mycpu s)) s)"
  have "p_state (k_proc ?a i) = UNUSED \<Longrightarrow> upd_p i tick_proc ?a = ?a"
    by (simp add: tick_proc_def upd_p_def)
  then show ?case
    using 3 acquire_free [of "ProcLock i" s] locked_update [OF 3(2,3) lock_blinds(2)]
    by (cases "p_state (k_proc ?a i) = UNUSED") (simp_all del: put_lock.simps)
qed simp_all

section \<open>The scheduler's choice\<close>

primrec pbs_pick :: "(nat \<Rightarrow> proc) \<Rightarrow> nat list \<Rightarrow> nat option \<Rightarrow> nat option" where
  "pbs_pick P [] best = best"
| "pbs_pick P (i # is) best =
     pbs_pick P is
       (if p_state (P i) \<noteq> RUNNABLE then best
        else case best of None \<Rightarrow> Some i
          | Some h \<Rightarrow> if pbs_better (P i) (P h) (p_dp (P h)) then Some i else Some h)"

text \<open>The scheduler's order: dynamic priority, then times scheduled, then creation time.\<close>

definition pbs_key :: "proc \<Rightarrow> u32 \<times> u32 \<times> u32" where
  "pbs_key p = (p_dp p, p_num_sch p, p_ctime p)"

fun key_less :: "u32 \<times> u32 \<times> u32 \<Rightarrow> u32 \<times> u32 \<times> u32 \<Rightarrow> bool" where
  "key_less (a, b, c) (a', b', c') \<longleftrightarrow> a < a' \<or> a = a' \<and> (b < b' \<or> b = b' \<and> c < c')"

lemma pbs_better_key: "pbs_better p h (p_dp h) \<longleftrightarrow> key_less (pbs_key p) (pbs_key h)"
  by (auto simp: pbs_better_def pbs_key_def)

lemma key_less_trans: "key_less x y \<Longrightarrow> \<not> key_less z y \<Longrightarrow> \<not> key_less z x"
  by (cases x; cases y; cases z) auto

lemma key_less_irrefl: "\<not> key_less x x"
  by (cases x) auto

lemma key_less_asym: "key_less x y \<Longrightarrow> \<not> key_less y x"
  by (cases x; cases y) auto

text \<open>The best of the processes before and in the list; among equals the first.\<close>

definition best_of :: "(nat \<Rightarrow> proc) \<Rightarrow> nat set \<Rightarrow> nat option \<Rightarrow> bool" where
  "best_of P S best \<longleftrightarrow> (case best of
     None \<Rightarrow> \<forall>i\<in>S. p_state (P i) \<noteq> RUNNABLE
   | Some h \<Rightarrow> h \<in> S \<and> p_state (P h) = RUNNABLE \<and>
       (\<forall>i\<in>S. p_state (P i) = RUNNABLE \<longrightarrow>
          \<not> key_less (pbs_key (P i)) (pbs_key (P h)) \<and>
          (pbs_key (P i) = pbs_key (P h) \<longrightarrow> h \<le> i)))"

lemma pbs_pick_best:
  "best_of P {0..<n} best \<Longrightarrow> best_of P {0..<n + k} (pbs_pick P [n..<n + k] best)"
proof (induction k arbitrary: n best)
  case 0
  then show ?case by simp
next
  case (Suc k)
  let ?b = "if p_state (P n) \<noteq> RUNNABLE then best
    else case best of None \<Rightarrow> Some n
      | Some h \<Rightarrow> if pbs_better (P n) (P h) (p_dp (P h)) then Some n else Some h"
  have S: "{0..<Suc n} = insert n {0..<n}" by auto
  have "best_of P {0..<Suc n} ?b"
    using Suc.prems unfolding best_of_def S
    by (auto simp: pbs_better_key key_less_irrefl dest: key_less_trans key_less_asym split: option.splits)
  then have "best_of P {0..<Suc n + k} (pbs_pick P [Suc n..<Suc n + k] ?b)" by (rule Suc.IH)
  moreover have "[n..<n + Suc k] = n # [Suc n..<Suc n + k]" by (simp add: upt_conv_Cons del: upt_Suc)
  moreover have "n + Suc k = Suc n + k" by simp
  ultimately show ?case by (simp only: pbs_pick.simps)
qed

text \<open>
  The states during the scan, over a table \<open>b\<close> with all locks free: no candidate (\<open>idle\<close>), a
  candidate whose lock is held, and a candidate and the process looked at.
\<close>

definition idle :: "bool \<Rightarrow> 'z kstate_scheme \<Rightarrow> 'z kstate_scheme" where
  "idle ia b = set_cpu ((mycpu b)\<lparr>noff := 0, intena := ia, sie := True\<rparr>) b"

definition in_crit :: "int \<Rightarrow> 'z kstate_scheme \<Rightarrow> 'z kstate_scheme" where
  "in_crit n b = set_cpu ((mycpu b)\<lparr>noff := n, intena := True, sie := False\<rparr>) b"

definition lock_p :: "nat \<Rightarrow> 'z kstate_scheme \<Rightarrow> 'z kstate_scheme" where
  "lock_p i b = upd_p i (\<lambda>p. p\<lparr>p_lock := held_by (k_hart b) (p_lock p)\<rparr>) b"

lemma cpu_push [simp]:
  "push_off (c\<lparr>noff := 0, intena := ia, sie := True\<rparr>) = c\<lparr>noff := 1, intena := True, sie := False\<rparr>"
  "push_off (c\<lparr>noff := 1, intena := True, sie := False\<rparr>) = c\<lparr>noff := 2, intena := True, sie := False\<rparr>"
  "bump (c\<lparr>noff := 0, intena := ia, sie := True\<rparr>) = c\<lparr>noff := 0, intena := True, sie := True\<rparr>"
  "bump (c\<lparr>noff := 1, intena := True, sie := False\<rparr>) = c\<lparr>noff := 1, intena := True, sie := False\<rparr>"
  "cpu_ok (c\<lparr>noff := 0, intena := ia, sie := True\<rparr>)" "cpu_ok (c\<lparr>noff := 1, intena := True, sie := False\<rparr>)"
  by (cases c; simp add: push_off_def bump_def cpu_ok_def Let_def)+

lemma lock_p_simps [simp]:
  "mycpu (lock_p i b) = mycpu b" "k_hart (lock_p i b) = k_hart b" "k_hart (in_crit n b) = k_hart b"
  "mycpu (in_crit n b) = (mycpu b)\<lparr>noff := n, intena := True, sie := False\<rparr>"
  "k_proc (in_crit n b) = k_proc b" "get_lock (ProcLock i) (lock_p i b) = held_by (k_hart b) (p_lock (k_proc b i))"
  "i \<noteq> j \<Longrightarrow> get_lock (ProcLock i) (lock_p j b) = get_lock (ProcLock i) b"
  by (simp_all add: lock_p_def in_crit_def)

lemma proc_of_lock_p: "k_proc (lock_p i b) j = (if i = j then (k_proc b j)\<lparr>p_lock := held_by (k_hart b) (p_lock (k_proc b j))\<rparr> else k_proc b j)"
  by (simp add: lock_p_def)

lemma lock_p_set_cpu: "set_cpu c (lock_p i b) = lock_p i (set_cpu c b)" "set_cpu c (in_crit n b) = set_cpu c b"
  by (simp_all add: lock_p_def in_crit_def)

lemma put_lock_lock_p:
  "put_lock (ProcLock i) (held_by (k_hart b) (p_lock (k_proc b i))) b = lock_p i b"
  "put_lock (ProcLock i) (p_lock (k_proc b i)) (lock_p i b) = b"
  by (simp_all add: lock_p_def upd_p_def)

lemma lock_p_commute: "i \<noteq> h \<Longrightarrow> lock_p i (lock_p h b) = lock_p h (lock_p i b)"
  by (simp add: lock_p_def upd_p_def fun_upd_twist)

lemma acquire_idle:
  "lock_free (p_lock (k_proc b i)) \<Longrightarrow> acquire_l (ProcLock i) (idle ia b) = Ok (lock_p i (in_crit 1 b))"
  using put_lock_lock_p(1) [of i "in_crit 1 b"]
  by (simp add: acquire_free idle_def in_crit_def del: put_lock.simps)

lemma release_one:
  assumes "lock_free (p_lock (k_proc b i))"
  shows "release_l (ProcLock i) (lock_p i (in_crit 1 b)) = Ok (idle True b)"
proof -
  let ?c = "(mycpu b)\<lparr>noff := 0, intena := True, sie := True\<rparr>"
  have "release_l (ProcLock i) (lock_p i (in_crit 1 b)) =
      Ok (put_lock (ProcLock i) (p_lock (k_proc b i)) (set_cpu (bump ?c) (lock_p i (in_crit 1 b))))"
    by (rule release_held) (use assms in \<open>simp_all add: proc_of_lock_p\<close>)
  then show ?thesis
    using put_lock_lock_p(2) [of i "idle True b"]
    by (simp add: idle_def lock_p_set_cpu del: put_lock.simps)
qed

lemma acquire_second:
  assumes "lock_free (p_lock (k_proc b i))" "i \<noteq> h"
  shows "acquire_l (ProcLock i) (lock_p h (in_crit 1 b)) = Ok (lock_p i (lock_p h (in_crit 2 b)))"
proof -
  have "lock_free (get_lock (ProcLock i) (lock_p h (in_crit 1 b)))" using assms by (simp add: proc_of_lock_p)
  then show ?thesis
    using put_lock_lock_p(1) [of i "lock_p h (in_crit 2 b)"] assms(2)
    by (simp add: acquire_free lock_p_set_cpu del: put_lock.simps get_lock.simps(4))
      (simp add: in_crit_def lock_p_def)
qed

lemma release_second:
  assumes "lock_free (p_lock (k_proc b i))" "i \<noteq> h"
  shows "release_l (ProcLock i) (lock_p i (lock_p h (in_crit 2 b))) = Ok (lock_p h (in_crit 1 b))"
    and "release_l (ProcLock i) (lock_p h (lock_p i (in_crit 2 b))) = Ok (lock_p h (in_crit 1 b))"
proof -
  let ?c = "(mycpu b)\<lparr>noff := 1, intena := True, sie := False\<rparr>"
  have "release_l (ProcLock i) (lock_p i (lock_p h (in_crit 2 b))) =
      Ok (put_lock (ProcLock i) (p_lock (k_proc b i)) (set_cpu (bump ?c) (lock_p i (lock_p h (in_crit 2 b)))))"
    by (rule release_held) (use assms in \<open>simp_all add: lock_p_def\<close>)
  moreover have "put_lock (ProcLock i) (p_lock (k_proc b i)) (lock_p i (lock_p h (in_crit 1 b))) =
      lock_p h (in_crit 1 b)"
    using put_lock_lock_p(2) [of i "lock_p h (in_crit 1 b)"] assms(2) by (simp add: lock_p_def)
  ultimately show "release_l (ProcLock i) (lock_p i (lock_p h (in_crit 2 b))) = Ok (lock_p h (in_crit 1 b))"
    by (simp add: lock_p_set_cpu del: put_lock.simps) (simp add: in_crit_def)
  then show "release_l (ProcLock i) (lock_p h (lock_p i (in_crit 2 b))) = Ok (lock_p h (in_crit 1 b))"
    using assms(2) by (simp add: lock_p_commute)
qed

definition scan_state :: "nat option \<Rightarrow> bool \<Rightarrow> 'z kstate_scheme \<Rightarrow> 'z kstate_scheme" where
  "scan_state best ia b = (case best of None \<Rightarrow> idle ia b | Some h \<Rightarrow> lock_p h (in_crit 1 b))"

lemma pbs_better_lock [simp]:
  "pbs_better (p\<lparr>p_lock := l\<rparr>) (h\<lparr>p_lock := l'\<rparr>) m = pbs_better p h m"
  "pbs_better p (h\<lparr>p_lock := l'\<rparr>) m = pbs_better p h m" "pbs_better (p\<lparr>p_lock := l\<rparr>) h m = pbs_better p h m"
  by (simp_all add: pbs_better_def)

lemma scheduler_scan_spec:
  "distinct is \<Longrightarrow> \<forall>i\<in>set is. lock_free (p_lock (k_proc b i)) \<Longrightarrow>
     (case best of None \<Rightarrow> True | Some h \<Rightarrow> h \<notin> set is \<and> lock_free (p_lock (k_proc b h)) \<and> md = p_dp (k_proc b h)) \<Longrightarrow>
     \<exists>ia'. scheduler_scan is best md (scan_state best ia b) =
       Ok (pbs_pick (k_proc b) is best, scan_state (pbs_pick (k_proc b) is best) ia' b)"
proof (induction "is" arbitrary: best md ia)
  case Nil
  then show ?case by auto
next
  case (Cons i "is")
  have f: "lock_free (p_lock (k_proc b i))" "distinct is" "\<forall>i\<in>set is. lock_free (p_lock (k_proc b i))" "i \<notin> set is"
    using Cons.prems(1,2) by auto
  show ?case
  proof (cases best)
    case None
    show ?thesis
    proof (cases "p_state (k_proc b i) = RUNNABLE")
      case True
      then show ?thesis
        using None f Cons.IH [where best = "Some i" and md = "p_dp (k_proc b i)"]
        by (simp add: scan_state_def acquire_idle proc_of_lock_p)
    next
      case False
      then show ?thesis
        using None f Cons.IH [where best = None and md = md and ia = True]
        by (simp add: scan_state_def acquire_idle proc_of_lock_p release_one)
    qed
  next
    case (Some h)
    have h: "h \<noteq> i" "h \<notin> set is" "lock_free (p_lock (k_proc b h))" "md = p_dp (k_proc b h)"
      using Cons.prems(3) Some by auto
    show ?thesis
    proof (cases "p_state (k_proc b i) = RUNNABLE \<and> pbs_better (k_proc b i) (k_proc b h) md")
      case True
      then show ?thesis
        using Some f h Cons.IH [where best = "Some i" and md = "p_dp (k_proc b i)"]
        by (simp add: scan_state_def acquire_second proc_of_lock_p release_second)
    next
      case False
      then show ?thesis
        using Some f h Cons.IH [where best = "Some h" and md = md]
        by (auto simp: scan_state_def acquire_second proc_of_lock_p release_second)
    qed
  qed
qed

lemma best_of_initial: "best_of P {0..<0} None"
  by (simp add: best_of_def)

lemma pbs_pick_table: "best_of P {0..<NPROC} (pbs_pick P [0..<NPROC] None)"
  using pbs_pick_best [OF best_of_initial, of P NPROC] by simp

lemma scheduler_round_spec:
  assumes "\<forall>i<NPROC. lock_free (p_lock (k_proc s i))" and "noff (mycpu s) = 0"
  shows "\<exists>ia. scheduler_round s =
    (let best = pbs_pick (k_proc s) [0..<NPROC] None
     in Ok (best, case best of None \<Rightarrow> idle ia s | Some h \<Rightarrow> dispatch h (lock_p h (in_crit 1 s))))"
proof -
  have "set_cpu ((mycpu s)\<lparr>sie := True\<rparr>) s = idle (intena (mycpu s)) s"
    using assms(2) by (cases "mycpu s") (simp add: idle_def)
  moreover obtain ia where "scheduler_scan [0..<NPROC] None 100 (idle (intena (mycpu s)) s) =
      Ok (pbs_pick (k_proc s) [0..<NPROC] None, scan_state (pbs_pick (k_proc s) [0..<NPROC] None) ia s)"
    using scheduler_scan_spec [where best = None and md = 100 and b = s and ia = "intena (mycpu s)", of "[0..<NPROC]"] assms(1)
    by (auto simp: scan_state_def)
  ultimately show ?thesis
    by (auto simp: scheduler_round_def Let_def scan_state_def split: option.splits)
qed

section \<open>Switching between processes\<close>

lemma cpu_one:
  "noff c = 0 \<Longrightarrow> push_off c = c\<lparr>noff := 1, intena := sie c, sie := False\<rparr>"
  by (cases c) (simp add: push_off_def Let_def)

text \<open>Giving up the CPU: the state once the scheduler has taken over and released the lock.\<close>

definition switched_out :: "nat \<Rightarrow> (proc \<Rightarrow> proc) \<Rightarrow> 'z kstate_scheme \<Rightarrow> 'z kstate_scheme" where
  "switched_out p f s = upd_p p f (set_cpu ((bump (mycpu s))\<lparr>c_proc := None\<rparr>) s)"

lemma sched_hand_over:
  assumes me: "myproc s = Some p" and fr: "lock_free (p_lock (k_proc s p))" and off: "noff (mycpu s) = 0"
    and f: "lock_blind f" "\<And>q. p_state (f q) \<noteq> RUNNING"
    and t: "t = upd_p p f (put_lock (ProcLock p) (held_by (k_hart s) (p_lock (k_proc s p)))
      (set_cpu (push_off (mycpu s)) s))"
  shows "sched t = Ok (sie (mycpu s), t)" and "scheduler_resume p t = Ok (switched_out p f s)"
proof -
  have c: "mycpu t = (mycpu s)\<lparr>noff := 1, intena := sie (mycpu s), sie := False\<rparr>"
    using t off by (simp add: cpu_one)
  have h: "holding_l (ProcLock p) t"
    using f(1) t by (simp add: holding_l_def holding_def held_by_def lock_blind_lock)
  have "myproc t = Some p" using me c by (simp add: myproc_def)
  moreover have "p_state (k_proc t p) \<noteq> RUNNING" using f(2) t by simp
  ultimately show "sched t = Ok (sie (mycpu s), t)" using h c by (simp add: sched_def with_proc_def)
  let ?s = "set_cpu ((mycpu s)\<lparr>c_proc := None\<rparr>) s"
  have "set_cpu ((mycpu t)\<lparr>c_proc := None\<rparr>) t =
      upd_p p f (put_lock (ProcLock p) (held_by (k_hart ?s) (p_lock (k_proc ?s p))) (set_cpu (push_off (mycpu ?s)) ?s))"
  proof -
    have "(push_off (mycpu s))\<lparr>c_proc := None\<rparr> = push_off ((mycpu s)\<lparr>c_proc := None\<rparr>)"
      by (cases "mycpu s") (simp add: push_off_def Let_def)
    then show ?thesis using t by simp
  qed
  moreover have "release_l (ProcLock p) \<dots> = Ok (upd_p p f (set_cpu (bump (mycpu ?s)) ?s))"
    using fr off by (intro locked_update f(1)) (simp_all add: cpu_ok_def)
  moreover have "set_cpu (bump (mycpu ?s)) ?s = set_cpu ((bump (mycpu s))\<lparr>c_proc := None\<rparr>) s"
    by (cases "mycpu s") (simp add: bump_def)
  ultimately show "scheduler_resume p t = Ok (switched_out p f s)"
    by (simp add: scheduler_resume_def switched_out_def)
qed

lemma lock_blind_state: "lock_blind (\<lambda>p. p\<lparr>p_state := st\<rparr>)" "lock_blind (\<lambda>p. p\<lparr>p_chan := ch, p_state := st\<rparr>)"
  by (simp_all add: lock_blind_def)

section \<open>Properties\<close>

text \<open>
  C10: a round of the scheduler runs the runnable process with the smallest dynamic priority, ties
  broken by the number of times scheduled, then by creation time, then by slot; with no runnable
  process it leaves the table alone. The chosen process is \<open>RUNNING\<close> on this CPU with its lock held,
  interrupts off and its run and sleep times reset; every other process is as before.
\<close>

theorem scheduler_picks_highest_priority:
  assumes "\<forall>i<NPROC. lock_free (p_lock (k_proc s i))" and "noff (mycpu s) = 0"
  shows "\<exists>best s'. scheduler_round s = Ok (best, s') \<and>
    (case best of
       None \<Rightarrow> (\<forall>i<NPROC. p_state (k_proc s i) \<noteq> RUNNABLE) \<and> k_proc s' = k_proc s
     | Some h \<Rightarrow> h < NPROC \<and> p_state (k_proc s h) = RUNNABLE \<and>
         (\<forall>i<NPROC. p_state (k_proc s i) = RUNNABLE \<longrightarrow>
            p_dp (k_proc s h) < p_dp (k_proc s i) \<or> p_dp (k_proc s h) = p_dp (k_proc s i) \<and>
            (p_num_sch (k_proc s h) < p_num_sch (k_proc s i) \<or> p_num_sch (k_proc s h) = p_num_sch (k_proc s i) \<and>
            (p_ctime (k_proc s h) < p_ctime (k_proc s i) \<or> p_ctime (k_proc s h) = p_ctime (k_proc s i) \<and> h \<le> i))) \<and>
         myproc s' = Some h \<and> noff (mycpu s') = 1 \<and> \<not> sie (mycpu s') \<and> holding_l (ProcLock h) s' \<and>
         k_proc s' h = (k_proc s h)\<lparr>p_lock := p_lock (k_proc s' h), p_state := RUNNING, p_rntime := 0,
           p_stime := 0, p_num_sch := p_num_sch (k_proc s h) + 1\<rparr> \<and>
         (\<forall>i. i \<noteq> h \<longrightarrow> k_proc s' i = k_proc s i))"
proof -
  let ?b = "pbs_pick (k_proc s) [0..<NPROC] None"
  obtain ia where r: "scheduler_round s =
      Ok (?b, case ?b of None \<Rightarrow> idle ia s | Some h \<Rightarrow> dispatch h (lock_p h (in_crit 1 s)))"
    using scheduler_round_spec [OF assms] by (auto simp: Let_def)
  have best: "best_of (k_proc s) {0..<NPROC} ?b" by (rule pbs_pick_table)
  have ord: "\<not> key_less (pbs_key q) (pbs_key p) \<and> (pbs_key q = pbs_key p \<longrightarrow> h \<le> i) \<Longrightarrow>
      p_dp p < p_dp q \<or> p_dp p = p_dp q \<and> (p_num_sch p < p_num_sch q \<or> p_num_sch p = p_num_sch q \<and>
      (p_ctime p < p_ctime q \<or> p_ctime p = p_ctime q \<and> h \<le> i))" for p q and h i :: nat
    by (auto simp: pbs_key_def not_less)
  show ?thesis
  proof (cases ?b)
    case None
    then show ?thesis using r best by (auto simp: best_of_def idle_def)
  next
    case (Some h)
    let ?s = "dispatch h (lock_p h (in_crit 1 s))"
    have "k_proc ?s h = (k_proc s h)\<lparr>p_lock := p_lock (k_proc ?s h), p_state := RUNNING, p_rntime := 0,
           p_stime := 0, p_num_sch := p_num_sch (k_proc s h) + 1\<rparr>"
      by (simp add: dispatch_def proc_of_lock_p Let_def)
    moreover have "myproc ?s = Some h" "noff (mycpu ?s) = 1" "\<not> sie (mycpu ?s)" "holding_l (ProcLock h) ?s"
        "\<forall>i. i \<noteq> h \<longrightarrow> k_proc ?s i = k_proc s i"
      by (simp_all add: dispatch_def myproc_def proc_of_lock_p holding_l_def holding_def held_by_def Let_def)
    ultimately show ?thesis
      using Some r best unfolding best_of_def by (simp add: ord)
  qed
qed

text \<open>A machine with two runnable processes in slots 3 and 5, the second with the smaller priority.\<close>

definition demo_proc :: proc where
  "demo_proc = \<lparr>p_lock = initlock ''proc'', p_state = UNUSED, p_chan = None, p_killed = False, p_xstate = 0,
     p_pid = 0, p_parent = None, p_kstack = 0, p_sz = 0, p_pagetable = 0, p_trapframe = 0,
     p_context = zero_context, p_ofile = replicate 16 None, p_cwd = None, p_name = replicate 16 0,
     p_rtime = 0, p_ctime = 0, p_etime = 0, p_rntime = 0, p_wtime = 0, p_stime = 0, p_num_sch = 0,
     p_sp = 50, p_rbi = 25, p_dp = 75\<rparr>"

definition demo_sched :: kstate where
  "demo_sched = \<lparr>k_hart = 0, k_cpus = (\<lambda>_. \<lparr>c_proc = None, noff = 0, intena = False, sie = False\<rparr>),
     k_proc = (\<lambda>_. demo_proc)(3 := demo_proc\<lparr>p_state := RUNNABLE, p_pid := 1\<rparr>,
       5 := demo_proc\<lparr>p_state := RUNNABLE, p_pid := 2, p_dp := 10\<rparr>),
     pid_lock = initlock ''nextpid'', wait_lock = initlock ''wait_lock'', tickslock = initlock ''time'',
     nextpid = 3, initproc = Some 3, ticks = 7,
     k_mem = \<lparr>mem = (\<lambda>_. 0), freelist = 0, pte_count = (\<lambda>_. 0), kend = PHYSTOP\<rparr>,
     k_trampoline = 0, k_forkret = 0\<rparr>"

lemma demo_sched_free: "\<forall>i<NPROC. lock_free (p_lock (k_proc demo_sched i))" "noff (mycpu demo_sched) = 0"
  by (simp_all add: demo_sched_def demo_proc_def lock_free_def initlock_def mycpu_def)

theorem scheduler_picks_highest_priority_witness:
  "\<exists>s'. scheduler_round demo_sched = Ok (Some 5, s') \<and> p_state (k_proc s' 5) = RUNNING"
  using scheduler_picks_highest_priority [OF demo_sched_free]
proof (elim exE conjE, goal_cases)
  case (1 best s')
  have five: "5 < NPROC" "p_state (k_proc demo_sched 5) = RUNNABLE" "p_dp (k_proc demo_sched 5) = 10"
    by (simp_all add: demo_sched_def NPROC_def)
  have only: "h = 5" if "p_state (k_proc demo_sched h) = RUNNABLE" "p_dp (k_proc demo_sched h) \<le> 10" for h
    using that by (auto simp: demo_sched_def demo_proc_def split: if_splits)
  obtain h where h: "best = Some h" using 1(2) five by (cases best) auto
  note c = 1(2) [unfolded h option.case]
  have "p_dp (k_proc demo_sched h) \<le> 10"
    using c [THEN conjunct2, THEN conjunct2, THEN conjunct1] five by (metis order.strict_implies_order order_refl)
  then have h5: "h = 5" using only c [THEN conjunct2, THEN conjunct1] by blast
  have "k_proc s' h = (k_proc demo_sched h)\<lparr>p_lock := p_lock (k_proc s' h), p_state := RUNNING, p_rntime := 0,
           p_stime := 0, p_num_sch := p_num_sch (k_proc demo_sched h) + 1\<rparr>"
    using c by blast
  from arg_cong [OF this, of p_state] have "p_state (k_proc s' h) = RUNNING" by simp
  then show ?case using 1(1) h h5 by blast
qed

text \<open>
  C11: \<open>wakeup\<close> makes exactly the processes sleeping on the channel runnable, the caller excepted, and
  changes nothing else: no process, lock or CPU state but the saved interrupt flag of a CPU that
  holds no lock.
\<close>

theorem wakeup_wakes_exactly_the_sleepers:
  assumes "\<forall>i<NPROC. Some i \<noteq> myproc s \<longrightarrow> lock_free (p_lock (k_proc s i))" and "cpu_ok (mycpu s)"
  shows "\<exists>c s'. wakeup ch s = Ok s' \<and> (c = mycpu s \<or> c = bump (mycpu s)) \<and>
    s' = (set_cpu c s)\<lparr>k_proc := (\<lambda>i.
      if i < NPROC \<and> Some i \<noteq> myproc s \<and> p_state (k_proc s i) = SLEEPING \<and> p_chan (k_proc s i) = ch
      then (k_proc s i)\<lparr>p_state := RUNNABLE\<rparr> else k_proc s i)\<rparr>"
proof -
  have "table_ok (filter (\<lambda>i. Some i \<noteq> myproc s) [0..<NPROC]) s"
    using assms by (auto simp: table_ok_def)
  then obtain c where c: "wakeup ch s = Ok (map_procs (filter (\<lambda>i. Some i \<noteq> myproc s) [0..<NPROC])
      (\<lambda>_. wake_proc ch) (set_cpu c s))" "c = mycpu s \<or> c = bump (mycpu s)"
    using wk.run [of "[0..<NPROC]" s ch] by (auto simp: wakeup_def)
  have "map_procs (filter (\<lambda>i. Some i \<noteq> myproc s) [0..<NPROC]) (\<lambda>_. wake_proc ch) (set_cpu c s) =
    (set_cpu c s)\<lparr>k_proc := (\<lambda>i.
      if i < NPROC \<and> Some i \<noteq> myproc s \<and> p_state (k_proc s i) = SLEEPING \<and> p_chan (k_proc s i) = ch
      then (k_proc s i)\<lparr>p_state := RUNNABLE\<rparr> else k_proc s i)\<rparr>"
    unfolding map_procs_def wake_proc_def by (rule arg_cong [where f = "\<lambda>f. (set_cpu c s)\<lparr>k_proc := f\<rparr>"]) auto
  then show ?thesis using c by auto
qed

theorem wakeup_wakes_exactly_the_sleepers_witness:
  "\<exists>s'. wakeup (Some TicksChan) (upd_p 4 (\<lambda>p. p\<lparr>p_state := SLEEPING, p_chan := Some TicksChan\<rparr>) demo_sched) = Ok s' \<and>
    p_state (k_proc s' 4) = RUNNABLE"
proof -
  let ?s = "upd_p 4 (\<lambda>p. p\<lparr>p_state := SLEEPING, p_chan := Some TicksChan\<rparr>) demo_sched"
  have "myproc ?s = None" "cpu_ok (mycpu ?s)" by (simp_all add: myproc_def mycpu_def demo_sched_def cpu_ok_def upd_p_def)
  moreover have "\<forall>i<NPROC. Some i \<noteq> myproc ?s \<longrightarrow> lock_free (p_lock (k_proc ?s i))"
    using demo_sched_free(1) by simp
  ultimately show ?thesis
    using wakeup_wakes_exactly_the_sleepers [of ?s "Some TicksChan"] by (auto simp: NPROC_def)
qed

text \<open>
  \<open>yield\<close> by a running process that holds no lock never panics: it reaches \<open>swtch\<close> with its own
  lock held, and when the scheduler has taken over, that lock is released, the process is runnable,
  the CPU has no process, and nothing else has changed.
\<close>

theorem yield_returns_cpu_to_scheduler:
  assumes "myproc s = Some p" and "lock_free (p_lock (k_proc s p))" and "noff (mycpu s) = 0"
  shows "\<exists>ia t s'. yield_out s = Ok (ia, t) \<and> holding_l (ProcLock p) t \<and> scheduler_resume p t = Ok s' \<and>
    k_proc s' = (k_proc s)(p := (k_proc s p)\<lparr>p_state := RUNNABLE\<rparr>) \<and>
    mycpu s' = (mycpu s)\<lparr>c_proc := None, intena := sie (mycpu s)\<rparr>"
proof -
  let ?t = "upd_p p (\<lambda>p. p\<lparr>p_state := RUNNABLE\<rparr>) (put_lock (ProcLock p)
    (held_by (k_hart s) (p_lock (k_proc s p))) (set_cpu (push_off (mycpu s)) s))"
  have "yield_out s = Ok (sie (mycpu s), ?t)"
    using sched_hand_over(1) [OF assms lock_blind_state(1) [of RUNNABLE] _ refl] assms(1,2)
      acquire_free [of "ProcLock p" s] by (simp add: yield_out_def with_proc_def del: put_lock.simps)
  moreover have "scheduler_resume p ?t = Ok (switched_out p (\<lambda>p. p\<lparr>p_state := RUNNABLE\<rparr>) s)"
    by (rule sched_hand_over(2) [OF assms lock_blind_state(1) [of RUNNABLE] _ refl]) simp
  moreover have "holding_l (ProcLock p) ?t" by (simp add: holding_l_def holding_def held_by_def)
  moreover have "(bump (mycpu s))\<lparr>c_proc := None\<rparr> = (mycpu s)\<lparr>c_proc := None, intena := sie (mycpu s)\<rparr>"
    using assms(3) by (cases "mycpu s") (simp add: bump_def)
  ultimately show ?thesis by (auto simp: switched_out_def)
qed

definition demo_running :: kstate where
  "demo_running = upd_p 5 (\<lambda>p. p\<lparr>p_state := RUNNING\<rparr>) (set_cpu ((mycpu demo_sched)\<lparr>c_proc := Some 5\<rparr>) demo_sched)"

theorem yield_returns_cpu_to_scheduler_witness:
  "\<exists>ia t s'. yield_out demo_running = Ok (ia, t) \<and> scheduler_resume 5 t = Ok s' \<and>
    p_state (k_proc s' 5) = RUNNABLE"
proof -
  have "myproc demo_running = Some 5" "lock_free (p_lock (k_proc demo_running 5))" "noff (mycpu demo_running) = 0"
    using demo_sched_free by (simp_all add: demo_running_def myproc_def NPROC_def)
  from yield_returns_cpu_to_scheduler [OF this] show ?thesis by auto
qed

end
