(* ===== verification/Clock.thy ===== *)
theory Clock
  imports Sched
begin

text \<open>
  The clock interrupt of \<open>kernel/trap.c\<close> in the \<open>PBS\<close> build: \<open>clockintr\<close> counts the tick, updates
  the processes' times and recomputes the recent behaviour interval and the dynamic priority of
  every process, in the 32-bit arithmetic of the code: \<open>3 * rntime - stime - wtime\<close> is unsigned and
  converted to \<open>int\<close>, the division truncates towards zero, and \<open>sp + rbi\<close> is unsigned.
\<close>

definition c_div :: "int \<Rightarrow> int \<Rightarrow> int" where
  "c_div a b = sgn a * sgn b * (\<bar>a\<bar> div \<bar>b\<bar>)"

definition pbs_rbi :: "proc \<Rightarrow> u32" where
  "pbs_rbi p =
     (if p_rntime p = 0 \<and> p_wtime p = 0 \<and> p_stime p = 0 then PBS_DEF_RBI
      else let num = 3 * p_rntime p - p_stime p - p_wtime p;
               den = p_rntime p + p_stime p + p_wtime p + 1;
               q = c_div (sint (num * 50)) (sint den)
           in if 0 > q then 0 else of_int q)"

definition pbs_update :: "proc \<Rightarrow> proc" where
  "pbs_update p =
     (if p_state p = UNUSED then p
      else let p = p\<lparr>p_rbi := pbs_rbi p\<rparr>
           in p\<lparr>p_dp := (if 100 < p_sp p + p_rbi p then 100 else p_sp p + p_rbi p)\<rparr>)"

definition clockintr :: "'z kstate_scheme \<Rightarrow> 'z kstate_scheme outcome" where
  "clockintr s =
     obind (acquire_l TicksLock s) (\<lambda>s.
     obind (update_time (s\<lparr>ticks := ticks s + 1\<rparr>)) (\<lambda>s.
     obind (wakeup (Some TicksChan) (fold (\<lambda>i. upd_p i pbs_update) [0..<NPROC] s)) (\<lambda>s.
     release_l TicksLock s)))"

section \<open>Arithmetic of the recent behaviour interval\<close>

lemma sint_of_int32:
  assumes "- (2 ^ 31) \<le> x" "x < 2 ^ 31"
  shows "sint (of_int x :: u32) = x"
  using assms by (simp add: signed_of_int signed_take_bit_int_eq_self)

text \<open>The exact quotient, which the code computes as long as the counters are below ten million.\<close>

definition rbi_spec :: "int \<Rightarrow> int \<Rightarrow> int \<Rightarrow> int" where
  "rbi_spec r s w =
     (if r = 0 \<and> w = 0 \<and> s = 0 then 25
      else max 0 (c_div (50 * (3 * r - s - w)) (r + s + w + 1)))"

lemma c_div_pos: "0 < b \<Longrightarrow> 0 \<le> a \<Longrightarrow> c_div a b = a div b"
  by (cases "a = 0") (simp_all add: c_div_def)

lemma c_div_neg: "0 < b \<Longrightarrow> a < 0 \<Longrightarrow> c_div a b \<le> 0"
  by (simp add: c_div_def pos_imp_zdiv_nonneg_iff)

lemma div_less_bound:
  fixes a b k :: int
  assumes "0 < b" "a < k * b"
  shows "a div b < k"
proof (rule ccontr)
  assume "\<not> ?thesis"
  then have "k * b \<le> a div b * b" using assms(1) by (intro mult_right_mono) auto
  also have "\<dots> \<le> a" using assms(1) pos_mod_sign [of b a] minus_mod_eq_div_mult [of a b] by linarith
  finally show False using assms(2) by simp
qed

lemma rbi_spec_bounds:
  assumes "0 \<le> r" "0 \<le> s" "0 \<le> w"
  shows "0 \<le> rbi_spec r s w" "rbi_spec r s w < 150"
proof -
  have "c_div (50 * (3 * r - s - w)) (r + s + w + 1) < 150"
  proof (cases "0 \<le> 3 * r - s - w")
    case True
    have "50 * (3 * r - s - w) < 150 * (r + s + w + 1)" using assms by simp
    then have "50 * (3 * r - s - w) div (r + s + w + 1) < 150"
      using assms by (intro div_less_bound) simp_all
    then show ?thesis using True assms by (subst c_div_pos) simp_all
  next
    case False
    then show ?thesis using c_div_neg [of "r + s + w + 1" "50 * (3 * r - s - w)"] assms by simp
  qed
  then show "0 \<le> rbi_spec r s w" "rbi_spec r s w < 150" by (simp_all add: rbi_spec_def)
qed

lemma counter_range:
  fixes r s w :: int
  assumes "0 \<le> r" "0 \<le> s" "0 \<le> w" "r + s + w < 10000000"
  shows "- (2 ^ 31) \<le> 50 * (3 * r - s - w)" "50 * (3 * r - s - w) < 2 ^ 31"
    "- (2 ^ 31) \<le> r + s + w + 1" "r + s + w + 1 < 2 ^ 31"
  using assms by simp_all

lemma pbs_rbi_exact:
  assumes "unat (p_rntime p) + unat (p_stime p) + unat (p_wtime p) < 10000000"
  shows "pbs_rbi p = of_int (rbi_spec (uint (p_rntime p)) (uint (p_stime p)) (uint (p_wtime p)))"
proof -
  let ?r = "uint (p_rntime p)" and ?s = "uint (p_stime p)" and ?w = "uint (p_wtime p)"
  have nn: "0 \<le> ?r" "0 \<le> ?s" "0 \<le> ?w" by simp_all
  have u: "?r = int (unat (p_rntime p))" "?s = int (unat (p_stime p))" "?w = int (unat (p_wtime p))"
    by (simp_all only: uint_nat)
  have b: "?r + ?s + ?w < 10000000" using assms unfolding u by linarith
  have "(3 * p_rntime p - p_stime p - p_wtime p) * 50 = of_int (50 * (3 * ?r - ?s - ?w))"
    by (simp add: mult.commute)
  moreover have "sint (of_int (50 * (3 * ?r - ?s - ?w)) :: u32) = 50 * (3 * ?r - ?s - ?w)"
    by (rule sint_of_int32 [OF counter_range(1,2) [OF nn b]])
  ultimately have n: "sint ((3 * p_rntime p - p_stime p - p_wtime p) * 50) = 50 * (3 * ?r - ?s - ?w)"
    by (simp only:)
  have "p_rntime p + p_stime p + p_wtime p + 1 = of_int (?r + ?s + ?w + 1)"
    by (simp add: of_int_add)
  moreover have "sint (of_int (?r + ?s + ?w + 1) :: u32) = ?r + ?s + ?w + 1"
    by (rule sint_of_int32 [OF counter_range(3,4) [OF nn b]])
  ultimately have d: "sint (p_rntime p + p_stime p + p_wtime p + 1) = ?r + ?s + ?w + 1"
    by (simp only:)
  have z: "p_rntime p = 0 \<longleftrightarrow> ?r = 0" "p_wtime p = 0 \<longleftrightarrow> ?w = 0" "p_stime p = 0 \<longleftrightarrow> ?s = 0"
    by (simp_all add: uint_0_iff)
  show ?thesis
    unfolding pbs_rbi_def rbi_spec_def Let_def n d z by (simp add: PBS_DEF_RBI_def max_def)
qed

section \<open>The interrupt\<close>

lemma fold_upd_p: "distinct is \<Longrightarrow> fold (\<lambda>i. upd_p i f) is s = map_procs is (\<lambda>_. f) s"
proof (induction "is" arbitrary: s)
  case Nil
  then show ?case by simp
next
  case (Cons i "is")
  then show ?case using map_procs_step [of i "is" "\<lambda>_. f" "mycpu s" s] by simp
qed

text \<open>What one tick does to a process.\<close>

definition clock_proc :: "proc \<Rightarrow> proc" where
  "clock_proc p = wake_proc (Some TicksChan) (pbs_update (tick_proc p))"

lemma map_procs_map_procs: "map_procs is f (map_procs is g s) = map_procs is (\<lambda>i. f i \<circ> g i) s"
  by (simp add: map_procs_def cong: if_cong)

lemma lock_p_updates [simp]: "p_lock (tick_proc p) = p_lock p" "p_lock (pbs_update p) = p_lock p"
  by (simp_all add: tick_proc_def pbs_update_def Let_def)

lemma ticks_set_cpu [simp]: "ticks (set_cpu c s) = ticks s"
  by (simp add: set_cpu_def)

lemma acquire_ticks:
  "lock_free (tickslock s) \<Longrightarrow>
     acquire_l TicksLock s = Ok ((set_cpu (push_off (mycpu s)) s)\<lparr>tickslock := held_by (k_hart s) (tickslock s)\<rparr>)"
  by (simp add: acquire_free)

lemma clockintr_spec:
  assumes fr: "\<forall>i<NPROC. lock_free (p_lock (k_proc s i))" "lock_free (tickslock s)"
    and c: "cpu_ok (mycpu s)" and me: "myproc s = None \<or> (\<exists>p. myproc s = Some p \<and> p_state (k_proc s p) = RUNNING)"
  shows "\<exists>s'. clockintr s = Ok s' \<and> ticks s' = ticks s + 1 \<and>
    (\<forall>i. k_proc s' i = (if i < NPROC then clock_proc (k_proc s i) else k_proc s i)) \<and>
    mycpu s' = bump (mycpu s) \<and> tickslock s' = tickslock s"
proof -
  let ?T = "[0..<NPROC]"
  define a where "a = (set_cpu (push_off (mycpu s)) s)\<lparr>tickslock := held_by (k_hart s) (tickslock s), ticks := ticks s + 1\<rparr>"
  have ca: "mycpu a = push_off (mycpu s)" "k_hart a = k_hart s" "k_proc a = k_proc s" "tickslock a = held_by (k_hart s) (tickslock s)"
    by (simp_all add: a_def mycpu_def set_cpu_def)
  have pos: "0 < noff (mycpu a)" "cpu_ok (mycpu a)" using c ca(1) by (auto simp: push_off_def cpu_ok_def Let_def)
  then have ba: "bump (mycpu a) = mycpu a" by (simp add: bump_def)
  have "table_ok (filter (\<lambda>i. \<not> False) ?T) a" using fr(1) pos ca by (auto simp: table_ok_def)
  then have u: "update_time a = Ok (map_procs ?T (\<lambda>_. tick_proc) a)"
    using ut.run [of ?T a] ba by (auto simp: update_time_def)
  define b where "b = map_procs ?T (\<lambda>_. pbs_update \<circ> tick_proc) a"
  have fb: "fold (\<lambda>i. upd_p i pbs_update) ?T (map_procs ?T (\<lambda>_. tick_proc) a) = b"
    by (simp add: fold_upd_p map_procs_map_procs b_def)
  have cb: "mycpu b = mycpu a" "myproc b = myproc s" "tickslock b = held_by (k_hart s) (tickslock s)" "k_hart b = k_hart s"
    using ca by (simp_all add: b_def myproc_def map_procs_def mycpu_def push_off_def Let_def set_cpu_def a_def)
  have pb: "k_proc b i = (if i < NPROC then pbs_update (tick_proc (k_proc s i)) else k_proc s i)" for i
    by (simp add: b_def map_procs_def ca)
  have "table_ok (filter (\<lambda>i. Some i \<noteq> myproc b) ?T) b" using fr(1) pos cb pb by (auto simp: table_ok_def)
  then have w: "wakeup (Some TicksChan) b = Ok (map_procs (filter (\<lambda>i. Some i \<noteq> myproc b) ?T) (\<lambda>_. wake_proc (Some TicksChan)) b)"
    using wk.run [of ?T b "Some TicksChan"] ba cb mycpu_simps(9) [of b] by (auto simp: wakeup_def)
  define d where "d = map_procs (filter (\<lambda>i. Some i \<noteq> myproc b) ?T) (\<lambda>_. wake_proc (Some TicksChan)) b"
  have cd: "mycpu d = push_off (mycpu s)" "k_hart d = k_hart s" "tickslock d = held_by (k_hart s) (tickslock s)"
    using ca cb by (simp_all add: d_def map_procs_def mycpu_def)
  have "release_l TicksLock d = Ok (put_lock TicksLock (tickslock s) (set_cpu (bump (mycpu s)) d))"
    by (rule release_held) (use cd fr c in simp_all)
  then have "clockintr s = Ok ((set_cpu (bump (mycpu s)) d)\<lparr>tickslock := tickslock s\<rparr>)"
    using acquire_ticks [OF fr(2)] u fb w by (simp add: clockintr_def a_def d_def)
  moreover have "ticks d = ticks s + 1" by (simp add: d_def b_def map_procs_def a_def)
  moreover have "k_proc d i = (if i < NPROC then clock_proc (k_proc s i) else k_proc s i)" for i
  proof -
    have "wake_proc (Some TicksChan) (pbs_update (tick_proc (k_proc s i))) = pbs_update (tick_proc (k_proc s i))"
      if "myproc s = Some i"
      using that me by (auto simp: wake_proc_def pbs_update_def tick_proc_def Let_def)
    then show ?thesis using pb [of i] cb(2) by (auto simp: d_def map_procs_def clock_proc_def)
  qed
  ultimately show ?thesis by (auto simp: set_cpu_def mycpu_def)
qed

section \<open>Properties\<close>



end
