(* ===== verification/Ring.thy ===== *)
theory Ring
  imports Prelude
begin

text \<open>
  Ring buffers with free-running word counters, as \<open>pipe.c\<close>, \<open>uart.c\<close> and \<open>console.c\<close> use them: the
  element with counter value \<open>w\<close> is at index \<open>w mod N\<close>, the buffer holds the counters from \<open>r\<close> to
  \<open>w - 1\<close>, and the counters wrap around at their width. \<open>ring\<close> is the sequence a buffer holds;
  putting and getting act on it as on a queue as long as \<open>N\<close> divides the range of the counters,
  also when a counter wraps. The locale \<open>byte_queue\<close> is the interface the components promise.
\<close>

section \<open>Contents of a ring\<close>

definition ring :: "nat \<Rightarrow> (nat \<Rightarrow> 'b) \<Rightarrow> 'a::len word \<Rightarrow> 'a word \<Rightarrow> 'b list" where
  "ring N d r w = map (\<lambda>k. d ((unat r + k) mod N)) [0..<unat (w - r)]"

lemma length_ring [simp]: "length (ring N d r w) = unat (w - r)"
  by (simp add: ring_def)

lemma ring_empty_iff: "ring N d r w = [] \<longleftrightarrow> r = w"
  by (auto simp: ring_def unat_eq_0)

lemma unat_step_Suc:
  fixes r w :: "'a::len word"
  assumes "Suc (unat (w - r)) < 2 ^ LENGTH('a)"
  shows "unat (w + 1 - r) = Suc (unat (w - r))"
proof -
  have "w + 1 - r = (w - r) + 1" by simp
  then have "unat (w + 1 - r) = (unat (w - r) + 1) mod 2 ^ LENGTH('a)"
    using unat_word_ariths(1) [of "w - r" 1] by (metis unat_1)
  then show ?thesis using assms by simp
qed

lemma index_of_counter:
  fixes r w :: "'a::len word"
  assumes "N dvd 2 ^ LENGTH('a)"
  shows "unat w mod N = (unat r + unat (w - r)) mod N"
proof -
  have "unat w = (unat r + unat (w - r)) mod 2 ^ LENGTH('a)"
    using unat_word_ariths(1) [of r "w - r"] by simp
  then show ?thesis using mod_mod_cancel [OF assms] by metis
qed

text \<open>Putting an element.\<close>

lemma ring_put:
  fixes r w :: "'a::len word"
  assumes N: "N dvd 2 ^ LENGTH('a)" "N < 2 ^ LENGTH('a)" and free: "unat (w - r) < N"
  shows "ring N (d(unat w mod N := c)) r (w + 1) = ring N d r w @ [c]"
proof -
  let ?n = "unat (w - r)"
  have n: "unat (w + 1 - r) = Suc ?n" using free N(2) by (intro unat_step_Suc) simp
  have i: "unat w mod N = (unat r + ?n) mod N" by (rule index_of_counter [OF N(1)])
  have "(unat r + k) mod N \<noteq> (unat r + ?n) mod N" if "k < ?n" for k
  proof
    assume "(unat r + k) mod N = (unat r + ?n) mod N"
    then have "N dvd (unat r + ?n) - (unat r + k)" using that by (intro mod_eq_dvd_iff_nat [THEN iffD1]) auto
    then have "N dvd ?n - k" by simp
    then have "N \<le> ?n - k" using that by (intro dvd_imp_le) auto
    then show False using free by simp
  qed
  then show ?thesis by (simp add: ring_def n i)
qed

text \<open>Getting one.\<close>

lemma ring_get:
  fixes r w :: "'a::len word"
  assumes N: "N dvd 2 ^ LENGTH('a)" and ne: "r \<noteq> w"
  shows "ring N d r w = d (unat r mod N) # ring N d (r + 1) w"
proof -
  let ?n = "unat (w - r)"
  have pos: "0 < ?n" using ne by (simp add: unat_gt_0)
  have "w - (r + 1) = (w - r) - 1" by simp
  moreover have "w - r \<noteq> 0" using ne by simp
  ultimately have n: "unat (w - (r + 1)) = ?n - 1" by (metis unat_minus_one)
  have "(unat (r + 1) + k) mod N = (unat r + Suc k) mod N" for k
  proof -
    have "unat (r + 1) mod N = (unat r + 1) mod N"
      using index_of_counter [OF N, of "r + 1" r] by (metis One_nat_def add_diff_cancel_left' mod_mod_cancel [OF N] unat_1 unat_word_ariths(1))
    then show ?thesis by (metis add_Suc_right add_Suc_shift mod_add_left_eq plus_1_eq_Suc add.commute)
  qed
  moreover have "[0..<?n] = 0 # map Suc [0..<?n - 1]"
    using pos by (simp add: map_Suc_upt upt_conv_Cons)
  ultimately show ?thesis unfolding ring_def n by (simp add: comp_def)
qed

section \<open>Queues\<close>

locale byte_queue =
  fixes put :: "'b \<Rightarrow> 'q \<Rightarrow> 'q" and get :: "'q \<Rightarrow> 'b \<times> 'q"
    and full :: "'q \<Rightarrow> bool" and emp :: "'q \<Rightarrow> bool"
    and inv :: "'q \<Rightarrow> bool" and contents :: "'q \<Rightarrow> 'b list" and cap :: nat
  assumes cap_bound: "inv q \<Longrightarrow> length (contents q) \<le> cap"
    and full_iff: "inv q \<Longrightarrow> full q \<longleftrightarrow> length (contents q) = cap"
    and emp_iff: "inv q \<Longrightarrow> emp q \<longleftrightarrow> contents q = []"
    and put_law: "inv q \<Longrightarrow> \<not> full q \<Longrightarrow> inv (put c q) \<and> contents (put c q) = contents q @ [c]"
    and get_law: "inv q \<Longrightarrow> \<not> emp q \<Longrightarrow> inv (snd (get q)) \<and> contents q = fst (get q) # contents (snd (get q))"
begin

primrec get_many :: "nat \<Rightarrow> 'q \<Rightarrow> 'b list" where
  "get_many 0 q = []"
| "get_many (Suc n) q = fst (get q) # get_many n (snd (get q))"

lemma put_many:
  "inv q \<Longrightarrow> length (contents q) + length cs \<le> cap \<Longrightarrow>
     inv (fold put cs q) \<and> contents (fold put cs q) = contents q @ cs"
proof (induction cs arbitrary: q)
  case Nil
  then show ?case by simp
next
  case (Cons c cs)
  have "\<not> full q" using Cons.prems by (simp add: full_iff)
  then have p: "inv (put c q)" "contents (put c q) = contents q @ [c]" using put_law Cons.prems(1) by blast+
  then show ?case using Cons.IH [of "put c q"] Cons.prems(2) by simp
qed

lemma get_many_contents: "inv q \<Longrightarrow> n \<le> length (contents q) \<Longrightarrow> get_many n q = take n (contents q)"
proof (induction n arbitrary: q)
  case 0
  then show ?case by simp
next
  case (Suc n)
  then have "\<not> emp q" by (auto simp: emp_iff)
  then have g: "inv (snd (get q))" "contents q = fst (get q) # contents (snd (get q))"
    using get_law Suc.prems(1) by blast+
  then have "n \<le> length (contents (snd (get q)))" using Suc.prems(2) by (metis Suc_le_mono length_Cons)
  then show ?case using Suc.IH [OF g(1)] g(2) by (metis get_many.simps(2) take_Suc_Cons)
qed

lemma fifo:
  "inv q \<Longrightarrow> contents q = [] \<Longrightarrow> length cs \<le> cap \<Longrightarrow> get_many (length cs) (fold put cs q) = cs"
  using put_many [of q cs] get_many_contents [of "fold put cs q" "length cs"] by simp

end

end
