(* ===== verification/Pipe.thy ===== *)
theory Pipe
  imports Sched Ring
begin

text \<open>
  \<open>kernel/pipe.c\<close>: a ring buffer with 32-bit counters that are never reset. A \<open>struct pipe *\<close> is
  the address of the page that \<open>kalloc\<close> returned for it; \<open>pipes\<close> is the typed view of those pages.
  \<open>pipewrite\<close> and \<open>piperead\<close> either return (\<open>Inr\<close>) or call \<open>sleep\<close> (\<open>Inl\<close> of the local variables
  and the saved \<open>intena\<close>) and continue, after the switch back, with the next iteration.
  \<open>pipealloc\<close> is in the theory \<open>File\<close>.
\<close>

section \<open>State\<close>

definition PIPESIZE :: nat where "PIPESIZE = 512"

record pipe =
  pi_lock :: spinlock
  pi_data :: "nat \<Rightarrow> u8"
  nread :: u32
  nwrite :: u32
  readopen :: bool
  writeopen :: bool

record pstate = kstate +
  pipes :: "u64 \<Rightarrow> pipe"

definition upd_pi :: "u64 \<Rightarrow> (pipe \<Rightarrow> pipe) \<Rightarrow> 'z pstate_scheme \<Rightarrow> 'z pstate_scheme" where
  "upd_pi a f s = s\<lparr>pipes := (pipes s)(a := f (pipes s a))\<rparr>"

definition acquire_pi :: "u64 \<Rightarrow> 'z pstate_scheme \<Rightarrow> 'z pstate_scheme outcome" where
  "acquire_pi a s = obind (acquire (k_hart s) (mycpu s) (pi_lock (pipes s a))) (\<lambda>(c, lk).
     Ok (upd_pi a (\<lambda>pi. pi\<lparr>pi_lock := lk\<rparr>) (set_cpu c s)))"

definition release_pi :: "u64 \<Rightarrow> 'z pstate_scheme \<Rightarrow> 'z pstate_scheme outcome" where
  "release_pi a s = obind (release (k_hart s) (mycpu s) (pi_lock (pipes s a))) (\<lambda>(c, lk).
     Ok (upd_pi a (\<lambda>pi. pi\<lparr>pi_lock := lk\<rparr>) (set_cpu c s)))"

section \<open>The ring buffer\<close>

definition pipe_full :: "pipe \<Rightarrow> bool" where
  "pipe_full pi \<longleftrightarrow> nwrite pi = nread pi + of_nat PIPESIZE"

definition pipe_empty :: "pipe \<Rightarrow> bool" where
  "pipe_empty pi \<longleftrightarrow> nread pi = nwrite pi"

definition put_byte :: "u8 \<Rightarrow> pipe \<Rightarrow> pipe" where
  "put_byte c pi = pi\<lparr>pi_data := (pi_data pi)(unat (nwrite pi mod of_nat PIPESIZE) := c), nwrite := nwrite pi + 1\<rparr>"

definition get_byte :: "pipe \<Rightarrow> u8 \<times> pipe" where
  "get_byte pi = (pi_data pi (unat (nread pi mod of_nat PIPESIZE)), pi\<lparr>nread := nread pi + 1\<rparr>)"

section \<open>pipe.c\<close>

definition pipeclose :: "u64 \<Rightarrow> bool \<Rightarrow> 'z pstate_scheme \<Rightarrow> 'z pstate_scheme outcome" where
  "pipeclose a writable s =
     obind (acquire_pi a s) (\<lambda>s.
     obind (if writable then wakeup (Some (PipeRead a)) (upd_pi a (\<lambda>pi. pi\<lparr>writeopen := False\<rparr>) s)
            else wakeup (Some (PipeWrite a)) (upd_pi a (\<lambda>pi. pi\<lparr>readopen := False\<rparr>) s)) (\<lambda>s.
       if \<not> readopen (pipes s a) \<and> \<not> writeopen (pipes s a)
       then obind (release_pi a s) (on_memu (kfree a))
       else release_pi a s))"

text \<open>The loop of \<open>pipewrite\<close> with \<open>k = n - i\<close> bytes left.\<close>

primrec pipewrite_loop ::
    "nat \<Rightarrow> nat \<Rightarrow> u64 \<Rightarrow> u64 \<Rightarrow> 'z pstate_scheme \<Rightarrow> ((nat \<times> bool + int) \<times> 'z pstate_scheme) outcome" where
  "pipewrite_loop 0 i a addr s =
     obind (wakeup (Some (PipeRead a)) s) (\<lambda>s.
     obind (release_pi a s) (\<lambda>s. Ok (Inr (int i), s)))"
| "pipewrite_loop (Suc k) i a addr s = with_proc s (\<lambda>pr.
     obind (if \<not> readopen (pipes s a) then Ok (True, s) else killed pr s) (\<lambda>(stop, s).
       if stop then obind (release_pi a s) (\<lambda>s. Ok (Inr (- 1), s))
       else if pipe_full (pipes s a)
       then obind (wakeup (Some (PipeRead a)) s) (\<lambda>s.
            obind (sleep_out_with (PipeWrite a) (release_pi a) s) (\<lambda>(ia, s). Ok (Inl (i, ia), s)))
       else obind (copyin (p_pagetable (k_proc s pr)) (addr + of_nat i) 1 (k_mem s)) (\<lambda>(r, bs).
              if r = - 1
              then obind (wakeup (Some (PipeRead a)) s) (\<lambda>s.
                   obind (release_pi a s) (\<lambda>s. Ok (Inr (int i), s)))
              else pipewrite_loop k (Suc i) a addr (upd_pi a (put_byte (hd bs)) s))))"

definition pipewrite :: "u64 \<Rightarrow> u64 \<Rightarrow> int \<Rightarrow> 'z pstate_scheme \<Rightarrow> ((nat \<times> bool + int) \<times> 'z pstate_scheme) outcome" where
  "pipewrite a addr n s = obind (acquire_pi a s) (pipewrite_loop (nat n) 0 a addr)"

definition pipewrite_resume ::
    "u64 \<Rightarrow> u64 \<Rightarrow> int \<Rightarrow> nat \<Rightarrow> bool \<Rightarrow> 'z pstate_scheme \<Rightarrow> ((nat \<times> bool + int) \<times> 'z pstate_scheme) outcome" where
  "pipewrite_resume a addr n i ia s =
     obind (sleep_in_with ia (acquire_pi a) s) (pipewrite_loop (nat n - i) i a addr)"

primrec piperead_copy :: "nat \<Rightarrow> nat \<Rightarrow> u64 \<Rightarrow> u64 \<Rightarrow> 'z pstate_scheme \<Rightarrow> (nat \<times> 'z pstate_scheme) outcome" where
  "piperead_copy 0 i a addr s = Ok (i, s)"
| "piperead_copy (Suc k) i a addr s =
     (if pipe_empty (pipes s a) then Ok (i, s)
      else let (c, pi) = get_byte (pipes s a); s = upd_pi a (\<lambda>_. pi) s
           in with_proc s (\<lambda>pr.
              obind (on_mem (copyout (p_pagetable (k_proc s pr)) (addr + of_nat i) [c]) s) (\<lambda>(r, s).
                if r = - 1 then Ok (i, s) else piperead_copy k (Suc i) a addr s)))"

definition piperead_iter :: "u64 \<Rightarrow> u64 \<Rightarrow> int \<Rightarrow> 'z pstate_scheme \<Rightarrow> ((bool + int) \<times> 'z pstate_scheme) outcome" where
  "piperead_iter a addr n s =
     (if pipe_empty (pipes s a) \<and> writeopen (pipes s a)
      then with_proc s (\<lambda>pr. obind (killed pr s) (\<lambda>(k, s).
             if k then obind (release_pi a s) (\<lambda>s. Ok (Inr (- 1), s))
             else obind (sleep_out_with (PipeRead a) (release_pi a) s) (\<lambda>(ia, s). Ok (Inl ia, s))))
      else obind (piperead_copy (nat n) 0 a addr s) (\<lambda>(i, s).
           obind (wakeup (Some (PipeWrite a)) s) (\<lambda>s.
           obind (release_pi a s) (\<lambda>s. Ok (Inr (int i), s)))))"

definition piperead :: "u64 \<Rightarrow> u64 \<Rightarrow> int \<Rightarrow> 'z pstate_scheme \<Rightarrow> ((bool + int) \<times> 'z pstate_scheme) outcome" where
  "piperead a addr n s = obind (acquire_pi a s) (piperead_iter a addr n)"

definition piperead_resume ::
    "u64 \<Rightarrow> u64 \<Rightarrow> int \<Rightarrow> bool \<Rightarrow> 'z pstate_scheme \<Rightarrow> ((bool + int) \<times> 'z pstate_scheme) outcome" where
  "piperead_resume a addr n ia s = obind (sleep_in_with ia (acquire_pi a) s) (piperead_iter a addr n)"

section \<open>The pipe as a queue\<close>

definition pipe_contents :: "pipe \<Rightarrow> u8 list" where
  "pipe_contents pi = ring PIPESIZE (pi_data pi) (nread pi) (nwrite pi)"

definition pipe_inv :: "pipe \<Rightarrow> bool" where
  "pipe_inv pi \<longleftrightarrow> unat (nwrite pi - nread pi) \<le> PIPESIZE"

lemma PIPESIZE_divides: "PIPESIZE dvd 2 ^ LENGTH(32)" "PIPESIZE < 2 ^ LENGTH(32)"
  by (simp_all add: PIPESIZE_def)

lemma pipe_index: "unat ((w :: u32) mod of_nat PIPESIZE) = unat w mod PIPESIZE"
  by (simp add: PIPESIZE_def unat_mod)

lemma pipe_full_length: "pipe_full pi \<longleftrightarrow> unat (nwrite pi - nread pi) = PIPESIZE"
proof -
  have "pipe_full pi \<longleftrightarrow> nwrite pi - nread pi = of_nat PIPESIZE"
    by (auto simp: pipe_full_def algebra_simps)
  also have "\<dots> \<longleftrightarrow> unat (nwrite pi - nread pi) = PIPESIZE"
    by (auto simp: PIPESIZE_def word_unat_eq_iff)
  finally show ?thesis .
qed

interpretation pq: byte_queue put_byte get_byte pipe_full pipe_empty pipe_inv pipe_contents PIPESIZE
proof (unfold_locales, goal_cases)
  case (4 q c)
  then have lt: "unat (nwrite q - nread q) < PIPESIZE" by (simp add: pipe_inv_def pipe_full_length)
  have "unat (nwrite q + 1 - nread q) = Suc (unat (nwrite q - nread q))"
    using lt by (intro unat_step_Suc) (simp add: PIPESIZE_def)
  then show ?case
    using ring_put [OF PIPESIZE_divides lt, of "pi_data q" c] lt
    by (simp add: pipe_inv_def pipe_contents_def put_byte_def pipe_index)
next
  case (5 q)
  then have ne: "nread q \<noteq> nwrite q" by (simp add: pipe_empty_def)
  note g = ring_get [OF PIPESIZE_divides(1) ne, of "pi_data q"]
  have "unat (nwrite q - (nread q + 1)) \<le> PIPESIZE"
    using arg_cong [OF g, of length] 5(1) by (simp add: pipe_inv_def)
  then show ?case
    using g by (simp add: pipe_inv_def pipe_contents_def get_byte_def pipe_index)
qed (auto simp: pipe_inv_def pipe_contents_def pipe_full_length pipe_empty_def ring_empty_iff)

section \<open>Reading and writing\<close>

text \<open>The system calls' pointer arithmetic: what the copies of single bytes do when none fails.\<close>

lemma upd_pi_simps [simp]:
  "k_proc (upd_pi a f s) = k_proc s" "k_mem (upd_pi a f s) = k_mem s" "mycpu (upd_pi a f s) = mycpu s"
  "k_hart (upd_pi a f s) = k_hart s" "pipes (upd_pi a f s) = (pipes s)(a := f (pipes s a))"
  by (simp_all add: upd_pi_def mycpu_def)

text \<open>The part of \<open>piperead\<close> that copies bytes out takes them from the front of the queue.\<close>

lemma piperead_copy_takes:
  "piperead_copy k i a addr s = Ok (j, s') \<Longrightarrow> pipe_inv (pipes s a) \<Longrightarrow>
     pipe_inv (pipes s' a) \<and> i \<le> j \<and> j \<le> i + k \<and>
     (\<exists>n. (n = j - i \<or> n = Suc (j - i) \<and> j < i + k) \<and> n \<le> length (pipe_contents (pipes s a)) \<and>
        pipe_contents (pipes s' a) = drop n (pipe_contents (pipes s a)))"
proof (induction k arbitrary: i s)
  case 0
  then show ?case by auto
next
  case (Suc k)
  show ?case
  proof (cases "pipe_empty (pipes s a)")
    case True
    then show ?thesis using Suc.prems by auto
  next
    case False
    obtain c pi where g: "get_byte (pipes s a) = (c, pi)" by fastforce
    let ?t = "upd_pi a (\<lambda>_. pi) s"
    have q: "pipe_inv pi" "pipe_contents (pipes s a) = c # pipe_contents pi"
      using pq.get_law [OF Suc.prems(2) False] g by simp_all
    obtain pr where pr: "myproc ?t = Some pr"
      using Suc.prems(1) False g by (auto simp: with_proc_def Let_def split: option.splits)
    obtain r u where u: "on_mem (copyout (p_pagetable (k_proc s pr)) (addr + of_nat i) [c]) ?t = Ok (r, u)"
      using Suc.prems(1) False g pr by (auto simp: with_proc_def outcome_simps Let_def)
    then have pu: "pipes u = pipes ?t" by (auto simp: on_mem_def outcome_simps)
    have st: "(if r = - 1 then Ok (i, u) else piperead_copy k (Suc i) a addr u) = Ok (j, s')"
      using Suc.prems(1) False g pr u by (simp add: with_proc_def Let_def)
    show ?thesis
    proof (cases "r = - 1")
      case True
      then show ?thesis using st pu q by (intro conjI exI [of _ 1]) auto
    next
      case False
      then have ih: "pipe_inv (pipes s' a) \<and> Suc i \<le> j \<and> j \<le> Suc i + k \<and>
         (\<exists>n. (n = j - Suc i \<or> n = Suc (j - Suc i) \<and> j < Suc i + k) \<and> n \<le> length (pipe_contents (pipes u a)) \<and>
          pipe_contents (pipes s' a) = drop n (pipe_contents (pipes u a)))"
        using st pu q by (intro Suc.IH) auto
      then obtain n where n: "n = j - Suc i \<or> n = Suc (j - Suc i) \<and> j < Suc i + k" "n \<le> length (pipe_contents pi)"
          "pipe_contents (pipes s' a) = drop n (pipe_contents pi)" using pu by auto
      then show ?thesis using ih q(2) by (intro conjI exI [of _ "Suc n"]) auto
    qed
  qed
qed

text \<open>What lock operations and \<open>wakeup\<close> leave alone.\<close>

lemma pipes_put_lock [simp]: "pipes (put_lock r lk s) = pipes s" "k_mem (put_lock r lk s) = k_mem s"
  by (cases r; simp add: upd_p_def)+

lemma pipes_set_cpu [simp]: "pipes (set_cpu c s) = pipes s" "k_mem (set_cpu c s) = k_mem s"
  by (simp_all add: set_cpu_def)

lemma pipes_upd_p [simp]: "pipes (upd_p i f s) = pipes s" "k_mem (upd_p i f s) = k_mem s"
  by (simp_all add: upd_p_def)

lemma acquire_l_frame: "acquire_l r s = Ok s' \<Longrightarrow> pipes s' = pipes s \<and> k_mem s' = k_mem s \<and> myproc s' = myproc s"
  by (auto simp: acquire_l_def acquire_def push_off_def Let_def outcome_simps myproc_def split: if_splits)

lemma release_l_frame: "release_l r s = Ok s' \<Longrightarrow> pipes s' = pipes s \<and> k_mem s' = k_mem s \<and> myproc s' = myproc s"
  by (auto simp: release_l_def release_def pop_off_def Let_def outcome_simps myproc_def split: if_splits)

lemma wakeup_loop_frame:
  "wakeup_loop is ch s = Ok s' \<Longrightarrow> pipes s' = pipes s \<and> k_mem s' = k_mem s"
proof (induction "is" arbitrary: s)
  case Nil
  then show ?case by simp
next
  case (Cons i "is")
  then show ?case
    by (auto simp: outcome_simps Let_def split: if_splits dest!: acquire_l_frame release_l_frame)
qed

lemma killed_frame: "killed p s = Ok (k, s') \<Longrightarrow> pipes s' = pipes s \<and> k_mem s' = k_mem s \<and> myproc s' = myproc s"
  by (auto simp: killed_def outcome_simps Let_def dest!: acquire_l_frame release_l_frame)

lemma pi_lock_contents [simp]:
  "pipe_contents (pi\<lparr>pi_lock := lk\<rparr>) = pipe_contents pi" "pipe_inv (pi\<lparr>pi_lock := lk\<rparr>) = pipe_inv pi"
  by (simp_all add: pipe_contents_def pipe_inv_def)

text \<open>A pipe's contents, whatever its lock.\<close>

definition holds :: "u64 \<Rightarrow> u8 list \<Rightarrow> 'z pstate_scheme \<Rightarrow> bool" where
  "holds a bs s \<longleftrightarrow> pipe_inv (pipes s a) \<and> pipe_contents (pipes s a) = bs"

lemma holds_pi_lock:
  "acquire_pi a s = Ok s' \<Longrightarrow> holds b bs s' = holds b bs s \<and> k_mem s' = k_mem s \<and> myproc s' = myproc s \<and> k_proc s' = k_proc s"
  "release_pi a s = Ok s' \<Longrightarrow> holds b bs s' = holds b bs s \<and> k_mem s' = k_mem s \<and> myproc s' = myproc s \<and> k_proc s' = k_proc s"
  by (auto simp: acquire_pi_def release_pi_def acquire_def release_def push_off_def pop_off_def Let_def
      outcome_simps myproc_def holds_def split: if_splits)

lemma holds_frame: "pipes s' = pipes s \<Longrightarrow> holds a bs s' = holds a bs s"
  by (simp add: holds_def)

lemma holds_wakeup: "wakeup ch s = Ok s' \<Longrightarrow> holds a bs s' = holds a bs s"
  by (auto simp: wakeup_def holds_def dest!: wakeup_loop_frame)

lemma holds_sleep_out:
  assumes "sleep_out_with ch (release_pi b) s = Ok (ia, s')"
  shows "holds a bs s' = holds a bs s"
proof -
  obtain p t u where "acquire_l (ProcLock p) s = Ok t" "release_pi b t = Ok u"
      "s' = upd_p p (\<lambda>p. p\<lparr>p_chan := Some ch, p_state := SLEEPING\<rparr>) u"
    using assms by (auto simp: sleep_out_with_def with_proc_def outcome_simps sched_def split: option.splits if_splits)
  then show ?thesis using holds_pi_lock(2) [of b t u a bs] by (auto simp: holds_def dest!: acquire_l_frame)
qed

lemma put_lock_pagetable [simp]: "p_pagetable (k_proc (put_lock r lk s) x) = p_pagetable (k_proc s x)"
  by (cases r) simp_all

lemma killed_pagetable: "killed p s = Ok (k, s') \<Longrightarrow> p_pagetable (k_proc s' x) = p_pagetable (k_proc s x)"
  by (auto simp: killed_def acquire_l_def release_l_def outcome_simps Let_def)

lemma copyin_one:
  assumes "copyin pt va 1 km = Ok (r, bs)" "r \<noteq> - 1"
  shows "r = 0 \<and> bs = [hd bs]"
proof -
  have n: "min (4096 - unat (va - PGROUNDDOWN va)) (Suc 0) = Suc 0" using page_offset_less [of va] by simp
  have z: "copyin pt x 0 km = Ok (0, [])" for x by (subst copyin.simps) simp
  obtain pa where pa: "walkaddr pt (PGROUNDDOWN va) km = Ok pa"
    using assms(1) by (subst (asm) copyin.simps) (auto simp: outcome_simps Let_def)
  then have "r = 0 \<and> bs = load_bytes (mem km) (pa + (va - PGROUNDDOWN va)) 1"
    using assms by (subst (asm) copyin.simps) (auto simp: Let_def n z split: if_splits)
  then show ?thesis by (simp add: load_bytes_def)
qed

text \<open>The bytes that \<open>copyin\<close> finds at an address of the writing process.\<close>

definition user_bytes :: "u64 \<Rightarrow> u64 \<Rightarrow> kmem \<Rightarrow> u8 list \<Rightarrow> bool" where
  "user_bytes pt addr km bs \<longleftrightarrow> (\<forall>j<length bs. copyin pt (addr + of_nat j) 1 km = Ok (0, [bs ! j]))"

lemma user_bytes_Cons:
  "copyin pt addr 1 km = Ok (0, [b]) \<Longrightarrow> user_bytes pt (addr + 1) km bs \<Longrightarrow> user_bytes pt addr km (b # bs)"
  unfolding user_bytes_def by (auto simp: less_Suc_eq_0_disj add.assoc)

lemma pipewrite_loop_appends:
  "pipewrite_loop k i a addr s = Ok (res, s') \<Longrightarrow> holds a q s \<Longrightarrow> myproc s = Some pr \<Longrightarrow>
     \<exists>bs. holds a (q @ bs) s' \<and> length bs \<le> k \<and>
       user_bytes (p_pagetable (k_proc s pr)) (addr + of_nat i) (k_mem s) bs \<and>
       (case res of Inr r \<Rightarrow> r = - 1 \<or> r = int (i + length bs)
        | Inl (j, ia) \<Rightarrow> j = i + length bs \<and> length bs < k \<and> length (q @ bs) = PIPESIZE)"
proof (induction k arbitrary: i s q)
  case 0
  then show ?case
    by (intro exI [of _ "[]"]) (auto simp: outcome_simps user_bytes_def holds_wakeup dest: holds_pi_lock(2) [of a _ _ a q])
next
  case (Suc k)
  obtain stop t where t: "(if \<not> readopen (pipes s a) then Ok (True, s) else killed pr s) = Ok (stop, t)"
    using Suc.prems(1,3) by (auto simp: with_proc_def outcome_simps)
  have fr: "pipes t = pipes s" "k_mem t = k_mem s" "myproc t = Some pr" "\<And>x. p_pagetable (k_proc t x) = p_pagetable (k_proc s x)"
    using t Suc.prems(3) by (auto dest: killed_frame killed_pagetable split: if_splits)
  have ht: "holds a q t" using Suc.prems(2) holds_frame [OF fr(1)] by blast
  have step: "(if stop then obind (release_pi a t) (\<lambda>s. Ok (Inr (- 1), s))
       else if pipe_full (pipes t a)
       then obind (wakeup (Some (PipeRead a)) t) (\<lambda>s.
            obind (sleep_out_with (PipeWrite a) (release_pi a) s) (\<lambda>(ia, s). Ok (Inl (i, ia), s)))
       else obind (copyin (p_pagetable (k_proc t pr)) (addr + of_nat i) 1 (k_mem t)) (\<lambda>(r, bs).
              if r = - 1
              then obind (wakeup (Some (PipeRead a)) t) (\<lambda>s.
                   obind (release_pi a s) (\<lambda>s. Ok (Inr (int i), s)))
              else pipewrite_loop k (Suc i) a addr (upd_pi a (put_byte (hd bs)) t))) = Ok (res, s')"
    using Suc.prems(1,3) t by (simp add: with_proc_def)
  consider "stop" | "\<not> stop" "pipe_full (pipes t a)" | "\<not> stop" "\<not> pipe_full (pipes t a)" by blast
  then show ?case
  proof cases
    case 1
    then show ?thesis
      using step ht holds_pi_lock(2) [of a t s' a q]
      by (intro exI [of _ "[]"]) (auto simp: outcome_simps user_bytes_def)
  next
    case 2
    obtain u ia where u: "wakeup (Some (PipeRead a)) t = Ok u" "res = Inl (i, ia)"
        "sleep_out_with (PipeWrite a) (release_pi a) u = Ok (ia, s')"
      using step 2 by (auto simp: outcome_simps)
    have "holds a q s'" using holds_sleep_out [OF u(3)] holds_wakeup [OF u(1)] ht by blast
    moreover have "length q = PIPESIZE" using 2(2) ht pq.full_iff by (auto simp: holds_def)
    ultimately show ?thesis using u(2) by (intro exI [of _ "[]"]) (simp add: user_bytes_def)
  next
    case 3
    obtain r bs where c: "copyin (p_pagetable (k_proc t pr)) (addr + of_nat i) 1 (k_mem t) = Ok (r, bs)"
      using step 3 by (auto simp: outcome_simps)
    show ?thesis
    proof (cases "r = - 1")
      case True
      then show ?thesis
        using step 3 c ht
        by (intro exI [of _ "[]"])
          (auto simp: outcome_simps user_bytes_def holds_wakeup dest: holds_pi_lock(2) [of a _ _ a q])
    next
      case False
      have one: "r = 0" "bs = [hd bs]" using copyin_one [OF c False] by auto
      let ?t = "upd_pi a (put_byte (hd bs)) t"
      have h: "holds a (q @ [hd bs]) ?t" using ht 3(2) pq.put_law by (auto simp: holds_def)
      have m: "myproc ?t = Some pr" using fr(3) by (simp add: myproc_def)
      have l: "pipewrite_loop k (Suc i) a addr ?t = Ok (res, s')" using step 3 c False by simp
      obtain cs where cs: "holds a ((q @ [hd bs]) @ cs) s'" "length cs \<le> k"
          "user_bytes (p_pagetable (k_proc s pr)) (addr + of_nat (Suc i)) (k_mem s) cs"
          "case res of Inr r \<Rightarrow> r = - 1 \<or> r = int (Suc i + length cs)
            | Inl (j, ia) \<Rightarrow> j = Suc i + length cs \<and> length cs < k \<and> length ((q @ [hd bs]) @ cs) = PIPESIZE"
        using Suc.IH [OF l h m] fr by auto
      have "user_bytes (p_pagetable (k_proc s pr)) (addr + of_nat i) (k_mem s) (hd bs # cs)"
        using cs(3) c one fr by (intro user_bytes_Cons) (auto simp: ac_simps)
      then show ?thesis using cs by (intro exI [of _ "hd bs # cs"]) (auto split: sum.splits)
    qed
  qed
qed

section \<open>Properties\<close>


definition demo_pipe :: pipe where
  "demo_pipe = \<lparr>pi_lock = initlock ''pipe'', pi_data = (\<lambda>_. 0), nread = 0xFFFFFFFF, nwrite = 1,
     readopen = False, writeopen = True\<rparr>"

definition demo_pipes :: pstate where
  "demo_pipes = kstate.extend demo_running \<lparr>pipes = (\<lambda>_. demo_pipe)\<rparr>"

lemma demo_pipes_simps [simp]:
  "pipes demo_pipes a = demo_pipe" "k_proc demo_pipes = k_proc demo_running" "mycpu demo_pipes = mycpu demo_running"
  "k_hart demo_pipes = 0" "myproc demo_pipes = Some 5" "k_mem demo_pipes = k_mem demo_running"
  by (simp_all add: demo_pipes_def kstate.defs mycpu_def demo_running_def myproc_def upd_p_def set_cpu_def
      demo_sched_def)

lemma demo_running_cpu: "mycpu demo_running = \<lparr>c_proc = Some 5, noff = 0, intena = False, sie = False\<rparr>"
  by (simp add: demo_running_def demo_sched_def mycpu_def upd_p_def set_cpu_def)

lemma demo_pipe_inv: "pipe_inv demo_pipe" "length (pipe_contents demo_pipe) = 2"
  by (simp_all add: pipe_inv_def demo_pipe_def PIPESIZE_def pipe_contents_def)



text \<open>A reader that gives an address outside the user address space: it gets 0 bytes, and the first byte is lost.\<close>

lemma acquire_pi_free:
  "lock_free (pi_lock (pipes s a)) \<Longrightarrow>
     acquire_pi a s = Ok (upd_pi a (\<lambda>pi. pi\<lparr>pi_lock := held_by (k_hart s) (pi_lock (pipes s a))\<rparr>) (set_cpu (push_off (mycpu s)) s))"
  by (simp add: acquire_pi_def acquire_def lock_free_def holding_def held_by_def Let_def)

lemma wakeup_total:
  assumes "\<forall>i<NPROC. Some i \<noteq> myproc s \<longrightarrow> lock_free (p_lock (k_proc s i))" and "cpu_ok (mycpu s)" "0 < noff (mycpu s)"
  shows "\<exists>s'. wakeup ch s = Ok s' \<and> pipes s' = pipes s \<and> mycpu s' = mycpu s \<and> k_hart s' = k_hart s"
proof -
  have "table_ok (filter (\<lambda>i. Some i \<noteq> myproc s) [0..<NPROC]) s" using assms by (auto simp: table_ok_def)
  then obtain c where c: "wakeup ch s = Ok (map_procs (filter (\<lambda>i. Some i \<noteq> myproc s) [0..<NPROC])
      (\<lambda>_. wake_proc ch) (set_cpu c s))" "c = mycpu s \<or> c = bump (mycpu s)"
    using wk.run [of "[0..<NPROC]" s ch] by (auto simp: wakeup_def)
  moreover have "c = mycpu s" using c(2) assms(3) by (auto simp: bump_def)
  ultimately show ?thesis by (auto simp: map_procs_def mycpu_def [of "_\<lparr>k_proc := _\<rparr>"] mycpu_def [symmetric])
qed

lemma copyout_outside: "MAXVA \<le> PGROUNDDOWN va \<Longrightarrow> copyout pt va [b] km = Ok (- 1, km)"
  by (subst copyout.simps) (simp add: Let_def)

definition bad_addr :: u64 where "bad_addr = 0x4000000000"

lemma piperead_bad_addr:
  assumes "\<not> pipe_empty (pipes s a)" "myproc s = Some p" "MAXVA \<le> PGROUNDDOWN addr"
  shows "piperead_copy (Suc k) 0 a addr s = Ok (0, upd_pi a (\<lambda>pi. snd (get_byte pi)) s)"
proof -
  have "myproc (upd_pi a f s) = Some p" for f using assms(2) by (simp add: myproc_def)
  then show ?thesis
    using assms by (simp add: with_proc_def on_mem_def copyout_outside get_byte_def upd_pi_def Let_def)
qed


end
