(* ===== verification/Kop.thy ===== *)
theory Kop
  imports Prelude
begin

text \<open>
  Operations with a state: a function from the state to an outcome with a result and the new state.
  \<open>kbind\<close> sequences two of them, \<open>kfor\<close> is a loop over a list. The console and the file system
  are written with them.
\<close>

section \<open>Operations\<close>

type_synonym ('s, 'a) kop = "'s \<Rightarrow> ('a \<times> 's) outcome"

definition kret :: "'a \<Rightarrow> ('s, 'a) kop" where
  "kret x = (\<lambda>s. Ok (x, s))"

definition kbind :: "('s, 'a) kop \<Rightarrow> ('a \<Rightarrow> ('s, 'b) kop) \<Rightarrow> ('s, 'b) kop" where
  "kbind m f = (\<lambda>s. obind (m s) (\<lambda>(x, s). f x s))"

definition kget :: "('s \<Rightarrow> 'a) \<Rightarrow> ('s, 'a) kop" where
  "kget f = (\<lambda>s. Ok (f s, s))"

definition kmod :: "('s \<Rightarrow> 's) \<Rightarrow> ('s, unit) kop" where
  "kmod f = (\<lambda>s. Ok ((), f s))"

definition kpanic :: "string \<Rightarrow> ('s, 'a) kop" where
  "kpanic msg = (\<lambda>s. Panic msg)"

definition kseq :: "('s, 'a) kop \<Rightarrow> ('s, 'b) kop \<Rightarrow> ('s, 'b) kop" where
  "kseq m n = kbind m (\<lambda>_. n)"

primrec kfor :: "'i list \<Rightarrow> ('i \<Rightarrow> ('s, unit) kop) \<Rightarrow> ('s, unit) kop" where
  "kfor [] f = kret ()"
| "kfor (i # is) f = kseq (f i) (kfor is f)"

lemma kret_apply [simp]: "kret x s = Ok (x, s)"
  by (simp add: kret_def)

lemma kget_apply [simp]: "kget f s = Ok (f s, s)"
  by (simp add: kget_def)

lemma kmod_apply [simp]: "kmod f s = Ok ((), f s)"
  by (simp add: kmod_def)

lemma kpanic_apply [simp]: "kpanic e s = Panic e"
  by (simp add: kpanic_def)

lemma kbind_Ok: "m s = Ok (x, t) \<Longrightarrow> kbind m f s = f x t"
  by (simp add: kbind_def)

lemma kseq_Ok: "m s = Ok (x, t) \<Longrightarrow> kseq m n s = n t"
  by (simp add: kseq_def kbind_def)

lemma kbind_kret [simp]: "kbind (kret x) f = f x"
  by (simp add: kbind_def fun_eq_iff)

lemma kbind_kget [simp]: "kbind (kget g) f s = f (g s) s"
  by (simp add: kbind_def)

lemma kseq_kmod [simp]: "kseq (kmod g) m s = m (g s)"
  by (simp add: kseq_def kbind_def)

lemma kseq_kret [simp]: "kseq (kret x) m = m"
  by (simp add: kseq_def)

lemma kbind_cong [fundef_cong]:
  "m s = m' s' \<Longrightarrow> s = s' \<Longrightarrow> (\<And>x t. m' s' = Ok (x, t) \<Longrightarrow> f x t = g x t) \<Longrightarrow> kbind m f s = kbind m' g s'"
  by (auto simp: kbind_def split: prod.splits intro!: obind_cong)

section \<open>Total correctness\<close>

text \<open>The operation returns from state \<open>s\<close>, with a result and a state that satisfy \<open>Q\<close>.\<close>

definition runs :: "('s, 'a) kop \<Rightarrow> 's \<Rightarrow> ('a \<Rightarrow> 's \<Rightarrow> bool) \<Rightarrow> bool" where
  "runs m s Q \<longleftrightarrow> (\<exists>x t. m s = Ok (x, t) \<and> Q x t)"

lemma runs_kret [simp]: "runs (kret x) s Q \<longleftrightarrow> Q x s"
  by (simp add: runs_def)

lemma runs_kget [simp]: "runs (kget f) s Q \<longleftrightarrow> Q (f s) s"
  by (simp add: runs_def)

lemma runs_kmod [simp]: "runs (kmod f) s Q \<longleftrightarrow> Q () (f s)"
  by (simp add: runs_def)

lemma runs_kbind: "runs (kbind m f) s Q \<longleftrightarrow> runs m s (\<lambda>x t. runs (f x) t Q)"
  by (auto simp: runs_def kbind_def outcome_simps)

lemma runs_kseq: "runs (kseq m n) s Q \<longleftrightarrow> runs m s (\<lambda>_ t. runs n t Q)"
  by (simp add: kseq_def runs_kbind)

lemma runs_mono: "runs m s P \<Longrightarrow> (\<And>x t. m s = Ok (x, t) \<Longrightarrow> P x t \<Longrightarrow> Q x t) \<Longrightarrow> runs m s Q"
  by (auto simp: runs_def)

lemmas runs_simps = runs_kbind runs_kseq

text \<open>A loop whose body keeps an invariant that counts the rounds.\<close>

lemma runs_kfor:
  "I a s \<Longrightarrow> (\<And>i t. a \<le> i \<Longrightarrow> i < b \<Longrightarrow> I i t \<Longrightarrow> runs (f i) t (\<lambda>_. I (Suc i))) \<Longrightarrow> a \<le> b \<Longrightarrow>
     runs (kfor [a..<b] f) s (\<lambda>_. I b)"
proof (induction "b - a" arbitrary: a s)
  case 0
  then show ?case by (simp add: runs_def)
next
  case (Suc n)
  then have "[a..<b] = a # [Suc a..<b]" by (simp add: upt_conv_Cons)
  moreover have "runs (f a) s (\<lambda>_ t. runs (kfor [Suc a..<b] f) t (\<lambda>_. I b))"
  proof (rule runs_mono)
    show "runs (f a) s (\<lambda>_. I (Suc a))" using Suc by simp
    show "runs (kfor [Suc a..<b] f) t (\<lambda>_. I b)" if "I (Suc a) t" for t
      using Suc that by (intro Suc.hyps(1)) auto
  qed
  ultimately show ?case by (simp add: runs_simps)
qed

end
