(* ===== verification/Uart.thy ===== *)
theory Uart
  imports Pipe Kop
begin

text \<open>
  \<open>kernel/uart.c\<close>. The device is seen through its registers: every register write is recorded in
  \<open>uart_wr\<close>, \<open>uart_room\<close> is the number of bytes the transmitter can take before it is busy (bit
  \<open>LSR_TX_IDLE\<close> is set while it is positive), \<open>uart_rx\<close> the bytes it has received and that have not
  been read. \<open>uartputc\<close> returns \<open>Inl\<close> of the saved \<open>intena\<close> when it goes to sleep on a full buffer and
  \<open>Inr\<close> when it is done. The variables of the console and of \<open>printf\<close> are part of the same state; \<open>devsw s i\<close> is true
  when the functions of \<open>devsw[i]\<close> are those of the console, false when they are null.
\<close>

section \<open>State\<close>

definition UART_TX_BUF_SIZE :: nat where "UART_TX_BUF_SIZE = 32"
definition INPUT_BUF_SIZE :: nat where "INPUT_BUF_SIZE = 128"

definition RHR :: nat where "RHR = 0"
definition THR :: nat where "THR = 0"
definition IER :: nat where "IER = 1"
definition FCR :: nat where "FCR = 2"
definition LCR :: nat where "LCR = 3"
definition LSR :: nat where "LSR = 5"
definition IER_RX_ENABLE :: u8 where "IER_RX_ENABLE = 1"
definition IER_TX_ENABLE :: u8 where "IER_TX_ENABLE = 2"
definition FCR_FIFO_ENABLE :: u8 where "FCR_FIFO_ENABLE = 1"
definition FCR_FIFO_CLEAR :: u8 where "FCR_FIFO_CLEAR = 6"
definition LCR_EIGHT_BITS :: u8 where "LCR_EIGHT_BITS = 3"
definition LCR_BAUD_LATCH :: u8 where "LCR_BAUD_LATCH = 128"
definition LSR_RX_READY :: u8 where "LSR_RX_READY = 1"
definition LSR_TX_IDLE :: u8 where "LSR_TX_IDLE = 32"

record cstate = pstate +
  uart_tx_lock :: spinlock
  uart_tx_buf :: "nat \<Rightarrow> u8"
  uart_tx_w :: u64
  uart_tx_r :: u64
  uart_wr :: "(nat \<times> u8) list"
  uart_room :: nat
  uart_rx :: "u8 list"
  panicked :: bool
  pr_lock :: spinlock
  pr_locking :: bool
  cons_lock :: spinlock
  cons_buf :: "nat \<Rightarrow> u8"
  cons_r :: u32
  cons_w :: u32
  cons_e :: u32
  devsw :: "nat \<Rightarrow> bool"

text \<open>Acquire and release of a lock that the state keeps in a field.\<close>

definition acquire_in ::
    "('z kstate_scheme \<Rightarrow> spinlock) \<Rightarrow> (spinlock \<Rightarrow> 'z kstate_scheme \<Rightarrow> 'z kstate_scheme) \<Rightarrow>
      'z kstate_scheme \<Rightarrow> 'z kstate_scheme outcome" where
  "acquire_in get put s = obind (acquire (k_hart s) (mycpu s) (get s)) (\<lambda>(c, lk). Ok (put lk (set_cpu c s)))"

definition release_in ::
    "('z kstate_scheme \<Rightarrow> spinlock) \<Rightarrow> (spinlock \<Rightarrow> 'z kstate_scheme \<Rightarrow> 'z kstate_scheme) \<Rightarrow>
      'z kstate_scheme \<Rightarrow> 'z kstate_scheme outcome" where
  "release_in get put s = obind (release (k_hart s) (mycpu s) (get s)) (\<lambda>(c, lk). Ok (put lk (set_cpu c s)))"

definition acquire_tx :: "'z cstate_scheme \<Rightarrow> 'z cstate_scheme outcome" where
  "acquire_tx = acquire_in uart_tx_lock (\<lambda>lk s. s\<lparr>uart_tx_lock := lk\<rparr>)"

definition release_tx :: "'z cstate_scheme \<Rightarrow> 'z cstate_scheme outcome" where
  "release_tx = release_in uart_tx_lock (\<lambda>lk s. s\<lparr>uart_tx_lock := lk\<rparr>)"

section \<open>Registers\<close>

definition write_reg :: "nat \<Rightarrow> u8 \<Rightarrow> 'z cstate_scheme \<Rightarrow> 'z cstate_scheme" where
  "write_reg r v s = s\<lparr>uart_wr := uart_wr s @ [(r, v)],
     uart_room := (if r = THR then uart_room s - 1 else uart_room s)\<rparr>"

definition read_lsr :: "'z cstate_scheme \<Rightarrow> u8" where
  "read_lsr s = (if uart_rx s \<noteq> [] then LSR_RX_READY else 0) OR (if 0 < uart_room s then LSR_TX_IDLE else 0)"

text \<open>Spinning until the transmitter is idle: it has sent a byte by then.\<close>

definition spin_until_idle :: "'z cstate_scheme \<Rightarrow> 'z cstate_scheme" where
  "spin_until_idle s = (if read_lsr s AND LSR_TX_IDLE = 0 then s\<lparr>uart_room := 1\<rparr> else s)"

section \<open>uart.c\<close>

definition uartinit :: "'z cstate_scheme \<Rightarrow> 'z cstate_scheme" where
  "uartinit s =
     (let s = write_reg IER 0 s;
          s = write_reg LCR LCR_BAUD_LATCH s;
          s = write_reg 0 3 s;
          s = write_reg 1 0 s;
          s = write_reg LCR LCR_EIGHT_BITS s;
          s = write_reg FCR (FCR_FIFO_ENABLE OR FCR_FIFO_CLEAR) s;
          s = write_reg IER (IER_TX_ENABLE OR IER_RX_ENABLE) s
      in s\<lparr>uart_tx_lock := initlock ''uart''\<rparr>)"

text \<open>\<open>uartstart\<close>: every iteration takes one byte out of the buffer, so there are at most \<open>w - r\<close>.\<close>

primrec uartstart_loop :: "nat \<Rightarrow> 'z cstate_scheme \<Rightarrow> 'z cstate_scheme outcome" where
  "uartstart_loop 0 s = Ok s"
| "uartstart_loop (Suc n) s =
     (if uart_tx_w s = uart_tx_r s then Ok s
      else if read_lsr s AND LSR_TX_IDLE = 0 then Ok s
      else let c = uart_tx_buf s (unat (uart_tx_r s mod of_nat UART_TX_BUF_SIZE));
               s = s\<lparr>uart_tx_r := uart_tx_r s + 1\<rparr>
           in obind (wakeup (Some UartChan) s) (\<lambda>s. uartstart_loop n (write_reg THR c s)))"

definition uartstart :: "'z cstate_scheme \<Rightarrow> 'z cstate_scheme outcome" where
  "uartstart s = uartstart_loop (unat (uart_tx_w s - uart_tx_r s)) s"

definition tx_full :: "'z cstate_scheme \<Rightarrow> bool" where
  "tx_full s \<longleftrightarrow> uart_tx_w s = uart_tx_r s + of_nat UART_TX_BUF_SIZE"

definition tx_put :: "u8 \<Rightarrow> 'z cstate_scheme \<Rightarrow> 'z cstate_scheme" where
  "tx_put c s = s\<lparr>uart_tx_buf := (uart_tx_buf s)(unat (uart_tx_w s mod of_nat UART_TX_BUF_SIZE) := c),
     uart_tx_w := uart_tx_w s + 1\<rparr>"

text \<open>The loop of \<open>uartputc\<close> and what follows it, with \<open>uart_tx_lock\<close> held.\<close>

definition uartputc_wait :: "u8 \<Rightarrow> 'z cstate_scheme \<Rightarrow> ((bool + unit) \<times> 'z cstate_scheme) outcome" where
  "uartputc_wait c s =
     (if tx_full s then obind (sleep_out_with UartChan release_tx s) (\<lambda>(ia, s). Ok (Inl ia, s))
      else obind (uartstart (tx_put c s)) (\<lambda>s. obind (release_tx s) (\<lambda>s. Ok (Inr (), s))))"

definition uartputc :: "u8 \<Rightarrow> 'z cstate_scheme \<Rightarrow> ((bool + unit) \<times> 'z cstate_scheme) outcome" where
  "uartputc c s = obind (acquire_tx s) (\<lambda>s. if panicked s then Block else uartputc_wait c s)"

definition uartputc_resume :: "u8 \<Rightarrow> bool \<Rightarrow> 'z cstate_scheme \<Rightarrow> ((bool + unit) \<times> 'z cstate_scheme) outcome" where
  "uartputc_resume c ia s = obind (sleep_in_with ia acquire_tx s) (uartputc_wait c)"

definition uartputc_sync :: "u8 \<Rightarrow> ('z cstate_scheme, unit) kop" where
  "uartputc_sync c s =
     (let s = set_cpu (push_off (mycpu s)) s
      in if panicked s then Block
         else let s = write_reg THR c (spin_until_idle s)
              in obind (pop_off (mycpu s)) (\<lambda>cpu. Ok ((), set_cpu cpu s)))"

text \<open>\<open>None\<close> is the return value -1.\<close>

definition uartgetc :: "'z cstate_scheme \<Rightarrow> u8 option \<times> 'z cstate_scheme" where
  "uartgetc s =
     (if read_lsr s AND 1 \<noteq> 0 then (Some (hd (uart_rx s)), s\<lparr>uart_rx := tl (uart_rx s)\<rparr>) else (None, s))"

end
