(* ===== verification/Printf.thy ===== *)
theory Printf
  imports Uart
begin

text \<open>
  \<open>kernel/printf.c\<close> and \<open>procdump\<close> of \<open>kernel/proc.c\<close>. The characters that a call of \<open>printf\<close> hands to
  \<open>consputc\<close> are computed by \<open>format\<close> from the format string and the arguments; an argument of the
  wrong kind, undefined in C, reads as zero. The code's panics are the outcome \<open>Panic\<close>; \<open>panic_op\<close>
  is what \<open>panic\<close> itself does: it prints and then never returns.
\<close>

definition ascii :: "string \<Rightarrow> u8 list" where
  "ascii = map of_char"

definition BACKSPACE :: int where "BACKSPACE = 0x100"

definition consputc :: "int \<Rightarrow> ('z cstate_scheme, unit) kop" where
  "consputc c =
     (if c = BACKSPACE then kseq (uartputc_sync 8) (kseq (uartputc_sync 0x20) (uartputc_sync 8))
      else uartputc_sync (of_int c))"

section \<open>Numbers\<close>

definition digit :: "nat \<Rightarrow> u8" where
  "digit n = of_char (''0123456789abcdef'' ! n)"

text \<open>The digits in the order in which the loop stores them, least significant first.\<close>

function uint_digits :: "u32 \<Rightarrow> u32 \<Rightarrow> u8 list" where
  "uint_digits base x =
     digit (unat (x mod base)) # (if x div base = 0 \<or> base \<le> 1 then [] else uint_digits base (x div base))"
  by pat_completeness auto
termination
proof (relation "measure (\<lambda>(base, x). unat x)", goal_cases)
  case 1
  then show ?case by simp
next
  case (2 base x)
  then have "unat base > 1" "unat x div unat base \<noteq> 0"
    by (auto simp: word_less_nat_alt not_le word_unat_eq_iff unat_div)
  then have "unat x > 0" by (metis div_0 gr_zeroI)
  then show ?case using \<open>unat base > 1\<close> by (simp add: unat_div div_less_dividend)
qed

declare uint_digits.simps [simp del]

definition printint :: "u32 \<Rightarrow> u32 \<Rightarrow> bool \<Rightarrow> u8 list" where
  "printint xx base sign =
     (let neg = (sign \<and> sint xx < 0); x = (if neg then - xx else xx)
      in rev (uint_digits base x @ (if neg then ascii ''-'' else [])))"

definition printptr :: "u64 \<Rightarrow> u8 list" where
  "printptr x = ascii ''0x'' @ map (\<lambda>i. digit (unat (drop_bit 60 (push_bit (4 * i) x)))) [0..<16]"

section \<open>printf\<close>

datatype parg = PInt u32 | PPtr u64 | PStr "u8 list option"

primrec int_arg :: "parg \<Rightarrow> u32" where
  "int_arg (PInt x) = x" | "int_arg (PPtr x) = 0" | "int_arg (PStr s) = 0"

primrec ptr_arg :: "parg \<Rightarrow> u64" where
  "ptr_arg (PInt x) = 0" | "ptr_arg (PPtr x) = x" | "ptr_arg (PStr s) = 0"

primrec str_arg :: "parg \<Rightarrow> u8 list" where
  "str_arg (PInt x) = ascii ''(null)''" | "str_arg (PPtr x) = ascii ''(null)''"
| "str_arg (PStr s) = (case s of None \<Rightarrow> ascii ''(null)'' | Some bs \<Rightarrow> bs)"

definition next_arg :: "parg list \<Rightarrow> parg" where
  "next_arg as = (case as of [] \<Rightarrow> PInt 0 | a # _ \<Rightarrow> a)"

fun format :: "u8 list \<Rightarrow> parg list \<Rightarrow> u8 list" where
  "format [] as = []"
| "format [c] as = (if c \<noteq> 0x25 then [c] else [])"
| "format (c # d # f) as =
     (if c \<noteq> 0x25 then c # format (d # f) as
      else if d = 0x64 then printint (int_arg (next_arg as)) 10 True @ format f (tl as)
      else if d = 0x78 then printint (int_arg (next_arg as)) 16 True @ format f (tl as)
      else if d = 0x70 then printptr (ptr_arg (next_arg as)) @ format f (tl as)
      else if d = 0x73 then str_arg (next_arg as) @ format f (tl as)
      else if d = 0x25 then 0x25 # format f as
      else 0x25 # d # format f as)"

definition acquire_pr :: "'z cstate_scheme \<Rightarrow> 'z cstate_scheme outcome" where
  "acquire_pr = acquire_in pr_lock (\<lambda>lk s. s\<lparr>pr_lock := lk\<rparr>)"

definition release_pr :: "'z cstate_scheme \<Rightarrow> 'z cstate_scheme outcome" where
  "release_pr = release_in pr_lock (\<lambda>lk s. s\<lparr>pr_lock := lk\<rparr>)"

definition printf :: "string \<Rightarrow> parg list \<Rightarrow> ('z cstate_scheme, unit) kop" where
  "printf fmt as s =
     (let locking = pr_locking s
      in obind (if locking then acquire_pr s else Ok s) (\<lambda>s.
         obind (kfor (format (ascii fmt) as) (\<lambda>c. consputc (uint c)) s) (\<lambda>(_, s).
         obind (if locking then release_pr s else Ok s) (\<lambda>s. Ok ((), s)))))"

definition panic_op :: "string \<Rightarrow> ('z cstate_scheme, unit) kop" where
  "panic_op msg =
     kseq (kmod (\<lambda>s. s\<lparr>pr_locking := False\<rparr>)) (
     kseq (printf ''panic: '' []) (
     kseq (printf msg []) (
     kseq (printf [CHR 0x0A] []) (
     kseq (kmod (\<lambda>s. s\<lparr>panicked := True\<rparr>)) (\<lambda>s. Block)))))"

definition printfinit :: "'z cstate_scheme \<Rightarrow> 'z cstate_scheme" where
  "printfinit s = s\<lparr>pr_lock := initlock ''pr'', pr_locking := True\<rparr>"

section \<open>procdump, print_proc\<close>

primrec state_name :: "procstate \<Rightarrow> string" where
  "state_name UNUSED = ''unused''"
| "state_name USED = ''used''"
| "state_name SLEEPING = ''sleep ''"
| "state_name RUNNABLE = ''runble''"
| "state_name RUNNING = ''run   ''"
| "state_name ZOMBIE = ''zombie''"

text \<open>The bytes of a C string in a buffer, up to its terminator.\<close>

definition c_string :: "u8 list \<Rightarrow> u8 list" where
  "c_string bs = takeWhile (\<lambda>c. c \<noteq> 0) bs"

definition procdump :: "('z cstate_scheme, unit) kop" where
  "procdump =
     kseq (printf [CHR 0x0A] []) (
     kfor [0..<NPROC] (\<lambda>i. kbind (kget (\<lambda>s. k_proc s i)) (\<lambda>p.
       if p_state p = UNUSED then kret ()
       else kseq (printf ''%d %s %s %d %d %d'' [PInt (of_int (p_pid p)), PStr (Some (ascii (state_name (p_state p)))),
              PStr (Some (c_string (p_name p))), PInt (p_sp p), PInt (p_rbi p), PInt (p_dp p)])
            (printf [CHR 0x0A] []))))"

definition print_proc :: "('z cstate_scheme, unit) kop" where
  "print_proc =
     kseq (printf (CHR 0x0A # ''Proc table:'' @ [CHR 0x0A]) []) (
     kseq (kfor [0..<NPROC] (\<lambda>i. kbind (kget (\<lambda>s. k_proc s i)) (\<lambda>p.
       if p_state p \<noteq> UNUSED
       then printf (''PID-%d SP-%d RBI-%d rnTime-%d sTime-%d wTime-%d numRan-%d rTime-%d cTime-%d eTime-%d'' @ [CHR 0x0A])
              [PInt (of_int (p_pid p)), PInt (p_sp p), PInt (p_rbi p), PInt (p_rntime p), PInt (p_stime p),
               PInt (p_wtime p), PInt (p_num_sch p), PInt (p_rtime p), PInt (p_ctime p), PInt (p_etime p)]
       else kret ())))
     (printf [CHR 0x0A] []))"

end
