(* ===== verification/Console.thy ===== *)
theory Console
  imports Printf
begin

text \<open>
  \<open>kernel/console.c\<close> and \<open>uartintr\<close> of \<open>kernel/uart.c\<close>: the line editor of the console. The counters
  \<open>cons_r\<close>, \<open>cons_w\<close>, \<open>cons_e\<close> are 32-bit and never reset. \<open>consoleread\<close> and \<open>consolewrite\<close> return \<open>Inl\<close>
  of their local variables when they go to sleep, and go on from there when they are resumed.
\<close>

definition acquire_cons :: "'z cstate_scheme \<Rightarrow> 'z cstate_scheme outcome" where
  "acquire_cons = acquire_in cons_lock (\<lambda>lk s. s\<lparr>cons_lock := lk\<rparr>)"

definition release_cons :: "'z cstate_scheme \<Rightarrow> 'z cstate_scheme outcome" where
  "release_cons = release_in cons_lock (\<lambda>lk s. s\<lparr>cons_lock := lk\<rparr>)"

section \<open>Writing\<close>

primrec consolewrite_loop ::
    "nat \<Rightarrow> nat \<Rightarrow> bool \<Rightarrow> u64 \<Rightarrow> 'z cstate_scheme \<Rightarrow> ((nat \<times> u8 \<times> bool + int) \<times> 'z cstate_scheme) outcome" where
  "consolewrite_loop 0 i user src s = Ok (Inr (int i), s)"
| "consolewrite_loop (Suc k) i user src s =
     obind (either_copyin user (src + of_nat i) 1 s) (\<lambda>(r, bs).
       if r = - 1 then Ok (Inr (int i), s)
       else obind (uartputc (hd bs) s) (\<lambda>(w, s). case w of
              Inl ia \<Rightarrow> Ok (Inl (i, hd bs, ia), s)
            | Inr _ \<Rightarrow> consolewrite_loop k (Suc i) user src s))"

definition consolewrite ::
    "bool \<Rightarrow> u64 \<Rightarrow> int \<Rightarrow> 'z cstate_scheme \<Rightarrow> ((nat \<times> u8 \<times> bool + int) \<times> 'z cstate_scheme) outcome" where
  "consolewrite user src n = consolewrite_loop (nat n) 0 user src"

definition consolewrite_resume ::
    "bool \<Rightarrow> u64 \<Rightarrow> int \<Rightarrow> nat \<times> u8 \<times> bool \<Rightarrow> 'z cstate_scheme \<Rightarrow>
      ((nat \<times> u8 \<times> bool + int) \<times> 'z cstate_scheme) outcome" where
  "consolewrite_resume user src n l s =
     (case l of (i, c, ia) \<Rightarrow>
        obind (uartputc_resume c ia s) (\<lambda>(w, s). case w of
          Inl ia \<Rightarrow> Ok (Inl (i, c, ia), s)
        | Inr _ \<Rightarrow> consolewrite_loop (nat n - Suc i) (Suc i) user src s))"

section \<open>Reading\<close>

text \<open>The loop of \<open>consoleread\<close> with \<open>k\<close> bytes to go; \<open>target - n\<close> is returned.\<close>

primrec consoleread_loop ::
    "nat \<Rightarrow> nat \<Rightarrow> bool \<Rightarrow> u64 \<Rightarrow> 'z cstate_scheme \<Rightarrow> ((nat \<times> u64 \<times> bool + int) \<times> 'z cstate_scheme) outcome" where
  "consoleread_loop 0 target user dst s = obind (release_cons s) (\<lambda>s. Ok (Inr (int target), s))"
| "consoleread_loop (Suc k) target user dst s =
     (let finish = (\<lambda>n s. obind (release_cons s) (\<lambda>s. Ok (Inr (int target - int n), s)))
      in if cons_r s = cons_w s
         then with_proc s (\<lambda>p. obind (killed p s) (\<lambda>(kl, s).
                if kl then obind (release_cons s) (\<lambda>s. Ok (Inr (- 1), s))
                else obind (sleep_out_with ConsChan release_cons s) (\<lambda>(ia, s). Ok (Inl (Suc k, dst, ia), s))))
         else let c = cons_buf s (unat (cons_r s mod of_nat INPUT_BUF_SIZE)); s = s\<lparr>cons_r := cons_r s + 1\<rparr>
              in if c = 4
                 then finish (Suc k) (if Suc k < target then s\<lparr>cons_r := cons_r s - 1\<rparr> else s)
                 else obind (either_copyout user dst [c] s) (\<lambda>(r, s).
                        if r = - 1 then finish (Suc k) s
                        else if c = 0x0A then finish k s
                        else consoleread_loop k target user (dst + 1) s))"

definition consoleread ::
    "bool \<Rightarrow> u64 \<Rightarrow> int \<Rightarrow> 'z cstate_scheme \<Rightarrow> ((nat \<times> u64 \<times> bool + int) \<times> 'z cstate_scheme) outcome" where
  "consoleread user dst n s = obind (acquire_cons s) (consoleread_loop (nat n) (nat n) user dst)"

definition consoleread_resume ::
    "bool \<Rightarrow> int \<Rightarrow> nat \<times> u64 \<times> bool \<Rightarrow> 'z cstate_scheme \<Rightarrow>
      ((nat \<times> u64 \<times> bool + int) \<times> 'z cstate_scheme) outcome" where
  "consoleread_resume user n l s =
     (case l of (k, dst, ia) \<Rightarrow>
        obind (sleep_in_with ia acquire_cons s) (consoleread_loop k (nat n) user dst))"

section \<open>Interrupts\<close>

definition cons_at :: "u32 \<Rightarrow> 'z cstate_scheme \<Rightarrow> u8" where
  "cons_at i s = cons_buf s (unat (i mod of_nat INPUT_BUF_SIZE))"

text \<open>The loop of control-U takes one byte of the line back at a time.\<close>

primrec kill_line :: "nat \<Rightarrow> ('z cstate_scheme, unit) kop" where
  "kill_line 0 s = Ok ((), s)"
| "kill_line (Suc n) s =
     (if cons_e s \<noteq> cons_w s \<and> cons_at (cons_e s - 1) s \<noteq> 0x0A
      then kseq (kmod (\<lambda>s. s\<lparr>cons_e := cons_e s - 1\<rparr>)) (kseq (consputc BACKSPACE) (kill_line n)) s
      else Ok ((), s))"

text \<open>The \<open>switch\<close> of \<open>consoleintr\<close>, with \<open>cons.lock\<close> held.\<close>

definition console_key :: "u8 \<Rightarrow> ('z cstate_scheme, unit) kop" where
  "console_key c s =
     (if c = 0x10 then procdump s
      else if c = 0x15 then kill_line (unat (cons_e s - cons_w s)) s
      else if c = 8 \<or> c = 0x7F
      then (if cons_e s \<noteq> cons_w s
            then kseq (kmod (\<lambda>s. s\<lparr>cons_e := cons_e s - 1\<rparr>)) (consputc BACKSPACE) s
            else Ok ((), s))
      else if c \<noteq> 0 \<and> cons_e s - cons_r s < of_nat INPUT_BUF_SIZE
      then let c = (if c = 0x0D then 0x0A else c)
           in obind (consputc (uint c) s) (\<lambda>(_, s).
                let s = s\<lparr>cons_buf := (cons_buf s)(unat (cons_e s mod of_nat INPUT_BUF_SIZE) := c),
                          cons_e := cons_e s + 1\<rparr>
                in if c = 0x0A \<or> c = 4 \<or> cons_e s - cons_r s = of_nat INPUT_BUF_SIZE
                   then obind (wakeup (Some ConsChan) (s\<lparr>cons_w := cons_e s\<rparr>)) (\<lambda>s. Ok ((), s))
                   else Ok ((), s))
      else Ok ((), s))"

definition consoleintr :: "u8 \<Rightarrow> ('z cstate_scheme, unit) kop" where
  "consoleintr c s =
     obind (acquire_cons s) (\<lambda>s.
     obind (console_key c s) (\<lambda>(_, s).
     obind (release_cons s) (\<lambda>s. Ok ((), s))))"

text \<open>\<open>n\<close> bytes are waiting in the device.\<close>

primrec uartintr_loop :: "nat \<Rightarrow> ('z cstate_scheme, unit) kop" where
  "uartintr_loop 0 s = Ok ((), s)"
| "uartintr_loop (Suc n) s =
     (case uartgetc s of
        (None, s) \<Rightarrow> Ok ((), s)
      | (Some c, s) \<Rightarrow> kseq (consoleintr c) (uartintr_loop n) s)"

definition uartintr :: "('z cstate_scheme, unit) kop" where
  "uartintr s =
     obind (uartintr_loop (length (uart_rx s)) s) (\<lambda>(_, s).
     obind (acquire_tx s) (\<lambda>s.
     obind (uartstart s) (\<lambda>s.
     obind (release_tx s) (\<lambda>s. Ok ((), s)))))"

definition CONSOLE :: nat where "CONSOLE = 1"

definition consoleinit :: "'z cstate_scheme \<Rightarrow> 'z cstate_scheme" where
  "consoleinit s =
     (let s = uartinit (s\<lparr>cons_lock := initlock ''cons''\<rparr>)
      in s\<lparr>devsw := (devsw s)(CONSOLE := True)\<rparr>)"

end
