(* ===== verification/Bio.thy ===== *)
theory Bio
  imports Console
begin

text \<open>
  \<open>kernel/bio.c\<close> and \<open>kernel/buf.h\<close>: the buffer cache. Buffers are numbered \<open>0 .. NBUF - 1\<close>; number
  \<open>NBUF\<close> is \<open>bcache.head\<close>, and \<open>prev\<close> and \<open>next\<close> hold such numbers, so the list is the doubly
  linked list of the code. The two scans of \<open>bget\<close> follow the pointers and are bounded by the
  number of buffers: on a well-formed list they end at the head before the bound, otherwise
  they would not end (\<open>Block\<close>).

  The disk behind \<open>virtio_disk_rw\<close> is a function from block numbers to block contents that a
  request reads or writes as a whole, which is what the driver provides (theory
  \<open>Virtio_Correct\<close>); \<open>dtrace\<close> records the writes in the order in which they reach the disk, for the
  reasoning about crashes. \<open>bcache.lock\<close> makes each of its
  critical sections one step. A sleep lock that is taken makes the operation \<open>Block\<close>: it has not
  started, and its process is not in the state \<open>SLEEPING\<close> on the lock, so the \<open>wakeup\<close> of
  \<open>releasesleep\<close> has no effect in the model.
\<close>

section \<open>State\<close>

definition BSIZE :: nat where "BSIZE = 1024"

type_synonym block = "u8 list"

record buf =
  b_valid :: bool
  b_dev :: u32
  b_blockno :: u32
  b_lock :: sleeplock
  b_refcnt :: u32
  b_prev :: nat
  b_next :: nat
  b_data :: block

record bstate = cstate +
  bcache :: "nat \<Rightarrow> buf"
  disk :: "u32 \<Rightarrow> block"
  dtrace :: "(u32 \<times> block) list"

abbreviation bhead :: nat where
  "bhead \<equiv> NBUF"

definition upd_b :: "nat \<Rightarrow> (buf \<Rightarrow> buf) \<Rightarrow> 'z bstate_scheme \<Rightarrow> 'z bstate_scheme" where
  "upd_b i f s = s\<lparr>bcache := (bcache s)(i := f (bcache s i))\<rparr>"

text \<open>A completed request of \<open>virtio_disk_rw\<close>.\<close>

definition disk_rw :: "nat \<Rightarrow> bool \<Rightarrow> ('z bstate_scheme, unit) kop" where
  "disk_rw b wr = kmod (\<lambda>s.
     let bno = b_blockno (bcache s b); d = b_data (bcache s b)
     in if wr then s\<lparr>disk := (disk s)(bno := d), dtrace := dtrace s @ [(bno, d)]\<rparr>
        else upd_b b (\<lambda>x. x\<lparr>b_data := disk s bno\<rparr>) s)"

section \<open>The list of buffers\<close>

text \<open>Insert \<open>b\<close> after the head, and take it out, as the pointer assignments do.\<close>

definition lru_push :: "nat \<Rightarrow> 'z bstate_scheme \<Rightarrow> 'z bstate_scheme" where
  "lru_push b s =
     (let s = upd_b b (\<lambda>x. x\<lparr>b_next := b_next (bcache s bhead)\<rparr>) s;
          s = upd_b b (\<lambda>x. x\<lparr>b_prev := bhead\<rparr>) s;
          s = upd_b (b_next (bcache s bhead)) (\<lambda>x. x\<lparr>b_prev := b\<rparr>) s
      in upd_b bhead (\<lambda>x. x\<lparr>b_next := b\<rparr>) s)"

definition lru_remove :: "nat \<Rightarrow> 'z bstate_scheme \<Rightarrow> 'z bstate_scheme" where
  "lru_remove b s =
     (let s = upd_b (b_next (bcache s b)) (\<lambda>x. x\<lparr>b_prev := b_prev (bcache s b)\<rparr>) s
      in upd_b (b_prev (bcache s b)) (\<lambda>x. x\<lparr>b_next := b_next (bcache s b)\<rparr>) s)"

section \<open>bio.c\<close>

definition binit :: "'z bstate_scheme \<Rightarrow> 'z bstate_scheme" where
  "binit s =
     fold (\<lambda>b s. lru_push b (upd_b b (\<lambda>x. x\<lparr>b_lock := initsleeplock ''buffer''\<rparr>) s)) [0..<NBUF]
       (upd_b bhead (\<lambda>x. x\<lparr>b_prev := bhead, b_next := bhead\<rparr>) s)"

primrec bfind :: "nat \<Rightarrow> (buf \<Rightarrow> nat) \<Rightarrow> (buf \<Rightarrow> bool) \<Rightarrow> nat \<Rightarrow> 'z bstate_scheme \<Rightarrow> nat option outcome" where
  "bfind 0 dir P b s = (if b = bhead then Ok None else Block)"
| "bfind (Suc n) dir P b s =
     (if b = bhead then Ok None
      else if P (bcache s b) then Ok (Some b)
      else bfind n dir P (dir (bcache s b)) s)"

text \<open>\<open>acquiresleep\<close> and \<open>holdingsleep\<close> by the current process.\<close>

definition sleep_acquire :: "sleeplock \<Rightarrow> 'z kstate_scheme \<Rightarrow> sleeplock outcome" where
  "sleep_acquire lk s =
     (if sl_locked lk then Block else with_proc s (\<lambda>p. acquiresleep (p_pid (k_proc s p)) lk))"

definition sleep_holding :: "sleeplock \<Rightarrow> 'z kstate_scheme \<Rightarrow> bool outcome" where
  "sleep_holding lk s =
     (if \<not> sl_locked lk then Ok False
      else with_proc s (\<lambda>p. Ok (holdingsleep (p_pid (k_proc s p)) lk)))"

definition lock_buf :: "nat \<Rightarrow> ('z bstate_scheme, nat) kop" where
  "lock_buf b s = obind (sleep_acquire (b_lock (bcache s b)) s) (\<lambda>lk.
     Ok (b, upd_b b (\<lambda>x. x\<lparr>b_lock := lk\<rparr>) s))"

definition holding_buf :: "nat \<Rightarrow> ('z bstate_scheme, bool) kop" where
  "holding_buf b s = obind (sleep_holding (b_lock (bcache s b)) s) (\<lambda>h. Ok (h, s))"

definition bget :: "u32 \<Rightarrow> u32 \<Rightarrow> ('z bstate_scheme, nat) kop" where
  "bget dev blockno s =
     obind (bfind NBUF b_next (\<lambda>x. b_dev x = dev \<and> b_blockno x = blockno) (b_next (bcache s bhead)) s) (\<lambda>r.
       case r of
         Some b \<Rightarrow> lock_buf b (upd_b b (\<lambda>x. x\<lparr>b_refcnt := b_refcnt x + 1\<rparr>) s)
       | None \<Rightarrow>
           obind (bfind NBUF b_prev (\<lambda>x. b_refcnt x = 0) (b_prev (bcache s bhead)) s) (\<lambda>r.
             case r of
               Some b \<Rightarrow> lock_buf b (upd_b b (\<lambda>x. x\<lparr>b_dev := dev, b_blockno := blockno,
                   b_valid := False, b_refcnt := 1\<rparr>) s)
             | None \<Rightarrow> Panic ''bget: no buffers''))"

definition bread :: "u32 \<Rightarrow> u32 \<Rightarrow> ('z bstate_scheme, nat) kop" where
  "bread dev blockno =
     kbind (bget dev blockno) (\<lambda>b.
     kbind (kget (\<lambda>s. b_valid (bcache s b))) (\<lambda>valid.
       if \<not> valid
       then kseq (disk_rw b False) (kseq (kmod (upd_b b (\<lambda>x. x\<lparr>b_valid := True\<rparr>))) (kret b))
       else kret b))"

definition bwrite :: "nat \<Rightarrow> ('z bstate_scheme, unit) kop" where
  "bwrite b =
     kbind (holding_buf b) (\<lambda>h.
       if \<not> h then kpanic ''bwrite'' else disk_rw b True)"

definition brelse :: "nat \<Rightarrow> ('z bstate_scheme, unit) kop" where
  "brelse b =
     kbind (holding_buf b) (\<lambda>h.
       if \<not> h then kpanic ''brelse''
       else kmod (\<lambda>s.
         let s = upd_b b (\<lambda>x. x\<lparr>b_lock := releasesleep (b_lock x)\<rparr>) s;
             s = upd_b b (\<lambda>x. x\<lparr>b_refcnt := b_refcnt x - 1\<rparr>) s
         in if b_refcnt (bcache s b) = 0 then lru_push b (lru_remove b s) else s))"

definition bpin :: "nat \<Rightarrow> ('z bstate_scheme, unit) kop" where
  "bpin b = kmod (upd_b b (\<lambda>x. x\<lparr>b_refcnt := b_refcnt x + 1\<rparr>))"

definition bunpin :: "nat \<Rightarrow> ('z bstate_scheme, unit) kop" where
  "bunpin b = kmod (upd_b b (\<lambda>x. x\<lparr>b_refcnt := b_refcnt x - 1\<rparr>))"

end
