(* ===== verification/Log.thy ===== *)
theory Log
  imports Bio
begin

text \<open>
  \<open>kernel/log.c\<close>: the redo log. \<open>struct log\<close> is the record extension \<open>lstate\<close> of the buffer-cache
  state; \<open>log.lh\<close> is \<open>lh_n\<close> and \<open>lh_block\<close>. The header block on disk is decoded and encoded at
  the byte level (little-endian 32-bit integers). \<open>log.lock\<close> makes its critical sections one
  step each; \<open>begin_op\<close> that has to wait is \<open>Block\<close>, to be tried again after a \<open>wakeup(&log)\<close>.
\<close>

section \<open>State\<close>

record lstate = bstate +
  lg_start :: u32
  lg_size :: u32
  lg_outstanding :: int
  lg_committing :: bool
  lg_dev :: u32
  lh_n :: int
  lh_block :: "nat \<Rightarrow> u32"

record superblock =
  sb_magic :: u32
  sb_size :: u32
  sb_nblocks :: u32
  sb_ninodes :: u32
  sb_nlog :: u32
  sb_logstart :: u32
  sb_inodestart :: u32
  sb_bmapstart :: u32

definition logheader_size :: nat where
  "logheader_size = 4 + 4 * LOGSIZE"

text \<open>The 32-bit integer at an offset of a block.\<close>

definition get32 :: "block \<Rightarrow> nat \<Rightarrow> u32" where
  "get32 d off = word_of_bytes (take 4 (drop off d))"

definition put_bytes :: "nat \<Rightarrow> u8 list \<Rightarrow> block \<Rightarrow> block" where
  "put_bytes off bs d = take off d @ bs @ drop (off + length bs) d"

definition put32 :: "nat \<Rightarrow> u32 \<Rightarrow> block \<Rightarrow> block" where
  "put32 off w d = put_bytes off (bytes_of_word 4 w) d"

definition set_data :: "nat \<Rightarrow> (block \<Rightarrow> block) \<Rightarrow> ('z bstate_scheme, unit) kop" where
  "set_data b f = kmod (upd_b b (\<lambda>x. x\<lparr>b_data := f (b_data x)\<rparr>))"

definition get_data :: "nat \<Rightarrow> ('z bstate_scheme, block) kop" where
  "get_data b = kget (\<lambda>s. b_data (bcache s b))"

section \<open>Installing and committing\<close>

definition install_one :: "bool \<Rightarrow> nat \<Rightarrow> ('z lstate_scheme, unit) kop" where
  "install_one recovering tail =
     kbind (kget (\<lambda>s. (lg_dev s, lg_start s + of_nat tail + 1, lh_block s tail))) (\<lambda>(dev, lb, db).
     kbind (bread dev lb) (\<lambda>lbuf.
     kbind (bread dev db) (\<lambda>dbuf.
     kbind (get_data lbuf) (\<lambda>d.
     kseq (set_data dbuf (\<lambda>_. d)) (
     kseq (bwrite dbuf) (
     kseq (if \<not> recovering then bunpin dbuf else kret ()) (
     kseq (brelse lbuf) (brelse dbuf))))))))"

definition install_trans :: "bool \<Rightarrow> ('z lstate_scheme, unit) kop" where
  "install_trans recovering =
     kbind (kget lh_n) (\<lambda>n. kfor [0..<nat n] (install_one recovering))"

definition read_head :: "('z lstate_scheme, unit) kop" where
  "read_head =
     kbind (kget (\<lambda>s. (lg_dev s, lg_start s))) (\<lambda>(dev, start).
     kbind (bread dev start) (\<lambda>b.
     kbind (get_data b) (\<lambda>d.
     kseq (kmod (\<lambda>s. s\<lparr>lh_n := sint (get32 d 0),
         lh_block := (\<lambda>i. if int i < sint (get32 d 0) then get32 d (4 + 4 * i) else lh_block s i)\<rparr>))
       (brelse b))))"

definition header_bytes :: "int \<Rightarrow> (nat \<Rightarrow> u32) \<Rightarrow> block \<Rightarrow> block" where
  "header_bytes n blk d =
     fold (\<lambda>i d. put32 (4 + 4 * i) (blk i) d) [0..<nat n] (put32 0 (of_int n) d)"

definition write_head :: "('z lstate_scheme, unit) kop" where
  "write_head =
     kbind (kget (\<lambda>s. (lg_dev s, lg_start s))) (\<lambda>(dev, start).
     kbind (bread dev start) (\<lambda>b.
     kbind (kget (\<lambda>s. (lh_n s, lh_block s))) (\<lambda>(n, blk).
     kseq (set_data b (header_bytes n blk)) (
     kseq (bwrite b) (brelse b)))))"

definition recover_from_log :: "('z lstate_scheme, unit) kop" where
  "recover_from_log =
     kseq (read_head) (
     kseq (install_trans True) (
     kseq (kmod (\<lambda>s. s\<lparr>lh_n := 0\<rparr>)) (write_head)))"

definition initlog :: "u32 \<Rightarrow> superblock \<Rightarrow> ('z lstate_scheme, unit) kop" where
  "initlog dev sb =
     (if logheader_size \<ge> BSIZE then kpanic ''initlog: too big logheader''
      else kseq (kmod (\<lambda>s. s\<lparr>lg_start := sb_logstart sb, lg_size := sb_nlog sb, lg_dev := dev\<rparr>))
             (recover_from_log))"

definition log_one :: "nat \<Rightarrow> ('z lstate_scheme, unit) kop" where
  "log_one tail =
     kbind (kget (\<lambda>s. (lg_dev s, lg_start s + of_nat tail + 1, lh_block s tail))) (\<lambda>(dev, lb, db).
     kbind (bread dev lb) (\<lambda>to.
     kbind (bread dev db) (\<lambda>from.
     kbind (get_data from) (\<lambda>d.
     kseq (set_data to (\<lambda>_. d)) (
     kseq (bwrite to) (
     kseq (brelse from) (brelse to)))))))"

definition write_log :: "('z lstate_scheme, unit) kop" where
  "write_log = kbind (kget lh_n) (\<lambda>n. kfor [0..<nat n] (log_one))"

definition commit :: "('z lstate_scheme, unit) kop" where
  "commit =
     kbind (kget lh_n) (\<lambda>n.
       if n > 0
       then kseq (write_log) (
            kseq (write_head) (
            kseq (install_trans False) (
            kseq (kmod (\<lambda>s. s\<lparr>lh_n := 0\<rparr>)) (write_head))))
       else kret ())"

section \<open>Transactions\<close>

definition begin_op :: "('z lstate_scheme, unit) kop" where
  "begin_op s =
     (if lg_committing s then Block
      else if lh_n s + (lg_outstanding s + 1) * int MAXOPBLOCKS > int LOGSIZE then Block
      else Ok ((), s\<lparr>lg_outstanding := lg_outstanding s + 1\<rparr>))"

definition end_op :: "('z lstate_scheme, unit) kop" where
  "end_op =
     kseq (kmod (\<lambda>s. s\<lparr>lg_outstanding := lg_outstanding s - 1\<rparr>)) (
     kbind (kget (\<lambda>s. (lg_committing s, lg_outstanding s))) (\<lambda>(committing, outstanding).
       if committing then kpanic ''log.committing''
       else if outstanding = 0
       then kseq (kmod (\<lambda>s. s\<lparr>lg_committing := True\<rparr>)) (
            kseq (commit) (kmod (\<lambda>s. s\<lparr>lg_committing := False\<rparr>)))
       else kret ()))"

primrec absorb :: "nat \<Rightarrow> (nat \<Rightarrow> u32) \<Rightarrow> u32 \<Rightarrow> nat \<Rightarrow> nat" where
  "absorb 0 blk b i = i"
| "absorb (Suc k) blk b i = (if blk i = b then i else absorb k blk b (i + 1))"

definition log_write :: "nat \<Rightarrow> ('z lstate_scheme, unit) kop" where
  "log_write b =
     kbind (kget (\<lambda>s. s)) (\<lambda>s.
       if lh_n s \<ge> int LOGSIZE \<or> lh_n s \<ge> sint (lg_size s) - 1 then kpanic ''too big a transaction''
       else if lg_outstanding s < 1 then kpanic ''log_write outside of trans''
       else let bno = b_blockno (bcache s b); i = absorb (nat (lh_n s)) (lh_block s) bno 0
            in kseq (kmod (\<lambda>s. s\<lparr>lh_block := (lh_block s)(i := bno)\<rparr>))
                 (if int i = lh_n s
                  then kseq (bpin b) (kmod (\<lambda>s. s\<lparr>lh_n := lh_n s + 1\<rparr>))
                  else kret ()))"

end
