(* ===== verification/Fs.thy ===== *)
theory Fs
  imports Log
begin

text \<open>
  \<open>kernel/fs.c\<close> and \<open>kernel/fs.h\<close>: blocks, inodes, directories and path names. The superblock and
  the inode table extend the state. On-disk structures are decoded from and encoded to the bytes
  of a block (\<open>struct dinode\<close>, \<open>struct dirent\<close>, the bitmap, indirect blocks). A \<open>struct inode *\<close> is an
  index into \<open>itable.inode\<close>. A path is the byte list of a C string, without its terminator.

  \<open>readi\<close> and \<open>writei\<close> take the destination or source as an operation, because the code uses them
  with user addresses, with kernel addresses and with variables on the kernel stack; the bytes
  read are also returned, which stands for the contents of such a variable.
\<close>

section \<open>fs.h\<close>

definition ROOTINO :: u32 where "ROOTINO = 1"
definition FSMAGIC :: u32 where "FSMAGIC = 0x10203040"
definition NDIRECT :: nat where "NDIRECT = 12"
definition NINDIRECT :: nat where "NINDIRECT = 256"
definition MAXFILE :: nat where "MAXFILE = NDIRECT + NINDIRECT"
definition DIRSIZ :: nat where "DIRSIZ = 14"
definition dinode_size :: nat where "dinode_size = 64"
definition dirent_size :: nat where "dirent_size = 16"
definition IPB :: u32 where "IPB = 16"
definition BPB :: nat where "BPB = 8192"
definition T_DIR :: u16 where "T_DIR = 1"
definition T_FILE :: u16 where "T_FILE = 2"
definition T_DEVICE :: u16 where "T_DEVICE = 3"

definition IBLOCK :: "u32 \<Rightarrow> superblock \<Rightarrow> u32" where
  "IBLOCK i sb = i div IPB + sb_inodestart sb"

definition BBLOCK :: "u32 \<Rightarrow> superblock \<Rightarrow> u32" where
  "BBLOCK b sb = b div of_nat BPB + sb_bmapstart sb"

record dinode =
  d_type :: u16
  d_major :: u16
  d_minor :: u16
  d_nlink :: u16
  d_size :: u32
  d_addrs :: "u32 list"

record dirent =
  de_inum :: u16
  de_name :: "u8 list"

record stat =
  st_dev :: u32
  st_ino :: u32
  st_type :: u16
  st_nlink :: u16
  st_size :: u64

record inode =
  i_dev :: u32
  i_inum :: u32
  i_ref :: int
  i_lock :: sleeplock
  i_valid :: bool
  i_type :: u16
  i_major :: u16
  i_minor :: u16
  i_nlink :: u16
  i_size :: u32
  i_addrs :: "u32 list"

record fstate = lstate +
  sb :: superblock
  itable :: "nat \<Rightarrow> inode"

definition upd_i :: "nat \<Rightarrow> (inode \<Rightarrow> inode) \<Rightarrow> 'z fstate_scheme \<Rightarrow> 'z fstate_scheme" where
  "upd_i i f s = s\<lparr>itable := (itable s)(i := f (itable s i))\<rparr>"

definition get16 :: "u8 list \<Rightarrow> nat \<Rightarrow> u16" where
  "get16 d off = word_of_bytes (take 2 (drop off d))"

definition dinode_of_bytes :: "u8 list \<Rightarrow> dinode" where
  "dinode_of_bytes d = \<lparr>d_type = get16 d 0, d_major = get16 d 2, d_minor = get16 d 4, d_nlink = get16 d 6,
     d_size = get32 d 8, d_addrs = map (\<lambda>k. get32 d (12 + 4 * k)) [0..<NDIRECT + 1]\<rparr>"

definition bytes_of_dinode :: "dinode \<Rightarrow> u8 list" where
  "bytes_of_dinode di =
     bytes_of_word 2 (d_type di) @ bytes_of_word 2 (d_major di) @ bytes_of_word 2 (d_minor di) @
     bytes_of_word 2 (d_nlink di) @ bytes_of_word 4 (d_size di) @ concat (map (bytes_of_word 4) (d_addrs di))"

definition dirent_of_bytes :: "u8 list \<Rightarrow> dirent" where
  "dirent_of_bytes d = \<lparr>de_inum = get16 d 0, de_name = take DIRSIZ (drop 2 d)\<rparr>"

definition bytes_of_dirent :: "dirent \<Rightarrow> u8 list" where
  "bytes_of_dirent de = bytes_of_word 2 (de_inum de) @ de_name de"

section \<open>Super block and blocks\<close>

definition superblock_of_bytes :: "u8 list \<Rightarrow> superblock" where
  "superblock_of_bytes d = \<lparr>sb_magic = get32 d 0, sb_size = get32 d 4, sb_nblocks = get32 d 8,
     sb_ninodes = get32 d 12, sb_nlog = get32 d 16, sb_logstart = get32 d 20,
     sb_inodestart = get32 d 24, sb_bmapstart = get32 d 28\<rparr>"

definition readsb :: "u32 \<Rightarrow> ('z fstate_scheme, unit) kop" where
  "readsb dev =
     kbind (bread dev 1) (\<lambda>bp.
     kbind (get_data bp) (\<lambda>d.
     kseq (kmod (\<lambda>s. s\<lparr>sb := superblock_of_bytes d\<rparr>)) (brelse bp)))"

definition fsinit :: "u32 \<Rightarrow> ('z fstate_scheme, unit) kop" where
  "fsinit dev =
     kseq (readsb dev) (
     kbind (kget sb) (\<lambda>sb.
       if sb_magic sb \<noteq> FSMAGIC then kpanic ''invalid file system'' else initlog dev sb))"

definition bzero :: "u32 \<Rightarrow> u32 \<Rightarrow> ('z fstate_scheme, unit) kop" where
  "bzero dev bno =
     kbind (bread dev bno) (\<lambda>bp.
     kseq (set_data bp (\<lambda>_. replicate BSIZE 0)) (
     kseq (log_write bp) (brelse bp)))"

definition bit_clear :: "block \<Rightarrow> nat \<Rightarrow> bool" where
  "bit_clear d bi \<longleftrightarrow> d ! (bi div 8) AND push_bit (bi mod 8) 1 = 0"

definition set_bit_at :: "nat \<Rightarrow> block \<Rightarrow> block" where
  "set_bit_at bi d = d[bi div 8 := d ! (bi div 8) OR push_bit (bi mod 8) 1]"

definition clear_bit_at :: "nat \<Rightarrow> block \<Rightarrow> block" where
  "clear_bit_at bi d = d[bi div 8 := d ! (bi div 8) AND NOT (push_bit (bi mod 8) 1)]"

text \<open>One bitmap block after the other, from block number \<open>b\<close>; the last ends at \<open>sb.size\<close>.\<close>

primrec balloc_loop :: "nat list \<Rightarrow> u32 \<Rightarrow> ('z fstate_scheme, u32) kop" where
  "balloc_loop [] dev = kret 0"
| "balloc_loop (b # bs) dev =
     kbind (kget sb) (\<lambda>sb.
     kbind (bread dev (BBLOCK (of_nat b) sb)) (\<lambda>bp.
     kbind (get_data bp) (\<lambda>d.
       case find (bit_clear d) [0..<min BPB (unat (sb_size sb) - b)] of
         Some bi \<Rightarrow>
           kseq (set_data bp (set_bit_at bi)) (
           kseq (log_write bp) (
           kseq (brelse bp) (
           kseq (bzero dev (of_nat (b + bi))) (kret (of_nat (b + bi))))))
       | None \<Rightarrow> kseq (brelse bp) (balloc_loop bs dev))))"

definition balloc :: "u32 \<Rightarrow> ('z fstate_scheme, u32) kop" where
  "balloc dev =
     kbind (kget sb) (\<lambda>sb.
       balloc_loop (map (\<lambda>k. BPB * k) [0..<(unat (sb_size sb) + BPB - 1) div BPB]) dev)"

definition bfree :: "u32 \<Rightarrow> u32 \<Rightarrow> ('z fstate_scheme, unit) kop" where
  "bfree dev b =
     kbind (kget sb) (\<lambda>sb.
     kbind (bread dev (BBLOCK b sb)) (\<lambda>bp.
     kbind (get_data bp) (\<lambda>d.
       let bi = unat b mod BPB
       in if bit_clear d bi then kpanic ''freeing free block''
          else kseq (set_data bp (clear_bit_at bi)) (
               kseq (log_write bp) (brelse bp)))))"

section \<open>Inodes\<close>

definition iinit :: "'z fstate_scheme \<Rightarrow> 'z fstate_scheme" where
  "iinit s = fold (\<lambda>i. upd_i i (\<lambda>ip. ip\<lparr>i_lock := initsleeplock ''inode''\<rparr>)) [0..<NINODE] s"

primrec iget_loop :: "nat list \<Rightarrow> u32 \<Rightarrow> u32 \<Rightarrow> nat option \<Rightarrow> ('z fstate_scheme, nat) kop" where
  "iget_loop [] dev inum vacant s =
     (case vacant of
        None \<Rightarrow> Panic ''iget: no inodes''
      | Some ip \<Rightarrow> Ok (ip, upd_i ip (\<lambda>x. x\<lparr>i_dev := dev, i_inum := inum, i_ref := 1, i_valid := False\<rparr>) s))"
| "iget_loop (ip # ips) dev inum vacant s =
     (if i_ref (itable s ip) > 0 \<and> i_dev (itable s ip) = dev \<and> i_inum (itable s ip) = inum
      then Ok (ip, upd_i ip (\<lambda>x. x\<lparr>i_ref := i_ref x + 1\<rparr>) s)
      else iget_loop ips dev inum
             (if vacant = None \<and> i_ref (itable s ip) = 0 then Some ip else vacant) s)"

definition iget :: "u32 \<Rightarrow> u32 \<Rightarrow> ('z fstate_scheme, nat) kop" where
  "iget dev inum = iget_loop [0..<NINODE] dev inum None"

definition dinode_off :: "u32 \<Rightarrow> nat" where
  "dinode_off inum = dinode_size * unat (inum mod IPB)"

primrec ialloc_loop :: "nat list \<Rightarrow> u32 \<Rightarrow> u16 \<Rightarrow> ('z fstate_scheme, nat option) kop" where
  "ialloc_loop [] dev type = kret None"
| "ialloc_loop (n # ns) dev type =
     (let inum = of_nat n
      in kbind (kget sb) (\<lambda>sb.
         kbind (bread dev (IBLOCK inum sb)) (\<lambda>bp.
         kbind (get_data bp) (\<lambda>d.
           if get16 d (dinode_off inum) = 0
           then kseq (set_data bp (put_bytes (dinode_off inum)
                  (bytes_of_word 2 type @ replicate (dinode_size - 2) 0))) (
                kseq (log_write bp) (
                kseq (brelse bp) (
                kbind (iget dev inum) (\<lambda>ip. kret (Some ip)))))
           else kseq (brelse bp) (ialloc_loop ns dev type)))))"

definition ialloc :: "u32 \<Rightarrow> u16 \<Rightarrow> ('z fstate_scheme, nat option) kop" where
  "ialloc dev type = kbind (kget sb) (\<lambda>sb. ialloc_loop [1..<unat (sb_ninodes sb)] dev type)"

definition dinode_of_inode :: "inode \<Rightarrow> dinode" where
  "dinode_of_inode ip = \<lparr>d_type = i_type ip, d_major = i_major ip, d_minor = i_minor ip,
     d_nlink = i_nlink ip, d_size = i_size ip, d_addrs = i_addrs ip\<rparr>"

definition iupdate :: "nat \<Rightarrow> ('z fstate_scheme, unit) kop" where
  "iupdate i =
     kbind (kget (\<lambda>s. (itable s i, sb s))) (\<lambda>(ip, sb).
     kbind (bread (i_dev ip) (IBLOCK (i_inum ip) sb)) (\<lambda>bp.
     kseq (set_data bp (put_bytes (dinode_off (i_inum ip)) (bytes_of_dinode (dinode_of_inode ip)))) (
     kseq (log_write bp) (brelse bp))))"

definition idup :: "nat \<Rightarrow> ('z fstate_scheme, nat) kop" where
  "idup i = kseq (kmod (upd_i i (\<lambda>x. x\<lparr>i_ref := i_ref x + 1\<rparr>))) (kret i)"

definition lock_inode :: "nat \<Rightarrow> ('z fstate_scheme, unit) kop" where
  "lock_inode i s = obind (sleep_acquire (i_lock (itable s i)) s) (\<lambda>lk.
     Ok ((), upd_i i (\<lambda>x. x\<lparr>i_lock := lk\<rparr>) s))"

definition ilock :: "nat \<Rightarrow> ('z fstate_scheme, unit) kop" where
  "ilock i =
     kbind (kget (\<lambda>s. i_ref (itable s i))) (\<lambda>r.
       if r < 1 then kpanic ''ilock''
       else kseq (lock_inode i) (
            kbind (kget (\<lambda>s. (itable s i, sb s))) (\<lambda>(ip, sb).
              if i_valid ip then kret ()
              else kbind (bread (i_dev ip) (IBLOCK (i_inum ip) sb)) (\<lambda>bp.
                   kbind (get_data bp) (\<lambda>d.
                     let di = dinode_of_bytes (drop (dinode_off (i_inum ip)) d)
                     in kseq (kmod (upd_i i (\<lambda>x. x\<lparr>i_type := d_type di, i_major := d_major di,
                          i_minor := d_minor di, i_nlink := d_nlink di, i_size := d_size di,
                          i_addrs := d_addrs di\<rparr>))) (
                        kseq (brelse bp) (
                        kseq (kmod (upd_i i (\<lambda>x. x\<lparr>i_valid := True\<rparr>))) (
                          if d_type di = 0 then kpanic ''ilock: no type'' else kret ()))))))))"

definition iunlock :: "nat \<Rightarrow> ('z fstate_scheme, unit) kop" where
  "iunlock i s = obind (sleep_holding (i_lock (itable s i)) s) (\<lambda>h.
     if \<not> h \<or> i_ref (itable s i) < 1 then Panic ''iunlock''
     else Ok ((), upd_i i (\<lambda>x. x\<lparr>i_lock := releasesleep (i_lock x)\<rparr>) s))"

definition itrunc_direct :: "nat \<Rightarrow> nat \<Rightarrow> ('z fstate_scheme, unit) kop" where
  "itrunc_direct i k =
     kbind (kget (\<lambda>s. itable s i)) (\<lambda>ip.
       if i_addrs ip ! k \<noteq> 0
       then kseq (bfree (i_dev ip) (i_addrs ip ! k)) (kmod (upd_i i (\<lambda>x. x\<lparr>i_addrs := (i_addrs x)[k := 0]\<rparr>)))
       else kret ())"

definition itrunc :: "nat \<Rightarrow> ('z fstate_scheme, unit) kop" where
  "itrunc i =
     kseq (kfor [0..<NDIRECT] (itrunc_direct i)) (
     kseq (kbind (kget (\<lambda>s. itable s i)) (\<lambda>ip.
             if i_addrs ip ! NDIRECT \<noteq> 0
             then kbind (bread (i_dev ip) (i_addrs ip ! NDIRECT)) (\<lambda>bp.
                  kseq (kfor [0..<NINDIRECT] (\<lambda>j.
                     kbind (get_data bp) (\<lambda>d.
                       if get32 d (4 * j) \<noteq> 0 then bfree (i_dev ip) (get32 d (4 * j)) else kret ()))) (
                  kseq (brelse bp) (
                  kseq (bfree (i_dev ip) (i_addrs ip ! NDIRECT))
                    (kmod (upd_i i (\<lambda>x. x\<lparr>i_addrs := (i_addrs x)[NDIRECT := 0]\<rparr>))))))
             else kret ())) (
     kseq (kmod (upd_i i (\<lambda>x. x\<lparr>i_size := 0\<rparr>))) (iupdate i)))"

definition iput :: "nat \<Rightarrow> ('z fstate_scheme, unit) kop" where
  "iput i =
     kseq (kbind (kget (\<lambda>s. itable s i)) (\<lambda>ip.
             if i_ref ip = 1 \<and> i_valid ip \<and> i_nlink ip = 0
             then kseq (lock_inode i) (
                  kseq (itrunc i) (
                  kseq (kmod (upd_i i (\<lambda>x. x\<lparr>i_type := 0\<rparr>))) (
                  kseq (iupdate i) (
                  kseq (kmod (upd_i i (\<lambda>x. x\<lparr>i_valid := False\<rparr>)))
                    (kmod (upd_i i (\<lambda>x. x\<lparr>i_lock := releasesleep (i_lock x)\<rparr>)))))))
             else kret ()))
       (kmod (upd_i i (\<lambda>x. x\<lparr>i_ref := i_ref x - 1\<rparr>)))"

definition iunlockput :: "nat \<Rightarrow> ('z fstate_scheme, unit) kop" where
  "iunlockput i = kseq (iunlock i) (iput i)"

section \<open>Inode content\<close>

definition bmap :: "nat \<Rightarrow> nat \<Rightarrow> ('z fstate_scheme, u32) kop" where
  "bmap i bn =
     kbind (kget (\<lambda>s. itable s i)) (\<lambda>ip.
       if bn < NDIRECT
       then if i_addrs ip ! bn \<noteq> 0 then kret (i_addrs ip ! bn)
            else kbind (balloc (i_dev ip)) (\<lambda>addr.
                   if addr = 0 then kret 0
                   else kseq (kmod (upd_i i (\<lambda>x. x\<lparr>i_addrs := (i_addrs x)[bn := addr]\<rparr>))) (kret addr))
       else if bn - NDIRECT < NINDIRECT
       then let bn = bn - NDIRECT
            in kbind (if i_addrs ip ! NDIRECT \<noteq> 0 then kret (i_addrs ip ! NDIRECT)
                      else kbind (balloc (i_dev ip)) (\<lambda>addr.
                             if addr = 0 then kret 0
                             else kseq (kmod (upd_i i (\<lambda>x. x\<lparr>i_addrs := (i_addrs x)[NDIRECT := addr]\<rparr>))) (kret addr)))
                 (\<lambda>addr. if addr = 0 then kret 0
                    else kbind (bread (i_dev ip) addr) (\<lambda>bp.
                         kbind (get_data bp) (\<lambda>d.
                         kbind (if get32 d (4 * bn) \<noteq> 0 then kret (get32 d (4 * bn))
                                else kbind (balloc (i_dev ip)) (\<lambda>addr.
                                       if addr \<noteq> 0
                                       then kseq (set_data bp (put32 (4 * bn) addr)) (
                                            kseq (log_write bp) (kret addr))
                                       else kret addr))
                           (\<lambda>addr. kseq (brelse bp) (kret addr)))))
       else kpanic ''bmap: out of range'')"

definition stati :: "nat \<Rightarrow> 'z fstate_scheme \<Rightarrow> stat" where
  "stati i s = (let ip = itable s i in \<lparr>st_dev = i_dev ip, st_ino = i_inum ip, st_type = i_type ip,
     st_nlink = i_nlink ip, st_size = ucast (i_size ip)\<rparr>)"

text \<open>
  The loops: \<open>k\<close> bytes are left, \<open>tot\<close> are done, \<open>off\<close> is the position in the file.
\<close>

function readi_loop ::
    "(nat \<Rightarrow> u8 list \<Rightarrow> ('z fstate_scheme, int) kop) \<Rightarrow> nat \<Rightarrow> nat \<Rightarrow> nat \<Rightarrow> nat \<Rightarrow>
      ('z fstate_scheme, int \<times> u8 list) kop" where
  "readi_loop sink i off tot k s =
     (if k = 0 then Ok ((int tot, []), s)
      else obind (bmap i (off div BSIZE) s) (\<lambda>(addr, s).
        if addr = 0 then Ok ((int tot, []), s)
        else obind (bread (i_dev (itable s i)) addr s) (\<lambda>(bp, s).
          let m = min k (BSIZE - off mod BSIZE);
              bs = take m (drop (off mod BSIZE) (b_data (bcache s bp)))
          in obind (sink tot bs s) (\<lambda>(r, s).
               if r = - 1 then obind (brelse bp s) (\<lambda>(_, s). Ok ((- 1, []), s))
               else obind (brelse bp s) (\<lambda>(_, s).
                    obind (readi_loop sink i (off + m) (tot + m) (k - m) s) (\<lambda>((t, rest), s).
                      Ok ((t, bs @ rest), s)))))))"
  by pat_completeness auto
termination
proof (relation "measure (\<lambda>(_, _, _, _, k, _). k)", goal_cases)
  case 1
  then show ?case by simp
next
  case (2 sink i off tot k s x addr s1 x1 bp s2 m bs x2 r s3 x3 u s4)
  then have "0 < m" by (simp add: BSIZE_def)
  with 2 show ?case by simp
qed

declare readi_loop.simps [simp del]

definition readi ::
    "(nat \<Rightarrow> u8 list \<Rightarrow> ('z fstate_scheme, int) kop) \<Rightarrow> nat \<Rightarrow> u32 \<Rightarrow> u32 \<Rightarrow>
      ('z fstate_scheme, int \<times> u8 list) kop" where
  "readi sink i off n s =
     (let sz = i_size (itable s i)
      in if off > sz \<or> off + n < off then Ok ((0, []), s)
         else let n = (if off + n > sz then sz - off else n)
              in readi_loop sink i (unat off) 0 (unat n) s)"

text \<open>Reading into a variable of the kernel, and to a user or kernel address.\<close>

definition to_local :: "nat \<Rightarrow> u8 list \<Rightarrow> ('z fstate_scheme, int) kop" where
  "to_local tot bs = kret 0"

definition to_addr :: "bool \<Rightarrow> u64 \<Rightarrow> nat \<Rightarrow> u8 list \<Rightarrow> ('z fstate_scheme, int) kop" where
  "to_addr user dst tot bs = either_copyout user (dst + of_nat tot) bs"

function writei_loop ::
    "(nat \<Rightarrow> nat \<Rightarrow> ('z fstate_scheme, int \<times> u8 list) kop) \<Rightarrow> nat \<Rightarrow> nat \<Rightarrow> nat \<Rightarrow> nat \<Rightarrow>
      ('z fstate_scheme, nat) kop" where
  "writei_loop src i off tot k s =
     (if k = 0 then Ok (tot, s)
      else obind (bmap i (off div BSIZE) s) (\<lambda>(addr, s).
        if addr = 0 then Ok (tot, s)
        else obind (bread (i_dev (itable s i)) addr s) (\<lambda>(bp, s).
          let m = min k (BSIZE - off mod BSIZE)
          in obind (src tot m s) (\<lambda>((r, bs), s).
               obind (set_data bp (put_bytes (off mod BSIZE) bs) s) (\<lambda>(_, s).
                 if r = - 1 then obind (brelse bp s) (\<lambda>(_, s). Ok (tot, s))
                 else obind (log_write bp s) (\<lambda>(_, s).
                      obind (brelse bp s) (\<lambda>(_, s).
                        writei_loop src i (off + m) (tot + m) (k - m) s)))))))"
  by pat_completeness auto
termination
proof (relation "measure (\<lambda>(_, _, _, _, k, _). k)", goal_cases)
  case 1
  then show ?case by simp
next
  case (2 src i off tot k s x addr s1 x1 bp s2 m)
  then have "0 < m" by (simp add: BSIZE_def)
  with 2 show ?case by simp
qed

declare writei_loop.simps [simp del]

definition writei ::
    "(nat \<Rightarrow> nat \<Rightarrow> ('z fstate_scheme, int \<times> u8 list) kop) \<Rightarrow> nat \<Rightarrow> u32 \<Rightarrow> u32 \<Rightarrow>
      ('z fstate_scheme, int) kop" where
  "writei src i off n s =
     (let sz = i_size (itable s i)
      in if off > sz \<or> off + n < off then Ok (- 1, s)
         else if unat (off + n) > MAXFILE * BSIZE then Ok (- 1, s)
         else obind (writei_loop src i (unat off) 0 (unat n) s) (\<lambda>(tot, s).
                let off' = off + of_nat tot;
                    s = (if off' > i_size (itable s i) then upd_i i (\<lambda>x. x\<lparr>i_size := off'\<rparr>) s else s)
                in obind (iupdate i s) (\<lambda>(_, s). Ok (int tot, s))))"

definition from_local :: "u8 list \<Rightarrow> nat \<Rightarrow> nat \<Rightarrow> ('z fstate_scheme, int \<times> u8 list) kop" where
  "from_local buf tot m = kret (0, take m (drop tot buf))"

definition from_addr :: "bool \<Rightarrow> u64 \<Rightarrow> nat \<Rightarrow> nat \<Rightarrow> ('z fstate_scheme, int \<times> u8 list) kop" where
  "from_addr user src tot m s = obind (either_copyin user (src + of_nat tot) m s) (\<lambda>r. Ok (r, s))"

section \<open>Directories\<close>

definition cstr_of :: "u8 list \<Rightarrow> cstr" where
  "cstr_of bs i = (if i < length bs then bs ! i else 0)"

definition namecmp :: "u8 list \<Rightarrow> u8 list \<Rightarrow> int" where
  "namecmp a b = strncmp DIRSIZ (cstr_of a) (cstr_of b)"

definition dir_offsets :: "u32 \<Rightarrow> nat list" where
  "dir_offsets sz = map (\<lambda>k. dirent_size * k) [0..<(unat sz + dirent_size - 1) div dirent_size]"

definition read_dirent :: "string \<Rightarrow> nat \<Rightarrow> nat \<Rightarrow> ('z fstate_scheme, dirent) kop" where
  "read_dirent msg dp off =
     kbind (readi to_local dp (of_nat off) (of_nat dirent_size)) (\<lambda>(r, bs).
       if r \<noteq> int dirent_size then kpanic msg else kret (dirent_of_bytes bs))"

primrec dirlookup_loop :: "nat list \<Rightarrow> nat \<Rightarrow> u8 list \<Rightarrow> ('z fstate_scheme, (nat \<times> u32) option) kop" where
  "dirlookup_loop [] dp name = kret None"
| "dirlookup_loop (off # offs) dp name =
     kbind (read_dirent ''dirlookup read'' dp off) (\<lambda>de.
       if de_inum de = 0 then dirlookup_loop offs dp name
       else if namecmp name (de_name de) = 0
       then kbind (kget (\<lambda>s. i_dev (itable s dp))) (\<lambda>dev.
            kbind (iget dev (ucast (de_inum de))) (\<lambda>ip. kret (Some (ip, of_nat off))))
       else dirlookup_loop offs dp name)"

definition dirlookup :: "nat \<Rightarrow> u8 list \<Rightarrow> ('z fstate_scheme, (nat \<times> u32) option) kop" where
  "dirlookup dp name =
     kbind (kget (\<lambda>s. itable s dp)) (\<lambda>d.
       if i_type d \<noteq> T_DIR then kpanic ''dirlookup not DIR''
       else dirlookup_loop (dir_offsets (i_size d)) dp name)"

primrec dirlink_slot :: "nat list \<Rightarrow> nat \<Rightarrow> nat \<Rightarrow> ('z fstate_scheme, nat) kop" where
  "dirlink_slot [] dp last_off = kret last_off"
| "dirlink_slot (off # offs) dp last_off =
     kbind (read_dirent ''dirlink read'' dp off) (\<lambda>de.
       if de_inum de = 0 then kret off else dirlink_slot offs dp (off + dirent_size))"

definition dirlink :: "nat \<Rightarrow> u8 list \<Rightarrow> u32 \<Rightarrow> ('z fstate_scheme, int) kop" where
  "dirlink dp name inum =
     kbind (dirlookup dp name) (\<lambda>found. case found of
       Some (ip, _) \<Rightarrow> kseq (iput ip) (kret (- 1))
     | None \<Rightarrow>
         kbind (kget (\<lambda>s. i_size (itable s dp))) (\<lambda>sz.
         kbind (dirlink_slot (dir_offsets sz) dp 0) (\<lambda>off.
           let de = \<lparr>de_inum = ucast inum, de_name = map (strncpy (\<lambda>_. 0) (cstr_of name) (int DIRSIZ)) [0..<DIRSIZ]\<rparr>
           in kbind (writei (from_local (bytes_of_dirent de)) dp (of_nat off) (of_nat dirent_size)) (\<lambda>r.
                if r \<noteq> int dirent_size then kret (- 1) else kret 0))))"

section \<open>Paths\<close>

abbreviation slash :: u8 where "slash \<equiv> 0x2F"

definition skipelem :: "u8 list \<Rightarrow> u8 list \<Rightarrow> (u8 list \<times> u8 list) option" where
  "skipelem path name =
     (let p = dropWhile (\<lambda>c. c = slash) path
      in if p = [] then None
         else let elem = takeWhile (\<lambda>c. c \<noteq> slash) p;
                  rest = dropWhile (\<lambda>c. c \<noteq> slash) p;
                  name = (if length elem \<ge> DIRSIZ then put_bytes 0 (take DIRSIZ elem) name
                          else put_bytes 0 (elem @ [0]) name)
              in Some (dropWhile (\<lambda>c. c = slash) rest, name))"

lemma skipelem_shorter: "skipelem path name = Some (path', name') \<Longrightarrow> length path' < length path"
proof -
  assume a: "skipelem path name = Some (path', name')"
  let ?p = "dropWhile (\<lambda>c. c = slash) path"
  have p: "?p \<noteq> []" and e: "path' = dropWhile (\<lambda>c. c = slash) (dropWhile (\<lambda>c. c \<noteq> slash) ?p)"
    using a by (auto simp: skipelem_def Let_def split: if_splits)
  obtain c cs where c: "?p = c # cs" using p by (cases ?p) auto
  then have "c \<noteq> slash" using hd_dropWhile [OF p] by simp
  have "length path' \<le> length (dropWhile (\<lambda>c. c \<noteq> slash) ?p)" unfolding e by (rule length_dropWhile_le)
  also have "\<dots> \<le> length cs" using c \<open>c \<noteq> slash\<close> by (simp add: length_dropWhile_le)
  also have "\<dots> < length ?p" using c by simp
  also have "\<dots> \<le> length path" by (rule length_dropWhile_le)
  finally show ?thesis .
qed

function namex_loop :: "nat \<Rightarrow> u8 list \<Rightarrow> bool \<Rightarrow> u8 list \<Rightarrow> ('z fstate_scheme, nat option \<times> u8 list) kop" where
  "namex_loop ip path nameiparent name s =
     (case skipelem path name of
        None \<Rightarrow>
          if nameiparent then obind (iput ip s) (\<lambda>(_, s). Ok ((None, name), s))
          else Ok ((Some ip, name), s)
      | Some (path, name) \<Rightarrow>
          obind (ilock ip s) (\<lambda>(_, s).
            if i_type (itable s ip) \<noteq> T_DIR
            then obind (iunlockput ip s) (\<lambda>(_, s). Ok ((None, name), s))
            else if nameiparent \<and> path = []
            then obind (iunlock ip s) (\<lambda>(_, s). Ok ((Some ip, name), s))
            else obind (dirlookup ip name s) (\<lambda>(next, s).
                   case next of
                     None \<Rightarrow> obind (iunlockput ip s) (\<lambda>(_, s). Ok ((None, name), s))
                   | Some (next, _) \<Rightarrow> obind (iunlockput ip s) (\<lambda>(_, s). namex_loop next path nameiparent name s))))"
  by pat_completeness auto
termination
  by (relation "measure (\<lambda>(_, path, _). length path)") (auto dest: skipelem_shorter)

declare namex_loop.simps [simp del]

definition namex :: "u8 list \<Rightarrow> bool \<Rightarrow> u8 list \<Rightarrow> ('z fstate_scheme, nat option \<times> u8 list) kop" where
  "namex path nameiparent name s =
     obind (if path \<noteq> [] \<and> hd path = slash then iget ROOTDEV ROOTINO s
            else with_proc s (\<lambda>p. case p_cwd (k_proc s p) of
                   None \<Rightarrow> Panic ''kerneltrap'' | Some cwd \<Rightarrow> idup cwd s)) (\<lambda>(ip, s).
       namex_loop ip path nameiparent name s)"

definition namei :: "u8 list \<Rightarrow> ('z fstate_scheme, nat option) kop" where
  "namei path = kbind (namex path False (replicate DIRSIZ 0)) (\<lambda>(ip, _). kret ip)"

definition nameiparent :: "u8 list \<Rightarrow> u8 list \<Rightarrow> ('z fstate_scheme, nat option \<times> u8 list) kop" where
  "nameiparent path name = namex path True name"

end
