(* ===== verification/File.thy ===== *)
theory File
  imports Fs
begin

text \<open>
  \<open>kernel/file.c\<close> and \<open>pipealloc\<close> of \<open>kernel/pipe.c\<close>: the table of open files. A \<open>struct file *\<close> is an
  index into \<open>ftable.file\<close>. Reading and writing may go to sleep in a pipe or in the console; they
  return \<open>Inl\<close> of what the pipe or console routine returned then, and \<open>fileread_resume\<close> and
  \<open>filewrite_resume\<close> go on from there. \<open>ftable.lock\<close> makes its critical sections one step each.
\<close>

datatype ftype = FD_NONE | FD_PIPE | FD_INODE | FD_DEVICE

record ofile =
  f_type :: ftype
  f_ref :: int
  f_readable :: bool
  f_writable :: bool
  f_pipe :: u64
  f_ip :: nat
  f_off :: u32
  f_major :: u16

record ostate = fstate +
  ftable_lock :: spinlock
  ftable :: "nat \<Rightarrow> ofile"

definition upd_f :: "nat \<Rightarrow> (ofile \<Rightarrow> ofile) \<Rightarrow> 'z ostate_scheme \<Rightarrow> 'z ostate_scheme" where
  "upd_f i g s = s\<lparr>ftable := (ftable s)(i := g (ftable s i))\<rparr>"

text \<open>State transformers and the current process as operations.\<close>

definition klift :: "('s \<Rightarrow> 's outcome) \<Rightarrow> ('s, unit) kop" where
  "klift f = (\<lambda>s. obind (f s) (\<lambda>s. Ok ((), s)))"

definition kproc :: "('z kstate_scheme, nat) kop" where
  "kproc = (\<lambda>s. with_proc s (\<lambda>p. Ok (p, s)))"

definition fileinit :: "'z ostate_scheme \<Rightarrow> 'z ostate_scheme" where
  "fileinit s = s\<lparr>ftable_lock := initlock ''ftable''\<rparr>"

section \<open>Allocation and reference counts\<close>

definition filealloc :: "('z ostate_scheme, nat option) kop" where
  "filealloc s =
     (case find (\<lambda>f. f_ref (ftable s f) = 0) [0..<NFILE] of
        None \<Rightarrow> Ok (None, s)
      | Some f \<Rightarrow> Ok (Some f, upd_f f (\<lambda>x. x\<lparr>f_ref := 1\<rparr>) s))"

definition filedup :: "nat \<Rightarrow> ('z ostate_scheme, nat) kop" where
  "filedup f s =
     (if f_ref (ftable s f) < 1 then Panic ''filedup''
      else Ok (f, upd_f f (\<lambda>x. x\<lparr>f_ref := f_ref x + 1\<rparr>) s))"

definition fileclose :: "nat \<Rightarrow> ('z ostate_scheme, unit) kop" where
  "fileclose f s =
     (if f_ref (ftable s f) < 1 then Panic ''fileclose''
      else let s = upd_f f (\<lambda>x. x\<lparr>f_ref := f_ref x - 1\<rparr>) s
           in if f_ref (ftable s f) > 0 then Ok ((), s)
              else let ff = ftable s f; s = upd_f f (\<lambda>x. x\<lparr>f_ref := 0, f_type := FD_NONE\<rparr>) s
                   in if f_type ff = FD_PIPE then klift (pipeclose (f_pipe ff) (f_writable ff)) s
                      else if f_type ff = FD_INODE \<or> f_type ff = FD_DEVICE
                      then kseq begin_op (kseq (iput (f_ip ff)) end_op) s
                      else Ok ((), s))"

section \<open>filestat, fileread, filewrite\<close>

text \<open>\<open>struct stat\<close> as the C compiler lays it out; the four bytes of padding are whatever the stack held.\<close>

definition bytes_of_stat :: "u8 list \<Rightarrow> stat \<Rightarrow> u8 list" where
  "bytes_of_stat pad st = bytes_of_word 4 (st_dev st) @ bytes_of_word 4 (st_ino st) @
     bytes_of_word 2 (st_type st) @ bytes_of_word 2 (st_nlink st) @ pad @ bytes_of_word 8 (st_size st)"

definition filestat :: "u8 list \<Rightarrow> nat \<Rightarrow> u64 \<Rightarrow> ('z ostate_scheme, int) kop" where
  "filestat pad f addr =
     kbind kproc (\<lambda>p.
     kbind (kget (\<lambda>s. ftable s f)) (\<lambda>fl.
       if f_type fl = FD_INODE \<or> f_type fl = FD_DEVICE
       then kseq (ilock (f_ip fl)) (
            kbind (kget (stati (f_ip fl))) (\<lambda>st.
            kseq (iunlock (f_ip fl)) (
            kbind (kget (\<lambda>s. p_pagetable (k_proc s p))) (\<lambda>pt.
            kbind (on_mem (copyout pt addr (bytes_of_stat pad st))) (\<lambda>r.
              kret (if r < 0 then - 1 else 0))))))
       else kret (- 1)))"

datatype file_wait =
  PipeReadWait bool | PipeWriteWait nat bool | ConsReadWait "nat \<times> u64 \<times> bool" | ConsWriteWait "nat \<times> u8 \<times> bool"

definition waiting :: "('w \<Rightarrow> file_wait) \<Rightarrow> ('s, 'w + int) kop \<Rightarrow> ('s, file_wait + int) kop" where
  "waiting w m = kbind m (\<lambda>r. kret (case r of Inl x \<Rightarrow> Inl (w x) | Inr v \<Rightarrow> Inr v))"

definition no_device :: "u16 \<Rightarrow> 'z cstate_scheme \<Rightarrow> bool" where
  "no_device major s \<longleftrightarrow> sint major < 0 \<or> sint major \<ge> int NDEV \<or> \<not> devsw s (unat major)"

definition fileread :: "nat \<Rightarrow> u64 \<Rightarrow> int \<Rightarrow> ('z ostate_scheme, file_wait + int) kop" where
  "fileread f addr n s =
     (let fl = ftable s f
      in if \<not> f_readable fl then Ok (Inr (- 1), s)
         else if f_type fl = FD_PIPE then waiting PipeReadWait (piperead (f_pipe fl) addr n) s
         else if f_type fl = FD_DEVICE
         then if no_device (f_major fl) s then Ok (Inr (- 1), s)
              else waiting ConsReadWait (consoleread True addr n) s
         else if f_type fl = FD_INODE
         then kseq (ilock (f_ip fl)) (
              kbind (kget (\<lambda>s. f_off (ftable s f))) (\<lambda>off.
              kbind (readi (to_addr True addr) (f_ip fl) off (of_int n)) (\<lambda>(r, _).
              kseq (kmod (if r > 0 then upd_f f (\<lambda>x. x\<lparr>f_off := f_off x + of_int r\<rparr>) else (\<lambda>s. s))) (
              kseq (iunlock (f_ip fl)) (kret (Inr r)))))) s
         else Panic ''fileread'')"

definition fileread_resume :: "nat \<Rightarrow> u64 \<Rightarrow> int \<Rightarrow> file_wait \<Rightarrow> ('z ostate_scheme, file_wait + int) kop" where
  "fileread_resume f addr n w s =
     (case w of
        PipeReadWait ia \<Rightarrow> waiting PipeReadWait (piperead_resume (f_pipe (ftable s f)) addr n ia) s
      | ConsReadWait l \<Rightarrow> waiting ConsReadWait (consoleread_resume True n l) s
      | _ \<Rightarrow> Panic ''kerneltrap'')"

definition filewrite_max :: int where
  "filewrite_max = (int MAXOPBLOCKS - 1 - 1 - 2) div 2 * int BSIZE"

text \<open>
  The loop over transactions. \<open>r\<close> of the code is the result of \<open>writei\<close>; the loop goes on only when
  it equals \<open>n1\<close>, which is positive.
\<close>

function filewrite_loop :: "nat \<Rightarrow> nat \<Rightarrow> u64 \<Rightarrow> int \<Rightarrow> int \<Rightarrow> ('z ostate_scheme, int) kop" where
  "filewrite_loop f ip addr n i s =
     (if \<not> i < n then Ok (i, s)
      else let n1 = (if n - i > filewrite_max then filewrite_max else n - i)
           in obind (kseq begin_op (kseq (ilock ip) (
                kbind (kget (\<lambda>s. f_off (ftable s f))) (\<lambda>off.
                kbind (writei (from_addr True (addr + of_int i)) ip off (of_int n1)) (\<lambda>r.
                kseq (kmod (if r > 0 then upd_f f (\<lambda>x. x\<lparr>f_off := f_off x + of_int r\<rparr>) else (\<lambda>s. s))) (
                kseq (iunlock ip) (kseq end_op (kret r))))))) s) (\<lambda>(r, s).
              if r \<noteq> n1 then Ok (i, s) else filewrite_loop f ip addr n (i + r) s))"
  by pat_completeness auto
termination
  by (relation "measure (\<lambda>(f, ip, addr, n, i, s). nat (n - i))")
    (auto simp: filewrite_max_def MAXOPBLOCKS_def BSIZE_def)

declare filewrite_loop.simps [simp del]

definition filewrite :: "nat \<Rightarrow> u64 \<Rightarrow> int \<Rightarrow> ('z ostate_scheme, file_wait + int) kop" where
  "filewrite f addr n s =
     (let fl = ftable s f
      in if \<not> f_writable fl then Ok (Inr (- 1), s)
         else if f_type fl = FD_PIPE
         then waiting (\<lambda>(i, ia). PipeWriteWait i ia) (pipewrite (f_pipe fl) addr n) s
         else if f_type fl = FD_DEVICE
         then if no_device (f_major fl) s then Ok (Inr (- 1), s)
              else waiting ConsWriteWait (consolewrite True addr n) s
         else if f_type fl = FD_INODE
         then kbind (filewrite_loop f (f_ip fl) addr n 0) (\<lambda>i. kret (Inr (if i = n then n else - 1))) s
         else Panic ''filewrite'')"

definition filewrite_resume :: "nat \<Rightarrow> u64 \<Rightarrow> int \<Rightarrow> file_wait \<Rightarrow> ('z ostate_scheme, file_wait + int) kop" where
  "filewrite_resume f addr n w s =
     (case w of
        PipeWriteWait i ia \<Rightarrow>
          waiting (\<lambda>(i, ia). PipeWriteWait i ia) (pipewrite_resume (f_pipe (ftable s f)) addr n i ia) s
      | ConsWriteWait l \<Rightarrow> waiting ConsWriteWait (consolewrite_resume True addr n l) s
      | _ \<Rightarrow> Panic ''kerneltrap'')"

section \<open>pipealloc\<close>

definition close_opt :: "nat option \<Rightarrow> ('z ostate_scheme, unit) kop" where
  "close_opt f = (case f of None \<Rightarrow> kret () | Some f \<Rightarrow> fileclose f)"

text \<open>The result is \<open>None\<close> for -1. At \<open>bad\<close> there is never a page to give back.\<close>

definition pipealloc :: "('z ostate_scheme, (nat \<times> nat) option) kop" where
  "pipealloc =
     kbind filealloc (\<lambda>f0.
     kbind (if f0 = None then kret None else filealloc) (\<lambda>f1.
       let bad = kseq (close_opt f0) (kseq (close_opt f1) (kret None))
       in case (f0, f1) of
         (Some f0, Some f1) \<Rightarrow>
           kbind (on_mem (\<lambda>km. Ok (kalloc km))) (\<lambda>pi.
             if pi = 0 then bad
             else kseq (kmod (upd_pi pi (\<lambda>x. x\<lparr>readopen := True, writeopen := True, nwrite := 0, nread := 0,
                     pi_lock := initlock ''pipe''\<rparr>))) (
                  kseq (kmod (upd_f f0 (\<lambda>x. x\<lparr>f_type := FD_PIPE, f_readable := True, f_writable := False, f_pipe := pi\<rparr>))) (
                  kseq (kmod (upd_f f1 (\<lambda>x. x\<lparr>f_type := FD_PIPE, f_readable := False, f_writable := True, f_pipe := pi\<rparr>)))
                    (kret (Some (f0, f1))))))
       | _ \<Rightarrow> bad))"

end
