(* ===== verification/Fork.thy ===== *)
theory Fork
  imports File
begin

text \<open>
  \<open>userinit\<close>, \<open>fork\<close> and \<open>exit\<close> of \<open>kernel/proc.c\<close>, which use the file table and the inode table.
\<close>

definition copy_name :: "u8 list \<Rightarrow> u8 list \<Rightarrow> u8 list" where
  "copy_name dst src = map (safestrcpy (cstr_of dst) (cstr_of src) 16) [0..<16]"

definition kmod_p :: "nat \<Rightarrow> (proc \<Rightarrow> proc) \<Rightarrow> ('z kstate_scheme, unit) kop" where
  "kmod_p i f = kmod (upd_p i f)"

definition kget_p :: "nat \<Rightarrow> (proc \<Rightarrow> 'a) \<Rightarrow> ('z kstate_scheme, 'a) kop" where
  "kget_p i f = kget (\<lambda>s. f (k_proc s i))"

text \<open>Dereferencing a null pointer.\<close>

definition deref :: "'a option \<Rightarrow> ('s, 'a) kop" where
  "deref p = (case p of None \<Rightarrow> kpanic ''kerneltrap'' | Some x \<Rightarrow> kret x)"

section \<open>userinit\<close>

definition initcode :: "u8 list" where
  "initcode =
    [0x17, 0x05, 0x00, 0x00, 0x13, 0x05, 0x45, 0x02,
     0x97, 0x05, 0x00, 0x00, 0x93, 0x85, 0x35, 0x02,
     0x93, 0x08, 0x70, 0x00, 0x73, 0x00, 0x00, 0x00,
     0x93, 0x08, 0x20, 0x00, 0x73, 0x00, 0x00, 0x00,
     0xef, 0xf0, 0x9f, 0xff, 0x2f, 0x69, 0x6e, 0x69,
     0x74, 0x00, 0x00, 0x24, 0x00, 0x00, 0x00, 0x00,
     0x00, 0x00, 0x00, 0x00]"

definition userinit :: "('z ostate_scheme, unit) kop" where
  "userinit =
     kbind allocproc (\<lambda>a.
     kseq (kmod (\<lambda>s. s\<lparr>initproc := a\<rparr>)) (
     kbind (deref a) (\<lambda>p.
     kbind (kget_p p p_pagetable) (\<lambda>pt.
     kseq (klift (on_memu (uvmfirst pt initcode))) (
     kseq (kmod_p p (\<lambda>x. x\<lparr>p_sz := PGSIZE\<rparr>)) (
     kseq (kmod (write_tf p tf_epc 0)) (
     kseq (kmod (write_tf p tf_sp PGSIZE)) (
     kseq (kmod_p p (\<lambda>x. x\<lparr>p_name := copy_name (p_name x) (ascii ''initcode'')\<rparr>)) (
     kbind (namei (ascii ''/'')) (\<lambda>cwd.
     kseq (kmod_p p (\<lambda>x. x\<lparr>p_cwd := cwd\<rparr>)) (
     kseq (kmod_p p (\<lambda>x. x\<lparr>p_state := RUNNABLE\<rparr>))
       (klift (release_l (ProcLock p))))))))))))))"

section \<open>fork\<close>

text \<open>The file descriptors of the child are further references to those of the parent.\<close>

definition dup_file :: "nat \<Rightarrow> nat \<Rightarrow> nat \<Rightarrow> ('z ostate_scheme, unit) kop" where
  "dup_file p np i =
     kbind (kget_p p (\<lambda>x. p_ofile x ! i)) (\<lambda>fo. case fo of
       None \<Rightarrow> kret ()
     | Some f \<Rightarrow> kbind (filedup f) (\<lambda>f. kmod_p np (\<lambda>x. x\<lparr>p_ofile := (p_ofile x)[i := Some f]\<rparr>)))"

definition copy_trapframe :: "nat \<Rightarrow> nat \<Rightarrow> 'z kstate_scheme \<Rightarrow> 'z kstate_scheme" where
  "copy_trapframe p np s =
     (let m = mem (k_mem s)
      in s\<lparr>k_mem := (k_mem s)\<lparr>mem := store_bytes m (p_trapframe (k_proc s np))
             (load_bytes m (p_trapframe (k_proc s p)) tf_size)\<rparr>\<rparr>)"

definition fork :: "('z ostate_scheme, int) kop" where
  "fork =
     kbind kproc (\<lambda>p.
     kbind allocproc (\<lambda>a. case a of
       None \<Rightarrow> kret (- 1)
     | Some np \<Rightarrow>
         kbind (kget (\<lambda>s. (p_pagetable (k_proc s p), p_pagetable (k_proc s np), p_sz (k_proc s p)))) (\<lambda>(pt, npt, sz).
         kbind (on_mem (uvmcopy pt npt sz)) (\<lambda>r.
           if r < 0
           then kseq (klift (freeproc np)) (kseq (klift (release_l (ProcLock np))) (kret (- 1)))
           else
             kseq (kmod_p np (\<lambda>x. x\<lparr>p_sz := sz\<rparr>)) (
             kseq (kmod (copy_trapframe p np)) (
             kseq (kmod (write_tf np (tf_a 0) 0)) (
             kseq (kfor [0..<NOFILE] (dup_file p np)) (
             kbind (kbind (kget_p p p_cwd) deref) (\<lambda>cwd.
             kbind (idup cwd) (\<lambda>cwd.
             kseq (kmod_p np (\<lambda>x. x\<lparr>p_cwd := Some cwd\<rparr>)) (
             kbind (kget_p p p_name) (\<lambda>name.
             kseq (kmod_p np (\<lambda>x. x\<lparr>p_name := copy_name (p_name x) name\<rparr>)) (
             kbind (kget_p np p_pid) (\<lambda>pid.
             kseq (klift (release_l (ProcLock np))) (
             kseq (klift (acquire_l WaitLock)) (
             kseq (kmod_p np (\<lambda>x. x\<lparr>p_parent := Some p\<rparr>)) (
             kseq (klift (release_l WaitLock)) (
             kseq (klift (acquire_l (ProcLock np))) (
             kseq (kmod_p np (\<lambda>x. x\<lparr>p_state := RUNNABLE\<rparr>)) (
             kseq (klift (release_l (ProcLock np)))
               (kret pid)))))))))))))))))))))"

section \<open>exit\<close>

definition close_fd :: "nat \<Rightarrow> nat \<Rightarrow> ('z ostate_scheme, unit) kop" where
  "close_fd p fd =
     kbind (kget_p p (\<lambda>x. p_ofile x ! fd)) (\<lambda>fo. case fo of
       None \<Rightarrow> kret ()
     | Some f \<Rightarrow> kseq (fileclose f) (kmod_p p (\<lambda>x. x\<lparr>p_ofile := (p_ofile x)[fd := None]\<rparr>)))"

text \<open>Up to the switch in \<open>sched\<close>, which never comes back: its result is the local \<open>intena\<close> there.\<close>

definition exit :: "u32 \<Rightarrow> ('z ostate_scheme, bool) kop" where
  "exit status =
     kbind kproc (\<lambda>p.
     kbind (kget initproc) (\<lambda>ip.
       if ip = Some p then kpanic ''init exiting''
       else
         kseq (kfor [0..<NOFILE] (close_fd p)) (
         kseq begin_op (
         kseq (kbind (kbind (kget_p p p_cwd) deref) iput) (
         kseq end_op (
         kseq (kmod_p p (\<lambda>x. x\<lparr>p_cwd := None\<rparr>)) (
         kseq (klift (acquire_l WaitLock)) (
         kseq (klift (reparent p)) (
         kbind (kget_p p p_parent) (\<lambda>parent.
         kseq (klift (wakeup (map_option ProcChan parent))) (
         kseq (klift (acquire_l (ProcLock p))) (
         kbind (kget ticks) (\<lambda>now.
         kseq (kmod_p p (\<lambda>x. x\<lparr>p_xstate := status, p_state := ZOMBIE, p_etime := now\<rparr>)) (
         kseq (klift (release_l WaitLock))
           sched))))))))))))))"

end
