(* ===== verification/Exec.thy ===== *)
theory Exec
  imports Fork
begin

text \<open>
  \<open>kernel/exec.c\<close> and \<open>kernel/elf.h\<close>: \<open>exec\<close> builds the new address space completely before it
  replaces the old one. The argument strings are in kernel pages, \<open>argv\<close> is the list of their
  addresses (the entries before the null pointer). At \<open>bad\<close>, \<open>ip\<close> is null once the file is closed.
\<close>

definition ELF_MAGIC :: u32 where "ELF_MAGIC = 0x464C457F"
definition ELF_PROG_LOAD :: u32 where "ELF_PROG_LOAD = 1"

record elfhdr =
  e_magic :: u32
  e_elf :: "u8 list"
  e_type :: u16
  e_machine :: u16
  e_version :: u32
  e_entry :: u64
  e_phoff :: u64
  e_shoff :: u64
  e_flags :: u32
  e_ehsize :: u16
  e_phentsize :: u16
  e_phnum :: u16
  e_shentsize :: u16
  e_shnum :: u16
  e_shstrndx :: u16

record proghdr =
  ph_type :: u32
  ph_flags :: u32
  ph_off :: u64
  ph_vaddr :: u64
  ph_paddr :: u64
  ph_filesz :: u64
  ph_memsz :: u64
  ph_align :: u64

definition elfhdr_size :: nat where "elfhdr_size = 64"
definition proghdr_size :: nat where "proghdr_size = 56"

definition get64 :: "u8 list \<Rightarrow> nat \<Rightarrow> u64" where
  "get64 d off = word_of_bytes (take 8 (drop off d))"

definition elfhdr_of_bytes :: "u8 list \<Rightarrow> elfhdr" where
  "elfhdr_of_bytes d = \<lparr>e_magic = get32 d 0, e_elf = take 12 (drop 4 d), e_type = get16 d 16,
     e_machine = get16 d 18, e_version = get32 d 20, e_entry = get64 d 24, e_phoff = get64 d 32,
     e_shoff = get64 d 40, e_flags = get32 d 48, e_ehsize = get16 d 52, e_phentsize = get16 d 54,
     e_phnum = get16 d 56, e_shentsize = get16 d 58, e_shnum = get16 d 60, e_shstrndx = get16 d 62\<rparr>"

definition proghdr_of_bytes :: "u8 list \<Rightarrow> proghdr" where
  "proghdr_of_bytes d = \<lparr>ph_type = get32 d 0, ph_flags = get32 d 4, ph_off = get64 d 8,
     ph_vaddr = get64 d 16, ph_paddr = get64 d 24, ph_filesz = get64 d 32, ph_memsz = get64 d 40,
     ph_align = get64 d 48\<rparr>"

definition flags2perm :: "u32 \<Rightarrow> u64" where
  "flags2perm flags =
     (let perm = (if flags AND 1 \<noteq> 0 then PTE_X else 0)
      in if flags AND 2 \<noteq> 0 then perm OR PTE_W else perm)"

section \<open>loadseg\<close>

text \<open>The pages of a segment: \<open>i\<close> runs through the multiples of the page size below \<open>sz\<close>.\<close>

primrec loadseg_loop :: "nat list \<Rightarrow> u64 \<Rightarrow> u64 \<Rightarrow> nat \<Rightarrow> u32 \<Rightarrow> u32 \<Rightarrow> ('z fstate_scheme, int) kop" where
  "loadseg_loop [] pt va ip offset sz = kret 0"
| "loadseg_loop (k # ks) pt va ip offset sz =
     (let i = of_nat (4096 * k) :: u32
      in kbind (\<lambda>s. obind (walkaddr pt (va + ucast i) (k_mem s)) (\<lambda>pa. Ok (pa, s))) (\<lambda>pa.
           if pa = 0 then kpanic ''loadseg: address should exist''
           else let n = (if sz - i < 4096 then sz - i else 4096)
                in kbind (readi (to_addr False pa) ip (offset + i) n) (\<lambda>(r, _).
                     if r \<noteq> uint n then kret (- 1) else loadseg_loop ks pt va ip offset sz)))"

text \<open>When the last page of the 32-bit counter is reached, \<open>i += PGSIZE\<close> wraps and the loop does not end.\<close>

definition loadseg :: "u64 \<Rightarrow> u64 \<Rightarrow> nat \<Rightarrow> u32 \<Rightarrow> u32 \<Rightarrow> ('z fstate_scheme, int) kop" where
  "loadseg pt va ip offset sz =
     kbind (loadseg_loop [0..<(unat sz + 4095) div 4096] pt va ip offset sz) (\<lambda>r.
       if r = 0 \<and> unat sz > 2 ^ 32 - 4096 then (\<lambda>s. Block) else kret r)"

section \<open>exec\<close>

text \<open>The loop over the program headers: whether it got through, and \<open>sz\<close>.\<close>

primrec exec_load :: "nat \<Rightarrow> u32 \<Rightarrow> nat \<Rightarrow> u64 \<Rightarrow> u64 \<Rightarrow> ('z fstate_scheme, bool \<times> u64) kop" where
  "exec_load 0 off ip pt sz = kret (True, sz)"
| "exec_load (Suc k) off ip pt sz =
     kbind (readi to_local ip off (of_nat proghdr_size)) (\<lambda>(r, bs).
       let ph = proghdr_of_bytes bs
       in if r \<noteq> int proghdr_size then kret (False, sz)
          else if ph_type ph \<noteq> ELF_PROG_LOAD then exec_load k (off + of_nat proghdr_size) ip pt sz
          else if ph_memsz ph < ph_filesz ph then kret (False, sz)
          else if ph_vaddr ph + ph_memsz ph < ph_vaddr ph then kret (False, sz)
          else if ph_vaddr ph mod PGSIZE \<noteq> 0 then kret (False, sz)
          else kbind (on_mem (uvmalloc pt sz (ph_vaddr ph + ph_memsz ph) (flags2perm (ph_flags ph)))) (\<lambda>sz1.
                 if sz1 = 0 then kret (False, sz)
                 else kbind (loadseg pt (ph_vaddr ph) ip (ucast (ph_off ph)) (ucast (ph_filesz ph))) (\<lambda>r.
                        if r < 0 then kret (False, sz1)
                        else exec_load k (off + of_nat proghdr_size) ip pt sz1)))"

definition kstrlen :: "u64 \<Rightarrow> ('z kstate_scheme, nat) kop" where
  "kstrlen a = (\<lambda>s. case strlen (at_addr (mem (k_mem s)) a) of None \<Rightarrow> Block | Some n \<Rightarrow> Ok (n, s))"

text \<open>Pushing the argument strings: \<open>sp\<close> and \<open>ustack\<close> after it, or \<open>None\<close> for \<open>goto bad\<close>.\<close>

primrec exec_push ::
    "u64 list \<Rightarrow> u64 \<Rightarrow> u64 \<Rightarrow> u64 \<Rightarrow> u64 list \<Rightarrow> ('z kstate_scheme, (u64 \<times> u64 list) option) kop" where
  "exec_push [] pt stackbase sp ustack = kret (Some (sp, ustack))"
| "exec_push (a # as) pt stackbase sp ustack =
     (if length ustack \<ge> MAXARG then kret None
      else kbind (kstrlen a) (\<lambda>n.
        let sp = sp - of_nat (n + 1); sp = sp - sp mod 16
        in if sp < stackbase then kret None
           else kbind (kget (\<lambda>s. load_bytes (mem (k_mem s)) a (n + 1))) (\<lambda>bs.
                kbind (on_mem (copyout pt sp bs)) (\<lambda>r.
                  if r < 0 then kret None else exec_push as pt stackbase sp (ustack @ [sp])))))"

definition last_elem :: "u8 list \<Rightarrow> u8 list" where
  "last_elem path = rev (takeWhile (\<lambda>c. c \<noteq> slash) (rev path))"

definition exec_bad :: "u64 \<Rightarrow> u64 \<Rightarrow> nat option \<Rightarrow> ('z fstate_scheme, int) kop" where
  "exec_bad pt sz ip =
     kseq (if pt \<noteq> 0 then klift (proc_freepagetable pt sz) else kret ()) (
     kseq (case ip of None \<Rightarrow> kret () | Some ip \<Rightarrow> kseq (iunlockput ip) end_op)
       (kret (- 1)))"

text \<open>From the stack pages on, when the file has been read and closed.\<close>

definition exec_stack ::
    "u8 list \<Rightarrow> u64 list \<Rightarrow> elfhdr \<Rightarrow> u64 \<Rightarrow> u64 \<Rightarrow> ('z fstate_scheme, int) kop" where
  "exec_stack path argv elf pt sz =
     kbind kproc (\<lambda>p.
     kbind (kget_p p p_sz) (\<lambda>oldsz.
       let sz = PGROUNDUP sz
       in kbind (on_mem (uvmalloc pt sz (sz + 2 * PGSIZE) PTE_W)) (\<lambda>sz1.
            if sz1 = 0 then exec_bad pt sz None
            else let sz = sz1; stackbase = sz - PGSIZE
                 in kseq (klift (on_memu (uvmclear pt (sz - 2 * PGSIZE)))) (
                    kbind (exec_push argv pt stackbase sz []) (\<lambda>pushed. case pushed of
                      None \<Rightarrow> exec_bad pt sz None
                    | Some (sp, ustack) \<Rightarrow>
                        let argc = length ustack; sp = sp - of_nat ((argc + 1) * 8); sp = sp - sp mod 16
                        in if sp < stackbase then exec_bad pt sz None
                           else kbind (on_mem (copyout pt sp (concat (map (bytes_of_word 8) (ustack @ [0]))))) (\<lambda>r.
                                if r < 0 then exec_bad pt sz None
                                else kseq (kmod (write_tf p (tf_a 1) sp)) (
                                     kseq (kmod_p p (\<lambda>x. x\<lparr>p_name := copy_name (p_name x) (last_elem path)\<rparr>)) (
                                     kbind (kget_p p p_pagetable) (\<lambda>oldpagetable.
                                     kseq (kmod_p p (\<lambda>x. x\<lparr>p_pagetable := pt, p_sz := sz\<rparr>)) (
                                     kseq (kmod (write_tf p tf_epc (e_entry elf))) (
                                     kseq (kmod (write_tf p tf_sp sp)) (
                                     kseq (klift (proc_freepagetable oldpagetable oldsz))
                                       (kret (int argc))))))))))))))"

definition exec :: "u8 list \<Rightarrow> u64 list \<Rightarrow> ('z fstate_scheme, int) kop" where
  "exec path argv =
     kbind kproc (\<lambda>p.
     kseq begin_op (
     kbind (namei path) (\<lambda>i. case i of
       None \<Rightarrow> kseq end_op (kret (- 1))
     | Some ip \<Rightarrow>
         kseq (ilock ip) (
         kbind (readi to_local ip 0 (of_nat elfhdr_size)) (\<lambda>(r, bs).
           let elf = elfhdr_of_bytes bs
           in if r \<noteq> int elfhdr_size then exec_bad 0 0 (Some ip)
              else if e_magic elf \<noteq> ELF_MAGIC then exec_bad 0 0 (Some ip)
              else kbind (proc_pagetable p) (\<lambda>pt.
                if pt = 0 then exec_bad 0 0 (Some ip)
                else kbind (exec_load (unat (e_phnum elf)) (ucast (e_phoff elf)) ip pt 0) (\<lambda>(ok, sz).
                  if \<not> ok then exec_bad pt sz (Some ip)
                  else kseq (iunlockput ip) (kseq end_op (exec_stack path argv elf pt sz)))))))))"

end
