(* ===== verification/Sysfile.thy ===== *)
theory Sysfile
  imports Exec Fcntl
begin

text \<open>
  The argument routines of \<open>kernel/syscall.c\<close> and \<open>kernel/sysfile.c\<close>: the system calls on files. A system
  call returns \<open>Inr\<close> of its 64-bit result, or \<open>Inl\<close> of its local variables when it has gone to sleep
  (\<open>suspended\<close>, resumed by \<open>syscall_resume\<close> of the theory \<open>Syscall\<close>). The kernel variables of
  the trap and system-call layer that are not in the other records are in \<open>xstate\<close>.
\<close>

section \<open>State\<close>

record xstate = ostate +
  readCount :: u32
  forkret_first :: bool
  csr_sstatus :: u64
  csr_sepc :: u64
  csr_scause :: u64
  csr_stval :: u64
  csr_stvec :: u64
  csr_satp :: u64
  csr_sip :: u64
  plic_irqs :: "u32 list"
  plic_completed :: "u32 list"
  ad_kernelvec :: u64
  ad_uservec :: u64
  ad_userret :: u64
  ad_usertrap :: u64

datatype suspended =
  WaitSleep u64 bool | WaitxSleep u64 u64 u64 u32 u32 bool | TicksSleep u32 u32 bool | YieldSwitch u32 bool |
  ReadSleep nat u64 int file_wait | WriteSleep nat u64 int file_wait | Exited bool

type_synonym 'z syscall = "('z xstate_scheme, suspended + u64) kop"

definition sysret :: "int \<Rightarrow> ('s, suspended + u64) kop" where
  "sysret r = kret (Inr (of_int r))"

section \<open>Arguments (syscall.c)\<close>

definition fetchaddr :: "u64 \<Rightarrow> ('z kstate_scheme, u64 option) kop" where
  "fetchaddr addr =
     kbind kproc (\<lambda>p.
     kbind (kget (\<lambda>s. k_proc s p)) (\<lambda>pr.
       if addr \<ge> p_sz pr \<or> addr + 8 > p_sz pr then kret None
       else kbind (\<lambda>s. obind (copyin (p_pagetable pr) addr 8 (k_mem s)) (\<lambda>r. Ok (r, s))) (\<lambda>(r, bs).
              if r \<noteq> 0 then kret None else kret (Some (word_of_bytes bs)))))"

text \<open>The return value and the bytes written to the buffer.\<close>

definition fetchstr :: "u64 \<Rightarrow> nat \<Rightarrow> ('z kstate_scheme, int \<times> u8 list) kop" where
  "fetchstr addr maxlen =
     kbind kproc (\<lambda>p.
     kbind (kget_p p p_pagetable) (\<lambda>pt.
     kbind (\<lambda>s. obind (copyinstr pt addr maxlen (k_mem s)) (\<lambda>r. Ok (r, s))) (\<lambda>(r, bs).
       if r < 0 then kret (- 1, bs)
       else case strlen (cstr_of bs) of None \<Rightarrow> (\<lambda>s. Block) | Some n \<Rightarrow> kret (int n, bs))))"

definition argraw :: "nat \<Rightarrow> ('z kstate_scheme, u64) kop" where
  "argraw n = kbind kproc (\<lambda>p. if n \<le> 5 then kget (read_tf p (tf_a n)) else kpanic ''argraw'')"

definition argint :: "nat \<Rightarrow> ('z kstate_scheme, u32) kop" where
  "argint n = kbind (argraw n) (\<lambda>x. kret (ucast x))"

definition argaddr :: "nat \<Rightarrow> ('z kstate_scheme, u64) kop" where
  "argaddr n = argraw n"

definition argstr :: "nat \<Rightarrow> nat \<Rightarrow> ('z kstate_scheme, int \<times> u8 list) kop" where
  "argstr n maxlen = kbind (argaddr n) (\<lambda>addr. fetchstr addr maxlen)"

text \<open>A path argument: \<open>None\<close> when \<open>argstr\<close> returns a negative number, otherwise the C string.\<close>

definition argpath :: "nat \<Rightarrow> ('z kstate_scheme, u8 list option) kop" where
  "argpath n = kbind (argstr n MAXPATH) (\<lambda>(r, bs). kret (if r < 0 then None else Some (c_string bs)))"

section \<open>File descriptors\<close>

definition argfd :: "nat \<Rightarrow> ('z kstate_scheme, (nat \<times> nat) option) kop" where
  "argfd n =
     kbind (argint n) (\<lambda>w.
     let fd = sint w
     in if fd < 0 \<or> fd \<ge> int NOFILE then kret None
        else kbind kproc (\<lambda>p.
             kbind (kget_p p (\<lambda>x. p_ofile x ! nat fd)) (\<lambda>f.
               kret (case f of None \<Rightarrow> None | Some f \<Rightarrow> Some (nat fd, f)))))"

definition fdalloc :: "nat \<Rightarrow> ('z kstate_scheme, int) kop" where
  "fdalloc f =
     kbind kproc (\<lambda>p.
     kbind (kget_p p p_ofile) (\<lambda>ofile.
       case find (\<lambda>fd. ofile ! fd = None) [0..<NOFILE] of
         None \<Rightarrow> kret (- 1)
       | Some fd \<Rightarrow> kseq (kmod_p p (\<lambda>x. x\<lparr>p_ofile := (p_ofile x)[fd := Some f]\<rparr>)) (kret (int fd))))"

definition sys_dup :: "'z syscall" where
  "sys_dup =
     kbind (argfd 0) (\<lambda>a. case a of None \<Rightarrow> sysret (- 1) | Some (_, f) \<Rightarrow>
     kbind (fdalloc f) (\<lambda>fd.
       if fd < 0 then sysret (- 1)
       else kseq (kbind (filedup f) (\<lambda>_. kret ())) (sysret fd)))"

definition sys_getreadcount :: "'z syscall" where
  "sys_getreadcount = kbind (kget readCount) (\<lambda>n. sysret (sint n))"

definition finish_io :: "(file_wait \<Rightarrow> suspended) \<Rightarrow> file_wait + int \<Rightarrow> ('s, suspended + u64) kop" where
  "finish_io w r = (case r of Inl x \<Rightarrow> kret (Inl (w x)) | Inr v \<Rightarrow> sysret v)"

definition sys_read :: "'z syscall" where
  "sys_read =
     kseq (kmod (\<lambda>s. s\<lparr>readCount := readCount s + 1\<rparr>)) (
     kbind (argaddr 1) (\<lambda>p.
     kbind (argint 2) (\<lambda>n.
     kbind (argfd 0) (\<lambda>a. case a of None \<Rightarrow> sysret (- 1) | Some (_, f) \<Rightarrow>
       kbind (fileread f p (sint n)) (finish_io (ReadSleep f p (sint n)))))))"

definition sys_write :: "'z syscall" where
  "sys_write =
     kbind (argaddr 1) (\<lambda>p.
     kbind (argint 2) (\<lambda>n.
     kbind (argfd 0) (\<lambda>a. case a of None \<Rightarrow> sysret (- 1) | Some (_, f) \<Rightarrow>
       kbind (filewrite f p (sint n)) (finish_io (WriteSleep f p (sint n))))))"

definition sys_close :: "'z syscall" where
  "sys_close =
     kbind (argfd 0) (\<lambda>a. case a of None \<Rightarrow> sysret (- 1) | Some (fd, f) \<Rightarrow>
     kbind kproc (\<lambda>p.
     kseq (kmod_p p (\<lambda>x. x\<lparr>p_ofile := (p_ofile x)[fd := None]\<rparr>)) (
     kseq (fileclose f) (sysret 0))))"

definition sys_fstat :: "u8 list \<Rightarrow> 'z syscall" where
  "sys_fstat pad =
     kbind (argaddr 1) (\<lambda>st.
     kbind (argfd 0) (\<lambda>a. case a of None \<Rightarrow> sysret (- 1) | Some (_, f) \<Rightarrow>
       kbind (filestat pad f st) sysret))"

definition sys_pipe :: "'z syscall" where
  "sys_pipe =
     kbind kproc (\<lambda>p.
     kbind (argaddr 0) (\<lambda>fdarray.
     kbind pipealloc (\<lambda>a. case a of None \<Rightarrow> sysret (- 1) | Some (rfl, wfl) \<Rightarrow>
       let clear = (\<lambda>fd. kmod_p p (\<lambda>x. x\<lparr>p_ofile := (p_ofile x)[fd := None]\<rparr>));
           close_both = kseq (fileclose rfl) (kseq (fileclose wfl) (sysret (- 1)))
       in kbind (fdalloc rfl) (\<lambda>fd0.
            if fd0 < 0 then close_both
            else kbind (fdalloc wfl) (\<lambda>fd1.
              if fd1 < 0 then kseq (clear (nat fd0)) close_both
              else kbind (kget_p p p_pagetable) (\<lambda>pt.
                   kbind (on_mem (copyout pt fdarray (bytes_of_word 4 (of_int fd0 :: u32)))) (\<lambda>r0.
                   kbind (if r0 < 0 then kret r0
                          else on_mem (copyout pt (fdarray + 4) (bytes_of_word 4 (of_int fd1 :: u32)))) (\<lambda>r1.
                     if r1 < 0
                     then kseq (clear (nat fd0)) (kseq (clear (nat fd1)) close_both)
                     else sysret 0))))))))"

section \<open>Links and directories\<close>

definition nlink_add :: "nat \<Rightarrow> u16 \<Rightarrow> ('z fstate_scheme, unit) kop" where
  "nlink_add ip d = kseq (kmod (upd_i ip (\<lambda>x. x\<lparr>i_nlink := i_nlink x + d\<rparr>))) (iupdate ip)"

definition kget_i :: "nat \<Rightarrow> (inode \<Rightarrow> 'a) \<Rightarrow> ('z fstate_scheme, 'a) kop" where
  "kget_i ip f = kget (\<lambda>s. f (itable s ip))"

definition no_name :: "u8 list" where
  "no_name = replicate DIRSIZ 0"

definition sys_link :: "'z syscall" where
  "sys_link =
     kbind (argpath 0) (\<lambda>old. case old of None \<Rightarrow> sysret (- 1) | Some old \<Rightarrow>
     kbind (argpath 1) (\<lambda>new. case new of None \<Rightarrow> sysret (- 1) | Some new \<Rightarrow>
     kseq begin_op (
     kbind (namei old) (\<lambda>i. case i of None \<Rightarrow> kseq end_op (sysret (- 1)) | Some ip \<Rightarrow>
     kseq (ilock ip) (
     kbind (kget_i ip i_type) (\<lambda>ty.
       if ty = T_DIR then kseq (iunlockput ip) (kseq end_op (sysret (- 1)))
       else
         kseq (nlink_add ip 1) (
         kseq (iunlock ip) (
         kbind (nameiparent new no_name) (\<lambda>(d, name).
         let bad = kseq (ilock ip) (kseq (nlink_add ip (- 1)) (kseq (iunlockput ip) (kseq end_op (sysret (- 1)))))
         in case d of None \<Rightarrow> bad | Some dp \<Rightarrow>
           kseq (ilock dp) (
           kbind (kget_i dp i_dev) (\<lambda>ddev.
           kbind (kget (\<lambda>s. (i_dev (itable s ip), i_inum (itable s ip)))) (\<lambda>(dev, inum).
           kbind (if ddev \<noteq> dev then kret (- 1) else dirlink dp name inum) (\<lambda>r.
             if r < 0 then kseq (iunlockput dp) bad
             else kseq (iunlockput dp) (kseq (iput ip) (kseq end_op (sysret 0))))))))))))))))"

text \<open>The slots after \<open>.\<close> and \<open>..\<close>.\<close>

primrec isdirempty_loop :: "nat list \<Rightarrow> nat \<Rightarrow> ('z fstate_scheme, bool) kop" where
  "isdirempty_loop [] dp = kret True"
| "isdirempty_loop (off # offs) dp =
     kbind (read_dirent ''isdirempty: readi'' dp off) (\<lambda>de.
       if de_inum de \<noteq> 0 then kret False else isdirempty_loop offs dp)"

definition isdirempty :: "nat \<Rightarrow> ('z fstate_scheme, bool) kop" where
  "isdirempty dp = kbind (kget_i dp i_size) (\<lambda>sz. isdirempty_loop (drop 2 (dir_offsets sz)) dp)"

definition sys_unlink :: "'z syscall" where
  "sys_unlink =
     kbind (argpath 0) (\<lambda>path. case path of None \<Rightarrow> sysret (- 1) | Some path \<Rightarrow>
     kseq begin_op (
     kbind (nameiparent path no_name) (\<lambda>(d, name). case d of
       None \<Rightarrow> kseq end_op (sysret (- 1))
     | Some dp \<Rightarrow>
         let bad = kseq (iunlockput dp) (kseq end_op (sysret (- 1)))
         in kseq (ilock dp) (
            if namecmp name (ascii ''.'') = 0 \<or> namecmp name (ascii ''..'') = 0 then bad
            else kbind (dirlookup dp name) (\<lambda>found. case found of None \<Rightarrow> bad | Some (ip, off) \<Rightarrow>
              kseq (ilock ip) (
              kbind (kget (\<lambda>s. itable s ip)) (\<lambda>i.
                if sint (i_nlink i) < 1 then kpanic ''unlink: nlink < 1''
                else kbind (if i_type i = T_DIR then isdirempty ip else kret True) (\<lambda>empty_dir.
                  if \<not> empty_dir then kseq (iunlockput ip) bad
                  else kbind (writei (from_local (replicate dirent_size 0)) dp off (of_nat dirent_size)) (\<lambda>r.
                    if r \<noteq> int dirent_size then kpanic ''unlink: writei''
                    else kseq (if i_type i = T_DIR then nlink_add dp (- 1) else kret ()) (
                         kseq (iunlockput dp) (
                         kseq (nlink_add ip (- 1)) (
                         kseq (iunlockput ip) (kseq end_op (sysret 0))))))))))))))"

definition create :: "u8 list \<Rightarrow> u16 \<Rightarrow> u16 \<Rightarrow> u16 \<Rightarrow> ('z fstate_scheme, nat option) kop" where
  "create path type major minor =
     kbind (nameiparent path no_name) (\<lambda>(d, name). case d of None \<Rightarrow> kret None | Some dp \<Rightarrow>
     kseq (ilock dp) (
     kbind (dirlookup dp name) (\<lambda>found. case found of
       Some (ip, _) \<Rightarrow>
         kseq (iunlockput dp) (
         kseq (ilock ip) (
         kbind (kget_i ip i_type) (\<lambda>ty.
           if type = T_FILE \<and> (ty = T_FILE \<or> ty = T_DEVICE) then kret (Some ip)
           else kseq (iunlockput ip) (kret None))))
     | None \<Rightarrow>
         kbind (kget_i dp i_dev) (\<lambda>dev.
         kbind (ialloc dev type) (\<lambda>a. case a of None \<Rightarrow> kseq (iunlockput dp) (kret None) | Some ip \<Rightarrow>
         kseq (ilock ip) (
         kseq (kmod (upd_i ip (\<lambda>x. x\<lparr>i_major := major, i_minor := minor, i_nlink := 1\<rparr>))) (
         kseq (iupdate ip) (
         kbind (kget (\<lambda>s. (i_inum (itable s ip), i_inum (itable s dp)))) (\<lambda>(inum, dinum).
         let fail = kseq (kmod (upd_i ip (\<lambda>x. x\<lparr>i_nlink := 0\<rparr>))) (
                    kseq (iupdate ip) (kseq (iunlockput ip) (kseq (iunlockput dp) (kret None))))
         in kbind (if type = T_DIR
                   then kbind (dirlink ip (ascii ''.'') inum) (\<lambda>r.
                          if r < 0 then kret r else dirlink ip (ascii ''..'') dinum)
                   else kret 0) (\<lambda>r.
              if r < 0 then fail
              else kbind (dirlink dp name inum) (\<lambda>r.
                if r < 0 then fail
                else kseq (if type = T_DIR then nlink_add dp 1 else kret ()) (
                     kseq (iunlockput dp) (kret (Some ip))))))))))))))"

section \<open>open, mkdir, mknod, chdir\<close>

text \<open>The inode that \<open>open\<close> starts from, locked; \<open>None\<close> when it ends with -1 (after \<open>end_op\<close>).\<close>

definition open_inode :: "u8 list \<Rightarrow> u32 \<Rightarrow> ('z fstate_scheme, nat option) kop" where
  "open_inode path omode =
     (if omode AND O_CREATE \<noteq> 0
      then kbind (create path T_FILE 0 0) (\<lambda>i. case i of
             None \<Rightarrow> kseq end_op (kret None) | Some ip \<Rightarrow> kret (Some ip))
      else kbind (namei path) (\<lambda>i. case i of
             None \<Rightarrow> kseq end_op (kret None)
           | Some ip \<Rightarrow>
               kseq (ilock ip) (
               kbind (kget_i ip i_type) (\<lambda>ty.
                 if ty = T_DIR \<and> omode \<noteq> O_RDONLY
                 then kseq (iunlockput ip) (kseq end_op (kret None))
                 else kret (Some ip)))))"

definition set_open :: "nat \<Rightarrow> nat \<Rightarrow> u32 \<Rightarrow> ('z ostate_scheme, unit) kop" where
  "set_open f ip omode =
     kbind (kget (\<lambda>s. itable s ip)) (\<lambda>i.
     kseq (kmod (upd_f f (\<lambda>x. if i_type i = T_DEVICE then x\<lparr>f_type := FD_DEVICE, f_major := i_major i\<rparr>
                              else x\<lparr>f_type := FD_INODE, f_off := 0\<rparr>)))
       (kmod (upd_f f (\<lambda>x. x\<lparr>f_ip := ip, f_readable := (omode AND O_WRONLY = 0),
          f_writable := (omode AND O_WRONLY \<noteq> 0 \<or> omode AND O_RDWR \<noteq> 0)\<rparr>))))"

definition sys_open :: "'z syscall" where
  "sys_open =
     kbind (argint 1) (\<lambda>omode.
     kbind (argpath 0) (\<lambda>path. case path of None \<Rightarrow> sysret (- 1) | Some path \<Rightarrow>
     kseq begin_op (
     kbind (open_inode path omode) (\<lambda>i. case i of None \<Rightarrow> sysret (- 1) | Some ip \<Rightarrow>
     let fail = kseq (iunlockput ip) (kseq end_op (sysret (- 1)))
     in kbind (kget (\<lambda>s. itable s ip)) (\<lambda>i.
        if i_type i = T_DEVICE \<and> (sint (i_major i) < 0 \<or> sint (i_major i) \<ge> int NDEV) then fail
        else kbind filealloc (\<lambda>f. case f of None \<Rightarrow> fail | Some f \<Rightarrow>
             kbind (fdalloc f) (\<lambda>fd.
               if fd < 0 then kseq (fileclose f) fail
               else
                 kseq (set_open f ip omode) (
                 kseq (if omode AND O_TRUNC \<noteq> 0 \<and> i_type i = T_FILE then itrunc ip else kret ()) (
                 kseq (iunlock ip) (kseq end_op (sysret fd)))))))))))"

definition sys_mkdir :: "'z syscall" where
  "sys_mkdir =
     kseq begin_op (
     kbind (argpath 0) (\<lambda>path.
     kbind (case path of None \<Rightarrow> kret None | Some path \<Rightarrow> create path T_DIR 0 0) (\<lambda>i. case i of
       None \<Rightarrow> kseq end_op (sysret (- 1))
     | Some ip \<Rightarrow> kseq (iunlockput ip) (kseq end_op (sysret 0)))))"

definition sys_mknod :: "'z syscall" where
  "sys_mknod =
     kseq begin_op (
     kbind (argint 1) (\<lambda>major.
     kbind (argint 2) (\<lambda>minor.
     kbind (argpath 0) (\<lambda>path.
     kbind (case path of None \<Rightarrow> kret None
            | Some path \<Rightarrow> create path T_DEVICE (ucast major) (ucast minor)) (\<lambda>i. case i of
       None \<Rightarrow> kseq end_op (sysret (- 1))
     | Some ip \<Rightarrow> kseq (iunlockput ip) (kseq end_op (sysret 0)))))))"

definition sys_chdir :: "'z syscall" where
  "sys_chdir =
     kbind kproc (\<lambda>p.
     kseq begin_op (
     kbind (argpath 0) (\<lambda>path.
     kbind (case path of None \<Rightarrow> kret None | Some path \<Rightarrow> namei path) (\<lambda>i. case i of
       None \<Rightarrow> kseq end_op (sysret (- 1))
     | Some ip \<Rightarrow>
         kseq (ilock ip) (
         kbind (kget_i ip i_type) (\<lambda>ty.
           if ty \<noteq> T_DIR then kseq (iunlockput ip) (kseq end_op (sysret (- 1)))
           else
             kseq (iunlock ip) (
             kseq (kbind (kbind (kget_p p p_cwd) deref) iput) (
             kseq end_op (
             kseq (kmod_p p (\<lambda>x. x\<lparr>p_cwd := Some ip\<rparr>)) (sysret 0))))))))))"

section \<open>exec\<close>

text \<open>
  The loop that copies the arguments in, with \<open>n\<close> entries of \<open>argv\<close> left: whether it reached the
  null pointer, and the pages allocated so far.
\<close>

primrec exec_args :: "nat \<Rightarrow> u64 \<Rightarrow> u64 list \<Rightarrow> ('z kstate_scheme, bool \<times> u64 list) kop" where
  "exec_args 0 uargv argv = kret (False, argv)"
| "exec_args (Suc n) uargv argv =
     kbind (fetchaddr (uargv + 8 * of_nat (length argv))) (\<lambda>a. case a of None \<Rightarrow> kret (False, argv) | Some uarg \<Rightarrow>
       if uarg = 0 then kret (True, argv)
       else kbind (on_mem (\<lambda>km. Ok (kalloc km))) (\<lambda>pg.
         if pg = 0 then kret (False, argv)
         else kbind (fetchstr uarg 4096) (\<lambda>(r, bs).
              kseq (kmod (\<lambda>s. s\<lparr>k_mem := (k_mem s)\<lparr>mem := store_bytes (mem (k_mem s)) pg bs\<rparr>\<rparr>)) (
              if r < 0 then kret (False, argv @ [pg]) else exec_args n uargv (argv @ [pg])))))"

definition free_args :: "u64 list \<Rightarrow> ('z kstate_scheme, unit) kop" where
  "free_args argv = kfor argv (\<lambda>pg. klift (on_memu (kfree pg)))"

definition sys_exec :: "'z syscall" where
  "sys_exec =
     kbind (argaddr 1) (\<lambda>uargv.
     kbind (argpath 0) (\<lambda>path. case path of None \<Rightarrow> sysret (- 1) | Some path \<Rightarrow>
     kbind (exec_args MAXARG uargv []) (\<lambda>(ok, argv).
       if ok
       then kbind (exec path argv) (\<lambda>ret. kseq (free_args argv) (sysret ret))
       else kseq (free_args argv) (sysret (- 1)))))"

end
