(* ===== verification/Syscall.thy ===== *)
theory Syscall
  imports Sysfile
begin

text \<open>
  \<open>kernel/sysproc.c\<close> and the dispatcher of \<open>kernel/syscall.c\<close>. A suspended system call is resumed by
  \<open>syscall_resume\<close>, which goes on after the switch in \<open>sched\<close> and, when the call returns, stores its
  result in the trapframe as \<open>syscall\<close> does. \<open>sys_fstat\<close> and \<open>sys_waitx\<close> take the contents of
  uninitialised stack variables as arguments.
\<close>

section \<open>sysproc.c\<close>

definition sys_exit :: "'z syscall" where
  "sys_exit = kbind (argint 0) (\<lambda>n. kbind (exit n) (\<lambda>ia. kret (Inl (Exited ia))))"

definition sys_getpid :: "'z syscall" where
  "sys_getpid = kbind kproc (\<lambda>p. kbind (kget_p p p_pid) sysret)"

definition sys_fork :: "'z syscall" where
  "sys_fork = kbind fork sysret"

definition finish_wait :: "u64 \<Rightarrow> bool + int \<Rightarrow> ('s, suspended + u64) kop" where
  "finish_wait addr r = (case r of Inl ia \<Rightarrow> kret (Inl (WaitSleep addr ia)) | Inr v \<Rightarrow> sysret v)"

definition sys_wait :: "'z syscall" where
  "sys_wait = kbind (argaddr 0) (\<lambda>p. kbind (wait p) (finish_wait p))"

definition sys_sbrk :: "'z syscall" where
  "sys_sbrk =
     kbind (argint 0) (\<lambda>n.
     kbind kproc (\<lambda>p.
     kbind (kget_p p p_sz) (\<lambda>addr.
     kbind (growproc n) (\<lambda>r. if r < 0 then sysret (- 1) else kret (Inr addr)))))"

text \<open>The loop of \<open>sys_sleep\<close>, with \<open>tickslock\<close> held; the comparison is unsigned.\<close>

definition sleep_iter :: "u32 \<Rightarrow> u32 \<Rightarrow> 'z syscall" where
  "sleep_iter n ticks0 =
     kbind (kget ticks) (\<lambda>now.
       if now - ticks0 < n
       then kbind kproc (\<lambda>p. kbind (killed p) (\<lambda>k.
              if k then kseq (klift (release_l TicksLock)) (sysret (- 1))
              else kbind (sleep_out TicksChan TicksLock) (\<lambda>ia. kret (Inl (TicksSleep n ticks0 ia)))))
       else kseq (klift (release_l TicksLock)) (sysret 0))"

definition sys_sleep :: "'z syscall" where
  "sys_sleep =
     kbind (argint 0) (\<lambda>n.
     kseq (klift (acquire_l TicksLock)) (
     kbind (kget ticks) (\<lambda>ticks0. sleep_iter n ticks0)))"

definition sys_kill :: "'z syscall" where
  "sys_kill = kbind (argint 0) (\<lambda>pid. kbind (kill (sint pid)) sysret)"

definition sys_uptime :: "'z syscall" where
  "sys_uptime =
     kseq (klift (acquire_l TicksLock)) (
     kbind (kget ticks) (\<lambda>xticks.
     kseq (klift (release_l TicksLock)) (kret (Inr (ucast xticks)))))"

definition finish_waitx ::
    "u64 \<Rightarrow> u64 \<Rightarrow> u64 \<Rightarrow> u32 \<Rightarrow> u32 \<Rightarrow> bool + int \<times> u32 \<times> u32 \<Rightarrow> ('z kstate_scheme, suspended + u64) kop" where
  "finish_waitx addr addr1 addr2 g1 g2 r =
     (case r of
        Inl ia \<Rightarrow> kret (Inl (WaitxSleep addr addr1 addr2 g1 g2 ia))
      | Inr (ret, wtime, rtime) \<Rightarrow>
          kbind kproc (\<lambda>p.
          kbind (kget_p p p_pagetable) (\<lambda>pt.
          kbind (on_mem (copyout pt addr1 (bytes_of_word 4 wtime))) (\<lambda>r.
            if r < 0 then sysret (- 1)
            else kbind (on_mem (copyout pt addr2 (bytes_of_word 4 rtime))) (\<lambda>r.
                   if r < 0 then sysret (- 1) else sysret ret)))))"

definition sys_waitx :: "u32 \<Rightarrow> u32 \<Rightarrow> 'z syscall" where
  "sys_waitx g1 g2 =
     kbind (argaddr 0) (\<lambda>addr.
     kbind (argaddr 1) (\<lambda>addr1.
     kbind (argaddr 2) (\<lambda>addr2.
     kbind (waitx addr g1 g2) (finish_waitx addr addr1 addr2 g1 g2))))"

text \<open>The search of \<open>sys_set_priority\<close>: it stops behind the array when no process has the pid.\<close>

definition find_pid :: "int \<Rightarrow> (nat \<Rightarrow> proc) \<Rightarrow> nat" where
  "find_pid pid P = (case find (\<lambda>i. p_pid (P i) = pid) [0..<NPROC] of None \<Rightarrow> NPROC | Some i \<Rightarrow> i)"

definition sys_set_priority :: "'z syscall" where
  "sys_set_priority =
     kbind (argint 0) (\<lambda>pid.
     kbind (argint 1) (\<lambda>priority.
       if sint priority < 0 \<or> sint priority > 100 then sysret (- 1)
       else kbind (kget (\<lambda>s. find_pid (sint pid) (k_proc s))) (\<lambda>i.
            kbind (kget_p i p_sp) (\<lambda>old_sp.
            kseq (kmod_p i (\<lambda>x. x\<lparr>p_sp := priority\<rparr>)) (
            if sint priority < sint old_sp
            then kbind yield_out (\<lambda>ia. kret (Inl (YieldSwitch old_sp ia)))
            else sysret (sint old_sp))))))"

section \<open>Resuming\<close>

definition resume_call :: "suspended \<Rightarrow> 'z syscall" where
  "resume_call w =
     (case w of
        WaitSleep addr ia \<Rightarrow> kbind (wait_resume addr ia) (finish_wait addr)
      | WaitxSleep addr addr1 addr2 g1 g2 ia \<Rightarrow>
          kbind (waitx_resume addr g1 g2 ia) (finish_waitx addr addr1 addr2 g1 g2)
      | TicksSleep n ticks0 ia \<Rightarrow> kseq (klift (sleep_in ia TicksLock)) (sleep_iter n ticks0)
      | YieldSwitch old_sp ia \<Rightarrow> kseq (klift (yield_in ia)) (sysret (sint old_sp))
      | ReadSleep f p n l \<Rightarrow> kbind (fileread_resume f p n l) (finish_io (ReadSleep f p n))
      | WriteSleep f p n l \<Rightarrow> kbind (filewrite_resume f p n l) (finish_io (WriteSleep f p n))
      | Exited ia \<Rightarrow> kpanic ''zombie exit'')"

section \<open>syscall.c\<close>

text \<open>The table \<open>syscalls\<close>, indexed by the numbers of \<open>syscall.h\<close>; the uninitialised stack data is \<open>g\<close>.\<close>

definition syscalls :: "u8 list \<times> u32 \<times> u32 \<Rightarrow> 'z syscall list" where
  "syscalls g = (case g of (pad, g1, g2) \<Rightarrow>
     [sys_fork, sys_exit, sys_wait, sys_pipe, sys_read, sys_kill, sys_exec, sys_fstat pad, sys_chdir,
      sys_dup, sys_getpid, sys_sbrk, sys_sleep, sys_uptime, sys_open, sys_write, sys_mknod, sys_unlink,
      sys_link, sys_mkdir, sys_close, sys_waitx g1 g2, sys_set_priority])"

definition finish_syscall :: "suspended + u64 \<Rightarrow> ('z xstate_scheme, suspended option) kop" where
  "finish_syscall r =
     kbind kproc (\<lambda>p. case r of
       Inl w \<Rightarrow> kret (Some w)
     | Inr v \<Rightarrow> kseq (kmod (write_tf p (tf_a 0) v)) (kret None))"

definition syscall :: "u8 list \<times> u32 \<times> u32 \<Rightarrow> ('z xstate_scheme, suspended option) kop" where
  "syscall g =
     kbind kproc (\<lambda>p.
     kbind (kget (read_tf p (tf_a 7))) (\<lambda>a7.
     let num = sint (ucast a7 :: u32)
     in if num > 0 \<and> num < 24
        then kbind (syscalls g ! (nat num - 1)) finish_syscall
        else
          kbind (kget (\<lambda>s. k_proc s p)) (\<lambda>pr.
          kseq (printf (''%d %s: unknown sys call %d'' @ [CHR 0x0A])
            [PInt (of_int (p_pid pr)), PStr (Some (c_string (p_name pr))), PInt (ucast a7)]) (
          kseq (kmod (write_tf p (tf_a 0) (- 1))) (kret None)))))"

definition syscall_resume :: "suspended \<Rightarrow> ('z xstate_scheme, suspended option) kop" where
  "syscall_resume w = kbind (resume_call w) finish_syscall"

end
