(* ===== verification/Trap.thy ===== *)
theory Trap
  imports Syscall Clock
begin

text \<open>
  The rest of \<open>kernel/trap.c\<close>, and \<open>forkret\<close> of \<open>kernel/proc.c\<close>. The supervisor registers are fields of
  the state; bit \<open>SSTATUS_SIE\<close> of \<open>sstatus\<close> is the field \<open>sie\<close> of the CPU. \<open>plic_claim\<close> reads the next
  of the interrupts that the controller has pending, \<open>plic_complete\<close> acknowledges it. The handler of
  the disk driver, \<open>virtio_disk_intr\<close>, is an argument, because the buffer cache sees completed
  requests only. A trap ends with the jump to \<open>userret\<close> (its address and argument), with a switch to
  another process, or, when \<open>cow_page_fault\<close> fails, with a plain return to the trampoline's caller.
\<close>

datatype trap_end =
  ToUser u64 u64 | InSyscall suspended | TrapYield bool | TrapExit bool | PlainReturn

section \<open>Initialisation, PLIC\<close>

definition trapinit :: "'z kstate_scheme \<Rightarrow> 'z kstate_scheme" where
  "trapinit s = s\<lparr>tickslock := initlock ''time''\<rparr>"

definition trapinithart :: "'z xstate_scheme \<Rightarrow> 'z xstate_scheme" where
  "trapinithart s = s\<lparr>csr_stvec := ad_kernelvec s\<rparr>"

definition plic_claim :: "('z xstate_scheme, u32) kop" where
  "plic_claim s = (case plic_irqs s of [] \<Rightarrow> Ok (0, s) | i # is \<Rightarrow> Ok (i, s\<lparr>plic_irqs := is\<rparr>))"

definition plic_complete :: "u32 \<Rightarrow> ('z xstate_scheme, unit) kop" where
  "plic_complete irq = kmod (\<lambda>s. s\<lparr>plic_completed := plic_completed s @ [irq]\<rparr>)"

section \<open>devintr\<close>

definition devintr :: "('z xstate_scheme, unit) kop \<Rightarrow> ('z xstate_scheme, int) kop" where
  "devintr virtio_disk_intr =
     kbind (kget csr_scause) (\<lambda>scause.
       if scause AND 0x8000000000000000 \<noteq> 0 \<and> scause AND 0xFF = 9
       then kbind plic_claim (\<lambda>irq.
            kseq (if irq = UART0_IRQ then uartintr
                  else if irq = VIRTIO0_IRQ then virtio_disk_intr
                  else if irq \<noteq> 0 then printf (''unexpected interrupt irq=%d'' @ [CHR 0x0A]) [PInt irq]
                  else kret ()) (
            kseq (if irq \<noteq> 0 then plic_complete irq else kret ()) (kret 1)))
       else if scause = 0x8000000000000001
       then kbind (kget k_hart) (\<lambda>h.
            kseq (if h = 0 then klift clockintr else kret ()) (
            kseq (kmod (\<lambda>s. s\<lparr>csr_sip := csr_sip s AND NOT 2\<rparr>)) (kret 2)))
       else kret 0)"

section \<open>Returning to user space\<close>

definition usertrapret :: "('z xstate_scheme, trap_end) kop" where
  "usertrapret =
     kbind kproc (\<lambda>p.
     kseq (kmod (\<lambda>s. set_cpu ((mycpu s)\<lparr>sie := False\<rparr>) s)) (
     kseq (kmod (\<lambda>s. s\<lparr>csr_stvec := TRAMPOLINE + (ad_uservec s - k_trampoline s)\<rparr>)) (
     kseq (kmod (\<lambda>s. write_tf p tf_kernel_satp (csr_satp s) s)) (
     kseq (kmod (\<lambda>s. write_tf p tf_kernel_sp (p_kstack (k_proc s p) + PGSIZE) s)) (
     kseq (kmod (\<lambda>s. write_tf p tf_kernel_trap (ad_usertrap s) s)) (
     kseq (kmod (\<lambda>s. write_tf p tf_kernel_hartid (of_nat (k_hart s)) s)) (
     kseq (kmod (\<lambda>s. s\<lparr>csr_sstatus := (csr_sstatus s AND NOT SSTATUS_SPP) OR SSTATUS_SPIE\<rparr>)) (
     kseq (kmod (\<lambda>s. s\<lparr>csr_sepc := read_tf p tf_epc s\<rparr>)) (
     kget (\<lambda>s. ToUser (TRAMPOLINE + (ad_userret s - k_trampoline s))
       (MAKE_SATP (p_pagetable (k_proc s p)))))))))))))"

definition forkret :: "('z xstate_scheme, trap_end) kop" where
  "forkret =
     kbind kproc (\<lambda>p.
     kseq (klift (release_l (ProcLock p))) (
     kbind (kget forkret_first) (\<lambda>first.
     kseq (if first then kseq (kmod (\<lambda>s. s\<lparr>forkret_first := False\<rparr>)) (fsinit ROOTDEV) else kret ())
       usertrapret)))"

section \<open>usertrap\<close>

text \<open>From \<open>if (killed(p))\<close> on.\<close>

definition usertrap_tail :: "nat \<Rightarrow> int \<Rightarrow> ('z xstate_scheme, trap_end) kop" where
  "usertrap_tail p which_dev =
     kbind (killed p) (\<lambda>k.
       if k then kbind (exit (- 1)) (\<lambda>ia. kret (TrapExit ia))
       else if which_dev = 2 then kbind yield_out (\<lambda>ia. kret (TrapYield ia))
       else usertrapret)"

definition usertrap_yielded :: "bool \<Rightarrow> ('z xstate_scheme, trap_end) kop" where
  "usertrap_yielded ia = kseq (klift (yield_in ia)) usertrapret"

definition after_syscall :: "nat \<Rightarrow> suspended option \<Rightarrow> ('z xstate_scheme, trap_end) kop" where
  "after_syscall p w = (case w of Some w \<Rightarrow> kret (InSyscall w) | None \<Rightarrow> usertrap_tail p 0)"

definition usertrap_resume :: "suspended \<Rightarrow> ('z xstate_scheme, trap_end) kop" where
  "usertrap_resume w = kbind kproc (\<lambda>p. kbind (syscall_resume w) (after_syscall p))"

definition usertrap ::
    "u8 list \<times> u32 \<times> u32 \<Rightarrow> ('z xstate_scheme, unit) kop \<Rightarrow> ('z xstate_scheme, trap_end) kop" where
  "usertrap g virtio_disk_intr =
     kbind (kget csr_sstatus) (\<lambda>st.
       if st AND SSTATUS_SPP \<noteq> 0 then kpanic ''usertrap: not from user mode''
       else
         kseq (kmod trapinithart) (
         kbind kproc (\<lambda>p.
         kseq (kmod (\<lambda>s. write_tf p tf_epc (csr_sepc s) s)) (
         kbind (kget csr_scause) (\<lambda>scause.
           if scause = 8
           then kbind (killed p) (\<lambda>k.
             if k then kbind (exit (- 1)) (\<lambda>ia. kret (TrapExit ia))
             else
               kseq (kmod (\<lambda>s. write_tf p tf_epc (read_tf p tf_epc s + 4) s)) (
               kseq (kmod (\<lambda>s. set_cpu ((mycpu s)\<lparr>sie := True\<rparr>) s)) (
               kbind (syscall g) (after_syscall p))))
           else if scause = 15
           then kbind (kget_p p p_pagetable) (\<lambda>pt.
                kbind (kget (\<lambda>s. PGROUNDDOWN (csr_stval s))) (\<lambda>va.
                  if va \<ge> MAXVA
                  then kseq (kmod_p p (\<lambda>x. x\<lparr>p_killed := True\<rparr>))
                         (kbind (exit (- 1)) (\<lambda>ia. kret (TrapExit ia)))
                  else kbind (on_mem (cow_page_fault pt va)) (\<lambda>r.
                         if r \<noteq> 0 then kret PlainReturn else usertrap_tail p 0)))
           else kbind (devintr virtio_disk_intr) (\<lambda>which_dev.
             if which_dev \<noteq> 0 then usertrap_tail p which_dev
             else
               kbind (kget_p p p_pid) (\<lambda>pid.
               kbind (kget (\<lambda>s. (csr_sepc s, csr_stval s))) (\<lambda>(sepc, stval).
               kseq (printf (''usertrap(): unexpected scause %p pid=%d'' @ [CHR 0x0A]) [PPtr scause, PInt (of_int pid)]) (
               kseq (printf (''            sepc=%p stval=%p'' @ [CHR 0x0A]) [PPtr sepc, PPtr stval]) (
               kseq (klift (setkilled p)) (usertrap_tail p 0)))))))))))"

section \<open>kerneltrap\<close>

text \<open>\<open>Inl\<close> of the local variables when it yields.\<close>

definition kerneltrap ::
    "('z xstate_scheme, unit) kop \<Rightarrow> ('z xstate_scheme, u64 \<times> u64 \<times> bool + unit) kop" where
  "kerneltrap virtio_disk_intr =
     kbind (kget (\<lambda>s. (csr_sepc s, csr_sstatus s, csr_scause s))) (\<lambda>(sepc, sstatus, scause).
       if sstatus AND SSTATUS_SPP = 0 then kpanic ''kerneltrap: not from supervisor mode''
       else kbind (kget (\<lambda>s. sie (mycpu s))) (\<lambda>intr.
         if intr then kpanic ''kerneltrap: interrupts enabled''
         else kbind (devintr virtio_disk_intr) (\<lambda>which_dev.
           if which_dev = 0
           then kbind (kget (\<lambda>s. (csr_sepc s, csr_stval s))) (\<lambda>(epc, stval).
                kseq (printf (''scause %p'' @ [CHR 0x0A]) [PPtr scause]) (
                kseq (printf (''sepc=%p stval=%p'' @ [CHR 0x0A]) [PPtr epc, PPtr stval])
                  (kpanic ''kerneltrap'')))
           else kbind (kget (\<lambda>s. which_dev = 2 \<and> (case myproc s of None \<Rightarrow> False
                    | Some p \<Rightarrow> p_state (k_proc s p) = RUNNING))) (\<lambda>give_up.
             if give_up then kbind yield_out (\<lambda>ia. kret (Inl (sepc, sstatus, ia)))
             else kseq (kmod (\<lambda>s. s\<lparr>csr_sepc := sepc, csr_sstatus := sstatus\<rparr>)) (kret (Inr ()))))))"

definition kerneltrap_resume :: "u64 \<times> u64 \<times> bool \<Rightarrow> ('z xstate_scheme, unit) kop" where
  "kerneltrap_resume l =
     (case l of (sepc, sstatus, ia) \<Rightarrow>
        kseq (klift (yield_in ia)) (kmod (\<lambda>s. (set_cpu ((mycpu s)\<lparr>sie := False\<rparr>) s)
          \<lparr>csr_sepc := sepc, csr_sstatus := sstatus\<rparr>)))"

end
