(* ===== verification/Dll.thy ===== *)
theory Dll
  imports Main
begin

text \<open>
  Circular doubly linked lists, as the buffer cache keeps them: \<open>nxt\<close> and \<open>prv\<close> give the two links of
  every node, \<open>h\<close> is the header node. \<open>seg a xs b\<close> is the part of such a list that leads from \<open>a\<close>
  through the nodes \<open>xs\<close> to \<open>b\<close>.
\<close>

primrec seg :: "('n \<Rightarrow> 'n) \<Rightarrow> ('n \<Rightarrow> 'n) \<Rightarrow> 'n \<Rightarrow> 'n list \<Rightarrow> 'n \<Rightarrow> bool" where
  "seg nxt prv a [] b \<longleftrightarrow> nxt a = b \<and> prv b = a"
| "seg nxt prv a (x # xs) b \<longleftrightarrow> nxt a = x \<and> prv x = a \<and> seg nxt prv x xs b"

definition dll :: "('n \<Rightarrow> 'n) \<Rightarrow> ('n \<Rightarrow> 'n) \<Rightarrow> 'n \<Rightarrow> 'n list \<Rightarrow> bool" where
  "dll nxt prv h xs \<longleftrightarrow> distinct (h # xs) \<and> seg nxt prv h xs h"

lemma seg_append: "seg nxt prv a (xs @ x # ys) b \<longleftrightarrow> seg nxt prv a xs x \<and> seg nxt prv x ys b"
  by (induction xs arbitrary: a) auto

lemma seg_rev: "seg nxt prv a xs b \<Longrightarrow> seg prv nxt b (rev xs) a"
  by (induction xs arbitrary: a) (auto simp: seg_append)

lemma seg_cong:
  "(\<And>n. n \<in> set (a # xs) \<Longrightarrow> nxt n = nxt' n) \<Longrightarrow> (\<And>n. n \<in> set (xs @ [b]) \<Longrightarrow> prv n = prv' n) \<Longrightarrow>
     seg nxt prv a xs b = seg nxt' prv' a xs b"
  by (induction xs arbitrary: a) auto

lemma seg_last: "seg nxt prv a xs b \<Longrightarrow> prv b = last (a # xs)"
  by (induction xs arbitrary: a) auto

lemma seg_first: "seg nxt prv a xs b \<Longrightarrow> nxt a = hd (xs @ [b])"
  by (cases xs) auto

lemma dll_rev: "dll nxt prv h xs \<Longrightarrow> dll prv nxt h (rev xs)"
  by (simp add: dll_def seg_rev)

lemma dll_push:
  assumes d: "dll nxt prv h xs" and b: "b \<notin> set (h # xs)"
  shows "dll (nxt(b := nxt h, h := b)) (prv(b := h, nxt h := b)) h (b # xs)"
proof (cases xs)
  case Nil
  then show ?thesis using d b by (auto simp: dll_def)
next
  case (Cons x ys)
  have s: "seg nxt prv x ys h" "nxt h = x" "distinct (h # x # ys)" "x \<notin> set ys" "h \<noteq> x" "b \<notin> set (h # x # ys)"
    using d b Cons by (auto simp: dll_def)
  have "seg (nxt(b := x, h := b)) (prv(b := h, x := b)) x ys h"
    using s by (subst seg_cong [of x ys _ nxt h _ prv]) auto
  then show ?thesis using s Cons by (auto simp: dll_def)
qed

lemma seg_remove:
  assumes "seg nxt prv a xs b" "seg nxt prv b ys c" "distinct (a # xs @ b # ys)" "c \<notin> set (xs @ b # ys)"
  shows "seg (nxt(prv b := nxt b)) (prv(nxt b := prv b)) a (xs @ ys) c"
  using assms
proof (induction xs arbitrary: a)
  case Nil
  show ?case
  proof (cases ys)
    case Nil
    then show ?thesis using Nil.prems by simp
  next
    case (Cons y zs)
    have s: "seg nxt prv y zs c" "nxt b = y" "prv b = a" "a \<notin> set (y # zs)" "y \<notin> set zs" "y \<noteq> c"
      using Nil.prems Cons by auto
    have "seg (nxt(a := y)) (prv(y := a)) y zs c"
      using s by (subst seg_cong [of y zs _ nxt c _ prv]) auto
    then show ?thesis unfolding s(2) s(3) Cons using s(4) by (simp del: fun_upd_apply add: fun_upd_same)
  qed
next
  case (Cons x xs)
  have p: "prv b = last (x # xs)" "nxt b = hd (ys @ [c])"
    using Cons.prems seg_last [of nxt prv x xs b] seg_first [of nxt prv b ys c] by auto
  have "last (x # xs) \<in> set (x # xs)" "hd (ys @ [c]) \<in> set (ys @ [c])" by (auto intro: last_in_set hd_in_set simp del: set_append)
  then have "(nxt(prv b := nxt b)) a = x" "(prv(nxt b := prv b)) x = a" using p Cons.prems by auto
  moreover have "seg (nxt(prv b := nxt b)) (prv(nxt b := prv b)) x (xs @ ys) c"
    using Cons.prems by (intro Cons.IH) auto
  ultimately show ?case unfolding append_Cons seg.simps by blast
qed

lemma dll_remove:
  assumes d: "dll nxt prv h xs" and b: "b \<in> set xs"
  shows "dll (nxt(prv b := nxt b)) (prv(nxt b := prv b)) h (remove1 b xs)"
proof -
  obtain ys zs where s: "xs = ys @ b # zs" "b \<notin> set ys" using b by (meson split_list_first)
  have "seg nxt prv h ys b" "seg nxt prv b zs h" "distinct (h # ys @ b # zs)"
    using d s by (auto simp: dll_def seg_append)
  then have "seg (nxt(prv b := nxt b)) (prv(nxt b := prv b)) h (ys @ zs) h"
    by (intro seg_remove) auto
  then show ?thesis using d s by (auto simp: dll_def remove1_append)
qed

end
