(* ===== verification/Bcache.thy ===== *)
theory Bcache
  imports Log Dll
begin

text \<open>
  The buffer cache of \<open>Bio\<close> as a list of buffers in the order of their last release. \<open>lru s xs\<close> says
  that the pointers form the circular list \<open>xs\<close>; the operations are then scans and rearrangements of
  \<open>xs\<close>. On top of it, the cache as a view of the disk: which blocks are cached, which buffers the
  current process has locked (\<open>L\<close>), how often each is pinned (\<open>pin\<close>).
\<close>

section \<open>The list of buffers\<close>

definition lru :: "'z bstate_scheme \<Rightarrow> nat list \<Rightarrow> bool" where
  "lru s xs \<longleftrightarrow> dll (\<lambda>i. b_next (bcache s i)) (\<lambda>i. b_prev (bcache s i)) bhead xs \<and> set xs = {..<NBUF}"

lemma lru_length: "lru s xs \<Longrightarrow> length xs = NBUF"
  by (metis card_lessThan distinct.simps(2) distinct_card dll_def lru_def)

lemma lru_cong:
  assumes "\<And>i. b_next (bcache t i) = b_next (bcache s i)" "\<And>i. b_prev (bcache t i) = b_prev (bcache s i)"
  shows "lru t xs = lru s xs"
  using assms by (simp add: lru_def)

lemma upd_b_cache [simp]: "bcache (upd_b i f s) = (bcache s)(i := f (bcache s i))"
  by (simp add: upd_b_def)

lemma upd_b_disk [simp]: "disk (upd_b i f s) = disk s" "dtrace (upd_b i f s) = dtrace s"
  by (simp_all add: upd_b_def)

text \<open>Following the \<open>next\<close> pointers (or the \<open>prev\<close> pointers) is going through the list.\<close>

lemma bfind_seg:
  "seg (\<lambda>i. dir (bcache s i)) prv a xs bhead \<Longrightarrow> bhead \<notin> set xs \<Longrightarrow> length xs \<le> n \<Longrightarrow>
     bfind n dir P (hd (xs @ [bhead])) s = Ok (find (\<lambda>b. P (bcache s b)) xs)"
proof (induction xs arbitrary: a n)
  case Nil
  then show ?case by (cases n) auto
next
  case (Cons x xs)
  then obtain m where n: "n = Suc m" "length xs \<le> m" by (cases n) auto
  have "dir (bcache s x) = hd (xs @ [bhead])" using Cons.prems(1) seg_first by fastforce
  then show ?case using Cons n by auto
qed

lemma bfind_next: "lru s xs \<Longrightarrow> bfind NBUF b_next P (b_next (bcache s bhead)) s = Ok (find (\<lambda>b. P (bcache s b)) xs)"
  using bfind_seg [of b_next s _ bhead xs NBUF P] seg_first lru_length
  by (fastforce simp: lru_def dll_def)

lemma bfind_prev: "lru s xs \<Longrightarrow> bfind NBUF b_prev P (b_prev (bcache s bhead)) s = Ok (find (\<lambda>b. P (bcache s b)) (rev xs))"
proof -
  assume l: "lru s xs"
  then have d: "dll (\<lambda>i. b_prev (bcache s i)) (\<lambda>i. b_next (bcache s i)) bhead (rev xs)"
    using dll_rev by (fastforce simp: lru_def)
  then have g: "seg (\<lambda>i. b_prev (bcache s i)) (\<lambda>i. b_next (bcache s i)) bhead (rev xs) bhead"
    by (simp add: dll_def)
  have "b_prev (bcache s bhead) = hd (rev xs @ [bhead])" using seg_first [OF g] by simp
  then show ?thesis using bfind_seg [OF g, of NBUF P] d lru_length [OF l] by (simp add: dll_def)
qed

lemma lru_push_list:
  assumes l: "dll (\<lambda>i. b_next (bcache s i)) (\<lambda>i. b_prev (bcache s i)) bhead xs" and b: "b \<notin> set (bhead # xs)"
  shows "dll (\<lambda>i. b_next (bcache (lru_push b s) i)) (\<lambda>i. b_prev (bcache (lru_push b s) i)) bhead (b # xs)"
proof -
  have n: "b_next (bcache s bhead) \<noteq> b" using l b seg_first [of _ _ bhead xs bhead] by (cases xs) (auto simp: dll_def)
  have "(\<lambda>i. b_next (bcache (lru_push b s) i)) = (\<lambda>i. b_next (bcache s i))(b := b_next (bcache s bhead), bhead := b)"
    "(\<lambda>i. b_prev (bcache (lru_push b s) i)) = (\<lambda>i. b_prev (bcache s i))(b := bhead, b_next (bcache s bhead) := b)"
    using b n by (auto simp: lru_push_def Let_def fun_eq_iff)
  then show ?thesis using dll_push [OF l b] by simp
qed

lemma lru_remove_list:
  assumes l: "dll (\<lambda>i. b_next (bcache s i)) (\<lambda>i. b_prev (bcache s i)) bhead xs" and b: "b \<in> set xs"
  shows "dll (\<lambda>i. b_next (bcache (lru_remove b s) i)) (\<lambda>i. b_prev (bcache (lru_remove b s) i)) bhead (remove1 b xs)"
proof -
  obtain ys zs where s: "xs = ys @ b # zs" "b \<notin> set ys" using b by (meson split_list_first)
  have "b_next (bcache s b) = hd (zs @ [bhead])" "b \<notin> set (zs @ [bhead])"
    using l s seg_first by (fastforce simp: dll_def seg_append)+
  moreover have "hd (zs @ [bhead]) \<in> set (zs @ [bhead])" by (rule hd_in_set) simp
  ultimately have n: "b_next (bcache s b) \<noteq> b" by metis
  have "(\<lambda>i. b_next (bcache (lru_remove b s) i)) = (\<lambda>i. b_next (bcache s i))(b_prev (bcache s b) := b_next (bcache s b))"
    "(\<lambda>i. b_prev (bcache (lru_remove b s) i)) = (\<lambda>i. b_prev (bcache s i))(b_next (bcache s b) := b_prev (bcache s b))"
    using n by (auto simp: lru_remove_def Let_def fun_eq_iff)
  then show ?thesis using dll_remove [OF l b] by simp
qed

text \<open>The end of \<open>brelse\<close>: the buffer goes to the front.\<close>

lemma lru_release:
  assumes l: "lru s xs" and b: "b \<in> set xs"
  shows "lru (lru_push b (lru_remove b s)) (b # remove1 b xs)"
proof -
  note d = l [unfolded lru_def, THEN conjunct1]
  have m: "distinct (bhead # xs)" "set xs = {..<NBUF}" using l by (auto simp: lru_def dll_def)
  then have "b \<notin> set (bhead # remove1 b xs)" using b by auto
  then show ?thesis
    using lru_push_list [OF lru_remove_list [OF d b]] m b by (auto simp: lru_def)
qed

text \<open>What the rearrangements leave alone.\<close>

definition bcore :: "buf \<Rightarrow> bool \<times> u32 \<times> u32 \<times> block \<times> sleeplock \<times> u32" where
  "bcore x = (b_valid x, b_dev x, b_blockno x, b_data x, b_lock x, b_refcnt x)"

lemma lru_push_core [simp]: "bcore (bcache (lru_push b s) i) = bcore (bcache s i)"
  by (simp add: lru_push_def Let_def bcore_def)

lemma lru_remove_core [simp]: "bcore (bcache (lru_remove b s) i) = bcore (bcache s i)"
  by (simp add: lru_remove_def Let_def bcore_def)

lemma lru_push_rest: "lru_push b s = s\<lparr>bcache := bcache (lru_push b s)\<rparr>"
  by (simp add: lru_push_def upd_b_def Let_def)

lemma lru_remove_rest: "lru_remove b s = s\<lparr>bcache := bcache (lru_remove b s)\<rparr>"
  by (simp add: lru_remove_def upd_b_def Let_def)

section \<open>The cache as a view of the disk\<close>

text \<open>
  Buffer \<open>b\<close> holds block \<open>bno\<close> of the root device; \<open>cview\<close> is the content that a reader of the cache
  sees. In \<open>cinv L P s\<close>, \<open>L\<close> is the set of blocks whose buffers the current process has locked, and \<open>P\<close>
  counts the pins of every block (\<open>bpin\<close>); all other references are gone.
\<close>

definition cached :: "'z bstate_scheme \<Rightarrow> u32 \<Rightarrow> nat \<Rightarrow> bool" where
  "cached s bno b \<longleftrightarrow> b < NBUF \<and> b_dev (bcache s b) = ROOTDEV \<and> b_blockno (bcache s b) = bno"

definition cview :: "'z bstate_scheme \<Rightarrow> u32 \<Rightarrow> block" where
  "cview s bno =
     (case find (\<lambda>b. b_dev (bcache s b) = ROOTDEV \<and> b_blockno (bcache s b) = bno) [0..<NBUF] of
        Some b \<Rightarrow> b_data (bcache s b) | None \<Rightarrow> disk s bno)"

definition cinv :: "u32 set \<Rightarrow> (u32 \<Rightarrow> nat) \<Rightarrow> 'z bstate_scheme \<Rightarrow> bool" where
  "cinv L P s \<longleftrightarrow>
     (\<exists>xs. lru s xs) \<and>
     (\<forall>b b' bno. cached s bno b \<longrightarrow> cached s bno b' \<longrightarrow> b = b') \<and>
     (\<forall>b bno. cached s bno b \<longrightarrow> b_valid (bcache s b)) \<and>
     (\<forall>bno. bno \<in> L \<or> 0 < P bno \<longrightarrow> (\<exists>b. cached s bno b)) \<and>
     (\<forall>bno. P bno < 2 ^ 31) \<and>
     (\<forall>b<NBUF. b_refcnt (bcache s b) =
        (if b_dev (bcache s b) = ROOTDEV
         then of_nat (P (b_blockno (bcache s b)) + of_bool (b_blockno (bcache s b) \<in> L)) else 0)) \<and>
     (\<forall>b<NBUF. sl_locked (b_lock (bcache s b)) \<longleftrightarrow> b_dev (bcache s b) = ROOTDEV \<and> b_blockno (bcache s b) \<in> L) \<and>
     (\<forall>b bno. cached s bno b \<longrightarrow> bno \<notin> L \<longrightarrow> P bno = 0 \<longrightarrow> b_data (bcache s b) = disk s bno) \<and>
     (\<exists>p. myproc s = Some p \<and>
        (\<forall>b bno. cached s bno b \<longrightarrow> bno \<in> L \<longrightarrow> sl_pid (b_lock (bcache s b)) = p_pid (k_proc s p)))"

definition cache :: "u32 set \<Rightarrow> (u32 \<Rightarrow> nat) \<Rightarrow> (u32 \<Rightarrow> block) \<Rightarrow> (u32 \<Rightarrow> block) \<Rightarrow> (u32 \<times> block) list \<Rightarrow>
    'z bstate_scheme \<Rightarrow> bool" where
  "cache L P V D T s \<longleftrightarrow> cinv L P s \<and> cview s = V \<and> disk s = D \<and> dtrace s = T"

text \<open>Only the cache and the disk change, and the buffers of the blocks in \<open>B\<close> stay where they are.\<close>

definition cframe :: "u32 set \<Rightarrow> 'z bstate_scheme \<Rightarrow> 'z bstate_scheme \<Rightarrow> bool" where
  "cframe B s t \<longleftrightarrow> (\<exists>c d w. t = s\<lparr>bcache := c, disk := d, dtrace := w\<rparr>) \<and>
     (\<forall>bno\<in>B. \<forall>b. cached s bno b \<longrightarrow> cached t bno b)"

lemma cframe_refl [simp]: "cframe B s s"
  unfolding cframe_def
  by (intro conjI exI [of _ "bcache s"] exI [of _ "disk s"] exI [of _ "dtrace s"]) (cases s, simp_all)

lemma cframe_trans: "cframe B s t \<Longrightarrow> cframe C t u \<Longrightarrow> cframe (B \<inter> C) s u"
proof -
  assume a: "cframe B s t" "cframe C t u"
  obtain c d w where "t = s\<lparr>bcache := c, disk := d, dtrace := w\<rparr>" using a(1) unfolding cframe_def by blast
  moreover obtain c' d' w' where "u = t\<lparr>bcache := c', disk := d', dtrace := w'\<rparr>" using a(2) unfolding cframe_def by blast
  ultimately have e: "u = s\<lparr>bcache := c', disk := d', dtrace := w'\<rparr>" by simp
  have "\<forall>bno\<in>B \<inter> C. \<forall>b. cached s bno b \<longrightarrow> cached u bno b"
    using a [unfolded cframe_def] by blast
  then show ?thesis unfolding cframe_def using e by blast
qed

lemma cframe_mono: "cframe B s t \<Longrightarrow> C \<subseteq> B \<Longrightarrow> cframe C s t"
  by (auto simp: cframe_def)

lemma cview_cached:
  assumes "\<forall>b b' bno. cached s bno b \<longrightarrow> cached s bno b' \<longrightarrow> b = b'" "cached s bno b"
  shows "cview s bno = b_data (bcache s b)"
proof -
  let ?Q = "\<lambda>b. b_dev (bcache s b) = ROOTDEV \<and> b_blockno (bcache s b) = bno"
  have "?Q b \<and> b \<in> set [0..<NBUF]" using assms(2) by (simp add: cached_def)
  then obtain c where c: "find ?Q [0..<NBUF] = Some c"
    by (cases "find ?Q [0..<NBUF]") (auto simp: find_None_iff)
  then have "?Q c \<and> c < NBUF" by (auto simp: find_Some_iff)
  then have "cached s bno c" by (simp add: cached_def)
  then have "c = b" using assms by blast
  then show ?thesis using c by (simp add: cview_def)
qed

lemma cview_uncached: "\<nexists>b. cached s bno b \<Longrightarrow> cview s bno = disk s bno"
proof -
  assume "\<nexists>b. cached s bno b"
  then have "find (\<lambda>b. b_dev (bcache s b) = ROOTDEV \<and> b_blockno (bcache s b) = bno) [0..<NBUF] = None"
    by (auto simp: find_None_iff cached_def)
  then show ?thesis by (simp add: cview_def)
qed

lemma cinvD:
  assumes "cinv L P s"
  shows "\<exists>xs. lru s xs" "\<And>b b' bno. cached s bno b \<Longrightarrow> cached s bno b' \<Longrightarrow> b = b'"
    "\<And>b bno. cached s bno b \<Longrightarrow> b_valid (bcache s b)"
    "\<And>bno. bno \<in> L \<or> 0 < P bno \<Longrightarrow> \<exists>b. cached s bno b"
    "\<And>bno. P bno < 2 ^ 31"
    "\<And>b bno. cached s bno b \<Longrightarrow> b_refcnt (bcache s b) = of_nat (P bno + of_bool (bno \<in> L))"
    "\<And>b. b < NBUF \<Longrightarrow> b_dev (bcache s b) \<noteq> ROOTDEV \<Longrightarrow> b_refcnt (bcache s b) = 0"
    "\<And>b bno. cached s bno b \<Longrightarrow> sl_locked (b_lock (bcache s b)) \<longleftrightarrow> bno \<in> L"
    "\<And>b. b < NBUF \<Longrightarrow> b_dev (bcache s b) \<noteq> ROOTDEV \<Longrightarrow> \<not> sl_locked (b_lock (bcache s b))"
    "\<And>b bno. cached s bno b \<Longrightarrow> bno \<notin> L \<Longrightarrow> P bno = 0 \<Longrightarrow> b_data (bcache s b) = disk s bno"
    "\<exists>p. myproc s = Some p \<and>
        (\<forall>b bno. cached s bno b \<longrightarrow> bno \<in> L \<longrightarrow> sl_pid (b_lock (bcache s b)) = p_pid (k_proc s p))"
proof -
  note A = assms [unfolded cinv_def]
  show "\<exists>xs. lru s xs" using A by (elim conjE)
  show "\<And>b b' bno. cached s bno b \<Longrightarrow> cached s bno b' \<Longrightarrow> b = b'" using A by (elim conjE) metis
  show "\<And>b bno. cached s bno b \<Longrightarrow> b_valid (bcache s b)" using A by (elim conjE) metis
  show "\<And>bno. bno \<in> L \<or> 0 < P bno \<Longrightarrow> \<exists>b. cached s bno b" using A by (elim conjE) metis
  show "\<And>bno. P bno < 2 ^ 31" using A by (elim conjE) metis
  have r: "\<forall>b<NBUF. b_refcnt (bcache s b) =
        (if b_dev (bcache s b) = ROOTDEV
         then of_nat (P (b_blockno (bcache s b)) + of_bool (b_blockno (bcache s b) \<in> L)) else 0)"
    using A by (elim conjE)
  then show "\<And>b bno. cached s bno b \<Longrightarrow> b_refcnt (bcache s b) = of_nat (P bno + of_bool (bno \<in> L))"
    unfolding cached_def by metis
  show "\<And>b. b < NBUF \<Longrightarrow> b_dev (bcache s b) \<noteq> ROOTDEV \<Longrightarrow> b_refcnt (bcache s b) = 0" using r by metis
  have l: "\<forall>b<NBUF. sl_locked (b_lock (bcache s b)) \<longleftrightarrow> b_dev (bcache s b) = ROOTDEV \<and> b_blockno (bcache s b) \<in> L"
    using A by (elim conjE)
  then show "\<And>b bno. cached s bno b \<Longrightarrow> sl_locked (b_lock (bcache s b)) \<longleftrightarrow> bno \<in> L" unfolding cached_def by metis
  show "\<And>b. b < NBUF \<Longrightarrow> b_dev (bcache s b) \<noteq> ROOTDEV \<Longrightarrow> \<not> sl_locked (b_lock (bcache s b))" using l by metis
  show "\<And>b bno. cached s bno b \<Longrightarrow> bno \<notin> L \<Longrightarrow> P bno = 0 \<Longrightarrow> b_data (bcache s b) = disk s bno"
    using A by (elim conjE) metis
  show "\<exists>p. myproc s = Some p \<and>
        (\<forall>b bno. cached s bno b \<longrightarrow> bno \<in> L \<longrightarrow> sl_pid (b_lock (bcache s b)) = p_pid (k_proc s p))"
    using A by (elim conjE)
qed

lemma cview_at: "cinv L P s \<Longrightarrow> cached s bno b \<Longrightarrow> cview s bno = b_data (bcache s b)"
  using cview_cached cinvD(2) by metis

lemma small_count: "n < 2 ^ 31 + 1 \<Longrightarrow> (of_nat n :: u32) = 0 \<longleftrightarrow> n = 0"
  by (simp add: word_unat_eq_iff unsigned_of_nat take_bit_nat_eq_self)

lemma free_buffer_iff:
  assumes "cinv L P s" "b < NBUF"
  shows "b_refcnt (bcache s b) = 0 \<longleftrightarrow>
    (b_dev (bcache s b) \<noteq> ROOTDEV \<or> (b_blockno (bcache s b) \<notin> L \<and> P (b_blockno (bcache s b)) = 0))"
proof (cases "b_dev (bcache s b) = ROOTDEV")
  case True
  then have c: "cached s (b_blockno (bcache s b)) b" using assms(2) by (simp add: cached_def)
  let ?n = "P (b_blockno (bcache s b)) + of_bool (b_blockno (bcache s b) \<in> L)"
  have "?n < 2 ^ 31 + 1" using cinvD(5) [OF assms(1), of "b_blockno (bcache s b)"] by simp
  then show ?thesis using cinvD(6) [OF assms(1) c] True small_count [of ?n] by auto
next
  case False
  then show ?thesis using cinvD(7) [OF assms] by simp
qed

text \<open>As long as fewer than \<open>NBUF\<close> blocks are locked or pinned, there is a buffer to recycle.\<close>

lemma free_buffer_exists:
  assumes i: "cinv L P s" and f: "finite (L \<union> {n. 0 < P n})" and c: "card (L \<union> {n. 0 < P n}) < NBUF"
  shows "\<exists>b<NBUF. b_refcnt (bcache s b) = 0"
proof (rule ccontr)
  assume "\<not> ?thesis"
  then have a: "b_dev (bcache s b) = ROOTDEV" "b_blockno (bcache s b) \<in> L \<union> {n. 0 < P n}" if "b < NBUF" for b
    using free_buffer_iff [OF i that] that by auto
  have "inj_on (\<lambda>b. b_blockno (bcache s b)) {..<NBUF}"
    by (intro inj_onI cinvD(2) [OF i]) (use a in \<open>auto simp: cached_def\<close>)
  moreover have "(\<lambda>b. b_blockno (bcache s b)) ` {..<NBUF} \<subseteq> L \<union> {n. 0 < P n}" using a by auto
  ultimately have "NBUF \<le> card (L \<union> {n. 0 < P n})" using f by (metis card_image card_lessThan card_mono)
  then show False using c by simp
qed

section \<open>One buffer changes\<close>

text \<open>
  Everything the code does to a buffer \<open>b\<close>, which holds block \<open>bno\<close> afterwards: locking it, recycling
  it, changing its data, writing it to the disk, pinning it. Other buffers and blocks are untouched.
\<close>

lemma cinv_set:
  assumes i: "cinv L P s" and t: "bcache t = (bcache s)(b := y)" "\<And>n. n \<noteq> bno \<Longrightarrow> disk t n = disk s n"
    "myproc t = myproc s" "k_proc t = k_proc s"
    and b: "b < NBUF" "b_next y = b_next (bcache s b)" "b_prev y = b_prev (bcache s b)"
    and y: "b_dev y = ROOTDEV" "b_blockno y = bno" "b_valid y"
    and only: "\<And>b'. cached s bno b' \<Longrightarrow> b' = b"
    and old: "\<And>n. cached s n b \<Longrightarrow> n \<noteq> bno \<Longrightarrow> n \<notin> L \<and> P n = 0"
    and L: "\<And>n. n \<noteq> bno \<Longrightarrow> n \<in> L' \<longleftrightarrow> n \<in> L" and P: "\<And>n. n \<noteq> bno \<Longrightarrow> P' n = P n" "P' bno < 2 ^ 31"
    and ref: "b_refcnt y = of_nat (P' bno + of_bool (bno \<in> L'))" and lk: "sl_locked (b_lock y) \<longleftrightarrow> bno \<in> L'"
    and clean: "bno \<notin> L' \<Longrightarrow> P' bno = 0 \<Longrightarrow> b_data y = disk t bno"
    and pid: "\<And>p. bno \<in> L' \<Longrightarrow> myproc s = Some p \<Longrightarrow> sl_pid (b_lock y) = p_pid (k_proc s p)"
  shows "cinv L' P' t" and "cview t = (cview s)(bno := b_data y)"
proof -
  note I = cinvD [OF i]
  have c: "cached t n b' \<longleftrightarrow> (if b' = b then n = bno else cached s n b')" for n b'
    using b(1) y by (auto simp: cached_def t(1))
  have same: "bcache t b' = bcache s b'" if "b' \<noteq> b" for b' using that t(1) by simp
  have tb: "bcache t b = y" using t(1) by simp
  have ns: "n \<noteq> bno" if "cached s n b'" "b' \<noteq> b" for n b' using only that by blast
  have uniq: "\<forall>b1 b2 n. cached t n b1 \<longrightarrow> cached t n b2 \<longrightarrow> b1 = b2"
    using I(2) only c by metis
  have at: "if b' = b then n = bno else cached s n b' \<and> n \<noteq> bno" if "cached t n b'" for n b'
    using c ns that by (cases "b' = b") auto
  show "cinv L' P' t"
    unfolding cinv_def
  proof (intro conjI allI impI, goal_cases)
    case 1
    have "lru t = lru s"
      unfolding fun_eq_iff by (intro allI lru_cong) (use b in \<open>auto simp: t(1)\<close>)
    then show ?case using I(1) by simp
  next
    case (2 b1 b2 n)
    then show ?case using uniq by blast
  next
    case (3 b' n)
    then show ?case using at [OF 3] I(3) [of n b'] y(3) same tb by (cases "b' = b") auto
  next
    case (4 n)
    show ?case
    proof (cases "n = bno")
      case True
      then show ?thesis using c [of n b] by auto
    next
      case False
      then have n: "n \<in> L \<or> 0 < P n" using 4 L [of n] P(1) [of n] by simp
      then obtain b' where b': "cached s n b'" using I(4) by blast
      then have "b' \<noteq> b" using old [of n] False n by auto
      note b' = b' this
      then show ?thesis using c [of n b'] by auto
    qed
  next
    case (5 n)
    then show ?case using I(5) P by (cases "n = bno") auto
  next
    case (6 b')
    show ?case
    proof (cases "b' = b")
      case True
      then show ?thesis using ref y tb by simp
    next
      case False
      show ?thesis
      proof (cases "b_dev (bcache s b') = ROOTDEV")
        case True
        then have cb: "cached s (b_blockno (bcache s b')) b'" using 6 by (simp add: cached_def)
        then show ?thesis using I(6) [OF cb] ns [OF cb False] L P(1) True same [OF False] by simp
      next
        case F: False
        then show ?thesis using I(7) [OF 6 F] same [OF False] by simp
      qed
    qed
  next
    case (7 b')
    show ?case
    proof (cases "b' = b")
      case True
      then show ?thesis using lk y tb by simp
    next
      case False
      show ?thesis
      proof (cases "b_dev (bcache s b') = ROOTDEV")
        case True
        then have cb: "cached s (b_blockno (bcache s b')) b'" using 7 by (simp add: cached_def)
        then show ?thesis using I(8) [OF cb] ns [OF cb False] L True same [OF False] by simp
      next
        case F: False
        then show ?thesis using I(9) [OF 7 F] same [OF False] by simp
      qed
    qed
  next
    case (8 b' n)
    then show ?case using at [OF 8(1)] I(10) [of n b'] clean L P(1) same tb t(2) by (cases "b' = b") auto
  next
    case 9
    obtain p where p: "myproc s = Some p"
        "\<forall>b bno. cached s bno b \<longrightarrow> bno \<in> L \<longrightarrow> sl_pid (b_lock (bcache s b)) = p_pid (k_proc s p)"
      using I(11) by blast
    have "sl_pid (b_lock (bcache t b')) = p_pid (k_proc t p)" if "cached t n b'" "n \<in> L'" for b' n
      using at [OF that(1)] that(2) pid p L same tb t(4) by (cases "b' = b") auto
    then show ?case using p(1) t(3) by auto
  qed
  show "cview t = (cview s)(bno := b_data y)"
  proof
    fix n
    show "cview t n = ((cview s)(bno := b_data y)) n"
    proof (cases "n = bno")
      case True
      then have "cached t n b" using c by simp
      then show ?thesis using cview_cached [OF uniq] True tb by simp
    next
      case False
      show ?thesis
      proof (cases "\<exists>b'. cached s n b'")
        case True
        then obtain b' where b': "cached s n b'" by blast
        show ?thesis
        proof (cases "b' = b")
          case True
          then have "\<nexists>b''. cached t n b''" using c False I(2) [OF b'] by metis
          moreover have "cview s n = disk s n" using old b' False True I(10) [OF b'] cview_at [OF i b'] by simp
          ultimately show ?thesis using cview_uncached [of t n] t(2) False by simp
        next
          case nb: False
          then have "cached t n b'" using c b' by simp
          then show ?thesis using cview_cached [OF uniq] cview_at [OF i b'] False same [OF nb] by simp
        qed
      next
        case no: False
        then have "\<nexists>b'. cached t n b'" using c False by metis
        then show ?thesis using cview_uncached [of t n] cview_uncached [OF no] t(2) False by simp
      qed
    qed
  qed
qed

text \<open>Only the links change.\<close>

lemma cinv_links:
  assumes i: "cinv L P s" and l: "lru t xs" and c: "\<And>b. bcore (bcache t b) = bcore (bcache s b)"
    and t: "disk t = disk s" "myproc t = myproc s" "k_proc t = k_proc s"
  shows "cinv L P t" and "cview t = cview s" and "cached t = cached s"
proof -
  have e: "b_valid (bcache t b) = b_valid (bcache s b)" "b_dev (bcache t b) = b_dev (bcache s b)"
    "b_blockno (bcache t b) = b_blockno (bcache s b)" "b_data (bcache t b) = b_data (bcache s b)"
    "b_lock (bcache t b) = b_lock (bcache s b)" "b_refcnt (bcache t b) = b_refcnt (bcache s b)" for b
    using c [of b] by (simp_all add: bcore_def)
  show ct: "cached t = cached s" by (simp add: cached_def fun_eq_iff e)
  show "cview t = cview s" by (simp add: cview_def fun_eq_iff e t(1) cong: option.case_cong)
  have "\<exists>xs. lru t xs" using l by blast
  then show "cinv L P t" using i unfolding cinv_def ct e t by (elim conjE) (intro conjI; assumption)
qed

section \<open>The operations\<close>

definition locked_by :: "int \<Rightarrow> sleeplock \<Rightarrow> sleeplock" where
  "locked_by pid lk = lk\<lparr>sl_locked := True, sl_pid := pid\<rparr>"

lemma upd_b_upd_b: "upd_b i f (upd_b i g s) = upd_b i (\<lambda>x. f (g x)) s"
  by (simp add: upd_b_def)

lemma upd_b_proc [simp]: "myproc (upd_b i f s) = myproc s" "k_proc (upd_b i f s) = k_proc s"
  by (simp_all add: upd_b_def myproc_def mycpu_def)

lemma lock_buf_free:
  "myproc s = Some p \<Longrightarrow> \<not> sl_locked (b_lock (bcache s b)) \<Longrightarrow>
     lock_buf b s = Ok (b, upd_b b (\<lambda>x. x\<lparr>b_lock := locked_by (p_pid (k_proc s p)) (b_lock x)\<rparr>) s)"
  by (simp add: lock_buf_def sleep_acquire_def with_proc_def acquiresleep_def locked_by_def upd_b_def)

lemma find_is: "(\<exists>x\<in>set xs. P x) \<Longrightarrow> \<exists>x. find P xs = Some x \<and> P x \<and> x \<in> set xs"
  by (induction xs) auto

lemma bread_hit:
  assumes i: "cinv L P s" and c: "cached s bno b" and n: "bno \<notin> L" and p: "myproc s = Some p"
  shows "bread ROOTDEV bno s = Ok (b, upd_b b (\<lambda>x. x\<lparr>b_refcnt := b_refcnt x + 1,
    b_lock := locked_by (p_pid (k_proc s p)) (b_lock x)\<rparr>) s)"
proof -
  obtain xs where xs: "lru s xs" using cinvD(1) [OF i] by blast
  then have "b \<in> set xs" using c by (simp add: lru_def cached_def)
  then obtain b' where b': "find (\<lambda>x. b_dev (bcache s x) = ROOTDEV \<and> b_blockno (bcache s x) = bno) xs = Some b'"
      "b_dev (bcache s b') = ROOTDEV \<and> b_blockno (bcache s b') = bno" "b' \<in> set xs"
    using find_is [of xs "\<lambda>x. b_dev (bcache s x) = ROOTDEV \<and> b_blockno (bcache s x) = bno"] c
    by (auto simp: cached_def)
  then have "cached s bno b'" using xs by (simp add: lru_def cached_def)
  then have e: "b' = b" using cinvD(2) [OF i] c by blast
  have "bget ROOTDEV bno s = Ok (b, upd_b b (\<lambda>x. x\<lparr>b_refcnt := b_refcnt x + 1,
      b_lock := locked_by (p_pid (k_proc s p)) (b_lock x)\<rparr>) s)"
    using bfind_next [OF xs] b'(1) e cinvD(8) [OF i c] n p
    by (simp add: bget_def lock_buf_free upd_b_upd_b)
  then show ?thesis
    using cinvD(3) [OF i c] by (simp add: bread_def kbind_Ok)
qed

lemma bread_miss:
  assumes i: "cinv L P s" and c: "\<nexists>b. cached s bno b" and p: "myproc s = Some p"
    and f: "finite (L \<union> {n. 0 < P n})" "card (L \<union> {n. 0 < P n}) < NBUF"
  shows "\<exists>b<NBUF. b_refcnt (bcache s b) = 0 \<and> bread ROOTDEV bno s = Ok (b, upd_b b (\<lambda>x. x\<lparr>b_dev := ROOTDEV,
    b_blockno := bno, b_refcnt := 1, b_lock := locked_by (p_pid (k_proc s p)) (b_lock x),
    b_data := disk s bno, b_valid := True\<rparr>) s)"
proof -
  obtain xs where xs: "lru s xs" using cinvD(1) [OF i] by blast
  have none: "find (\<lambda>x. b_dev (bcache s x) = ROOTDEV \<and> b_blockno (bcache s x) = bno) xs = None"
    using c xs by (auto simp: find_None_iff lru_def cached_def)
  have "\<exists>b\<in>set (rev xs). b_refcnt (bcache s b) = 0"
    using free_buffer_exists [OF i f] xs by (auto simp: lru_def)
  from find_is [OF this] obtain b where b: "find (\<lambda>b. b_refcnt (bcache s b) = 0) (rev xs) = Some b"
      "b_refcnt (bcache s b) = 0" "b < NBUF" using xs by (auto simp: lru_def)
  have un: "\<not> sl_locked (b_lock (bcache s b))"
    using free_buffer_iff [OF i b(3)] b(2) cinvD(8) [OF i, of "b_blockno (bcache s b)" b] cinvD(9) [OF i b(3)] b(3)
    by (auto simp: cached_def)
  let ?t = "upd_b b (\<lambda>x. x\<lparr>b_dev := ROOTDEV, b_blockno := bno, b_valid := False, b_refcnt := 1,
      b_lock := locked_by (p_pid (k_proc s p)) (b_lock x)\<rparr>) s"
  have "bget ROOTDEV bno s = Ok (b, ?t)"
    using bfind_next [OF xs] bfind_prev [OF xs] none b un p
    by (simp add: bget_def lock_buf_free upd_b_upd_b)
  then have "bread ROOTDEV bno s = Ok (b, upd_b b (\<lambda>x. x\<lparr>b_dev := ROOTDEV,
    b_blockno := bno, b_refcnt := 1, b_lock := locked_by (p_pid (k_proc s p)) (b_lock x),
    b_data := disk s bno, b_valid := True\<rparr>) s)"
    by (simp add: bread_def kbind_Ok disk_rw_def upd_b_upd_b kseq_def kbind_def)
  then show ?thesis using b by blast
qed

abbreviation busy :: "u32 set \<Rightarrow> (u32 \<Rightarrow> nat) \<Rightarrow> u32 set" where
  "busy L P \<equiv> L \<union> {n. 0 < P n}"

lemma cframe_upd_b:
  assumes "\<And>n. n \<in> B \<Longrightarrow> cached s n b \<Longrightarrow> cached (upd_b b f s) n b"
  shows "cframe B s (upd_b b f s)"
proof -
  have "upd_b b f s = s\<lparr>bcache := (bcache s)(b := f (bcache s b)), disk := disk s, dtrace := dtrace s\<rparr>"
    by (simp add: upd_b_def)
  moreover have "cached (upd_b b f s) n b'" if "n \<in> B" "cached s n b'" for n b'
    using assms that by (cases "b' = b") (auto simp: cached_def)
  ultimately show ?thesis unfolding cframe_def by blast
qed

lemma bread_runs:
  assumes k: "cache L P V D T s" and n: "bno \<notin> L" and f: "0 < P bno \<or> finite (busy L P) \<and> card (busy L P) < NBUF"
  shows "runs (bread ROOTDEV bno) s (\<lambda>b t. cache (insert bno L) P V D T t \<and> cached t bno b \<and> cframe (busy L P) s t)"
proof -
  have i: "cinv L P s" and V: "cview s = V" "disk s = D" "dtrace s = T" using k by (auto simp: cache_def)
  obtain p where p: "myproc s = Some p" using cinvD(11) [OF i] by blast
  show ?thesis
  proof (cases "\<exists>b. cached s bno b")
    case True
    then obtain b where b: "cached s bno b" by blast
    let ?y = "(bcache s b)\<lparr>b_refcnt := b_refcnt (bcache s b) + 1, b_lock := locked_by (p_pid (k_proc s p)) (b_lock (bcache s b))\<rparr>"
    let ?t = "upd_b b (\<lambda>x. x\<lparr>b_refcnt := b_refcnt x + 1, b_lock := locked_by (p_pid (k_proc s p)) (b_lock x)\<rparr>) s"
    have bb: "b < NBUF" "b_dev (bcache s b) = ROOTDEV" "b_blockno (bcache s b) = bno" using b by (auto simp: cached_def)
    have st: "cinv (insert bno L) P ?t" "cview ?t = (cview s)(bno := b_data ?y)"
      by (rule cinv_set [OF i, of ?t b ?y bno "insert bno L" P];
          use bb b n p cinvD(2,3,5,6) [OF i] in \<open>auto simp: locked_by_def cached_def\<close>)+
    have "cached ?t bno b" using bb by (simp add: cached_def)
    moreover have "cframe (busy L P) s ?t" by (rule cframe_upd_b) (simp add: cached_def)
    moreover have "cview ?t = V" using st(2) V(1) cview_at [OF i b] by (simp add: fun_upd_idem)
    ultimately show ?thesis using bread_hit [OF i b n p] st(1) V by (simp add: runs_def cache_def)
  next
    case False
    then have ff: "finite (busy L P)" "card (busy L P) < NBUF" using f cinvD(4) [OF i] by blast+
    obtain b where b: "b < NBUF" "b_refcnt (bcache s b) = 0"
      and br: "bread ROOTDEV bno s = Ok (b, upd_b b (\<lambda>x. x\<lparr>b_dev := ROOTDEV,
        b_blockno := bno, b_refcnt := 1, b_lock := locked_by (p_pid (k_proc s p)) (b_lock x),
        b_data := disk s bno, b_valid := True\<rparr>) s)"
      using bread_miss [OF i False p ff] by blast
    let ?f = "\<lambda>x. x\<lparr>b_dev := ROOTDEV, b_blockno := bno, b_refcnt := 1,
      b_lock := locked_by (p_pid (k_proc s p)) (b_lock x), b_data := disk s bno, b_valid := True\<rparr>"
    let ?t = "upd_b b ?f s"
    have P0: "P bno = 0" using False cinvD(4) [OF i, of bno] by (cases "P bno") auto
    have old: "m \<notin> L \<and> P m = 0" if "cached s m b" for m
      using free_buffer_iff [OF i b(1)] b(2) that by (auto simp: cached_def)
    have st: "cinv (insert bno L) P ?t" "cview ?t = (cview s)(bno := b_data (?f (bcache s b)))"
      by (rule cinv_set [OF i, of ?t b "?f (bcache s b)" bno "insert bno L" P];
          use b False p P0 old in \<open>auto simp: locked_by_def\<close>)+
    have "cached ?t bno b" using b by (simp add: cached_def)
    moreover have "cframe (busy L P) s ?t" by (rule cframe_upd_b) (use old in auto)
    moreover have "cview ?t = V" using st(2) V cview_uncached [OF False] by (simp add: fun_upd_idem)
    ultimately show ?thesis using br st(1) V by (simp add: runs_def cache_def)
  qed
qed

lemma holding_buf_locked:
  assumes "cinv L P s" "cached s bno b" "bno \<in> L"
  shows "holding_buf b s = Ok (True, s)"
proof -
  obtain p where p: "myproc s = Some p" "sl_pid (b_lock (bcache s b)) = p_pid (k_proc s p)"
    using cinvD(11) [OF assms(1)] assms(2,3) by blast
  then show ?thesis using cinvD(8) [OF assms(1,2)] assms(3)
    by (simp add: holding_buf_def sleep_holding_def with_proc_def holdingsleep_def)
qed

lemma bwrite_runs:
  assumes k: "cache L P V D T s" and b: "cached s bno b" "bno \<in> L"
  shows "runs (bwrite b) s (\<lambda>_ t. cache L P V (D(bno := V bno)) (T @ [(bno, V bno)]) t \<and> cframe UNIV s t)"
proof -
  have i: "cinv L P s" and V: "cview s = V" "disk s = D" "dtrace s = T" using k by (auto simp: cache_def)
  have d: "b_data (bcache s b) = V bno" using cview_at [OF i b(1)] V by simp
  let ?t = "s\<lparr>disk := D(bno := V bno), dtrace := T @ [(bno, V bno)]\<rparr>"
  have bb: "b < NBUF" "b_dev (bcache s b) = ROOTDEV" "b_blockno (bcache s b) = bno" using b by (auto simp: cached_def)
  have w: "bwrite b s = Ok ((), ?t)"
    using holding_buf_locked [OF i b] V d bb by (simp add: bwrite_def kbind_Ok disk_rw_def Let_def)
  obtain p where p: "myproc s = Some p" "sl_pid (b_lock (bcache s b)) = p_pid (k_proc s p)"
    using cinvD(11) [OF i] b by blast
  have st: "cinv L P ?t" "cview ?t = (cview s)(bno := b_data (bcache s b))"
    by (rule cinv_set [OF i, of ?t b "bcache s b" bno L P];
        use bb b p V cinvD(2,3,5,6,8) [OF i] in \<open>auto simp: myproc_def mycpu_def cached_def\<close>)+
  have "\<exists>c d w. ?t = s\<lparr>bcache := c, disk := d, dtrace := w\<rparr>"
    by (intro exI [of _ "bcache s"] exI [of _ "D(bno := V bno)"] exI [of _ "T @ [(bno, V bno)]"]) simp
  then have "cframe UNIV s ?t" by (simp add: cframe_def cached_def)
  then show ?thesis using w st V d by (simp add: runs_def cache_def fun_upd_idem)
qed

lemma set_data_runs:
  assumes k: "cache L P V D T s" and b: "cached s bno b" "bno \<in> L"
  shows "runs (set_data b f) s (\<lambda>_ t. cache L P (V(bno := f (V bno))) D T t \<and> cframe UNIV s t)"
proof -
  have i: "cinv L P s" and V: "cview s = V" "disk s = D" "dtrace s = T" using k by (auto simp: cache_def)
  have bb: "b < NBUF" "b_dev (bcache s b) = ROOTDEV" "b_blockno (bcache s b) = bno" using b by (auto simp: cached_def)
  let ?t = "upd_b b (\<lambda>x. x\<lparr>b_data := f (b_data x)\<rparr>) s"
  obtain p where p: "myproc s = Some p" "sl_pid (b_lock (bcache s b)) = p_pid (k_proc s p)"
    using cinvD(11) [OF i] b by blast
  have st: "cinv L P ?t" "cview ?t = (cview s)(bno := b_data ((bcache s b)\<lparr>b_data := f (b_data (bcache s b))\<rparr>))"
    by (rule cinv_set [OF i, of ?t b "(bcache s b)\<lparr>b_data := f (b_data (bcache s b))\<rparr>" bno L P];
        use bb b p cinvD(2,3,5,6,8) [OF i] in \<open>auto simp: cached_def\<close>)+
  have "cframe UNIV s ?t" by (rule cframe_upd_b) (simp add: cached_def)
  then show ?thesis using st V cview_at [OF i b(1)] by (simp add: set_data_def cache_def)
qed

lemma get_data_runs:
  "cache L P V D T s \<Longrightarrow> cached s bno b \<Longrightarrow> runs (get_data b) s (\<lambda>d t. d = V bno \<and> t = s)"
  by (auto simp: get_data_def cache_def cview_at)

lemma bunpin_runs:
  assumes k: "cache L P V D T s" and b: "cached s bno b" "bno \<in> L" and pos: "0 < P bno"
  shows "runs (bunpin b) s (\<lambda>_ t. cache L (P(bno := P bno - 1)) V D T t \<and> cframe UNIV s t)"
proof -
  have i: "cinv L P s" and V: "cview s = V" "disk s = D" "dtrace s = T" using k by (auto simp: cache_def)
  have bb: "b < NBUF" "b_dev (bcache s b) = ROOTDEV" "b_blockno (bcache s b) = bno" using b by (auto simp: cached_def)
  let ?y = "(bcache s b)\<lparr>b_refcnt := b_refcnt (bcache s b) - 1\<rparr>"
  let ?t = "upd_b b (\<lambda>x. x\<lparr>b_refcnt := b_refcnt x - 1\<rparr>) s"
  obtain p where p: "myproc s = Some p" "sl_pid (b_lock (bcache s b)) = p_pid (k_proc s p)"
    using cinvD(11) [OF i] b by blast
  obtain n where n: "P bno = Suc n" using pos by (cases "P bno") auto
  have r: "b_refcnt ?y = of_nat ((P(bno := P bno - 1)) bno + of_bool (bno \<in> L))"
    using cinvD(6) [OF i b(1)] b(2) n by simp
  have st: "cinv L (P(bno := P bno - 1)) ?t" "cview ?t = (cview s)(bno := b_data ?y)"
    by (rule cinv_set [OF i, of ?t b ?y bno L "P(bno := P bno - 1)"];
        use bb b p r n cinvD(2,3,8) [OF i] cinvD(5) [OF i, of bno] in \<open>auto simp: cached_def\<close>)+
  have "cframe UNIV s ?t" by (rule cframe_upd_b) (simp add: cached_def)
  then show ?thesis using st V cview_at [OF i b(1)] by (simp add: bunpin_def cache_def fun_upd_idem)
qed

lemma bpin_runs:
  assumes k: "cache L P V D T s" and b: "cached s bno b" "bno \<in> L" and small: "P bno + 1 < 2 ^ 31"
  shows "runs (bpin b) s (\<lambda>_ t. cache L (P(bno := P bno + 1)) V D T t \<and> cframe UNIV s t)"
proof -
  have i: "cinv L P s" and V: "cview s = V" "disk s = D" "dtrace s = T" using k by (auto simp: cache_def)
  have bb: "b < NBUF" "b_dev (bcache s b) = ROOTDEV" "b_blockno (bcache s b) = bno" using b by (auto simp: cached_def)
  let ?y = "(bcache s b)\<lparr>b_refcnt := b_refcnt (bcache s b) + 1\<rparr>"
  let ?t = "upd_b b (\<lambda>x. x\<lparr>b_refcnt := b_refcnt x + 1\<rparr>) s"
  obtain p where p: "myproc s = Some p" "sl_pid (b_lock (bcache s b)) = p_pid (k_proc s p)"
    using cinvD(11) [OF i] b by blast
  have r: "b_refcnt ?y = of_nat ((P(bno := P bno + 1)) bno + of_bool (bno \<in> L))"
    using cinvD(6) [OF i b(1)] b(2) by simp
  have st: "cinv L (P(bno := P bno + 1)) ?t" "cview ?t = (cview s)(bno := b_data ?y)"
    by (rule cinv_set [OF i, of ?t b ?y bno L "P(bno := P bno + 1)"];
        use bb b p r small cinvD(2,3,8) [OF i] in \<open>auto simp: cached_def\<close>)+
  have "cframe UNIV s ?t" by (rule cframe_upd_b) (simp add: cached_def)
  then show ?thesis using st V cview_at [OF i b(1)] by (simp add: bpin_def cache_def fun_upd_idem)
qed

lemma brelse_runs:
  assumes k: "cache L P V D T s" and b: "cached s bno b" "bno \<in> L" and clean: "P bno = 0 \<Longrightarrow> V bno = D bno"
  shows "runs (brelse b) s (\<lambda>_ t. cache (L - {bno}) P V D T t \<and> cframe UNIV s t)"
proof -
  have i: "cinv L P s" and V: "cview s = V" "disk s = D" "dtrace s = T" using k by (auto simp: cache_def)
  have bb: "b < NBUF" "b_dev (bcache s b) = ROOTDEV" "b_blockno (bcache s b) = bno" using b by (auto simp: cached_def)
  let ?f = "\<lambda>x. x\<lparr>b_lock := releasesleep (b_lock x), b_refcnt := b_refcnt x - 1\<rparr>"
  let ?y = "?f (bcache s b)" and ?u = "upd_b b ?f s"
  have d: "b_data (bcache s b) = V bno" using cview_at [OF i b(1)] V by simp
  have r: "b_refcnt ?y = of_nat (P bno)" using cinvD(6) [OF i b(1)] b(2) by simp
  have st: "cinv (L - {bno}) P ?u" "cview ?u = (cview s)(bno := b_data ?y)"
    by (rule cinv_set [OF i, of ?u b ?y bno "L - {bno}" P];
        use bb b r d clean V cinvD(2,3,5) [OF i] in \<open>auto simp: cached_def releasesleep_def\<close>)+
  have cu: "cached ?u = cached s" by (auto simp: cached_def fun_eq_iff)
  have ku: "cache (L - {bno}) P V D T ?u" using st V d by (simp add: cache_def fun_upd_idem)
  have fu: "cframe UNIV s ?u" by (rule cframe_upd_b) (simp add: cached_def)
  have run: "brelse b s = Ok ((), if b_refcnt (bcache ?u b) = 0 then lru_push b (lru_remove b ?u) else ?u)"
    using holding_buf_locked [OF i b] by (simp add: brelse_def kbind_Ok Let_def upd_b_upd_b)
  show ?thesis
  proof (cases "b_refcnt (bcache ?u b) = 0")
    case False
    then show ?thesis using run ku fu by (simp add: runs_def)
  next
    case True
    obtain xs where xs: "lru ?u xs" using cinvD(1) [OF st(1)] by blast
    then have m: "b \<in> set xs" "distinct xs" "bhead \<notin> set xs" using bb by (auto simp: lru_def dll_def)
    let ?r = "lru_remove b ?u" let ?t = "lru_push b ?r"
    have "lru ?t (b # remove1 b xs)" by (rule lru_release [OF xs m(1)])
    moreover have rest: "disk ?t = disk ?u" "dtrace ?t = dtrace ?u" "myproc ?t = myproc ?u" "k_proc ?t = k_proc ?u"
      by (simp_all add: lru_push_def lru_remove_def Let_def)
    ultimately have l: "cinv (L - {bno}) P ?t" "cview ?t = cview ?u" "cached ?t = cached ?u"
      using cinv_links [OF st(1), of ?t] by simp_all
    have e: "?t = s\<lparr>bcache := bcache ?t, disk := disk s, dtrace := dtrace s\<rparr>"
      by (simp add: lru_push_def lru_remove_def upd_b_def Let_def)
    have "\<exists>c d w. ?t = s\<lparr>bcache := c, disk := d, dtrace := w\<rparr>" by (rule exI)+ (rule e)
    then have "cframe UNIV s ?t" unfolding cframe_def l(3) cu by blast
    then show ?thesis using run True l ku rest by (simp add: runs_def cache_def)
  qed
qed

text \<open>The invariant does not look at other parts of the state.\<close>

lemma cache_cong:
  assumes e: "bcache t = bcache s" "disk t = disk s" "dtrace t = dtrace s" "myproc t = myproc s" "k_proc t = k_proc s"
  shows "cache L P V D T t = cache L P V D T s" and "cached t = cached s"
proof -
  show c: "cached t = cached s" by (simp add: cached_def e fun_eq_iff)
  have "lru t = lru s" "cview t = cview s" by (simp_all add: lru_def cview_def e fun_eq_iff cong: option.case_cong)
  then show "cache L P V D T t = cache L P V D T s" by (simp add: cache_def cinv_def c e)
qed

end
