(* ===== verification/Codec.thy ===== *)
theory Codec
  imports Fs
begin

text \<open>
  Reading and writing fields of blocks: what \<open>get32\<close>, \<open>get16\<close> find after \<open>put_bytes\<close> and \<open>put32\<close>, and
  the round trips of the on-disk structures built from them.
\<close>

section \<open>Fields of a block\<close>

lemma length_put_bytes [simp]: "off + length bs \<le> length d \<Longrightarrow> length (put_bytes off bs d) = length d"
  by (simp add: put_bytes_def)

lemma field_put_same:
  "off + length bs \<le> length d \<Longrightarrow> take (length bs) (drop off (put_bytes off bs d)) = bs"
  by (simp add: put_bytes_def)

lemma field_put_before:
  "o' + n \<le> off \<Longrightarrow> off \<le> length d \<Longrightarrow> take n (drop o' (put_bytes off bs d)) = take n (drop o' d)"
  by (rule nth_equalityI) (auto simp: put_bytes_def nth_append)

lemma field_put_after:
  assumes "off + length bs \<le> o'" "off \<le> length d"
  shows "take n (drop o' (put_bytes off bs d)) = take n (drop o' d)"
proof -
  have "o' - off - length bs + (off + length bs) = o'" using assms by simp
  then show ?thesis using assms by (simp add: put_bytes_def min_def)
qed

lemma length_put32 [simp]: "off + 4 \<le> length d \<Longrightarrow> length (put32 off w d) = length d"
  by (simp add: put32_def)

lemma get32_put32_same [simp]: "off + 4 \<le> length d \<Longrightarrow> get32 (put32 off w d) off = w"
  using field_put_same [of off "bytes_of_word 4 w" d] by (simp add: get32_def put32_def)

lemma get32_put32_other:
  "o' + 4 \<le> off \<or> off + 4 \<le> o' \<Longrightarrow> off \<le> length d \<Longrightarrow> get32 (put32 off w d) o' = get32 d o'"
  using field_put_before [of o' 4 off d "bytes_of_word 4 w"] field_put_after [of off "bytes_of_word 4 w" o' d 4]
  by (auto simp: get32_def put32_def)

section \<open>The log header\<close>

lemma header_fold:
  "4 + 4 * n \<le> length d \<Longrightarrow> let h = fold (\<lambda>i d. put32 (4 + 4 * i) (blk i) d) [0..<n] d
     in length h = length d \<and> get32 h 0 = get32 d 0 \<and> (\<forall>i<n. get32 h (4 + 4 * i) = blk i)"
proof (induction n)
  case 0
  then show ?case by simp
next
  case (Suc n)
  let ?h = "fold (\<lambda>i d. put32 (4 + 4 * i) (blk i) d) [0..<n] d"
  have ih: "length ?h = length d" "get32 ?h 0 = get32 d 0" "\<forall>i<n. get32 ?h (4 + 4 * i) = blk i"
    using Suc by (simp_all add: Let_def)
  have "get32 (put32 (4 + 4 * n) (blk n) ?h) (4 + 4 * i) = blk i" if "i < Suc n" for i
    using that ih Suc.prems by (cases "i = n") (simp_all add: get32_put32_other)
  then show ?case using ih Suc.prems by (simp add: Let_def get32_put32_other)
qed

lemma header_fields:
  assumes "0 \<le> n" "n \<le> int LOGSIZE" "length d = BSIZE"
  shows "length (header_bytes n blk d) = BSIZE" "sint (get32 (header_bytes n blk d) 0) = n"
    "\<And>i. int i < n \<Longrightarrow> get32 (header_bytes n blk d) (4 + 4 * i) = blk i"
proof -
  have b: "4 + 4 * nat n \<le> length (put32 0 (of_int n) d)"
    using assms by (simp add: LOGSIZE_def MAXOPBLOCKS_def BSIZE_def)
  have z: "get32 (put32 0 (of_int n) d) 0 = of_int n" "length (put32 0 (of_int n) d) = BSIZE"
    using assms by (simp_all add: BSIZE_def)
  note h = header_fold [OF b, of blk, unfolded Let_def z, folded header_bytes_def]
  show "length (header_bytes n blk d) = BSIZE" using h by simp
  have "sint (of_int n :: u32) = n"
    using assms by (simp add: signed_of_int signed_take_bit_int_eq_self LOGSIZE_def MAXOPBLOCKS_def)
  then show "sint (get32 (header_bytes n blk d) 0) = n" using h by simp
  show "get32 (header_bytes n blk d) (4 + 4 * i) = blk i" if "int i < n" for i
    using h that by (simp add: zless_nat_eq_int_zless)
qed

end
