(* ===== verification/Crash.thy ===== *)
theory Crash
  imports Bcache Codec
begin

text \<open>
  The redo log over the buffer cache: what \<open>write_log\<close>, \<open>write_head\<close>, \<open>install_trans\<close>, \<open>commit\<close> and
  \<open>recover_from_log\<close> do to the cache view, to the disk and to the sequence of disk writes. A crash
  cuts that sequence anywhere; recovery then runs on the disk that the writes before the cut
  left behind.
\<close>

section \<open>Writes\<close>

definition apply_writes :: "(u32 \<Rightarrow> block) \<Rightarrow> (u32 \<times> block) list \<Rightarrow> u32 \<Rightarrow> block" where
  "apply_writes D ws = foldl (\<lambda>D (n, d). D(n := d)) D ws"

lemma apply_writes_simps [simp]:
  "apply_writes D [] = D" "apply_writes D (ws @ [(n, d)]) = (apply_writes D ws)(n := d)"
  "apply_writes D ((n, d) # ws) = apply_writes (D(n := d)) ws"
  by (simp_all add: apply_writes_def)

lemma apply_writes_append: "apply_writes D (ws @ vs) = apply_writes (apply_writes D ws) vs"
  by (simp add: apply_writes_def)

lemma apply_writes_other: "n \<notin> fst ` set ws \<Longrightarrow> apply_writes D ws n = D n"
  by (induction ws rule: rev_induct) auto

lemma apply_writes_map:
  "distinct (map f [0..<n]) \<Longrightarrow> i < n \<Longrightarrow> apply_writes D (map (\<lambda>i. (f i, g i)) [0..<n]) (f i) = g i"
proof (induction n)
  case 0
  then show ?case by simp
next
  case (Suc n)
  have "f i \<noteq> f n" if "i \<noteq> n"
  proof -
    have "f i \<in> f ` {0..<n}" using that Suc.prems(2) by simp
    then show ?thesis using Suc.prems(1) by auto
  qed
  then show ?case using Suc by (cases "i = n") (auto simp: less_Suc_eq)
qed

lemma apply_writes_map_take:
  "apply_writes D (map (\<lambda>i. (f i, g i)) [0..<Suc n]) = (apply_writes D (map (\<lambda>i. (f i, g i)) [0..<n]))(f n := g n)"
  by simp

section \<open>The log's variables\<close>

lemma cframe_log:
  "cframe B s t \<Longrightarrow> lg_start t = lg_start s \<and> lg_dev t = lg_dev s \<and> lh_n t = lh_n s \<and> lh_block t = lh_block s \<and>
     lg_outstanding t = lg_outstanding s \<and> lg_committing t = lg_committing s \<and> lg_size t = lg_size s"
  unfolding cframe_def by auto

text \<open>Block \<open>i\<close> of the log, and the blocks the log occupies.\<close>

definition log_block :: "'z lstate_scheme \<Rightarrow> nat \<Rightarrow> u32" where
  "log_block s i = lg_start s + of_nat i + 1"

definition log_area :: "u32 \<Rightarrow> u32 set" where
  "log_area st = (\<lambda>i. st + of_nat i) ` {..LOGSIZE}"

lemma log_area_mem: "i < LOGSIZE \<Longrightarrow> st + of_nat i + 1 \<in> log_area st" "st \<in> log_area st"
proof -
  assume "i < LOGSIZE"
  then show "st + of_nat i + 1 \<in> log_area st"
    unfolding log_area_def by (intro image_eqI [of _ _ "Suc i"]) (auto simp: ac_simps)
next
  show "st \<in> log_area st" unfolding log_area_def by (intro image_eqI [of _ _ 0]) auto
qed

lemma of_nat_inj32: "i < 2 ^ 32 \<Longrightarrow> j < 2 ^ 32 \<Longrightarrow> (of_nat i :: u32) = of_nat j \<longleftrightarrow> i = j"
  by (simp add: word_unat_eq_iff unsigned_of_nat take_bit_nat_eq_self)

lemma log_block_inj:
  "i < LOGSIZE \<Longrightarrow> j < LOGSIZE \<Longrightarrow> (st + of_nat i + 1 :: u32) = st + of_nat j + 1 \<longleftrightarrow> i = j"
  using of_nat_inj32 [of i j] by (simp add: LOGSIZE_def MAXOPBLOCKS_def)

lemma log_block_not_start: "i < LOGSIZE \<Longrightarrow> (st + of_nat i + 1 :: u32) \<noteq> st"
proof
  assume i: "i < LOGSIZE" "st + of_nat i + 1 = st"
  then have "(of_nat (Suc i) :: u32) = of_nat 0" by (simp add: ac_simps)
  then show False using of_nat_inj32 [of "Suc i" 0] i(1) by (simp add: LOGSIZE_def MAXOPBLOCKS_def)
qed

lemma cache_clean: "cache L P V D T s \<Longrightarrow> n \<notin> L \<Longrightarrow> P n = 0 \<Longrightarrow> V n = D n"
proof -
  assume k: "cache L P V D T s" "n \<notin> L" "P n = 0"
  then have i: "cinv L P s" and V: "cview s = V" "disk s = D" by (auto simp: cache_def)
  show ?thesis
  proof (cases "\<exists>b. cached s n b")
    case True
    then show ?thesis using cview_at [OF i] cinvD(10) [OF i] k V by metis
  next
    case False
    then show ?thesis using cview_uncached V by metis
  qed
qed

section \<open>One block\<close>

lemma bread_ok:
  assumes "cache L P V D T s" "bno \<notin> L" "0 < P bno \<or> finite (busy L P) \<and> card (busy L P) < NBUF"
  obtains b t where "bread ROOTDEV bno s = Ok (b, t)" "cache (insert bno L) P V D T t" "cached t bno b"
    "cframe (busy L P) s t"
  using bread_runs [OF assms] by (auto simp: runs_def)

lemma set_data_ok:
  assumes "cache L P V D T s" "cached s bno b" "bno \<in> L"
  obtains t where "set_data b f s = Ok ((), t)" "cache L P (V(bno := f (V bno))) D T t" "cframe UNIV s t"
  using set_data_runs [OF assms, of f] by (auto simp: runs_def)

lemma bwrite_ok:
  assumes "cache L P V D T s" "cached s bno b" "bno \<in> L"
  obtains t where "bwrite b s = Ok ((), t)" "cache L P V (D(bno := V bno)) (T @ [(bno, V bno)]) t" "cframe UNIV s t"
  using bwrite_runs [OF assms] by (auto simp: runs_def)

lemma brelse_ok:
  assumes "cache L P V D T s" "cached s bno b" "bno \<in> L" "P bno = 0 \<Longrightarrow> V bno = D bno"
  obtains t where "brelse b s = Ok ((), t)" "cache (L - {bno}) P V D T t" "cframe UNIV s t"
  using brelse_runs [OF assms] by (auto simp: runs_def)

lemma get_data_ok: "cache L P V D T s \<Longrightarrow> cached s bno b \<Longrightarrow> get_data b s = Ok (V bno, s)"
  using get_data_runs by (fastforce simp: runs_def)

lemma cframe_cached: "cframe B s t \<Longrightarrow> bno \<in> B \<Longrightarrow> cached s bno b \<Longrightarrow> cached t bno b"
  by (simp add: cframe_def)

lemma cframe_step: "cframe B s t \<Longrightarrow> cframe UNIV t u \<Longrightarrow> cframe B s u"
  using cframe_trans [of B s t UNIV u] by simp

text \<open>Copy a block through two buffers and write it, as \<open>write_log\<close> does.\<close>

lemma log_one_runs:
  assumes k: "cache {} P V D T s" and dev: "lg_dev s = ROOTDEV"
    and lb: "lb = lg_start s + of_nat i + 1" "P lb = 0" and db: "db = lh_block s i" "0 < P db"
    and f: "finite {n. 0 < P n}" "card {n. 0 < P n} < NBUF"
  shows "runs (log_one i) s (\<lambda>_ t. cache {} P (V(lb := V db)) (D(lb := V db)) (T @ [(lb, V db)]) t \<and>
    cframe {n. 0 < P n} s t)"
proof -
  have ne: "lb \<noteq> db" using lb(2) db(2) by auto
  obtain to t1 where 1: "bread ROOTDEV lb s = Ok (to, t1)" "cache {lb} P V D T t1" "cached t1 lb to"
      "cframe {n. 0 < P n} s t1"
    using bread_ok [OF k, of lb] f by auto
  obtain fr t2 where 2: "bread ROOTDEV db t1 = Ok (fr, t2)" "cache {db, lb} P V D T t2" "cached t2 db fr"
      "cframe (insert lb {n. 0 < P n}) t1 t2"
    using bread_ok [OF 1(2), of db] ne db by auto
  have c2: "cached t2 lb to" using cframe_cached [OF 2(4) _ 1(3)] by simp
  obtain t3 where 3: "set_data to (\<lambda>_. V db) t2 = Ok ((), t3)" "cache {db, lb} P (V(lb := V db)) D T t3" "cframe UNIV t2 t3"
    using set_data_ok [OF 2(2) c2, of "\<lambda>_. V db"] by auto
  have c3: "cached t3 lb to" "cached t3 db fr" using cframe_cached [OF 3(3)] c2 2(3) by auto
  obtain t4 where 4: "bwrite to t3 = Ok ((), t4)"
      "cache {db, lb} P (V(lb := V db)) (D(lb := V db)) (T @ [(lb, V db)]) t4" "cframe UNIV t3 t4"
    using bwrite_ok [OF 3(2) c3(1)] by auto
  have c4: "cached t4 lb to" "cached t4 db fr" using cframe_cached [OF 4(3)] c3 by auto
  obtain t5 where 5: "brelse fr t4 = Ok ((), t5)"
      "cache ({db, lb} - {db}) P (V(lb := V db)) (D(lb := V db)) (T @ [(lb, V db)]) t5" "cframe UNIV t4 t5"
    using brelse_ok [OF 4(2) c4(2)] db by auto
  have c5: "cached t5 lb to" using cframe_cached [OF 5(3)] c4 by auto
  obtain t6 where 6: "brelse to t5 = Ok ((), t6)"
      "cache ({db, lb} - {db} - {lb}) P (V(lb := V db)) (D(lb := V db)) (T @ [(lb, V db)]) t6" "cframe UNIV t5 t6"
    using brelse_ok [OF 5(2) c5] ne by auto
  have "log_one i s = Ok ((), t6)"
    using 1(1) 2(1) 3(1) 4(1) 5(1) 6(1) get_data_ok [OF 2(2,3)] dev lb db
    by (simp add: log_one_def kbind_Ok kseq_Ok)
  moreover have "cframe {n. 0 < P n} s t2" using cframe_trans [OF 1(4) 2(4)] by (rule cframe_mono) auto
  then have "cframe {n. 0 < P n} s t6"
    using cframe_step [OF cframe_step [OF cframe_step [OF cframe_step [OF _ 3(3)] 4(3)] 5(3)] 6(3)] by blast
  moreover have e: "{db, lb} - {db} - {lb} = {}" by auto
  note 6(2) [unfolded e]
  ultimately show ?thesis by (simp add: runs_def)
qed

text \<open>The copy of \<open>install_trans\<close>; \<open>pins\<close> is what is left of the pins afterwards.\<close>

lemma install_one_runs:
  assumes k: "cache {} P V D T s" and dev: "lg_dev s = ROOTDEV"
    and lb: "lb = lg_start s + of_nat i + 1" "P lb = 0" and db: "db = lh_block s i" "db \<noteq> lb"
    and f: "finite {n. 0 < P n}" "card {n. 0 < P n} < NBUF"
    and r: "if recovering then P = (\<lambda>_. 0) else 0 < P db"
    and Q: "Q = (if recovering then P else P(db := P db - 1))"
  shows "runs (install_one recovering i) s (\<lambda>_ t. cache {} Q (V(db := V lb)) (D(db := V lb)) (T @ [(db, V lb)]) t \<and>
    cframe {n. 0 < P n} s t)"
proof -
  obtain lf t1 where 1: "bread ROOTDEV lb s = Ok (lf, t1)" "cache {lb} P V D T t1" "cached t1 lb lf"
      "cframe {n. 0 < P n} s t1"
    using bread_ok [OF k, of lb] f by auto
  have room: "0 < P db \<or> finite (busy {lb} P) \<and> card (busy {lb} P) < NBUF"
    using r by (cases recovering) (auto simp: NBUF_def MAXOPBLOCKS_def)
  obtain df t2 where 2: "bread ROOTDEV db t1 = Ok (df, t2)" "cache {db, lb} P V D T t2" "cached t2 db df"
      "cframe (insert lb {n. 0 < P n}) t1 t2"
    using bread_ok [OF 1(2) _ room] db by auto
  have c2: "cached t2 lb lf" using cframe_cached [OF 2(4) _ 1(3)] by simp
  let ?V = "V(db := V lb)" and ?D = "D(db := V lb)" and ?T = "T @ [(db, V lb)]"
  obtain t3 where 3: "set_data df (\<lambda>_. V lb) t2 = Ok ((), t3)" "cache {db, lb} P ?V D T t3" "cframe UNIV t2 t3"
    using set_data_ok [OF 2(2,3), of "\<lambda>_. V lb"] by auto
  have c3: "cached t3 lb lf" "cached t3 db df" using cframe_cached [OF 3(3)] c2 2(3) by auto
  obtain t4 where 4: "bwrite df t3 = Ok ((), t4)" "cache {db, lb} P ?V ?D ?T t4" "cframe UNIV t3 t4"
    using bwrite_ok [OF 3(2) c3(2)] by auto
  have c4: "cached t4 lb lf" "cached t4 db df" using cframe_cached [OF 4(3)] c3 by auto
  obtain t5 where 5: "(if \<not> recovering then bunpin df else kret ()) t4 = Ok ((), t5)"
      "cache {db, lb} Q ?V ?D ?T t5" "cframe UNIV t4 t5"
    using bunpin_runs [OF 4(2) c4(2)] 4(2) r Q by (cases recovering) (auto simp: runs_def)
  have c5: "cached t5 lb lf" "cached t5 db df" using cframe_cached [OF 5(3)] c4 by auto
  have clean: "?V lb = ?D lb" using cache_clean [OF k, of lb] lb(2) db(2) by simp
  obtain t6 where 6: "brelse lf t5 = Ok ((), t6)" "cache ({db, lb} - {lb}) Q ?V ?D ?T t6" "cframe UNIV t5 t6"
    using brelse_ok [OF 5(2) c5(1)] clean by auto
  have c6: "cached t6 db df" using cframe_cached [OF 6(3)] c5 by auto
  obtain t7 where 7: "brelse df t6 = Ok ((), t7)" "cache ({db, lb} - {lb} - {db}) Q ?V ?D ?T t7" "cframe UNIV t6 t7"
    using brelse_ok [OF 6(2) c6] db by auto
  have "install_one recovering i s = Ok ((), t7)"
    using 1(1) 2(1) 3(1) 4(1) 5(1) 6(1) 7(1) get_data_ok [OF 2(2) c2] dev lb db
    by (simp add: install_one_def kbind_Ok kseq_Ok split del: if_split)
  moreover have "cframe {n. 0 < P n} s t2" using cframe_trans [OF 1(4) 2(4)] by (rule cframe_mono) auto
  then have "cframe {n. 0 < P n} s t7"
    using cframe_step [OF cframe_step [OF cframe_step [OF cframe_step [OF cframe_step [OF _ 3(3)] 4(3)] 5(3)] 6(3)] 7(3)]
    by blast
  moreover have e: "{db, lb} - {lb} - {db} = {}" by auto
  note 7(2) [unfolded e]
  ultimately show ?thesis by (simp add: runs_def)
qed

lemma write_head_runs:
  assumes k: "cache {} P V D T s" and dev: "lg_dev s = ROOTDEV" and st: "st = lg_start s" "P st = 0"
    and f: "finite {n. 0 < P n}" "card {n. 0 < P n} < NBUF" and h: "h = header_bytes (lh_n s) (lh_block s) (V st)"
  shows "runs write_head s (\<lambda>_ t. cache {} P (V(st := h)) (D(st := h)) (T @ [(st, h)]) t \<and> cframe {n. 0 < P n} s t)"
proof -
  obtain b t1 where 1: "bread ROOTDEV st s = Ok (b, t1)" "cache {st} P V D T t1" "cached t1 st b"
      "cframe {n. 0 < P n} s t1"
    using bread_ok [OF k, of st] f by auto
  note lg = cframe_log [OF 1(4)]
  obtain t2 where 2: "set_data b (header_bytes (lh_n s) (lh_block s)) t1 = Ok ((), t2)"
      "cache {st} P (V(st := h)) D T t2" "cframe UNIV t1 t2"
    using set_data_ok [OF 1(2,3), of "header_bytes (lh_n s) (lh_block s)"] h by auto
  have c2: "cached t2 st b" using cframe_cached [OF 2(3)] 1(3) by auto
  obtain t3 where 3: "bwrite b t2 = Ok ((), t3)" "cache {st} P (V(st := h)) (D(st := h)) (T @ [(st, h)]) t3"
      "cframe UNIV t2 t3"
    using bwrite_ok [OF 2(2) c2] by auto
  have c3: "cached t3 st b" using cframe_cached [OF 3(3)] c2 by auto
  obtain t4 where 4: "brelse b t3 = Ok ((), t4)" "cache ({st} - {st}) P (V(st := h)) (D(st := h)) (T @ [(st, h)]) t4"
      "cframe UNIV t3 t4"
    using brelse_ok [OF 3(2) c3] by auto
  have "write_head s = Ok ((), t4)"
    using 1(1) 2(1) 3(1) 4(1) dev st lg by (simp add: write_head_def kbind_Ok kseq_Ok)
  then show ?thesis
    using 4(2) cframe_step [OF cframe_step [OF cframe_step [OF 1(4) 2(3)] 3(3)] 4(3)] by (simp add: runs_def)
qed

section \<open>The loops\<close>

text \<open>
  A transaction ready to commit: distinct home blocks outside the log area, each pinned once, fewer
  than \<open>LOGSIZE\<close>.
\<close>

definition home_blocks :: "'z lstate_scheme \<Rightarrow> u32 set" where
  "home_blocks s = lh_block s ` {..<nat (lh_n s)}"

definition log_ready :: "(u32 \<Rightarrow> nat) \<Rightarrow> 'z lstate_scheme \<Rightarrow> bool" where
  "log_ready P s \<longleftrightarrow> lg_dev s = ROOTDEV \<and> 0 \<le> lh_n s \<and> lh_n s < int LOGSIZE \<and>
     distinct (map (lh_block s) [0..<nat (lh_n s)]) \<and> home_blocks s \<inter> log_area (lg_start s) = {} \<and>
     P = (\<lambda>n. if n \<in> home_blocks s then 1 else 0)"

definition log_writes :: "'z lstate_scheme \<Rightarrow> (u32 \<Rightarrow> block) \<Rightarrow> nat \<Rightarrow> (u32 \<times> block) list" where
  "log_writes s V n = map (\<lambda>i. (log_block s i, V (lh_block s i))) [0..<n]"

definition home_writes :: "'z lstate_scheme \<Rightarrow> (u32 \<Rightarrow> block) \<Rightarrow> nat \<Rightarrow> (u32 \<times> block) list" where
  "home_writes s V n = map (\<lambda>i. (lh_block s i, V (lh_block s i))) [0..<n]"

lemma log_writes_Suc: "log_writes s V (Suc i) = log_writes s V i @ [(log_block s i, V (lh_block s i))]"
  by (simp add: log_writes_def)

lemma home_writes_Suc: "home_writes s V (Suc i) = home_writes s V i @ [(lh_block s i, V (lh_block s i))]"
  by (simp add: home_writes_def)

lemma log_writes_blocks: "n \<le> LOGSIZE \<Longrightarrow> fst ` set (log_writes s V n) \<subseteq> log_area (lg_start s) - {lg_start s}"
  using log_area_mem(1) [of _ "lg_start s"] log_block_not_start [of _ "lg_start s"]
  by (auto simp: log_writes_def log_block_def)

lemma home_writes_blocks: "n \<le> nat (lh_n s) \<Longrightarrow> fst ` set (home_writes s V n) \<subseteq> home_blocks s"
  by (auto simp: home_writes_def home_blocks_def)

lemma log_readyD:
  assumes "log_ready P s"
  shows "lg_dev s = ROOTDEV" "nat (lh_n s) < LOGSIZE" "{n. 0 < P n} = home_blocks s"
    "finite {n. 0 < P n}" "card {n. 0 < P n} < NBUF"
    "\<And>n. n \<in> log_area (lg_start s) \<Longrightarrow> P n = 0" "\<And>i. i < nat (lh_n s) \<Longrightarrow> P (lh_block s i) = 1"
    "\<And>i. i < nat (lh_n s) \<Longrightarrow> lh_block s i \<notin> log_area (lg_start s)"
proof -
  note r = assms [unfolded log_ready_def]
  show "lg_dev s = ROOTDEV" and n: "nat (lh_n s) < LOGSIZE" using r by auto
  show e: "{n. 0 < P n} = home_blocks s" using r by auto
  show "finite {n. 0 < P n}" unfolding e home_blocks_def by simp
  have "card (home_blocks s) \<le> card {..<nat (lh_n s)}" unfolding home_blocks_def by (rule card_image_le) simp
  then show "card {n. 0 < P n} < NBUF" using n unfolding e by (simp add: LOGSIZE_def NBUF_def)
  show "\<And>n. n \<in> log_area (lg_start s) \<Longrightarrow> P n = 0" using r by auto
  show "\<And>i. i < nat (lh_n s) \<Longrightarrow> P (lh_block s i) = 1" using r by (auto simp: home_blocks_def)
  show "\<And>i. i < nat (lh_n s) \<Longrightarrow> lh_block s i \<notin> log_area (lg_start s)" using r by (auto simp: home_blocks_def)
qed

lemma write_log_runs:
  assumes k: "cache {} P V D T s" and r: "log_ready P s" and n: "n = nat (lh_n s)"
  shows "runs write_log s (\<lambda>_ t. cache {} P (apply_writes V (log_writes s V n)) (apply_writes D (log_writes s V n))
      (T @ log_writes s V n) t \<and> cframe {n. 0 < P n} s t)"
proof -
  note R = log_readyD [OF r]
  let ?I = "\<lambda>i t. cache {} P (apply_writes V (log_writes s V i)) (apply_writes D (log_writes s V i))
      (T @ log_writes s V i) t \<and> cframe {n. 0 < P n} s t"
  have "runs (kfor [0..<n] log_one) s (\<lambda>_. ?I n)"
  proof (rule runs_kfor)
    show "?I 0 s" using k by (simp add: log_writes_def)
    fix i t
    assume i: "i < n" and I: "?I i t"
    let ?lb = "log_block s i" and ?db = "lh_block s i"
    have lg: "lg_dev t = ROOTDEV" "lg_start t = lg_start s" "lh_block t = lh_block s"
      using cframe_log [of _ s t] I R(1) by auto
    have la: "?lb \<in> log_area (lg_start s)" using log_area_mem(1) [of i] i n R(2) by (simp add: log_block_def)
    have "?db \<notin> fst ` set (log_writes s V i)"
      using log_writes_blocks [of i s V] R(8) [of i] i n R(2) by auto
    then have v: "apply_writes V (log_writes s V i) ?db = V ?db" by (rule apply_writes_other)
    have "runs (log_one i) t (\<lambda>_ u. cache {} P ((apply_writes V (log_writes s V i))(?lb := V ?db))
        ((apply_writes D (log_writes s V i))(?lb := V ?db)) ((T @ log_writes s V i) @ [(?lb, V ?db)]) u \<and>
        cframe {n. 0 < P n} t u)"
      by (rule log_one_runs [OF I [THEN conjunct1] lg(1), of ?lb i ?db, unfolded v])
        (use lg la R(4-7) i n in \<open>simp_all add: log_block_def\<close>)
    then show "runs (log_one i) t (\<lambda>_. ?I (Suc i))"
      by (rule runs_mono) (use I cframe_trans [of _ s t] in \<open>fastforce simp: log_writes_Suc\<close>)
  qed simp
  then show ?thesis by (simp add: write_log_def runs_kbind n)
qed

text \<open>The pins that are left when the first \<open>i\<close> blocks have been installed.\<close>

definition pins_after :: "'z lstate_scheme \<Rightarrow> (u32 \<Rightarrow> nat) \<Rightarrow> nat \<Rightarrow> u32 \<Rightarrow> nat" where
  "pins_after s P i = (\<lambda>n. if n \<in> lh_block s ` {..<i} then 0 else P n)"

lemma install_commit_runs:
  assumes k: "cache {} P V D T s" and r: "log_ready P s" and n: "n = nat (lh_n s)"
    and W: "\<And>i. i < n \<Longrightarrow> V (log_block s i) = W (lh_block s i)"
  shows "runs (install_trans False) s (\<lambda>_ t. cache {} (\<lambda>_. 0) (apply_writes V (home_writes s W n))
      (apply_writes D (home_writes s W n)) (T @ home_writes s W n) t \<and> cframe {} s t)"
proof -
  note R = log_readyD [OF r]
  let ?I = "\<lambda>i t. cache {} (pins_after s P i) (apply_writes V (home_writes s W i)) (apply_writes D (home_writes s W i))
      (T @ home_writes s W i) t \<and> cframe {} s t"
  have dist: "lh_block s i \<noteq> lh_block s j" if "i < n" "j < n" "i \<noteq> j" for i j
    using r that n by (auto simp: log_ready_def distinct_conv_nth)
  have "runs (kfor [0..<n] (install_one False)) s (\<lambda>_. ?I n)"
  proof (rule runs_kfor)
    show "?I 0 s" using k by (simp add: home_writes_def pins_after_def)
    fix i t
    assume i: "i < n" and I: "?I i t"
    let ?lb = "log_block s i" and ?db = "lh_block s i" and ?P = "pins_after s P i"
    have lg: "lg_dev t = ROOTDEV" "lg_start t = lg_start s" "lh_block t = lh_block s"
      using cframe_log [of _ s t] I R(1) by auto
    have la: "?lb \<in> log_area (lg_start s)" using log_area_mem(1) [of i] i n R(2) by (simp add: log_block_def)
    have ne: "?db \<noteq> ?lb" using la R(8) [of i] i n by auto
    have "?lb \<notin> fst ` set (home_writes s W i)"
      using la home_writes_blocks [of i s W] i n r by (auto simp: log_ready_def)
    then have v: "apply_writes V (home_writes s W i) ?lb = W ?db" using W [OF i] by (simp add: apply_writes_other)
    have new: "?db \<notin> lh_block s ` {..<i}"
    proof
      assume "?db \<in> lh_block s ` {..<i}"
      then obtain j where "j < i" "lh_block s j = ?db" by auto
      then show False using dist [of j i] i by simp
    qed
    have p: "0 < ?P ?db" "?P ?lb = 0" "?P(?db := ?P ?db - 1) = pins_after s P (Suc i)"
      using new i n R(6) [OF la] R(7) [of i] by (auto simp: pins_after_def fun_eq_iff lessThan_Suc)
    have sub: "{n. 0 < ?P n} \<subseteq> {n. 0 < P n}" by (auto simp: pins_after_def)
    then have f: "finite {n. 0 < ?P n}" "card {n. 0 < ?P n} < NBUF"
      using R(4,5) card_mono [OF R(4) sub] by (auto dest: finite_subset)
    have "runs (install_one False i) t (\<lambda>_ u. cache {} (pins_after s P (Suc i))
        ((apply_writes V (home_writes s W i))(?db := W ?db))
        ((apply_writes D (home_writes s W i))(?db := W ?db)) ((T @ home_writes s W i) @ [(?db, W ?db)]) u \<and>
        cframe {n. 0 < ?P n} t u)"
      by (rule install_one_runs [OF I [THEN conjunct1] lg(1), of ?lb i ?db False, unfolded v])
        (use lg p ne f in \<open>simp_all add: log_block_def\<close>)
    then show "runs (install_one False i) t (\<lambda>_. ?I (Suc i))"
      by (rule runs_mono) (use I cframe_trans [of _ s t] in \<open>fastforce simp: home_writes_Suc\<close>)
  qed simp
  moreover have "pins_after s P n = (\<lambda>_. 0)"
    using r n by (auto simp: pins_after_def log_ready_def home_blocks_def fun_eq_iff)
  ultimately show ?thesis by (simp add: install_trans_def runs_kbind n)
qed

text \<open>Recovery installs from a cache without pins; the blocks need not be distinct.\<close>

lemma install_recovering_runs:
  assumes k: "cache {} (\<lambda>_. 0) V D T s" and dev: "lg_dev s = ROOTDEV" and n: "n = nat (lh_n s)" "n \<le> LOGSIZE"
    and out: "\<And>i. i < n \<Longrightarrow> lh_block s i \<notin> log_area (lg_start s)"
    and W: "\<And>i. i < n \<Longrightarrow> V (log_block s i) = W i"
  shows "runs (install_trans True) s (\<lambda>_ t.
      cache {} (\<lambda>_. 0) (apply_writes V (map (\<lambda>i. (lh_block s i, W i)) [0..<n]))
        (apply_writes D (map (\<lambda>i. (lh_block s i, W i)) [0..<n])) (T @ map (\<lambda>i. (lh_block s i, W i)) [0..<n]) t \<and>
      cframe {} s t)"
proof -
  let ?w = "\<lambda>i. map (\<lambda>i. (lh_block s i, W i)) [0..<i]"
  let ?I = "\<lambda>i t. cache {} (\<lambda>_. 0) (apply_writes V (?w i)) (apply_writes D (?w i)) (T @ ?w i) t \<and> cframe {} s t"
  have "runs (kfor [0..<n] (install_one True)) s (\<lambda>_. ?I n)"
  proof (rule runs_kfor)
    show "?I 0 s" using k by simp
    fix i t
    assume i: "i < n" and I: "?I i t"
    let ?lb = "log_block s i" and ?db = "lh_block s i"
    have lg: "lg_dev t = ROOTDEV" "lg_start t = lg_start s" "lh_block t = lh_block s"
      using cframe_log [of _ s t] I dev by auto
    have la: "?lb \<in> log_area (lg_start s)" using log_area_mem(1) [of i] i n by (simp add: log_block_def)
    have "?lb \<notin> fst ` set (?w i)" using la out i by force
    then have v: "apply_writes V (?w i) ?lb = W i" using W [OF i] by (simp add: apply_writes_other)
    have "runs (install_one True i) t (\<lambda>_ u. cache {} (\<lambda>_. 0) ((apply_writes V (?w i))(?db := W i))
        ((apply_writes D (?w i))(?db := W i)) ((T @ ?w i) @ [(?db, W i)]) u \<and> cframe {n. 0 < (0::nat)} t u)"
      by (rule install_one_runs [OF I [THEN conjunct1] lg(1), of ?lb i ?db True, unfolded v])
        (use lg la out [OF i] in \<open>auto simp: log_block_def NBUF_def MAXOPBLOCKS_def\<close>)
    then show "runs (install_one True i) t (\<lambda>_. ?I (Suc i))"
      by (rule runs_mono) (use I cframe_trans [of _ s t] in fastforce)
  qed simp
  then show ?thesis by (simp add: install_trans_def runs_kbind n)
qed

section \<open>Recovery\<close>

text \<open>The number of blocks and the home block numbers in the header on a disk.\<close>

definition disk_n :: "u32 \<Rightarrow> (u32 \<Rightarrow> block) \<Rightarrow> int" where
  "disk_n st D = sint (get32 (D st) 0)"

definition disk_home :: "u32 \<Rightarrow> (u32 \<Rightarrow> block) \<Rightarrow> nat \<Rightarrow> u32" where
  "disk_home st D i = get32 (D st) (4 + 4 * i)"

lemma read_head_runs:
  assumes k: "cache {} (\<lambda>_. 0) V D T s" and dev: "lg_dev s = ROOTDEV" and st: "lg_start s = st"
  shows "runs read_head s (\<lambda>_ t. cache {} (\<lambda>_. 0) V D T t \<and> lg_dev t = ROOTDEV \<and> lg_start t = st \<and>
    lh_n t = disk_n st D \<and> (\<forall>i. int i < disk_n st D \<longrightarrow> lh_block t i = disk_home st D i))"
proof -
  obtain b t1 where 1: "bread ROOTDEV st s = Ok (b, t1)" "cache {st} (\<lambda>_. 0) V D T t1" "cached t1 st b"
      "cframe {n. 0 < (0::nat)} s t1"
    using bread_ok [OF k, of st] by (auto simp: NBUF_def MAXOPBLOCKS_def)
  have vd: "V st = D st" using cache_clean [OF k, of st] by simp
  let ?t2 = "t1\<lparr>lh_n := sint (get32 (V st) 0),
    lh_block := (\<lambda>i. if int i < sint (get32 (V st) 0) then get32 (V st) (4 + 4 * i) else lh_block t1 i)\<rparr>"
  have k2: "cache {st} (\<lambda>_. 0) V D T ?t2" using 1(2) by (subst cache_cong) (simp_all add: myproc_def mycpu_def)
  have c2: "cached ?t2 st b" using 1(3) by (subst cache_cong) (simp_all add: myproc_def mycpu_def)
  obtain t3 where 3: "brelse b ?t2 = Ok ((), t3)" "cache ({st} - {st}) (\<lambda>_. 0) V D T t3" "cframe UNIV ?t2 t3"
    using brelse_ok [OF k2 c2] vd by auto
  have "read_head s = Ok ((), t3)"
    using 1(1) 3(1) dev st get_data_ok [OF 1(2,3)] by (simp add: read_head_def kbind_Ok kseq_Ok)
  then show ?thesis
    using 3(2) cframe_log [OF 3(3)] cframe_log [OF 1(4)] dev st vd
    by (simp add: runs_def disk_n_def disk_home_def)
qed

lemma recover_runs:
  assumes k: "cache {} (\<lambda>_. 0) V D T s" and dev: "lg_dev s = ROOTDEV" and st: "lg_start s = st"
    and n: "disk_n st D \<le> int LOGSIZE" and out: "\<And>i. int i < disk_n st D \<Longrightarrow> disk_home st D i \<notin> log_area st"
  shows "\<exists>u. recover_from_log s = Ok ((), u) \<and> (\<forall>b. b \<notin> log_area st \<longrightarrow>
    disk u b = apply_writes D (map (\<lambda>i. (disk_home st D i, D (st + of_nat i + 1))) [0..<nat (disk_n st D)]) b)"
proof -
  obtain t1 where 1: "read_head s = Ok ((), t1)" "cache {} (\<lambda>_. 0) V D T t1" "lg_dev t1 = ROOTDEV" "lg_start t1 = st"
      "lh_n t1 = disk_n st D" "\<forall>i. int i < disk_n st D \<longrightarrow> lh_block t1 i = disk_home st D i"
    using read_head_runs [OF k dev st] by (auto simp: runs_def)
  have VD: "V = D" using cache_clean [OF k] by auto
  let ?n = "nat (disk_n st D)" let ?W = "\<lambda>i. D (st + of_nat i + 1)"
  let ?w = "map (\<lambda>i. (lh_block t1 i, ?W i)) [0..<?n]"
  have "runs (install_trans True) t1 (\<lambda>_ t. cache {} (\<lambda>_. 0) (apply_writes V ?w) (apply_writes D ?w) (T @ ?w) t \<and> cframe {} t1 t)"
    by (rule install_recovering_runs [OF 1(2,3)]) (use 1 n out VD in \<open>auto simp: log_block_def\<close>)
  then obtain t2 where 2: "install_trans True t1 = Ok ((), t2)"
      "cache {} (\<lambda>_. 0) (apply_writes V ?w) (apply_writes D ?w) (T @ ?w) t2" "cframe {} t1 t2"
    by (auto simp: runs_def)
  let ?t3 = "t2\<lparr>lh_n := 0\<rparr>"
  have k3: "cache {} (\<lambda>_. 0) (apply_writes V ?w) (apply_writes D ?w) (T @ ?w) ?t3"
    using 2(2) by (subst cache_cong) (simp_all add: myproc_def mycpu_def)
  have dev3: "lg_dev ?t3 = ROOTDEV" "st = lg_start ?t3" using 1 cframe_log [OF 2(3)] by simp_all
  obtain t4 where 4: "write_head ?t3 = Ok ((), t4)" "\<exists>h. disk t4 = (apply_writes D ?w)(st := h)"
    using write_head_runs [OF k3 dev3 _ _ _ refl] by (auto simp: runs_def cache_def NBUF_def MAXOPBLOCKS_def)
  have w: "?w = map (\<lambda>i. (disk_home st D i, ?W i)) [0..<?n]" by (rule map_cong [OF refl]) (use 1(6) in auto)
  have "disk t4 b = apply_writes D ?w b" if "b \<notin> log_area st" for b
    using 4(2) that log_area_mem(2) [of st] by auto
  then have "disk t4 b = apply_writes D (map (\<lambda>i. (disk_home st D i, ?W i)) [0..<?n]) b" if "b \<notin> log_area st" for b
    using that by (simp only: w)
  moreover have "recover_from_log s = Ok ((), t4)"
    using 1(1) 2(1) 4(1) by (simp add: recover_from_log_def kseq_Ok)
  ultimately show ?thesis by blast
qed

section \<open>Commit\<close>

definition commit_writes :: "'z lstate_scheme \<Rightarrow> (u32 \<Rightarrow> block) \<Rightarrow> (u32 \<times> block) list" where
  "commit_writes s V =
     (let n = nat (lh_n s); h = header_bytes (lh_n s) (lh_block s) (V (lg_start s))
      in log_writes s V n @ [(lg_start s, h)] @ home_writes s V n @ [(lg_start s, header_bytes 0 (lh_block s) h)])"

lemma log_writes_value:
  assumes "i < n" "n \<le> LOGSIZE"
  shows "apply_writes D (log_writes s V n) (log_block s i) = V (lh_block s i)"
proof -
  have "distinct (map (log_block s) [0..<n])"
    using log_block_inj [of _ _ "lg_start s"] assms by (auto simp: distinct_map inj_on_def log_block_def)
  then show ?thesis using apply_writes_map [of "log_block s" n i] assms by (simp add: log_writes_def)
qed

lemma commit_runs:
  assumes k: "cache {} P V D T s" and r: "log_ready P s" and pos: "0 < lh_n s"
  shows "\<exists>u. commit s = Ok ((), u) \<and> disk u = apply_writes D (commit_writes s V) \<and>
    dtrace u = T @ commit_writes s V \<and> lh_n u = 0 \<and> cinv {} (\<lambda>_. 0) u"
proof -
  note R = log_readyD [OF r]
  let ?n = "nat (lh_n s)" let ?st = "lg_start s" let ?h = "header_bytes (lh_n s) (lh_block s) (V ?st)"
  let ?L = "log_writes s V ?n" let ?H = "home_writes s V ?n"
  have st0: "P ?st = 0" using R(6) log_area_mem(2) by blast
  have stL: "?st \<notin> fst ` set ?L" using log_writes_blocks [of ?n s V] R(2) by auto
  have stH: "?st \<notin> fst ` set ?H"
    using home_writes_blocks [of ?n s V] r log_area_mem(2) [of ?st] by (auto simp: log_ready_def)
  obtain t1 where 1: "write_log s = Ok ((), t1)" "cache {} P (apply_writes V ?L) (apply_writes D ?L) (T @ ?L) t1"
      "cframe {n. 0 < P n} s t1"
    using write_log_runs [OF k r refl] by (auto simp: runs_def)
  note l1 = cframe_log [OF 1(3)]
  have v1: "apply_writes V ?L ?st = V ?st" by (rule apply_writes_other [OF stL])
  obtain t2 where 2: "write_head t1 = Ok ((), t2)"
      "cache {} P ((apply_writes V ?L)(?st := ?h)) ((apply_writes D ?L)(?st := ?h)) ((T @ ?L) @ [(?st, ?h)]) t2"
      "cframe {n. 0 < P n} t1 t2"
    using write_head_runs [OF 1(2) _ _ st0 R(4,5), of ?h] l1 R(1) v1 by (auto simp: runs_def)
  note l2 = cframe_log [OF 2(3)]
  have r2: "log_ready P t2" using r l1 l2 by (simp add: log_ready_def home_blocks_def)
  have W: "((apply_writes V ?L)(?st := ?h)) (log_block t2 i) = V (lh_block t2 i)" if "i < ?n" for i
    using log_writes_value [OF that, of V s V] that R(2) l1 l2 log_block_not_start [of i ?st]
    by (simp add: log_block_def)
  have h2: "home_writes t2 V ?n = ?H" using l1 l2 by (simp add: home_writes_def)
  obtain t3 where 3: "install_trans False t2 = Ok ((), t3)"
      "cache {} (\<lambda>_. 0) (apply_writes ((apply_writes V ?L)(?st := ?h)) ?H)
        (apply_writes ((apply_writes D ?L)(?st := ?h)) ?H) (((T @ ?L) @ [(?st, ?h)]) @ ?H) t3"
      "cframe {} t2 t3"
    using install_commit_runs [OF 2(2) r2, of ?n V] W l1 l2 by (auto simp: runs_def h2)
  note l3 = cframe_log [OF 3(3)]
  let ?t4 = "t3\<lparr>lh_n := 0\<rparr>"
  have k4: "cache {} (\<lambda>_. 0) (apply_writes ((apply_writes V ?L)(?st := ?h)) ?H)
        (apply_writes ((apply_writes D ?L)(?st := ?h)) ?H) (((T @ ?L) @ [(?st, ?h)]) @ ?H) ?t4"
    using 3(2) by (subst cache_cong) (simp_all add: myproc_def mycpu_def)
  have v4: "apply_writes ((apply_writes V ?L)(?st := ?h)) ?H ?st = ?h" by (simp add: apply_writes_other [OF stH])
  let ?hz = "header_bytes 0 (lh_block s) ?h"
  obtain t5 where 5: "write_head ?t4 = Ok ((), t5)"
      "cache {} (\<lambda>_. 0) ((apply_writes ((apply_writes V ?L)(?st := ?h)) ?H)(?st := ?hz))
        ((apply_writes ((apply_writes D ?L)(?st := ?h)) ?H)(?st := ?hz))
        ((((T @ ?L) @ [(?st, ?h)]) @ ?H) @ [(?st, ?hz)]) t5" "cframe {n. 0 < (0::nat)} ?t4 t5"
    using write_head_runs [OF k4, of ?st ?hz] l1 l2 l3 R(1) v4 by (auto simp: runs_def NBUF_def MAXOPBLOCKS_def)
  have "commit s = Ok ((), t5)"
    using pos 1(1) 2(1) 3(1) 5(1) by (simp add: commit_def kseq_Ok)
  moreover have "disk t5 = apply_writes D (commit_writes s V)" "dtrace t5 = T @ commit_writes s V"
    using 5(2) by (simp_all add: cache_def commit_writes_def Let_def apply_writes_append)
  moreover have "lh_n t5 = 0" using cframe_log [OF 5(3)] by simp
  ultimately show ?thesis using 5(2) by (auto simp: cache_def)
qed

section \<open>Crashes\<close>

text \<open>A machine that has booted on disk \<open>D\<close>: nothing in the cache is locked, pinned or modified.\<close>

definition booted_on :: "u32 \<Rightarrow> (u32 \<Rightarrow> block) \<Rightarrow> 'z lstate_scheme \<Rightarrow> bool" where
  "booted_on st D t \<longleftrightarrow> cinv {} (\<lambda>_. 0) t \<and> disk t = D \<and> lg_dev t = ROOTDEV \<and> lg_start t = st"

lemma booted_cache: "booted_on st D t \<Longrightarrow> cache {} (\<lambda>_. 0) (cview t) D (dtrace t) t"
  by (simp add: booted_on_def cache_def)

text \<open>Before the header is written nothing has happened to the home blocks.\<close>

lemma recover_empty:
  assumes b: "booted_on st D t" and n: "disk_n st D = 0"
  shows "\<exists>r. recover_from_log t = Ok ((), r) \<and> (\<forall>b. b \<notin> log_area st \<longrightarrow> disk r b = D b)"
  using recover_runs [OF booted_cache [OF b], of st] b n by (simp add: booted_on_def)

text \<open>Once it is written, recovery finishes the installation.\<close>

lemma recover_committed:
  assumes b: "booted_on st D t" and n: "disk_n st D = lh_n s" "0 \<le> lh_n s" "lh_n s \<le> int LOGSIZE"
    and h: "\<And>i. int i < lh_n s \<Longrightarrow> disk_home st D i = lh_block s i \<and> lh_block s i \<notin> log_area st \<and> D (st + of_nat i + 1) = V (lh_block s i)"
    and d: "distinct (map (lh_block s) [0..<nat (lh_n s)])"
    and rest: "\<And>b. b \<notin> log_area st \<Longrightarrow> b \<notin> home_blocks s \<Longrightarrow> D b = V b"
  shows "\<exists>r. recover_from_log t = Ok ((), r) \<and> (\<forall>b. b \<notin> log_area st \<longrightarrow> disk r b = V b)"
proof -
  let ?w = "home_writes s V (nat (lh_n s))"
  have w: "map (\<lambda>i. (disk_home st D i, D (st + of_nat i + 1))) [0..<nat (disk_n st D)] = ?w"
    unfolding home_writes_def n(1) by (rule map_cong [OF refl]) (use h in auto)
  obtain r where r: "recover_from_log t = Ok ((), r)" "\<forall>b. b \<notin> log_area st \<longrightarrow> disk r b = apply_writes D ?w b"
    using recover_runs [OF booted_cache [OF b], of st] b n h w by (auto simp: booted_on_def)
  have "apply_writes D ?w b = V b" if "b \<notin> log_area st" for b
  proof (cases "b \<in> home_blocks s")
    case True
    then obtain i where "i < nat (lh_n s)" "b = lh_block s i" by (auto simp: home_blocks_def)
    then show ?thesis using apply_writes_map [OF d, of i D "\<lambda>i. V (lh_block s i)"] by (simp add: home_writes_def)
  next
    case False
    then have "b \<notin> fst ` set ?w" using home_writes_blocks [of "nat (lh_n s)" s V] by auto
    then show ?thesis using rest [OF that False] by (simp add: apply_writes_other)
  qed
  then show ?thesis using r by auto
qed

lemma take_commit_writes:
  assumes n: "n = nat (lh_n s)" and h: "h = header_bytes (lh_n s) (lh_block s) (V (lg_start s))"
  shows "k \<le> n \<Longrightarrow> take k (commit_writes s V) = log_writes s V k"
    and "n < k \<Longrightarrow> k \<le> 2 * n + 1 \<Longrightarrow> take k (commit_writes s V) =
      log_writes s V n @ [(lg_start s, h)] @ home_writes s V (k - n - 1)"
    and "2 * n + 1 < k \<Longrightarrow> take k (commit_writes s V) = commit_writes s V"
proof -
  have L: "length (log_writes s V j) = j" "length (home_writes s V j) = j" for j
    by (simp_all add: log_writes_def home_writes_def)
  have T: "j \<le> n \<Longrightarrow> take j (log_writes s V n) = log_writes s V j"
    "j \<le> n \<Longrightarrow> take j (home_writes s V n) = home_writes s V j" for j
    by (simp_all add: log_writes_def home_writes_def take_map)
  show "k \<le> n \<Longrightarrow> take k (commit_writes s V) = log_writes s V k"
    using T L by (simp add: commit_writes_def Let_def n [symmetric])
  show "n < k \<Longrightarrow> k \<le> 2 * n + 1 \<Longrightarrow> take k (commit_writes s V) =
      log_writes s V n @ [(lg_start s, h)] @ home_writes s V (k - n - 1)"
    using T(2) [of "k - n - 1"] L by (simp add: commit_writes_def Let_def n [symmetric] h take_Cons')
  show "2 * n + 1 < k \<Longrightarrow> take k (commit_writes s V) = commit_writes s V"
    using L by (simp add: commit_writes_def Let_def n [symmetric])
qed

text \<open>What is on the disk after \<open>k\<close> writes of a commit.\<close>

lemma disk_after_writes:
  assumes k: "cache {} P V D T s" and r: "log_ready P s" and len: "length (D (lg_start s)) = BSIZE"
    and n: "n = nat (lh_n s)" and h: "h = header_bytes (lh_n s) (lh_block s) (V (lg_start s))"
  shows "\<And>b j. j \<le> n \<Longrightarrow> b \<notin> log_area (lg_start s) - {lg_start s} \<Longrightarrow> apply_writes D (log_writes s V j) b = D b"
    and "\<And>j. j \<le> n \<Longrightarrow> apply_writes D (log_writes s V n @ [(lg_start s, h)] @ home_writes s V j) (lg_start s) = h"
    and "\<And>i j. i < n \<Longrightarrow> j \<le> n \<Longrightarrow>
      apply_writes D (log_writes s V n @ [(lg_start s, h)] @ home_writes s V j) (lg_start s + of_nat i + 1) = V (lh_block s i)"
    and "\<And>b j. b \<notin> log_area (lg_start s) \<Longrightarrow> b \<notin> home_blocks s \<Longrightarrow> j \<le> n \<Longrightarrow>
      apply_writes D (log_writes s V n @ [(lg_start s, h)] @ home_writes s V j) b = V b"
    and "length h = BSIZE" "sint (get32 h 0) = lh_n s" "\<And>i. int i < lh_n s \<Longrightarrow> get32 h (4 + 4 * i) = lh_block s i"
    and "\<And>b. b \<notin> log_area (lg_start s) \<Longrightarrow> apply_writes D (commit_writes s V) b = V b"
    and "apply_writes D (commit_writes s V) (lg_start s) = header_bytes 0 (lh_block s) h"
proof -
  note R = log_readyD [OF r]
  let ?st = "lg_start s"
  have st: "?st \<in> log_area ?st" by (rule log_area_mem)
  have L: "fst ` set (log_writes s V j) \<subseteq> log_area ?st - {?st}" if "j \<le> n" for j
    using log_writes_blocks [of j s V] that n R(2) by simp
  have H: "fst ` set (home_writes s V j) \<subseteq> home_blocks s" if "j \<le> n" for j
    using home_writes_blocks [of j s V] that n by simp
  have disj: "home_blocks s \<inter> log_area ?st = {}" using r by (simp add: log_ready_def)
  have Vst: "V ?st = D ?st" by (rule cache_clean [OF k]) (use R(6) st in auto)
  show a: "\<And>b j. j \<le> n \<Longrightarrow> b \<notin> log_area ?st - {?st} \<Longrightarrow> apply_writes D (log_writes s V j) b = D b"
    using L by (intro apply_writes_other) blast
  have mid: "apply_writes D (log_writes s V n @ [(?st, h)] @ home_writes s V j) b =
      (if b = ?st then h else apply_writes D (log_writes s V n) b)" if "j \<le> n" "b \<notin> home_blocks s" for b j
  proof -
    have "b \<notin> fst ` set (home_writes s V j)" using H that by blast
    then show ?thesis by (simp add: apply_writes_append apply_writes_other)
  qed
  show "\<And>j. j \<le> n \<Longrightarrow> apply_writes D (log_writes s V n @ [(?st, h)] @ home_writes s V j) ?st = h"
    by (subst mid) (use st disj in auto)
  show "apply_writes D (log_writes s V n @ [(?st, h)] @ home_writes s V j) (?st + of_nat i + 1) = V (lh_block s i)"
    if i: "i < n" "j \<le> n" for i j
  proof -
    have "i < LOGSIZE" using i n R(2) by simp
    then have "?st + of_nat i + 1 \<notin> home_blocks s" "?st + of_nat i + 1 \<noteq> ?st"
      using log_area_mem(1) [of i ?st] disj log_block_not_start by auto
    then show ?thesis using mid [OF i(2)] log_writes_value [OF i(1), of D s V] n R(2) by (simp add: log_block_def)
  qed
  show m: "\<And>b j. b \<notin> log_area ?st \<Longrightarrow> b \<notin> home_blocks s \<Longrightarrow> j \<le> n \<Longrightarrow>
      apply_writes D (log_writes s V n @ [(?st, h)] @ home_writes s V j) b = V b"
    using mid a [of n] st cache_clean [OF k] R(3) by (metis (no_types, lifting) DiffE empty_iff mem_Collect_eq neq0_conv order_refl)
  have bounds: "0 \<le> lh_n s" "lh_n s \<le> int LOGSIZE" using r by (simp_all add: log_ready_def)
  note hf = header_fields [OF bounds, where d = "V ?st" and blk = "lh_block s", folded h]
  show "length h = BSIZE" "sint (get32 h 0) = lh_n s" "\<And>i. int i < lh_n s \<Longrightarrow> get32 h (4 + 4 * i) = lh_block s i"
    using hf len Vst by simp_all
  have fin: "apply_writes D (commit_writes s V) b =
      (if b = ?st then header_bytes 0 (lh_block s) h
       else apply_writes D (log_writes s V n @ [(?st, h)] @ home_writes s V n) b)" for b
    by (simp add: commit_writes_def Let_def n h apply_writes_append)
  then show "apply_writes D (commit_writes s V) ?st = header_bytes 0 (lh_block s) h" by simp
  show "apply_writes D (commit_writes s V) b = V b" if b: "b \<notin> log_area ?st" for b
  proof (cases "b \<in> home_blocks s")
    case True
    then obtain i where i: "i < n" "b = lh_block s i" using n by (auto simp: home_blocks_def)
    have "distinct (map (lh_block s) [0..<n])" using r n by (simp add: log_ready_def)
    then have "apply_writes E (home_writes s V n) b = V b" for E
      using apply_writes_map [of "lh_block s" n i E "\<lambda>i. V (lh_block s i)"] i by (simp add: home_writes_def)
    then show ?thesis using fin b st by (auto simp: apply_writes_append)
  next
    case False
    then show ?thesis using fin m [OF b] b st by auto
  qed
qed

text \<open>
  C15: \<open>commit\<close> is atomic with respect to crashes. It runs to its end without a panic (the pins leave a
  buffer free), and if the machine stops after any number \<open>k\<close> of its disk writes, then
  \<open>recover_from_log\<close> on the disk that is left ends in a disk on which, outside the log, either no
  block of the transaction has changed (up to the write of the header) or all of them have their
  new content.
\<close>

theorem commit_is_crash_atomic:
  assumes k: "cache {} P V D T s" and r: "log_ready P s" and pos: "0 < lh_n s"
    and len: "length (D (lg_start s)) = BSIZE" and old: "disk_n (lg_start s) D = 0"
  shows "\<exists>u W. commit s = Ok ((), u) \<and> lh_n u = 0 \<and> dtrace u = T @ W \<and> disk u = apply_writes D W \<and>
    (\<forall>b. b \<notin> log_area (lg_start s) \<longrightarrow> disk u b = V b) \<and>
    (\<forall>k t. booted_on (lg_start s) (apply_writes D (take k W)) (t :: 'z lstate_scheme) \<longrightarrow>
      (\<exists>r. recover_from_log t = Ok ((), r) \<and> (\<forall>b. b \<notin> log_area (lg_start s) \<longrightarrow>
         disk r b = (if k \<le> nat (lh_n s) then D b else V b))))"
proof -
  let ?st = "lg_start s" and ?n = "nat (lh_n s)"
  define h where "h = header_bytes (lh_n s) (lh_block s) (V ?st)"
  note A = disk_after_writes [OF k r len refl h_def]
  obtain u where u: "commit s = Ok ((), u)" "disk u = apply_writes D (commit_writes s V)"
      "dtrace u = T @ commit_writes s V" "lh_n u = 0" using commit_runs [OF k r pos] by blast
  have rec: "\<exists>r. recover_from_log t = Ok ((), r) \<and> (\<forall>b. b \<notin> log_area ?st \<longrightarrow> disk r b = (if j \<le> ?n then D b else V b))"
    if t: "booted_on ?st (apply_writes D (take j (commit_writes s V))) t" for j and t :: "'z lstate_scheme"
  proof -
    note tk = take_commit_writes [of ?n s h V j, OF refl h_def]
    consider "j \<le> ?n" | "?n < j" "j \<le> 2 * ?n + 1" | "2 * ?n + 1 < j" by linarith
    then show ?thesis
    proof cases
      case 1
      let ?E = "apply_writes D (log_writes s V j)"
      have e: "?E ?st = D ?st" "b \<notin> log_area ?st \<Longrightarrow> ?E b = D b" for b using A(1) [OF 1] by auto
      have "disk_n ?st ?E = 0" using old e(1) by (simp add: disk_n_def)
      from recover_empty [OF _ this] t tk(1) [OF 1] 1 e(2) show ?thesis by auto
    next
      case 2
      let ?E = "apply_writes D (log_writes s V ?n @ [(?st, h)] @ home_writes s V (j - ?n - 1))"
      have j: "j - ?n - 1 \<le> ?n" using 2 by simp
      have b: "booted_on ?st ?E t" using t tk(2) 2 by simp
      have "\<exists>r. recover_from_log t = Ok ((), r) \<and> (\<forall>b. b \<notin> log_area ?st \<longrightarrow> disk r b = V b)"
      proof (rule recover_committed [OF b])
        show "disk_n ?st ?E = lh_n s" using A(2) [OF j] A(6) by (simp add: disk_n_def)
        show "disk_home ?st ?E i = lh_block s i \<and> lh_block s i \<notin> log_area ?st \<and>
            ?E (?st + of_nat i + 1) = V (lh_block s i)" if "int i < lh_n s" for i
          using A(2) [OF j] A(3) [OF _ j, of i] A(7) [OF that] log_readyD(8) [OF r, of i] that
          by (simp add: disk_home_def zless_nat_eq_int_zless)
      qed (use r A(4) [OF _ _ j] in \<open>auto simp: log_ready_def\<close>)
      then show ?thesis using 2 by auto
    next
      case 3
      let ?E = "apply_writes D (commit_writes s V)"
      have "disk_n ?st ?E = 0"
        using A(9) header_fields(2) [of 0 h "lh_block s"] A(5) by (simp add: disk_n_def)
      from recover_empty [OF _ this] t tk(3) [OF 3] 3 A(8) show ?thesis by auto
    qed
  qed
  show ?thesis
    using u A(8) rec by (intro exI [of _ u] exI [of _ "commit_writes s V"]) auto
qed

end
