(* ===== verification/Console_Props.thy ===== *)
theory Console_Props
  imports Console
begin

text \<open>
  The UART's transmit buffer is a queue between \<open>uartputc\<close> and the device, and the console's input buffer
  is a line editor: what has been committed, followed by the line being edited.
\<close>

section \<open>Locks in fields of the state\<close>

lemma acquire_in_free:
  "lock_free (get s) \<Longrightarrow>
     acquire_in get put s = Ok (put (held_by (k_hart s) (get s)) (set_cpu (push_off (mycpu s)) s))"
  by (simp add: acquire_in_def acquire_def lock_free_def holding_def held_by_def Let_def)

lemma release_in_held:
  assumes "get s = held_by (k_hart s) lk" "lock_free lk" "mycpu s = push_off c" "cpu_ok c"
  shows "release_in get put s = Ok (put lk (set_cpu (bump c) s))"
proof -
  have "pop_off (push_off c) = Ok (bump c)"
    using assms(4) by (auto simp: pop_off_def push_off_def Let_def bump_def cpu_ok_def)
  moreover have "lk\<lparr>lk_cpu := None, lk_locked := False\<rparr> = lk"
    using assms(2) by (cases lk) (simp add: lock_free_def)
  ultimately show ?thesis
    using assms by (simp add: release_in_def release_def holding_def held_by_def Let_def)
qed

lemma push_off_ok: "cpu_ok c \<Longrightarrow> cpu_ok (push_off c) \<and> 0 < noff (push_off c) \<and> c_proc (push_off c) = c_proc c"
  by (auto simp: cpu_ok_def push_off_def Let_def)

text \<open>The current CPU is inside a critical section; no other process is locked.\<close>

definition others_free :: "'z kstate_scheme \<Rightarrow> bool" where
  "others_free s \<longleftrightarrow> cpu_ok (mycpu s) \<and> (\<forall>i<NPROC. Some i \<noteq> myproc s \<longrightarrow> lock_free (p_lock (k_proc s i)))"

lemma wakeup_exact:
  assumes "others_free s" "0 < noff (mycpu s)"
  shows "wakeup ch s = Ok (map_procs (filter (\<lambda>i. Some i \<noteq> myproc s) [0..<NPROC]) (\<lambda>_. wake_proc ch) s)"
proof -
  have "table_ok (filter (\<lambda>i. Some i \<noteq> myproc s) [0..<NPROC]) s"
    using assms by (auto simp: table_ok_def others_free_def)
  then obtain c where "wakeup ch s = Ok (map_procs (filter (\<lambda>i. Some i \<noteq> myproc s) [0..<NPROC])
      (\<lambda>_. wake_proc ch) (set_cpu c s))" "c = mycpu s \<or> c = bump (mycpu s)"
    using wk.run [of "[0..<NPROC]" s ch] by (auto simp: wakeup_def)
  moreover have "bump (mycpu s) = mycpu s" using assms(2) by (simp add: bump_def)
  ultimately show ?thesis by auto
qed

lemma map_procs_cstate [simp]:
  "uart_tx_w (map_procs is f s) = uart_tx_w s" "uart_tx_r (map_procs is f s) = uart_tx_r s"
  "uart_tx_buf (map_procs is f s) = uart_tx_buf s" "uart_wr (map_procs is f s) = uart_wr s"
  "uart_room (map_procs is f s) = uart_room s" "uart_tx_lock (map_procs is f s) = uart_tx_lock s"
  "cons_lock (map_procs is f s) = cons_lock s" "cons_buf (map_procs is f s) = cons_buf s"
  "cons_r (map_procs is f s) = cons_r s" "cons_w (map_procs is f s) = cons_w s" "cons_e (map_procs is f s) = cons_e s"
  "panicked (map_procs is f s) = panicked s" "myproc (map_procs is f s) = myproc s"
  by (simp_all add: map_procs_def myproc_def mycpu_def)

lemma map_procs_free: "others_free s \<Longrightarrow> others_free (map_procs is (\<lambda>_. wake_proc ch) s)"
  by (auto simp: others_free_def map_procs_def mycpu_def myproc_def wake_proc_def)

section \<open>The transmit buffer\<close>

definition tx_contents :: "'z cstate_scheme \<Rightarrow> u8 list" where
  "tx_contents s = ring UART_TX_BUF_SIZE (uart_tx_buf s) (uart_tx_r s) (uart_tx_w s)"

definition tx_inv :: "'z cstate_scheme \<Rightarrow> bool" where
  "tx_inv s \<longleftrightarrow> unat (uart_tx_w s - uart_tx_r s) \<le> UART_TX_BUF_SIZE"

definition tx_get :: "'z cstate_scheme \<Rightarrow> u8 \<times> 'z cstate_scheme" where
  "tx_get s = (uart_tx_buf s (unat (uart_tx_r s mod of_nat UART_TX_BUF_SIZE)), s\<lparr>uart_tx_r := uart_tx_r s + 1\<rparr>)"

lemma tx_size: "UART_TX_BUF_SIZE dvd 2 ^ LENGTH(64)" "UART_TX_BUF_SIZE < 2 ^ LENGTH(64)"
  by (simp_all add: UART_TX_BUF_SIZE_def)

lemma tx_index: "unat ((i :: u64) mod of_nat UART_TX_BUF_SIZE) = unat i mod UART_TX_BUF_SIZE"
  by (simp add: unat_mod UART_TX_BUF_SIZE_def)

lemma tx_full_iff: "tx_full s \<longleftrightarrow> unat (uart_tx_w s - uart_tx_r s) = UART_TX_BUF_SIZE"
proof -
  have "tx_full s \<longleftrightarrow> uart_tx_w s - uart_tx_r s = of_nat UART_TX_BUF_SIZE"
    by (auto simp: tx_full_def algebra_simps)
  also have "\<dots> \<longleftrightarrow> unat (uart_tx_w s - uart_tx_r s) = unat (of_nat UART_TX_BUF_SIZE :: u64)"
    by (rule word_unat_eq_iff)
  finally show ?thesis by (simp add: UART_TX_BUF_SIZE_def)
qed

interpretation txq: byte_queue tx_put tx_get tx_full "\<lambda>s. uart_tx_w s = uart_tx_r s" tx_inv tx_contents UART_TX_BUF_SIZE
proof (unfold_locales, goal_cases)
  case (4 q c)
  then have lt: "unat (uart_tx_w q - uart_tx_r q) < UART_TX_BUF_SIZE" by (simp add: tx_inv_def tx_full_iff)
  have "unat (uart_tx_w q + 1 - uart_tx_r q) = Suc (unat (uart_tx_w q - uart_tx_r q))"
    using lt by (intro unat_step_Suc) (simp add: UART_TX_BUF_SIZE_def)
  then show ?case
    using ring_put [OF tx_size lt, of "uart_tx_buf q" c] lt
    by (simp add: tx_inv_def tx_contents_def tx_put_def tx_index)
next
  case (5 q)
  then have "tx_contents q = uart_tx_buf q (unat (uart_tx_r q) mod UART_TX_BUF_SIZE) #
      ring UART_TX_BUF_SIZE (uart_tx_buf q) (uart_tx_r q + 1) (uart_tx_w q)"
    using ring_get [OF tx_size(1), of "uart_tx_r q" "uart_tx_w q" "uart_tx_buf q"] by (simp add: tx_contents_def)
  then have c: "tx_contents q = fst (tx_get q) # tx_contents (snd (tx_get q))"
    by (simp add: tx_get_def tx_index tx_contents_def)
  then have "length (tx_contents (snd (tx_get q))) \<le> length (tx_contents q)" by simp
  then show ?case using c 5(1) by (simp add: tx_inv_def tx_contents_def)
qed (auto simp: tx_inv_def tx_contents_def tx_full_iff ring_empty_iff)

text \<open>The bytes that have been written to the transmit register.\<close>

definition sent :: "'z cstate_scheme \<Rightarrow> u8 list" where
  "sent s = map snd (filter (\<lambda>(r, v). r = THR) (uart_wr s))"

lemma read_lsr_idle: "read_lsr s AND LSR_TX_IDLE = 0 \<longleftrightarrow> uart_room s = 0"
  by (auto simp: read_lsr_def LSR_TX_IDLE_def LSR_RX_READY_def)

text \<open>What \<open>uartstart\<close> leaves alone.\<close>

definition same_console :: "'z cstate_scheme \<Rightarrow> 'z cstate_scheme \<Rightarrow> bool" where
  "same_console s t \<longleftrightarrow> k_hart t = k_hart s \<and> mycpu t = mycpu s \<and> uart_tx_lock t = uart_tx_lock s \<and>
     panicked t = panicked s \<and> cons_lock t = cons_lock s \<and> cons_buf t = cons_buf s \<and> cons_r t = cons_r s \<and>
     cons_w t = cons_w s \<and> cons_e t = cons_e s"

lemma same_console_refl [simp]: "same_console s s"
  by (simp add: same_console_def)

lemma same_console_trans: "same_console s t \<Longrightarrow> same_console t u \<Longrightarrow> same_console s u"
  by (simp add: same_console_def)

lemma uartstart_loop_runs:
  "tx_inv s \<Longrightarrow> others_free s \<Longrightarrow> 0 < noff (mycpu s) \<Longrightarrow> length (tx_contents s) \<le> n \<Longrightarrow>
     \<exists>t. uartstart_loop n s = Ok t \<and> tx_inv t \<and> others_free t \<and> same_console s t \<and>
       sent t = sent s @ take (uart_room s) (tx_contents s) \<and> tx_contents t = drop (uart_room s) (tx_contents s)"
proof (induction n arbitrary: s)
  case 0
  then show ?case by simp
next
  case (Suc n)
  consider "uart_tx_w s = uart_tx_r s" | "uart_tx_w s \<noteq> uart_tx_r s" "uart_room s = 0"
    | "uart_tx_w s \<noteq> uart_tx_r s" "0 < uart_room s" by blast
  then show ?case
  proof cases
    case 1
    then have "tx_contents s = []" by (simp add: tx_contents_def ring_empty_iff)
    then show ?thesis using 1 Suc.prems by simp
  next
    case 2
    then show ?thesis using Suc.prems by (simp add: read_lsr_idle)
  next
    case 3
    let ?c = "fst (tx_get s)" let ?s = "snd (tx_get s)"
    have g: "tx_inv ?s" "tx_contents s = ?c # tx_contents ?s" using txq.get_law [OF Suc.prems(1)] 3(1) by blast+
    have s': "?s = s\<lparr>uart_tx_r := uart_tx_r s + 1\<rparr>" by (simp add: tx_get_def)
    have f: "others_free ?s" "0 < noff (mycpu ?s)"
      using Suc.prems(2,3) by (simp_all add: s' others_free_def myproc_def mycpu_def)
    let ?m = "map_procs (filter (\<lambda>i. Some i \<noteq> myproc ?s) [0..<NPROC]) (\<lambda>_. wake_proc (Some UartChan)) ?s"
    let ?u = "write_reg THR ?c ?m"
    have w: "wakeup (Some UartChan) ?s = Ok ?m" by (rule wakeup_exact [OF f])
    have u: "tx_inv ?u" "others_free ?u" "0 < noff (mycpu ?u)" "tx_contents ?u = tx_contents ?s"
      "sent ?u = sent s @ [?c]" "uart_room ?u = uart_room s - 1" "same_console s ?u"
      using g(1) f map_procs_free [OF f(1), of "filter (\<lambda>i. Some i \<noteq> myproc ?s) [0..<NPROC]" "Some UartChan"]
      by (simp_all add: write_reg_def tx_inv_def tx_contents_def sent_def same_console_def others_free_def
          s' mycpu_def myproc_def map_procs_def)
    have l: "uartstart_loop (Suc n) s = uartstart_loop n ?u"
      using 3 w by (simp add: read_lsr_idle Let_def tx_get_def s')
    have "length (tx_contents ?u) \<le> n" using Suc.prems(4) g(2) u(4) by simp
    from Suc.IH [OF u(1-3) this] obtain t where "uartstart_loop n ?u = Ok t" "tx_inv t" "others_free t"
        "same_console ?u t" "sent t = sent ?u @ take (uart_room ?u) (tx_contents ?u)"
        "tx_contents t = drop (uart_room ?u) (tx_contents ?u)" by blast
    then show ?thesis
      using l u g(2) 3(2) same_console_trans [OF u(7)] by (cases "uart_room s") auto
  qed
qed

text \<open>
  \<open>uartstart\<close> gives the device the oldest bytes of the transmit buffer, in order, as many as it
  can take, and always returns with \<open>uart_tx_lock\<close> held.
\<close>

theorem uartstart_sends_oldest_bytes:
  assumes "tx_inv s" "others_free s" "0 < noff (mycpu s)"
  shows "\<exists>t. uartstart s = Ok t \<and> sent t = sent s @ take (uart_room s) (tx_contents s) \<and>
    tx_contents t = drop (uart_room s) (tx_contents s) \<and> tx_inv t"
proof -
  have "unat (uart_tx_w s - uart_tx_r s) = length (tx_contents s)" by (simp add: tx_contents_def)
  then show ?thesis using uartstart_loop_runs [OF assms, of "length (tx_contents s)"] by (auto simp: uartstart_def)
qed

text \<open>
  C32: \<open>uartputc\<close> on a buffer with space is a queue operation: the bytes sent so far followed by the
  bytes in the buffer are the same stream as before with the new byte at its end, whatever the
  device could take meanwhile, and the lock is free again.
\<close>

theorem uartputc_appends_to_stream:
  assumes inv: "tx_inv s" "length (tx_contents s) < UART_TX_BUF_SIZE" and o: "others_free s"
    and lk: "lock_free (uart_tx_lock s)" and p: "\<not> panicked s"
  shows "\<exists>t. uartputc c s = Ok (Inr (), t) \<and> sent t @ tx_contents t = sent s @ tx_contents s @ [c] \<and>
    tx_inv t \<and> lock_free (uart_tx_lock t)"
proof -
  let ?a = "(set_cpu (push_off (mycpu s)) s)\<lparr>uart_tx_lock := held_by (k_hart s) (uart_tx_lock s)\<rparr>"
  let ?b = "tx_put c ?a"
  have ok: "cpu_ok (mycpu s)" using o by (simp add: others_free_def)
  note po = push_off_ok [OF ok]
  have a: "acquire_tx s = Ok ?a" unfolding acquire_tx_def using lk by (rule acquire_in_free)
  have cpu: "mycpu ?a = push_off (mycpu s)" "k_hart ?a = k_hart s" by (simp_all add: mycpu_def set_cpu_def)
  have ia: "tx_inv ?a" "tx_contents ?a = tx_contents s" "sent ?a = sent s" "panicked ?a = panicked s"
    using inv(1) by (simp_all add: tx_inv_def tx_contents_def sent_def set_cpu_def)
  have nf: "\<not> tx_full ?a" using inv(2) ia by (simp add: txq.full_iff)
  note put = txq.put_law [OF ia(1) nf, of c]
  have b: "others_free ?b" "0 < noff (mycpu ?b)" "mycpu ?b = push_off (mycpu s)" "k_hart ?b = k_hart s"
    "uart_tx_lock ?b = held_by (k_hart s) (uart_tx_lock s)" "sent ?b = sent s"
    using o po by (simp_all add: tx_put_def others_free_def myproc_def mycpu_def set_cpu_def sent_def)
  have "unat (uart_tx_w ?b - uart_tx_r ?b) = length (tx_contents ?b)" by (simp add: tx_contents_def)
  then obtain t where t: "uartstart ?b = Ok t" "tx_inv t" "same_console ?b t"
      "sent t = sent ?b @ take (uart_room ?b) (tx_contents ?b)" "tx_contents t = drop (uart_room ?b) (tx_contents ?b)"
    using uartstart_loop_runs [of ?b "length (tx_contents ?b)"] put b by (auto simp: uartstart_def)
  let ?u = "(set_cpu (bump (mycpu s)) t)\<lparr>uart_tx_lock := uart_tx_lock s\<rparr>"
  have "release_tx t = Ok ?u" unfolding release_tx_def
    by (rule release_in_held [OF _ lk _ ok]) (use t(3) b in \<open>simp_all add: same_console_def\<close>)
  then have "uartputc c s = Ok (Inr (), ?u)" using a t(1) nf p ia(4) by (simp add: uartputc_def uartputc_wait_def)
  moreover have "tx_inv ?u" "tx_contents ?u = tx_contents t" "sent ?u = sent t" "lock_free (uart_tx_lock ?u)"
    using t(2) lk by (simp_all add: tx_inv_def tx_contents_def sent_def set_cpu_def)
  moreover have "sent t @ tx_contents t = sent s @ tx_contents s @ [c]"
  proof -
    have "sent t @ tx_contents t = sent ?b @ tx_contents ?b" unfolding t(4,5) by simp
    then show ?thesis using put ia(2) b(6) by simp
  qed
  ultimately show ?thesis by (intro exI [of _ ?u]) simp
qed

section \<open>A machine with an idle console\<close>

definition demo_console :: cstate where
  "demo_console = pstate.extend demo_pipes \<lparr>uart_tx_lock = initlock ''uart'', uart_tx_buf = (\<lambda>_. 0),
     uart_tx_w = 0, uart_tx_r = 0, uart_wr = [], uart_room = 1, uart_rx = [], panicked = False,
     pr_lock = initlock ''pr'', pr_locking = True, cons_lock = initlock ''cons'', cons_buf = (\<lambda>_. 0),
     cons_r = 0, cons_w = 0, cons_e = 0, devsw = (\<lambda>i. i = 1)\<rparr>"

lemma demo_console_simps [simp]:
  "mycpu demo_console = mycpu demo_running" "k_hart demo_console = 0" "myproc demo_console = Some 5"
  "k_proc demo_console = k_proc demo_running" "uart_tx_lock demo_console = initlock ''uart''"
  "uart_tx_buf demo_console = (\<lambda>_. 0)" "uart_tx_w demo_console = 0" "uart_tx_r demo_console = 0"
  "uart_wr demo_console = []" "uart_room demo_console = 1" "uart_rx demo_console = []" "\<not> panicked demo_console"
  "cons_lock demo_console = initlock ''cons''" "cons_buf demo_console = (\<lambda>_. 0)" "cons_r demo_console = 0"
  "cons_w demo_console = 0" "cons_e demo_console = 0"
proof -
  show "mycpu demo_console = mycpu demo_running" "k_hart demo_console = 0" "myproc demo_console = Some 5"
    "k_proc demo_console = k_proc demo_running"
    using demo_pipes_simps by (simp_all add: demo_console_def pstate.defs mycpu_def myproc_def)
qed (simp_all add: demo_console_def pstate.defs)

lemma initlock_free [simp]: "lock_free (initlock nm)"
  by (simp add: initlock_def lock_free_def)

lemma demo_console_free: "others_free demo_console"
proof -
  have "\<forall>i<NPROC. Some i \<noteq> Some 5 \<longrightarrow> lock_free (p_lock (k_proc demo_running i))"
    using demo_sched_free(1) by (simp add: demo_running_def)
  then show ?thesis by (simp add: others_free_def demo_running_cpu cpu_ok_def)
qed

theorem uartputc_appends_to_stream_witness:
  "\<exists>t. uartputc 97 demo_console = Ok (Inr (), t) \<and> sent t @ tx_contents t = [97]"
proof -
  have "tx_contents demo_console = []" "sent demo_console = []"
    by (simp_all add: tx_contents_def sent_def ring_empty_iff)
  then show ?thesis
    using uartputc_appends_to_stream [of demo_console 97] demo_console_free
    by (auto simp: tx_inv_def UART_TX_BUF_SIZE_def)
qed

theorem uartstart_sends_oldest_bytes_witness:
  "\<exists>t. uartstart (tx_put 98 (tx_put 97 (set_cpu (push_off (mycpu demo_console)) demo_console))) = Ok t \<and>
     sent t = [97] \<and> tx_contents t = [98]"
proof -
  let ?s = "set_cpu (push_off (mycpu demo_console)) demo_console" let ?t = "tx_put 98 (tx_put 97 ?s)"
  have e: "tx_inv ?s" "tx_contents ?s = []" by (simp_all add: tx_inv_def tx_contents_def ring_empty_iff set_cpu_def)
  then have f: "\<not> tx_full ?s" by (simp add: txq.full_iff UART_TX_BUF_SIZE_def)
  note p = txq.put_law [OF e(1) f, of 97]
  then have "\<not> tx_full (tx_put 97 ?s)" using e by (simp add: txq.full_iff UART_TX_BUF_SIZE_def)
  then have q: "tx_inv ?t" "tx_contents ?t = [97, 98]" using txq.put_law [of "tx_put 97 ?s" 98] p e by simp_all
  have "cpu_ok (mycpu demo_console)" by (simp add: demo_running_cpu cpu_ok_def)
  note po = push_off_ok [OF this]
  have "others_free ?t" "0 < noff (mycpu ?t)"
    using demo_console_free po by (simp_all add: others_free_def tx_put_def mycpu_def set_cpu_def myproc_def)
  moreover have "sent ?t = []" "uart_room ?t = 1" by (simp_all add: tx_put_def sent_def set_cpu_def)
  ultimately show ?thesis using uartstart_sends_oldest_bytes [OF q(1)] q(2) by auto
qed

end
