(* ===== verification/Txn.thy ===== *)
theory Txn
  imports Crash Console_Props
begin

text \<open>
  Transactions: what \<open>binit\<close> starts from, what \<open>log_write\<close> does to a transaction, and the space that
  \<open>begin_op\<close> reserves. The concrete machine at the end has one modified block in its log.
\<close>

section \<open>binit\<close>

lemma binit_step:
  assumes l: "dll (\<lambda>i. b_next (bcache s i)) (\<lambda>i. b_prev (bcache s i)) bhead xs" and b: "b \<notin> set (bhead # xs)"
  shows "dll (\<lambda>i. b_next (bcache (lru_push b (upd_b b (\<lambda>x. x\<lparr>b_lock := lk\<rparr>) s)) i))
    (\<lambda>i. b_prev (bcache (lru_push b (upd_b b (\<lambda>x. x\<lparr>b_lock := lk\<rparr>) s)) i)) bhead (b # xs)"
proof -
  let ?u = "upd_b b (\<lambda>x. x\<lparr>b_lock := lk\<rparr>) s"
  have "(\<lambda>i. b_next (bcache ?u i)) = (\<lambda>i. b_next (bcache s i))" "(\<lambda>i. b_prev (bcache ?u i)) = (\<lambda>i. b_prev (bcache s i))"
    by (auto simp: fun_eq_iff)
  then show ?thesis using lru_push_list [of ?u xs b] l b by simp
qed

definition binit_body :: "nat \<Rightarrow> 'z bstate_scheme \<Rightarrow> 'z bstate_scheme" where
  "binit_body b s = lru_push b (upd_b b (\<lambda>x. x\<lparr>b_lock := initsleeplock ''buffer''\<rparr>) s)"

lemma binit_fold:
  assumes "m \<le> NBUF" and h: "b_next (bcache s bhead) = bhead" "b_prev (bcache s bhead) = bhead"
  defines "t \<equiv> fold binit_body [0..<m] s"
  shows "dll (\<lambda>i. b_next (bcache t i)) (\<lambda>i. b_prev (bcache t i)) bhead (rev [0..<m]) \<and>
    (\<forall>b. bcore (bcache t b) = bcore (if b < m then (bcache s b)\<lparr>b_lock := initsleeplock ''buffer''\<rparr> else bcache s b)) \<and>
    disk t = disk s \<and> dtrace t = dtrace s \<and> myproc t = myproc s \<and> k_proc t = k_proc s"
  using assms(1) unfolding t_def
proof (induction m)
  case 0
  then show ?case using h by (simp add: dll_def)
next
  case (Suc m)
  let ?u = "fold binit_body [0..<m] s"
  have ih: "dll (\<lambda>i. b_next (bcache ?u i)) (\<lambda>i. b_prev (bcache ?u i)) bhead (rev [0..<m])"
    "\<And>b. bcore (bcache ?u b) = bcore (if b < m then (bcache s b)\<lparr>b_lock := initsleeplock ''buffer''\<rparr> else bcache s b)"
    "disk ?u = disk s \<and> dtrace ?u = dtrace s \<and> myproc ?u = myproc s \<and> k_proc ?u = k_proc s"
    using Suc by auto
  have e: "fold binit_body [0..<Suc m] s = binit_body m ?u" by simp
  have "bcore (bcache (binit_body m ?u) b) =
      bcore (if b < Suc m then (bcache s b)\<lparr>b_lock := initsleeplock ''buffer''\<rparr> else bcache s b)" for b
  proof (cases "b = m")
    case True
    then show ?thesis using ih(2) [of m] by (simp add: binit_body_def) (simp add: bcore_def)
  next
    case False
    then show ?thesis using ih(2) [of b] by (simp add: binit_body_def less_Suc_eq)
  qed
  moreover have "m \<notin> set (bhead # rev [0..<m])" using Suc.prems by auto
  then have "dll (\<lambda>i. b_next (bcache (binit_body m ?u) i)) (\<lambda>i. b_prev (bcache (binit_body m ?u) i)) bhead (m # rev [0..<m])"
    unfolding binit_body_def [of m ?u] by (rule binit_step [OF ih(1)])
  moreover have "disk (binit_body m ?u) = disk ?u \<and> dtrace (binit_body m ?u) = dtrace ?u \<and>
      myproc (binit_body m ?u) = myproc ?u \<and> k_proc (binit_body m ?u) = k_proc ?u"
    by (simp add: binit_body_def lru_push_def Let_def)
  ultimately show ?case unfolding e using ih(3) by simp
qed

lemma binit_lru:
  "lru (binit s) (rev [0..<NBUF])"
  "b < NBUF \<Longrightarrow> bcore (bcache (binit s) b) = bcore ((bcache s b)\<lparr>b_lock := initsleeplock ''buffer''\<rparr>)"
  "disk (binit s) = disk s" "dtrace (binit s) = dtrace s" "myproc (binit s) = myproc s" "k_proc (binit s) = k_proc s"
proof -
  let ?s = "upd_b bhead (\<lambda>x. x\<lparr>b_prev := bhead, b_next := bhead\<rparr>) s"
  have e: "binit s = fold binit_body [0..<NBUF] ?s"
    unfolding binit_def by (rule arg_cong [where f = "\<lambda>f. fold f [0..<NBUF] ?s"]) (simp add: binit_body_def fun_eq_iff)
  note f = binit_fold [of NBUF ?s, folded e, simplified]
  show "lru (binit s) (rev [0..<NBUF])" using f by (auto simp: lru_def)
  show "b < NBUF \<Longrightarrow> bcore (bcache (binit s) b) = bcore ((bcache s b)\<lparr>b_lock := initsleeplock ''buffer''\<rparr>)"
    using f by (auto simp: bcore_def)
  show "disk (binit s) = disk s" "dtrace (binit s) = dtrace s" "myproc (binit s) = myproc s" "k_proc (binit s) = k_proc s"
    using f by auto
qed

text \<open>The static \<open>bcache\<close> of a kernel that has just started is all zero.\<close>

lemma binit_cinv:
  assumes z: "\<And>b. b < NBUF \<Longrightarrow> b_dev (bcache s b) \<noteq> ROOTDEV \<and> b_refcnt (bcache s b) = 0" and p: "myproc s = Some p"
  shows "cinv {} (\<lambda>_. 0) (binit s)"
proof -
  have c: "b_dev (bcache (binit s) b) = b_dev (bcache s b)" "b_refcnt (bcache (binit s) b) = b_refcnt (bcache s b)"
    "b_lock (bcache (binit s) b) = initsleeplock ''buffer''" if "b < NBUF" for b
    using binit_lru(2) [OF that, of s] by (simp_all add: bcore_def)
  then have no: "\<not> cached (binit s) n b" for n b using z by (auto simp: cached_def)
  show ?thesis
    unfolding cinv_def
  proof (intro conjI)
    show "\<exists>xs. lru (binit s) xs" using binit_lru(1) by blast
    show "\<exists>q. myproc (binit s) = Some q \<and> (\<forall>b bno. cached (binit s) bno b \<longrightarrow> bno \<in> {} \<longrightarrow>
        sl_pid (b_lock (bcache (binit s) b)) = p_pid (k_proc (binit s) q))"
      using p by (simp add: binit_lru(5))
  qed (use no c z in \<open>auto simp: initsleeplock_def\<close>)
qed

section \<open>log_write\<close>

lemma absorb_spec:
  "i \<le> absorb k blk b i \<and> absorb k blk b i \<le> i + k \<and> (\<forall>j. i \<le> j \<longrightarrow> j < absorb k blk b i \<longrightarrow> blk j \<noteq> b) \<and>
     (absorb k blk b i < i + k \<longrightarrow> blk (absorb k blk b i) = b)"
proof (induction k arbitrary: i)
  case 0
  then show ?case by simp
next
  case (Suc k)
  show ?case
  proof (cases "blk i = b")
    case False
    have "blk j \<noteq> b" if "i \<le> j" "j < absorb k blk b (i + 1)" for j
      using Suc [of "i + 1"] False that by (cases "j = i") auto
    then show ?thesis using Suc [of "i + 1"] False by auto
  qed simp
qed

lemma absorb_home:
  assumes "0 \<le> lh_n s"
  shows "absorb (nat (lh_n s)) (lh_block s) bno 0 < nat (lh_n s) \<longleftrightarrow> bno \<in> home_blocks s"
    and "absorb (nat (lh_n s)) (lh_block s) bno 0 < nat (lh_n s) \<Longrightarrow>
      lh_block s (absorb (nat (lh_n s)) (lh_block s) bno 0) = bno"
    and "absorb (nat (lh_n s)) (lh_block s) bno 0 \<le> nat (lh_n s)"
proof -
  note a = absorb_spec [of 0 "nat (lh_n s)" "lh_block s" bno, simplified]
  show "absorb (nat (lh_n s)) (lh_block s) bno 0 \<le> nat (lh_n s)" using a by simp
  show v: "lh_block s (absorb (nat (lh_n s)) (lh_block s) bno 0) = bno"
    if "absorb (nat (lh_n s)) (lh_block s) bno 0 < nat (lh_n s)" using a that by simp
  show "absorb (nat (lh_n s)) (lh_block s) bno 0 < nat (lh_n s) \<longleftrightarrow> bno \<in> home_blocks s" (is "?a < ?n \<longleftrightarrow> _")
  proof
    assume "?a < ?n"
    then show "bno \<in> home_blocks s" using v by (force simp: home_blocks_def)
  next
    assume "bno \<in> home_blocks s"
    then obtain j where j: "j < ?n" "lh_block s j = bno" by (auto simp: home_blocks_def)
    then have "\<not> j < ?a" using a by blast
    then show "?a < ?n" using j(1) by simp
  qed
qed

lemma log_write_runs:
  assumes k: "cache L P V D T s" and b: "cached s bno b" "bno \<in> L" and r: "log_ready P s"
    and out: "1 \<le> lg_outstanding s" and fits: "lh_n s < sint (lg_size s) - 1" "lh_n s < int LOGSIZE - 1"
    and area: "bno \<notin> log_area (lg_start s)"
  shows "runs (log_write b) s (\<lambda>_ t. \<exists>Q. cache L Q V D T t \<and> cached t = cached s \<and> log_ready Q t \<and>
    home_blocks t = insert bno (home_blocks s) \<and> lh_n t = int (card (insert bno (home_blocks s))) \<and>
    lg_outstanding t = lg_outstanding s \<and> lg_committing t = lg_committing s \<and> lg_size t = lg_size s \<and>
    lg_start t = lg_start s)"
proof -
  let ?n = "nat (lh_n s)" let ?i = "absorb ?n (lh_block s) bno 0"
  have bno: "b_blockno (bcache s b) = bno" using b by (simp add: cached_def)
  note R = r [unfolded log_ready_def]
  have n: "int ?n = lh_n s" using R by simp
  have card: "card (home_blocks s) = ?n"
    using distinct_card [of "map (lh_block s) [0..<?n]"] R by (simp add: home_blocks_def atLeast0LessThan)
  note a = absorb_home [of s bno]
  show ?thesis
  proof (cases "bno \<in> home_blocks s")
    case True
    then have i: "?i < ?n" "lh_block s ?i = bno" using a R by auto
    then have "(lh_block s)(?i := bno) = lh_block s" by auto
    moreover have "int ?i \<noteq> lh_n s" using i(1) n by linarith
    ultimately have e: "log_write b s = Ok ((), s)"
      using i fits out bno by (simp add: log_write_def Let_def)
    show ?thesis using e k r True n card by (simp add: runs_def insert_absorb) blast
  next
    case False
    then have i: "?i = ?n" using a R by (metis le_neq_implies_less)
    let ?s = "s\<lparr>lh_block := (lh_block s)(?n := bno)\<rparr>"
    have ks: "cache L P V D T ?s" "cached ?s = cached s" using cache_cong [of ?s s] k by (simp_all add: myproc_def mycpu_def)
    have p0: "P bno = 0" using R False by simp
    have bs: "cached ?s bno b" using ks b by simp
    obtain t where t: "bpin b ?s = Ok ((), t)" "cache L (P(bno := 1)) V D T t" "cframe UNIV ?s t"
      using bpin_runs [OF ks(1) bs b(2)] p0 by (auto simp: runs_def)
    note lg = cframe_log [OF t(3)]
    let ?t = "t\<lparr>lh_n := lh_n t + 1\<rparr>"
    have e: "log_write b s = Ok ((), ?t)"
      using i fits out n bno t(1) by (simp add: log_write_def Let_def kseq_Ok)
    have kt: "cache L (P(bno := 1)) V D T ?t" "cached ?t = cached t"
      using cache_cong [of ?t t] t(2) by (simp_all add: myproc_def mycpu_def)
    have "0 \<le> lh_n s" using R by simp
    then have "nat (lh_n s + 1) = Suc ?n" by (simp add: nat_add_distrib)
    then have h: "home_blocks ?t = insert bno (home_blocks s)"
      using lg by (auto simp: home_blocks_def less_Suc_eq)
    have "map ((lh_block s)(?n := bno)) [0..<?n] = map (lh_block s) [0..<?n]" by (rule map_cong) auto
    moreover have "bno \<notin> set (map (lh_block s) [0..<?n])" using False by (auto simp: home_blocks_def)
    ultimately have "log_ready (P(bno := 1)) ?t"
      using R lg fits area False h \<open>nat (lh_n s + 1) = Suc ?n\<close> by (auto simp: log_ready_def)
    moreover have "cached t = cached s"
    proof -
      have "t = upd_b b (\<lambda>x. x\<lparr>b_refcnt := b_refcnt x + 1\<rparr>) ?s" using t(1) by (simp add: bpin_def)
      then show ?thesis by (auto simp: cached_def fun_eq_iff)
    qed
    moreover have "card (insert bno (home_blocks s)) = Suc ?n" using False card by (simp add: home_blocks_def)
    ultimately show ?thesis using e kt h lg n by (simp add: runs_def) blast
  qed
qed

section \<open>A machine with a modified block\<close>

definition zero_buf :: buf where
  "zero_buf = \<lparr>b_valid = False, b_dev = 0, b_blockno = 0, b_lock = initsleeplock [], b_refcnt = 0,
     b_prev = 0, b_next = 0, b_data = replicate BSIZE 0\<rparr>"

definition demo_disk :: "u32 \<Rightarrow> block" where
  "demo_disk = (\<lambda>_. replicate BSIZE 0)"

definition demo_boot :: "(u32 \<Rightarrow> block) \<Rightarrow> lstate" where
  "demo_boot D = binit (bstate.extend
     (cstate.extend demo_console \<lparr>bcache = (\<lambda>_. zero_buf), disk = D, dtrace = []\<rparr>)
     \<lparr>lg_start = 2, lg_size = 30, lg_outstanding = 0, lg_committing = False, lg_dev = ROOTDEV,
      lh_n = 0, lh_block = (\<lambda>_. 0)\<rparr>)"

lemma binit_log: "\<exists>c. binit s = (s :: 'z bstate_scheme)\<lparr>bcache := c\<rparr>"
proof -
  have push: "\<exists>c. lru_push b t = (t :: 'z bstate_scheme)\<lparr>bcache := c\<rparr>" for b t
    using lru_push_rest [of b t] by blast
  have "\<exists>c. fold (\<lambda>b s. lru_push b (upd_b b (\<lambda>x. x\<lparr>b_lock := initsleeplock ''buffer''\<rparr>) s)) bs t = t\<lparr>bcache := c\<rparr>"
    for bs and t :: "'z bstate_scheme"
  proof (induction bs arbitrary: t)
    case Nil
    show ?case by (auto intro!: exI [of _ "bcache t"])
  next
    case (Cons b bs)
    obtain c where "lru_push b (upd_b b (\<lambda>x. x\<lparr>b_lock := initsleeplock ''buffer''\<rparr>) t) = t\<lparr>bcache := c\<rparr>"
      using push [of b "upd_b b (\<lambda>x. x\<lparr>b_lock := initsleeplock ''buffer''\<rparr>) t"] by (auto simp: upd_b_def)
    then show ?case using Cons [of "t\<lparr>bcache := c\<rparr>"] by auto
  qed
  from this [of "[0..<NBUF]" "upd_b bhead (\<lambda>x. x\<lparr>b_prev := bhead, b_next := bhead\<rparr>) s"]
  show ?thesis by (auto simp: binit_def upd_b_def)
qed

lemma demo_boot_simps [simp]:
  "lg_start (demo_boot D) = 2" "lg_size (demo_boot D) = 30" "lg_outstanding (demo_boot D) = 0"
  "lg_committing (demo_boot D) = False" "lg_dev (demo_boot D) = ROOTDEV" "lh_n (demo_boot D) = 0"
  "disk (demo_boot D) = D" "dtrace (demo_boot D) = []" "myproc (demo_boot D) = Some 5"
proof -
  let ?s = "bstate.extend (cstate.extend demo_console \<lparr>bcache = (\<lambda>_. zero_buf), disk = D, dtrace = []\<rparr>)
     \<lparr>lg_start = 2, lg_size = 30, lg_outstanding = 0, lg_committing = False, lg_dev = ROOTDEV,
      lh_n = 0, lh_block = (\<lambda>_. 0)\<rparr> :: lstate"
  obtain c where c: "binit ?s = ?s\<lparr>bcache := c\<rparr>" using binit_log by blast
  have "myproc ?s = myproc demo_pipes"
    by (simp add: myproc_def mycpu_def bstate.defs cstate.defs pstate.defs demo_console_def)
  then have m: "myproc ?s = Some 5" by simp
  show "lg_start (demo_boot D) = 2" "lg_size (demo_boot D) = 30" "lg_outstanding (demo_boot D) = 0"
    "lg_committing (demo_boot D) = False" "lg_dev (demo_boot D) = ROOTDEV" "lh_n (demo_boot D) = 0"
    "disk (demo_boot D) = D" "dtrace (demo_boot D) = []"
    unfolding demo_boot_def c by (simp_all add: bstate.defs cstate.defs)
  show "myproc (demo_boot D) = Some 5" unfolding demo_boot_def using m by (simp add: binit_lru(5))
qed

lemma demo_boot_booted: "booted_on 2 D (demo_boot D)"
proof -
  let ?s = "bstate.extend (cstate.extend demo_console \<lparr>bcache = (\<lambda>_. zero_buf), disk = D, dtrace = []\<rparr>)
     \<lparr>lg_start = 2, lg_size = 30, lg_outstanding = 0, lg_committing = False, lg_dev = ROOTDEV,
      lh_n = 0, lh_block = (\<lambda>_. 0)\<rparr> :: lstate"
  have "bcache ?s = (\<lambda>_. zero_buf)" by (simp add: bstate.defs cstate.defs)
  moreover have "myproc ?s = Some 5"
    using demo_boot_simps(9) [of D] by (simp add: demo_boot_def binit_lru(5))
  ultimately have "cinv {} (\<lambda>_. 0) (binit ?s)"
    by (intro binit_cinv) (simp_all add: zero_buf_def ROOTDEV_def)
  then have "cinv {} (\<lambda>_. 0) (demo_boot D)" by (simp add: demo_boot_def)
  then show ?thesis by (simp add: booted_on_def)
qed

text \<open>\<open>begin_op\<close>, a modification of block 100, \<open>log_write\<close>: one transaction.\<close>

definition demo_op :: "(lstate, unit) kop" where
  "demo_op =
     kseq begin_op (kbind (bread ROOTDEV 100) (\<lambda>b.
       kseq (set_data b (\<lambda>_. replicate BSIZE 1)) (kseq (log_write b) (brelse b))))"

lemma demo_block_not_log: "(100 :: u32) \<notin> log_area 2"
proof
  assume "(100 :: u32) \<in> log_area 2"
  then obtain i where i: "i \<le> 30" "(100 :: u32) = of_nat (i + 2)"
    by (auto simp: log_area_def LOGSIZE_def MAXOPBLOCKS_def add.commute)
  then show False using of_nat_inj32 [of 100 "i + 2"] by simp
qed

lemma demo_boot_buf:
  assumes "b < NBUF"
  shows "b_dev (bcache (demo_boot D) b) = 0" "b_refcnt (bcache (demo_boot D) b) = 0"
proof -
  let ?s = "bstate.extend (cstate.extend demo_console \<lparr>bcache = (\<lambda>_. zero_buf), disk = D, dtrace = []\<rparr>)
     \<lparr>lg_start = 2, lg_size = 30, lg_outstanding = 0, lg_committing = False, lg_dev = ROOTDEV,
      lh_n = 0, lh_block = (\<lambda>_. 0)\<rparr> :: lstate"
  have "bcache ?s = (\<lambda>_. zero_buf)" by (simp add: bstate.defs cstate.defs)
  then show "b_dev (bcache (demo_boot D) b) = 0" "b_refcnt (bcache (demo_boot D) b) = 0"
    using binit_lru(2) [OF assms, of ?s] by (simp_all add: demo_boot_def bcore_def zero_buf_def)
qed

lemma demo_cache: "cache {} (\<lambda>_. 0) demo_disk demo_disk [] (demo_boot demo_disk)"
proof -
  let ?s = "demo_boot demo_disk"
  have b: "cinv {} (\<lambda>_. 0) ?s" using demo_boot_booted [of demo_disk] by (simp add: booted_on_def)
  have "cview ?s = demo_disk"
  proof
    fix n
    show "cview ?s n = demo_disk n"
      using cview_at [OF b] cinvD(10) [OF b] cview_uncached [of ?s n] by (cases "\<exists>b. cached ?s n b") auto
  qed
  then show ?thesis using b by (simp add: cache_def)
qed

lemma demo_bread:
  obtains b t where "bread ROOTDEV 100 (demo_boot demo_disk) = Ok (b, t)"
    "cache {100} (\<lambda>_. 0) demo_disk demo_disk [] t" "cached t 100 b"
  by (rule bread_ok [OF demo_cache, of 100]) (auto simp: NBUF_def MAXOPBLOCKS_def)

lemma demo_op_runs:
  "runs demo_op (demo_boot demo_disk) (\<lambda>_ t. \<exists>P. cache {} P (demo_disk(100 := replicate BSIZE 1)) demo_disk [] t \<and>
     log_ready P t \<and> lh_n t = 1 \<and> lg_start t = 2 \<and> lg_outstanding t = 1 \<and> \<not> lg_committing t)"
proof -
  let ?s = "demo_boot demo_disk" let ?t = "?s\<lparr>lg_outstanding := 1\<rparr>"
  have 0: "begin_op ?s = Ok ((), ?t)" by (simp add: begin_op_def LOGSIZE_def MAXOPBLOCKS_def)
  have k: "cache {} (\<lambda>_. 0) demo_disk demo_disk [] ?t"
    by (subst cache_cong [of _ ?s]) (simp_all add: myproc_def mycpu_def demo_cache)
  obtain x t1 where 1: "bread ROOTDEV 100 ?t = Ok (x, t1)" "cache {100} (\<lambda>_. 0) demo_disk demo_disk [] t1"
      "cached t1 100 x" "cframe {} ?t t1"
    using bread_ok [OF k, of 100] by (auto simp: NBUF_def MAXOPBLOCKS_def)
  obtain t2 where 2: "set_data x (\<lambda>_. replicate BSIZE 1) t1 = Ok ((), t2)"
      "cache {100} (\<lambda>_. 0) (demo_disk(100 := replicate BSIZE 1)) demo_disk [] t2" "cframe UNIV t1 t2"
    using set_data_ok [OF 1(2,3), of "\<lambda>_. replicate BSIZE 1"] by auto
  have lg: "lg_start t2 = 2" "lg_dev t2 = ROOTDEV" "lh_n t2 = 0" "lg_size t2 = 30" "lg_outstanding t2 = 1"
    "\<not> lg_committing t2"
    using cframe_log [OF 1(4)] cframe_log [OF 2(3)] by simp_all
  have "home_blocks t2 = {}" by (simp add: home_blocks_def lg)
  moreover then have "log_ready (\<lambda>_. 0) t2" by (simp add: log_ready_def lg LOGSIZE_def MAXOPBLOCKS_def)
  moreover note demo_block_not_log
  moreover have "cached t2 100 x" using cframe_cached [OF 2(3) _ 1(3)] by simp
  ultimately obtain t3 Q where 3: "log_write x t2 = Ok ((), t3)"
      "cache {100} Q (demo_disk(100 := replicate BSIZE 1)) demo_disk [] t3" "cached t3 100 x" "log_ready Q t3"
      "home_blocks t3 = {100}" "lh_n t3 = 1" "lg_start t3 = 2" "lg_outstanding t3 = 1" "\<not> lg_committing t3"
    using log_write_runs [OF 2(2), of 100 x] by (auto simp: lg LOGSIZE_def MAXOPBLOCKS_def runs_def)
  have "Q 100 \<noteq> 0" using 3(4,5) by (simp add: log_ready_def)
  then obtain t4 where 4: "brelse x t3 = Ok ((), t4)"
      "cache ({100} - {100}) Q (demo_disk(100 := replicate BSIZE 1)) demo_disk [] t4" "cframe UNIV t3 t4"
    using brelse_ok [OF 3(2,3)] by auto
  have "demo_op ?s = Ok ((), t4)" using 0 1(1) 2(1) 3(1) 4(1) by (simp add: demo_op_def kbind_Ok kseq_Ok)
  moreover have "log_ready Q t4" "lh_n t4 = 1" "lg_start t4 = 2" "lg_outstanding t4 = 1" "\<not> lg_committing t4"
    using 3(4,6-9) cframe_log [OF 4(3)] by (simp_all add: log_ready_def home_blocks_def)
  ultimately show ?thesis using 4(2) by (auto simp: runs_def)
qed

theorem commit_is_crash_atomic_witness:
  "\<exists>s u W r. demo_op (demo_boot demo_disk) = Ok ((), s) \<and> commit s = Ok ((), u) \<and> dtrace u = W \<and>
     recover_from_log (demo_boot (apply_writes demo_disk (take 2 W))) = Ok ((), r) \<and> disk r 100 = replicate BSIZE 1"
proof -
  obtain s P where s: "demo_op (demo_boot demo_disk) = Ok ((), s)"
      "cache {} P (demo_disk(100 := replicate BSIZE 1)) demo_disk [] s" "log_ready P s" "lh_n s = 1" "lg_start s = 2"
    using demo_op_runs by (auto simp: runs_def)
  have "replicate 4 (0 :: u8) = [0, 0, 0, 0]" by (simp add: numeral_eq_Suc)
  then have d: "length (demo_disk (lg_start s)) = BSIZE" "disk_n (lg_start s) demo_disk = 0"
    by (simp_all add: demo_disk_def disk_n_def get32_def BSIZE_def)
  obtain u W where u: "commit s = Ok ((), u)" "dtrace u = W"
      "booted_on 2 (apply_writes demo_disk (take 2 W)) (demo_boot (apply_writes demo_disk (take 2 W))) \<longrightarrow>
         (\<exists>r. recover_from_log (demo_boot (apply_writes demo_disk (take 2 W))) = Ok ((), r) \<and>
         (\<forall>b. b \<notin> log_area 2 \<longrightarrow>
           disk r b = (if 2 \<le> nat 1 then demo_disk b else (demo_disk(100 := replicate BSIZE 1)) b)))"
    using commit_is_crash_atomic [OF s(2,3) _ d] unfolding s(4,5) by fastforce
  then obtain r where "recover_from_log (demo_boot (apply_writes demo_disk (take 2 W))) = Ok ((), r)"
      "disk r 100 = (if 2 \<le> nat 1 then demo_disk 100 else replicate BSIZE 1)"
    using demo_boot_booted demo_block_not_log by fastforce
  then show ?thesis using s(1) u by auto
qed

section \<open>The space that \<open>begin_op\<close> reserves\<close>

text \<open>Operations that leave a part of the state alone, whatever they return.\<close>

definition keeps :: "('s \<Rightarrow> 'f) \<Rightarrow> ('s, 'a) kop \<Rightarrow> bool" where
  "keeps f m \<longleftrightarrow> (\<forall>s x t. m s = Ok (x, t) \<longrightarrow> f t = f s)"

named_theorems keeps_intros \<open>operations that leave a part of the state alone\<close>

lemma keeps_basic [keeps_intros]: "keeps f (kret x)" "keeps f (kget g)" "keeps f (kpanic e)"
  by (simp_all add: keeps_def)

lemma keeps_kmod: "(\<And>s. f (g s) = f s) \<Longrightarrow> keeps f (kmod g)"
  by (simp add: keeps_def)

lemma keeps_kbind [keeps_intros]: "keeps f m \<Longrightarrow> (\<And>x. keeps f (g x)) \<Longrightarrow> keeps f (kbind m g)"
  by (fastforce simp: keeps_def kbind_def outcome_simps)

lemma keeps_kseq [keeps_intros]: "keeps f m \<Longrightarrow> keeps f n \<Longrightarrow> keeps f (kseq m n)"
  by (simp add: kseq_def keeps_kbind)

lemma keeps_kfor [keeps_intros]: "(\<And>i. keeps f (g i)) \<Longrightarrow> keeps f (kfor is g)"
  by (induction "is") (simp_all add: keeps_basic keeps_kseq)

lemma keeps_if [keeps_intros]: "keeps f m \<Longrightarrow> keeps f n \<Longrightarrow> keeps f (if b then m else n)"
  by simp

text \<open>The counters of the log; the buffer cache does not touch them.\<close>

definition counters :: "'z lstate_scheme \<Rightarrow> int \<times> int \<times> bool \<times> u32" where
  "counters s = (lh_n s, lg_outstanding s, lg_committing s, lg_size s)"

lemma counters_upd_b [simp]: "counters (upd_b b f s) = counters s"
  by (simp add: counters_def upd_b_def)

lemma counters_lru [simp]: "counters (lru_push b s) = counters s" "counters (lru_remove b s) = counters s"
  by (simp_all add: lru_push_def lru_remove_def Let_def)

lemma keeps_bio [keeps_intros]:
  "keeps counters (bread dev n)" "keeps counters (bwrite b)" "keeps counters (brelse b)" "keeps counters (bpin b)"
  "keeps counters (bunpin b)" "keeps counters (set_data b f)" "keeps counters (get_data b)"
proof -
  have rw: "keeps counters (disk_rw b w)" for b w
    by (simp add: disk_rw_def keeps_def Let_def) (simp add: counters_def)
  have h: "keeps counters (holding_buf b)" for b by (auto simp: keeps_def holding_buf_def outcome_simps)
  have l: "keeps counters (lock_buf b)" for b by (auto simp: keeps_def lock_buf_def outcome_simps)
  have g: "keeps counters (bget dev n)" for dev n
    using l by (fastforce simp: keeps_def bget_def outcome_simps split: option.splits)
  note k = keeps_kbind keeps_kseq keeps_basic keeps_if
  show "keeps counters (bread dev n)" unfolding bread_def by (intro k g rw keeps_kmod) simp
  show "keeps counters (bwrite b)" unfolding bwrite_def by (intro k h rw)
  show "keeps counters (brelse b)" unfolding brelse_def by (intro k h keeps_kmod) (simp add: Let_def)
  show "keeps counters (bpin b)" "keeps counters (bunpin b)" "keeps counters (set_data b f)" "keeps counters (get_data b)"
    by (simp_all add: bpin_def bunpin_def set_data_def get_data_def keeps_kmod keeps_basic)
qed

lemma keeps_commit_parts [keeps_intros]:
  "keeps counters write_log" "keeps counters write_head" "keeps counters (install_trans r)"
  unfolding write_log_def log_one_def write_head_def install_trans_def install_one_def split_def
  by (intro keeps_intros)+

lemma commit_counters:
  assumes "commit s = Ok (x, t)"
  shows "counters t = (if 0 < lh_n s then 0 else lh_n s, lg_outstanding s, lg_committing s, lg_size s)"
proof (cases "0 < lh_n s")
  case False
  then show ?thesis using assms by (simp add: commit_def counters_def)
next
  case True
  then obtain t1 t2 t3 where 1: "write_log s = Ok ((), t1)" "write_head t1 = Ok ((), t2)"
      "install_trans False t2 = Ok ((), t3)" "write_head (t3\<lparr>lh_n := 0\<rparr>) = Ok (x, t)"
    using assms by (auto simp: commit_def kseq_def kbind_def outcome_simps)
  have k: "counters b = counters a" if "keeps counters m" "m a = Ok (y, b)" for m :: "('a lstate_scheme, 'b) kop" and a b y
    using that by (simp add: keeps_def)
  have "counters t3 = counters s"
    using k [OF keeps_commit_parts(1) 1(1)] k [OF keeps_commit_parts(2) 1(2)] k [OF keeps_commit_parts(3) 1(3)] by simp
  moreover have "counters t = counters (t3\<lparr>lh_n := 0\<rparr>)" by (rule k [OF keeps_commit_parts(2) 1(4)])
  ultimately have "counters t3 = counters s" "counters t = counters (t3\<lparr>lh_n := 0\<rparr>)" .
  then show ?thesis using True by (simp add: counters_def)
qed

text \<open>
  Every operation between its \<open>begin_op\<close> and its \<open>end_op\<close> has a budget of blocks that it may still
  write; \<open>budgets\<close> lists them. The log has room for all budgets.
\<close>

definition reserved :: "nat list \<Rightarrow> 'z lstate_scheme \<Rightarrow> bool" where
  "reserved budgets s \<longleftrightarrow> \<not> lg_committing s \<and> lg_outstanding s = int (length budgets) \<and> 0 \<le> lh_n s \<and>
     lh_n s + int (sum_list budgets) \<le> int LOGSIZE \<and> (\<forall>u\<in>set budgets. u \<le> MAXOPBLOCKS)"

inductive tx_step :: "nat list \<times> 'z lstate_scheme \<Rightarrow> nat list \<times> 'z lstate_scheme \<Rightarrow> bool" where
  tx_begin: "begin_op s = Ok ((), t) \<Longrightarrow> tx_step (us, s) (MAXOPBLOCKS # us, t)"
| tx_write: "i < length us \<Longrightarrow> 0 < us ! i \<Longrightarrow> log_write b s = Ok ((), t) \<Longrightarrow> tx_step (us, s) (us[i := us ! i - 1], t)"
| tx_end: "i < length us \<Longrightarrow> end_op s = Ok ((), t) \<Longrightarrow> tx_step (us, s) (take i us @ drop (Suc i) us, t)"

inductive_cases tx_stepE: "tx_step (us, s) (us', t)"

lemma begin_op_reserves:
  assumes "begin_op s = Ok ((), t)" "reserved us s"
  shows "reserved (MAXOPBLOCKS # us) t \<and> lg_size t = lg_size s"
proof -
  have "t = s\<lparr>lg_outstanding := lg_outstanding s + 1\<rparr>"
      "lh_n s + (lg_outstanding s + 1) * int MAXOPBLOCKS \<le> int LOGSIZE" "\<not> lg_committing s"
    using assms(1) by (auto simp: begin_op_def split: if_splits)
  moreover have "sum_list us \<le> length us * MAXOPBLOCKS"
    using assms(2) sum_list_mono [of us "\<lambda>u. u" "\<lambda>_. MAXOPBLOCKS"] by (simp add: reserved_def sum_list_triv)
  then have "int (sum_list us) \<le> int (length us) * int MAXOPBLOCKS" by (metis of_nat_le_iff of_nat_mult)
  ultimately show ?thesis using assms(2) by (auto simp: reserved_def algebra_simps)
qed

lemma log_write_counters:
  assumes "log_write b s = Ok ((), t)"
  shows "counters t = counters s \<or> counters t = (lh_n s + 1, lg_outstanding s, lg_committing s, lg_size s)"
  using assms by (auto simp: log_write_def Let_def bpin_def counters_def upd_b_def kseq_def kbind_def split: if_splits)

lemma log_write_reserved:
  assumes w: "log_write b s = Ok ((), t)" and r: "reserved us s" and i: "i < length us" "0 < us ! i"
  shows "reserved (us[i := us ! i - 1]) t \<and> lg_size t = lg_size s"
proof -
  have "us ! i \<le> sum_list us" using i by (simp add: elem_le_sum_list)
  then have s: "sum_list (us[i := us ! i - 1]) + 1 = sum_list us" using i by (simp add: sum_list_update)
  have m: "\<forall>u\<in>set (us[i := us ! i - 1]). u \<le> MAXOPBLOCKS"
  proof
    fix u
    assume "u \<in> set (us[i := us ! i - 1])"
    then have "u \<in> insert (us ! i - 1) (set us)" using set_update_subset_insert by fast
    then show "u \<le> MAXOPBLOCKS" using r nth_mem [OF i(1)] by (fastforce simp: reserved_def)
  qed
  show ?thesis using log_write_counters [OF w] s m r by (auto simp: reserved_def counters_def)
qed

lemma end_op_reserved:
  assumes e: "end_op s = Ok ((), t)" and r: "reserved us s" and i: "i < length us"
  shows "reserved (take i us @ drop (Suc i) us) t \<and> lg_size t = lg_size s"
proof -
  let ?s = "s\<lparr>lg_outstanding := lg_outstanding s - 1\<rparr>"
  have "us = take i us @ us ! i # drop (Suc i) us" using i by (rule id_take_nth_drop)
  then have s: "sum_list (take i us @ drop (Suc i) us) \<le> sum_list us"
    by (metis sum_list.append sum_list.Cons add_le_mono le_add2 order_refl)
  have m: "\<forall>u\<in>set (take i us @ drop (Suc i) us). u \<le> MAXOPBLOCKS"
    using r by (auto simp: reserved_def dest: in_set_takeD in_set_dropD)
  have l: "length (take i us @ drop (Suc i) us) = length us - 1" using i by simp
  show ?thesis
  proof (cases "lg_outstanding ?s = 0")
    case False
    then have "t = ?s" using e r by (simp add: end_op_def reserved_def)
    then show ?thesis using r s m l i by (auto simp: reserved_def)
  next
    case True
    then obtain u where u: "commit (?s\<lparr>lg_committing := True\<rparr>) = Ok ((), u)" "t = u\<lparr>lg_committing := False\<rparr>"
      using e r by (auto simp: end_op_def reserved_def kseq_def kbind_def outcome_simps)
    have "lh_n t \<le> lh_n s \<and> 0 \<le> lh_n t \<and> lg_outstanding t = lg_outstanding s - 1 \<and> \<not> lg_committing t \<and> lg_size t = lg_size s"
      using commit_counters [OF u(1)] u(2) r by (auto simp: counters_def reserved_def split: if_splits)
    then show ?thesis using r s m l i by (auto simp: reserved_def)
  qed
qed

lemma tx_steps_reserved:
  assumes "tx_step\<^sup>*\<^sup>* c d"
  shows "reserved (fst c) (snd c) \<Longrightarrow> reserved (fst d) (snd d) \<and> lg_size (snd d) = lg_size (snd c)"
  using assms
proof (induction rule: rtranclp_induct)
  case base
  then show ?case by simp
next
  case (step d e)
  obtain us s us' t where d: "d = (us, s)" "e = (us', t)" by (cases d, cases e) auto
  then have "tx_step (us, s) (us', t)" "reserved us s" "lg_size s = lg_size (snd c)" using step by simp_all
  then have "reserved us' t \<and> lg_size t = lg_size s"
  proof (elim tx_stepE, goal_cases)
    case 1
    then show ?case using begin_op_reserves [OF 1(4,1)] by simp
  next
    case (2 i b)
    then show ?case using log_write_reserved [OF 2(6,1,4,5)] by simp
  next
    case (3 i)
    then show ?case using end_op_reserved [OF 3(5,1,4)] by simp
  qed
  then show ?case using d \<open>lg_size s = lg_size (snd c)\<close> by simp
qed

text \<open>
  C16: whatever the interleaving of \<open>begin_op\<close>, \<open>log_write\<close> and \<open>end_op\<close> of several system calls, as long
  as each call writes at most \<open>MAXOPBLOCKS\<close> blocks, no \<open>log_write\<close> panics because the transaction
  has become too big, provided that the log on disk has more than \<open>LOGSIZE\<close> blocks; and the
  transaction never has more than \<open>LOGSIZE\<close> blocks.
\<close>

theorem log_space_is_reserved:
  assumes "reserved [] s" and "tx_step\<^sup>*\<^sup>* ([], s) (us, t)" and "int LOGSIZE < sint (lg_size s)"
    and "i < length us" "0 < us ! i"
  shows "lh_n t \<le> int LOGSIZE \<and> (\<exists>t'. log_write b t = Ok ((), t'))"
proof -
  have r: "reserved us t" "lg_size t = lg_size s" using tx_steps_reserved [OF assms(2)] assms(1) by simp_all
  have "us ! i \<le> sum_list us" using assms(4) by (simp add: elem_le_sum_list)
  then have "lh_n t < int LOGSIZE" "1 \<le> lg_outstanding t" using r(1) assms(4,5) by (auto simp: reserved_def)
  then show ?thesis using r(2) assms(3)
    by (auto simp: log_write_def Let_def bpin_def kseq_def kbind_def)
qed

theorem log_space_is_reserved_witness:
  "\<exists>s t u :: lstate. begin_op s = Ok ((), t) \<and> lh_n t \<le> int LOGSIZE \<and> log_write 0 t = Ok ((), u)"
proof -
  let ?s = "(demo_boot demo_disk)\<lparr>lg_size := 31\<rparr>" let ?t = "?s\<lparr>lg_outstanding := 1\<rparr>"
  have b: "begin_op ?s = Ok ((), ?t)" by (simp add: begin_op_def LOGSIZE_def MAXOPBLOCKS_def)
  have "tx_step\<^sup>*\<^sup>* ([], ?s) ([MAXOPBLOCKS], ?t)" using tx_begin [OF b, of "[]"] by blast
  then have "lh_n ?t \<le> int LOGSIZE \<and> (\<exists>u. log_write 0 ?t = Ok ((), u))"
    by (intro log_space_is_reserved [of ?s "[MAXOPBLOCKS]" ?t 0])
      (simp_all add: reserved_def LOGSIZE_def MAXOPBLOCKS_def)
  then show ?thesis using b by blast
qed

section \<open>The log that \<open>mkfs\<close> makes\<close>

text \<open>Three operations have begun; the buffers hold different blocks, \<open>k\<close> of them have been logged.\<close>

definition demo_filled :: "nat \<Rightarrow> lstate" where
  "demo_filled k = (demo_boot demo_disk)
     \<lparr>bcache := (\<lambda>b. zero_buf\<lparr>b_blockno := of_nat b + 100, b_refcnt := (if b < k then 2 else 1)\<rparr>),
      lg_outstanding := 3, lh_n := int k, lh_block := (\<lambda>i. if i < k then of_nat i + 100 else 0)\<rparr>"

definition demo_budget :: "nat \<Rightarrow> nat list" where
  "demo_budget k = [10 - min 10 k, 10 - min 10 (k - 10), 10 - min 10 (k - 20)]"

lemma demo_absorb: "k < 30 \<Longrightarrow> absorb k (\<lambda>i. if i < k then of_nat i + 100 else 0) (of_nat k + 100 :: u32) 0 = k"
proof -
  assume k: "k < 30"
  let ?blk = "\<lambda>i. if i < k then of_nat i + 100 else 0 :: u32"
  have "?blk j \<noteq> of_nat k + 100" if "j < k" for j
    using that k of_nat_inj32 [of j k] by simp
  then show ?thesis using absorb_spec [of 0 k ?blk "of_nat k + 100"] by (auto intro: le_antisym)
qed

lemma demo_filled_step: "k < 29 \<Longrightarrow> tx_step (demo_budget k, demo_filled k) (demo_budget (Suc k), demo_filled (Suc k))"
proof -
  assume k: "k < 29"
  have "log_write k (demo_filled k) = Ok ((), demo_filled (Suc k))"
    using k demo_absorb [of k]
    by (simp add: log_write_def demo_filled_def Let_def bpin_def upd_b_def LOGSIZE_def MAXOPBLOCKS_def fun_eq_iff)
  moreover have "k div 10 < length (demo_budget k)" "0 < demo_budget k ! (k div 10)"
    "demo_budget (Suc k) = (demo_budget k)[k div 10 := demo_budget k ! (k div 10) - 1]"
    using k by (auto simp: demo_budget_def nth_Cons' list_update.simps split: nat.split)
  ultimately show ?thesis using tx_write [of "k div 10" "demo_budget k" k "demo_filled k"] by simp
qed

lemma demo_filled_steps: "k \<le> 29 \<Longrightarrow> tx_step\<^sup>*\<^sup>* (demo_budget 0, demo_filled 0) (demo_budget k, demo_filled k)"
proof (induction k)
  case (Suc k)
  then show ?case using demo_filled_step [of k] by (meson Suc_le_lessD Suc_leD rtranclp.rtrancl_into_rtrancl)
qed simp

text \<open>
  C17: the file system that \<open>mkfs\<close> makes gives the log \<open>LOGSIZE\<close> blocks, one of them the header. Then operations
  that keep to their budgets can still meet a full log, and \<open>log_write\<close> panics: the condition on the size of
  the log in the property above is necessary.
\<close>

theorem mkfs_log_is_one_block_short:
  "\<exists>us (s :: lstate) t b. reserved [] s \<and> lg_size s = of_nat LOGSIZE \<and> tx_step\<^sup>*\<^sup>* ([], s) (us, t) \<and>
     0 < sum_list us \<and> log_write b t = Panic ''too big a transaction''"
proof -
  let ?s = "\<lambda>n. (demo_filled 0)\<lparr>lg_outstanding := n\<rparr>"
  have l: "lh_n (demo_filled 0) = 0" "\<not> lg_committing (demo_filled 0)" by (simp_all add: demo_filled_def)
  have b: "tx_step (us, ?s n) (MAXOPBLOCKS # us, ?s (n + 1))" if "n \<le> 2" for us n
    using tx_begin [of "?s n" "?s (n + 1)" us] that l by (simp add: begin_op_def LOGSIZE_def MAXOPBLOCKS_def)
  have "tx_step\<^sup>*\<^sup>* ([], ?s 0) (demo_budget 0, ?s 3)"
    using b [of 0 "[]"] b [of 1 "[MAXOPBLOCKS]"] b [of 2 "[MAXOPBLOCKS, MAXOPBLOCKS]"]
    by (simp add: demo_budget_def MAXOPBLOCKS_def)
  moreover have "?s 3 = demo_filled 0" by (simp add: demo_filled_def)
  ultimately have "tx_step\<^sup>*\<^sup>* ([], ?s 0) (demo_budget 29, demo_filled 29)"
    using demo_filled_steps [of 29] by simp
  moreover have "reserved [] (?s 0)" using l by (simp add: reserved_def LOGSIZE_def)
  moreover have "lg_size (?s 0) = of_nat LOGSIZE" by (simp add: demo_filled_def LOGSIZE_def MAXOPBLOCKS_def)
  moreover have "log_write 29 (demo_filled 29) = Panic ''too big a transaction''"
    by (simp add: log_write_def demo_filled_def LOGSIZE_def MAXOPBLOCKS_def)
  moreover have "0 < sum_list (demo_budget 29)" by (simp add: demo_budget_def)
  ultimately show ?thesis by blast
qed

end
