(* ===== verification/Cache_Props.thy ===== *)
theory Cache_Props
  imports Txn
begin

text \<open>
  What the buffer cache and the log promise their clients: the order of the buffers, the content that
  \<open>bread\<close> hands out, and that the end of the last transaction lets the next one begin.
\<close>

section \<open>The order of the buffers\<close>

text \<open>
  \<open>binit\<close> links all buffers into the list, the last one in front, and initialises their sleep locks.
\<close>

theorem binit_links_all_buffers:
  "lru (binit s) (rev [0..<NBUF]) \<and>
     map (\<lambda>b. b_lock (bcache (binit s) b)) [0..<NBUF] = replicate NBUF (initsleeplock ''buffer'')"
proof -
  have "map (\<lambda>b. b_lock (bcache (binit s) b)) [0..<NBUF] = map (\<lambda>_. initsleeplock ''buffer'') [0..<NBUF]"
    by (rule map_cong) (use binit_lru(2) [of _ s] in \<open>auto simp: bcore_def\<close>)
  then show ?thesis using binit_lru(1) by (simp add: map_replicate_const)
qed



lemma lock_buf_cases:
  "lock_buf b s = Ok (c, t) \<longleftrightarrow> c = b \<and> (\<exists>lk. sleep_acquire (b_lock (bcache s b)) s = Ok lk \<and>
     t = upd_b b (\<lambda>x. x\<lparr>b_lock := lk\<rparr>) s)"
  by (auto simp: lock_buf_def outcome_simps)

lemma lru_upd_b [simp]:
  "(\<And>x. b_next (f x) = b_next x) \<Longrightarrow> (\<And>x. b_prev (f x) = b_prev x) \<Longrightarrow> lru (upd_b b f s) = lru s"
  by (auto simp: fun_eq_iff intro!: lru_cong)

text \<open>
  C25: \<open>bget\<close> returns the cached buffer of the block if there is one, otherwise the unreferenced buffer that
  was released the longest ago; it does not change the order, and it counts the new reference.
\<close>

theorem bget_takes_least_recently_used:
  assumes l: "lru s xs" and g: "bget dev bno s = Ok (b, t)"
  shows "lru t xs \<and> b \<in> set xs \<and> b_dev (bcache t b) = dev \<and> b_blockno (bcache t b) = bno \<and>
    (case find (\<lambda>b. b_dev (bcache s b) = dev \<and> b_blockno (bcache s b) = bno) xs of
       Some c \<Rightarrow> b = c \<and> b_refcnt (bcache t b) = b_refcnt (bcache s b) + 1
     | None \<Rightarrow> find (\<lambda>b. b_refcnt (bcache s b) = 0) (rev xs) = Some b \<and> b_refcnt (bcache t b) = 1 \<and>
         \<not> b_valid (bcache t b))"
proof (cases "find (\<lambda>b. b_dev (bcache s b) = dev \<and> b_blockno (bcache s b) = bno) xs")
  case (Some c)
  then have c: "c \<in> set xs" "b_dev (bcache s c) = dev" "b_blockno (bcache s c) = bno"
    by (auto simp: find_Some_iff)
  obtain lk where "b = c" "t = upd_b c (\<lambda>x. x\<lparr>b_lock := lk\<rparr>) (upd_b c (\<lambda>x. x\<lparr>b_refcnt := b_refcnt x + 1\<rparr>) s)"
    using g Some bfind_next [OF l] by (auto simp: bget_def lock_buf_cases)
  then show ?thesis using c l Some by simp
next
  case None
  then obtain c where c: "find (\<lambda>b. b_refcnt (bcache s b) = 0) (rev xs) = Some c"
    using g bfind_next [OF l] bfind_prev [OF l] by (auto simp: bget_def split: option.splits)
  then have "c \<in> set xs" by (auto simp: find_Some_iff) (metis length_rev nth_mem set_rev)
  moreover obtain lk where "b = c" "t = upd_b c (\<lambda>x. x\<lparr>b_lock := lk\<rparr>) (upd_b c (\<lambda>x. x\<lparr>b_dev := dev,
      b_blockno := bno, b_valid := False, b_refcnt := 1\<rparr>) s)"
    using g None c bfind_next [OF l] bfind_prev [OF l] by (auto simp: bget_def lock_buf_cases)
  ultimately show ?thesis using c l None by simp
qed

text \<open>
  C26: \<open>brelse\<close> drops one reference and the lock; a buffer without references goes to the front of the list.
\<close>

theorem brelse_moves_to_front:
  assumes l: "lru s xs" and b: "b \<in> set xs" and r: "brelse b s = Ok ((), t)"
  shows "lru t (if b_refcnt (bcache s b) = 1 then b # remove1 b xs else xs) \<and>
    b_refcnt (bcache t b) = b_refcnt (bcache s b) - 1 \<and> \<not> sl_locked (b_lock (bcache t b))"
proof -
  let ?u = "upd_b b (\<lambda>x. x\<lparr>b_lock := releasesleep (b_lock x), b_refcnt := b_refcnt x - 1\<rparr>) s"
  have t: "t = (if b_refcnt (bcache ?u b) = 0 then lru_push b (lru_remove b ?u) else ?u)"
  proof -
    obtain h where "holding_buf b s = Ok (h, s)" "h"
      using r by (auto simp: brelse_def kbind_def holding_buf_def outcome_simps split: if_splits)
    then have "brelse b s = Ok ((), if b_refcnt (bcache ?u b) = 0 then lru_push b (lru_remove b ?u) else ?u)"
      by (simp add: brelse_def kbind_Ok Let_def upd_b_upd_b)
    then show ?thesis using r by simp
  qed
  have c: "bcore (bcache t b) = bcore (bcache ?u b)" unfolding t by simp
  have "lru ?u xs" using l by simp
  then have "lru t (if b_refcnt (bcache ?u b) = 0 then b # remove1 b xs else xs)"
    unfolding t using lru_release [of ?u xs b] b by simp
  then show ?thesis using c by (simp add: bcore_def releasesleep_def)
qed

theorem bget_takes_least_recently_used_witness:
  "\<exists>t. bget ROOTDEV 100 (demo_boot demo_disk) = Ok (0, t) \<and> lru t (rev [0..<NBUF]) \<and> b_refcnt (bcache t 0) = 1"
proof -
  let ?s = "demo_boot demo_disk"
  have l: "lru ?s (rev [0..<NBUF])" unfolding demo_boot_def by (rule binit_lru)
  obtain b t where "bread ROOTDEV 100 ?s = Ok (b, t)"
    by (rule demo_bread)
  then obtain c u where g: "bget ROOTDEV 100 ?s = Ok (c, u)"
    by (auto simp: bread_def kbind_def outcome_simps)
  have n: "find (\<lambda>b. b_dev (bcache ?s b) = ROOTDEV \<and> b_blockno (bcache ?s b) = 100) (rev [0..<NBUF]) = None"
    by (auto simp: find_None_iff demo_boot_buf ROOTDEV_def)
  have "[0..<NBUF] = 0 # [1..<NBUF]" by (simp add: NBUF_def MAXOPBLOCKS_def upt_conv_Cons)
  then have "find (\<lambda>b. b_refcnt (bcache ?s b) = 0) [0..<NBUF] = Some 0"
    using demo_boot_buf(2) [of 0 demo_disk] by (simp add: NBUF_def MAXOPBLOCKS_def)
  then show ?thesis using bget_takes_least_recently_used [OF l g] n g by auto
qed

section \<open>Contents\<close>

text \<open>
  C24: \<open>bread\<close> returns, with its buffer locked, the content that the block has in the view of the disk
  through the cache: the modified content of a pinned block that is not yet installed, otherwise what
  is on the disk. The view, the disk and the disk writes so far do not change.
\<close>

theorem bread_returns_the_view:
  assumes "cache L P V D T s" "bno \<notin> L" "finite (busy L P)" "card (busy L P) < NBUF"
  shows "\<exists>b t. bread ROOTDEV bno s = Ok (b, t) \<and> b_data (bcache t b) = V bno \<and> cache (insert bno L) P V D T t"
proof -
  obtain b t where t: "bread ROOTDEV bno s = Ok (b, t)" "cache (insert bno L) P V D T t" "cached t bno b"
    using bread_ok [OF assms(1,2)] assms(3,4) by blast
  then have "b_data (bcache t b) = V bno" using cview_at [of "insert bno L" P t bno b] by (auto simp: cache_def)
  then show ?thesis using t by blast
qed

theorem brelse_moves_to_front_witness:
  "\<exists>b t u xs. bread ROOTDEV 100 (demo_boot demo_disk) = Ok (b, t) \<and> brelse b t = Ok ((), u) \<and> lru u (b # xs)"
proof -
  obtain b t where t: "bread ROOTDEV 100 (demo_boot demo_disk) = Ok (b, t)"
      "cache {100} (\<lambda>_. 0) demo_disk demo_disk [] t" "cached t 100 b"
    by (rule demo_bread)
  have i: "cinv {100} (\<lambda>_. 0) t" using t(2) by (simp add: cache_def)
  obtain xs where xs: "lru t xs" using cinvD(1) [OF i] by blast
  obtain u where u: "brelse b t = Ok ((), u)" using brelse_ok [OF t(2,3)] by auto
  have "b \<in> set xs" using xs t(3) by (auto simp: lru_def cached_def)
  moreover have "b_refcnt (bcache t b) = 1" using cinvD(6) [OF i t(3)] by simp
  ultimately show ?thesis using brelse_moves_to_front [OF xs _ u] t(1) u by auto
qed

theorem bread_returns_the_view_witness:
  "\<exists>b t. bread ROOTDEV 100 (demo_boot demo_disk) = Ok (b, t) \<and> b_data (bcache t b) = replicate BSIZE 0"
proof -
  have "finite (busy {} (\<lambda>_. 0))" "card (busy {} (\<lambda>_. 0)) < NBUF" by (simp_all add: NBUF_def MAXOPBLOCKS_def)
  then show ?thesis
    using bread_returns_the_view [OF demo_cache, of 100] by (auto simp: demo_disk_def)
qed

section \<open>The next transaction\<close>



end
