(* ===== verification/Fs_Codec.thy ===== *)
theory Fs_Codec
  imports Codec
begin

text \<open>
  The on-disk structures survive being written and read back, the free map is a set of bits, and
  \<open>skipelem\<close> splits a path at its slashes.
\<close>

section \<open>Inodes and directory entries\<close>

lemma take_drop_chunk:
  "length (concat (map f xs)) = n * length xs \<Longrightarrow> (\<And>x. length (f x) = n) \<Longrightarrow> k < length xs \<Longrightarrow>
     take n (drop (n * k) (concat (map f xs))) = f (xs ! k)"
proof (induction xs arbitrary: k)
  case Nil
  then show ?case by simp
next
  case (Cons x xs)
  have "length (concat (map f xs)) = n * length xs" using Cons.prems(2) by (simp add: length_concat comp_def sum_list_triv)
  then show ?case using Cons by (cases k) auto
qed

lemma get_word_append:
  "length xs = off \<Longrightarrow> take n (drop (off + k) (xs @ ys)) = take n (drop k ys)"
  by simp

lemma dinode_of_bytes_of_dinode:
  assumes "length (d_addrs di) = NDIRECT + 1"
  shows "dinode_of_bytes (bytes_of_dinode di @ rest) = di"
proof -
  let ?b = "bytes_of_dinode di" let ?a = "concat (map (bytes_of_word 4) (d_addrs di)) :: u8 list"
  have l: "length ?a = 4 * length (d_addrs di)" by (simp add: length_concat comp_def sum_list_triv)
  have a: "take 4 (drop (12 + 4 * k) (?b @ rest)) = bytes_of_word 4 (d_addrs di ! k)" if "k < NDIRECT + 1" for k
  proof -
    have "take 4 (drop (12 + 4 * k) (?b @ rest)) = take 4 (drop (4 * k) (?a @ rest))"
      by (simp add: bytes_of_dinode_def)
    also have "\<dots> = take 4 (drop (4 * k) ?a)" using that l assms by (simp add: NDIRECT_def)
    also have "\<dots> = bytes_of_word 4 (d_addrs di ! k)" using take_drop_chunk [of "bytes_of_word 4" "d_addrs di" 4 k] l that assms by simp
    finally show ?thesis .
  qed
  then have "get32 (?b @ rest) (12 + 4 * k) = d_addrs di ! k" if "k < NDIRECT + 1" for k
    using that by (simp add: get32_def del: take_append drop_append)
  then have "map (\<lambda>k. get32 (?b @ rest) (12 + 4 * k)) [0..<NDIRECT + 1] = d_addrs di"
    by (intro nth_equalityI) (use assms in \<open>auto simp del: upt_Suc\<close>)
  then show ?thesis
    by (simp add: dinode_of_bytes_def) (simp add: bytes_of_dinode_def get16_def get32_def)
qed

lemma length_bytes_of_dinode: "length (d_addrs di) = NDIRECT + 1 \<Longrightarrow> length (bytes_of_dinode di) = dinode_size"
  by (simp add: bytes_of_dinode_def length_concat comp_def sum_list_triv dinode_size_def NDIRECT_def)

lemma dinode_off_bound: "dinode_off i + dinode_size \<le> BSIZE"
proof -
  have "unat (i mod IPB) < 16" by (simp add: IPB_def unat_mod)
  then show ?thesis by (simp add: dinode_off_def dinode_size_def BSIZE_def)
qed

lemma dinode_of_take: "dinode_of_bytes d = dinode_of_bytes (take dinode_size d)"
  by (simp add: dinode_of_bytes_def get16_def get32_def dinode_size_def NDIRECT_def drop_take min_def)

text \<open>
  an inode written by \<open>iupdate\<close> into its slot of an inode block is read back by \<open>ilock\<close>, and the inodes
  in the other slots of the block keep their content.
\<close>

theorem dinode_roundtrip:
  assumes "length d = BSIZE" "length (d_addrs di) = NDIRECT + 1" "j mod IPB \<noteq> i mod IPB"
  shows "dinode_of_bytes (drop (dinode_off i) (put_bytes (dinode_off i) (bytes_of_dinode di) d)) = di \<and>
    dinode_of_bytes (drop (dinode_off j) (put_bytes (dinode_off i) (bytes_of_dinode di) d)) =
      dinode_of_bytes (drop (dinode_off j) d)"
proof -
  let ?p = "put_bytes (dinode_off i) (bytes_of_dinode di) d"
  note l = length_bytes_of_dinode [OF assms(2)]
  note b = dinode_off_bound [of i] dinode_off_bound [of j]
  have "drop (dinode_off i) ?p = bytes_of_dinode di @ drop (dinode_off i + dinode_size) d"
    using b assms(1) l by (simp add: put_bytes_def)
  then have 1: "dinode_of_bytes (drop (dinode_off i) ?p) = di" by (simp add: dinode_of_bytes_of_dinode [OF assms(2)])
  have "unat (j mod IPB) \<noteq> unat (i mod IPB)" using assms(3) by (simp add: unsigned_word_eqI word_unat_eq_iff)
  then have "dinode_off j + dinode_size \<le> dinode_off i \<or> dinode_off i + dinode_size \<le> dinode_off j"
    by (auto simp: dinode_off_def dinode_size_def)
  then have "take dinode_size (drop (dinode_off j) ?p) = take dinode_size (drop (dinode_off j) d)"
    using field_put_before [of "dinode_off j" dinode_size "dinode_off i" d "bytes_of_dinode di"]
      field_put_after [of "dinode_off i" "bytes_of_dinode di" "dinode_off j" d dinode_size] l assms(1) b by auto
  then have "dinode_of_bytes (drop (dinode_off j) ?p) = dinode_of_bytes (drop (dinode_off j) d)"
    using dinode_of_take by metis
  with 1 show ?thesis by blast
qed

theorem dinode_roundtrip_witness:
  "let di = \<lparr>d_type = T_FILE, d_major = 0, d_minor = 0, d_nlink = 1, d_size = 5, d_addrs = [46, 0, 0, 0, 0, 0, 0, 0, 0, 0, 0, 0, 0]\<rparr>
   in dinode_of_bytes (drop (dinode_off 3) (put_bytes (dinode_off 3) (bytes_of_dinode di) (replicate BSIZE 0))) = di"
  unfolding Let_def
  by (rule dinode_roundtrip [THEN conjunct1, of _ _ 4]) (simp_all add: NDIRECT_def IPB_def)

definition linked_entry :: "u8 list \<Rightarrow> u32 \<Rightarrow> dirent" where
  "linked_entry name inum = \<lparr>de_inum = ucast inum, de_name = map (strncpy (\<lambda>_. 0) (cstr_of name) (int DIRSIZ)) [0..<DIRSIZ]\<rparr>"

lemma str_of_nth_eq: "(\<And>i. i < n \<Longrightarrow> s i = t i) \<Longrightarrow> str_of s n = str_of t n"
proof -
  assume "\<And>i. i < n \<Longrightarrow> s i = t i"
  then have "map s [0..<n] = map t [0..<n]" by simp
  then show ?thesis unfolding str_of_def by (rule arg_cong)
qed

lemma str_of_strncpy: "str_of (strncpy d s (int n)) n = str_of s n"
proof -
  have "strncpy d s (int n) x = (if \<exists>j<x. s j = 0 then 0 else s x)" if "x < n" for x
    using that by (simp add: strncpy_def strncpy_loop_apply atLeast0LessThan Bex_def)
  then have "str_of (strncpy d s (int n)) n = str_of (\<lambda>x. if \<exists>j<x. s j = 0 then 0 else s x) n"
    by (intro str_of_nth_eq) simp
  also have "\<dots> = str_of s n"
  proof (induction n arbitrary: s)
    case 0
    then show ?case by simp
  next
    case (Suc n)
    show ?case
    proof (cases "s 0 = 0")
      case True
      then show ?thesis by (simp add: str_of_Suc)
    next
      case False
      have e: "incr (\<lambda>x. if \<exists>j<x. s j = 0 then 0 else s x) = (\<lambda>x. if \<exists>j<x. incr s j = 0 then 0 else incr s x)"
        using False by (auto simp: fun_eq_iff less_Suc_eq_0_disj)
      show ?thesis unfolding str_of_Suc e Suc using False by simp
    qed
  qed
  finally show ?thesis .
qed

text \<open>
  the entry that \<open>dirlink\<close> writes for a name decodes to the inode number and a name field that
  \<open>namecmp\<close> finds equal to exactly the names with the same first \<open>DIRSIZ\<close> bytes, up to a NUL; also when
  the field is full and has no terminator.
\<close>

theorem linked_entry_is_found:
  "dirent_of_bytes (bytes_of_dirent (linked_entry name inum)) = linked_entry name inum \<and>
    (namecmp other (de_name (linked_entry name inum)) = 0) =
      (str_of (cstr_of other) DIRSIZ = str_of (cstr_of name) DIRSIZ)"
proof -
  have "str_of (cstr_of (de_name (linked_entry name inum))) DIRSIZ =
      str_of (strncpy (\<lambda>_. 0) (cstr_of name) (int DIRSIZ)) DIRSIZ"
    by (rule str_of_nth_eq) (simp add: cstr_of_def linked_entry_def)
  then have "str_of (cstr_of (de_name (linked_entry name inum))) DIRSIZ = str_of (cstr_of name) DIRSIZ"
    by (simp add: str_of_strncpy)
  moreover have "length (de_name (linked_entry name inum)) = DIRSIZ" by (simp add: linked_entry_def)
  ultimately show ?thesis
    by (simp add: namecmp_def strncmp_0_iff dirent_of_bytes_def bytes_of_dirent_def get16_def)
qed

text \<open>
  the log header that \<open>write_head\<close> encodes is the one \<open>read_head\<close> decodes: the count and every block
  number.
\<close>

theorem log_header_roundtrip:
  assumes "0 \<le> n" "n \<le> int LOGSIZE" "length d = BSIZE"
  shows "let h = header_bytes n blk d
    in sint (get32 h 0) = n \<and> map (\<lambda>i. get32 h (4 + 4 * i)) [0..<nat n] = map blk [0..<nat n] \<and> length h = BSIZE"
  using header_fields [OF assms, where blk = blk] by (auto simp: Let_def zless_nat_eq_int_zless)

theorem log_header_roundtrip_witness:
  "let h = header_bytes 2 (\<lambda>i. of_nat i + 45) (replicate BSIZE 0)
   in sint (get32 h 0) = 2 \<and> map (\<lambda>i. get32 h (4 + 4 * i)) [0..<nat 2] = [45, 46]"
  using log_header_roundtrip [of 2 "replicate BSIZE 0" "\<lambda>i. of_nat i + 45"]
  by (simp add: LOGSIZE_def MAXOPBLOCKS_def Let_def numeral_2_eq_2 upt_rec)

section \<open>The free map\<close>

definition in_use :: "block \<Rightarrow> nat set" where
  "in_use d = {bi. bi < BPB \<and> \<not> bit_clear d bi}"

lemma bit_clear_iff: "bi div 8 < length d \<Longrightarrow> bit_clear d bi \<longleftrightarrow> \<not> bit (d ! (bi div 8)) (bi mod 8)"
proof -
  have "(d ! (bi div 8) AND push_bit (bi mod 8) 1 = 0) \<longleftrightarrow> \<not> bit (d ! (bi div 8)) (bi mod 8)"
  proof
    assume z: "d ! (bi div 8) AND push_bit (bi mod 8) 1 = 0"
    have "bit (d ! (bi div 8) AND push_bit (bi mod 8) 1) (bi mod 8) = bit (d ! (bi div 8)) (bi mod 8)"
      by (simp add: bit_simps)
    then show "\<not> bit (d ! (bi div 8)) (bi mod 8)" unfolding z by simp
  next
    assume "\<not> bit (d ! (bi div 8)) (bi mod 8)"
    then show "d ! (bi div 8) AND push_bit (bi mod 8) 1 = 0"
      by (intro bit_word_eqI) (auto simp: bit_simps)
  qed
  then show ?thesis by (simp add: bit_clear_def)
qed

lemma div_mod_8_eq: "a div 8 = b div 8 \<Longrightarrow> a mod 8 = b mod 8 \<Longrightarrow> a = (b :: nat)"
  by (metis div_mult_mod_eq)

lemma set_clear_bit:
  assumes "length d = BSIZE" "bi < BPB"
  shows "in_use (set_bit_at bi d) = insert bi (in_use d)" "in_use (clear_bit_at bi d) = in_use d - {bi}"
    "length (set_bit_at bi d) = BSIZE" "length (clear_bit_at bi d) = BSIZE"
proof -
  have i: "k div 8 < length d" if "k < BPB" for k using that assms(1) by (simp add: BPB_def BSIZE_def)
  have s: "bit_clear (set_bit_at bi d) k \<longleftrightarrow> k \<noteq> bi \<and> bit_clear d k" if "k < BPB" for k
    using i [OF that] i [OF assms(2)] div_mod_8_eq [of k bi]
    by (cases "k div 8 = bi div 8") (auto simp: bit_clear_iff set_bit_at_def bit_simps)
  have c: "bit_clear (clear_bit_at bi d) k \<longleftrightarrow> k = bi \<or> bit_clear d k" if "k < BPB" for k
    using i [OF that] i [OF assms(2)] div_mod_8_eq [of k bi]
    by (cases "k div 8 = bi div 8") (auto simp: bit_clear_iff clear_bit_at_def bit_simps)
  show "in_use (set_bit_at bi d) = insert bi (in_use d)" using s assms(2) by (auto simp: in_use_def)
  show "in_use (clear_bit_at bi d) = in_use d - {bi}" using c by (auto simp: in_use_def)
  show "length (set_bit_at bi d) = BSIZE" "length (clear_bit_at bi d) = BSIZE"
    using assms(1) by (simp_all add: set_bit_at_def clear_bit_at_def)
qed

section \<open>Path names\<close>

text \<open>A path is the list of its non-empty parts between slashes.\<close>

fun split_path :: "u8 list \<Rightarrow> u8 list \<Rightarrow> u8 list list" where
  "split_path part [] = [part]"
| "split_path part (c # cs) = (if c = slash then part # split_path [] cs else split_path (part @ [c]) cs)"

definition path_elems :: "u8 list \<Rightarrow> u8 list list" where
  "path_elems path = filter (\<lambda>e. e \<noteq> []) (split_path [] path)"

text \<open>The elements that the loop of \<open>namex\<close> goes through.\<close>

function skip_elems :: "u8 list \<Rightarrow> u8 list \<Rightarrow> u8 list list" where
  "skip_elems path name = (case skipelem path name of None \<Rightarrow> []
     | Some (path', name') \<Rightarrow> str_of (cstr_of name') DIRSIZ # skip_elems path' name')"
  by pat_completeness auto
termination
  by (relation "measure (\<lambda>(path, _). length path)") (auto dest: skipelem_shorter)

declare skip_elems.simps [simp del]

lemma split_path_elem: "slash \<notin> set e \<Longrightarrow> split_path part (e @ cs) = split_path (part @ e) cs"
  by (induction e arbitrary: part) auto

lemma split_path_nonempty: "split_path part cs \<noteq> []"
  by (induction part cs rule: split_path.induct) auto

lemma path_elems_slash: "path_elems (slash # cs) = path_elems cs"
  by (simp add: path_elems_def)

lemma path_elems_skip: "path_elems (dropWhile (\<lambda>c. c = slash) cs) = path_elems cs"
  by (induction cs) (auto simp: path_elems_slash)

lemma path_elems_elem:
  assumes "p \<noteq> []" "hd p \<noteq> slash"
  shows "path_elems p = takeWhile (\<lambda>c. c \<noteq> slash) p # path_elems (dropWhile (\<lambda>c. c \<noteq> slash) p)"
proof -
  let ?e = "takeWhile (\<lambda>c. c \<noteq> slash) p" let ?r = "dropWhile (\<lambda>c. c \<noteq> slash) p"
  have e: "slash \<notin> set ?e" "?e \<noteq> []" using assms set_takeWhileD by (fastforce, cases p, auto)
  have "split_path [] p = split_path ?e ?r" using split_path_elem [OF e(1), of "[]" ?r] by simp
  moreover have "split_path ?e ?r = ?e # tl (split_path [] ?r) \<and> hd (split_path [] ?r) = []"
  proof (cases "?r = []")
    case True
    show ?thesis unfolding True by simp
  next
    case False
    then have "?r = slash # tl ?r" using hd_dropWhile [OF False] by (metis list.collapse)
    then obtain cs where "?r = slash # cs" by blast
    then show ?thesis by simp
  qed
  moreover obtain x xs where x: "split_path [] ?r = x # xs" using split_path_nonempty by (cases "split_path [] ?r") auto
  ultimately have "split_path [] p = ?e # xs" "path_elems ?r = filter (\<lambda>e. e \<noteq> []) xs"
    by (simp_all add: path_elems_def)
  then show ?thesis using e(2) by (simp add: path_elems_def del: takeWhile_eq_Nil_iff)
qed

text \<open>
  C31: the loop of \<open>namex\<close> sees the parts of the path between its slashes, in order, each cut to \<open>DIRSIZ\<close>
  bytes; repeated, leading and trailing slashes make no difference.
\<close>

theorem skipelem_splits_at_slashes:
  assumes "length name = DIRSIZ" "0 \<notin> set path"
  shows "skip_elems path name = map (take DIRSIZ) (path_elems path)"
  using assms
proof (induction path name rule: skip_elems.induct)
  case (1 path name)
  let ?p = "dropWhile (\<lambda>c. c = slash) path"
  show ?case
  proof (cases "?p = []")
    case True
    have "path_elems path = path_elems []" using path_elems_skip [of path] unfolding True by simp
    then have "path_elems path = []" by (simp add: path_elems_def)
    then show ?thesis using True by (simp add: skip_elems.simps [of path] skipelem_def)
  next
    case False
    let ?e = "takeWhile (\<lambda>c. c \<noteq> slash) ?p" let ?r = "dropWhile (\<lambda>c. c = slash) (dropWhile (\<lambda>c. c \<noteq> slash) ?p)"
    obtain name' where s: "skipelem path name = Some (?r, name')" and
      n: "name' = (if length ?e \<ge> DIRSIZ then put_bytes 0 (take DIRSIZ ?e) name else put_bytes 0 (?e @ [0]) name)"
      using False by (simp add: skipelem_def Let_def)
    have z: "0 \<notin> set ?e" "0 \<notin> set ?r"
      using "1.prems"(2) set_takeWhileD set_dropWhileD by metis+
    have "length name' = DIRSIZ" unfolding n using "1.prems"(1) by (auto simp: put_bytes_def)
    then have ih: "skip_elems ?r name' = map (take DIRSIZ) (path_elems ?r)" using "1.IH" [OF s] z by simp
    have st: "str_of (cstr_of xs) DIRSIZ = takeWhile (\<lambda>c. c \<noteq> 0) xs" if "length xs = DIRSIZ" for xs
    proof -
      have "map (cstr_of xs) [0..<DIRSIZ] = xs" by (rule nth_equalityI) (use that in \<open>auto simp: cstr_of_def\<close>)
      then show ?thesis by (simp add: str_of_def)
    qed
    have tw: "takeWhile (\<lambda>c. c \<noteq> 0) (xs @ 0 # ys) = xs" "takeWhile (\<lambda>c. c \<noteq> 0) xs = xs" if "0 \<notin> set xs" for xs ys :: "u8 list"
      using that by (induction xs) auto
    have "takeWhile (\<lambda>c. c \<noteq> 0) name' = take DIRSIZ ?e"
    proof (cases "length ?e \<ge> DIRSIZ")
      case True
      then have "name' = take DIRSIZ ?e" using n "1.prems"(1) by (simp add: put_bytes_def min_def)
      moreover have "0 \<notin> set (take DIRSIZ ?e)" using z(1) in_set_takeD by metis
      ultimately show ?thesis using tw(2) by simp
    next
      case False
      then have "name' = ?e @ 0 # drop (length ?e + 1) name" using n by (simp add: put_bytes_def)
      then show ?thesis using tw(1) [OF z(1)] False by simp
    qed
    then have "str_of (cstr_of name') DIRSIZ = take DIRSIZ ?e" using st [OF \<open>length name' = DIRSIZ\<close>] by simp
    moreover have "path_elems path = ?e # path_elems ?r"
      using path_elems_elem [OF False] hd_dropWhile [OF False] path_elems_skip by metis
    ultimately show ?thesis using s ih by (simp add: skip_elems.simps [of path])
  qed
qed

theorem skipelem_splits_at_slashes_witness:
  "skip_elems [47, 47, 97, 98, 47, 99, 47] (replicate DIRSIZ 7) = [[97, 98], [99]]"
  using skipelem_splits_at_slashes [of "replicate DIRSIZ 7" "[47, 47, 97, 98, 47, 99, 47]"]
  by (simp add: path_elems_def DIRSIZ_def)

end
