(* ===== verification/Printf_Props.thy ===== *)
theory Printf_Props
  imports Printf
begin

text \<open>
  The numbers that the kernel's \<open>printf\<close> prints: they read back as the value, and they fit the 16 bytes
  of \<open>buf\<close> in \<open>printint\<close>.
\<close>

lemma uint_digits_unfold:
  "1 < unat base \<Longrightarrow> uint_digits base x =
     digit (unat x mod unat base) # (if unat x < unat base then [] else uint_digits base (x div base))"
  by (subst uint_digits.simps)
    (auto simp: unat_mod unat_div word_unat_eq_iff word_le_nat_alt div_eq_0_iff not_less dest: leD)

lemma length_uint_digits: "1 < unat base \<Longrightarrow> unat x < unat base ^ k \<Longrightarrow> 0 < k \<Longrightarrow> length (uint_digits base x) \<le> k"
proof (induction k arbitrary: x)
  case 0
  then show ?case by simp
next
  case (Suc k)
  show ?case
  proof (cases "unat x < unat base")
    case True
    then show ?thesis using Suc.prems(1) by (simp add: uint_digits_unfold [of _ x])
  next
    case False
    then have "0 < k" using Suc.prems(2) by (cases k) auto
    moreover have "unat (x div base) < unat base ^ k"
      using Suc.prems(2) by (simp add: unat_div less_mult_imp_div_less mult.commute)
    ultimately show ?thesis using Suc False by (simp add: uint_digits_unfold [of _ x])
  qed
qed

text \<open>
  whatever the number, \<open>printint\<close> in base 10 or 16 stores at most 11 characters, so it stays inside its
  16-byte buffer.
\<close>

theorem printint_fits_its_buffer:
  assumes "10 \<le> unat base"
  shows "length (printint xx base sign) \<le> 11"
proof -
  have l: "length (uint_digits base x) \<le> 10" for x :: u32
  proof (rule length_uint_digits)
    have "unat x < 10 ^ 10" by (rule order.strict_trans [OF unat32_less]) simp
    also have "\<dots> \<le> unat base ^ 10" by (rule power_mono [OF assms]) simp
    finally show "unat x < unat base ^ 10" .
  qed (use assms in auto)
  show ?thesis unfolding printint_def Let_def
    using l [of xx] l [of "- xx"] by (simp add: ascii_def)
qed

theorem printint_fits_its_buffer_witness:
  "length (printint 0x80000000 10 True) \<le> 11"
  by (rule printint_fits_its_buffer) simp

section \<open>Reading a number back\<close>

definition digit_value :: "u8 \<Rightarrow> nat" where
  "digit_value c = (if c < 0x61 then unat (c - 0x30) else unat (c - 0x61) + 10)"

definition number :: "nat \<Rightarrow> u8 list \<Rightarrow> nat" where
  "number base ds = foldl (\<lambda>n c. n * base + digit_value c) 0 ds"

lemma digit_value_digit: "n < 16 \<Longrightarrow> digit_value (digit n) = n"
proof -
  have "list_all (\<lambda>n. digit_value (digit n) = n) [0..<16]" by code_simp
  then show "n < 16 \<Longrightarrow> digit_value (digit n) = n" by (simp add: list_all_iff)
qed

lemma number_uint_digits:
  assumes "1 < unat base" "unat base \<le> 16"
  shows "number (unat base) (rev (uint_digits base x)) = unat x"
  using assms
proof (induction base x rule: uint_digits.induct)
  case (1 base x)
  have d: "digit_value (digit (unat x mod unat base)) = unat x mod unat base"
    using 1(2,3) by (intro digit_value_digit) (simp add: order.strict_trans2 [OF mod_less_divisor])
  show ?case
  proof (cases "unat x < unat base")
    case True
    then show ?thesis using d 1(2) by (simp add: uint_digits_unfold [of _ x] number_def)
  next
    case False
    then have "\<not> (x div base = 0 \<or> base \<le> 1)"
      using 1(2) by (auto simp: word_unat_eq_iff unat_div word_le_nat_alt div_eq_0_iff)
    then have "number (unat base) (rev (uint_digits base (x div base))) = unat (x div base)"
      using 1(1) 1(2,3) by blast
    then show ?thesis using False d 1(2) by (simp add: uint_digits_unfold [of _ x] number_def unat_div)
  qed
qed

text \<open>
  C40: what \<open>printint\<close> prints is the number: read back as digits of the base it gives the absolute value,
  and a negative signed number, the smallest one included, has a minus sign in front.
\<close>

theorem printint_prints_the_number:
  assumes "10 \<le> unat base" "unat base \<le> 16"
  shows "\<exists>ds. printint xx base sign = (if sign \<and> sint xx < 0 then 0x2D # ds else ds) \<and>
    int (number (unat base) ds) = (if sign then \<bar>sint xx\<bar> else uint xx)"
proof -
  let ?neg = "sign \<and> sint xx < 0" let ?x = "if ?neg then - xx else xx"
  have n: "number (unat base) (rev (uint_digits base ?x)) = unat ?x"
    using assms by (intro number_uint_digits) auto
  have "int (unat ?x) = (if sign then \<bar>sint xx\<bar> else uint xx)"
  proof (cases ?neg)
    case True
    have "uint (- xx) = (- sint xx) mod 2 ^ 32"
      by (simp add: uint_word_ariths uint_sint [of xx] take_bit_eq_mod mod_minus_eq)
    also have "\<dots> = - sint xx" using True sint_ge [of xx] by (simp add: mod_pos_pos_trivial)
    finally show ?thesis using True by simp
  next
    case False
    then show ?thesis using sint_lt [of xx] by (auto simp: uint_sint [of xx] take_bit_int_eq_self)
  qed
  then show ?thesis using n
    by (intro exI [of _ "rev (uint_digits base ?x)"]) (simp add: printint_def Let_def ascii_def of_char_def)
qed

theorem printint_prints_the_number_witness:
  "\<exists>ds. printint 0x80000000 10 True = 0x2D # ds \<and> int (number 10 ds) = 2147483648"
  using printint_prints_the_number [of 10 "0x80000000" True] by simp

end
