(* ===== verification/Line_Editor.thy ===== *)
theory Line_Editor
  imports Console_Props
begin

text \<open>
  \<open>consoleintr\<close> refines a line editor: a pair of the bytes that \<open>consoleread\<close> may take and the line that is
  still being edited.
\<close>

section \<open>The abstract editor\<close>

definition edit_step :: "u8 \<Rightarrow> u8 list \<times> u8 list \<Rightarrow> u8 list \<times> u8 list" where
  "edit_step c cl = (case cl of (com, line) \<Rightarrow>
     if c = 0x15 then (com, [])
     else if c = 8 \<or> c = 0x7F then (com, butlast line)
     else if c \<noteq> 0 \<and> length com + length line < INPUT_BUF_SIZE
     then let c = (if c = 0x0D then 0x0A else c); line = line @ [c]
          in if c = 0x0A \<or> c = 4 \<or> length com + length line = INPUT_BUF_SIZE then (com @ line, []) else (com, line)
     else (com, line))"

section \<open>The input buffer\<close>

definition input :: "'z cstate_scheme \<Rightarrow> u8 list" where
  "input s = ring INPUT_BUF_SIZE (cons_buf s) (cons_r s) (cons_e s)"

definition editor :: "'z cstate_scheme \<Rightarrow> u8 list \<times> u8 list" where
  "editor s = (let n = unat (cons_w s - cons_r s) in (take n (input s), drop n (input s)))"

definition cons_inv :: "'z cstate_scheme \<Rightarrow> bool" where
  "cons_inv s \<longleftrightarrow> unat (cons_w s - cons_r s) \<le> unat (cons_e s - cons_r s) \<and>
     unat (cons_e s - cons_r s) \<le> INPUT_BUF_SIZE \<and> 0x0A \<notin> set (snd (editor s))"

lemma input_size: "INPUT_BUF_SIZE dvd 2 ^ LENGTH(32)" "INPUT_BUF_SIZE < 2 ^ LENGTH(32)"
  by (simp_all add: INPUT_BUF_SIZE_def)

lemma input_index: "unat ((i :: u32) mod of_nat INPUT_BUF_SIZE) = unat i mod INPUT_BUF_SIZE"
  by (simp add: unat_mod INPUT_BUF_SIZE_def)

lemma length_input [simp]: "length (input s) = unat (cons_e s - cons_r s)"
  by (simp add: input_def)

lemma length_line: "length (snd (editor s)) = unat (cons_e s - cons_r s) - unat (cons_w s - cons_r s)"
  by (simp add: editor_def Let_def)

lemma line_empty: "cons_inv s \<Longrightarrow> cons_e s = cons_w s \<longleftrightarrow> snd (editor s) = []"
proof -
  assume i: "cons_inv s"
  have "snd (editor s) = [] \<longleftrightarrow> length (snd (editor s)) = 0" by simp
  also have "\<dots> \<longleftrightarrow> unat (cons_e s - cons_r s) = unat (cons_w s - cons_r s)"
    using i by (auto simp: length_line cons_inv_def)
  also have "\<dots> \<longleftrightarrow> cons_e s - cons_r s = cons_w s - cons_r s" by (simp add: word_unat_eq_iff)
  also have "\<dots> \<longleftrightarrow> cons_e s = cons_w s" by auto
  finally show ?thesis by blast
qed

text \<open>Taking back one byte of the line.\<close>

lemma input_pop:
  assumes "cons_inv s" "cons_e s \<noteq> cons_w s"
  shows "editor (s\<lparr>cons_e := cons_e s - 1\<rparr>) = (fst (editor s), butlast (snd (editor s)))"
    and "cons_inv (s\<lparr>cons_e := cons_e s - 1\<rparr>)" and "cons_at (cons_e s - 1) s = last (snd (editor s))"
proof -
  let ?n = "unat (cons_e s - cons_r s)" let ?k = "unat (cons_w s - cons_r s)" let ?t = "s\<lparr>cons_e := cons_e s - 1\<rparr>"
  have lt: "?k < ?n" using assms line_empty [OF assms(1)] length_line [of s] by (cases "?k < ?n") auto
  have "cons_e s - cons_r s \<noteq> 0" using lt by auto
  then have n: "unat (cons_e s - 1 - cons_r s) = ?n - 1" by (metis unat_minus_one diff_right_commute)
  have "[0..<?n] = [0..<?n - 1] @ [?n - 1]" using lt by (metis Suc_diff_1 gr_implies_not0 neq0_conv upt_Suc_append le0)
  then have i: "input s = input ?t @ [cons_buf s ((unat (cons_r s) + (?n - 1)) mod INPUT_BUF_SIZE)]"
    using n by (simp add: input_def ring_def)
  then have b: "input ?t = butlast (input s)" by simp
  have e: "editor ?t = (take ?k (input ?t), drop ?k (input ?t))" by (simp add: editor_def Let_def)
  have k: "?k \<le> length (input ?t)" using lt n by simp
  have "take ?k (butlast (input s)) = take ?k (input s)" using lt by (simp add: take_butlast)
  then show ed: "editor ?t = (fst (editor s), butlast (snd (editor s)))"
    unfolding e b by (simp add: editor_def Let_def butlast_drop)
  have "set (snd (editor ?t)) \<subseteq> set (snd (editor s))" unfolding ed by (auto dest: in_set_butlastD)
  then show "cons_inv ?t" using assms(1) n lt by (auto simp: cons_inv_def)
  have "cons_at (cons_e s - 1) s = cons_buf s ((unat (cons_r s) + (?n - 1)) mod INPUT_BUF_SIZE)"
    using index_of_counter [OF input_size(1), of "cons_e s - 1" "cons_r s"] n by (simp add: cons_at_def input_index)
  also have "\<dots> = last (input s)" using i by simp
  also have "\<dots> = last (snd (editor s))" using lt by (simp add: editor_def Let_def)
  finally show "cons_at (cons_e s - 1) s = last (snd (editor s))" .
qed

text \<open>Adding one.\<close>

lemma input_push:
  assumes "cons_inv s" "unat (cons_e s - cons_r s) < INPUT_BUF_SIZE"
  shows "editor (s\<lparr>cons_buf := (cons_buf s)(unat (cons_e s mod of_nat INPUT_BUF_SIZE) := c), cons_e := cons_e s + 1\<rparr>) =
      (fst (editor s), snd (editor s) @ [c])"
    and "unat (cons_e s + 1 - cons_r s) = Suc (unat (cons_e s - cons_r s))"
proof -
  let ?t = "s\<lparr>cons_buf := (cons_buf s)(unat (cons_e s mod of_nat INPUT_BUF_SIZE) := c), cons_e := cons_e s + 1\<rparr>"
  show "unat (cons_e s + 1 - cons_r s) = Suc (unat (cons_e s - cons_r s))"
    by (rule unat_step_Suc) (use assms(2) in \<open>simp add: INPUT_BUF_SIZE_def\<close>)
  have "input ?t = input s @ [c]"
    using ring_put [OF input_size assms(2), of "cons_buf s" c] by (simp add: input_def input_index)
  then show "editor ?t = (fst (editor s), snd (editor s) @ [c])"
    using assms(1) by (simp add: editor_def Let_def cons_inv_def)
qed

text \<open>Making the line available.\<close>

lemma input_commit:
  "editor (s\<lparr>cons_w := cons_e s\<rparr>) = (input s, [])"
  by (simp add: editor_def Let_def input_def)

lemma editor_input: "input s = fst (editor s) @ snd (editor s)"
  by (simp add: editor_def Let_def)

section \<open>Echo\<close>

text \<open>What \<open>consputc\<close> may change: the device.\<close>

definition echoed :: "'z cstate_scheme \<Rightarrow> 'z cstate_scheme \<Rightarrow> bool" where
  "echoed s t \<longleftrightarrow> (\<exists>wr room. t = s\<lparr>uart_wr := wr, uart_room := room\<rparr>)"

lemma echoed_refl: "echoed s s"
  unfolding echoed_def by (intro exI [of _ "uart_wr s"] exI [of _ "uart_room s"]) simp

lemma echoed_trans: "echoed s t \<Longrightarrow> echoed t u \<Longrightarrow> echoed s u"
  unfolding echoed_def by (elim exE) (intro exI, simp)

lemma uartputc_sync_echoes:
  assumes "cpu_ok (mycpu s)" "0 < noff (mycpu s)" "\<not> panicked s"
  shows "\<exists>t. uartputc_sync c s = Ok ((), t) \<and> echoed s t"
proof -
  let ?s = "set_cpu (push_off (mycpu s)) s" let ?t = "write_reg THR c (spin_until_idle ?s)"
  have m: "mycpu ?t = push_off (mycpu s)"
    by (simp add: write_reg_def spin_until_idle_def mycpu_def set_cpu_def)
  have "pop_off (push_off (mycpu s)) = Ok (mycpu s)"
    using assms by (auto simp: pop_off_def push_off_def Let_def cpu_ok_def)
  then have "uartputc_sync c s = Ok ((), set_cpu (mycpu s) ?t)"
    using assms(3) m by (simp add: uartputc_sync_def Let_def set_cpu_def)
  moreover have "set_cpu (mycpu s) ?t = s\<lparr>uart_wr := uart_wr ?t, uart_room := uart_room ?t\<rparr>"
    by (simp add: write_reg_def spin_until_idle_def read_lsr_def set_cpu_def mycpu_def)
  ultimately show ?thesis unfolding echoed_def by blast
qed

lemma echoed_simps:
  assumes "echoed s t"
  shows "mycpu t = mycpu s" "panicked t = panicked s" "editor t = editor s" "cons_inv t = cons_inv s"
    "cons_e t = cons_e s" "cons_w t = cons_w s" "cons_r t = cons_r s" "cons_buf t = cons_buf s" "others_free t = others_free s"
    "cons_lock t = cons_lock s" "k_hart t = k_hart s" "input t = input s"
proof -
  obtain wr room where t: "t = s\<lparr>uart_wr := wr, uart_room := room\<rparr>" using assms by (auto simp: echoed_def)
  show m: "mycpu t = mycpu s" unfolding t by (simp add: mycpu_def)
  show "panicked t = panicked s" "cons_e t = cons_e s" "cons_w t = cons_w s" "cons_r t = cons_r s"
    "cons_buf t = cons_buf s" "cons_lock t = cons_lock s" "k_hart t = k_hart s"
    unfolding t by simp_all
  show i: "input t = input s" unfolding t by (simp add: input_def)
  show e: "editor t = editor s" unfolding editor_def i unfolding t by simp
  show "cons_inv t = cons_inv s" unfolding cons_inv_def e unfolding t by simp
  show "others_free t = others_free s" unfolding others_free_def m myproc_def unfolding t by simp
qed

lemma consputc_echoes:
  assumes "cpu_ok (mycpu s)" "0 < noff (mycpu s)" "\<not> panicked s"
  shows "\<exists>t. consputc c s = Ok ((), t) \<and> echoed s t"
proof (cases "c = BACKSPACE")
  case True
  obtain t1 where 1: "uartputc_sync 8 s = Ok ((), t1)" "echoed s t1" using uartputc_sync_echoes [OF assms] by blast
  obtain t2 where 2: "uartputc_sync 0x20 t1 = Ok ((), t2)" "echoed t1 t2"
    using uartputc_sync_echoes [of t1 "0x20"] assms echoed_simps [OF 1(2)] by auto
  obtain t3 where 3: "uartputc_sync 8 t2 = Ok ((), t3)" "echoed t2 t3"
    using uartputc_sync_echoes [of t2 8] assms echoed_simps [OF 1(2)] echoed_simps [OF 2(2)] by auto
  have "consputc c s = Ok ((), t3)" using True 1(1) 2(1) 3(1) by (simp add: consputc_def kseq_Ok)
  then show ?thesis using echoed_trans [OF echoed_trans [OF 1(2) 2(2)] 3(2)] by blast
next
  case False
  then show ?thesis using uartputc_sync_echoes [OF assms] by (simp add: consputc_def)
qed

section \<open>The keys\<close>

text \<open>Inside \<open>cons.lock\<close>; what every key leaves alone.\<close>

definition in_cons :: "'z cstate_scheme \<Rightarrow> bool" where
  "in_cons s \<longleftrightarrow> cons_inv s \<and> others_free s \<and> 0 < noff (mycpu s) \<and> \<not> panicked s"

definition locks_kept :: "'z cstate_scheme \<Rightarrow> 'z cstate_scheme \<Rightarrow> bool" where
  "locks_kept s t \<longleftrightarrow> mycpu t = mycpu s \<and> k_hart t = k_hart s \<and> cons_lock t = cons_lock s"

lemma in_cons_cpu: "in_cons s \<Longrightarrow> cpu_ok (mycpu s)"
  by (simp add: in_cons_def others_free_def)

lemma others_free_cons_e [simp]: "others_free (s\<lparr>cons_e := e\<rparr>) = others_free s"
  by (simp add: others_free_def myproc_def mycpu_def)

text \<open>Taking back one byte, with its echo.\<close>

lemma backspace_runs:
  assumes "in_cons s" "cons_e s \<noteq> cons_w s"
  shows "\<exists>t. kseq (kmod (\<lambda>s. s\<lparr>cons_e := cons_e s - 1\<rparr>)) (consputc BACKSPACE) s = Ok ((), t) \<and> in_cons t \<and>
    editor t = (fst (editor s), butlast (snd (editor s))) \<and> locks_kept s t \<and> cons_e t = cons_e s - 1 \<and> cons_w t = cons_w s"
proof -
  let ?u = "s\<lparr>cons_e := cons_e s - 1\<rparr>"
  have i: "cons_inv s" using assms(1) by (simp add: in_cons_def)
  have m: "mycpu ?u = mycpu s" by (simp add: mycpu_def)
  obtain t where t: "consputc BACKSPACE ?u = Ok ((), t)" "echoed ?u t"
    using consputc_echoes [of ?u BACKSPACE] in_cons_cpu [OF assms(1)] assms(1) m by (auto simp: in_cons_def)
  note e = echoed_simps [OF t(2)]
  have "in_cons t" using assms(1) e m input_pop(2) [OF i assms(2)] by (simp add: in_cons_def)
  moreover have "locks_kept s t" using e m by (simp add: locks_kept_def)
  ultimately show ?thesis using t(1) e input_pop(1) [OF i assms(2)] by simp
qed

lemma kill_line_runs:
  "in_cons s \<Longrightarrow> n = length (snd (editor s)) \<Longrightarrow>
     \<exists>t. kill_line n s = Ok ((), t) \<and> in_cons t \<and> editor t = (fst (editor s), []) \<and> locks_kept s t"
proof (induction n arbitrary: s)
  case 0
  then show ?case by (cases "editor s") (simp add: locks_kept_def)
next
  case (Suc n)
  have i: "cons_inv s" using Suc.prems(1) by (simp add: in_cons_def)
  have ne: "cons_e s \<noteq> cons_w s" using line_empty [OF i] Suc.prems(2) by auto
  have "last (snd (editor s)) \<in> set (snd (editor s))" using Suc.prems(2) by (intro last_in_set) auto
  then have nl: "cons_at (cons_e s - 1) s \<noteq> 0x0A" using i input_pop(3) [OF i ne] by (auto simp: cons_inv_def)
  obtain t where t: "kseq (kmod (\<lambda>s. s\<lparr>cons_e := cons_e s - 1\<rparr>)) (consputc BACKSPACE) s = Ok ((), t)" "in_cons t"
      "editor t = (fst (editor s), butlast (snd (editor s)))" "locks_kept s t"
    using backspace_runs [OF Suc.prems(1) ne] by blast
  have "n = length (snd (editor t))" using t(3) Suc.prems(2) by (simp add: length_butlast)
  from Suc.IH [OF t(2) this] obtain u where u: "kill_line n t = Ok ((), u)" "in_cons u" "editor u = (fst (editor t), [])" "locks_kept t u"
    by blast
  have "kill_line (Suc n) s = kill_line n t"
    using ne nl t(1) by (simp add: kseq_Ok)
  then show ?case using u t by (auto simp: locks_kept_def)
qed

lemma input_lt: "cons_e s - cons_r s < of_nat INPUT_BUF_SIZE \<longleftrightarrow> unat (cons_e s - cons_r s) < INPUT_BUF_SIZE"
  by (simp add: word_less_nat_alt INPUT_BUF_SIZE_def)

lemma input_eq: "(x :: u32) = of_nat INPUT_BUF_SIZE \<longleftrightarrow> unat x = INPUT_BUF_SIZE"
  by (simp add: word_unat_eq_iff INPUT_BUF_SIZE_def)

lemma editor_lengths:
  "cons_inv s \<Longrightarrow> length (fst (editor s)) + length (snd (editor s)) = unat (cons_e s - cons_r s)"
  by (auto simp: editor_def Let_def cons_inv_def min_def)

lemma console_key_runs:
  assumes s: "in_cons s" and c: "c \<noteq> 0x10"
  shows "\<exists>t. console_key c s = Ok ((), t) \<and> in_cons t \<and> editor t = edit_step c (editor s) \<and> locks_kept s t"
proof -
  have i: "cons_inv s" and o: "others_free s" "0 < noff (mycpu s)" "\<not> panicked s" using s by (simp_all add: in_cons_def)
  have stay: "in_cons s \<and> locks_kept s s" using s by (simp add: locks_kept_def)
  obtain com line where ed: "editor s = (com, line)" by fastforce
  note len = editor_lengths [OF i, unfolded ed]
  consider "c = 0x15" | "c \<noteq> 0x15" "c = 8 \<or> c = 0x7F"
    | "c \<noteq> 0x15" "\<not> (c = 8 \<or> c = 0x7F)" "\<not> (c \<noteq> 0 \<and> unat (cons_e s - cons_r s) < INPUT_BUF_SIZE)"
    | "c \<noteq> 0x15" "\<not> (c = 8 \<or> c = 0x7F)" "c \<noteq> 0" "unat (cons_e s - cons_r s) < INPUT_BUF_SIZE" by blast
  then show ?thesis
  proof cases
    case 1
    have "cons_e s - cons_w s = (cons_e s - cons_r s) - (cons_w s - cons_r s)" by simp
    then have "unat (cons_e s - cons_w s) = length (snd (editor s))"
      using i unat_sub [of "cons_w s - cons_r s" "cons_e s - cons_r s"]
      by (simp add: length_line cons_inv_def word_le_nat_alt)
    then show ?thesis using 1 kill_line_runs [OF s] ed by (simp add: console_key_def edit_step_def)
  next
    case 2
    then show ?thesis
      using c line_empty [OF i] backspace_runs [OF s] stay ed
      by (cases "cons_e s = cons_w s") (auto simp: console_key_def edit_step_def)
  next
    case 3
    then have "console_key c s = Ok ((), s)" using c by (auto simp: console_key_def input_lt)
    moreover have "edit_step c (editor s) = editor s" using 3 ed len by (auto simp: edit_step_def)
    ultimately show ?thesis using stay by simp
  next
    case 4
    let ?c = "if c = 0x0D then 0x0A else c"
    obtain t where t: "consputc (uint ?c) s = Ok ((), t)" "echoed s t"
      using consputc_echoes [of s "uint ?c"] o in_cons_cpu [OF s] by auto
    note e = echoed_simps [OF t(2)]
    let ?u = "t\<lparr>cons_buf := (cons_buf t)(unat (cons_e t mod of_nat INPUT_BUF_SIZE) := ?c), cons_e := cons_e t + 1\<rparr>"
    have lt: "unat (cons_e t - cons_r t) < INPUT_BUF_SIZE" and it: "cons_inv t" using 4 e i by simp_all
    note p = input_push(1) [OF it lt, of ?c] input_push(2) [OF it lt]
    have u: "editor ?u = (com, line @ [?c])" using p(1) e ed by simp
    have m: "mycpu ?u = mycpu s" "k_hart ?u = k_hart s" "cons_lock ?u = cons_lock s" "others_free ?u" "\<not> panicked ?u"
      using e o by (simp_all add: mycpu_def others_free_def myproc_def)
    have nu: "unat (cons_e ?u - cons_r ?u) = Suc (unat (cons_e s - cons_r s))" using p(2) e by simp
    have key: "console_key c s = (if ?c = 0x0A \<or> ?c = 4 \<or> unat (cons_e ?u - cons_r ?u) = INPUT_BUF_SIZE
        then obind (wakeup (Some ConsChan) (?u\<lparr>cons_w := cons_e ?u\<rparr>)) (\<lambda>s. Ok ((), s)) else Ok ((), ?u))"
      using 4 c t(1) by (simp add: console_key_def input_lt Let_def input_eq)
    show ?thesis
    proof (cases "?c = 0x0A \<or> ?c = 4 \<or> unat (cons_e ?u - cons_r ?u) = INPUT_BUF_SIZE")
      case True
      let ?v = "?u\<lparr>cons_w := cons_e ?u\<rparr>"
      have v: "others_free ?v" "0 < noff (mycpu ?v)" using m o by (simp_all add: mycpu_def others_free_def myproc_def)
      let ?m = "map_procs (filter (\<lambda>i. Some i \<noteq> myproc ?v) [0..<NPROC]) (\<lambda>_. wake_proc (Some ConsChan)) ?v"
      have w: "console_key c s = Ok ((), ?m)" using key True wakeup_exact [OF v, of "Some ConsChan"] by simp
      have em: "editor ?m = editor ?v" by (simp add: editor_def input_def)
      have "editor ?v = (com @ line @ [?c], [])" using input_commit [of ?u] editor_input [of ?u] u by simp
      moreover have "edit_step c (com, line) = (com @ line @ [?c], [])"
        using 4 True len nu by (simp add: edit_step_def Let_def)
      moreover have "in_cons ?m"
        using em calculation(1) m o v map_procs_free [OF v(1)] nu 4(4)
        by (simp add: in_cons_def cons_inv_def)
      moreover have "mycpu ?v = mycpu s" "k_hart ?v = k_hart s" "cons_lock ?v = cons_lock s"
        using m by (simp_all add: mycpu_def)
      then have "locks_kept s ?m" by (simp add: locks_kept_def)
      ultimately show ?thesis using w em ed by auto
    next
      case False
      have "edit_step c (com, line) = (com, line @ [?c])"
        using 4 False len nu by (simp add: edit_step_def Let_def)
      moreover have "in_cons ?u"
        using False m o u i nu 4(4) e ed by (auto simp: in_cons_def cons_inv_def)
      moreover have "locks_kept s ?u" using m by (simp add: locks_kept_def)
      ultimately show ?thesis using key False ed u by auto
    qed
  qed
qed

text \<open>
  C33: an input character (other than control-P, which prints the process list) edits the line as the
  abstract editor says: control-U deletes it, backspace and delete take back its last byte, carriage
  return becomes newline, a newline, control-D or a full buffer makes it available to
  \<open>consoleread\<close>, and nothing is stored in a full buffer. \<open>consoleintr\<close> always returns, with the lock free.
\<close>

theorem consoleintr_edits_the_line:
  assumes i: "cons_inv s" and o: "others_free s" and lk: "lock_free (cons_lock s)" and p: "\<not> panicked s"
    and c: "c \<noteq> 0x10"
  shows "\<exists>t. consoleintr c s = Ok ((), t) \<and> editor t = edit_step c (editor s) \<and> cons_inv t \<and> lock_free (cons_lock t)"
proof -
  let ?a = "(set_cpu (push_off (mycpu s)) s)\<lparr>cons_lock := held_by (k_hart s) (cons_lock s)\<rparr>"
  have ok: "cpu_ok (mycpu s)" using o by (simp add: others_free_def)
  note po = push_off_ok [OF ok]
  have a: "acquire_cons s = Ok ?a" unfolding acquire_cons_def using lk by (rule acquire_in_free)
  have cpu: "mycpu ?a = push_off (mycpu s)" "k_hart ?a = k_hart s" by (simp_all add: mycpu_def set_cpu_def)
  have ea: "editor ?a = editor s" by (simp add: editor_def input_def set_cpu_def)
  have ia: "in_cons ?a"
    using i o p po ea cpu by (simp add: in_cons_def cons_inv_def others_free_def myproc_def) (simp add: set_cpu_def)
  obtain t where t: "console_key c ?a = Ok ((), t)" "in_cons t" "editor t = edit_step c (editor ?a)" "locks_kept ?a t"
    using console_key_runs [OF ia c] by blast
  let ?u = "(set_cpu (bump (mycpu s)) t)\<lparr>cons_lock := cons_lock s\<rparr>"
  have "release_cons t = Ok ?u" unfolding release_cons_def
    by (rule release_in_held [OF _ lk _ ok]) (use t(4) cpu in \<open>simp_all add: locks_kept_def\<close>)
  then have "consoleintr c s = Ok ((), ?u)" using a t(1) by (simp add: consoleintr_def)
  moreover have eu: "editor ?u = editor t" by (simp add: editor_def input_def set_cpu_def)
  moreover have "cons_inv ?u" using t(2) unfolding in_cons_def cons_inv_def eu by (simp add: set_cpu_def)
  ultimately show ?thesis using t(3) ea lk by simp
qed

theorem consoleintr_edits_the_line_witness:
  "let s = demo_console\<lparr>cons_buf := \<lambda>_. 97, cons_e := 2\<rparr>
   in editor s = ([], [97, 97]) \<and> (\<exists>t. consoleintr 0x0D s = Ok ((), t) \<and> editor t = ([97, 97, 0x0A], []))"
proof -
  let ?s = "demo_console\<lparr>cons_buf := \<lambda>_. 97, cons_e := 2\<rparr>"
  have e: "editor ?s = ([], [97, 97])"
    by (simp add: editor_def Let_def input_def ring_def upt_rec)
  have "cons_inv ?s" unfolding cons_inv_def e by (simp add: INPUT_BUF_SIZE_def)
  moreover have "others_free ?s" using demo_console_free by (simp add: others_free_def myproc_def mycpu_def)
  ultimately obtain t where "consoleintr 0x0D ?s = Ok ((), t)" "editor t = edit_step 0x0D (editor ?s)"
    using consoleintr_edits_the_line [of ?s "0x0D"] by auto
  moreover have "edit_step 0x0D (editor ?s) = ([97, 97, 0x0A], [])"
    unfolding e by (simp add: edit_step_def INPUT_BUF_SIZE_def)
  ultimately show ?thesis using e by (simp add: Let_def)
qed

end
