(* ===== verification/Fs_Types.thy ===== *)
theory Fs_Types
  imports Codec
begin

text \<open>
  The shapes that the C types fix and that the model's lists have to keep: blocks of \<open>BSIZE\<close> bytes, in the
  cache and on the disk, \<open>NDIRECT + 1\<close> block addresses in an inode, at most \<open>LOGSIZE\<close> block numbers in
  the log header. Every operation of the file system
  keeps them, and it leaves the process table, the CPUs and everything above the file system alone.
\<close>

definition typed :: "'z fstate_scheme \<Rightarrow> bool" where
  "typed s \<longleftrightarrow> (\<forall>b. length (b_data (bcache s b)) = BSIZE) \<and> (\<forall>n. length (disk s n) = BSIZE) \<and>
     (\<forall>i. length (i_addrs (itable s i)) = NDIRECT + 1) \<and> lh_n s \<le> int LOGSIZE"

definition fs_frame :: "'z fstate_scheme \<Rightarrow> (nat \<Rightarrow> proc) \<times> (nat \<Rightarrow> cpu) \<times> nat \<times> 'z" where
  "fs_frame s = (k_proc s, k_cpus s, k_hart s, fstate.more s)"

definition good :: "('z fstate_scheme, 'a) kop \<Rightarrow> bool" where
  "good m \<longleftrightarrow> (\<forall>s x t. typed s \<longrightarrow> m s = Ok (x, t) \<longrightarrow> typed t \<and> fs_frame t = fs_frame s)"

named_theorems good_intros \<open>operations that keep the types and the frame of the file system\<close>

section \<open>Composition\<close>

lemma good_basic [good_intros]: "good (kret x)" "good (kpanic e)" "good (\<lambda>s. Block)"
  by (simp_all add: good_def)

lemma good_kmod: "(\<And>s. typed s \<Longrightarrow> typed (g s)) \<Longrightarrow> (\<And>s. fs_frame (g s) = fs_frame s) \<Longrightarrow> good (kmod g)"
  by (simp add: good_def)

lemma goodI: "(\<And>s x t. typed s \<Longrightarrow> m s = Ok (x, t) \<Longrightarrow> typed t \<and> fs_frame t = fs_frame s) \<Longrightarrow> good m"
  by (auto simp: good_def)

lemma goodD: "good m \<Longrightarrow> typed s \<Longrightarrow> m s = Ok (x, t) \<Longrightarrow> typed t \<and> fs_frame t = fs_frame s"
  by (simp add: good_def)

lemma good_kbind [good_intros]:
  assumes "good m" "\<And>x. good (f x)"
  shows "good (kbind m f)"
proof (rule goodI)
  fix s y u
  assume s: "typed s" "kbind m f s = Ok (y, u)"
  then obtain x t where x: "m s = Ok (x, t)" "f x t = Ok (y, u)" by (auto simp: kbind_def outcome_simps)
  show "typed u \<and> fs_frame u = fs_frame s"
    using goodD [OF assms(1) s(1) x(1)] goodD [OF assms(2) _ x(2)] by simp
qed

lemma good_kseq [good_intros]: "good m \<Longrightarrow> good n \<Longrightarrow> good (kseq m n)"
  by (simp add: kseq_def good_kbind)

lemma good_kget: "(\<And>s. typed s \<Longrightarrow> good (f (g s))) \<Longrightarrow> good (kbind (kget g) f)"
  by (rule goodI) (metis goodD kbind_kget)

lemma good_kfor [good_intros]: "(\<And>i. good (f i)) \<Longrightarrow> good (kfor is f)"
  by (induction "is") (simp_all add: good_basic good_kseq)

lemma good_if [good_intros]: "(b \<Longrightarrow> good m) \<Longrightarrow> (\<not> b \<Longrightarrow> good n) \<Longrightarrow> good (if b then m else n)"
  by simp

lemma good_Let [good_intros]: "(\<And>x. x = e \<Longrightarrow> good (f x)) \<Longrightarrow> good (let x = e in f x)"
  by simp

lemma good_option [good_intros]: "good m \<Longrightarrow> (\<And>x. good (f x)) \<Longrightarrow> good (case o' of None \<Rightarrow> m | Some x \<Rightarrow> f x)"
  by (cases o') simp_all

lemma good_prod [good_intros]: "(\<And>a b. good (f a b)) \<Longrightarrow> good (case p of (a, b) \<Rightarrow> f a b)"
  by (cases p) simp

section \<open>Buffers\<close>

lemma fs_frame_upd_b [simp]: "fs_frame (upd_b b f s) = fs_frame s"
  by (simp add: fs_frame_def upd_b_def)

lemma typed_upd_b: "typed s \<Longrightarrow> length (b_data (f (bcache s b))) = BSIZE \<Longrightarrow> typed (upd_b b f s)"
  by (simp add: typed_def upd_b_def)

lemma good_upd_b: "(\<And>x. length (b_data x) = BSIZE \<Longrightarrow> length (b_data (f x)) = BSIZE) \<Longrightarrow> good (kmod (upd_b b f))"
  by (intro good_kmod typed_upd_b) (simp_all add: typed_def)

lemma good_disk_rw [good_intros]: "good (disk_rw b w)"
  unfolding disk_rw_def Let_def
proof (rule good_kmod)
  fix s :: "'z fstate_scheme"
  show "typed s \<Longrightarrow> typed (if w then s\<lparr>disk := (disk s)(b_blockno (bcache s b) := b_data (bcache s b)),
      dtrace := dtrace s @ [(b_blockno (bcache s b), b_data (bcache s b))]\<rparr>
     else upd_b b (\<lambda>x. x\<lparr>b_data := disk s (b_blockno (bcache s b))\<rparr>) s)"
    by (simp add: typed_def upd_b_def)
qed (simp add: fs_frame_def upd_b_def)

lemma good_lru: "typed s \<Longrightarrow> typed (lru_push b s)" "typed s \<Longrightarrow> typed (lru_remove b s)"
    "fs_frame (lru_push b s) = fs_frame s" "fs_frame (lru_remove b s) = fs_frame s"
  by (simp_all add: lru_push_def lru_remove_def Let_def typed_upd_b) (simp_all add: typed_def upd_b_def)

lemma good_lock_buf: "good (lock_buf b)"
  by (auto simp: good_def lock_buf_def outcome_simps typed_def upd_b_def fs_frame_def)

lemma good_holding_buf: "good (holding_buf b)"
  by (auto simp: good_def holding_buf_def outcome_simps)

lemma good_bget: "good (bget dev bno)"
proof -
  have "typed t \<and> fs_frame t = fs_frame s" if "typed s" "lock_buf b (upd_b b f s) = Ok (x, t)"
    "\<And>x. b_data (f x) = b_data x" for b f x and s t :: "'z fstate_scheme"
  proof -
    have "typed (upd_b b f s)" using that by (intro typed_upd_b) (simp_all add: typed_def)
    then show ?thesis using goodD [OF good_lock_buf _ that(2)] by simp
  qed
  then show ?thesis by (fastforce simp: good_def bget_def outcome_simps split: option.splits)
qed

lemma good_bio [good_intros]:
  "good (bread dev bno)" "good (bwrite b)" "good (brelse b)" "good (bpin b)" "good (bunpin b)" "good (get_data b)"
proof -
  show "good (bread dev bno)" unfolding bread_def by (intro good_bget good_intros good_kget good_upd_b) simp
  show "good (bwrite b)" unfolding bwrite_def by (intro good_holding_buf good_intros)
  show "good (brelse b)" unfolding brelse_def
    by (intro good_holding_buf good_intros good_kmod) (simp_all add: Let_def good_lru typed_upd_b typed_def [THEN iffD1])
  show "good (bpin b)" "good (bunpin b)" by (simp_all add: bpin_def bunpin_def good_upd_b)
  show "good (get_data b)" by (simp add: get_data_def good_def)
qed

lemma good_set_data: "(\<And>d. length d = BSIZE \<Longrightarrow> length (f d) = BSIZE) \<Longrightarrow> good (set_data b f)"
  by (simp add: set_data_def good_upd_b)

text \<open>The bytes of a buffer have the length of a block.\<close>

lemma good_get_data: "(\<And>d. length d = BSIZE \<Longrightarrow> good (f d)) \<Longrightarrow> good (kbind (get_data b) f)"
  unfolding get_data_def by (rule good_kget) (simp add: typed_def)

lemma good_kget_any [good_intros]: "good (kget g)"
  by (simp add: good_def)

section \<open>The log\<close>

lemma good_log_update:
  assumes "\<And>s. bcache (g s) = bcache s" "\<And>s. disk (g s) = disk s" "\<And>s. itable (g s) = itable s"
    "\<And>s. lh_n s \<le> int LOGSIZE \<Longrightarrow> lh_n (g s) \<le> int LOGSIZE" "\<And>s. fs_frame (g s) = fs_frame s"
  shows "good (kmod g)"
  by (rule good_kmod) (simp_all add: typed_def assms)

lemma length_header_bytes: "length d = BSIZE \<Longrightarrow> n \<le> int LOGSIZE \<Longrightarrow> length (header_bytes n blk d) = BSIZE"
proof -
  assume a: "length d = BSIZE" "n \<le> int LOGSIZE"
  then have b: "4 + 4 * nat n \<le> BSIZE" "length (put32 0 (of_int n) d) = BSIZE"
    by (simp_all add: BSIZE_def LOGSIZE_def MAXOPBLOCKS_def)
  then show ?thesis using header_fold [of "nat n" "put32 0 (of_int n) d" blk] by (simp add: header_bytes_def Let_def)
qed

lemma good_set_header: "typed s \<Longrightarrow> good (set_data b (header_bytes (lh_n s) blk))"
  by (rule good_set_data) (simp add: typed_def length_header_bytes)

lemma good_write_head [good_intros]: "good write_head"
  unfolding write_head_def
  by (rule good_kbind [OF good_kget_any], rule good_prod, rule good_kbind [OF good_bio(1)], rule good_kget)
    (simp only: prod.case, intro good_kseq good_set_header good_bio)

lemma good_copy: "good (kbind (get_data a) (\<lambda>d. kseq (set_data b (\<lambda>_. d)) m))" if "good m"
  by (rule good_get_data) (intro good_intros good_set_data that)

lemma good_commit [good_intros]: "good write_log" "good (install_trans r)" "good commit"
proof -
  show w: "good write_log" unfolding write_log_def log_one_def by (intro good_intros good_copy)
  show i: "good (install_trans r)" for r unfolding install_trans_def install_one_def by (intro good_intros good_copy)
  show "good commit" unfolding commit_def
    by (intro good_intros w i good_log_update) (simp_all add: fs_frame_def)
qed

lemma good_transactions [good_intros]: "good begin_op" "good end_op"
  "good (log_write b :: ('z fstate_scheme, unit) kop)"
proof -
  show "good begin_op" by (auto simp: good_def begin_op_def typed_def fs_frame_def split: if_splits)
  show "good end_op" unfolding end_op_def
    by (intro good_intros good_log_update) (simp_all add: fs_frame_def)
  show "good (log_write b :: ('z fstate_scheme, unit) kop)"
  proof (rule goodI)
    fix s :: "'z fstate_scheme" and x t
    assume s: "typed s" "log_write b s = Ok (x, t)"
    let ?i = "absorb (nat (lh_n s)) (lh_block s) (b_blockno (bcache s b)) 0"
    let ?s = "s\<lparr>lh_block := (lh_block s)(?i := b_blockno (bcache s b))\<rparr>"
    have "lh_n s < int LOGSIZE" and
      t: "t = (if int ?i = lh_n s then (upd_b b (\<lambda>x. x\<lparr>b_refcnt := b_refcnt x + 1\<rparr>) ?s)\<lparr>lh_n := lh_n s + 1\<rparr> else ?s)"
      using s(2) by (auto simp: log_write_def Let_def bpin_def kseq_def kbind_def upd_b_def split: if_splits)
    then show "typed t \<and> fs_frame t = fs_frame s"
      using s(1) by (simp add: typed_def fs_frame_def upd_b_def)
  qed
qed

section \<open>Blocks\<close>

lemma good_bzero [good_intros]: "good (bzero dev bno)"
  unfolding bzero_def by (intro good_intros good_set_data) simp

lemma length_bits: "length (set_bit_at bi d) = length d" "length (clear_bit_at bi d) = length d"
  by (simp_all add: set_bit_at_def clear_bit_at_def)

lemma good_balloc [good_intros]: "good (balloc dev)"
proof -
  have "good (balloc_loop bs dev)" for bs
  proof (induction bs)
    case Nil
    show ?case by (simp only: balloc_loop.simps good_basic)
  next
    case (Cons b bs)
    show ?case unfolding balloc_loop.simps by (intro good_intros good_set_data Cons) (simp_all add: length_bits)
  qed
  then show ?thesis unfolding balloc_def by (intro good_intros)
qed

lemma good_bfree [good_intros]: "good (bfree dev b)"
  unfolding bfree_def by (intro good_intros good_set_data) (simp_all add: length_bits)

section \<open>Inodes\<close>

lemma fs_frame_upd_i [simp]: "fs_frame (upd_i i f s) = fs_frame s"
  by (simp add: fs_frame_def upd_i_def)

lemma typed_upd_i: "typed s \<Longrightarrow> length (i_addrs (f (itable s i))) = NDIRECT + 1 \<Longrightarrow> typed (upd_i i f s)"
  by (simp add: typed_def upd_i_def)

lemma typed_addrs: "typed s \<Longrightarrow> length (i_addrs (itable s i)) = NDIRECT + 1"
  by (simp add: typed_def)

lemma good_upd_i [good_intros]:
  "(\<And>x. length (i_addrs x) = NDIRECT + 1 \<Longrightarrow> length (i_addrs (f x)) = NDIRECT + 1) \<Longrightarrow> good (kmod (upd_i i f))"
  by (intro good_kmod typed_upd_i) (simp_all add: typed_def)

lemma good_iget [good_intros]: "good (iget dev inum)"
proof -
  have "typed s \<Longrightarrow> iget_loop is dev inum v s = Ok (x, t) \<Longrightarrow> typed t \<and> fs_frame t = fs_frame s"
    for "is" v s x and t :: "'a fstate_scheme"
  proof (induction "is" arbitrary: v)
    case Nil
    then show ?case by (auto simp: typed_def upd_i_def fs_frame_def split: option.splits)
  next
    case (Cons i "is")
    then show ?case by (auto simp: typed_def upd_i_def fs_frame_def split: if_splits)
  qed
  then show ?thesis by (auto simp: good_def iget_def)
qed

lemma length_put_dinode:
  "length d = BSIZE \<Longrightarrow> length bs = dinode_size \<Longrightarrow> length (put_bytes (dinode_off i) bs d) = BSIZE"
proof -
  assume a: "length d = BSIZE" "length bs = dinode_size"
  have "unat (i mod IPB) < 16" by (simp add: IPB_def unat_mod)
  then have "dinode_off i + length bs \<le> length d" using a by (simp add: dinode_off_def dinode_size_def BSIZE_def)
  then show ?thesis using a by simp
qed

lemma good_ialloc [good_intros]: "good (ialloc dev ty)"
proof -
  have "good (ialloc_loop ns dev ty)" for ns
  proof (induction ns)
    case Nil
    show ?case by (simp only: ialloc_loop.simps good_basic)
  next
    case (Cons n ns)
    show ?case unfolding ialloc_loop.simps
      by (intro good_intros good_set_data Cons) (simp_all add: length_put_dinode dinode_size_def)
  qed
  then show ?thesis unfolding ialloc_def by (intro good_intros)
qed

lemma length_dinode: "length (i_addrs ip) = NDIRECT + 1 \<Longrightarrow> length (bytes_of_dinode (dinode_of_inode ip)) = dinode_size"
  by (simp add: bytes_of_dinode_def dinode_of_inode_def length_concat comp_def sum_list_triv dinode_size_def NDIRECT_def)

lemma good_iupdate [good_intros]: "good (iupdate i)"
  unfolding iupdate_def
proof (rule good_kget, unfold prod.case)
  fix s :: "'a fstate_scheme"
  assume "typed s"
  then have l: "length (i_addrs (itable s i)) = NDIRECT + 1" by (simp add: typed_def)
  show "good (kbind (bread (i_dev (itable s i)) (IBLOCK (i_inum (itable s i)) (sb s))) (\<lambda>bp.
     kseq (set_data bp (put_bytes (dinode_off (i_inum (itable s i))) (bytes_of_dinode (dinode_of_inode (itable s i))))) (
     kseq (log_write bp) (brelse bp))))"
    by (intro good_intros good_set_data length_put_dinode length_dinode l)
qed

lemma good_sleep_lock [good_intros]: "good (lock_inode i)" "good (iunlock i)"
  by (auto simp: good_def lock_inode_def iunlock_def outcome_simps typed_def upd_i_def fs_frame_def split: if_splits)

lemma good_idup [good_intros]: "good (idup i)"
  unfolding idup_def by (intro good_intros) simp

lemma good_ilock [good_intros]: "good (ilock i)"
  unfolding ilock_def by (intro good_intros) (simp_all add: dinode_of_bytes_def)

lemma good_itrunc [good_intros]: "good (itrunc i)"
  unfolding itrunc_def itrunc_direct_def by (intro good_intros) simp_all

lemma good_iput [good_intros]: "good (iput i)" "good (iunlockput i)"
proof -
  show p: "good (iput i)" for i unfolding iput_def by (intro good_intros) simp_all
  show "good (iunlockput i)" unfolding iunlockput_def by (intro good_intros p)
qed

lemma good_bmap [good_intros]: "good (bmap i bn)"
  unfolding bmap_def
  by (intro good_intros good_set_data) (auto simp: NINDIRECT_def BSIZE_def)

section \<open>Contents of inodes\<close>

lemma if_apply: "(if b then f else g) x = (if b then f x else g x)"
  by simp

lemma option_apply: "(case o' of None \<Rightarrow> f | Some x \<Rightarrow> g x) y = (case o' of None \<Rightarrow> f y | Some x \<Rightarrow> g x y)"
  by (cases o') simp_all

lemma readi_loop_kop:
  "readi_loop sink i off tot k =
     (if k = 0 then kret (int tot, [])
      else kbind (bmap i (off div BSIZE)) (\<lambda>addr.
        if addr = 0 then kret (int tot, [])
        else kbind (kget (\<lambda>s. i_dev (itable s i))) (\<lambda>dev.
             kbind (bread dev addr) (\<lambda>bp.
             kbind (kget (\<lambda>s. take (min k (BSIZE - off mod BSIZE)) (drop (off mod BSIZE) (b_data (bcache s bp))))) (\<lambda>bs.
             kbind (sink tot bs) (\<lambda>r.
               if r = - 1 then kseq (brelse bp) (kret (- 1, []))
               else kseq (brelse bp) (
                    kbind (readi_loop sink i (off + min k (BSIZE - off mod BSIZE)) (tot + min k (BSIZE - off mod BSIZE))
                      (k - min k (BSIZE - off mod BSIZE))) (\<lambda>(t, rest). kret (t, bs @ rest)))))))))"
  by (rule ext, subst readi_loop.simps)
    (simp add: kbind_def kseq_def kget_def kret_def Let_def split_def if_apply cong: if_cong)

lemma writei_loop_kop:
  "writei_loop src i off tot k =
     (if k = 0 then kret tot
      else kbind (bmap i (off div BSIZE)) (\<lambda>addr.
        if addr = 0 then kret tot
        else kbind (kget (\<lambda>s. i_dev (itable s i))) (\<lambda>dev.
             kbind (bread dev addr) (\<lambda>bp.
             kbind (src tot (min k (BSIZE - off mod BSIZE))) (\<lambda>(r, bs).
             kseq (set_data bp (put_bytes (off mod BSIZE) bs)) (
               if r = - 1 then kseq (brelse bp) (kret tot)
               else kseq (log_write bp) (kseq (brelse bp) (
                    writei_loop src i (off + min k (BSIZE - off mod BSIZE)) (tot + min k (BSIZE - off mod BSIZE))
                      (k - min k (BSIZE - off mod BSIZE))))))))))"
  by (rule ext, subst writei_loop.simps)
    (simp add: kbind_def kseq_def kget_def kret_def Let_def split_def if_apply cong: if_cong)

lemma chunk_pos: "0 < k \<Longrightarrow> 0 < min k (BSIZE - off mod BSIZE)"
  by (simp add: BSIZE_def)

lemma good_readi_loop:
  assumes "\<And>tot bs. good (sink tot bs)"
  shows "good (readi_loop sink i off tot k)"
proof (induction k arbitrary: off tot rule: less_induct)
  case (less k)
  show ?case
  proof (cases "k = 0")
    case True
    then show ?thesis by (subst readi_loop_kop) (simp only: simp_thms if_True good_basic)
  next
    case False
    then have "good (readi_loop sink i o' t' (k - min k (BSIZE - off mod BSIZE)))" for o' t'
      using chunk_pos [of k off] by (intro less) simp
    then show ?thesis using False
      by (subst readi_loop_kop) (simp only: if_False, intro good_intros assms)
  qed
qed

lemma good_readi [good_intros]:
  assumes "\<And>tot bs. good (sink tot bs)"
  shows "good (readi sink i off n)"
proof (rule goodI)
  fix s x t
  assume s: "typed s" "readi sink i off n s = Ok (x, t)"
  show "typed t \<and> fs_frame t = fs_frame s"
  proof (cases "off > i_size (itable s i) \<or> off + n < off")
    case True
    then show ?thesis using s by (auto simp: readi_def Let_def)
  next
    case False
    then obtain k where r: "readi_loop sink i (unat off) 0 k s = Ok (x, t)" using s(2) by (auto simp: readi_def Let_def)
    have g: "good (readi_loop sink i (unat off) 0 k)" by (rule good_readi_loop) (rule assms)
    show ?thesis by (rule goodD [OF g, OF s(1) r])
  qed
qed

text \<open>A source delivers at most the bytes it is asked for.\<close>

definition bounded_source :: "(nat \<Rightarrow> nat \<Rightarrow> ('z fstate_scheme, int \<times> u8 list) kop) \<Rightarrow> bool" where
  "bounded_source src \<longleftrightarrow> (\<forall>tot m s r bs t. src tot m s = Ok ((r, bs), t) \<longrightarrow> length bs \<le> m \<and> t = s)"

lemma good_writei_loop:
  assumes "bounded_source src"
  shows "good (writei_loop src i off tot k)"
proof (induction k arbitrary: off tot rule: less_induct)
  case (less k)
  show ?case
  proof (cases "k = 0")
    case True
    then show ?thesis by (subst writei_loop_kop) (simp only: simp_thms if_True good_basic)
  next
    case False
    let ?m = "min k (BSIZE - off mod BSIZE)"
    have ih: "good (writei_loop src i o' t' (k - ?m))" for o' t'
      using False chunk_pos [of k off] by (intro less) simp
    have "off mod BSIZE < BSIZE" by (simp add: BSIZE_def)
    then have o: "off mod BSIZE + ?m \<le> BSIZE" by linarith
    have c: "good (kbind (src tot ?m) (\<lambda>(r, bs). kseq (set_data bp (put_bytes (off mod BSIZE) bs)) (
               if r = - 1 then kseq (brelse bp) (kret tot)
               else kseq (log_write bp) (kseq (brelse bp) (writei_loop src i (off + ?m) (tot + ?m) (k - ?m))))))" for bp
    proof (rule goodI)
      fix s x t
      assume s: "typed s" "kbind (src tot ?m) (\<lambda>(r, bs). kseq (set_data bp (put_bytes (off mod BSIZE) bs)) (
               if r = - 1 then kseq (brelse bp) (kret tot)
               else kseq (log_write bp) (kseq (brelse bp) (writei_loop src i (off + ?m) (tot + ?m) (k - ?m))))) s = Ok (x, t)"
      then obtain r bs u where u: "src tot ?m s = Ok ((r, bs), u)" by (auto simp: kbind_def outcome_simps)
      then have "length bs \<le> ?m \<and> u = s" using assms unfolding bounded_source_def by blast
      then have b: "length bs \<le> ?m" "u = s" by blast+
      then have "off mod BSIZE + length bs \<le> BSIZE" using o by linarith
      then have g: "good (kseq (set_data bp (put_bytes (off mod BSIZE) bs)) (
               if r = - 1 then kseq (brelse bp) (kret tot)
               else kseq (log_write bp) (kseq (brelse bp) (writei_loop src i (off + ?m) (tot + ?m) (k - ?m)))))"
        by (intro good_intros good_set_data ih) simp
      have e: "kseq (set_data bp (put_bytes (off mod BSIZE) bs)) (
               if r = - 1 then kseq (brelse bp) (kret tot)
               else kseq (log_write bp) (kseq (brelse bp) (writei_loop src i (off + ?m) (tot + ?m) (k - ?m)))) s = Ok (x, t)"
        using s(2) u b(2) by (simp add: kbind_Ok)
      show "typed t \<and> fs_frame t = fs_frame s" by (rule goodD [OF g, OF s(1) e])
    qed
    show ?thesis using False
      by (subst writei_loop_kop) (simp only: if_False, rule good_kbind [OF good_bmap], rule good_if,
        rule good_basic, rule good_kbind [OF good_kget_any], rule good_kbind [OF good_bio(1)], rule c)
  qed
qed

lemma good_writei:
  assumes "bounded_source src"
  shows "good (writei src i off n)"
proof (rule goodI)
  fix s x t
  assume s: "typed s" "writei src i off n s = Ok (x, t)"
  show "typed t \<and> fs_frame t = fs_frame s"
  proof (cases "off > i_size (itable s i) \<or> off + n < off \<or> unat (off + n) > MAXFILE * BSIZE")
    case True
    then show ?thesis using s by (auto simp: writei_def Let_def split: if_splits)
  next
    case False
    then obtain tot u v where u: "writei_loop src i (unat off) 0 (unat n) s = Ok (tot, u)"
      and v: "iupdate i (if off + of_nat tot > i_size (itable u i) then upd_i i (\<lambda>x. x\<lparr>i_size := off + of_nat tot\<rparr>) u else u) =
        Ok ((), t)"
      using s(2) by (auto simp: writei_def Let_def outcome_simps)
    have t1: "typed u \<and> fs_frame u = fs_frame s" by (rule goodD [OF good_writei_loop [OF assms], OF s(1) u])
    then have t2: "typed (if off + of_nat tot > i_size (itable u i) then upd_i i (\<lambda>x. x\<lparr>i_size := off + of_nat tot\<rparr>) u else u)"
      by (simp add: typed_upd_i typed_addrs)
    show ?thesis using goodD [OF good_iupdate, OF t2 v] t1 by (simp split: if_splits)
  qed
qed

lemma good_sinks [good_intros]: "good (to_local tot bs)" "good (to_addr u d tot bs)"
  by (auto simp: good_def to_local_def to_addr_def either_copyout_def with_proc_def on_mem_def outcome_simps typed_def
      fs_frame_def split: option.splits if_splits)

lemma copyin_length: "copyin pt va n km = Ok (r, bs) \<Longrightarrow> length bs \<le> n"
proof (induction pt va n km arbitrary: r bs rule: copyin.induct)
  case (1 pt va n km)
  show ?case
  proof (cases "n = 0")
    case True
    then show ?thesis using 1(2) by (simp add: copyin.simps [of pt va])
  next
    case False
    let ?k = "min (4096 - unat (va - PGROUNDDOWN va)) n"
    from 1(2) False obtain pa where pa: "walkaddr pt (PGROUNDDOWN va) km = Ok pa"
      by (auto simp: copyin.simps [of pt va n] Let_def outcome_simps)
    show ?thesis
    proof (cases "pa = 0")
      case True
      then show ?thesis using 1(2) False pa by (simp add: copyin.simps [of pt va n] Let_def)
    next
      case nz: False
      then obtain rest where rest: "copyin pt (PGROUNDDOWN va + PGSIZE) (n - ?k) km = Ok (r, rest)"
          "bs = load_bytes (mem km) (pa + (va - PGROUNDDOWN va)) ?k @ rest"
        using 1(2) False pa by (auto simp: copyin.simps [of pt va n] Let_def outcome_simps)
      then have "length rest \<le> n - ?k" using 1(1) [OF False refl pa nz refl refl] by simp
      then show ?thesis using rest(2) by simp
    qed
  qed
qed

lemma bounded_sources: "bounded_source (from_local bs)" "bounded_source (from_addr u a)"
  by (auto simp: bounded_source_def from_local_def from_addr_def either_copyin_def with_proc_def outcome_simps
      split: option.splits if_splits dest: copyin_length)

section \<open>Directories and paths\<close>

lemma good_read_dirent [good_intros]: "good (read_dirent msg dp off)"
  unfolding read_dirent_def by (intro good_intros)

lemma good_dirlookup [good_intros]: "good (dirlookup dp name)"
proof -
  have "good (dirlookup_loop offs dp name)" for offs
  proof (induction offs)
    case Nil
    show ?case by (simp only: dirlookup_loop.simps good_basic)
  next
    case (Cons o' offs)
    show ?case unfolding dirlookup_loop.simps by (intro good_intros Cons)
  qed
  then show ?thesis unfolding dirlookup_def by (intro good_intros)
qed

lemma good_dirlink [good_intros]: "good (dirlink dp name inum)"
proof -
  have "good (dirlink_slot offs dp l)" for offs l
  proof (induction offs arbitrary: l)
    case Nil
    show ?case by (simp only: dirlink_slot.simps good_basic)
  next
    case (Cons o' offs)
    show ?case unfolding dirlink_slot.simps by (intro good_intros Cons)
  qed
  then show ?thesis unfolding dirlink_def by (intro good_intros good_writei bounded_sources)
qed

lemma namex_loop_kop:
  "namex_loop ip path par name =
     (case skipelem path name of
        None \<Rightarrow> if par then kseq (iput ip) (kret (None, name)) else kret (Some ip, name)
      | Some (path, name) \<Rightarrow>
          kseq (ilock ip) (kbind (kget (\<lambda>s. i_type (itable s ip))) (\<lambda>ty.
            if ty \<noteq> T_DIR then kseq (iunlockput ip) (kret (None, name))
            else if par \<and> path = [] then kseq (iunlock ip) (kret (Some ip, name))
            else kbind (dirlookup ip name) (\<lambda>next. case next of
                   None \<Rightarrow> kseq (iunlockput ip) (kret (None, name))
                 | Some (next, _) \<Rightarrow> kseq (iunlockput ip) (namex_loop next path par name)))))"
  by (rule ext, subst namex_loop.simps)
    (simp add: kbind_def kseq_def kget_def kret_def split_def if_apply option_apply cong: if_cong option.case_cong)

lemma good_namex_loop: "good (namex_loop ip path par name)"
proof (induction path arbitrary: ip name rule: measure_induct_rule [where f = length])
  case (less path)
  show ?case
  proof (cases "skipelem path name")
    case None
    then show ?thesis by (subst namex_loop_kop) (simp only: option.case, intro good_intros)
  next
    case (Some a)
    obtain path' name' where a: "a = (path', name')" by fastforce
    have s: "skipelem path name = Some (path', name')" using Some a by simp
    show ?thesis
      by (subst namex_loop_kop)
        (simp only: s option.case prod.case, intro good_intros less skipelem_shorter [OF s])
  qed
qed

lemma good_namex [good_intros]: "good (namex path par name)"
proof (rule goodI)
  fix s x t
  assume s: "typed s" "namex path par name s = Ok (x, t)"
  then obtain ip u where u: "namex_loop ip path par name u = Ok (x, t)" "typed u \<and> fs_frame u = fs_frame s"
    by (auto simp: namex_def with_proc_def outcome_simps split: if_splits option.splits
        dest: goodD [OF good_iget] goodD [OF good_idup])
  then show "typed t \<and> fs_frame t = fs_frame s" using goodD [OF good_namex_loop, of u] by auto
qed

lemma good_namei [good_intros]: "good (namei path)" "good (nameiparent path name)"
  unfolding namei_def nameiparent_def by (intro good_intros)+

end
