(* ===== verification/Demo_Fs.thy ===== *)
theory Demo_Fs
  imports Cache_Props Fs_Types
begin

text \<open>
  A concrete machine with a file system: the machine of \<open>Txn\<close> with a superblock and one cached inode, an
  empty root directory. It shows that the hypotheses of the properties can hold.
\<close>

definition demo_sb :: superblock where
  "demo_sb = \<lparr>sb_magic = FSMAGIC, sb_size = 2000, sb_nblocks = 1954, sb_ninodes = 200, sb_nlog = 30,
     sb_logstart = 2, sb_inodestart = 32, sb_bmapstart = 45\<rparr>"

definition demo_inode :: inode where
  "demo_inode = \<lparr>i_dev = ROOTDEV, i_inum = ROOTINO, i_ref = 1, i_lock = initsleeplock ''inode'', i_valid = True,
     i_type = T_DIR, i_major = 0, i_minor = 0, i_nlink = 1, i_size = 0, i_addrs = replicate 13 0\<rparr>"

definition demo_fs :: "(u32 \<Rightarrow> block) \<Rightarrow> fstate" where
  "demo_fs D = lstate.extend (demo_boot D) \<lparr>sb = demo_sb, itable = (\<lambda>_. demo_inode)\<rparr>"

lemma demo_fs_simps [simp]:
  "lg_start (demo_fs D) = 2" "lg_size (demo_fs D) = 30" "lg_outstanding (demo_fs D) = 0"
  "\<not> lg_committing (demo_fs D)" "lg_dev (demo_fs D) = ROOTDEV" "lh_n (demo_fs D) = 0"
  "disk (demo_fs D) = D" "dtrace (demo_fs D) = []" "myproc (demo_fs D) = Some 5" "sb (demo_fs D) = demo_sb"
  "itable (demo_fs D) = (\<lambda>_. demo_inode)" "bcache (demo_fs D) = bcache (demo_boot D)"
  "k_proc (demo_fs D) = k_proc (demo_boot D)"
proof -
  show "myproc (demo_fs D) = Some 5"
    using demo_boot_simps(9) [of D] by (simp add: demo_fs_def lstate.defs myproc_def mycpu_def)
qed (simp_all add: demo_fs_def lstate.defs)

lemma binit_data: "b_data (bcache (binit s) b) = b_data (bcache s b)"
proof -
  let ?s = "upd_b bhead (\<lambda>x. x\<lparr>b_prev := bhead, b_next := bhead\<rparr>) s"
  have e: "binit s = fold binit_body [0..<NBUF] ?s"
    unfolding binit_def by (rule arg_cong [where f = "\<lambda>f. fold f [0..<NBUF] ?s"]) (simp add: binit_body_def fun_eq_iff)
  have "\<forall>b. bcore (bcache (binit s) b) =
      bcore (if b < NBUF then (bcache ?s b)\<lparr>b_lock := initsleeplock ''buffer''\<rparr> else bcache ?s b)"
    using binit_fold [of NBUF ?s, folded e] by simp
  then have "bcore (bcache (binit s) b) =
      bcore (if b < NBUF then (bcache ?s b)\<lparr>b_lock := initsleeplock ''buffer''\<rparr> else bcache ?s b)" by blast
  then show ?thesis by (auto simp: bcore_def split: if_splits)
qed

lemma demo_fs_typed: "(\<And>n. length (D n) = BSIZE) \<Longrightarrow> typed (demo_fs D)"
proof -
  assume d: "\<And>n. length (D n) = BSIZE"
  have "b_data (bcache (demo_boot D) b) = replicate BSIZE 0" for b
    unfolding demo_boot_def binit_data by (simp add: bstate.defs cstate.defs zero_buf_def)
  then show ?thesis using d by (simp add: typed_def demo_inode_def NDIRECT_def LOGSIZE_def)
qed

lemma demo_fs_cache: "cache {} (\<lambda>_. 0) demo_disk demo_disk [] (demo_fs demo_disk)"
proof -
  let ?s = "demo_fs demo_disk" and ?t = "demo_boot demo_disk"
  have c: "cached ?s = cached ?t" by (simp add: cached_def fun_eq_iff)
  have "lru ?s = lru ?t" by (simp add: lru_def fun_eq_iff)
  moreover have "cview ?s = cview ?t" by (simp add: cview_def fun_eq_iff cong: option.case_cong)
  ultimately show ?thesis using demo_cache by (simp add: cache_def cinv_def c)
qed

text \<open>Looking up a name in the empty root directory.\<close>

lemma upd_i_simps [simp]:
  "myproc (upd_i i f s) = myproc s" "k_proc (upd_i i f s) = k_proc s" "itable (upd_i i f s) = (itable s)(i := f (itable s i))"
  "lg_outstanding (upd_i i f s) = lg_outstanding s" "lg_committing (upd_i i f s) = lg_committing s" "lh_n (upd_i i f s) = lh_n s"
  by (simp_all add: upd_i_def myproc_def mycpu_def)

lemma demo_lookup_fails:
  assumes s: "itable s = (\<lambda>_. demo_inode)" "myproc s = Some p"
  shows "\<exists>t. namei [0x2F, 0x61] s = Ok (None, t) \<and> lg_outstanding t = lg_outstanding s \<and>
     lg_committing t = lg_committing s \<and> lh_n t = lh_n s"
proof -
  let ?s1 = "upd_i 0 (\<lambda>x. x\<lparr>i_ref := i_ref x + 1\<rparr>) s"
  have "[0..<NINODE] = 0 # [1..<NINODE]" by (simp add: NINODE_def upt_conv_Cons)
  then have 1: "iget ROOTDEV ROOTINO s = Ok (0, ?s1)" by (simp add: iget_def s demo_inode_def)
  have "sleep_acquire (i_lock (itable ?s1 0)) ?s1 = Ok (locked_by (p_pid (k_proc s p)) (i_lock demo_inode))"
    by (simp add: sleep_acquire_def s demo_inode_def initsleeplock_def with_proc_def acquiresleep_def locked_by_def)
  then have 2: "ilock 0 ?s1 = Ok ((), upd_i 0 (\<lambda>x. x\<lparr>i_lock := locked_by (p_pid (k_proc s p)) (i_lock demo_inode)\<rparr>) ?s1)"
    (is "_ = Ok ((), ?s2)")
    by (simp add: ilock_def kseq_def kbind_def lock_inode_def s) (simp add: demo_inode_def)
  have 3: "dirlookup 0 nm ?s2 = Ok (None, ?s2)" for nm
    by (simp add: dirlookup_def s demo_inode_def dir_offsets_def dirent_size_def)
  let ?s3 = "upd_i 0 (\<lambda>x. x\<lparr>i_lock := releasesleep (i_lock x)\<rparr>) ?s2"
  have 4: "iunlockput 0 ?s2 = Ok ((), upd_i 0 (\<lambda>x. x\<lparr>i_ref := i_ref x - 1\<rparr>) ?s3)"
    by (simp add: iunlockput_def iput_def kseq_def kbind_def iunlock_def sleep_holding_def holdingsleep_def with_proc_def
        s demo_inode_def locked_by_def)
  have k: "skipelem [0x2F, 0x61] (replicate DIRSIZ 0) = Some ([], put_bytes 0 [0x61, 0] (replicate DIRSIZ 0))"
    by (simp add: skipelem_def DIRSIZ_def)
  have "namex_loop 0 [0x2F, 0x61] False (replicate DIRSIZ 0) ?s1 =
      Ok ((None, put_bytes 0 [0x61, 0] (replicate DIRSIZ 0)), upd_i 0 (\<lambda>x. x\<lparr>i_ref := i_ref x - 1\<rparr>) ?s3)"
    by (subst namex_loop.simps) (simp add: k 2 3 4)
  then show ?thesis using 1 by (simp add: namei_def namex_def kbind_def)
qed

end
