(* ===== verification/Exec_Props.thy ===== *)
theory Exec_Props
  imports Sysfile Demo_Fs
begin

text \<open>
  The types of the file system through the system calls of \<open>sysfile.c\<close> and through \<open>exec\<close>, and what a
  failing \<open>exec\<close> leaves of the calling process.
\<close>

section \<open>System calls on files\<close>

lemma good_nlink_add [good_intros]: "good (nlink_add i d)"
  unfolding nlink_add_def by (intro good_intros) simp

lemma good_kget_i [good_intros]: "good (kget_i i f)"
  unfolding kget_i_def by (rule good_kget_any)

lemma good_isdirempty [good_intros]: "good (isdirempty dp)"
proof -
  have "good (isdirempty_loop offs dp)" for offs
  proof (induction offs)
    case Nil
    show ?case by (simp only: isdirempty_loop.simps good_basic)
  next
    case (Cons o' offs)
    show ?case unfolding isdirempty_loop.simps by (intro good_intros Cons)
  qed
  then show ?thesis unfolding isdirempty_def by (intro good_intros)
qed

lemma good_create [good_intros]: "good (create path ty major minor)"
  unfolding create_def by (intro good_intros) (simp_all, (intro good_intros, simp)+)

lemma good_open_inode [good_intros]: "good (open_inode path omode)"
  unfolding open_inode_def by (intro good_intros)



section \<open>exec\<close>

lemma good_on_mem [good_intros]: "good (on_mem f)" "good (klift (on_memu g))"
  by (auto simp: good_def on_mem_def klift_def on_memu_def outcome_simps typed_def fs_frame_def)

lemma good_kproc [good_intros]: "good kproc" "good (kget_p p f)"
  by (auto simp: good_def kproc_def with_proc_def kget_p_def split: option.splits)

lemma good_freepagetable [good_intros]: "good (klift (proc_freepagetable pt sz))"
  by (auto simp: good_def proc_freepagetable_def klift_def on_memu_def outcome_simps typed_def fs_frame_def)

lemma good_proc_pagetable [good_intros]: "good (proc_pagetable p)"
  by (rule goodI)
    (auto simp: proc_pagetable_def on_mem_def on_memu_def outcome_simps typed_def fs_frame_def Let_def split: prod.splits if_splits)

lemma good_walk [good_intros]: "good (\<lambda>s. obind (walkaddr pt va (k_mem s)) (\<lambda>pa. Ok (pa, s)))"
  by (auto simp: good_def outcome_simps)

lemma good_loadseg [good_intros]: "good (loadseg pt va ip off sz)"
proof -
  have "good (loadseg_loop ks pt va ip off sz)" for ks
  proof (induction ks)
    case Nil
    show ?case by (simp only: loadseg_loop.simps good_basic)
  next
    case (Cons k ks)
    show ?case unfolding loadseg_loop.simps by (intro good_intros Cons)
  qed
  then show ?thesis unfolding loadseg_def by (intro good_intros)
qed

lemma good_exec_load [good_intros]: "good (exec_load k off ip pt sz)"
proof (induction k arbitrary: off sz)
  case 0
  show ?case by (simp only: exec_load.simps good_basic)
next
  case (Suc k)
  show ?case unfolding exec_load.simps by (intro good_intros Suc)
qed

lemma good_exec_push [good_intros]: "good (exec_push as pt base sp us)"
proof (induction "as" arbitrary: sp us)
  case Nil
  show ?case by (simp only: exec_push.simps good_basic)
next
  case (Cons a "as")
  have "good (kstrlen a)" by (auto simp: good_def kstrlen_def split: option.splits)
  then show ?case unfolding exec_push.simps by (intro good_intros Cons)
qed

lemma good_exec_bad [good_intros]: "good (exec_bad pt sz ip)"
  unfolding exec_bad_def by (intro good_intros)

text \<open>Operations that change the process only when their result is not an error.\<close>

definition clean_failure :: "('z fstate_scheme, int) kop \<Rightarrow> bool" where
  "clean_failure m \<longleftrightarrow> (\<forall>s r t. typed s \<longrightarrow> m s = Ok (r, t) \<longrightarrow> r < 0 \<longrightarrow> typed t \<and> fs_frame t = fs_frame s)"

definition never_fails :: "('s, int) kop \<Rightarrow> bool" where
  "never_fails m \<longleftrightarrow> (\<forall>s r t. m s = Ok (r, t) \<longrightarrow> 0 \<le> r)"

named_theorems clean_intros \<open>operations that change the process only when they succeed\<close>

lemma never_fails_intros:
  "never_fails (kret (int n))" "never_fails n' \<Longrightarrow> never_fails (kseq m n')"
  "(\<And>x. never_fails (f x)) \<Longrightarrow> never_fails (kbind m' f)"
  by (auto simp: never_fails_def kseq_def kbind_def outcome_simps)

lemma clean_never_fails: "never_fails m \<Longrightarrow> clean_failure m"
  by (force simp: clean_failure_def never_fails_def)

lemma clean_good: "good m \<Longrightarrow> clean_failure m"
  by (simp add: clean_failure_def good_def)

lemma clean_kbind [clean_intros]:
  assumes "good m" "\<And>x. clean_failure (f x)"
  shows "clean_failure (kbind m f)"
  unfolding clean_failure_def
proof (intro allI impI)
  fix s r u
  assume s: "typed s" "kbind m f s = Ok (r, u)" "r < 0"
  then obtain x t where x: "m s = Ok (x, t)" "f x t = Ok (r, u)" by (auto simp: kbind_def outcome_simps)
  have t: "typed t \<and> fs_frame t = fs_frame s" by (rule goodD [OF assms(1), OF s(1) x(1)])
  then have "typed u \<and> fs_frame u = fs_frame t" using assms(2) [of x] x(2) s(3) unfolding clean_failure_def by blast
  then show "typed u \<and> fs_frame u = fs_frame s" using t by simp
qed

lemma clean_kseq [clean_intros]: "good m \<Longrightarrow> clean_failure n \<Longrightarrow> clean_failure (kseq m n)"
  by (simp add: kseq_def clean_kbind)

lemma clean_if [clean_intros]: "(b \<Longrightarrow> clean_failure m) \<Longrightarrow> (\<not> b \<Longrightarrow> clean_failure n) \<Longrightarrow> clean_failure (if b then m else n)"
  by simp

lemma clean_Let [clean_intros]: "(\<And>x. x = e \<Longrightarrow> clean_failure (f x)) \<Longrightarrow> clean_failure (let x = e in f x)"
  by simp

lemma clean_option [clean_intros]:
  "clean_failure m \<Longrightarrow> (\<And>x. clean_failure (f x)) \<Longrightarrow> clean_failure (case o' of None \<Rightarrow> m | Some x \<Rightarrow> f x)"
  by (cases o') simp_all

lemma clean_prod [clean_intros]: "(\<And>a b. clean_failure (f a b)) \<Longrightarrow> clean_failure (case p of (a, b) \<Rightarrow> f a b)"
  by (cases p) simp

lemma clean_bad [clean_intros]: "clean_failure (exec_bad pt sz ip)"
  by (rule clean_good) (rule good_exec_bad)

text \<open>The end of \<open>exec\<close>, after the last test, returns the number of arguments.\<close>

lemma clean_replace [clean_intros]: "clean_failure (kseq (kmod (write_tf p off v)) (kseq (kmod_p p f) (kbind (kget_p p g) (\<lambda>x.
    kseq (h x) (kseq (kmod (write_tf p off' v')) (kseq (kmod (write_tf p off'' v'')) (kseq (k x) (kret (int n)))))))))"
  by (intro clean_never_fails never_fails_intros)

lemma clean_exec_stack [clean_intros]: "clean_failure (exec_stack path argv elf pt sz)"
  unfolding exec_stack_def
  by (intro clean_intros) (intro good_intros)+

lemma clean_exec: "clean_failure (exec path argv)"
  unfolding exec_def
  by (intro clean_intros) (intro good_intros clean_good)+



end
