(* ===== verification/Virtio.thy ===== *)
theory Virtio
  imports Bio
begin

text \<open>
  \<open>kernel/virtio_disk.c\<close> and \<open>kernel/virtio.h\<close>: the driver of the virtio disk.

  The memory that driver and device share is the record \<open>vdisk\<close>: the descriptor table, the available
  ring, the used ring, the command headers \<open>disk.ops\<close>, the status bytes \<open>disk.info[].status\<close> and the data
  of the buffers. Descriptors hold addresses of such objects; an address is the name of the object, a
  \<open>struct buf *\<close> is a number as in \<open>Bio\<close>. Array indices from \<open>NUM\<close> on lie behind the arrays. The memory-mapped
  registers are the device's: reading one is a parameter \<open>rd\<close>, a function of the writes so far, which
  \<open>mmio\<close> records with the oldest first.

  \<open>virtio_disk_rw\<close> sleeps for descriptors and for the completion of its request; \<open>Inl\<close> are its local
  variables when it does, \<open>virtio_disk_rw_resume\<close> goes on from there. Critical sections under
  \<open>vdisk_lock\<close> are single steps, except that \<open>virtio_disk_intr\<close> also exists as its three pieces, because the
  device may act between two iterations of its loop.
\<close>

section \<open>virtio.h\<close>

definition VIRTIO_MMIO_MAGIC_VALUE :: u64 where "VIRTIO_MMIO_MAGIC_VALUE = 0x000"
definition VIRTIO_MMIO_VERSION :: u64 where "VIRTIO_MMIO_VERSION = 0x004"
definition VIRTIO_MMIO_DEVICE_ID :: u64 where "VIRTIO_MMIO_DEVICE_ID = 0x008"
definition VIRTIO_MMIO_VENDOR_ID :: u64 where "VIRTIO_MMIO_VENDOR_ID = 0x00c"
definition VIRTIO_MMIO_DEVICE_FEATURES :: u64 where "VIRTIO_MMIO_DEVICE_FEATURES = 0x010"
definition VIRTIO_MMIO_DRIVER_FEATURES :: u64 where "VIRTIO_MMIO_DRIVER_FEATURES = 0x020"
definition VIRTIO_MMIO_QUEUE_SEL :: u64 where "VIRTIO_MMIO_QUEUE_SEL = 0x030"
definition VIRTIO_MMIO_QUEUE_NUM_MAX :: u64 where "VIRTIO_MMIO_QUEUE_NUM_MAX = 0x034"
definition VIRTIO_MMIO_QUEUE_NUM :: u64 where "VIRTIO_MMIO_QUEUE_NUM = 0x038"
definition VIRTIO_MMIO_QUEUE_READY :: u64 where "VIRTIO_MMIO_QUEUE_READY = 0x044"
definition VIRTIO_MMIO_QUEUE_NOTIFY :: u64 where "VIRTIO_MMIO_QUEUE_NOTIFY = 0x050"
definition VIRTIO_MMIO_INTERRUPT_STATUS :: u64 where "VIRTIO_MMIO_INTERRUPT_STATUS = 0x060"
definition VIRTIO_MMIO_INTERRUPT_ACK :: u64 where "VIRTIO_MMIO_INTERRUPT_ACK = 0x064"
definition VIRTIO_MMIO_STATUS :: u64 where "VIRTIO_MMIO_STATUS = 0x070"
definition VIRTIO_MMIO_QUEUE_DESC_LOW :: u64 where "VIRTIO_MMIO_QUEUE_DESC_LOW = 0x080"
definition VIRTIO_MMIO_QUEUE_DESC_HIGH :: u64 where "VIRTIO_MMIO_QUEUE_DESC_HIGH = 0x084"
definition VIRTIO_MMIO_DRIVER_DESC_LOW :: u64 where "VIRTIO_MMIO_DRIVER_DESC_LOW = 0x090"
definition VIRTIO_MMIO_DRIVER_DESC_HIGH :: u64 where "VIRTIO_MMIO_DRIVER_DESC_HIGH = 0x094"
definition VIRTIO_MMIO_DEVICE_DESC_LOW :: u64 where "VIRTIO_MMIO_DEVICE_DESC_LOW = 0x0a0"
definition VIRTIO_MMIO_DEVICE_DESC_HIGH :: u64 where "VIRTIO_MMIO_DEVICE_DESC_HIGH = 0x0a4"

definition VIRTIO_CONFIG_S_ACKNOWLEDGE :: u32 where "VIRTIO_CONFIG_S_ACKNOWLEDGE = 1"
definition VIRTIO_CONFIG_S_DRIVER :: u32 where "VIRTIO_CONFIG_S_DRIVER = 2"
definition VIRTIO_CONFIG_S_DRIVER_OK :: u32 where "VIRTIO_CONFIG_S_DRIVER_OK = 4"
definition VIRTIO_CONFIG_S_FEATURES_OK :: u32 where "VIRTIO_CONFIG_S_FEATURES_OK = 8"

definition VIRTIO_BLK_F_RO :: nat where "VIRTIO_BLK_F_RO = 5"
definition VIRTIO_BLK_F_SCSI :: nat where "VIRTIO_BLK_F_SCSI = 7"
definition VIRTIO_BLK_F_CONFIG_WCE :: nat where "VIRTIO_BLK_F_CONFIG_WCE = 11"
definition VIRTIO_BLK_F_MQ :: nat where "VIRTIO_BLK_F_MQ = 12"
definition VIRTIO_F_ANY_LAYOUT :: nat where "VIRTIO_F_ANY_LAYOUT = 27"
definition VIRTIO_RING_F_INDIRECT_DESC :: nat where "VIRTIO_RING_F_INDIRECT_DESC = 28"
definition VIRTIO_RING_F_EVENT_IDX :: nat where "VIRTIO_RING_F_EVENT_IDX = 29"

definition NUM :: nat where "NUM = 8"

datatype vaddr = ANull | AOps nat | AData nat | AStatus nat

record virtq_desc =
  d_addr :: vaddr
  d_len :: u32
  d_flags :: u16
  d_next :: u16

definition VRING_DESC_F_NEXT :: u16 where "VRING_DESC_F_NEXT = 1"
definition VRING_DESC_F_WRITE :: u16 where "VRING_DESC_F_WRITE = 2"

definition VIRTIO_BLK_T_IN :: u32 where "VIRTIO_BLK_T_IN = 0"
definition VIRTIO_BLK_T_OUT :: u32 where "VIRTIO_BLK_T_OUT = 1"

record virtio_blk_req =
  rq_type :: u32
  rq_reserved :: u32
  rq_sector :: u64

definition blk_req_size :: u32 where "blk_req_size = 16"

text \<open>
  \<open>struct disk\<close>: the three pages that \<open>desc\<close>, \<open>avail\<close> and \<open>used\<close> point to, with their contents; of the used
  ring's elements the driver reads the \<open>id\<close>. \<open>vb_disk\<close>, \<open>vb_blockno\<close>, \<open>vb_data\<close> are the members of \<open>struct buf\<close>
  that the driver uses.
\<close>

record vdisk =
  vd_pages :: "u64 \<times> u64 \<times> u64"
  vd_desc :: "nat \<Rightarrow> virtq_desc"
  av_idx :: u16
  av_ring :: "nat \<Rightarrow> u16"
  us_idx :: u16
  us_ring :: "nat \<Rightarrow> u32"
  vd_free :: "nat \<Rightarrow> bool"
  used_idx :: u16
  info_b :: "nat \<Rightarrow> nat option"
  info_status :: "nat \<Rightarrow> u8"
  vd_ops :: "nat \<Rightarrow> virtio_blk_req"
  vb_disk :: "nat \<Rightarrow> bool"
  vb_blockno :: "nat \<Rightarrow> u32"
  vb_data :: "nat \<Rightarrow> block"

record vstate = kstate +
  vdisk_lock :: spinlock
  vd :: vdisk
  mmio :: "(u64 \<times> u32) list"

definition upd_vd :: "(vdisk \<Rightarrow> vdisk) \<Rightarrow> 'z vstate_scheme \<Rightarrow> 'z vstate_scheme" where
  "upd_vd f s = s\<lparr>vd := f (vd s)\<rparr>"

definition wr_reg :: "u64 \<Rightarrow> u32 \<Rightarrow> 'z vstate_scheme \<Rightarrow> 'z vstate_scheme" where
  "wr_reg r v s = s\<lparr>mmio := mmio s @ [(VIRTIO0 + r, v)]\<rparr>"

type_synonym mmio_device = "(u64 \<times> u32) list \<Rightarrow> u64 \<Rightarrow> u32"

definition rd_reg :: "mmio_device \<Rightarrow> u64 \<Rightarrow> 'z vstate_scheme \<Rightarrow> u32" where
  "rd_reg rd r s = rd (mmio s) (VIRTIO0 + r)"

definition acquire_vd :: "'z vstate_scheme \<Rightarrow> 'z vstate_scheme outcome" where
  "acquire_vd = acquire_in vdisk_lock (\<lambda>lk s. s\<lparr>vdisk_lock := lk\<rparr>)"

definition release_vd :: "'z vstate_scheme \<Rightarrow> 'z vstate_scheme outcome" where
  "release_vd = release_in vdisk_lock (\<lambda>lk s. s\<lparr>vdisk_lock := lk\<rparr>)"

section \<open>Descriptors\<close>

definition alloc_desc :: "vdisk \<Rightarrow> nat option \<times> vdisk" where
  "alloc_desc d = (case find (vd_free d) [0..<NUM] of
     Some i \<Rightarrow> (Some i, d\<lparr>vd_free := (vd_free d)(i := False)\<rparr>)
   | None \<Rightarrow> (None, d))"

definition zero_desc :: virtq_desc where
  "zero_desc = \<lparr>d_addr = ANull, d_len = 0, d_flags = 0, d_next = 0\<rparr>"

definition clear_desc :: "nat \<Rightarrow> vdisk \<Rightarrow> vdisk" where
  "clear_desc i d = d\<lparr>vd_desc := (vd_desc d)(i := zero_desc), vd_free := (vd_free d)(i := True)\<rparr>"

definition free_desc :: "nat \<Rightarrow> 'z vstate_scheme \<Rightarrow> 'z vstate_scheme outcome" where
  "free_desc i s =
     (if NUM \<le> i then Panic ''free_desc 1''
      else if vd_free (vd s) i then Panic ''free_desc 2''
      else wakeup (Some DiskFree) (upd_vd (clear_desc i) s))"

primrec free_descs :: "nat list \<Rightarrow> 'z vstate_scheme \<Rightarrow> 'z vstate_scheme outcome" where
  "free_descs [] s = Ok s"
| "free_descs (j # js) s = obind (free_desc j s) (free_descs js)"

primrec alloc_descs ::
    "nat \<Rightarrow> nat list \<Rightarrow> 'z vstate_scheme \<Rightarrow> (nat list option \<times> 'z vstate_scheme) outcome" where
  "alloc_descs 0 idx s = Ok (Some idx, s)"
| "alloc_descs (Suc k) idx s =
     (case alloc_desc (vd s) of
        (Some i, d) \<Rightarrow> alloc_descs k (idx @ [i]) (s\<lparr>vd := d\<rparr>)
      | (None, d) \<Rightarrow> obind (free_descs idx (s\<lparr>vd := d\<rparr>)) (\<lambda>s. Ok (None, s)))"

definition alloc3_desc :: "'z vstate_scheme \<Rightarrow> (nat list option \<times> 'z vstate_scheme) outcome" where
  "alloc3_desc = alloc_descs 3 []"

text \<open>\<open>wakeup\<close> leaves the driver's state alone; this is what makes \<open>free_chain\<close> terminate.\<close>

lemma acquire_l_vd: "acquire_l (ProcLock i) s = Ok t \<Longrightarrow> vd t = vd s"
  by (auto simp: acquire_l_def outcome_simps upd_p_def set_cpu_def)

lemma release_l_vd: "release_l (ProcLock i) s = Ok t \<Longrightarrow> vd t = vd s"
  by (auto simp: release_l_def outcome_simps upd_p_def set_cpu_def)

lemma wakeup_loop_vd: "wakeup_loop is ch s = Ok t \<Longrightarrow> vd t = vd s"
proof (induction "is" arbitrary: s)
  case Nil
  then show ?case by simp
next
  case (Cons i "is")
  show ?case
  proof (cases "Some i = myproc s")
    case True
    then show ?thesis using Cons by simp
  next
    case False
    then obtain a b where "acquire_l (ProcLock i) s = Ok a" "wakeup_loop is ch b = Ok t"
      and r: "release_l (ProcLock i) (if p_state (k_proc a i) = SLEEPING \<and> p_chan (k_proc a i) = ch
        then upd_p i (\<lambda>p. p\<lparr>p_state := RUNNABLE\<rparr>) a else a) = Ok b"
      using Cons.prems by (auto simp: outcome_simps Let_def)
    moreover from r have "vd b = vd a" by (auto simp: upd_p_def dest!: release_l_vd split: if_splits)
    ultimately show ?thesis using Cons.IH [of b] acquire_l_vd [of i s a] by simp
  qed
qed

lemma free_desc_vd: "free_desc i s = Ok t \<Longrightarrow> i < NUM \<and> \<not> vd_free (vd s) i \<and> vd t = clear_desc i (vd s)"
  by (auto simp: free_desc_def wakeup_def upd_vd_def dest!: wakeup_loop_vd split: if_splits)

text \<open>Every iteration frees a descriptor that was in use, or panics.\<close>

function free_chain :: "nat \<Rightarrow> 'z vstate_scheme \<Rightarrow> 'z vstate_scheme outcome" where
  "free_chain i s =
     (let flag = d_flags (vd_desc (vd s) i); nxt = d_next (vd_desc (vd s) i)
      in obind (free_desc i s) (\<lambda>s.
           if flag AND VRING_DESC_F_NEXT \<noteq> 0 then free_chain (unat nxt) s else Ok s))"
  by pat_completeness auto
termination
proof (relation "measure (\<lambda>(i, s). card {j. j < NUM \<and> \<not> vd_free (vd s) j})", goal_cases)
  case 1
  show ?case by simp
next
  case (2 i s flag nxt t)
  note f = free_desc_vd [OF 2(3)]
  have e: "{j. j < NUM \<and> \<not> vd_free (vd t) j} = {j. j < NUM \<and> \<not> vd_free (vd s) j} - {i}"
    using f by (auto simp: clear_desc_def split: if_splits)
  have "card ({j. j < NUM \<and> \<not> vd_free (vd s) j} - {i}) < card {j. j < NUM \<and> \<not> vd_free (vd s) j}"
    using f by (intro card_Diff1_less) auto
  then show ?case by (simp add: e)
qed

declare free_chain.simps [simp del]

section \<open>virtio_disk_rw\<close>

text \<open>The three descriptors of a request, its command header and its status byte.\<close>

definition format_req :: "nat \<Rightarrow> bool \<Rightarrow> u64 \<Rightarrow> nat \<Rightarrow> nat \<Rightarrow> nat \<Rightarrow> vdisk \<Rightarrow> vdisk" where
  "format_req b wr sector i0 i1 i2 d =
     (let d = d\<lparr>vd_ops := (vd_ops d)(i0 :=
            \<lparr>rq_type = (if wr then VIRTIO_BLK_T_OUT else VIRTIO_BLK_T_IN), rq_reserved = 0, rq_sector = sector\<rparr>)\<rparr>;
          d = d\<lparr>vd_desc := (vd_desc d)(i0 := \<lparr>d_addr = AOps i0, d_len = blk_req_size,
            d_flags = VRING_DESC_F_NEXT, d_next = of_nat i1\<rparr>)\<rparr>;
          d = d\<lparr>vd_desc := (vd_desc d)(i1 := \<lparr>d_addr = AData b, d_len = of_nat BSIZE,
            d_flags = (if wr then 0 else VRING_DESC_F_WRITE) OR VRING_DESC_F_NEXT, d_next = of_nat i2\<rparr>)\<rparr>;
          d = d\<lparr>info_status := (info_status d)(i0 := 0xff)\<rparr>;
          d = d\<lparr>vd_desc := (vd_desc d)(i2 := \<lparr>d_addr = AStatus i0, d_len = 1,
            d_flags = VRING_DESC_F_WRITE, d_next = 0\<rparr>)\<rparr>;
          d = d\<lparr>vb_disk := (vb_disk d)(b := True)\<rparr>
      in d\<lparr>info_b := (info_b d)(i0 := Some b)\<rparr>)"

definition publish :: "nat \<Rightarrow> vdisk \<Rightarrow> vdisk" where
  "publish i0 d =
     (let d = d\<lparr>av_ring := (av_ring d)(unat (av_idx d mod of_nat NUM) := of_nat i0)\<rparr>
      in d\<lparr>av_idx := av_idx d + 1\<rparr>)"

datatype rw_local = AtAlloc u64 bool | AtWait nat bool

definition rw_wait ::
    "nat \<Rightarrow> nat \<Rightarrow> 'z vstate_scheme \<Rightarrow> ((rw_local + unit) \<times> 'z vstate_scheme) outcome" where
  "rw_wait b i0 s =
     (if vb_disk (vd s) b
      then obind (sleep_out_with (DiskChan b) release_vd s) (\<lambda>(ia, s). Ok (Inl (AtWait i0 ia), s))
      else obind (free_chain i0 (upd_vd (\<lambda>d. d\<lparr>info_b := (info_b d)(i0 := None)\<rparr>) s)) (\<lambda>s.
           obind (release_vd s) (\<lambda>s. Ok (Inr (), s))))"

definition rw_alloc ::
    "nat \<Rightarrow> bool \<Rightarrow> u64 \<Rightarrow> 'z vstate_scheme \<Rightarrow> ((rw_local + unit) \<times> 'z vstate_scheme) outcome" where
  "rw_alloc b wr sector s =
     obind (alloc3_desc s) (\<lambda>(r, s). case r of
       None \<Rightarrow> obind (sleep_out_with DiskFree release_vd s) (\<lambda>(ia, s). Ok (Inl (AtAlloc sector ia), s))
     | Some idx \<Rightarrow>
         let s = upd_vd (format_req b wr sector (idx ! 0) (idx ! 1) (idx ! 2)) s;
             s = upd_vd (publish (idx ! 0)) s;
             s = wr_reg VIRTIO_MMIO_QUEUE_NOTIFY 0 s
         in rw_wait b (idx ! 0) s)"

text \<open>The product of the sector number is computed in 32 bits.\<close>

definition sector_of :: "u32 \<Rightarrow> u64" where
  "sector_of bno = ucast (bno * of_nat (BSIZE div 512))"

definition virtio_disk_rw ::
    "nat \<Rightarrow> bool \<Rightarrow> 'z vstate_scheme \<Rightarrow> ((rw_local + unit) \<times> 'z vstate_scheme) outcome" where
  "virtio_disk_rw b wr s =
     (let sector = sector_of (vb_blockno (vd s) b)
      in obind (acquire_vd s) (rw_alloc b wr sector))"

definition virtio_disk_rw_resume ::
    "nat \<Rightarrow> bool \<Rightarrow> rw_local \<Rightarrow> 'z vstate_scheme \<Rightarrow> ((rw_local + unit) \<times> 'z vstate_scheme) outcome" where
  "virtio_disk_rw_resume b wr l s = (case l of
     AtAlloc sector ia \<Rightarrow> obind (sleep_in_with ia acquire_vd s) (rw_alloc b wr sector)
   | AtWait i0 ia \<Rightarrow> obind (sleep_in_with ia acquire_vd s) (rw_wait b i0))"

section \<open>virtio_disk_intr\<close>

definition intr_begin :: "mmio_device \<Rightarrow> 'z vstate_scheme \<Rightarrow> 'z vstate_scheme outcome" where
  "intr_begin rd s =
     obind (acquire_vd s) (\<lambda>s.
       Ok (wr_reg VIRTIO_MMIO_INTERRUPT_ACK (rd_reg rd VIRTIO_MMIO_INTERRUPT_STATUS s AND 3) s))"

definition intr_more :: "'z vstate_scheme \<Rightarrow> bool" where
  "intr_more s \<longleftrightarrow> used_idx (vd s) \<noteq> us_idx (vd s)"

definition intr_one :: "'z vstate_scheme \<Rightarrow> 'z vstate_scheme outcome" where
  "intr_one s =
     (let i = unat (us_ring (vd s) (unat (used_idx (vd s) mod of_nat NUM)))
      in if info_status (vd s) i \<noteq> 0 then Panic ''virtio_disk_intr status''
         else case info_b (vd s) i of None \<Rightarrow> Panic ''kerneltrap'' | Some b \<Rightarrow>
           obind (wakeup (Some (DiskChan b)) (upd_vd (\<lambda>d. d\<lparr>vb_disk := (vb_disk d)(b := False)\<rparr>) s)) (\<lambda>s.
             Ok (upd_vd (\<lambda>d. d\<lparr>used_idx := used_idx d + 1\<rparr>) s)))"

text \<open>With no new completion meanwhile, the loop runs once per entry between the two indices.\<close>

primrec intr_loop :: "nat \<Rightarrow> 'z vstate_scheme \<Rightarrow> 'z vstate_scheme outcome" where
  "intr_loop 0 s = Ok s"
| "intr_loop (Suc n) s = (if intr_more s then obind (intr_one s) (intr_loop n) else Ok s)"

definition virtio_disk_intr :: "mmio_device \<Rightarrow> 'z vstate_scheme \<Rightarrow> 'z vstate_scheme outcome" where
  "virtio_disk_intr rd s =
     obind (intr_begin rd s) (\<lambda>s.
     obind (intr_loop (unat (us_idx (vd s) - used_idx (vd s))) s) release_vd)"

section \<open>virtio_disk_init\<close>

definition clear_bit :: "nat \<Rightarrow> u64 \<Rightarrow> u64" where
  "clear_bit n f = f AND NOT (push_bit n 1)"

definition init_features :: "u32 \<Rightarrow> u32" where
  "init_features v =
     (let features = ucast v :: u64;
          features = clear_bit VIRTIO_BLK_F_RO features;
          features = clear_bit VIRTIO_BLK_F_SCSI features;
          features = clear_bit VIRTIO_BLK_F_CONFIG_WCE features;
          features = clear_bit VIRTIO_BLK_F_MQ features;
          features = clear_bit VIRTIO_F_ANY_LAYOUT features;
          features = clear_bit VIRTIO_RING_F_EVENT_IDX features;
          features = clear_bit VIRTIO_RING_F_INDIRECT_DESC features
      in ucast features)"

text \<open>The three pages of the queue, zeroed; \<open>kalloc\<close> may return null.\<close>

definition init_pages :: "'z vstate_scheme \<Rightarrow> 'z vstate_scheme outcome" where
  "init_pages s =
     (let (pd, km) = kalloc (k_mem s); (pa, km) = kalloc km; (pu, km) = kalloc km;
          s = upd_vd (\<lambda>d. d\<lparr>vd_pages := (pd, pa, pu)\<rparr>) (s\<lparr>k_mem := km\<rparr>)
      in if pd = 0 \<or> pa = 0 \<or> pu = 0 then Panic ''virtio disk kalloc''
         else let m = memset (mem km) pd 0 (unat PGSIZE);
                  m = memset m pa 0 (unat PGSIZE);
                  m = memset m pu 0 (unat PGSIZE);
                  s = s\<lparr>k_mem := km\<lparr>mem := m\<rparr>\<rparr>
              in Ok (upd_vd (\<lambda>d. d\<lparr>vd_desc := (\<lambda>_. zero_desc), av_idx := 0, av_ring := (\<lambda>_. 0),
                   us_idx := 0, us_ring := (\<lambda>_. 0)\<rparr>) s))"

definition init_queue :: "'z vstate_scheme \<Rightarrow> 'z vstate_scheme" where
  "init_queue s =
     (let (pd, pa, pu) = vd_pages (vd s);
          s = wr_reg VIRTIO_MMIO_QUEUE_NUM (of_nat NUM) s;
          s = wr_reg VIRTIO_MMIO_QUEUE_DESC_LOW (ucast pd) s;
          s = wr_reg VIRTIO_MMIO_QUEUE_DESC_HIGH (ucast (drop_bit 32 pd)) s;
          s = wr_reg VIRTIO_MMIO_DRIVER_DESC_LOW (ucast pa) s;
          s = wr_reg VIRTIO_MMIO_DRIVER_DESC_HIGH (ucast (drop_bit 32 pa)) s;
          s = wr_reg VIRTIO_MMIO_DEVICE_DESC_LOW (ucast pu) s;
          s = wr_reg VIRTIO_MMIO_DEVICE_DESC_HIGH (ucast (drop_bit 32 pu)) s;
          s = wr_reg VIRTIO_MMIO_QUEUE_READY 1 s
      in upd_vd (\<lambda>d. d\<lparr>vd_free := (\<lambda>i. if i < NUM then True else vd_free d i)\<rparr>) s)"

definition virtio_disk_init :: "mmio_device \<Rightarrow> 'z vstate_scheme \<Rightarrow> 'z vstate_scheme outcome" where
  "virtio_disk_init rd s =
     (let status = 0; s = s\<lparr>vdisk_lock := initlock ''virtio_disk''\<rparr>
      in if rd_reg rd VIRTIO_MMIO_MAGIC_VALUE s \<noteq> 0x74726976 \<or> rd_reg rd VIRTIO_MMIO_VERSION s \<noteq> 2 \<or>
            rd_reg rd VIRTIO_MMIO_DEVICE_ID s \<noteq> 2 \<or> rd_reg rd VIRTIO_MMIO_VENDOR_ID s \<noteq> 0x554d4551
         then Panic ''could not find virtio disk''
         else
           let s = wr_reg VIRTIO_MMIO_STATUS status s;
               status = status OR VIRTIO_CONFIG_S_ACKNOWLEDGE;
               s = wr_reg VIRTIO_MMIO_STATUS status s;
               status = status OR VIRTIO_CONFIG_S_DRIVER;
               s = wr_reg VIRTIO_MMIO_STATUS status s;
               s = wr_reg VIRTIO_MMIO_DRIVER_FEATURES (init_features (rd_reg rd VIRTIO_MMIO_DEVICE_FEATURES s)) s;
               status = status OR VIRTIO_CONFIG_S_FEATURES_OK;
               s = wr_reg VIRTIO_MMIO_STATUS status s;
               status = rd_reg rd VIRTIO_MMIO_STATUS s
           in if status AND VIRTIO_CONFIG_S_FEATURES_OK = 0 then Panic ''virtio disk FEATURES_OK unset''
              else let s = wr_reg VIRTIO_MMIO_QUEUE_SEL 0 s
                in if rd_reg rd VIRTIO_MMIO_QUEUE_READY s \<noteq> 0 then Panic ''virtio disk should not be ready''
                   else let maxnum = rd_reg rd VIRTIO_MMIO_QUEUE_NUM_MAX s
                     in if maxnum = 0 then Panic ''virtio disk has no queue 0''
                        else if maxnum < of_nat NUM then Panic ''virtio disk max queue too short''
                        else obind (init_pages s) (\<lambda>s.
                          let s = init_queue s; status = status OR VIRTIO_CONFIG_S_DRIVER_OK
                          in Ok (wr_reg VIRTIO_MMIO_STATUS status s)))"

end
