(* ===== verification/Virtio_Locks.thy ===== *)
theory Virtio_Locks
  imports Virtio Console_Props
begin

text \<open>
  The driver's routines as users of spin locks, \<open>sleep\<close> and \<open>wakeup\<close>: on a hart whose locks are in order
  they never panic and never spin, and their effect on the driver's state is a function of that state
  alone. This separates the protocol with the device, in \<open>Virtio_Props\<close>, from the kernel around it.
\<close>

named_theorems vd_simps \<open>what the driver's routines do to the driver's state\<close>

section \<open>Inside the critical section\<close>

definition section_ok :: "'z vstate_scheme \<Rightarrow> bool" where
  "section_ok s \<longleftrightarrow> others_free s \<and> 0 < noff (mycpu s) \<and> holding (k_hart s) (vdisk_lock s)"

text \<open>A process is in \<open>virtio_disk_rw\<close>: \<open>vdisk_lock\<close> is the only lock it holds.\<close>

definition call_ok :: "'z vstate_scheme \<Rightarrow> bool" where
  "call_ok s \<longleftrightarrow> section_ok s \<and> noff (mycpu s) = 1 \<and>
     (\<exists>p. myproc s = Some p \<and> lock_free (p_lock (k_proc s p)))"

definition same_locks :: "'z vstate_scheme \<Rightarrow> 'z vstate_scheme \<Rightarrow> bool" where
  "same_locks s t \<longleftrightarrow> k_hart t = k_hart s \<and> mycpu t = mycpu s \<and> vdisk_lock t = vdisk_lock s \<and>
     (\<forall>i. p_lock (k_proc t i) = p_lock (k_proc s i))"

lemma same_locks_refl [simp]: "same_locks s s"
  by (simp add: same_locks_def)

lemma same_locks_trans: "same_locks s t \<Longrightarrow> same_locks t u \<Longrightarrow> same_locks s u"
  by (simp add: same_locks_def)

lemma same_locks_upd [simp]:
  "same_locks s (upd_vd f s)" "same_locks s (wr_reg r v s)" "same_locks s (s\<lparr>vd := d\<rparr>)"
  by (simp_all add: same_locks_def upd_vd_def wr_reg_def mycpu_def)

lemma same_locks_section: "same_locks s t \<Longrightarrow> section_ok s \<Longrightarrow> section_ok t"
  by (auto simp: same_locks_def section_ok_def others_free_def myproc_def)

lemma same_locks_call: "same_locks s t \<Longrightarrow> call_ok s \<Longrightarrow> call_ok t"
  using same_locks_section [of s t] by (auto simp: same_locks_def call_ok_def myproc_def)

lemma vd_upd [simp]: "vd (upd_vd f s) = f (vd s)" "vd (wr_reg r v s) = vd s" "vd (map_procs is g s) = vd s"
  "vd (set_cpu c s) = vd s" "vd (upd_p i h s) = vd s"
  by (simp_all add: upd_vd_def wr_reg_def map_procs_def set_cpu_def upd_p_def)

lemma map_procs_same_locks: "same_locks s (map_procs is (\<lambda>_. wake_proc ch) s)"
  by (auto simp: same_locks_def map_procs_def mycpu_def wake_proc_def)

lemma wakeup_in_section:
  assumes "section_ok s"
  shows "\<exists>t. wakeup ch s = Ok t \<and> vd t = vd s \<and> same_locks s t"
  using assms wakeup_exact [of s ch] map_procs_same_locks [of s] by (fastforce simp: section_ok_def)

section \<open>Entering and leaving it\<close>

definition ready :: "'z vstate_scheme \<Rightarrow> bool" where
  "ready s \<longleftrightarrow> others_free s \<and> noff (mycpu s) = 0 \<and> lock_free (vdisk_lock s) \<and>
     (\<exists>p. myproc s = Some p \<and> lock_free (p_lock (k_proc s p)))"

definition ready_intr :: "'z vstate_scheme \<Rightarrow> bool" where
  "ready_intr s \<longleftrightarrow> others_free s \<and> lock_free (vdisk_lock s)"

text \<open>The scheduler has switched to a process that sleeps in the driver: it holds its own lock.\<close>

definition resumable :: "'z vstate_scheme \<Rightarrow> bool" where
  "resumable s \<longleftrightarrow> others_free s \<and> noff (mycpu s) = 1 \<and> lock_free (vdisk_lock s) \<and>
     (\<exists>p. myproc s = Some p \<and> holding (k_hart s) (p_lock (k_proc s p)))"

lemma acquire_vd_ok:
  assumes "ready_intr s"
  shows "\<exists>t. acquire_vd s = Ok t \<and> vd t = vd s \<and> section_ok t"
proof -
  let ?t = "(set_cpu (push_off (mycpu s)) s)\<lparr>vdisk_lock := held_by (k_hart s) (vdisk_lock s)\<rparr>"
  have "acquire_vd s = Ok ?t"
    unfolding acquire_vd_def by (rule acquire_in_free) (use assms in \<open>simp add: ready_intr_def\<close>)
  moreover have "section_ok ?t"
    using assms push_off_ok [of "mycpu s"]
    by (auto simp: section_ok_def ready_intr_def others_free_def myproc_def mycpu_def set_cpu_def holding_def held_by_def)
  ultimately show ?thesis by (simp add: set_cpu_def)
qed

lemma acquire_vd_ready:
  assumes "ready s"
  shows "\<exists>t. acquire_vd s = Ok t \<and> vd t = vd s \<and> call_ok t"
proof -
  let ?t = "(set_cpu (push_off (mycpu s)) s)\<lparr>vdisk_lock := held_by (k_hart s) (vdisk_lock s)\<rparr>"
  have a: "acquire_vd s = Ok ?t"
    unfolding acquire_vd_def by (rule acquire_in_free) (use assms in \<open>simp add: ready_def\<close>)
  then have "section_ok ?t" using acquire_vd_ok [of s] assms by (auto simp: ready_def ready_intr_def)
  then have "call_ok ?t" using assms by (auto simp: call_ok_def ready_def myproc_def mycpu_def set_cpu_def)
  then show ?thesis using a by (simp add: set_cpu_def)
qed

lemma release_vd_ok:
  assumes "section_ok s"
  shows "\<exists>t. release_vd s = Ok t \<and> vd t = vd s"
proof -
  have "\<not> sie (mycpu s)" "0 < noff (mycpu s)" using assms by (auto simp: section_ok_def others_free_def cpu_ok_def)
  then show ?thesis using assms
    by (auto simp: release_vd_def release_in_def release_def section_ok_def pop_off_def Let_def set_cpu_def)
qed

section \<open>Sleeping\<close>

lemma sleep_out_vd:
  assumes "call_ok s"
  shows "\<exists>ia t. sleep_out_with ch release_vd s = Ok (ia, t) \<and> vd t = vd s"
proof -
  obtain p where p: "myproc s = Some p" "lock_free (p_lock (k_proc s p))" using assms by (auto simp: call_ok_def)
  let ?a = "put_lock (ProcLock p) (held_by (k_hart s) (p_lock (k_proc s p))) (set_cpu (push_off (mycpu s)) s)"
  have a: "acquire_l (ProcLock p) s = Ok ?a" using acquire_free [of "ProcLock p" s] p(2) by simp
  have o: "\<not> sie (mycpu s)" "noff (mycpu s) = 1" "holding (k_hart s) (vdisk_lock s)"
    using assms by (auto simp: call_ok_def section_ok_def others_free_def cpu_ok_def)
  have l: "vdisk_lock ?a = vdisk_lock s" by (simp add: upd_p_def set_cpu_def)
  let ?c = "(push_off (mycpu s))\<lparr>noff := 1\<rparr>"
  let ?b = "(set_cpu ?c ?a)\<lparr>vdisk_lock := (vdisk_lock s)\<lparr>lk_cpu := None, lk_locked := False\<rparr>\<rparr>"
  have b: "release_vd ?a = Ok ?b"
    using o l by (simp add: release_vd_def release_in_def release_def pop_off_def)
  have m: "mycpu ?b = ?c" "k_proc ?b p = (k_proc s p)\<lparr>p_lock := held_by (k_hart s) (p_lock (k_proc s p))\<rparr>" "k_hart ?b = k_hart s"
    by (simp_all add: mycpu_def set_cpu_def upd_p_def)
  have s: "sleep_out_with ch release_vd s = sched (upd_p p (\<lambda>p. p\<lparr>p_chan := Some ch, p_state := SLEEPING\<rparr>) ?b)"
    using a b p(1) by (simp add: sleep_out_with_def with_proc_def)
  have "myproc (upd_p p f ?b) = Some p" for f using p(1) m(1) by (simp add: myproc_def)
  then show ?thesis unfolding s using m
    by (simp add: sched_def with_proc_def holding_l_def holding_def held_by_def)
qed

lemma sleep_in_vd:
  assumes "resumable s"
  shows "\<exists>t. sleep_in_with ia acquire_vd s = Ok t \<and> vd t = vd s \<and> call_ok t"
proof -
  obtain p where p: "myproc s = Some p" "holding (k_hart s) (p_lock (k_proc s p))"
    using assms by (auto simp: resumable_def)
  let ?a = "upd_p p (\<lambda>p. p\<lparr>p_chan := None\<rparr>) (sched_resume ia s)"
  have a: "mycpu ?a = (mycpu s)\<lparr>intena := ia\<rparr>" "k_hart ?a = k_hart s" "vd ?a = vd s" "vdisk_lock ?a = vdisk_lock s"
    "myproc ?a = Some p"
    using p(1) by (simp_all add: sched_resume_def upd_p_def set_cpu_def mycpu_def myproc_def)
  have n: "\<not> sie (mycpu s)" "noff (mycpu s) = 1" using assms by (auto simp: resumable_def others_free_def cpu_ok_def)
  let ?l = "(p_lock (k_proc s p))\<lparr>lk_cpu := None, lk_locked := False\<rparr>"
  let ?c = "(if ia then (mycpu s)\<lparr>intena := ia, noff := 0, sie := True\<rparr> else (mycpu s)\<lparr>intena := ia, noff := 0\<rparr>)"
  let ?b = "put_lock (ProcLock p) ?l (set_cpu ?c ?a)"
  have la: "p_lock (k_proc ?a p) = p_lock (k_proc s p)" "get_lock (ProcLock p) ?a = p_lock (k_proc s p)"
    by (simp_all add: sched_resume_def)
  have b: "release_l (ProcLock p) ?a = Ok ?b"
    unfolding release_l_def la release_def a using p(2) n by (simp add: pop_off_def Let_def del: put_lock.simps)
  have mb: "mycpu ?b = ?c" by simp
  then have my: "myproc ?b = Some p" using p(1) by (simp add: myproc_def)
  have "others_free ?b" unfolding others_free_def my mb
    using assms p(1) by (auto simp: resumable_def others_free_def cpu_ok_def sched_resume_def)
  then have "ready ?b" unfolding ready_def my mb
    using assms by (auto simp: resumable_def lock_free_def sched_resume_def upd_p_def set_cpu_def)
  from acquire_vd_ready [OF this] show ?thesis
    using p(1) b a(3) by (auto simp: sleep_in_with_def with_proc_def simp del: put_lock.simps) (simp_all add: upd_p_def set_cpu_def)
qed

section \<open>Descriptors\<close>

lemma free_desc_ok:
  assumes "section_ok s" "i < NUM" "\<not> vd_free (vd s) i"
  shows "\<exists>t. free_desc i s = Ok t \<and> vd t = clear_desc i (vd s) \<and> same_locks s t"
proof -
  have "section_ok (upd_vd (clear_desc i) s)" using same_locks_section [OF same_locks_upd(1) assms(1)] .
  from wakeup_in_section [OF this] show ?thesis
    using assms(2,3) same_locks_trans [OF same_locks_upd(1)] by (fastforce simp: free_desc_def)
qed

lemma free_descs_ok:
  "section_ok s \<Longrightarrow> distinct js \<Longrightarrow> \<forall>j\<in>set js. j < NUM \<and> \<not> vd_free (vd s) j \<Longrightarrow>
     \<exists>t. free_descs js s = Ok t \<and> vd t = fold clear_desc js (vd s) \<and> same_locks s t"
proof (induction js arbitrary: s)
  case Nil
  then show ?case by simp
next
  case (Cons j js)
  then obtain t where t: "free_desc j s = Ok t" "vd t = clear_desc j (vd s)" "same_locks s t"
    using free_desc_ok [of s j] by auto
  have "\<forall>i\<in>set js. i < NUM \<and> \<not> vd_free (vd t) i" using Cons.prems t(2) by (auto simp: clear_desc_def)
  from Cons.IH [OF same_locks_section [OF t(3) Cons.prems(1)] _ this] obtain u where
    "free_descs js t = Ok u" "vd u = fold clear_desc js (vd t)" "same_locks t u" using Cons.prems(2) by auto
  then show ?case using t same_locks_trans by auto
qed

text \<open>The descriptors that \<open>alloc_desc\<close> hands out, in the order in which it does.\<close>

definition free_list :: "vdisk \<Rightarrow> nat list" where
  "free_list d = filter (vd_free d) [0..<NUM]"

definition take_free :: "nat list \<Rightarrow> vdisk \<Rightarrow> vdisk" where
  "take_free is d = d\<lparr>vd_free := (\<lambda>j. vd_free d j \<and> j \<notin> set is)\<rparr>"

lemma free_list_simps [simp]: "distinct (free_list d)" "set (free_list d) = {i. i < NUM \<and> vd_free d i}"
  by (auto simp: free_list_def)

lemma take_free_Nil [simp]: "take_free [] d = d"
  by (simp add: take_free_def)

lemma alloc_desc_None: "free_list d = [] \<Longrightarrow> alloc_desc d = (None, d)"
proof -
  assume "free_list d = []"
  then have "find (vd_free d) [0..<NUM] = None" by (simp add: find_None_iff free_list_def filter_empty_conv)
  then show ?thesis by (simp add: alloc_desc_def)
qed

lemma find_filter: "filter P xs = x # ys \<Longrightarrow> find P xs = Some x"
  by (induction xs) (auto split: if_splits)

lemma alloc_desc_Some:
  assumes "free_list d = i # is"
  shows "alloc_desc d = (Some i, take_free [i] d)" "free_list (take_free [i] d) = is"
proof -
  have "(vd_free d)(i := False) = (\<lambda>j. vd_free d j \<and> j \<notin> set [i])" by (auto simp: fun_eq_iff)
  then show "alloc_desc d = (Some i, take_free [i] d)"
    using find_filter [of "vd_free d" "[0..<NUM]" i "is"] assms by (simp add: alloc_desc_def take_free_def free_list_def)
  have "free_list (take_free [i] d) = filter (\<lambda>j. j \<noteq> i) (free_list d)"
    by (auto simp: free_list_def take_free_def intro!: filter_cong)
  moreover have "i \<notin> set is" using assms free_list_simps(1) [of d] by simp
  ultimately show "free_list (take_free [i] d) = is" using assms by (simp add: filter_id_conv) metis
qed

lemma alloc_descs_Some:
  "k \<le> length (free_list (vd s)) \<Longrightarrow>
     alloc_descs k idx s =
       Ok (Some (idx @ take k (free_list (vd s))), upd_vd (take_free (take k (free_list (vd s)))) s)"
proof (induction k arbitrary: idx s)
  case 0
  then show ?case by (simp add: upd_vd_def)
next
  case (Suc k)
  then obtain i "is" where fl: "free_list (vd s) = i # is" by (cases "free_list (vd s)") auto
  note a = alloc_desc_Some [OF fl]
  have "take_free (take k is) (take_free [i] d) = take_free (i # take k is) d" for d
    by (auto simp: take_free_def fun_eq_iff)
  then show ?case using Suc.IH [of "s\<lparr>vd := take_free [i] (vd s)\<rparr>" "idx @ [i]"] Suc.prems a fl by (simp add: upd_vd_def)
qed

lemma alloc_descs_None:
  "section_ok s \<Longrightarrow> length (free_list (vd s)) < k \<Longrightarrow> distinct idx \<Longrightarrow>
     \<forall>j\<in>set idx. j < NUM \<and> \<not> vd_free (vd s) j \<Longrightarrow>
     \<exists>t. alloc_descs k idx s = Ok (None, t) \<and> same_locks s t \<and>
       vd t = fold clear_desc (idx @ free_list (vd s)) (take_free (free_list (vd s)) (vd s))"
proof (induction k arbitrary: idx s)
  case 0
  then show ?case by simp
next
  case (Suc k)
  show ?case
  proof (cases "free_list (vd s)")
    case Nil
    then show ?thesis using alloc_desc_None [OF Nil] free_descs_ok [OF Suc.prems(1,3,4)] by auto
  next
    case (Cons i "is")
    note a = alloc_desc_Some [OF Cons]
    let ?s = "s\<lparr>vd := take_free [i] (vd s)\<rparr>"
    have i: "i < NUM" "vd_free (vd s) i" using free_list_simps(2) [of "vd s"] Cons by auto
    have "section_ok ?s" by (rule same_locks_section [OF same_locks_upd(3) Suc.prems(1)])
    moreover have "distinct (idx @ [i])" "\<forall>j\<in>set (idx @ [i]). j < NUM \<and> \<not> vd_free (vd ?s) j"
      using Suc.prems(3,4) i by (auto simp: take_free_def)
    moreover have "length (free_list (vd ?s)) < k" using a Cons Suc.prems(2) by simp
    ultimately obtain t where t: "alloc_descs k (idx @ [i]) ?s = Ok (None, t)" "same_locks ?s t"
        "vd t = fold clear_desc ((idx @ [i]) @ is) (take_free is (take_free [i] (vd s)))"
      using Suc.IH [of ?s "idx @ [i]"] a by auto
    have "take_free is (take_free [i] d) = take_free (i # is) d" for d by (auto simp: take_free_def fun_eq_iff)
    then show ?thesis using t a Cons same_locks_trans [OF same_locks_upd(3) t(2)] by simp
  qed
qed

definition nxt :: "vdisk \<Rightarrow> nat \<Rightarrow> nat" where
  "nxt d i = unat (d_next (vd_desc d i))"

lemma free_chain_ok:
  assumes s: "section_ok s" and dist: "distinct [h, nxt (vd s) h, nxt (vd s) (nxt (vd s) h)]"
    and use: "\<forall>i\<in>{h, nxt (vd s) h, nxt (vd s) (nxt (vd s) h)}. i < NUM \<and> \<not> vd_free (vd s) i"
    and f: "d_flags (vd_desc (vd s) h) AND VRING_DESC_F_NEXT \<noteq> 0"
      "d_flags (vd_desc (vd s) (nxt (vd s) h)) AND VRING_DESC_F_NEXT \<noteq> 0"
      "d_flags (vd_desc (vd s) (nxt (vd s) (nxt (vd s) h))) AND VRING_DESC_F_NEXT = 0"
  shows "\<exists>t. free_chain h s = Ok t \<and> same_locks s t \<and>
    vd t = fold clear_desc [h, nxt (vd s) h, nxt (vd s) (nxt (vd s) h)] (vd s)"
proof -
  let ?m = "nxt (vd s) h" let ?l = "nxt (vd s) (nxt (vd s) h)"
  obtain t1 where 1: "free_desc h s = Ok t1" "vd t1 = clear_desc h (vd s)" "same_locks s t1"
    using free_desc_ok [OF s] use by auto
  have "?m < NUM" "\<not> vd_free (vd t1) ?m" using use 1(2) dist by (auto simp: clear_desc_def)
  then obtain t2 where 2: "free_desc ?m t1 = Ok t2" "vd t2 = clear_desc ?m (vd t1)" "same_locks t1 t2"
    using free_desc_ok [OF same_locks_section [OF 1(3) s]] by blast
  have s2: "section_ok t2" using same_locks_section [OF 2(3) same_locks_section [OF 1(3) s]] .
  have "?l < NUM" "\<not> vd_free (vd t2) ?l" using use 1(2) 2(2) dist by (auto simp: clear_desc_def)
  then obtain t3 where 3: "free_desc ?l t2 = Ok t3" "vd t3 = clear_desc ?l (vd t2)" "same_locks t2 t3"
    using free_desc_ok [OF s2] by blast
  have d: "vd_desc (vd t1) ?m = vd_desc (vd s) ?m" "vd_desc (vd t2) ?l = vd_desc (vd s) ?l"
    using dist 1(2) 2(2) by (auto simp: clear_desc_def)
  have "free_chain ?l t2 = Ok t3" using 3(1) d(2) f(3) by (subst free_chain.simps) simp
  moreover have "free_chain ?m t1 = free_chain ?l t2"
    using 2(1) d(1) f(2) by (subst free_chain.simps) (simp add: nxt_def)
  moreover have "free_chain h s = free_chain ?m t1"
    using 1(1) f(1) by (subst free_chain.simps) (simp add: nxt_def)
  moreover have "same_locks s t3" using same_locks_trans [OF 1(3) same_locks_trans [OF 2(3) 3(3)]] .
  ultimately show ?thesis using 1 2 3 by auto
qed

section \<open>The driver's operations as functions of its state\<close>

text \<open>\<open>submit\<close> is what the first part of a call does when there are descriptors, \<open>give_back\<close> what it does when there are too few.\<close>

definition submit :: "nat \<Rightarrow> bool \<Rightarrow> u64 \<Rightarrow> vdisk \<Rightarrow> vdisk" where
  "submit b wr sector d =
     (let idx = take 3 (free_list d)
      in publish (idx ! 0) (format_req b wr sector (idx ! 0) (idx ! 1) (idx ! 2) (take_free idx d)))"

definition give_back :: "vdisk \<Rightarrow> vdisk" where
  "give_back d = fold clear_desc (free_list d) (take_free (free_list d) d)"

definition finish :: "nat \<Rightarrow> vdisk \<Rightarrow> vdisk" where
  "finish h d = fold clear_desc [h, nxt d h, nxt d (nxt d h)] (d\<lparr>info_b := (info_b d)(h := None)\<rparr>)"

lemma rw_wait_sleeps:
  "call_ok s \<Longrightarrow> vb_disk (vd s) b \<Longrightarrow> \<exists>ia t. rw_wait b h s = Ok (Inl (AtWait h ia), t) \<and> vd t = vd s"
  using sleep_out_vd [of s "DiskChan b"] by (auto simp: rw_wait_def)

lemma rw_alloc_submits:
  assumes "call_ok s" "3 \<le> length (free_list (vd s))"
  shows "\<exists>ia t. rw_alloc b wr sector s = Ok (Inl (AtWait (free_list (vd s) ! 0) ia), t) \<and> vd t = submit b wr sector (vd s)"
proof -
  let ?i = "take 3 (free_list (vd s))"
  let ?t = "wr_reg VIRTIO_MMIO_QUEUE_NOTIFY 0 (upd_vd (publish (?i ! 0)) (upd_vd (format_req b wr sector (?i ! 0) (?i ! 1) (?i ! 2))
    (upd_vd (take_free ?i) s)))"
  have "call_ok ?t" by (intro same_locks_call [OF same_locks_upd(1)] same_locks_call [OF same_locks_upd(2)] assms(1))
  moreover have v: "vd ?t = submit b wr sector (vd s)" by (simp add: submit_def Let_def)
  moreover have "vb_disk (vd ?t) b" unfolding v by (simp add: submit_def Let_def publish_def format_req_def)
  ultimately obtain ia t where "rw_wait b (?i ! 0) ?t = Ok (Inl (AtWait (?i ! 0) ia), t)" "vd t = vd ?t"
    using rw_wait_sleeps [of ?t b "?i ! 0"] by auto
  moreover have "alloc3_desc s = Ok (Some ?i, upd_vd (take_free ?i) s)"
    using alloc_descs_Some [OF assms(2), of "[]"] by (simp add: alloc3_desc_def)
  ultimately show ?thesis using v by (simp add: rw_alloc_def Let_def)
qed

lemma rw_alloc_sleeps:
  assumes "call_ok s" "length (free_list (vd s)) < 3"
  shows "\<exists>ia t. rw_alloc b wr sector s = Ok (Inl (AtAlloc sector ia), t) \<and> vd t = give_back (vd s)"
proof -
  obtain t where "alloc3_desc s = Ok (None, t)" "same_locks s t" "vd t = give_back (vd s)"
    using alloc_descs_None [of s 3 "[]"] assms by (auto simp: alloc3_desc_def give_back_def call_ok_def)
  then show ?thesis using sleep_out_vd [OF same_locks_call [of s t], of DiskFree] assms(1) by (auto simp: rw_alloc_def)
qed

lemma intr_one_ok:
  assumes "section_ok s" "info_status (vd s) (unat (us_ring (vd s) (unat (used_idx (vd s) mod of_nat NUM)))) = 0"
    "info_b (vd s) (unat (us_ring (vd s) (unat (used_idx (vd s) mod of_nat NUM)))) = Some b"
  shows "\<exists>t. intr_one s = Ok t \<and> same_locks s t \<and>
    vd t = (vd s)\<lparr>vb_disk := (vb_disk (vd s))(b := False), used_idx := used_idx (vd s) + 1\<rparr>"
proof -
  let ?s = "upd_vd (\<lambda>d. d\<lparr>vb_disk := (vb_disk d)(b := False)\<rparr>) s"
  obtain t where t: "wakeup (Some (DiskChan b)) ?s = Ok t" "vd t = vd ?s" "same_locks ?s t"
    using wakeup_in_section [OF same_locks_section [OF same_locks_upd(1) assms(1)]] by blast
  have "same_locks s (upd_vd (\<lambda>d. d\<lparr>used_idx := used_idx d + 1\<rparr>) t)"
    using same_locks_trans [OF same_locks_trans [OF same_locks_upd(1) t(3)] same_locks_upd(1)] .
  then show ?thesis using t assms(2,3) by (simp add: intr_one_def Let_def)
qed

end
