(* ===== verification/Virtio_Device.thy ===== *)
theory Virtio_Device
  imports Virtio_Locks Ring
begin

text \<open>
  The driver together with a disk. The device is not code of the repository: its behaviour is what
  section 2.6 and 5.2 of the virtio specification say the driver can rely on. It takes the heads
  of descriptor chains from the available ring in the order in which they were published, performs any
  request it has taken, at any later time and in any order, by following the descriptors in memory, and
  then appends the head to the used ring. What it does with a request is determined by the memory at
  that time only; a chain that is not a well-formed block request it cannot perform.

  \<open>vsys\<close> adds the processes that are inside \<open>virtio_disk_rw\<close>, by buffer, with their local variables, and
  whether the interrupt handler is running. The steps are the driver's critical sections, the device's
  actions, a change of a buffer by a process that is not in a request for it, and arbitrary activity of
  the rest of the kernel. The specification is a disk that performs each request at once, at some moment
  between the call and the return.
\<close>

section \<open>The device\<close>

record vdev =
  dev_taken :: u16
  dev_inflight :: "nat list"
  dev_media :: "u64 \<Rightarrow> u8 list"

definition read_sectors :: "(u64 \<Rightarrow> u8 list) \<Rightarrow> u64 \<Rightarrow> nat \<Rightarrow> u8 list" where
  "read_sectors m sec n = concat (map (\<lambda>i. m (sec + of_nat i)) [0..<n div 512])"

definition write_sectors :: "(u64 \<Rightarrow> u8 list) \<Rightarrow> u64 \<Rightarrow> u8 list \<Rightarrow> u64 \<Rightarrow> u8 list" where
  "write_sectors m sec bs = (\<lambda>x. if unat (x - sec) < length bs div 512
     then take 512 (drop (512 * unat (x - sec)) bs) else m x)"

definition dev_op :: "nat \<Rightarrow> vdisk \<Rightarrow> (u64 \<Rightarrow> u8 list) \<Rightarrow> (vdisk \<times> (u64 \<Rightarrow> u8 list)) option" where
  "dev_op h d m =
     (let d0 = vd_desc d h; d1 = vd_desc d (nxt d h); d2 = vd_desc d (nxt d (nxt d h))
      in case (d_addr d0, d_addr d1, d_addr d2) of
           (AOps k, AData b, AStatus j) \<Rightarrow>
             if d_len d0 = blk_req_size \<and> d_flags d0 = VRING_DESC_F_NEXT \<and>
                d_flags d1 AND VRING_DESC_F_NEXT \<noteq> 0 \<and> d_len d2 = 1 \<and> d_flags d2 = VRING_DESC_F_WRITE
             then let r = vd_ops d k; n = unat (d_len d1); d' = d\<lparr>info_status := (info_status d)(j := 0)\<rparr>
               in if rq_type r = VIRTIO_BLK_T_OUT \<and> d_flags d1 AND VRING_DESC_F_WRITE = 0
                  then Some (d', write_sectors m (rq_sector r) (take n (vb_data d b)))
                  else if rq_type r = VIRTIO_BLK_T_IN \<and> d_flags d1 AND VRING_DESC_F_WRITE \<noteq> 0
                  then Some (d'\<lparr>vb_data := (vb_data d)(b := read_sectors m (rq_sector r) n)\<rparr>, m)
                  else None
             else None
         | _ \<Rightarrow> None)"

definition dev_done :: "nat \<Rightarrow> vdisk \<Rightarrow> vdisk" where
  "dev_done h d = d\<lparr>us_ring := (us_ring d)(unat (us_idx d mod of_nat NUM) := of_nat h), us_idx := us_idx d + 1\<rparr>"

definition dev_fetch :: "vdisk \<Rightarrow> vdev \<Rightarrow> vdev" where
  "dev_fetch d dv = dv\<lparr>dev_inflight := dev_inflight dv @ [unat (av_ring d (unat (dev_taken dv mod of_nat NUM)))],
     dev_taken := dev_taken dv + 1\<rparr>"

section \<open>The specification: a disk that performs requests at once\<close>

record adisk =
  a_media :: "u32 \<Rightarrow> block"
  a_data :: "nat \<Rightarrow> block"
  a_blockno :: "nat \<Rightarrow> u32"
  a_calls :: "nat \<Rightarrow> (bool \<times> bool) option"

datatype disk_event = Call nat bool u32 block | Return nat block | Tau

definition do_req :: "nat \<Rightarrow> bool \<Rightarrow> adisk \<Rightarrow> adisk" where
  "do_req b wr a =
     (if wr then a\<lparr>a_media := (a_media a)(a_blockno a b := a_data a b)\<rparr>
      else a\<lparr>a_data := (a_data a)(b := a_media a (a_blockno a b))\<rparr>)"

inductive astep :: "disk_event \<Rightarrow> adisk \<Rightarrow> adisk \<Rightarrow> bool" where
  a_call: "a_calls a b = None \<Longrightarrow>
    astep (Call b wr (a_blockno a b) (a_data a b)) a (a\<lparr>a_calls := (a_calls a)(b \<mapsto> (wr, False))\<rparr>)"
| a_do: "a_calls a b = Some (wr, False) \<Longrightarrow>
    astep Tau a ((do_req b wr a)\<lparr>a_calls := (a_calls a)(b \<mapsto> (wr, True))\<rparr>)"
| a_return: "a_calls a b = Some (wr, True) \<Longrightarrow>
    astep (Return b (a_data a b)) a (a\<lparr>a_calls := (a_calls a)(b := None)\<rparr>)"
| a_client: "a_calls a b = None \<Longrightarrow>
    astep Tau a (a\<lparr>a_blockno := (a_blockno a)(b := bno), a_data := (a_data a)(b := bs)\<rparr>)"
| a_skip: "astep Tau a a"

section \<open>Driver and device\<close>

record vsys =
  v_calls :: "nat \<Rightarrow> (bool \<times> rw_local) option"
  v_intr :: bool
  v_dev :: vdev
  v_st :: vstate

definition valid_req :: "nat \<Rightarrow> vdisk \<Rightarrow> bool" where
  "valid_req b d \<longleftrightarrow> length (vb_data d b) = BSIZE \<and> unat (vb_blockno d b) < 2 ^ 31"

inductive vstep :: "disk_event \<Rightarrow> vsys \<Rightarrow> vsys \<Rightarrow> bool" where
  v_call: "v_calls S b = None \<Longrightarrow> valid_req b (vd (v_st S)) \<Longrightarrow> \<not> v_intr S \<Longrightarrow> ready (v_st S) \<Longrightarrow>
    virtio_disk_rw b wr (v_st S) = Ok (Inl l, t) \<Longrightarrow>
    vstep (Call b wr (vb_blockno (vd (v_st S)) b) (vb_data (vd (v_st S)) b)) S
      (S\<lparr>v_calls := (v_calls S)(b \<mapsto> (wr, l)), v_st := t\<rparr>)"
| v_resume: "v_calls S b = Some (wr, l) \<Longrightarrow> \<not> v_intr S \<Longrightarrow> resumable (v_st S) \<Longrightarrow>
    virtio_disk_rw_resume b wr l (v_st S) = Ok (Inl l', t) \<Longrightarrow>
    vstep Tau S (S\<lparr>v_calls := (v_calls S)(b \<mapsto> (wr, l')), v_st := t\<rparr>)"
| v_return: "v_calls S b = Some (wr, l) \<Longrightarrow> \<not> v_intr S \<Longrightarrow> resumable (v_st S) \<Longrightarrow>
    virtio_disk_rw_resume b wr l (v_st S) = Ok (Inr (), t) \<Longrightarrow>
    vstep (Return b (vb_data (vd t) b)) S (S\<lparr>v_calls := (v_calls S)(b := None), v_st := t\<rparr>)"
| v_intr_begin: "\<not> v_intr S \<Longrightarrow> ready_intr (v_st S) \<Longrightarrow> intr_begin rd (v_st S) = Ok t \<Longrightarrow>
    vstep Tau S (S\<lparr>v_intr := True, v_st := t\<rparr>)"
| v_intr_one: "v_intr S \<Longrightarrow> section_ok (v_st S) \<Longrightarrow> intr_more (v_st S) \<Longrightarrow> intr_one (v_st S) = Ok t \<Longrightarrow>
    vstep Tau S (S\<lparr>v_st := t\<rparr>)"
| v_intr_end: "v_intr S \<Longrightarrow> section_ok (v_st S) \<Longrightarrow> \<not> intr_more (v_st S) \<Longrightarrow> release_vd (v_st S) = Ok t \<Longrightarrow>
    vstep Tau S (S\<lparr>v_intr := False, v_st := t\<rparr>)"
| v_fetch: "dev_taken (v_dev S) \<noteq> av_idx (vd (v_st S)) \<Longrightarrow>
    vstep Tau S (S\<lparr>v_dev := dev_fetch (vd (v_st S)) (v_dev S)\<rparr>)"
| v_complete: "h \<in> set (dev_inflight (v_dev S)) \<Longrightarrow>
    dev_op h (vd (v_st S)) (dev_media (v_dev S)) = Some (d, m) \<Longrightarrow>
    vstep Tau S (S\<lparr>v_dev := (v_dev S)\<lparr>dev_inflight := remove1 h (dev_inflight (v_dev S)), dev_media := m\<rparr>,
      v_st := (v_st S)\<lparr>vd := dev_done h d\<rparr>\<rparr>)"
| v_client: "v_calls S b = None \<Longrightarrow>
    vstep Tau S (S\<lparr>v_st := upd_vd (\<lambda>d. d\<lparr>vb_blockno := (vb_blockno d)(b := bno), vb_data := (vb_data d)(b := bs)\<rparr>) (v_st S)\<rparr>)"
| v_kernel: "vd t = vd (v_st S) \<Longrightarrow> vstep Tau S (S\<lparr>v_st := t\<rparr>)"

text \<open>A freshly initialised driver and an idle device, whose sectors have 512 bytes.\<close>

definition vinit :: "vsys \<Rightarrow> bool" where
  "vinit S \<longleftrightarrow> v_calls S = (\<lambda>_. None) \<and> \<not> v_intr S \<and> dev_taken (v_dev S) = 0 \<and> dev_inflight (v_dev S) = [] \<and>
     (\<forall>x. length (dev_media (v_dev S) x) = 512) \<and>
     (\<forall>i<NUM. vd_free (vd (v_st S)) i) \<and> av_idx (vd (v_st S)) = 0 \<and> us_idx (vd (v_st S)) = 0 \<and>
     used_idx (vd (v_st S)) = 0 \<and> (\<forall>b. \<not> vb_disk (vd (v_st S)) b)"

section \<open>Traces\<close>

text \<open>The visible events of a run, in order.\<close>

inductive vruns :: "(disk_event \<Rightarrow> 's \<Rightarrow> 's \<Rightarrow> bool) \<Rightarrow> 's \<Rightarrow> disk_event list \<Rightarrow> 's \<Rightarrow> bool"
  for step where
  runs_refl: "vruns step s [] s"
| runs_tau: "vruns step s tr t \<Longrightarrow> step Tau t u \<Longrightarrow> vruns step s tr u"
| runs_event: "vruns step s tr t \<Longrightarrow> step e t u \<Longrightarrow> e \<noteq> Tau \<Longrightarrow> vruns step s (tr @ [e]) u"

lemma runs_step: "vruns step s tr t \<Longrightarrow> step e t u \<Longrightarrow> vruns step s (tr @ (if e = Tau then [] else [e])) u"
  by (auto intro: vruns.intros)

text \<open>Every step of a machine that keeps \<open>inv\<close> is a step of another one, through \<open>abs\<close>.\<close>

locale event_refinement =
  fixes cstep :: "disk_event \<Rightarrow> 'c \<Rightarrow> 'c \<Rightarrow> bool" and astep :: "disk_event \<Rightarrow> 'a \<Rightarrow> 'a \<Rightarrow> bool"
    and inv :: "'c \<Rightarrow> bool" and abs :: "'c \<Rightarrow> 'a"
  assumes inv_step: "inv s \<Longrightarrow> cstep e s t \<Longrightarrow> inv t"
    and abs_step: "inv s \<Longrightarrow> cstep e s t \<Longrightarrow> astep e (abs s) (abs t)"
begin

lemma inv_runs: "vruns cstep s tr t \<Longrightarrow> inv s \<Longrightarrow> inv t"
  by (induction rule: vruns.induct) (auto intro: inv_step)

lemma traces: "vruns cstep s tr t \<Longrightarrow> inv s \<Longrightarrow> vruns astep (abs s) tr (abs t)"
proof (induction rule: vruns.induct)
  case (runs_refl s)
  show ?case by (rule vruns.runs_refl)
next
  case (runs_tau s tr t u)
  then show ?case using abs_step [OF inv_runs] by (blast intro: vruns.runs_tau)
next
  case (runs_event s tr t e u)
  then show ?case using abs_step [OF inv_runs] by (blast intro: vruns.runs_event)
qed

end

end
