(* ===== verification/Virtio_Inv.thy ===== *)
theory Virtio_Inv
  imports Virtio_Device
begin

text \<open>
  The invariant of driver and device. Every request in progress owns three descriptors, formatted as the
  device expects them, and every descriptor in use belongs to a request. The head of every
  request that is not done is in exactly one of three places: published in the available ring, taken by
  the device, or in the used ring.
\<close>

section \<open>Requests and their descriptors\<close>

type_synonym calls = "nat \<Rightarrow> (bool \<times> rw_local) option"

definition waits :: "calls \<Rightarrow> nat \<Rightarrow> nat \<Rightarrow> bool \<Rightarrow> bool" where
  "waits c b h w \<longleftrightarrow> (\<exists>ia. c b = Some (w, AtWait h ia))"

definition slots :: "vdisk \<Rightarrow> nat \<Rightarrow> nat set" where
  "slots d h = {h, nxt d h, nxt d (nxt d h)}"

definition req_ok :: "vdisk \<Rightarrow> nat \<Rightarrow> bool \<Rightarrow> nat \<Rightarrow> bool" where
  "req_ok d b w h \<longleftrightarrow>
     (let m = nxt d h; l = nxt d m in
      distinct [h, m, l] \<and> (\<forall>i\<in>{h, m, l}. i < NUM \<and> \<not> vd_free d i) \<and>
      vd_desc d h = \<lparr>d_addr = AOps h, d_len = blk_req_size, d_flags = VRING_DESC_F_NEXT, d_next = of_nat m\<rparr> \<and>
      vd_desc d m = \<lparr>d_addr = AData b, d_len = of_nat BSIZE,
        d_flags = (if w then 0 else VRING_DESC_F_WRITE) OR VRING_DESC_F_NEXT, d_next = of_nat l\<rparr> \<and>
      vd_desc d l = \<lparr>d_addr = AStatus h, d_len = 1, d_flags = VRING_DESC_F_WRITE, d_next = 0\<rparr> \<and>
      vd_ops d h = \<lparr>rq_type = (if w then VIRTIO_BLK_T_OUT else VIRTIO_BLK_T_IN), rq_reserved = 0,
        rq_sector = sector_of (vb_blockno d b)\<rparr> \<and>
      info_b d h = Some b)"

definition chains_ok :: "calls \<Rightarrow> vdisk \<Rightarrow> bool" where
  "chains_ok c d \<longleftrightarrow>
     (\<forall>b h w. waits c b h w \<longrightarrow> req_ok d b w h) \<and>
     (\<forall>b h w b' h' w'. waits c b h w \<longrightarrow> waits c b' h' w' \<longrightarrow> b \<noteq> b' \<longrightarrow> slots d h \<inter> slots d h' = {}) \<and>
     (\<forall>i<NUM. \<not> vd_free d i \<longrightarrow> (\<exists>b h w. waits c b h w \<and> i \<in> slots d h))"

lemma waits_upd [simp]:
  "waits (c(b := None)) b' h w \<longleftrightarrow> b' \<noteq> b \<and> waits c b' h w"
  "waits (c(b \<mapsto> (w', AtAlloc sec ia))) b' h w \<longleftrightarrow> b' \<noteq> b \<and> waits c b' h w"
  "waits (c(b \<mapsto> (w', AtWait h' ia))) b' h w \<longleftrightarrow> (if b' = b then h = h' \<and> w = w' else waits c b' h w)"
  by (auto simp: waits_def)

lemma waits_unique: "waits c b h w \<Longrightarrow> waits c b h' w' \<Longrightarrow> h' = h \<and> w' = w"
  by (auto simp: waits_def)

lemma slots_frame:
  assumes "\<forall>i\<in>slots d h. vd_desc d' i = vd_desc d i"
  shows "nxt d' h = nxt d h" "nxt d' (nxt d h) = nxt d (nxt d h)" "slots d' h = slots d h"
  using assms by (simp_all add: slots_def nxt_def)

lemma req_ok_frame:
  assumes r: "req_ok d b w h" and s: "\<forall>i\<in>slots d h. vd_desc d' i = vd_desc d i \<and> vd_free d' i = vd_free d i"
    and e: "vd_ops d' h = vd_ops d h" "info_b d' h = info_b d h" "vb_blockno d' b = vb_blockno d b"
  shows "req_ok d' b w h"
proof -
  have n: "nxt d' h = nxt d h" "nxt d' (nxt d h) = nxt d (nxt d h)" using slots_frame [of d h d'] s by auto
  show ?thesis using r e s unfolding req_ok_def Let_def n by (simp add: slots_def)
qed

lemma head_in_slots [simp]: "h \<in> slots d h"
  by (simp add: slots_def)

lemma chains_ok_distinct_heads:
  "chains_ok c d \<Longrightarrow> waits c b h w \<Longrightarrow> waits c b' h w' \<Longrightarrow> b' = b"
  by (metis chains_ok_def disjoint_iff head_in_slots)

lemma req_ok_slots: "req_ok d b w h \<Longrightarrow> i \<in> slots d h \<Longrightarrow> i < NUM \<and> \<not> vd_free d i"
  by (auto simp: req_ok_def slots_def Let_def)

lemma chains_ok_frame:
  assumes "chains_ok c d" "vd_desc d' = vd_desc d" "vd_free d' = vd_free d" "vd_ops d' = vd_ops d"
    "info_b d' = info_b d" "\<And>b h w. waits c b h w \<Longrightarrow> vb_blockno d' b = vb_blockno d b"
    "\<And>b h w. waits c' b h w \<longleftrightarrow> waits c b h w"
  shows "chains_ok c' d'"
proof -
  have "slots d' h = slots d h" for h using assms(2) by (simp add: slots_def nxt_def)
  moreover have "req_ok d' b w h" if "waits c b h w" for b w h
    using req_ok_frame [of d b w h d'] assms(1-5) assms(6) [OF that] that by (auto simp: chains_ok_def)
  ultimately show ?thesis using assms(1,3,7) by (simp add: chains_ok_def)
qed

section \<open>Descriptors are taken and given back\<close>

lemma format_req_fields:
  "vd_free (format_req b w sec i0 i1 i2 d) = vd_free d"
  "vb_blockno (format_req b w sec i0 i1 i2 d) = vb_blockno d"
  "vd_ops (format_req b w sec i0 i1 i2 d) = (vd_ops d)(i0 :=
     \<lparr>rq_type = (if w then VIRTIO_BLK_T_OUT else VIRTIO_BLK_T_IN), rq_reserved = 0, rq_sector = sec\<rparr>)"
  "info_b (format_req b w sec i0 i1 i2 d) = (info_b d)(i0 := Some b)"
  "vd_desc (format_req b w sec i0 i1 i2 d) = (vd_desc d)(
     i0 := \<lparr>d_addr = AOps i0, d_len = blk_req_size, d_flags = VRING_DESC_F_NEXT, d_next = of_nat i1\<rparr>,
     i1 := \<lparr>d_addr = AData b, d_len = of_nat BSIZE,
       d_flags = (if w then 0 else VRING_DESC_F_WRITE) OR VRING_DESC_F_NEXT, d_next = of_nat i2\<rparr>,
     i2 := \<lparr>d_addr = AStatus i0, d_len = 1, d_flags = VRING_DESC_F_WRITE, d_next = 0\<rparr>)"
  "vb_disk (format_req b w sec i0 i1 i2 d) = (vb_disk d)(b := True)"
  "vb_data (format_req b w sec i0 i1 i2 d) = vb_data d"
  "info_status (format_req b w sec i0 i1 i2 d) = (info_status d)(i0 := 0xff)"
  "av_ring (format_req b w sec i0 i1 i2 d) = av_ring d" "av_idx (format_req b w sec i0 i1 i2 d) = av_idx d"
  "us_ring (format_req b w sec i0 i1 i2 d) = us_ring d" "us_idx (format_req b w sec i0 i1 i2 d) = us_idx d"
  "used_idx (format_req b w sec i0 i1 i2 d) = used_idx d"
  by (simp_all add: format_req_def Let_def)

lemma publish_fields:
  "vd_free (publish i d) = vd_free d" "vb_blockno (publish i d) = vb_blockno d" "vd_ops (publish i d) = vd_ops d"
  "info_b (publish i d) = info_b d" "vd_desc (publish i d) = vd_desc d" "vb_disk (publish i d) = vb_disk d"
  "vb_data (publish i d) = vb_data d" "info_status (publish i d) = info_status d" "us_ring (publish i d) = us_ring d"
  "us_idx (publish i d) = us_idx d" "used_idx (publish i d) = used_idx d"
  "av_ring (publish i d) = (av_ring d)(unat (av_idx d mod of_nat NUM) := of_nat i)" "av_idx (publish i d) = av_idx d + 1"
  by (simp_all add: publish_def Let_def)

lemma take_free_fields:
  "vd_free (take_free is d) j \<longleftrightarrow> vd_free d j \<and> j \<notin> set is" "vb_blockno (take_free is d) = vb_blockno d"
  "vd_ops (take_free is d) = vd_ops d" "info_b (take_free is d) = info_b d" "vd_desc (take_free is d) = vd_desc d"
  "vb_disk (take_free is d) = vb_disk d" "vb_data (take_free is d) = vb_data d"
  "info_status (take_free is d) = info_status d" "us_ring (take_free is d) = us_ring d" "us_idx (take_free is d) = us_idx d"
  "used_idx (take_free is d) = used_idx d" "av_ring (take_free is d) = av_ring d" "av_idx (take_free is d) = av_idx d"
  by (simp_all add: take_free_def)

lemma clear_desc_fields:
  "vd_free (fold clear_desc js d) j \<longleftrightarrow> j \<in> set js \<or> vd_free d j" "vb_blockno (fold clear_desc js d) = vb_blockno d"
  "vd_ops (fold clear_desc js d) = vd_ops d" "info_b (fold clear_desc js d) = info_b d"
  "vd_desc (fold clear_desc js d) j = (if j \<in> set js then zero_desc else vd_desc d j)"
  "vb_disk (fold clear_desc js d) = vb_disk d" "vb_data (fold clear_desc js d) = vb_data d"
  "info_status (fold clear_desc js d) = info_status d" "us_ring (fold clear_desc js d) = us_ring d"
  "us_idx (fold clear_desc js d) = us_idx d" "used_idx (fold clear_desc js d) = used_idx d"
  "av_ring (fold clear_desc js d) = av_ring d" "av_idx (fold clear_desc js d) = av_idx d"
  by (induction js arbitrary: d) (auto simp: clear_desc_def)

lemmas driver_fields = format_req_fields publish_fields take_free_fields clear_desc_fields

lemma three_free:
  assumes "3 \<le> length (free_list d)"
  obtains i0 i1 i2 where "take 3 (free_list d) = [i0, i1, i2]" "distinct [i0, i1, i2]"
    "\<forall>i\<in>{i0, i1, i2}. i < NUM \<and> vd_free d i" "free_list d ! 0 = i0"
proof -
  obtain i0 i1 i2 r where fl: "free_list d = i0 # i1 # i2 # r"
    using assms by (auto simp: numeral_3_eq_3 Suc_le_length_iff)
  then have "distinct (i0 # i1 # i2 # r)" "set (i0 # i1 # i2 # r) = {i. i < NUM \<and> vd_free d i}"
    using free_list_simps [of d] by simp_all
  then show ?thesis using that [of i0 i1 i2] fl by auto
qed

lemma of_nat_NUM [simp]: "i < NUM \<Longrightarrow> unat (of_nat i :: u16) = i" "i < NUM \<Longrightarrow> unat (of_nat i :: u32) = i"
  by (simp_all add: NUM_def unsigned_of_nat take_bit_nat_eq_self)

lemma submit_chain:
  assumes "take 3 (free_list d) = [i0, i1, i2]" "distinct [i0, i1, i2]" "\<forall>i\<in>{i0, i1, i2}. i < NUM \<and> vd_free d i"
  shows "nxt (submit b w sec d) i0 = i1" "nxt (submit b w sec d) i1 = i2" "slots (submit b w sec d) i0 = {i0, i1, i2}"
  using assms by (auto simp: submit_def nxt_def slots_def driver_fields Let_def)

lemma chains_submit:
  assumes c: "chains_ok c d" and none: "\<forall>h w. \<not> waits c b h w" and f: "3 \<le> length (free_list d)"
  shows "chains_ok (c(b \<mapsto> (w, AtWait (free_list d ! 0) ia))) (submit b w (sector_of (vb_blockno d b)) d)"
proof -
  obtain i0 i1 i2 where i: "take 3 (free_list d) = [i0, i1, i2]" "distinct [i0, i1, i2]"
    "\<forall>i\<in>{i0, i1, i2}. i < NUM \<and> vd_free d i" "free_list d ! 0 = i0" using three_free [OF f] .
  let ?d = "submit b w (sector_of (vb_blockno d b)) d"
  note ch = submit_chain [OF i(1-3), of b w "sector_of (vb_blockno d b)"]
  have out: "i \<notin> {i0, i1, i2}" if "waits c b' h' w'" "i \<in> slots d h'" for b' h' w' i
    using req_ok_slots that c i(3) unfolding chains_ok_def by blast
  have agree: "vd_desc ?d i = vd_desc d i \<and> vd_free ?d i = vd_free d i" if "i \<notin> {i0, i1, i2}" for i
    using that i(1) by (auto simp: submit_def driver_fields Let_def)
  have old: "slots ?d h' = slots d h'" "req_ok ?d b' w' h'" if "waits c b' h' w'" for b' h' w'
  proof -
    have a: "\<forall>i\<in>slots d h'. vd_desc ?d i = vd_desc d i \<and> vd_free ?d i = vd_free d i" using out [OF that] agree by blast
    then show "slots ?d h' = slots d h'" using slots_frame(3) by blast
    have "h' \<noteq> i0" using out [OF that, of h'] by auto
    then have "vd_ops ?d h' = vd_ops d h'" "info_b ?d h' = info_b d h'" "vb_blockno ?d b' = vb_blockno d b'"
      using i(1) by (simp_all add: submit_def driver_fields Let_def)
    moreover have "req_ok d b' w' h'" using c that by (simp add: chains_ok_def)
    ultimately show "req_ok ?d b' w' h'" using a req_ok_frame by blast
  qed
  have new: "req_ok ?d b w i0" unfolding req_ok_def Let_def ch
    using i by (auto simp: submit_def driver_fields Let_def)
  have dis: "slots ?d i0 \<inter> slots ?d h' = {}" if "waits c b' h' w'" for b' h' w'
    using out [OF that] old(1) [OF that] ch(3) by blast
  show ?thesis unfolding chains_ok_def i(4) waits_upd
  proof (intro conjI allI impI)
    fix b' h' w'
    assume "if b' = b then h' = i0 \<and> w' = w else waits c b' h' w'"
    then show "req_ok ?d b' w' h'" using old(2) new by (auto split: if_splits)
  next
    fix b1 h1 w1 b2 h2 w2
    assume "if b1 = b then h1 = i0 \<and> w1 = w else waits c b1 h1 w1"
      "if b2 = b then h2 = i0 \<and> w2 = w else waits c b2 h2 w2" "b1 \<noteq> b2"
    moreover have "slots ?d h1 \<inter> slots ?d h2 = {}" if "waits c b1 h1 w1" "waits c b2 h2 w2" "b1 \<noteq> b2"
      using c that old(1) unfolding chains_ok_def by metis
    ultimately show "slots ?d h1 \<inter> slots ?d h2 = {}"
      using dis [of b1 h1 w1] dis [of b2 h2 w2] by (auto split: if_splits)
  next
    fix j
    assume j: "j < NUM" "\<not> vd_free ?d j"
    show "\<exists>b' h' w'. (if b' = b then h' = i0 \<and> w' = w else waits c b' h' w') \<and> j \<in> slots ?d h'"
    proof (cases "j \<in> {i0, i1, i2}")
      case True
      then show ?thesis using ch(3) by (intro exI [of _ b] exI [of _ i0] exI [of _ w]) simp
    next
      case False
      then have "\<not> vd_free d j" using agree j(2) by blast
      then obtain b' h' w' where w': "waits c b' h' w'" "j \<in> slots d h'"
        using c j(1) unfolding chains_ok_def by blast
      moreover have "b' \<noteq> b" using w'(1) none by blast
      ultimately show ?thesis using old(1) [OF w'(1)] by (intro exI [of _ b'] exI [of _ h'] exI [of _ w']) simp
    qed
  qed
qed

lemma give_back_fields:
  "vd_free (give_back d) j \<longleftrightarrow> j \<in> set (free_list d) \<or> vd_free d j" "vb_blockno (give_back d) = vb_blockno d"
  "vd_ops (give_back d) = vd_ops d" "info_b (give_back d) = info_b d"
  "vd_desc (give_back d) j = (if j \<in> set (free_list d) then zero_desc else vd_desc d j)"
  by (auto simp: give_back_def driver_fields)

lemma chains_give_back:
  assumes c: "chains_ok c d" and w: "\<And>b h w. waits c' b h w \<longleftrightarrow> waits c b h w"
  shows "chains_ok c' (give_back d)"
proof -
  have f: "vd_free (give_back d) i = vd_free d i" for i by (auto simp: give_back_fields)
  have a: "\<forall>i\<in>slots d h. vd_desc (give_back d) i = vd_desc d i \<and> vd_free (give_back d) i = vd_free d i"
    if "waits c b h w" for b h w
    using c that req_ok_slots [of d b w h] unfolding chains_ok_def by (auto simp: give_back_fields)
  have "slots (give_back d) h = slots d h" "req_ok (give_back d) b w h" if "waits c b h w" for b h w
    using slots_frame(3) [of d h "give_back d"] req_ok_frame [OF _ a [OF that]] a [OF that] c that
    by (auto simp: give_back_fields chains_ok_def)
  then show ?thesis using c f unfolding chains_ok_def w by metis
qed

lemma chains_finish:
  assumes c: "chains_ok c d" and b: "waits c b h w"
  shows "chains_ok (c(b := None)) (finish h d)"
proof -
  let ?d = "finish h d"
  let ?e = "d\<lparr>info_b := (info_b d)(h := None)\<rparr>"
  have sl: "set [h, nxt d h, nxt d (nxt d h)] = slots d h" by (auto simp: slots_def)
  have d: "vd_free ?d i \<longleftrightarrow> i \<in> slots d h \<or> vd_free d i" "vd_desc ?d i = (if i \<in> slots d h then zero_desc else vd_desc d i)" for i
    unfolding finish_def clear_desc_fields sl by simp_all
  have dis: "slots d h \<inter> slots d h' = {}" if "waits c b' h' w'" "b' \<noteq> b" for b' h' w'
    using c b that unfolding chains_ok_def by blast
  have old: "slots ?d h' = slots d h'" "req_ok ?d b' w' h'" if "waits c b' h' w'" "b' \<noteq> b" for b' h' w'
  proof -
    have a: "\<forall>i\<in>slots d h'. vd_desc ?d i = vd_desc d i \<and> vd_free ?d i = vd_free d i" using dis [OF that] d by auto
    then show "slots ?d h' = slots d h'" using slots_frame(3) by blast
    have "h' \<noteq> h" using dis [OF that] head_in_slots by (metis disjoint_iff)
    then have "vd_ops ?d h' = vd_ops d h'" "info_b ?d h' = info_b d h'" "vb_blockno ?d b' = vb_blockno d b'"
      unfolding finish_def clear_desc_fields by simp_all
    moreover have "req_ok d b' w' h'" using c that by (simp add: chains_ok_def)
    ultimately show "req_ok ?d b' w' h'" using a req_ok_frame by blast
  qed
  have "\<exists>b' h' w'. b' \<noteq> b \<and> waits c b' h' w' \<and> j \<in> slots ?d h'" if j: "j < NUM" "\<not> vd_free ?d j" for j
  proof -
    have "\<not> vd_free d j" "j \<notin> slots d h" using j(2) d(1) by auto
    then obtain b' h' w' where w': "waits c b' h' w'" "j \<in> slots d h'"
      using c j(1) unfolding chains_ok_def by blast
    moreover have "b' \<noteq> b" using w' \<open>j \<notin> slots d h\<close> b waits_unique by blast
    ultimately show ?thesis using old(1) by blast
  qed
  then show ?thesis using old c unfolding chains_ok_def waits_upd by metis
qed

end
