(* ===== verification/Virtio_Queues.thy ===== *)
theory Virtio_Queues
  imports Virtio_Inv
begin

text \<open>
  The two rings as queues of chain heads, the data a request moves, and the effect of every step on the
  invariant and on the abstraction to the disk of the specification.
\<close>

section \<open>The rings\<close>

definition avail :: "vdev \<Rightarrow> vdisk \<Rightarrow> nat list" where
  "avail dv d = map unat (ring NUM (av_ring d) (dev_taken dv) (av_idx d))"

definition used :: "vdisk \<Rightarrow> nat list" where
  "used d = map unat (ring NUM (us_ring d) (used_idx d) (us_idx d))"

abbreviation queued :: "vdev \<Rightarrow> vdisk \<Rightarrow> nat list" where
  "queued dv d \<equiv> avail dv d @ dev_inflight dv @ used d"

definition queues_ok :: "calls \<Rightarrow> vdev \<Rightarrow> vdisk \<Rightarrow> bool" where
  "queues_ok c dv d \<longleftrightarrow> distinct (queued dv d) \<and>
     (\<forall>h. h \<in> set (queued dv d) \<longleftrightarrow> (\<exists>b w. waits c b h w \<and> vb_disk d b)) \<and>
     (\<forall>h\<in>set (used d). info_status d h = 0) \<and>
     (\<forall>b. vb_disk d b \<longrightarrow> (\<exists>h w. waits c b h w))"

lemma queues_okI:
  "distinct (queued dv d) \<Longrightarrow> (\<And>h. h \<in> set (queued dv d) \<longleftrightarrow> (\<exists>b w. waits c b h w \<and> vb_disk d b)) \<Longrightarrow>
     (\<And>h. h \<in> set (used d) \<Longrightarrow> info_status d h = 0) \<Longrightarrow>
     (\<And>b. vb_disk d b \<Longrightarrow> \<exists>h w. waits c b h w) \<Longrightarrow> queues_ok c dv d"
  unfolding queues_ok_def by blast

lemma queues_okD:
  assumes "queues_ok c dv d"
  shows "h \<in> set (queued dv d) \<longleftrightarrow> (\<exists>b w. waits c b h w \<and> vb_disk d b)"
    and "h \<in> set (used d) \<Longrightarrow> info_status d h = 0"
    and "vb_disk d b \<Longrightarrow> \<exists>h w. waits c b h w" and "distinct (queued dv d)"
  using assms unfolding queues_ok_def by blast+

lemma num_dvd: "NUM dvd 2 ^ LENGTH(16)" "NUM < 2 ^ LENGTH(16)"
  by (simp_all add: NUM_def)

lemma num_index: "unat ((i :: u16) mod of_nat NUM) = unat i mod NUM"
  by (simp add: unat_mod NUM_def)

lemma ring_cong_fields:
  "av_ring d' = av_ring d \<Longrightarrow> av_idx d' = av_idx d \<Longrightarrow> avail dv d' = avail dv d"
  "us_ring d' = us_ring d \<Longrightarrow> us_idx d' = us_idx d \<Longrightarrow> used_idx d' = used_idx d \<Longrightarrow> used d' = used d"
  by (simp_all add: avail_def used_def)

lemma avail_publish:
  assumes "length (avail dv d) < NUM" "h < NUM"
  shows "avail dv (publish h d) = avail dv d @ [h]"
  using ring_put [OF num_dvd, of "av_idx d" "dev_taken dv" "av_ring d" "of_nat h"] assms
  by (simp add: avail_def publish_fields num_index)

lemma avail_fetch:
  assumes "dev_taken dv \<noteq> av_idx d"
  shows "avail dv d = unat (av_ring d (unat (dev_taken dv mod of_nat NUM))) # avail (dev_fetch d dv) d"
  using ring_get [OF num_dvd(1) assms, of "av_ring d"] by (simp add: avail_def dev_fetch_def num_index)

lemma used_done:
  assumes "length (used d) < NUM" "h < NUM"
  shows "used (dev_done h d) = used d @ [h]"
  using ring_put [OF num_dvd, of "us_idx d" "used_idx d" "us_ring d" "of_nat h"] assms
  by (simp add: used_def dev_done_def num_index)

lemma used_step:
  assumes "used_idx d \<noteq> us_idx d"
  shows "used d = unat (us_ring d (unat (used_idx d mod of_nat NUM))) #
    used (d\<lparr>vb_disk := f, used_idx := used_idx d + 1\<rparr>)"
  using ring_get [OF num_dvd(1) assms, of "us_ring d"] by (simp add: used_def num_index)

lemma used_Nil: "used d = [] \<longleftrightarrow> used_idx d = us_idx d"
  by (simp add: used_def ring_empty_iff)

lemma waits_small: "chains_ok c d \<Longrightarrow> waits c b h w \<Longrightarrow> h < NUM \<and> \<not> vd_free d h"
  unfolding chains_ok_def using req_ok_slots head_in_slots by blast

lemma queued_small: "chains_ok c d \<Longrightarrow> queues_ok c dv d \<Longrightarrow> h \<in> set (queued dv d) \<Longrightarrow> h < NUM \<and> \<not> vd_free d h"
  unfolding queues_ok_def using waits_small by blast

lemma few_queued:
  assumes "chains_ok c d" "queues_ok c dv d" "distinct (hs @ queued dv d)" "\<forall>h\<in>set hs. h < NUM"
  shows "length hs + length (queued dv d) \<le> NUM"
proof -
  have "set (hs @ queued dv d) \<subseteq> {..<NUM}" using queued_small [OF assms(1,2)] assms(4) by auto
  from card_mono [OF _ this] show ?thesis using distinct_card [OF assms(3)] by simp
qed

section \<open>Sectors and blocks\<close>

lemma unat_sector:
  assumes "unat k < 2 ^ 31"
  shows "unat (sector_of k) = 2 * unat k" "unat (sector_of k + 1) = 2 * unat k + 1"
proof -
  have "unat (k * 2) = 2 * unat k" using assms by (subst unat_mult_lem [THEN iffD1]) auto
  then show *: "unat (sector_of k) = 2 * unat k" using unat32_less [of "k * 2"]
    by (simp add: sector_of_def BSIZE_def unsigned_ucast_eq take_bit_nat_eq_self)
  then show "unat (sector_of k + 1) = 2 * unat k + 1"
    using assms by (subst unat_plus_simple [THEN iffD1]) (auto simp: no_olen_add_nat)
qed

lemma sector_diff:
  fixes x y :: u64
  assumes "unat x < 2 ^ 32" "unat y < 2 ^ 32"
  shows "unat (x - y) < 2 \<longleftrightarrow> unat x = unat y \<or> unat x = unat y + 1"
  using assms by (auto simp: unat_sub_if_size word_size)

definition block_of :: "(u64 \<Rightarrow> u8 list) \<Rightarrow> u32 \<Rightarrow> block" where
  "block_of m k = m (sector_of k) @ m (sector_of k + 1)"

lemma read_block: "read_sectors m (sector_of k) BSIZE = block_of m k"
  by (simp add: read_sectors_def BSIZE_def block_of_def upt_conv_Cons)

lemma write_block:
  assumes "length bs = BSIZE" "unat k < 2 ^ 31" "unat k' < 2 ^ 31"
  shows "block_of (write_sectors m (sector_of k) bs) k' = (if k' = k then bs else block_of m k')"
proof -
  note u = unat_sector [OF assms(2)] unat_sector [OF assms(3)]
  have d: "unat (sector_of k' - sector_of k) < 2 \<longleftrightarrow> k' = k" "unat (sector_of k' + 1 - sector_of k) < 2 \<longleftrightarrow> k' = k"
    using assms(2,3) by (subst sector_diff; auto simp: u word_unat_eq_iff; presburger)+
  have s: "write_sectors m (sector_of k) bs x =
      (if unat (x - sector_of k) < 2 then take 512 (drop (512 * unat (x - sector_of k)) bs) else m x)" for x
    using assms(1) by (simp add: write_sectors_def BSIZE_def)
  show ?thesis
  proof (cases "k' = k")
    case True
    have "take 512 bs @ take 512 (drop 512 bs) = bs"
      using assms(1) by (simp add: BSIZE_def flip: take_add)
    then show ?thesis using True d by (simp add: block_of_def s)
  next
    case False
    then show ?thesis using d by (simp add: block_of_def s)
  qed
qed

lemma length_write_sectors:
  "\<forall>x. length (m x) = 512 \<Longrightarrow> length bs = BSIZE \<Longrightarrow> length (write_sectors m sec bs x) = 512"
  by (auto simp: write_sectors_def BSIZE_def)

lemma dev_op_ok:
  assumes "req_ok d b w h" "length (vb_data d b) = BSIZE"
  shows "dev_op h d m = Some
    (if w then (d\<lparr>info_status := (info_status d)(h := 0)\<rparr>, write_sectors m (sector_of (vb_blockno d b)) (vb_data d b))
     else (d\<lparr>info_status := (info_status d)(h := 0), vb_data := (vb_data d)(b := block_of m (vb_blockno d b))\<rparr>, m))"
proof -
  have n: "unat (of_nat BSIZE :: u32) = BSIZE" by (simp add: BSIZE_def)
  have f: "VRING_DESC_F_NEXT AND VRING_DESC_F_NEXT \<noteq> 0" "VRING_DESC_F_NEXT AND VRING_DESC_F_WRITE = 0"
    "(VRING_DESC_F_WRITE OR VRING_DESC_F_NEXT) AND VRING_DESC_F_NEXT \<noteq> 0"
    "(VRING_DESC_F_WRITE OR VRING_DESC_F_NEXT) AND VRING_DESC_F_WRITE \<noteq> 0" "VIRTIO_BLK_T_OUT \<noteq> VIRTIO_BLK_T_IN"
    by (simp_all add: VRING_DESC_F_NEXT_def VRING_DESC_F_WRITE_def VIRTIO_BLK_T_OUT_def VIRTIO_BLK_T_IN_def)
  show ?thesis
    using assms f by (cases w) (simp_all add: dev_op_def req_ok_def Let_def n read_block)
qed

end
