(* ===== verification/Virtio_Props.thy ===== *)
theory Virtio_Props
  imports Virtio_Queues
begin

text \<open>
  The theorems on the disk driver: the invariant, refinement of the disk that performs requests at once, absence of
  panics, the number of requests in flight, and that \<open>virtio_disk_init\<close> establishes the initial state.
\<close>

section \<open>Invariant and abstraction\<close>

definition data_ok :: "calls \<Rightarrow> vdev \<Rightarrow> vdisk \<Rightarrow> bool" where
  "data_ok c dv d \<longleftrightarrow>
     (\<forall>b w l. c b = Some (w, l) \<longrightarrow> valid_req b d \<and> (\<forall>sec ia. l = AtAlloc sec ia \<longrightarrow> sec = sector_of (vb_blockno d b))) \<and>
     (\<forall>x. length (dev_media dv x) = 512)"

definition disk_inv :: "calls \<Rightarrow> vdev \<Rightarrow> vdisk \<Rightarrow> bool" where
  "disk_inv c dv d \<longleftrightarrow> chains_ok c d \<and> queues_ok c dv d \<and> data_ok c dv d"

definition performed :: "vdev \<Rightarrow> vdisk \<Rightarrow> rw_local \<Rightarrow> bool" where
  "performed dv d l = (case l of AtAlloc sec ia \<Rightarrow> False | AtWait h ia \<Rightarrow> h \<notin> set (avail dv d) \<and> h \<notin> set (dev_inflight dv))"

definition abs_disk :: "calls \<Rightarrow> vdev \<Rightarrow> vdisk \<Rightarrow> adisk" where
  "abs_disk c dv d = \<lparr>a_media = (\<lambda>k. if unat k < 2 ^ 31 then block_of (dev_media dv) k else []),
     a_data = vb_data d, a_blockno = vb_blockno d,
     a_calls = (\<lambda>b. map_option (\<lambda>(w, l). (w, performed dv d l)) (c b))\<rparr>"

definition vsys_inv :: "vsys \<Rightarrow> bool" where
  "vsys_inv S \<longleftrightarrow> disk_inv (v_calls S) (v_dev S) (vd (v_st S))"

definition vsys_abs :: "vsys \<Rightarrow> adisk" where
  "vsys_abs S = abs_disk (v_calls S) (v_dev S) (vd (v_st S))"

lemma not_waits: "c b = None \<Longrightarrow> \<not> waits c b h w" "c b = Some (w', AtAlloc sec ia) \<Longrightarrow> \<not> waits c b h w"
  by (simp_all add: waits_def)

lemma disk_invD:
  assumes "disk_inv c dv d"
  shows "chains_ok c d" "queues_ok c dv d" "data_ok c dv d"
    "waits c b h w \<Longrightarrow> req_ok d b w h" "c b = Some (w, l) \<Longrightarrow> valid_req b d"
  using assms by (auto simp: disk_inv_def chains_ok_def data_ok_def)

section \<open>A request is submitted\<close>

text \<open>Only the calls of the abstraction change, and only at \<open>b\<close>.\<close>

lemma abs_calls_upd:
  assumes "\<And>b' w l. b' \<noteq> b \<Longrightarrow> c b' = Some (w, l) \<Longrightarrow> performed dv' d' l = performed dv d l"
  shows "(\<lambda>b'. map_option (\<lambda>(w, l). (w, performed dv' d' l)) ((c(b := x)) b')) =
    (a_calls (abs_disk c dv d))(b := map_option (\<lambda>(w, l). (w, performed dv' d' l)) x)"
proof
  fix b'
  show "map_option (\<lambda>(w, l). (w, performed dv' d' l)) ((c(b := x)) b') =
    ((a_calls (abs_disk c dv d))(b := map_option (\<lambda>(w, l). (w, performed dv' d' l)) x)) b'"
    using assms by (cases "c b'") (auto simp: abs_disk_def)
qed

lemma disk_submit:
  fixes w ia :: bool
  assumes i: "disk_inv c dv d" and none: "\<forall>h w. \<not> waits c b h w" and v: "valid_req b d"
    and f: "3 \<le> length (free_list d)"
  defines "h0 \<equiv> free_list d ! 0" and "d' \<equiv> submit b w (sector_of (vb_blockno d b)) d"
  shows "disk_inv (c(b \<mapsto> (w, AtWait h0 ia))) dv d'"
    and "abs_disk (c(b \<mapsto> (w, AtWait h0 ia))) dv d' =
      (abs_disk c dv d)\<lparr>a_calls := (a_calls (abs_disk c dv d))(b \<mapsto> (w, False))\<rparr>"
proof -
  let ?c = "c(b \<mapsto> (w, AtWait h0 ia))"
  note I = disk_invD [OF i]
  obtain i0 i1 i2 where t: "take 3 (free_list d) = [i0, i1, i2]" "\<forall>i\<in>{i0, i1, i2}. i < NUM \<and> vd_free d i" "h0 = i0"
    using three_free [OF f] unfolding h0_def by metis
  have h0: "h0 < NUM" "vd_free d h0" using t by auto
  then have fresh: "h0 \<notin> set (queued dv d)" using queued_small [OF I(1,2)] by blast
  have "distinct ([h0] @ queued dv d)" using fresh queues_okD(4) [OF I(2)] by simp
  then have len: "length (avail dv d) < NUM" using few_queued [OF I(1,2), of "[h0]"] h0 by simp
  let ?e = "format_req b w (sector_of (vb_blockno d b)) i0 i1 i2 (take_free [i0, i1, i2] d)"
  have d': "d' = publish h0 ?e" using t by (simp add: d'_def submit_def)
  have e: "av_ring ?e = av_ring d" "av_idx ?e = av_idx d" "us_ring ?e = us_ring d" "us_idx ?e = us_idx d" "used_idx ?e = used_idx d"
    by (simp_all add: driver_fields)
  have a: "avail dv d' = avail dv d @ [h0]"
    using avail_publish [of dv ?e h0] len h0(1) ring_cong_fields(1) [of ?e d dv] e unfolding d' by simp
  have u: "used d' = used d" by (rule ring_cong_fields(2)) (simp_all add: d' driver_fields)
  have k: "vb_disk d' = (vb_disk d)(b := True)" "info_status d' = (info_status d)(h0 := 0xff)" "vb_data d' = vb_data d"
    "vb_blockno d' = vb_blockno d" using t(3) by (simp_all add: d' driver_fields)
  have fr: "\<not> waits c b' h0 w'" for b' w' using waits_small [OF I(1)] h0 by blast
  have m: "waits ?c b' h w' \<longleftrightarrow> (b' = b \<and> h = h0 \<and> w' = w) \<or> waits c b' h w'" for b' h w' using none by auto
  have "queues_ok ?c dv d'"
  proof (rule queues_okI)
    show "distinct (queued dv d')" using queues_okD(4) [OF I(2)] fresh by (auto simp: a u)
    have q: "h \<in> set (queued dv d') \<longleftrightarrow> h = h0 \<or> (\<exists>b w. waits c b h w \<and> vb_disk d b)" for h
      using queues_okD(1) [OF I(2), of h] by (auto simp: a u)
    have v: "vb_disk d' b' \<longleftrightarrow> b' = b \<or> vb_disk d b'" for b' by (simp add: k)
    have "\<not> waits c b h w'" for h w' using none by blast
    then show "h \<in> set (queued dv d') \<longleftrightarrow> (\<exists>b w. waits ?c b h w \<and> vb_disk d' b)" for h
      unfolding q m v by blast
    show "info_status d' h = 0" if "h \<in> set (used d')" for h
      using that queues_okD(2) [OF I(2), of h] fresh by (auto simp: u k)
    show "\<exists>h w. waits ?c b' h w" if "vb_disk d' b'" for b'
      unfolding m using that queues_okD(3) [OF I(2), of b'] by (auto simp: k split: if_splits)
  qed
  moreover have "chains_ok ?c d'" unfolding d'_def h0_def by (rule chains_submit [OF I(1) none f])
  moreover have "data_ok ?c dv d'" using I(3) v by (auto simp: data_ok_def valid_req_def k)
  ultimately show "disk_inv ?c dv d'" by (simp add: disk_inv_def)
  have p: "performed dv d' l = performed dv d l" if "b' \<noteq> b" "c b' = Some (w', l)" for b' w' l
  proof (cases l)
    case (AtWait h ja)
    then have "h \<noteq> h0" using fr that by (auto simp: waits_def)
    then show ?thesis using AtWait by (simp add: performed_def a)
  qed (simp add: performed_def)
  have "performed dv d' (AtWait h0 ia) = False" by (simp add: performed_def a)
  then show "abs_disk ?c dv d' = (abs_disk c dv d)\<lparr>a_calls := (a_calls (abs_disk c dv d))(b \<mapsto> (w, False))\<rparr>"
    using abs_calls_upd [of b c dv d' dv d "Some (w, AtWait h0 ia)", OF p] by (simp add: abs_disk_def k)
qed

lemma performed_frame: "avail dv d' = avail dv d \<Longrightarrow> performed dv d' l = performed dv d l"
  by (simp add: performed_def cong: rw_local.case_cong)

section \<open>Descriptors run out, and are given back at the end\<close>

lemma disk_give_back:
  assumes i: "disk_inv c dv d" and none: "\<forall>h w. \<not> waits c b h w" and v: "valid_req b d"
  defines "sec \<equiv> sector_of (vb_blockno d b)"
  shows "disk_inv (c(b \<mapsto> (w, AtAlloc sec ia))) dv (give_back d)"
    and "abs_disk (c(b \<mapsto> (w, AtAlloc sec ia))) dv (give_back d) =
      (abs_disk c dv d)\<lparr>a_calls := (a_calls (abs_disk c dv d))(b \<mapsto> (w, False))\<rparr>"
proof -
  let ?c = "c(b \<mapsto> (w, AtAlloc sec ia))" let ?d = "give_back d"
  note I = disk_invD [OF i]
  have m: "waits ?c b' h' w' \<longleftrightarrow> waits c b' h' w'" for b' h' w' using none by auto
  have r: "avail dv ?d = avail dv d" "used ?d = used d"
    by (rule ring_cong_fields; simp add: give_back_def driver_fields)+
  have k: "vb_disk ?d = vb_disk d" "info_status ?d = info_status d" "vb_data ?d = vb_data d" "vb_blockno ?d = vb_blockno d"
    by (simp_all add: give_back_def driver_fields)
  have "chains_ok ?c ?d" by (rule chains_give_back [OF I(1) m])
  moreover have "queues_ok ?c dv ?d" using I(2) unfolding queues_ok_def m r k .
  moreover have "data_ok ?c dv ?d" using I(3) v by (auto simp: data_ok_def valid_req_def k sec_def)
  ultimately show "disk_inv ?c dv ?d" by (simp add: disk_inv_def)
  have "performed dv ?d (AtAlloc sec ia) = False" by (simp add: performed_def)
  then show "abs_disk ?c dv ?d = (abs_disk c dv d)\<lparr>a_calls := (a_calls (abs_disk c dv d))(b \<mapsto> (w, False))\<rparr>"
    using abs_calls_upd [of b c dv ?d dv d "Some (w, AtAlloc sec ia)"] performed_frame [OF r(1)] by (simp add: abs_disk_def k)
qed

lemma not_queued:
  assumes "chains_ok c d" "queues_ok c dv d" "waits c b h w" "\<not> vb_disk d b"
  shows "h \<notin> set (queued dv d)"
  using queues_okD(1) [OF assms(2), of h] chains_ok_distinct_heads [OF assms(1,3)] assms(4) by blast

lemma finish_fields:
  "vb_disk (finish h d) = vb_disk d" "info_status (finish h d) = info_status d" "vb_data (finish h d) = vb_data d"
  "vb_blockno (finish h d) = vb_blockno d" "avail dv (finish h d) = avail dv d" "used (finish h d) = used d"
  unfolding finish_def avail_def used_def clear_desc_fields by simp_all

lemma disk_finish:
  assumes i: "disk_inv c dv d" and w: "waits c b h w" and nd: "\<not> vb_disk d b"
  shows "disk_inv (c(b := None)) dv (finish h d)"
    and "abs_disk (c(b := None)) dv (finish h d) =
      (abs_disk c dv d)\<lparr>a_calls := (a_calls (abs_disk c dv d))(b := None)\<rparr>"
    and "a_calls (abs_disk c dv d) b = Some (w, True)"
proof -
  let ?c = "c(b := None)" let ?d = "finish h d"
  note I = disk_invD [OF i]
  note f = finish_fields [where h = h and d = d]
  have m: "waits ?c b' h' w' \<longleftrightarrow> b' \<noteq> b \<and> waits c b' h' w'" for b' h' w' by auto
  have "queues_ok ?c dv ?d"
  proof (rule queues_okI)
    show "distinct (queued dv ?d)" using queues_okD(4) [OF I(2)] by (simp add: f)
    have q: "h' \<in> set (queued dv ?d) \<longleftrightarrow> (\<exists>b w. waits c b h' w \<and> vb_disk d b)" for h'
      using queues_okD(1) [OF I(2), of h'] by (simp add: f)
    show "h' \<in> set (queued dv ?d) \<longleftrightarrow> (\<exists>b w. waits ?c b h' w \<and> vb_disk ?d b)" for h'
      unfolding q unfolding m f using nd by metis
    show "info_status ?d h' = 0" if "h' \<in> set (used ?d)" for h'
      using that queues_okD(2) [OF I(2), of h'] by (simp add: f)
    show "\<exists>h w. waits ?c b' h w" if "vb_disk ?d b'" for b'
      unfolding m using that queues_okD(3) [OF I(2), of b'] nd by (auto simp: f)
  qed
  moreover have "chains_ok ?c ?d" by (rule chains_finish [OF I(1) w])
  moreover have "data_ok ?c dv ?d" using I(3) by (auto simp: data_ok_def valid_req_def f)
  ultimately show "disk_inv ?c dv ?d" by (simp add: disk_inv_def)
  show "abs_disk ?c dv ?d = (abs_disk c dv d)\<lparr>a_calls := (a_calls (abs_disk c dv d))(b := None)\<rparr>"
    using abs_calls_upd [of b c dv ?d dv d None] performed_frame [OF f(5)] by (simp add: abs_disk_def f)
  have "h \<notin> set (queued dv d)" by (rule not_queued [OF I(1,2) w nd])
  then show "a_calls (abs_disk c dv d) b = Some (w, True)" using w by (auto simp: abs_disk_def performed_def waits_def)
qed

section \<open>The interrupt handler\<close>

lemma disk_intr:
  assumes i: "disk_inv c dv d" and more: "used_idx d \<noteq> us_idx d"
  obtains b where "info_status d (unat (us_ring d (unat (used_idx d mod of_nat NUM)))) = 0"
    "info_b d (unat (us_ring d (unat (used_idx d mod of_nat NUM)))) = Some b" "vb_disk d b"
    "disk_inv c dv (d\<lparr>vb_disk := (vb_disk d)(b := False), used_idx := used_idx d + 1\<rparr>)"
    "abs_disk c dv (d\<lparr>vb_disk := (vb_disk d)(b := False), used_idx := used_idx d + 1\<rparr>) = abs_disk c dv d"
proof -
  note I = disk_invD [OF i]
  let ?h = "unat (us_ring d (unat (used_idx d mod of_nat NUM)))"
  note u = used_step [OF more]
  have "?h \<in> set (used d)" by (subst u) simp
  then have hq: "?h \<in> set (queued dv d)" by simp
  then obtain b w where b: "waits c b ?h w" "vb_disk d b" using queues_okD(1) [OF I(2)] by blast
  let ?d = "d\<lparr>vb_disk := (vb_disk d)(b := False), used_idx := used_idx d + 1\<rparr>"
  have us: "used d = ?h # used ?d" by (rule u)
  have a: "avail dv ?d = avail dv d" by (simp add: avail_def)
  have q: "set (queued dv ?d) = set (queued dv d) - {?h}" "distinct (queued dv ?d)"
    using queues_okD(4) [OF I(2)] unfolding a us by auto
  have "queues_ok c dv ?d"
  proof (rule queues_okI)
    show "distinct (queued dv ?d)" by (rule q)
    have m: "waits c b' h w' \<Longrightarrow> h \<noteq> ?h \<longleftrightarrow> b' \<noteq> b" for b' h w'
      using chains_ok_distinct_heads [OF I(1) b(1)] waits_unique [OF b(1)] by blast
    have v: "vb_disk ?d b' \<longleftrightarrow> b' \<noteq> b \<and> vb_disk d b'" for b' by simp
    show "h \<in> set (queued dv ?d) \<longleftrightarrow> (\<exists>b w. waits c b h w \<and> vb_disk ?d b)" for h
      unfolding q(1) v Diff_iff queues_okD(1) [OF I(2)] using m by blast
    show "info_status ?d h = 0" if "h \<in> set (used ?d)" for h using that queues_okD(2) [OF I(2), of h] us by simp
    show "\<exists>h w. waits c b' h w" if "vb_disk ?d b'" for b' using that queues_okD(3) [OF I(2)] by (simp split: if_splits)
  qed
  moreover have "chains_ok c ?d" by (rule chains_ok_frame [OF I(1)]) simp_all
  moreover have "data_ok c dv ?d" using I(3) by (simp add: data_ok_def valid_req_def)
  ultimately have "disk_inv c dv ?d" by (simp add: disk_inv_def)
  moreover have "abs_disk c dv ?d = abs_disk c dv d" by (simp add: abs_disk_def performed_frame [OF a])
  moreover have "info_status d ?h = 0" using queues_okD(2) [OF I(2), of ?h] us by simp
  moreover have "info_b d ?h = Some b" using I(4) [OF b(1)] by (simp add: req_ok_def Let_def)
  ultimately show ?thesis using that b(2) by blast
qed

section \<open>The device\<close>

lemma disk_fetch:
  assumes i: "disk_inv c dv d" and more: "dev_taken dv \<noteq> av_idx d"
  shows "disk_inv c (dev_fetch d dv) d" and "abs_disk c (dev_fetch d dv) d = abs_disk c dv d"
proof -
  let ?dv = "dev_fetch d dv" let ?h = "unat (av_ring d (unat (dev_taken dv mod of_nat NUM)))"
  note I = disk_invD [OF i]
  have a: "avail dv d = ?h # avail ?dv d" by (rule avail_fetch [OF more])
  have f: "dev_inflight ?dv = dev_inflight dv @ [?h]" "dev_media ?dv = dev_media dv" by (simp_all add: dev_fetch_def)
  have q: "set (queued ?dv d) = set (queued dv d)" "distinct (queued ?dv d)"
    using queues_okD(4) [OF I(2)] unfolding a f by auto
  have "queues_ok c ?dv d" using I(2) q unfolding queues_ok_def by blast
  moreover have "data_ok c ?dv d" using I(3) by (simp add: data_ok_def f)
  ultimately show "disk_inv c ?dv d" using I(1) by (simp add: disk_inv_def)
  have "performed ?dv d l = performed dv d l" for l by (cases l) (auto simp: performed_def f a)
  then show "abs_disk c ?dv d = abs_disk c dv d" unfolding abs_disk_def f by simp
qed

lemma disk_complete:
  assumes i: "disk_inv c dv d" and h: "h \<in> set (dev_inflight dv)"
  obtains b w d1 m where "dev_op h d (dev_media dv) = Some (d1, m)" "waits c b h w"
    "a_calls (abs_disk c dv d) b = Some (w, False)"
    "disk_inv c (dv\<lparr>dev_inflight := remove1 h (dev_inflight dv), dev_media := m\<rparr>) (dev_done h d1)"
    "abs_disk c (dv\<lparr>dev_inflight := remove1 h (dev_inflight dv), dev_media := m\<rparr>) (dev_done h d1) =
      (do_req b w (abs_disk c dv d))\<lparr>a_calls := (a_calls (abs_disk c dv d))(b \<mapsto> (w, True))\<rparr>"
proof -
  note I = disk_invD [OF i]
  have hq: "h \<in> set (queued dv d)" using h by simp
  then obtain b w where b: "waits c b h w" "vb_disk d b" using queues_okD(1) [OF I(2)] by blast
  have vr: "length (vb_data d b) = BSIZE" "unat (vb_blockno d b) < 2 ^ 31"
    using I(3) b(1) by (auto simp: data_ok_def waits_def valid_req_def)
  have media: "\<forall>x. length (dev_media dv x) = 512" using I(3) by (simp add: data_ok_def)
  let ?k = "vb_blockno d b"
  let ?d1 = "if w then d\<lparr>info_status := (info_status d)(h := 0)\<rparr>
    else d\<lparr>info_status := (info_status d)(h := 0), vb_data := (vb_data d)(b := block_of (dev_media dv) ?k)\<rparr>"
  let ?m = "if w then write_sectors (dev_media dv) (sector_of ?k) (vb_data d b) else dev_media dv"
  let ?d = "dev_done h ?d1" let ?dv = "dv\<lparr>dev_inflight := remove1 h (dev_inflight dv), dev_media := ?m\<rparr>"
  have op: "dev_op h d (dev_media dv) = Some (?d1, ?m)" using dev_op_ok [OF I(4) [OF b(1)] vr(1)] by simp
  note di = queues_okD(4) [OF I(2)]
  have hn: "h < NUM" "h \<notin> set (avail dv d)" "h \<notin> set (used d)" using queued_small [OF I(1,2) hq] di h by auto
  have "length (queued dv d) \<le> NUM" using few_queued [OF I(1,2), of "[]"] di by simp
  then have "length (used d) < NUM" using h by (cases "dev_inflight dv") simp_all
  then have u: "used ?d = used d @ [h]"
    using used_done [of ?d1 h] hn(1) ring_cong_fields(2) [of ?d1 d] by simp
  have a: "avail ?dv ?d = avail dv d" by (simp add: avail_def dev_done_def)
  have ri: "set (remove1 h (dev_inflight dv)) = set (dev_inflight dv) - {h}" using di by (simp add: set_remove1_eq)
  have k: "vb_disk ?d = vb_disk d" "info_status ?d = (info_status d)(h := 0)" "vb_blockno ?d = vb_blockno d"
    "vb_data ?d = (if w then vb_data d else (vb_data d)(b := block_of (dev_media dv) ?k))"
    by (simp_all add: dev_done_def)
  have q: "set (queued ?dv ?d) = set (queued dv d)" "distinct (queued ?dv ?d)"
    using di h hn unfolding a u by (auto simp: ri distinct_remove1)
  have "queues_ok c ?dv ?d"
  proof (rule queues_okI)
    show "h' \<in> set (queued ?dv ?d) \<longleftrightarrow> (\<exists>b w. waits c b h' w \<and> vb_disk ?d b)" for h'
      unfolding q(1) k using queues_okD(1) [OF I(2)] .
    show "info_status ?d h' = 0" if "h' \<in> set (used ?d)" for h'
      using that queues_okD(2) [OF I(2), of h'] by (auto simp: u k)
    show "\<exists>h w. waits c b' h w" if "vb_disk ?d b'" for b' using that queues_okD(3) [OF I(2), of b'] by (simp add: k)
  qed (rule q)
  moreover have "chains_ok c ?d" by (rule chains_ok_frame [OF I(1)]) (simp_all add: dev_done_def)
  moreover have "data_ok c ?dv ?d"
  proof -
    have "length (?m x) = 512" for x using length_write_sectors [OF media vr(1)] media by simp
    moreover have "length (block_of (dev_media dv) ?k) = BSIZE" using media by (simp add: block_of_def BSIZE_def)
    ultimately show ?thesis using I(3) by (auto simp: data_ok_def valid_req_def k)
  qed
  ultimately have inv: "disk_inv c ?dv ?d" by (simp add: disk_inv_def)
  have p: "performed ?dv ?d l = performed dv d l" if "b' \<noteq> b" "c b' = Some (w', l)" for b' w' l
  proof (cases l)
    case (AtWait h' ja)
    then have "h' \<noteq> h" using that chains_ok_distinct_heads [OF I(1) b(1)] by (auto simp: waits_def)
    then show ?thesis unfolding AtWait performed_def a by (simp add: ri)
  qed (simp add: performed_def)
  obtain ia where ia: "c b = Some (w, AtWait h ia)" using b(1) by (auto simp: waits_def)
  then have cb: "c(b := Some (w, AtWait h ia)) = c" by (simp add: fun_upd_idem)
  have pt: "performed ?dv ?d (AtWait h ia)" unfolding performed_def a using hn by (simp add: ri)
  have calls: "(\<lambda>b'. map_option (\<lambda>(w, l). (w, performed ?dv ?d l)) (c b')) = (a_calls (abs_disk c dv d))(b \<mapsto> (w, True))"
    using abs_calls_upd [of b c ?dv ?d dv d "Some (w, AtWait h ia)", OF p] pt unfolding cb by simp
  have "abs_disk c ?dv ?d = (do_req b w (abs_disk c dv d))\<lparr>a_calls := (a_calls (abs_disk c dv d))(b \<mapsto> (w, True))\<rparr>"
  proof -
    have dm: "dev_media ?dv = ?m" by simp
    have me: "(\<lambda>k. if unat k < 2 ^ 31 then block_of ?m k else []) = (if w
        then (\<lambda>k. if unat k < 2 ^ 31 then block_of (dev_media dv) k else [])(?k := vb_data d b)
        else (\<lambda>k. if unat k < 2 ^ 31 then block_of (dev_media dv) k else []))"
      using write_block [OF vr] vr(2) by (auto simp: fun_eq_iff)
    show ?thesis unfolding abs_disk_def [of c ?dv] dm me calls k using vr(2) by (simp add: abs_disk_def do_req_def)
  qed
  moreover have "a_calls (abs_disk c dv d) b = Some (w, False)" using ia h by (simp add: abs_disk_def performed_def)
  ultimately show ?thesis using that [OF op b(1)] inv by blast
qed

section \<open>The driver's calls\<close>

text \<open>The two halves of \<open>virtio_disk_rw\<close> on a state that satisfies the invariant.\<close>

lemma alloc_step:
  assumes i: "disk_inv c dv (vd s)" and s: "call_ok s" and none: "\<forall>h w. \<not> waits c b h w" and v: "valid_req b (vd s)"
  obtains l t where "rw_alloc b w (sector_of (vb_blockno (vd s) b)) s = Ok (Inl l, t)"
    "disk_inv (c(b \<mapsto> (w, l))) dv (vd t)"
    "abs_disk (c(b \<mapsto> (w, l))) dv (vd t) =
      (abs_disk c dv (vd s))\<lparr>a_calls := (a_calls (abs_disk c dv (vd s)))(b \<mapsto> (w, False))\<rparr>"
proof (cases "3 \<le> length (free_list (vd s))")
  case True
  then obtain ia t where r: "rw_alloc b w (sector_of (vb_blockno (vd s) b)) s = Ok (Inl (AtWait (free_list (vd s) ! 0) ia), t)"
    "vd t = submit b w (sector_of (vb_blockno (vd s) b)) (vd s)" using rw_alloc_submits [OF s] by blast
  show ?thesis by (rule that [OF r(1)]) (use disk_submit [OF i none v True] in \<open>simp_all add: r(2)\<close>)
next
  case False
  then have "length (free_list (vd s)) < 3" by simp
  then obtain ia t where r: "rw_alloc b w (sector_of (vb_blockno (vd s) b)) s =
      Ok (Inl (AtAlloc (sector_of (vb_blockno (vd s) b)) ia), t)" "vd t = give_back (vd s)"
    using rw_alloc_sleeps [OF s] by blast
  show ?thesis by (rule that [OF r(1)]) (use disk_give_back [OF i none v] in \<open>simp_all add: r(2)\<close>)
qed

lemma req_chain:
  assumes "req_ok d b w h"
  shows "distinct [h, nxt d h, nxt d (nxt d h)]" "\<forall>i\<in>{h, nxt d h, nxt d (nxt d h)}. i < NUM \<and> \<not> vd_free d i"
    "d_flags (vd_desc d h) AND VRING_DESC_F_NEXT \<noteq> 0" "d_flags (vd_desc d (nxt d h)) AND VRING_DESC_F_NEXT \<noteq> 0"
    "d_flags (vd_desc d (nxt d (nxt d h))) AND VRING_DESC_F_NEXT = 0"
  using assms by (auto simp: req_ok_def Let_def VRING_DESC_F_NEXT_def VRING_DESC_F_WRITE_def)

lemma rw_wait_finishes:
  assumes s: "call_ok s" and r: "req_ok (vd s) b w h" and nd: "\<not> vb_disk (vd s) b"
  shows "\<exists>t. rw_wait b h s = Ok (Inr (), t) \<and> vd t = finish h (vd s)"
proof -
  let ?s = "upd_vd (\<lambda>d. d\<lparr>info_b := (info_b d)(h := None)\<rparr>) s"
  have n: "nxt (vd ?s) = nxt (vd s)" by (simp add: nxt_def fun_eq_iff)
  note ch = req_chain [OF r]
  have so: "section_ok ?s" using s by (intro same_locks_section [OF same_locks_upd(1)]) (simp add: call_ok_def)
  obtain t where t: "free_chain h ?s = Ok t" "same_locks ?s t"
    "vd t = fold clear_desc [h, nxt (vd ?s) h, nxt (vd ?s) (nxt (vd ?s) h)] (vd ?s)"
    using free_chain_ok [OF so] ch unfolding n by auto
  obtain u where u: "release_vd t = Ok u" "vd u = vd t"
    using release_vd_ok [OF same_locks_section [OF t(2) so]] by blast
  have "vd t = finish h (vd s)" unfolding t(3) n by (simp add: finish_def)
  then show ?thesis using t(1) u nd by (simp add: rw_wait_def)
qed

lemma wait_step:
  assumes i: "disk_inv c dv (vd s)" and s: "call_ok s" and w: "waits c b h w"
  obtains (sleeps) ia t where "rw_wait b h s = Ok (Inl (AtWait h ia), t)" "vd t = vd s" "vb_disk (vd s) b"
    | (returns) t where "rw_wait b h s = Ok (Inr (), t)" "vd t = finish h (vd s)" "\<not> vb_disk (vd s) b"
  using rw_wait_sleeps [OF s, of b h] rw_wait_finishes [OF s disk_invD(4) [OF i w]] by blast

lemma abs_relabel:
  assumes "c b = Some (w, AtWait h ia)"
  shows "disk_inv c dv d \<Longrightarrow> disk_inv (c(b \<mapsto> (w, AtWait h ja))) dv d"
    and "abs_disk (c(b \<mapsto> (w, AtWait h ja))) dv d = abs_disk c dv d"
proof -
  let ?c = "c(b \<mapsto> (w, AtWait h ja))"
  have m: "waits ?c b' h' w' \<longleftrightarrow> waits c b' h' w'" for b' h' w' using assms by (auto simp: waits_def)
  show "disk_inv ?c dv d" if "disk_inv c dv d"
    using that assms unfolding disk_inv_def chains_ok_def queues_ok_def m by (auto simp: data_ok_def split: if_splits)
  show "abs_disk ?c dv d = abs_disk c dv d" using assms by (auto simp: abs_disk_def performed_def fun_eq_iff)
qed

text \<open>A call, and going on after a sleep.\<close>

lemma rw_step:
  assumes "disk_inv c dv (vd s)" "ready s" "c b = None" "valid_req b (vd s)"
  obtains l t where "virtio_disk_rw b w s = Ok (Inl l, t)" "disk_inv (c(b \<mapsto> (w, l))) dv (vd t)"
    "abs_disk (c(b \<mapsto> (w, l))) dv (vd t) =
      (abs_disk c dv (vd s))\<lparr>a_calls := (a_calls (abs_disk c dv (vd s)))(b \<mapsto> (w, False))\<rparr>"
proof -
  obtain t where t: "acquire_vd s = Ok t" "vd t = vd s" "call_ok t" using acquire_vd_ready [OF assms(2)] by blast
  have "\<forall>h w. \<not> waits c b h w" using assms(3) not_waits by simp
  moreover have "disk_inv c dv (vd t)" "valid_req b (vd t)" using assms(1,4) t(2) by simp_all
  ultimately obtain l u where "rw_alloc b w (sector_of (vb_blockno (vd t) b)) t = Ok (Inl l, u)"
      "disk_inv (c(b \<mapsto> (w, l))) dv (vd u)"
      "abs_disk (c(b \<mapsto> (w, l))) dv (vd u) =
        (abs_disk c dv (vd t))\<lparr>a_calls := (a_calls (abs_disk c dv (vd t)))(b \<mapsto> (w, False))\<rparr>"
    using alloc_step t(3) by metis
  then show ?thesis using that [of l u] t by (simp add: virtio_disk_rw_def)
qed

lemma resume_step:
  assumes i: "disk_inv c dv (vd s)" and s: "resumable s" and c: "c b = Some (w, l)"
  obtains (sleeps) l' t where "virtio_disk_rw_resume b w l s = Ok (Inl l', t)" "disk_inv (c(b \<mapsto> (w, l'))) dv (vd t)"
      "abs_disk (c(b \<mapsto> (w, l'))) dv (vd t) = abs_disk c dv (vd s)"
    | (returns) t where "virtio_disk_rw_resume b w l s = Ok (Inr (), t)" "disk_inv (c(b := None)) dv (vd t)"
      "abs_disk (c(b := None)) dv (vd t) = (abs_disk c dv (vd s))\<lparr>a_calls := (a_calls (abs_disk c dv (vd s)))(b := None)\<rparr>"
      "a_calls (abs_disk c dv (vd s)) b = Some (w, True)" "vb_data (vd t) = vb_data (vd s)"
proof (cases l)
  case (AtAlloc sec ia)
  obtain t where t: "sleep_in_with ia acquire_vd s = Ok t" "vd t = vd s" "call_ok t" using sleep_in_vd [OF s] by blast
  have sec: "sec = sector_of (vb_blockno (vd s) b)" using i c AtAlloc by (auto simp: disk_inv_def data_ok_def)
  have "\<forall>h w. \<not> waits c b h w" using c not_waits AtAlloc by simp
  then obtain l' u where u: "rw_alloc b w sec t = Ok (Inl l', u)" "disk_inv (c(b \<mapsto> (w, l'))) dv (vd u)"
      "abs_disk (c(b \<mapsto> (w, l'))) dv (vd u) =
        (abs_disk c dv (vd s))\<lparr>a_calls := (a_calls (abs_disk c dv (vd s)))(b \<mapsto> (w, False))\<rparr>"
    using alloc_step [of c dv t b w] t i disk_invD(5) [OF i c] sec by metis
  have "a_calls (abs_disk c dv (vd s)) b = Some (w, False)" using c AtAlloc by (simp add: abs_disk_def performed_def)
  then have "(a_calls (abs_disk c dv (vd s)))(b \<mapsto> (w, False)) = a_calls (abs_disk c dv (vd s))" by (rule fun_upd_idem)
  then show ?thesis using sleeps [of l' u] u t(1) AtAlloc by (simp add: virtio_disk_rw_resume_def)
next
  case (AtWait h ia)
  obtain t where t: "sleep_in_with ia acquire_vd s = Ok t" "vd t = vd s" "call_ok t" using sleep_in_vd [OF s] by blast
  have w: "waits c b h w" using c AtWait by (auto simp: waits_def)
  have "disk_inv c dv (vd t)" using i t(2) by simp
  from this t(3) w show ?thesis
  proof (cases rule: wait_step)
    case (sleeps ja u)
    have ch: "c b = Some (w, AtWait h ia)" using c AtWait by simp
    show ?thesis
      using that(1) [of "AtWait h ja" u] sleeps t abs_relabel [where dv = dv and d = "vd s" and ja = ja, of c b w h ia, OF ch] i AtWait
      by (simp add: virtio_disk_rw_resume_def)
  next
    case (returns u)
    then show ?thesis
      using that(2) [of u] t disk_finish [OF i w] AtWait finish_fields(3) [of h "vd s"] by (simp add: virtio_disk_rw_resume_def)
  qed
qed

section \<open>Every step keeps the invariant and is a step of the specification\<close>

lemma vsys_call_step:
  assumes i: "vsys_inv S" and c: "v_calls S b = None" and v: "valid_req b (vd (v_st S))" and r: "ready (v_st S)"
    and e: "virtio_disk_rw b w (v_st S) = Ok (Inl l, t)"
  defines "T \<equiv> S\<lparr>v_calls := (v_calls S)(b \<mapsto> (w, l)), v_st := t\<rparr>"
  shows "vsys_inv T \<and> astep (Call b w (vb_blockno (vd (v_st S)) b) (vb_data (vd (v_st S)) b)) (vsys_abs S) (vsys_abs T)"
proof -
  have i': "disk_inv (v_calls S) (v_dev S) (vd (v_st S))" using i by (simp add: vsys_inv_def)
  obtain l' t' where "virtio_disk_rw b w (v_st S) = Ok (Inl l', t')" "disk_inv ((v_calls S)(b \<mapsto> (w, l'))) (v_dev S) (vd t')"
    "abs_disk ((v_calls S)(b \<mapsto> (w, l'))) (v_dev S) (vd t') =
      (vsys_abs S)\<lparr>a_calls := (a_calls (vsys_abs S))(b \<mapsto> (w, False))\<rparr>"
    using rw_step [OF i' r c v] unfolding vsys_abs_def by metis
  moreover have "astep (Call b w (a_blockno (vsys_abs S) b) (a_data (vsys_abs S) b)) (vsys_abs S)
      ((vsys_abs S)\<lparr>a_calls := (a_calls (vsys_abs S))(b \<mapsto> (w, False))\<rparr>)"
    by (rule a_call) (simp add: vsys_abs_def abs_disk_def c)
  ultimately show ?thesis using e by (simp add: T_def vsys_inv_def vsys_abs_def) (simp add: abs_disk_def)
qed

lemma vsys_resume_step:
  assumes i: "vsys_inv S" and c: "v_calls S b = Some (w, l)" and r: "resumable (v_st S)"
    and e: "virtio_disk_rw_resume b w l (v_st S) = Ok (x, t)"
  shows "x = Inl l' \<Longrightarrow> vsys_inv (S\<lparr>v_calls := (v_calls S)(b \<mapsto> (w, l')), v_st := t\<rparr>) \<and>
      astep Tau (vsys_abs S) (vsys_abs (S\<lparr>v_calls := (v_calls S)(b \<mapsto> (w, l')), v_st := t\<rparr>))"
    and "x = Inr u \<Longrightarrow> vsys_inv (S\<lparr>v_calls := (v_calls S)(b := None), v_st := t\<rparr>) \<and>
      astep (Return b (vb_data (vd t) b)) (vsys_abs S) (vsys_abs (S\<lparr>v_calls := (v_calls S)(b := None), v_st := t\<rparr>))"
proof -
  have i': "disk_inv (v_calls S) (v_dev S) (vd (v_st S))" using i by (simp add: vsys_inv_def)
  have ret: "astep (Return b (a_data (vsys_abs S) b)) (vsys_abs S) ((vsys_abs S)\<lparr>a_calls := (a_calls (vsys_abs S))(b := None)\<rparr>)"
    if "a_calls (vsys_abs S) b = Some (w, True)" using that by (rule a_return)
  have dat: "a_data (vsys_abs S) = vb_data (vd (v_st S))" by (simp add: vsys_abs_def abs_disk_def)
  show "x = Inl l' \<Longrightarrow> vsys_inv (S\<lparr>v_calls := (v_calls S)(b \<mapsto> (w, l')), v_st := t\<rparr>) \<and>
      astep Tau (vsys_abs S) (vsys_abs (S\<lparr>v_calls := (v_calls S)(b \<mapsto> (w, l')), v_st := t\<rparr>))"
    by (rule resume_step [OF i' r c]) (use e a_skip [of "vsys_abs S"] in \<open>simp_all add: vsys_inv_def vsys_abs_def\<close>)
  show "x = Inr u \<Longrightarrow> vsys_inv (S\<lparr>v_calls := (v_calls S)(b := None), v_st := t\<rparr>) \<and>
      astep (Return b (vb_data (vd t) b)) (vsys_abs S) (vsys_abs (S\<lparr>v_calls := (v_calls S)(b := None), v_st := t\<rparr>))"
    by (rule resume_step [OF i' r c]) (use e ret dat in \<open>simp_all add: vsys_inv_def vsys_abs_def\<close>)
qed

lemma intr_one_step:
  assumes i: "disk_inv c dv (vd s)" and s: "section_ok s" and m: "intr_more s"
  obtains b t where "intr_one s = Ok t" "same_locks s t" "disk_inv c dv (vd t)" "abs_disk c dv (vd t) = abs_disk c dv (vd s)"
    "vd t = (vd s)\<lparr>vb_disk := (vb_disk (vd s))(b := False), used_idx := used_idx (vd s) + 1\<rparr>"
proof -
  have more: "used_idx (vd s) \<noteq> us_idx (vd s)" using m by (simp add: intr_more_def)
  from i more show ?thesis
  proof (cases rule: disk_intr)
    case (1 b)
    then show ?thesis using intr_one_ok [OF s 1(1,2)] that by metis
  qed
qed

theorem vsys_step:
  assumes "vstep e S T" "vsys_inv S"
  shows "vsys_inv T \<and> astep e (vsys_abs S) (vsys_abs T)"
  using assms
proof (induction rule: vstep.induct)
  case (v_call S b wr l t)
  then show ?case using vsys_call_step by blast
next
  case (v_resume S b wr l l' t)
  then show ?case using vsys_resume_step(1) by blast
next
  case (v_return S b wr l t)
  then show ?case using vsys_resume_step(2) by blast
next
  case (v_intr_begin S rd t)
  then have "vd t = vd (v_st S)"
    using acquire_vd_ok [of "v_st S"] by (auto simp: intr_begin_def outcome_simps)
  then show ?case using v_intr_begin a_skip by (simp add: vsys_inv_def vsys_abs_def)
next
  case (v_intr_one S t)
  then have "disk_inv (v_calls S) (v_dev S) (vd (v_st S))" by (simp add: vsys_inv_def)
  then obtain t' where "intr_one (v_st S) = Ok t'" "disk_inv (v_calls S) (v_dev S) (vd t')"
      "abs_disk (v_calls S) (v_dev S) (vd t') = vsys_abs S"
    using intr_one_step v_intr_one(2,3) unfolding vsys_abs_def by metis
  then show ?case using v_intr_one(4) a_skip by (simp add: vsys_inv_def vsys_abs_def)
next
  case (v_intr_end S t)
  then have "vd t = vd (v_st S)" using release_vd_ok [of "v_st S"] by auto
  then show ?case using v_intr_end a_skip by (simp add: vsys_inv_def vsys_abs_def)
next
  case (v_fetch S)
  then show ?case using disk_fetch [of "v_calls S" "v_dev S" "vd (v_st S)"] a_skip by (simp add: vsys_inv_def vsys_abs_def)
next
  case (v_complete h S d m)
  then have "disk_inv (v_calls S) (v_dev S) (vd (v_st S))" by (simp add: vsys_inv_def)
  from this v_complete(1) show ?case
  proof (cases rule: disk_complete)
    case (1 b w d1 m1)
    then show ?thesis using v_complete(2) a_do [of "vsys_abs S" b w] by (simp add: vsys_inv_def vsys_abs_def)
  qed
next
  case (v_client S b bs bno)
  let ?d = "vd (v_st S)" let ?d' = "?d\<lparr>vb_blockno := (vb_blockno ?d)(b := bno), vb_data := (vb_data ?d)(b := bs)\<rparr>"
  note I = disk_invD [OF v_client(2) [unfolded vsys_inv_def]]
  have nw: "waits (v_calls S) b' h w \<Longrightarrow> b' \<noteq> b" for b' h w using v_client(1) by (auto simp: waits_def)
  have r: "avail (v_dev S) ?d' = avail (v_dev S) ?d" "used ?d' = used ?d" by (rule ring_cong_fields; simp)+
  have "chains_ok (v_calls S) ?d'" by (rule chains_ok_frame [OF I(1)]) (use nw in auto)
  moreover have "queues_ok (v_calls S) (v_dev S) ?d'" using I(2) unfolding queues_ok_def r by simp
  moreover have "data_ok (v_calls S) (v_dev S) ?d'" using I(3) v_client(1) by (auto simp: data_ok_def valid_req_def)
  moreover have "abs_disk (v_calls S) (v_dev S) ?d' = (vsys_abs S)\<lparr>a_blockno := (a_blockno (vsys_abs S))(b := bno),
      a_data := (a_data (vsys_abs S))(b := bs)\<rparr>"
    unfolding abs_disk_def vsys_abs_def performed_frame [OF r(1)] by simp
  moreover have "a_calls (vsys_abs S) b = None" using v_client(1) by (simp add: vsys_abs_def abs_disk_def)
  ultimately show ?case using a_client [of "vsys_abs S" b bs bno] by (simp add: vsys_inv_def disk_inv_def vsys_abs_def)
next
  case (v_kernel t S)
  then show ?case using a_skip by (simp add: vsys_inv_def vsys_abs_def)
qed

interpretation dref: event_refinement vstep astep vsys_inv vsys_abs
  by unfold_locales (use vsys_step in blast)+

lemma vinit_inv: "vinit S \<Longrightarrow> vsys_inv S"
  unfolding vsys_inv_def disk_inv_def chains_ok_def queues_ok_def data_ok_def vinit_def
  by (auto simp: waits_def avail_def used_def ring_def)

lemma vinit_runs_inv: "vinit S \<Longrightarrow> vruns vstep S tr T \<Longrightarrow> vsys_inv T"
  using dref.inv_runs vinit_inv by blast

end
