(* ===== verification/Virtio_Correct.thy ===== *)
theory Virtio_Correct
  imports Virtio_Props
begin

text \<open>
  The properties of the disk driver, over all runs of driver, device and kernel from the initial state, with a machine
  on which they are applied.
\<close>

section \<open>Kernel states around a given driver state\<close>

definition demo_kernel :: "vdisk \<Rightarrow> vstate" where
  "demo_kernel d = kstate.extend demo_running \<lparr>vdisk_lock = initlock ''virtio_disk'', vd = d, mmio = []\<rparr>"

text \<open>The scheduler has just switched to process 5.\<close>

definition demo_switched :: "vdisk \<Rightarrow> vstate" where
  "demo_switched d = upd_p 5 (\<lambda>p. p\<lparr>p_lock := held_by 0 (p_lock p)\<rparr>)
     (set_cpu (push_off (mycpu (demo_kernel d))) (demo_kernel d))"

lemma demo_kernel_simps [simp]:
  "vd (demo_kernel d) = d" "vd (demo_switched d) = d" "mycpu (demo_kernel d) = mycpu demo_running"
  "k_proc (demo_kernel d) = k_proc demo_running" "vdisk_lock (demo_kernel d) = initlock ''virtio_disk''"
  "vdisk_lock (demo_switched d) = initlock ''virtio_disk''" "k_hart (demo_kernel d) = 0" "myproc (demo_kernel d) = Some 5"
proof -
  show "k_hart (demo_kernel d) = 0" "mycpu (demo_kernel d) = mycpu demo_running" "myproc (demo_kernel d) = Some 5"
    using demo_console_simps(1-3) by (simp_all add: demo_kernel_def kstate.defs demo_running_def demo_sched_def upd_p_def
        set_cpu_def myproc_def mycpu_def)
qed (simp_all add: demo_kernel_def demo_switched_def kstate.defs upd_p_def set_cpu_def)

lemma demo_kernel_ready: "ready (demo_kernel d)" "ready_intr (demo_kernel d)"
proof -
  have "others_free (demo_kernel d)" using demo_console_free by (simp add: others_free_def)
  moreover have "noff (mycpu demo_running) = 0" "lock_free (p_lock (k_proc demo_running 5))"
    using demo_sched_free by (simp_all add: demo_running_def NPROC_def)
  ultimately show "ready (demo_kernel d)" "ready_intr (demo_kernel d)" by (simp_all add: ready_def ready_intr_def)
qed

lemma demo_switched_resumable: "resumable (demo_switched d)"
proof -
  have r: "others_free (demo_kernel d)" "noff (mycpu demo_running) = 0"
    using demo_kernel_ready(1) [of d] by (auto simp: ready_def)
  have m: "mycpu (demo_switched d) = push_off (mycpu demo_running)" "k_hart (demo_switched d) = 0"
    by (simp_all add: demo_switched_def)
  then have p: "myproc (demo_switched d) = Some 5"
    using demo_kernel_simps(8) [of d] by (simp add: myproc_def)
  have "k_proc (demo_switched d) = (k_proc demo_running)(5 := (k_proc demo_running 5)\<lparr>p_lock := held_by 0 (p_lock (k_proc demo_running 5))\<rparr>)"
    by (simp add: demo_switched_def)
  then show ?thesis using r p push_off_ok [of "mycpu demo_running"]
    by (auto simp: resumable_def others_free_def m holding_def held_by_def)
qed

lemma kernel_in_section: "\<exists>s :: vstate. section_ok s \<and> vd s = d"
  using acquire_vd_ok [OF demo_kernel_ready(2), of d] demo_kernel_simps(1) by metis

section \<open>Refinement and safety\<close>

text \<open>
  C19: whatever driver, device and kernel do, in whatever order the device performs the requests and
  whenever it raises interrupts, the calls and returns that the users of \<open>virtio_disk_rw\<close> see, with the data
  in their buffers, are those of a disk that performs each request once and at once, at some
  moment between its call and its return.
\<close>

theorem virtio_disk_is_atomic:
  assumes "vinit S" "vruns vstep S tr T"
  shows "vruns astep (vsys_abs S) tr (vsys_abs T)"
  by (rule dref.traces [OF assms(2) vinit_inv [OF assms(1)]])

text \<open>
  C20: no run leads to a state in which the driver panics or a descriptor is wrong: a call ends asleep, a sleeper
  that is resumed goes on, the interrupt handler finds the status 0 and a buffer in every entry of the used
  ring, and the device finds a well-formed request at every head that it takes.
\<close>

theorem virtio_disk_never_panics:
  assumes "vinit S" "vruns vstep S tr T"
  shows "(\<forall>b w. v_calls T b = None \<longrightarrow> valid_req b (vd (v_st T)) \<longrightarrow> ready (v_st T) \<longrightarrow>
      (\<exists>l t. virtio_disk_rw b w (v_st T) = Ok (Inl l, t))) \<and>
    (\<forall>b w l. v_calls T b = Some (w, l) \<longrightarrow> resumable (v_st T) \<longrightarrow>
      (\<exists>r t. virtio_disk_rw_resume b w l (v_st T) = Ok (r, t))) \<and>
    (section_ok (v_st T) \<longrightarrow> intr_more (v_st T) \<longrightarrow> (\<exists>t. intr_one (v_st T) = Ok t)) \<and>
    (\<forall>h\<in>set (dev_inflight (v_dev T)). \<exists>d m. dev_op h (vd (v_st T)) (dev_media (v_dev T)) = Some (d, m))"
proof -
  have i: "disk_inv (v_calls T) (v_dev T) (vd (v_st T))" using vinit_runs_inv [OF assms] by (simp add: vsys_inv_def)
  have "\<exists>l t. virtio_disk_rw b w (v_st T) = Ok (Inl l, t)"
    if "v_calls T b = None" "valid_req b (vd (v_st T))" "ready (v_st T)" for b w
    using rw_step [OF i that(3,1,2)] by metis
  moreover have "\<exists>r t. virtio_disk_rw_resume b w l (v_st T) = Ok (r, t)"
    if "v_calls T b = Some (w, l)" "resumable (v_st T)" for b w l
    using resume_step [OF i that(2,1)] by metis
  moreover have "\<exists>t. intr_one (v_st T) = Ok t" if "section_ok (v_st T)" "intr_more (v_st T)"
    using intr_one_step [OF i that] by metis
  moreover have "\<exists>d m. dev_op h (vd (v_st T)) (dev_media (v_dev T)) = Some (d, m)" if "h \<in> set (dev_inflight (v_dev T))" for h
    using disk_complete [OF i that] by metis
  ultimately show ?thesis by blast
qed

section \<open>Requests in flight\<close>

definition in_flight :: "vsys \<Rightarrow> nat set" where
  "in_flight S = {b. \<exists>w h ia. v_calls S b = Some (w, AtWait h ia)}"

lemma in_flight_card:
  assumes "vsys_inv S"
  shows "finite (in_flight S)" "length (free_list (vd (v_st S))) + 3 * card (in_flight S) = NUM"
proof -
  let ?d = "vd (v_st S)" let ?c = "v_calls S"
  have ch: "chains_ok ?c ?d" using assms by (simp add: vsys_inv_def disk_inv_def)
  define hd where "hd b = (case ?c b of Some (w, AtWait h ia) \<Rightarrow> h | _ \<Rightarrow> 0)" for b
  have w: "\<exists>w. waits ?c b (hd b) w" if "b \<in> in_flight S" for b
    using that by (auto simp: in_flight_def waits_def hd_def)
  have f: "b \<in> in_flight S" if "waits ?c b h w" for b h w using that by (auto simp: in_flight_def waits_def)
  have hd: "hd b = h" if "waits ?c b h w" for b h w using that by (auto simp: waits_def hd_def)
  have sl: "card (slots ?d (hd b)) = 3" "finite (slots ?d (hd b))" "slots ?d (hd b) \<subseteq> {i. i < NUM \<and> \<not> vd_free ?d i}"
    if b: "b \<in> in_flight S" for b
  proof -
    obtain w where "req_ok ?d b w (hd b)" using w [OF b] ch unfolding chains_ok_def by blast
    note r = req_chain(1,2) [OF this]
    show "card (slots ?d (hd b)) = 3" using r(1) by (simp add: slots_def)
    show "finite (slots ?d (hd b))" by (simp add: slots_def)
    show "slots ?d (hd b) \<subseteq> {i. i < NUM \<and> \<not> vd_free ?d i}" using r(2) by (auto simp: slots_def)
  qed
  have "inj_on hd (in_flight S)"
    using w chains_ok_distinct_heads [OF ch] by (intro inj_onI) metis
  moreover have "hd ` in_flight S \<subseteq> {..<NUM}" using sl(3) head_in_slots by fastforce
  ultimately show fin: "finite (in_flight S)" by (meson finite_imageD finite_lessThan finite_subset)
  have "{i. i < NUM \<and> \<not> vd_free ?d i} = (\<Union>b\<in>in_flight S. slots ?d (hd b))"
  proof
    show "(\<Union>b\<in>in_flight S. slots ?d (hd b)) \<subseteq> {i. i < NUM \<and> \<not> vd_free ?d i}" using sl(3) by blast
    show "{i. i < NUM \<and> \<not> vd_free ?d i} \<subseteq> (\<Union>b\<in>in_flight S. slots ?d (hd b))"
    proof
      fix i
      assume "i \<in> {i. i < NUM \<and> \<not> vd_free ?d i}"
      then obtain b h w where b: "waits ?c b h w" "i \<in> slots ?d h" using ch unfolding chains_ok_def by blast
      then show "i \<in> (\<Union>b\<in>in_flight S. slots ?d (hd b))" using f [OF b(1)] hd [OF b(1)] by auto
    qed
  qed
  moreover have "card (\<Union>b\<in>in_flight S. slots ?d (hd b)) = (\<Sum>b\<in>in_flight S. card (slots ?d (hd b)))"
  proof (rule card_UN_disjoint [OF fin])
    show "\<forall>b\<in>in_flight S. finite (slots ?d (hd b))" using sl(2) by blast
    show "\<forall>b\<in>in_flight S. \<forall>b'\<in>in_flight S. b \<noteq> b' \<longrightarrow> slots ?d (hd b) \<inter> slots ?d (hd b') = {}"
      using w ch unfolding chains_ok_def by metis
  qed
  ultimately have u: "card {i. i < NUM \<and> \<not> vd_free ?d i} = 3 * card (in_flight S)" using sl(1) by simp
  have "{i. i < NUM \<and> vd_free ?d i} \<union> {i. i < NUM \<and> \<not> vd_free ?d i} = {..<NUM}" by auto
  then have "card {i. i < NUM \<and> vd_free ?d i} + card {i. i < NUM \<and> \<not> vd_free ?d i} = NUM"
    by (subst card_Un_disjoint [symmetric]) auto
  moreover have "card {i. i < NUM \<and> vd_free ?d i} = length (free_list ?d)"
    using distinct_card [OF free_list_simps(1), of ?d] by simp
  ultimately show "length (free_list ?d) + 3 * card (in_flight S) = NUM" using u by simp
qed

text \<open>
  C22: the driver loses no descriptor: in every reachable state the free ones and three for each request in
  flight are all \<open>NUM\<close>, at most two requests are in flight, and a call waits for descriptors exactly when
  there are two.
\<close>

theorem two_requests_in_flight:
  assumes "vinit S" "vruns vstep S tr T"
  shows "length (free_list (vd (v_st T))) + 3 * card (in_flight T) = NUM \<and> card (in_flight T) \<le> 2 \<and>
    (\<forall>b w l t. ready (v_st T) \<longrightarrow> virtio_disk_rw b w (v_st T) = Ok (Inl l, t) \<longrightarrow>
      ((\<exists>sec ia. l = AtAlloc sec ia) \<longleftrightarrow> card (in_flight T) = 2))"
proof -
  have e: "length (free_list (vd (v_st T))) + 3 * card (in_flight T) = NUM"
    by (rule in_flight_card(2) [OF vinit_runs_inv [OF assms]])
  then have c: "card (in_flight T) \<le> 2" by (simp add: NUM_def)
  have "(\<exists>sec ia. l = AtAlloc sec ia) \<longleftrightarrow> card (in_flight T) = 2"
    if r: "ready (v_st T)" "virtio_disk_rw b w (v_st T) = Ok (Inl l, t)" for b w l t
  proof -
    obtain u where u: "acquire_vd (v_st T) = Ok u" "vd u = vd (v_st T)" "call_ok u" using acquire_vd_ready [OF r(1)] by blast
    have a: "rw_alloc b w (sector_of (vb_blockno (vd (v_st T)) b)) u = Ok (Inl l, t)"
      using r(2) u(1) by (simp add: virtio_disk_rw_def)
    show ?thesis
    proof (cases "length (free_list (vd u)) < 3")
      case True
      then have "card (in_flight T) = 2" using e c u(2) by (simp add: NUM_def)
      moreover obtain ia where "l = AtAlloc (sector_of (vb_blockno (vd (v_st T)) b)) ia"
        using rw_alloc_sleeps [OF u(3) True, of b w "sector_of (vb_blockno (vd (v_st T)) b)"] a by auto
      ultimately show ?thesis by simp
    next
      case False
      then have "card (in_flight T) \<noteq> 2" using e u(2) by (auto simp: NUM_def)
      moreover obtain ia where "l = AtWait (free_list (vd u) ! 0) ia"
        using rw_alloc_submits [OF u(3), of b w "sector_of (vb_blockno (vd (v_st T)) b)"] False a by auto
      ultimately show ?thesis by simp
    qed
  qed
  then show ?thesis using e c by blast
qed

section \<open>Requests end\<close>

lemma runs_trans: "vruns step t tr' u \<Longrightarrow> vruns step s tr t \<Longrightarrow> vruns step s (tr @ tr') u"
proof (induction rule: vruns.induct)
  case (runs_tau a tr1 b c)
  then show ?case by (blast intro: vruns.runs_tau)
next
  case (runs_event a tr1 b e c)
  then have "vruns step s (tr @ tr1) b" by blast
  then show ?case using runs_event.hyps(2,3) vruns.runs_event [of step s "tr @ tr1" b e c] by simp
qed simp

text \<open>What is still to be done for the requests in flight.\<close>

definition work :: "vsys \<Rightarrow> nat" where
  "work S = 3 * length (avail (v_dev S) (vd (v_st S))) + 2 * length (dev_inflight (v_dev S)) + length (used (vd (v_st S)))"

text \<open>The handler takes one entry, starting first if it has to; around it the kernel brings the hart into order.\<close>

lemma handler_runs:
  assumes i: "vsys_inv S" and u: "used (vd (v_st S)) \<noteq> []"
  obtains T where "vruns vstep S [] T" "v_calls T = v_calls S" "work T < work S"
proof -
  let ?d = "vd (v_st S)"
  obtain s :: vstate where s: "section_ok s" "vd s = ?d" using kernel_in_section by blast
  have begun: "vruns vstep S [] (S\<lparr>v_intr := True, v_st := s\<rparr>)"
  proof (cases "v_intr S")
    case True
    have "vstep Tau S (S\<lparr>v_st := s\<rparr>)" by (rule v_kernel) (rule s)
    moreover have "S\<lparr>v_st := s\<rparr> = S\<lparr>v_intr := True, v_st := s\<rparr>" using True by (cases S) simp
    ultimately show ?thesis by (metis vruns.runs_refl vruns.runs_tau)
  next
    case False
    let ?k = "S\<lparr>v_st := demo_kernel ?d\<rparr>"
    obtain t where t: "acquire_vd (demo_kernel ?d) = Ok t" "vd t = ?d"
      using acquire_vd_ok [OF demo_kernel_ready(2) [of ?d]] by auto
    let ?t = "wr_reg VIRTIO_MMIO_INTERRUPT_ACK (rd_reg (\<lambda>_ _. 0) VIRTIO_MMIO_INTERRUPT_STATUS t AND 3) t"
    have "vstep Tau S ?k" by (rule v_kernel) simp
    moreover have "vstep Tau ?k (?k\<lparr>v_intr := True, v_st := ?t\<rparr>)"
      by (rule v_intr_begin [where rd = "\<lambda>_ _. 0"]) (use False t demo_kernel_ready(2) in \<open>simp_all add: intr_begin_def\<close>)
    moreover have "vstep Tau (?k\<lparr>v_intr := True, v_st := ?t\<rparr>) (?k\<lparr>v_intr := True, v_st := ?t\<rparr>\<lparr>v_st := s\<rparr>)"
      by (rule v_kernel) (use s t in simp)
    ultimately have "vruns vstep S [] (?k\<lparr>v_intr := True, v_st := ?t\<rparr>\<lparr>v_st := s\<rparr>)"
      by (meson vruns.runs_refl vruns.runs_tau)
    then show ?thesis by simp
  qed
  have more: "intr_more s" using u s(2) by (simp add: intr_more_def used_Nil)
  have "disk_inv (v_calls S) (v_dev S) (vd s)" using i s(2) by (simp add: vsys_inv_def)
  from intr_one_step [OF this s(1) more] obtain b t where t: "intr_one s = Ok t"
    "vd t = ?d\<lparr>vb_disk := (vb_disk ?d)(b := False), used_idx := used_idx ?d + 1\<rparr>" unfolding s(2) by metis
  let ?T = "S\<lparr>v_intr := True, v_st := s\<rparr>\<lparr>v_st := t\<rparr>"
  have "vstep Tau (S\<lparr>v_intr := True, v_st := s\<rparr>) ?T" by (rule v_intr_one) (use s more t in simp_all)
  then have "vruns vstep S [] ?T" using begun by (blast intro: vruns.runs_tau)
  moreover have "work ?T < work S"
  proof -
    have "used_idx ?d \<noteq> us_idx ?d" using u by (simp add: used_Nil)
    from used_step [OF this] have "length (used (vd t)) < length (used ?d)" unfolding t(2) by (metis length_Cons lessI)
    moreover have "avail (v_dev S) (vd t) = avail (v_dev S) ?d" by (simp add: t(2) avail_def)
    ultimately show ?thesis by (simp add: work_def)
  qed
  ultimately show ?thesis using that [of ?T] by simp
qed

lemma some_work_runs:
  assumes i: "vsys_inv S" and w: "0 < work S"
  obtains T where "vruns vstep S [] T" "v_calls T = v_calls S" "work T < work S"
proof -
  let ?d = "vd (v_st S)" let ?dv = "v_dev S"
  consider (fetch) "avail ?dv ?d \<noteq> []" | (complete) h where "h \<in> set (dev_inflight ?dv)" | (handle) "used ?d \<noteq> []"
    using w by (cases "dev_inflight ?dv") (fastforce simp: work_def)+
  then show ?thesis
  proof cases
    case fetch
    then have ne: "dev_taken ?dv \<noteq> av_idx ?d" by (simp add: avail_def ring_empty_iff)
    let ?T = "S\<lparr>v_dev := dev_fetch ?d ?dv\<rparr>"
    have "vstep Tau S ?T" by (rule v_fetch [OF ne])
    then have "vruns vstep S [] ?T" by (blast intro: vruns.intros)
    moreover have "length (avail ?dv ?d) = Suc (length (avail (dev_fetch ?d ?dv) ?d))" using avail_fetch [OF ne] by simp
    then have "work ?T < work S" by (simp add: work_def dev_fetch_def)
    ultimately show ?thesis using that [of ?T] by simp
  next
    case complete
    have "disk_inv (v_calls S) ?dv ?d" using i by (simp add: vsys_inv_def)
    from this complete obtain d1 m where op: "dev_op h ?d (dev_media ?dv) = Some (d1, m)" by (metis disk_complete)
    let ?T = "S\<lparr>v_dev := ?dv\<lparr>dev_inflight := remove1 h (dev_inflight ?dv), dev_media := m\<rparr>, v_st := (v_st S)\<lparr>vd := dev_done h d1\<rparr>\<rparr>"
    have st: "vstep Tau S ?T" by (rule v_complete [OF complete op])
    have iT: "vsys_inv ?T" using vsys_step [OF st i] by simp
    have d1: "used_idx d1 = used_idx ?d" "us_idx d1 = us_idx ?d" "av_ring d1 = av_ring ?d" "av_idx d1 = av_idx ?d"
      using op by (auto simp: dev_op_def Let_def split: vaddr.splits if_splits)
    have "length (used (dev_done h d1)) \<le> Suc (length (used ?d))"
    proof -
      have s: "unat (x + 1) \<le> Suc (unat x)" for x :: u16
        using unat_word_ariths(1) [of x 1] by (simp add: mod_less_eq_dividend)
      have "length (used (dev_done h d1)) = unat (us_idx d1 + 1 - used_idx d1)" by (simp add: used_def dev_done_def)
      also have "us_idx d1 + 1 - used_idx d1 = (us_idx ?d - used_idx ?d) + 1" using d1 by simp
      also note s
      finally show ?thesis by (simp add: used_def)
    qed
    moreover have "avail (?dv\<lparr>dev_inflight := remove1 h (dev_inflight ?dv), dev_media := m\<rparr>) (dev_done h d1) = avail ?dv ?d"
      by (simp add: avail_def dev_done_def d1)
    moreover have "Suc (length (remove1 h (dev_inflight ?dv))) = length (dev_inflight ?dv)"
      using complete length_pos_if_in_set [OF complete] by (simp add: length_remove1)
    ultimately have "work ?T < work S" by (simp add: work_def)
    moreover have "vruns vstep S [] ?T" using st by (blast intro: vruns.intros)
    ultimately show ?thesis using that [of ?T] by simp
  next
    case handle
    from handler_runs [OF i this] that show ?thesis by blast
  qed
qed

lemma all_work_runs:
  "vsys_inv S \<Longrightarrow> \<exists>T. vruns vstep S [] T \<and> v_calls T = v_calls S \<and> work T = 0"
proof (induction "work S" arbitrary: S rule: less_induct)
  case less
  show ?case
  proof (cases "work S = 0")
    case True
    then show ?thesis by (intro exI [of _ S]) (simp add: vruns.runs_refl)
  next
    case False
    then have "0 < work S" by simp
    from some_work_runs [OF less.prems this] obtain T
      where T: "vruns vstep S [] T" "v_calls T = v_calls S" "work T < work S" .
    then obtain U where "vruns vstep T [] U" "v_calls U = v_calls T" "work U = 0"
      using less.hyps [OF T(3) dref.inv_runs [OF T(1) less.prems]] by blast
    then show ?thesis using T runs_trans [of vstep T "[]" U S "[]"] by auto
  qed
qed

lemma handler_ends:
  assumes i: "vsys_inv S" and w: "work S = 0"
  obtains T where "vruns vstep S [] T" "v_calls T = v_calls S" "work T = 0" "\<not> v_intr T"
proof (cases "v_intr S")
  case False
  show ?thesis by (rule that [OF vruns.runs_refl refl w False])
next
  case True
  obtain s :: vstate where s: "section_ok s" "vd s = vd (v_st S)" using kernel_in_section by blast
  obtain t where t: "release_vd s = Ok t" "vd t = vd s" using release_vd_ok [OF s(1)] by blast
  let ?T = "S\<lparr>v_st := s\<rparr>\<lparr>v_intr := False, v_st := t\<rparr>"
  have "vstep Tau S (S\<lparr>v_st := s\<rparr>)" by (rule v_kernel) (rule s)
  moreover have "used (vd s) = []" using w s(2) by (simp add: work_def)
  then have "vstep Tau (S\<lparr>v_st := s\<rparr>) ?T"
    by (intro v_intr_end) (use True s(1) t in \<open>simp_all add: intr_more_def used_Nil\<close>)
  ultimately have "vruns vstep S [] ?T" by (blast intro: vruns.intros)
  then show ?thesis using that [of ?T] w s(2) t(2) by (simp add: work_def)
qed

lemma finish_waiting:
  assumes i: "vsys_inv S" and c: "v_calls S b = Some (w, AtWait h ia)"
  obtains bs T where "vruns vstep S [Return b bs] T" "v_calls T = (v_calls S)(b := None)" "\<not> v_intr T"
proof -
  obtain U where U: "vruns vstep S [] U" "v_calls U = v_calls S" "work U = 0" using all_work_runs [OF i] by blast
  obtain V where V: "vruns vstep U [] V" "v_calls V = v_calls U" "work V = 0" "\<not> v_intr V"
    using handler_ends [OF dref.inv_runs [OF U(1) i] U(3)] by blast
  have SV: "vruns vstep S [] V" using runs_trans [OF V(1) U(1)] by simp
  have iV: "disk_inv (v_calls V) (v_dev V) (vd (v_st V))" using dref.inv_runs [OF SV i] by (simp add: vsys_inv_def)
  have cV: "v_calls V b = Some (w, AtWait h ia)" using c U(2) V(2) by simp
  then have wt: "waits (v_calls V) b h w" by (auto simp: waits_def)
  have "queued (v_dev V) (vd (v_st V)) = []" using V(3) by (simp add: work_def)
  then have nd: "\<not> vb_disk (vd (v_st V)) b" using queues_okD(1) [OF disk_invD(2) [OF iV], of h] wt by auto
  let ?K = "V\<lparr>v_st := demo_switched (vd (v_st V))\<rparr>"
  obtain t where t: "sleep_in_with ia acquire_vd (v_st ?K) = Ok t" "vd t = vd (v_st V)" "call_ok t"
    using sleep_in_vd [OF demo_switched_resumable [of "vd (v_st V)"]] by auto
  have "req_ok (vd t) b w h" using disk_invD(4) [OF iV wt] t(2) by simp
  then obtain u where u: "rw_wait b h t = Ok (Inr (), u)" using rw_wait_finishes [OF t(3)] nd t(2) by metis
  have "vstep Tau V ?K" by (rule v_kernel) simp
  moreover have "vstep (Return b (vb_data (vd u) b)) ?K (?K\<lparr>v_calls := (v_calls ?K)(b := None), v_st := u\<rparr>)"
    by (rule v_return [of ?K b w "AtWait h ia"])
      (use cV V(4) t u demo_switched_resumable in \<open>simp_all add: virtio_disk_rw_resume_def\<close>)
  ultimately have "vruns vstep S ([] @ [Return b (vb_data (vd u) b)]) (?K\<lparr>v_calls := (v_calls ?K)(b := None), v_st := u\<rparr>)"
    by (rule vruns.runs_event [OF vruns.runs_tau [OF SV]]) simp
  then show ?thesis using that U(2) V(2,4) by fastforce
qed

lemma finish_allocating:
  assumes i: "vsys_inv S" and c: "v_calls S b = Some (w, AtAlloc sec ia)" and nv: "\<not> v_intr S"
    and f: "card (in_flight S) < 2"
  obtains bs T where "vruns vstep S [Return b bs] T"
proof -
  let ?d = "vd (v_st S)" let ?K = "S\<lparr>v_st := demo_switched ?d\<rparr>"
  obtain t where t: "sleep_in_with ia acquire_vd (demo_switched ?d) = Ok t" "vd t = ?d" "call_ok t"
    using sleep_in_vd [OF demo_switched_resumable [of ?d]] by auto
  have "3 \<le> length (free_list (vd t))" using in_flight_card(2) [OF i] f t(2) by (simp add: NUM_def)
  from rw_alloc_submits [OF t(3) this] obtain h ja u where u: "rw_alloc b w sec t = Ok (Inl (AtWait h ja), u)" by blast
  let ?T = "?K\<lparr>v_calls := (v_calls ?K)(b \<mapsto> (w, AtWait h ja)), v_st := u\<rparr>"
  have "vstep Tau S ?K" by (rule v_kernel) simp
  moreover have "vstep Tau ?K ?T"
    by (rule v_resume [of ?K b w "AtAlloc sec ia"])
      (use c nv t u demo_switched_resumable in \<open>simp_all add: virtio_disk_rw_resume_def\<close>)
  ultimately have r: "vruns vstep S [] ?T" by (rule vruns.runs_tau [OF vruns.runs_tau [OF vruns.runs_refl]])
  have "v_calls ?T b = Some (w, AtWait h ja)" by simp
  from finish_waiting [OF dref.inv_runs [OF r i] this] obtain bs U where "vruns vstep ?T [Return b bs] U" .
  from runs_trans [OF this r] that show ?thesis by simp
qed


section \<open>A machine with a disk\<close>

definition demo_vdisk :: vdisk where
  "demo_vdisk = \<lparr>vd_pages = (0, 0, 0), vd_desc = (\<lambda>_. zero_desc), av_idx = 0, av_ring = (\<lambda>_. 0), us_idx = 0,
     us_ring = (\<lambda>_. 0), vd_free = (\<lambda>_. True), used_idx = 0, info_b = (\<lambda>_. None), info_status = (\<lambda>_. 0),
     vd_ops = (\<lambda>_. \<lparr>rq_type = 0, rq_reserved = 0, rq_sector = 0\<rparr>), vb_disk = (\<lambda>_. False), vb_blockno = (\<lambda>b. of_nat b),
     vb_data = (\<lambda>_. replicate 1024 0)\<rparr>"

definition demo_vsys :: vsys where
  "demo_vsys = \<lparr>v_calls = (\<lambda>_. None), v_intr = False,
     v_dev = \<lparr>dev_taken = 0, dev_inflight = [], dev_media = (\<lambda>_. replicate 512 7)\<rparr>, v_st = demo_kernel demo_vdisk\<rparr>"

lemma demo_vsys_init: "vinit demo_vsys"
  by (simp add: vinit_def demo_vsys_def demo_vdisk_def)

text \<open>A read of block 3 is called.\<close>

lemma demo_call:
  "\<exists>l t. virtio_disk_rw 3 False (demo_kernel demo_vdisk) = Ok (Inl l, t) \<and>
     vruns vstep demo_vsys [Call 3 False 3 (replicate 1024 0)] (demo_vsys\<lparr>v_calls := [3 \<mapsto> (False, l)], v_st := t\<rparr>)"
proof -
  have v: "valid_req 3 (vd (v_st demo_vsys))" "v_calls demo_vsys 3 = None" "\<not> v_intr demo_vsys" "ready (v_st demo_vsys)"
    using demo_kernel_ready by (simp_all add: valid_req_def demo_vsys_def demo_vdisk_def BSIZE_def)
  have "disk_inv (v_calls demo_vsys) (v_dev demo_vsys) (vd (v_st demo_vsys))"
    using vinit_inv [OF demo_vsys_init] by (simp add: vsys_inv_def)
  from rw_step [OF this v(4,2,1)] obtain l t where r: "virtio_disk_rw 3 False (v_st demo_vsys) = Ok (Inl l, t)" by metis
  from v_call [OF v(2,1,3,4) this] have "vstep (Call 3 False 3 (replicate 1024 0)) demo_vsys
      (demo_vsys\<lparr>v_calls := (v_calls demo_vsys)(3 \<mapsto> (False, l)), v_st := t\<rparr>)"
    by (simp add: demo_vsys_def demo_vdisk_def)
  from runs_step [OF vruns.runs_refl [of vstep demo_vsys] this] r show ?thesis by (auto simp: demo_vsys_def)
qed

theorem virtio_disk_is_atomic_witness:
  "\<exists>T. vruns astep (vsys_abs demo_vsys) [Call 3 False 3 (replicate 1024 0)] (vsys_abs T) \<and> a_calls (vsys_abs T) 3 \<noteq> None"
proof -
  obtain l t where "vruns vstep demo_vsys [Call 3 False 3 (replicate 1024 0)] (demo_vsys\<lparr>v_calls := [3 \<mapsto> (False, l)], v_st := t\<rparr>)"
    using demo_call by blast
  from virtio_disk_is_atomic [OF demo_vsys_init this] show ?thesis
    by (intro exI [of _ "demo_vsys\<lparr>v_calls := [3 \<mapsto> (False, l)], v_st := t\<rparr>"]) (simp add: vsys_abs_def abs_disk_def)
qed

theorem virtio_disk_never_panics_witness: "\<exists>l t. virtio_disk_rw 3 True (demo_kernel demo_vdisk) = Ok (Inl l, t)"
  using virtio_disk_never_panics [OF demo_vsys_init vruns.runs_refl] demo_kernel_ready(1) [of demo_vdisk]
  by (simp add: demo_vsys_def valid_req_def demo_vdisk_def BSIZE_def)

theorem two_requests_in_flight_witness: "length (free_list demo_vdisk) = 8"
  using two_requests_in_flight [OF demo_vsys_init vruns.runs_refl] by (simp add: demo_vsys_def in_flight_def NUM_def)


end
