(* ===== verification/Virtio_Init.thy ===== *)
theory Virtio_Init
  imports Virtio_Correct Vm_Demo
begin

text \<open>
  \<open>virtio_disk_init\<close> on a device that conforms to the specification, one run of the interrupt handler as a
  whole, and the place of the driver under the buffer cache: what the disk of the specification does for a
  request is what the cache's \<open>disk_rw\<close> does.
\<close>

section \<open>Initialisation\<close>

text \<open>What the driver reads from a block device: fixed identification, the status as last written, and no queue in use.\<close>

definition conforming :: "mmio_device \<Rightarrow> bool" where
  "conforming rd \<longleftrightarrow>
     (\<forall>ws. rd ws (VIRTIO0 + VIRTIO_MMIO_MAGIC_VALUE) = 0x74726976 \<and> rd ws (VIRTIO0 + VIRTIO_MMIO_VERSION) = 2 \<and>
        rd ws (VIRTIO0 + VIRTIO_MMIO_DEVICE_ID) = 2 \<and> rd ws (VIRTIO0 + VIRTIO_MMIO_VENDOR_ID) = 0x554d4551 \<and>
        of_nat NUM \<le> rd ws (VIRTIO0 + VIRTIO_MMIO_QUEUE_NUM_MAX)) \<and>
     (\<forall>ws v. rd (ws @ [(VIRTIO0 + VIRTIO_MMIO_STATUS, v)]) (VIRTIO0 + VIRTIO_MMIO_STATUS) = v) \<and>
     (\<forall>ws. VIRTIO0 + VIRTIO_MMIO_QUEUE_READY \<notin> fst ` set ws \<longrightarrow> rd ws (VIRTIO0 + VIRTIO_MMIO_QUEUE_READY) = 0)"

definition init_writes :: "mmio_device \<Rightarrow> u64 \<Rightarrow> u64 \<Rightarrow> u64 \<Rightarrow> (u64 \<times> u32) list" where
  "init_writes rd pd pa pu =
     (let before = [(VIRTIO_MMIO_STATUS, 0), (VIRTIO_MMIO_STATUS, 1), (VIRTIO_MMIO_STATUS, 3)];
          offered = rd (map (\<lambda>(r, v). (VIRTIO0 + r, v)) before) (VIRTIO0 + VIRTIO_MMIO_DEVICE_FEATURES)
      in before @ [(VIRTIO_MMIO_DRIVER_FEATURES, init_features offered), (VIRTIO_MMIO_STATUS, 11),
           (VIRTIO_MMIO_QUEUE_SEL, 0), (VIRTIO_MMIO_QUEUE_NUM, 8),
           (VIRTIO_MMIO_QUEUE_DESC_LOW, ucast pd), (VIRTIO_MMIO_QUEUE_DESC_HIGH, ucast (drop_bit 32 pd)),
           (VIRTIO_MMIO_DRIVER_DESC_LOW, ucast pa), (VIRTIO_MMIO_DRIVER_DESC_HIGH, ucast (drop_bit 32 pa)),
           (VIRTIO_MMIO_DEVICE_DESC_LOW, ucast pu), (VIRTIO_MMIO_DEVICE_DESC_HIGH, ucast (drop_bit 32 pu)),
           (VIRTIO_MMIO_QUEUE_READY, 1), (VIRTIO_MMIO_STATUS, 15)])"

lemmas register_defs = VIRTIO_MMIO_MAGIC_VALUE_def VIRTIO_MMIO_VERSION_def VIRTIO_MMIO_DEVICE_ID_def VIRTIO_MMIO_VENDOR_ID_def
  VIRTIO_MMIO_DEVICE_FEATURES_def VIRTIO_MMIO_DRIVER_FEATURES_def VIRTIO_MMIO_QUEUE_SEL_def VIRTIO_MMIO_QUEUE_NUM_MAX_def
  VIRTIO_MMIO_QUEUE_NUM_def VIRTIO_MMIO_QUEUE_READY_def VIRTIO_MMIO_QUEUE_NOTIFY_def VIRTIO_MMIO_STATUS_def
  VIRTIO_MMIO_QUEUE_DESC_LOW_def VIRTIO_MMIO_QUEUE_DESC_HIGH_def VIRTIO_MMIO_DRIVER_DESC_LOW_def
  VIRTIO_MMIO_DRIVER_DESC_HIGH_def VIRTIO_MMIO_DEVICE_DESC_LOW_def VIRTIO_MMIO_DEVICE_DESC_HIGH_def

lemmas status_defs = VIRTIO_CONFIG_S_ACKNOWLEDGE_def VIRTIO_CONFIG_S_DRIVER_def VIRTIO_CONFIG_S_DRIVER_OK_def
  VIRTIO_CONFIG_S_FEATURES_OK_def

lemma init_pages_ok:
  assumes "kmem_inv (k_mem s) (pd # pa # pu # free)"
  obtains t where "init_pages s = Ok t" "mmio t = mmio s" "vdisk_lock t = vdisk_lock s"
    "vd t = (vd s)\<lparr>vd_pages := (pd, pa, pu), vd_desc := (\<lambda>_. zero_desc), av_idx := 0, av_ring := (\<lambda>_. 0),
       us_idx := 0, us_ring := (\<lambda>_. 0)\<rparr>"
    "\<forall>p\<in>{pd, pa, pu}. \<forall>x. unat (x - p) < 4096 \<longrightarrow> mem (k_mem t) x = 0"
proof -
  obtain k1 where 1: "kalloc (k_mem s) = (pd, k1)" "kmem_inv k1 (pa # pu # free)" "pd \<noteq> 0" using kalloc_Cons [OF assms] by metis
  obtain k2 where 2: "kalloc k1 = (pa, k2)" "kmem_inv k2 (pu # free)" "pa \<noteq> 0" using kalloc_Cons [OF 1(2)] by metis
  obtain k3 where 3: "kalloc k2 = (pu, k3)" "pu \<noteq> 0" using kalloc_Cons [OF 2(2)] by metis
  let ?m = "memset (memset (memset (mem k3) pd 0 4096) pa 0 4096) pu 0 4096"
  let ?t = "upd_vd (\<lambda>d. d\<lparr>vd_desc := (\<lambda>_. zero_desc), av_idx := 0, av_ring := (\<lambda>_. 0), us_idx := 0, us_ring := (\<lambda>_. 0)\<rparr>)
    ((upd_vd (\<lambda>d. d\<lparr>vd_pages := (pd, pa, pu)\<rparr>) (s\<lparr>k_mem := k3\<rparr>))\<lparr>k_mem := k3\<lparr>mem := ?m\<rparr>\<rparr>)"
  have "init_pages s = Ok ?t" using 1 2 3 by (simp add: init_pages_def PGSIZE_def upd_vd_def)
  moreover have "\<forall>p\<in>{pd, pa, pu}. \<forall>x. unat (x - p) < 4096 \<longrightarrow> mem (k_mem ?t) x = 0"
    by (auto simp: upd_vd_def memset_apply)
  ultimately show ?thesis using that [of ?t] by (simp add: upd_vd_def)
qed

text \<open>
  C23: on a conforming device and with three free pages \<open>virtio_disk_init\<close> succeeds: it makes exactly
  the register writes of the specification's initialisation sequence, in its order, gives the device three zeroed
  pages, and leaves the driver in the initial state of the system of driver and device.
\<close>

theorem virtio_disk_init_starts_the_driver:
  assumes "conforming rd" "mmio s = []" "kmem_inv (k_mem s) (pd # pa # pu # free)"
    and "used_idx (vd s) = 0" "\<forall>b. \<not> vb_disk (vd s) b"
  shows "\<exists>t. virtio_disk_init rd s = Ok t \<and> mmio t = map (\<lambda>(r, v). (VIRTIO0 + r, v)) (init_writes rd pd pa pu) \<and>
    (\<forall>p\<in>{pd, pa, pu}. \<forall>x. unat (x - p) < 4096 \<longrightarrow> mem (k_mem t) x = 0) \<and> lock_free (vdisk_lock t) \<and>
    (\<forall>m. (\<forall>x. length (m x) = 512) \<longrightarrow>
      vinit \<lparr>v_calls = (\<lambda>_. None), v_intr = False, v_dev = \<lparr>dev_taken = 0, dev_inflight = [], dev_media = m\<rparr>, v_st = t\<rparr>)"
proof -
  note c = assms(1) [unfolded conforming_def]
  let ?o = "rd [(VIRTIO0 + VIRTIO_MMIO_STATUS, 0), (VIRTIO0 + VIRTIO_MMIO_STATUS, 1), (VIRTIO0 + VIRTIO_MMIO_STATUS, 3)]
    (VIRTIO0 + VIRTIO_MMIO_DEVICE_FEATURES)"
  let ?w5 = "[(VIRTIO0 + VIRTIO_MMIO_STATUS, 0), (VIRTIO0 + VIRTIO_MMIO_STATUS, 1), (VIRTIO0 + VIRTIO_MMIO_STATUS, 3),
    (VIRTIO0 + VIRTIO_MMIO_DRIVER_FEATURES, init_features ?o), (VIRTIO0 + VIRTIO_MMIO_STATUS, 11)]"
  let ?w = "?w5 @ [(VIRTIO0 + VIRTIO_MMIO_QUEUE_SEL, 0)]"
  let ?s = "s\<lparr>vdisk_lock := initlock ''virtio_disk'', mmio := ?w\<rparr>"
  have id: "rd ws (VIRTIO0 + VIRTIO_MMIO_MAGIC_VALUE) = 0x74726976" "rd ws (VIRTIO0 + VIRTIO_MMIO_VERSION) = 2"
    "rd ws (VIRTIO0 + VIRTIO_MMIO_DEVICE_ID) = 2" "rd ws (VIRTIO0 + VIRTIO_MMIO_VENDOR_ID) = 0x554d4551"
    "8 \<le> rd ws (VIRTIO0 + VIRTIO_MMIO_QUEUE_NUM_MAX)" for ws
    using c by (simp_all add: NUM_def)
  have status: "rd ?w5 (VIRTIO0 + VIRTIO_MMIO_STATUS) = 11"
    using c [THEN conjunct2, THEN conjunct1, rule_format, of "take 4 ?w5" 11] by simp
  have queue: "rd ?w (VIRTIO0 + VIRTIO_MMIO_QUEUE_READY) = 0"
    using c [THEN conjunct2, THEN conjunct2, rule_format, of ?w] by (simp add: register_defs)
  have qmax: "rd ?w (VIRTIO0 + VIRTIO_MMIO_QUEUE_NUM_MAX) \<noteq> 0" "\<not> rd ?w (VIRTIO0 + VIRTIO_MMIO_QUEUE_NUM_MAX) < of_nat NUM"
    using id(5) [of ?w] by (auto simp: NUM_def)
  have "kmem_inv (k_mem ?s) (pd # pa # pu # free)" using assms(3) by simp
  then obtain t where t: "init_pages ?s = Ok t" "mmio t = ?w" "vdisk_lock t = initlock ''virtio_disk''"
    "vd t = (vd s)\<lparr>vd_pages := (pd, pa, pu), vd_desc := (\<lambda>_. zero_desc), av_idx := 0, av_ring := (\<lambda>_. 0),
       us_idx := 0, us_ring := (\<lambda>_. 0)\<rparr>"
    "\<forall>p\<in>{pd, pa, pu}. \<forall>x. unat (x - p) < 4096 \<longrightarrow> mem (k_mem t) x = 0"
    by (rule init_pages_ok [of ?s]) simp
  let ?t = "wr_reg VIRTIO_MMIO_STATUS 15 (init_queue t)"
  have "virtio_disk_init rd s = Ok ?t"
    using id status queue qmax t(1) assms(2)
    by (simp add: virtio_disk_init_def rd_reg_def wr_reg_def status_defs) (simp add: Let_def)
  moreover have "mmio ?t = map (\<lambda>(r, v). (VIRTIO0 + r, v)) (init_writes rd pd pa pu)"
    using t(2,4) by (simp add: init_queue_def init_writes_def wr_reg_def upd_vd_def NUM_def)
  moreover have "\<forall>p\<in>{pd, pa, pu}. \<forall>x. unat (x - p) < 4096 \<longrightarrow> mem (k_mem ?t) x = 0"
    using t(5) by (simp add: init_queue_def wr_reg_def upd_vd_def Let_def split: prod.split)
  moreover have "lock_free (vdisk_lock ?t)"
    using t(3) by (simp add: init_queue_def wr_reg_def upd_vd_def Let_def split: prod.split)
  moreover have "vd ?t = (vd t)\<lparr>vd_free := (\<lambda>i. if i < NUM then True else vd_free (vd t) i)\<rparr>"
    by (simp add: init_queue_def wr_reg_def upd_vd_def Let_def split: prod.split)
  moreover have "vinit \<lparr>v_calls = (\<lambda>_. None), v_intr = False, v_dev = \<lparr>dev_taken = 0, dev_inflight = [], dev_media = m\<rparr>, v_st = ?t\<rparr>"
    if "\<forall>x. length (m x) = 512" for m
    using that assms(4,5) t(4) calculation(5) by (simp add: vinit_def)
  ultimately show ?thesis by blast
qed

text \<open>A conforming device that offers all features.\<close>

definition demo_device :: mmio_device where
  "demo_device ws r =
     (if r = VIRTIO0 + VIRTIO_MMIO_MAGIC_VALUE then 0x74726976 else if r = VIRTIO0 + VIRTIO_MMIO_VERSION then 2
      else if r = VIRTIO0 + VIRTIO_MMIO_DEVICE_ID then 2 else if r = VIRTIO0 + VIRTIO_MMIO_VENDOR_ID then 0x554d4551
      else if r = VIRTIO0 + VIRTIO_MMIO_QUEUE_NUM_MAX then 1024 else if r = VIRTIO0 + VIRTIO_MMIO_DEVICE_FEATURES then 0xFFFFFFFF
      else case filter (\<lambda>(q, v). q = r) (rev ws) of [] \<Rightarrow> 0 | (q, v) # _ \<Rightarrow> v)"

lemma demo_device_conforming: "conforming demo_device"
proof -
  have "filter (\<lambda>(q, v). q = r) (rev ws) = []" if "r \<notin> fst ` set ws" for r and ws :: "(u64 \<times> u32) list"
    using that by (force simp: filter_empty_conv)
  then show ?thesis
    by (auto simp: conforming_def demo_device_def register_defs VIRTIO0_def NUM_def)
qed

theorem virtio_disk_init_starts_the_driver_witness:
  "\<exists>t. virtio_disk_init demo_device ((demo_kernel demo_vdisk)\<lparr>k_mem := demo_km\<rparr>) = Ok t \<and>
     lock_free (vdisk_lock t) \<and> (\<exists>v. mmio t ! 3 = (0x10001020, v) \<and> v = 0xC7FFE75F)"
proof -
  let ?s = "(demo_kernel demo_vdisk)\<lparr>k_mem := demo_km\<rparr>"
  have "mmio ?s = []" "used_idx (vd ?s) = 0" "\<forall>b. \<not> vb_disk (vd ?s) b" "kmem_inv (k_mem ?s) [dF, dG, dH]"
    using demo_kernel_simps(1) [of demo_vdisk] demo_inv by (simp_all add: demo_kernel_def kstate.defs demo_vdisk_def)
  from virtio_disk_init_starts_the_driver [OF demo_device_conforming this(1,4,2,3)] obtain t where
    "virtio_disk_init demo_device ?s = Ok t" "lock_free (vdisk_lock t)"
    "mmio t = map (\<lambda>(r, v). (VIRTIO0 + r, v)) (init_writes demo_device dF dG dH)" by blast
  then show ?thesis
    by (simp add: init_writes_def demo_device_def register_defs VIRTIO0_def init_features_def clear_bit_def
        VIRTIO_BLK_F_RO_def VIRTIO_BLK_F_SCSI_def VIRTIO_BLK_F_CONFIG_WCE_def VIRTIO_BLK_F_MQ_def
        VIRTIO_F_ANY_LAYOUT_def VIRTIO_RING_F_INDIRECT_DESC_def VIRTIO_RING_F_EVENT_IDX_def)
qed

section \<open>The interrupt handler as a whole\<close>

lemma intr_loop_runs:
  "disk_inv c dv (vd s) \<Longrightarrow> section_ok s \<Longrightarrow> length (used (vd s)) = n \<Longrightarrow>
     \<exists>t. intr_loop n s = Ok t \<and> disk_inv c dv (vd t) \<and> section_ok t \<and> used (vd t) = [] \<and>
       abs_disk c dv (vd t) = abs_disk c dv (vd s)"
proof (induction n arbitrary: s)
  case 0
  then show ?case by auto
next
  case (Suc n)
  then have ne: "used_idx (vd s) \<noteq> us_idx (vd s)" using used_Nil [of "vd s"] by auto
  then have more: "intr_more s" by (simp add: intr_more_def)
  from intr_one_step [OF Suc.prems(1,2) more] obtain b t where t: "intr_one s = Ok t" "same_locks s t"
    "disk_inv c dv (vd t)" "abs_disk c dv (vd t) = abs_disk c dv (vd s)"
    "vd t = (vd s)\<lparr>vb_disk := (vb_disk (vd s))(b := False), used_idx := used_idx (vd s) + 1\<rparr>" .
  have "length (used (vd t)) = n" using used_step [OF ne] Suc.prems(3) unfolding t(5) by (metis Suc_inject length_Cons)
  from Suc.IH [OF t(3) same_locks_section [OF t(2) Suc.prems(2)] this] show ?case using t more by auto
qed

text \<open>With no new completion meanwhile the handler returns, and every request in the used ring is done.\<close>

lemma virtio_disk_intr_runs:
  assumes "disk_inv c dv (vd s)" "ready_intr s"
  shows "\<exists>t. virtio_disk_intr rd s = Ok t \<and> disk_inv c dv (vd t) \<and> used (vd t) = [] \<and>
    abs_disk c dv (vd t) = abs_disk c dv (vd s)"
proof -
  obtain a where a: "acquire_vd s = Ok a" "vd a = vd s" "section_ok a" using acquire_vd_ok [OF assms(2)] by blast
  let ?b = "wr_reg VIRTIO_MMIO_INTERRUPT_ACK (rd_reg rd VIRTIO_MMIO_INTERRUPT_STATUS a AND 3) a"
  have b: "section_ok ?b" "vd ?b = vd s" using same_locks_section [OF same_locks_upd(2) a(3)] a(2) by simp_all
  have "length (used (vd ?b)) = unat (us_idx (vd ?b) - used_idx (vd ?b))" by (simp add: used_def)
  from intr_loop_runs [of c dv ?b, OF _ b(1) this] obtain t where
    t: "intr_loop (unat (us_idx (vd ?b) - used_idx (vd ?b))) ?b = Ok t" "disk_inv c dv (vd t)" "section_ok t"
    "used (vd t) = []" "abs_disk c dv (vd t) = abs_disk c dv (vd s)" using assms(1) b(2) by auto
  obtain u where "release_vd t = Ok u" "vd u = vd t" using release_vd_ok [OF t(3)] by blast
  then show ?thesis using a(1) t by (simp add: virtio_disk_intr_def intr_begin_def)
qed

section \<open>The disk of the buffer cache\<close>

text \<open>The state of the buffer cache as a disk of the specification, with the calls \<open>c\<close> in progress.\<close>

definition cache_disk :: "(nat \<Rightarrow> (bool \<times> bool) option) \<Rightarrow> 'z bstate_scheme \<Rightarrow> adisk" where
  "cache_disk c s = \<lparr>a_media = disk s, a_data = (\<lambda>b. b_data (bcache s b)), a_blockno = (\<lambda>b. b_blockno (bcache s b)),
     a_calls = c\<rparr>"

text \<open>\<open>disk_rw\<close> of \<open>Bio\<close> is a call, the request performed, and the return, with nothing in between.\<close>

lemma disk_rw_is_a_request:
  assumes "c b = None"
  shows "\<exists>t. disk_rw b w s = Ok ((), t) \<and>
    vruns astep (cache_disk c s)
      [Call b w (b_blockno (bcache s b)) (b_data (bcache s b)), Return b (b_data (bcache t b))] (cache_disk c t)"
proof -
  let ?a = "cache_disk c s"
  obtain t where t: "disk_rw b w s = Ok ((), t)" "cache_disk c t = do_req b w ?a"
    by (auto simp: disk_rw_def kmod_def cache_disk_def do_req_def Let_def upd_b_def fun_eq_iff)
  let ?b = "?a\<lparr>a_calls := c(b \<mapsto> (w, False))\<rparr>" let ?c = "(do_req b w ?a)\<lparr>a_calls := c(b \<mapsto> (w, True))\<rparr>"
  have "astep (Call b w (b_blockno (bcache s b)) (b_data (bcache s b))) ?a ?b"
    using a_call [of ?a b w] assms by (simp add: cache_disk_def)
  moreover have "astep Tau ?b ?c"
    using a_do [of ?b b w] by (cases w) (simp_all add: do_req_def cache_disk_def)
  moreover have "astep (Return b (b_data (bcache t b))) ?c (cache_disk c t)"
  proof -
    have "a_data (cache_disk c t) b = b_data (bcache t b)" by (simp add: cache_disk_def)
    moreover have "a_calls (do_req b w ?a) = c" by (simp add: do_req_def cache_disk_def)
    then have "?c\<lparr>a_calls := (a_calls ?c)(b := None)\<rparr> = cache_disk c t"
      unfolding t(2) using assms by (simp add: fun_upd_idem)
    ultimately show ?thesis using a_return [of ?c b w] t(2) by simp
  qed
  ultimately have "vruns astep ?a ([] @ [Call b w (b_blockno (bcache s b)) (b_data (bcache s b))] @ [Return b (b_data (bcache t b))])
      (cache_disk c t)"
    using vruns.runs_event [OF vruns.runs_tau [OF vruns.runs_event [OF vruns.runs_refl [of astep ?a]]]] by fastforce
  then show ?thesis using t(1) by auto
qed

end
