(* ===== verification/Vm_Kernel.thy ===== *)
theory Vm_Kernel
  imports Vm_Cow
begin

text \<open>
  The kernel's own page table: \<open>kvmmake\<close> succeeds when enough pages are free, and maps devices and physical
  memory to themselves, the trampoline to the highest page and each process's stack to a page of its own.
  A page-table page covers 512 pages; mapping a range allocates at most two for each of the groups of 512
  pages that it meets.
\<close>

section \<open>Mapping a page\<close>

lemma PX_group: "PX 1 va = drop_bit 21 va AND 0x1FF" "PX 2 va = drop_bit 9 (drop_bit 21 va) AND 0x1FF"
  by (simp_all add: PX_def PXSHIFT_def drop_bit_drop_bit)

lemma vpath_group: "drop_bit 21 va = drop_bit 21 va' \<Longrightarrow> vpath va = vpath va'"
  by (simp add: vpath_def PX_group del: One_nat_def)

lemma vpath_vpage: "k div 512 = j div 512 \<Longrightarrow> k \<le> 0x4000000 \<Longrightarrow> j \<le> 0x4000000 \<Longrightarrow> vpath (vpage k) = vpath (vpage j)"
proof (rule vpath_group)
  assume a: "k div 512 = j div 512" "k \<le> 0x4000000" "j \<le> 0x4000000"
  have "unat (drop_bit 21 (vpage n)) = n div 512" if "n \<le> 0x4000000" for n
    using that by (simp add: drop_bit_eq_div unat_div unat_vpage)
  then show "drop_bit 21 (vpage k) = drop_bit 21 (vpage j)" using a by (simp add: word_unat_eq_iff)
qed

lemma walk_found: "tab (mem km) (vpath va) r = Some t \<Longrightarrow> walk_loop 2 r va True km = (pte_slot t (PX 0 va), km)"
  by (auto simp: numeral_2_eq_2 vpath_def tab.simps(2) walk_step_found split: option.splits)

definition table_cost :: "kmem \<Rightarrow> u64 \<Rightarrow> u64 \<Rightarrow> nat" where
  "table_cost km r va = (if tab (mem km) (vpath va) r = None then 2 else 0)"

lemma walk_enough:
  assumes ok: "kalloc_ok km" and f: "forest km R" and r: "r \<in> R" and c: "table_cost km r va \<le> card (free_pages km)"
  shows "\<exists>t km'. walk_loop 2 r va True km = (pte_slot t (PX 0 va), km') \<and> extends R km km' \<and>
    tab (mem km') (vpath va) r = Some t \<and> card (free_pages km) \<le> card (free_pages km') + table_cost km r va"
proof (cases "tab (mem km) (vpath va) r")
  case (Some t)
  then show ?thesis using walk_found [OF Some] extends_refl [OF ok f] by (auto simp: table_cost_def)
next
  case None
  then have two: "2 \<le> card (free_pages km)" using c by (simp add: table_cost_def)
  have "free_pages km \<noteq> {}" using two by auto
  then obtain t1 k1 where s1: "walk_step True r (PX 2 va) km = (Some t1, k1)"
      "card (free_pages km) \<le> Suc (card (free_pages k1))"
    using walk_step_spare [OF ok, of r "PX 2 va"] by blast
  have e1: "extends R km k1" "tab (mem k1) [PX 2 va] r = Some t1"
    using walk_step_alloc [OF ok f r, of "[]" "PX 2 va" r "Some t1" k1] s1(1) by (simp_all add: PX_less)
  then have o1: "kalloc_ok k1" "forest k1 R" by (auto simp: extends_def)
  have "free_pages k1 \<noteq> {}" using two s1(2) by auto
  then obtain t2 k2 where s2: "walk_step True t1 (PX 1 va) k1 = (Some t2, k2)"
      and c2: "card (free_pages k1) \<le> Suc (card (free_pages k2))"
    using walk_step_spare [OF o1(1)] by blast
  have e2: "extends R k1 k2" "tab (mem k2) (vpath va) r = Some t2"
    using walk_step_alloc [OF o1 r, of "[PX 2 va]" "PX 1 va" t1 "Some t2" k2] s2 e1(2) by (simp_all add: PX_less vpath_def)
  have "walk_loop 2 r va True km = (pte_slot t2 (PX 0 va), k2)" using s1(1) s2 by (simp add: numeral_2_eq_2)
  then show ?thesis using e2 extends_trans [OF e1(1) e2(1)] s1(2) c2 None by (auto simp: table_cost_def)
qed

text \<open>One round of \<open>mappages\<close>.\<close>

lemma map_page:
  assumes ok: "kalloc_ok km" and f: "forest km R" and r: "r \<in> R" and va: "page_aligned va" "va < MAXVA"
    and free: "leaf (mem km) r va AND PTE_V = 0" and c: "table_cost km r va \<le> card (free_pages km)"
  shows "\<exists>km'. mappages_loop r va a_last pa perm km =
      (if va = a_last then Ok (0, km') else mappages_loop r (va + PGSIZE) a_last (pa + PGSIZE) perm km') \<and>
    upd_leaf R km km' r va (PA2PTE pa OR perm OR PTE_V) \<and> tab (mem km') (vpath va) r \<noteq> None \<and>
    card (free_pages km) \<le> card (free_pages km') + table_cost km r va"
proof -
  obtain t k1 where w: "walk_loop 2 r va True km = (pte_slot t (PX 0 va), k1)" and e: "extends R km k1"
    and t: "tab (mem k1) (vpath va) r = Some t" and cc: "card (free_pages km) \<le> card (free_pages k1) + table_cost km r va"
    using walk_enough [OF ok f r c] by blast
  have o1: "kalloc_ok k1" "forest k1 R" using e by (auto simp: extends_def)
  have nz: "pte_slot t (PX 0 va) \<noteq> 0" by (rule slot_of_table [OF o1 r _ t]) (simp_all add: PX_less)
  have "load64 (mem k1) (pte_slot t (PX 0 va)) = leaf (mem km) r va"
    using e t r by (simp add: extends_def leaf_def [of "mem k1"] split: option.splits)
  then have v: "load64 (mem k1) (pte_slot t (PX 0 va)) AND PTE_V = 0" using free by simp
  let ?km = "k1\<lparr>mem := store64 (mem k1) (pte_slot t (PX 0 va)) (PA2PTE pa OR perm OR PTE_V)\<rparr>"
  have w': "walk r va True km = Ok (pte_slot t (PX 0 va), k1)" using va(2) w by (simp add: walk_def flip: not_less)
  have "mappages_loop r va a_last pa perm km =
      (if va = a_last then Ok (0, ?km) else mappages_loop r (va + PGSIZE) a_last (pa + PGSIZE) perm ?km)"
    by (subst mappages_loop.simps) (use nz v in \<open>simp add: w' Let_def\<close>)
  moreover have "upd_leaf R km ?km r va (PA2PTE pa OR perm OR PTE_V)"
    by (rule upd_leaf_extends [OF e upd_leaf_store [OF o1 r t va refl]])
  moreover have "tab (mem ?km) (vpath va) r = tab (mem k1) (vpath va) r"
    by (simp, rule tab_store_leaf [OF o1(2) r r _ _ _ t]) (simp_all add: PX_less)
  moreover have "free_pages ?km = free_pages k1" by (rule free_pages_cong) simp_all
  ultimately show ?thesis using t cc by auto
qed

section \<open>Mapping a range\<close>

text \<open>From \<open>km\<close> to \<open>km'\<close> the entries of table \<open>r\<close> became those of \<open>L\<close>, nothing else of the forest changed, and at most
  \<open>n\<close> pages were allocated.\<close>

definition upd_table :: "u64 \<Rightarrow> kmem \<Rightarrow> kmem \<Rightarrow> (u64 \<Rightarrow> u64) \<Rightarrow> nat \<Rightarrow> bool" where
  "upd_table r km km' L n \<longleftrightarrow> kalloc_ok km' \<and> forest km' {r} \<and> kend km' = kend km \<and>
     (\<forall>va. page_aligned va \<longrightarrow> va < MAXVA \<longrightarrow> leaf (mem km') r va = L va) \<and>
     (\<forall>a. phys_page km a \<longrightarrow> 0 < refs km a \<longrightarrow> refs km' a = refs km a) \<and>
     (\<forall>a. data_page km {r} a \<longrightarrow> data_page km' {r} a) \<and> card (free_pages km) \<le> card (free_pages km') + n"

lemma upd_table_leaf:
  assumes "upd_leaf {r} km km' r va e" "card (free_pages km) \<le> card (free_pages km') + n"
  shows "upd_table r km km' ((leaf (mem km) r)(va := e)) n"
  using assms by (simp add: upd_leaf_def upd_table_def)

lemma upd_table_trans:
  assumes a: "upd_table r k1 k2 L n" and b: "upd_table r k2 k3 L' m"
  shows "upd_table r k1 k3 L' (n + m)"
proof -
  have ph: "phys_page k2 = phys_page k1" using a by (intro phys_page_fun) (simp add: upd_table_def)
  have "refs k3 x = refs k1 x" if "phys_page k1 x" "0 < refs k1 x" for x
    using a b that ph unfolding upd_table_def by metis
  then show ?thesis using a b unfolding upd_table_def by auto
qed

lemma upd_table_refl: "upd_table r k0 km L c \<Longrightarrow> upd_table r km km L 0"
  by (simp add: upd_table_def)

lemma upd_table_mono: "upd_table r k1 k2 L n \<Longrightarrow> n \<le> m \<Longrightarrow> upd_table r k1 k2 L m"
  by (simp add: upd_table_def)

lemma upd_table_cong: "upd_table r k1 k2 L n \<Longrightarrow> (\<And>va. page_aligned va \<Longrightarrow> va < MAXVA \<Longrightarrow> L va = L' va) \<Longrightarrow> upd_table r k1 k2 L' n"
  by (auto simp: upd_table_def)

definition page_entry :: "u64 \<Rightarrow> u64 \<Rightarrow> u64" where
  "page_entry pa perm = PA2PTE pa OR perm OR PTE_V"

text \<open>The table after mapping the pages \<open>k, ..., k + n\<close> to the memory at \<open>pa\<close>.\<close>

definition with_range :: "(u64 \<Rightarrow> u64) \<Rightarrow> nat \<Rightarrow> nat \<Rightarrow> u64 \<Rightarrow> u64 \<Rightarrow> u64 \<Rightarrow> u64" where
  "with_range L k n pa perm va =
     (if k \<le> unat va div 4096 \<and> unat va div 4096 \<le> k + n then page_entry (pa + (va - vpage k)) perm else L va)"

lemma page_of_aligned: "page_aligned va \<Longrightarrow> va < MAXVA \<Longrightarrow> va = vpage (unat va div 4096)"
proof -
  assume a: "page_aligned va" "va < MAXVA"
  then have "unat va div 4096 \<le> 0x4000000" by (simp add: word_less_nat_alt unat_MAXVA)
  then have "unat (vpage (unat va div 4096)) = unat va" using page_aligned_unat_eq [OF a(1)] by (simp add: unat_vpage)
  then show "va = vpage (unat va div 4096)" by (simp add: word_unat_eq_iff)
qed

lemma map_range:
  assumes "kalloc_ok km" "forest km {r}" "k + n < 0x4000000"
    and "\<And>j. k \<le> j \<Longrightarrow> j \<le> k + n \<Longrightarrow> leaf (mem km) r (vpage j) AND PTE_V = 0"
    and "table_cost km r (vpage k) + 2 * ((k + n) div 512 - k div 512) \<le> card (free_pages km)"
  shows "\<exists>km'. mappages_loop r (vpage k) (vpage (k + n)) pa perm km = Ok (0, km') \<and>
    upd_table r km km' (with_range (leaf (mem km) r) k n pa perm) (table_cost km r (vpage k) + 2 * ((k + n) div 512 - k div 512))"
  using assms
proof (induction n arbitrary: k pa km)
  case (0 k pa km)
  obtain km' where s: "mappages_loop r (vpage k) (vpage k) pa perm km = Ok (0, km')"
    "upd_leaf {r} km km' r (vpage k) (PA2PTE pa OR perm OR PTE_V)"
    "card (free_pages km) \<le> card (free_pages km') + table_cost km r (vpage k)"
    using map_page [OF 0(1,2), of r "vpage k" "vpage k" pa perm] 0(3-5) by (auto simp: page_aligned_vpage vpage_below)
  have "upd_table r km km' (with_range (leaf (mem km) r) k 0 pa perm) (table_cost km r (vpage k))"
  proof (rule upd_table_cong [OF upd_table_leaf [OF s(2,3)]])
    fix va :: u64 assume va: "page_aligned va" "va < MAXVA"
    have "va = vpage k \<longleftrightarrow> unat va div 4096 = k"
      using page_of_aligned [OF va] 0(3) by (auto simp: unat_vpage)
    then show "((leaf (mem km) r)(vpage k := PA2PTE pa OR perm OR PTE_V)) va = with_range (leaf (mem km) r) k 0 pa perm va"
      by (auto simp: with_range_def page_entry_def)
  qed
  then show ?case using s(1) by simp
next
  case (Suc n k pa km)
  have ne: "vpage k \<noteq> vpage (k + Suc n)"
    using unat_vpage [of k] unat_vpage [of "k + Suc n"] Suc.prems(3) by (auto simp: word_unat_eq_iff)
  obtain k1 where s: "mappages_loop r (vpage k) (vpage (k + Suc n)) pa perm km =
      mappages_loop r (vpage (Suc k)) (vpage (Suc k + n)) (pa + PGSIZE) perm k1"
    "upd_leaf {r} km k1 r (vpage k) (PA2PTE pa OR perm OR PTE_V)" "tab (mem k1) (vpath (vpage k)) r \<noteq> None"
    "card (free_pages km) \<le> card (free_pages k1) + table_cost km r (vpage k)"
    using map_page [OF Suc.prems(1,2), of r "vpage k" "vpage (k + Suc n)" pa perm] Suc.prems(3-5) ne
    by (auto simp: page_aligned_vpage vpage_below vpage_Suc)
  have c: "table_cost k1 r (vpage (Suc k)) + 2 * ((Suc k + n) div 512 - Suc k div 512) \<le> 2 * ((k + Suc n) div 512 - k div 512)"
  proof (cases "Suc k div 512 = k div 512")
    case True
    then have "vpath (vpage (Suc k)) = vpath (vpage k)" using Suc.prems(3) by (intro vpath_vpage) auto
    then show ?thesis using s(3) True by (simp add: table_cost_def)
  next
    case False
    then have "Suc k div 512 = Suc (k div 512)" by (simp add: div_Suc split: if_splits)
    moreover have "Suc k div 512 \<le> (Suc k + n) div 512" by (rule div_le_mono) simp
    then obtain d where "(Suc k + n) div 512 = Suc k div 512 + d" using le_Suc_ex by blast
    moreover have "table_cost k1 r (vpage (Suc k)) \<le> 2" by (simp add: table_cost_def)
    ultimately show ?thesis by simp
  qed
  have lf: "leaf (mem k1) r (vpage j) = leaf (mem km) r (vpage j)" if "Suc k \<le> j" "j \<le> Suc k + n" for j
  proof -
    have "vpage j \<noteq> vpage k" using that Suc.prems(3) unat_vpage [of j] unat_vpage [of k] by (auto simp: word_unat_eq_iff)
    then show ?thesis
      using s(2) page_aligned_vpage [of j] vpage_below [of j] that Suc.prems(3) by (simp add: upd_leaf_def)
  qed
  have "\<exists>km'. mappages_loop r (vpage (Suc k)) (vpage (Suc k + n)) (pa + PGSIZE) perm k1 = Ok (0, km') \<and>
      upd_table r k1 km' (with_range (leaf (mem k1) r) (Suc k) n (pa + PGSIZE) perm)
        (table_cost k1 r (vpage (Suc k)) + 2 * ((Suc k + n) div 512 - Suc k div 512))"
  proof (rule Suc.IH)
    show "kalloc_ok k1" "forest k1 {r}" using s(2) by (simp_all add: upd_leaf_def)
    show "leaf (mem k1) r (vpage j) AND PTE_V = 0" if "Suc k \<le> j" "j \<le> Suc k + n" for j
      using Suc.prems(4) [of j] lf [OF that] that by simp
  qed (use Suc.prems(3,5) s(4) c in auto)
  then obtain km' where r: "mappages_loop r (vpage (Suc k)) (vpage (Suc k + n)) (pa + PGSIZE) perm k1 = Ok (0, km')"
    and u: "upd_table r k1 km' (with_range (leaf (mem k1) r) (Suc k) n (pa + PGSIZE) perm)
        (table_cost k1 r (vpage (Suc k)) + 2 * ((Suc k + n) div 512 - Suc k div 512))" by blast
  have "upd_table r km km' (with_range (leaf (mem k1) r) (Suc k) n (pa + PGSIZE) perm)
      (table_cost km r (vpage k) + 2 * ((k + Suc n) div 512 - k div 512))"
    by (rule upd_table_mono [OF upd_table_trans [OF upd_table_leaf [OF s(2,4)] u]]) (use c in simp)
  then have "upd_table r km km' (with_range (leaf (mem km) r) k (Suc n) pa perm)
      (table_cost km r (vpage k) + 2 * ((k + Suc n) div 512 - k div 512))"
  proof (rule upd_table_cong)
    fix va :: u64 assume va: "page_aligned va" "va < MAXVA"
    let ?j = "unat va div 4096"
    note vj = page_of_aligned [OF va]
    have l: "leaf (mem k1) r va = (if va = vpage k then page_entry pa perm else leaf (mem km) r va)"
      using s(2) va by (simp add: upd_leaf_def page_entry_def)
    have e: "va = vpage k \<longleftrightarrow> ?j = k" using vj Suc.prems(3) by (auto simp: unat_vpage)
    have st: "pa + PGSIZE + (va - vpage (Suc k)) = pa + (va - vpage k)" by (simp flip: vpage_Suc)
    then show "with_range (leaf (mem k1) r) (Suc k) n (pa + PGSIZE) perm va = with_range (leaf (mem km) r) k (Suc n) pa perm va"
      using l e unfolding with_range_def st by auto
  qed
  then show ?case using s(1) r by auto
qed

lemma range_end: "k + n < 0x4000000 \<Longrightarrow> PGROUNDDOWN (vpage k + of_nat (4096 * (n + 1)) - 1) = vpage (k + n)"
proof -
  assume b: "k + n < 0x4000000"
  have "unat (vpage k + of_nat (4096 * (n + 1)) - 1) = 4096 * k + 4096 * n + 4095"
  proof -
    have "vpage k + of_nat (4096 * (n + 1)) - 1 = of_nat (4096 * k + 4096 * n + 4095)" by (simp add: vpage_def algebra_simps)
    then show ?thesis using b by (simp add: unat_of_nat64 del: of_nat_add of_nat_mult)
  qed
  moreover have "(4096 * k + 4096 * n + 4095) div 4096 = k + n" by (rule div_nat_eqI) simp_all
  ultimately have "unat (PGROUNDDOWN (vpage k + of_nat (4096 * (n + 1)) - 1)) = unat (vpage (k + n))"
    using b unfolding unat_PGROUNDDOWN by (simp add: unat_vpage)
  then show ?thesis by (simp add: word_unat_eq_iff)
qed

lemma kvmmap_range:
  assumes u: "upd_table r k0 km L c" and b: "k + n < 0x4000000"
    and free: "\<And>j. k \<le> j \<Longrightarrow> j \<le> k + n \<Longrightarrow> L (vpage j) AND PTE_V = 0"
    and c: "c + 2 * ((k + n) div 512 - k div 512 + 1) \<le> c'" "c' \<le> card (free_pages k0)"
  shows "\<exists>km'. kvmmap r (vpage k) pa (of_nat (4096 * (n + 1))) perm km = Ok km' \<and>
    upd_table r k0 km' (with_range L k n pa perm) c'"
proof -
  have tc: "table_cost km r (vpage k) + 2 * ((k + n) div 512 - k div 512) \<le> 2 * ((k + n) div 512 - k div 512 + 1)"
    by (simp add: table_cost_def)
  have lf: "leaf (mem km) r va = L va" if "page_aligned va" "va < MAXVA" for va
    using u that by (simp add: upd_table_def)
  have "leaf (mem km) r (vpage j) AND PTE_V = 0" if "k \<le> j" "j \<le> k + n" for j
    using free [OF that] lf [of "vpage j"] that b by (simp add: page_aligned_vpage vpage_below)
  moreover have "table_cost km r (vpage k) + 2 * ((k + n) div 512 - k div 512) \<le> card (free_pages km)"
    using u tc c unfolding upd_table_def by linarith
  ultimately obtain km' where r: "mappages_loop r (vpage k) (vpage (k + n)) pa perm km = Ok (0, km')"
    and m: "upd_table r km km' (with_range (leaf (mem km) r) k n pa perm) (table_cost km r (vpage k) + 2 * ((k + n) div 512 - k div 512))"
    using map_range [of km r k n pa perm] u b by (auto simp: upd_table_def)
  have sz: "of_nat (4096 * (n + 1)) \<noteq> (0 :: u64)"
    using b unat_of_nat64 [of "4096 * (n + 1)"] by (auto simp del: of_nat_mult)
  have "PGROUNDDOWN (vpage k) = vpage k" using b by (intro PGROUNDDOWN_id page_aligned_vpage) simp
  then have "kvmmap r (vpage k) pa (of_nat (4096 * (n + 1))) perm km = Ok km'"
    using r sz unfolding kvmmap_def mappages_def range_end [OF b] by (simp del: of_nat_mult)
  moreover have "upd_table r k0 km' (with_range (leaf (mem km) r) k n pa perm) c'"
    by (rule upd_table_mono [OF upd_table_trans [OF u m]]) (use tc c in linarith)
  then have "upd_table r k0 km' (with_range L k n pa perm) c'"
    by (rule upd_table_cong) (simp add: with_range_def lf)
  ultimately show ?thesis by blast
qed

section \<open>The kernel stacks\<close>

lemma kalloc_data:
  assumes u: "upd_table r k0 km L c" and c: "c < card (free_pages k0)"
  shows "\<exists>a k1. kalloc km = (a, k1) \<and> a \<noteq> 0 \<and> phys_page km a \<and> refs km a = 0 \<and> upd_table r k0 k1 L (c + 1) \<and> data_page k1 {r} a"
proof -
  have ok: "kalloc_ok km" "forest km {r}" "card (free_pages k0) \<le> card (free_pages km) + c"
    using u by (simp_all add: upd_table_def)
  obtain xs where xs: "kmem_inv km xs" using ok(1) by (auto simp: kalloc_ok_def)
  have "free_pages km = set xs" using xs by (auto simp: free_pages_def kmem_inv_def)
  moreover have "free_pages km \<noteq> {}" using ok(3) c by auto
  ultimately obtain a as where a: "xs = a # as" by (cases xs) auto
  obtain k1 where k1: "kalloc km = (a, k1)" "kmem_inv k1 as" "a \<noteq> 0" "phys_page km a"
      "pte_count k1 = (pte_count km)(a div PGSIZE := 1)" "kend k1 = kend km"
      "\<And>x. mem k1 x = (if in_page a x then 5 else mem km x)"
    using kalloc_Cons xs a by blast
  have ra: "refs km a = 0" using xs a by (auto simp: kmem_inv_def)
  have na: "\<not> owned km {r} a" using ok(2) ra unfolding forest_def by fastforce
  have al: "page_aligned a" using k1(4) by (simp add: phys_page_def)
  have rc: "refs k1 b = (if b = a then 1 else refs km b)" if "phys_page km b" for b
    using that k1(4,5) by (simp add: refs_upd)
  have ph: "phys_page k1 = phys_page km" using k1(6) by (rule phys_page_fun)
  note fr = forest_frame [OF ok(2) al na, of k1]
  have f1: "forest k1 {r}" "owned k1 {r} = owned km {r}" "\<And>va. leaf (mem k1) r va = leaf (mem km) r va"
    using fr(1,3,4) k1(6,7) rc by simp_all
  have "free_pages k1 = free_pages km - {a}" using rc ph by (auto simp: free_pages_def split: if_splits)
  then have cf: "card (free_pages km) \<le> card (free_pages k1) + 1"
    using ra k1(4) by (cases "a \<in> free_pages km") (simp_all add: card_Diff_singleton)
  have "upd_table r km k1 L 1"
    using k1(2,6) f1 rc ra cf u ph unfolding upd_table_def data_page_def by (auto simp: kalloc_ok_def)
  moreover have "data_page k1 {r} a" using k1(4) rc f1(2) na ph by (simp add: data_page_def)
  ultimately show ?thesis using k1(1,3,4) ra upd_table_trans [OF u] by blast
qed

text \<open>The table \<open>L\<close> with the stacks of the first \<open>n\<close> processes.\<close>

definition with_stacks :: "(u64 \<Rightarrow> u64) \<Rightarrow> (nat \<Rightarrow> u64) \<Rightarrow> nat \<Rightarrow> u64 \<Rightarrow> u64" where
  "with_stacks L stack n va =
     (case find (\<lambda>p. va = KSTACK (of_nat p)) [0..<n] of Some p \<Rightarrow> page_entry (stack p) (PTE_R OR PTE_W) | None \<Rightarrow> L va)"

lemma find_snoc: "find P (xs @ [y]) = (case find P xs of Some x \<Rightarrow> Some x | None \<Rightarrow> if P y then Some y else None)"
  by (induction xs) auto

definition stack_page :: "nat \<Rightarrow> nat" where
  "stack_page p = 0x3FFFFFF - 2 * (p + 1)"

lemma KSTACK_page: "p < 64 \<Longrightarrow> KSTACK (of_nat p) = vpage (stack_page p)"
proof -
  assume p: "p < 64"
  have "KSTACK (of_nat p) = of_nat 0x3FFFFFF * 4096 - of_nat (2 * (p + 1)) * 4096"
    by (simp add: KSTACK_def TRAMPOLINE_def MAXVA_def PGSIZE_def push_bit_eq_mult algebra_simps)
  also have "\<dots> = of_nat (0x3FFFFFF - 2 * (p + 1)) * 4096"
    using p by (subst of_nat_diff) (simp_all add: algebra_simps)
  finally show ?thesis by (simp add: vpage_def stack_page_def mult.commute)
qed

lemma KSTACK_inj: "p < 64 \<Longrightarrow> q < 64 \<Longrightarrow> KSTACK (of_nat p) = KSTACK (of_nat q) \<longleftrightarrow> p = q"
  using unat_vpage [of "stack_page p"] unat_vpage [of "stack_page q"]
  by (auto simp: KSTACK_page word_unat_eq_iff stack_page_def)

lemma mapstacks:
  assumes "upd_table r k0 km (with_stacks L stack p) c" "p + m \<le> 64" "c + 3 * m \<le> card (free_pages k0)"
    and "\<And>q. q < 64 \<Longrightarrow> L (KSTACK (of_nat q)) AND PTE_V = 0"
    and "\<And>q. q < p \<Longrightarrow> data_page km {r} (stack q)" "inj_on stack {..<p}"
  shows "\<exists>km' stack'. proc_mapstacks_loop [p..<p + m] r km = Ok km' \<and>
    upd_table r k0 km' (with_stacks L stack' (p + m)) (c + 3 * m) \<and>
    (\<forall>q<p + m. data_page km' {r} (stack' q)) \<and> inj_on stack' {..<p + m}"
  using assms
proof (induction m arbitrary: km stack p c)
  case 0
  then show ?case by auto
next
  case (Suc m)
  note u = Suc.prems(1)
  have p: "p < 64" using Suc.prems(2) by simp
  have room: "c + 3 \<le> card (free_pages k0)" "card (free_pages k0) \<le> card (free_pages km) + c"
    using Suc.prems(3) u by (simp_all add: upd_table_def)
  obtain a k1 where k1: "kalloc km = (a, k1)" "a \<noteq> 0" "phys_page km a" "refs km a = 0"
    "upd_table r km k1 (with_stacks L stack p) (0 + 1)" "data_page k1 {r} a"
    using kalloc_data [OF upd_table_refl [OF u]] room by auto
  let ?s = "stack(p := a)"
  have sp: "stack_page p + 0 < 0x4000000" by (simp add: stack_page_def)
  have new: "find (\<lambda>q. KSTACK (of_nat p) = KSTACK (of_nat q)) [0..<p] = None"
    using KSTACK_inj [OF p] p by (auto simp: find_None_iff)
  have fr: "with_stacks L stack p (vpage j) AND PTE_V = 0" if "stack_page p \<le> j" "j \<le> stack_page p + 0" for j
  proof -
    have "j = stack_page p" using that by simp
    then show ?thesis using new Suc.prems(4) [OF p] by (simp add: with_stacks_def flip: KSTACK_page [OF p])
  qed
  have sz: "of_nat (4096 * (0 + 1)) = PGSIZE" by (simp add: PGSIZE_def)
  have "card (free_pages km) \<le> card (free_pages k1) + 1" using k1(5) by (simp add: upd_table_def)
  then have cc: "0 + 2 * ((stack_page p + 0) div 512 - stack_page p div 512 + 1) \<le> 2" "2 \<le> card (free_pages k1)"
    using room by simp_all
  obtain k2 where k2: "kvmmap r (KSTACK (of_nat p)) a PGSIZE (PTE_R OR PTE_W) k1 = Ok k2"
    "upd_table r k1 k2 (with_range (with_stacks L stack p) (stack_page p) 0 a (PTE_R OR PTE_W)) 2"
    using kvmmap_range [OF upd_table_refl [OF k1(5)] sp fr cc, of a "PTE_R OR PTE_W", unfolded sz] unfolding KSTACK_page [OF p] by auto
  have k02: "upd_table r k0 k2 (with_range (with_stacks L stack p) (stack_page p) 0 a (PTE_R OR PTE_W)) (c + 3)"
    using upd_table_trans [OF upd_table_trans [OF u k1(5)] k2(2)] by (simp add: numeral_3_eq_3)
  have u2: "upd_table r k0 k2 (with_stacks L ?s (Suc p)) (c + 3)"
  proof (rule upd_table_cong [OF k02])
    fix va :: u64 assume va: "page_aligned va" "va < MAXVA"
    have e: "va = KSTACK (of_nat p) \<longleftrightarrow> unat va div 4096 = stack_page p"
      using page_of_aligned [OF va] unat_vpage [of "stack_page p"] unfolding KSTACK_page [OF p]
      by (auto simp: stack_page_def)
    have o: "(case find (\<lambda>q. va = KSTACK (of_nat q)) [0..<p] of Some q \<Rightarrow> page_entry (?s q) (PTE_R OR PTE_W) | None \<Rightarrow> L va) =
        with_stacks L stack p va"
    proof (cases "find (\<lambda>q. va = KSTACK (of_nat q)) [0..<p]")
      case (Some q)
      then have "q < p" by (auto simp: find_Some_iff)
      then show ?thesis using Some by (simp add: with_stacks_def)
    qed (simp add: with_stacks_def)
    show "with_range (with_stacks L stack p) (stack_page p) 0 a (PTE_R OR PTE_W) va = with_stacks L ?s (Suc p) va"
    proof (cases "va = KSTACK (of_nat p)")
      case True
      then have "find (\<lambda>q. va = KSTACK (of_nat q)) [0..<p] = None" using new by simp
      then show ?thesis using True e
        by (simp add: with_range_def with_stacks_def find_snoc) (simp add: KSTACK_page [OF p])
    next
      case False
      then have "with_range (with_stacks L stack p) (stack_page p) 0 a (PTE_R OR PTE_W) va = with_stacks L stack p va"
        using e by (auto simp: with_range_def)
      moreover have "find (\<lambda>q. va = KSTACK (of_nat q)) [0..<Suc p] = find (\<lambda>q. va = KSTACK (of_nat q)) [0..<p]"
        using False by (simp add: find_snoc split: option.splits)
      then have "with_stacks L ?s (Suc p) va = with_stacks L stack p va"
        unfolding with_stacks_def [of L ?s] using o by simp
      ultimately show ?thesis by simp
    qed
  qed
  have dp: "data_page k2 {r} x" if "data_page km {r} x \<or> x = a" for x
    using that k1(5,6) k2(2) by (auto simp: upd_table_def)
  have "a \<noteq> stack q" if "q < p" for q
    using Suc.prems(5) [OF that] k1(4) by (auto simp: data_page_def)
  then have "a \<notin> stack ` {..<p}" by blast
  moreover have "?s ` {..<p} = stack ` {..<p}" "inj_on ?s {..<p} \<longleftrightarrow> inj_on stack {..<p}"
    by (auto simp: inj_on_def)
  ultimately have inj: "inj_on ?s {..<Suc p}" using Suc.prems(6) by (auto simp: lessThan_Suc)
  have "\<exists>km' stack'. proc_mapstacks_loop [Suc p..<Suc p + m] r k2 = Ok km' \<and>
    upd_table r k0 km' (with_stacks L stack' (Suc p + m)) (c + 3 + 3 * m) \<and>
    (\<forall>q<Suc p + m. data_page km' {r} (stack' q)) \<and> inj_on stack' {..<Suc p + m}"
    by (rule Suc.IH [OF u2 _ _ Suc.prems(4) _ inj]) (use Suc.prems(2,3,5) dp in \<open>auto simp: less_Suc_eq\<close>)
  moreover have "[p..<p + Suc m] = p # [Suc p..<Suc p + m]" by (simp add: upt_conv_Cons)
  ultimately show ?case using k1(1,2) k2(1) by (simp add: outcome_simps algebra_simps)
qed

section \<open>kvmmake\<close>

lemma empty_root:
  assumes ok: "kalloc_ok km" and c: "0 < card (free_pages km)"
  shows "\<exists>r k1 k2. kalloc km = (r, k1) \<and> k2 = k1\<lparr>mem := memset (mem k1) r 0 4096\<rparr> \<and> upd_table r km k2 (\<lambda>_. 0) 1"
proof -
  obtain xs where xs: "kmem_inv km xs" using ok by (auto simp: kalloc_ok_def)
  have "free_pages km = set xs" using xs by (auto simp: free_pages_def kmem_inv_def)
  then obtain r as where a: "xs = r # as" using c by (cases xs) auto
  obtain k1 where k1: "kalloc km = (r, k1)" "kmem_inv k1 as" "r \<noteq> 0" "phys_page km r"
      "pte_count k1 = (pte_count km)(r div PGSIZE := 1)" "kend k1 = kend km"
      "\<And>x. mem k1 x = (if in_page r x then 5 else mem km x)"
    using kalloc_Cons xs a by blast
  let ?k2 = "k1\<lparr>mem := memset (mem k1) r 0 4096\<rparr>"
  have rr: "refs km r = 0" using xs a by (auto simp: kmem_inv_def)
  have al: "page_aligned r" using k1(4) by (simp add: phys_page_def)
  have ph: "phys_page k1 = phys_page km" using k1(6) by (rule phys_page_fun)
  have rc: "refs k1 b = (if b = r then 1 else refs km b)" if "phys_page km b" for b
    using that k1(4,5) by (simp add: refs_upd)
  have same: "refs ?k2 = refs k1" "phys_page ?k2 = phys_page k1" by (simp_all add: refs_def phys_page_def fun_eq_iff)
  have m: "mem ?k2 x = (if in_page r x then 0 else mem km x)" for x using k1(7) by (simp add: memset_page)
  have "kalloc_ok ?k2"
    by (rule kalloc_ok_write) (use k1(2,4) rc ph in \<open>auto simp: kalloc_ok_def memset_page split: if_splits\<close>)
  have nt: "next_tab (mem ?k2) r i = None" if "i < 512" for i
    using load64_zero_page [OF al that, of "mem ?k2"] m by (simp add: next_tab_def)
  have tb: "tab (mem ?k2) p r = Some b \<longleftrightarrow> p = [] \<and> b = r" if "tpath p" for p b
    using that nt by (cases p) (auto simp: tab.simps(2) tpath_def)
  have ow: "owned ?k2 {r} b \<longleftrightarrow> b = r" for b
    using tb tpath_simps(1) unfolding owned_def by blast
  have "forest ?k2 {r}" using tb ow k1(4) rc same ph by (auto simp: forest_def)
  moreover have "leaf (mem ?k2) r va = 0" for va
    using tb [OF tpath_vpath] by (cases "tab (mem ?k2) (vpath va) r") (auto simp: leaf_def vpath_def)
  moreover have "free_pages ?k2 = free_pages km - {r}"
    using rc same ph by (auto simp: free_pages_def split: if_splits)
  then have "card (free_pages km) \<le> card (free_pages ?k2) + 1"
    using rr k1(4) by (cases "r \<in> free_pages km") (simp_all add: card_Diff_singleton)
  ultimately have "upd_table r km ?k2 (\<lambda>_. 0) 1"
    using \<open>kalloc_ok ?k2\<close> k1(6) rc rr same ph ow unfolding upd_table_def data_page_def by auto
  then show ?thesis using k1(1) by blast
qed

text \<open>The fixed part of the kernel's address space, and all of it.\<close>

definition fixed_map :: "u64 \<Rightarrow> u64 \<Rightarrow> u64 \<Rightarrow> u64" where
  "fixed_map etext trampoline va =
     (if va = UART0 \<or> va = VIRTIO0 \<or> PLIC \<le> va \<and> va < PLIC + 0x400000 \<or> etext \<le> va \<and> va < PHYSTOP
      then page_entry va (PTE_R OR PTE_W)
      else if KERNBASE \<le> va \<and> va < etext then page_entry va (PTE_R OR PTE_X)
      else if va = TRAMPOLINE then page_entry trampoline (PTE_R OR PTE_X)
      else 0)"

definition kernel_map :: "u64 \<Rightarrow> u64 \<Rightarrow> (nat \<Rightarrow> u64) \<Rightarrow> u64 \<Rightarrow> u64" where
  "kernel_map etext trampoline stack = with_stacks (fixed_map etext trampoline) stack NPROC"

text \<open>Pages enough for the tables and the stacks.\<close>

definition KVM_PAGES :: nat where "KVM_PAGES = 333"

lemma fixed_map_pages:
  assumes e: "etext = vpage e" "0x80000 < e" "e < 0x88000" and va: "page_aligned va" "va < MAXVA"
  shows "with_range (with_range (with_range (with_range (with_range (with_range (\<lambda>_. 0)
      0x10000 0 UART0 (PTE_R OR PTE_W)) 0x10001 0 VIRTIO0 (PTE_R OR PTE_W)) 0xC000 1023 PLIC (PTE_R OR PTE_W))
      0x80000 (e - 0x80001) KERNBASE (PTE_R OR PTE_X)) e (0x87FFF - e) etext (PTE_R OR PTE_W))
      0x3FFFFFF 0 trampoline (PTE_R OR PTE_X) va = fixed_map etext trampoline va"
proof -
  define j where "j = unat va div 4096"
  have j: "unat va = 4096 * j" using page_aligned_unat_eq [OF va(1)] by (simp add: j_def)
  have ue: "unat etext = 4096 * e" using e by (simp add: unat_vpage)
  have c: "va = UART0 \<longleftrightarrow> j = 0x10000" "va = VIRTIO0 \<longleftrightarrow> j = 0x10001" "PLIC \<le> va \<longleftrightarrow> 0xC000 \<le> j"
    "va < PLIC + 0x400000 \<longleftrightarrow> j < 0xC400" "KERNBASE \<le> va \<longleftrightarrow> 0x80000 \<le> j" "va < PHYSTOP \<longleftrightarrow> j < 0x88000"
    "etext \<le> va \<longleftrightarrow> e \<le> j" "va < etext \<longleftrightarrow> j < e" "va = TRAMPOLINE \<longleftrightarrow> j = 0x3FFFFFF"
    using j ue by (auto simp: word_unat_eq_iff word_le_nat_alt word_less_nat_alt UART0_def VIRTIO0_def PLIC_def KERNBASE_def
        PHYSTOP_def TRAMPOLINE_def MAXVA_def PGSIZE_def push_bit_eq_mult)
  have v: "vpage 0x10000 = UART0" "vpage 0x10001 = VIRTIO0" "vpage 0xC000 = PLIC" "vpage 0x80000 = KERNBASE"
    "vpage 0x3FFFFFF = TRAMPOLINE"
    by (simp_all add: vpage_def UART0_def VIRTIO0_def PLIC_def KERNBASE_def TRAMPOLINE_def MAXVA_def PGSIZE_def push_bit_eq_mult)
  have r: "with_range L k n (vpage k) perm va = (if k \<le> j \<and> j \<le> k + n then page_entry va perm else L va)" for L k n perm
    by (simp add: with_range_def j_def)
  have t: "with_range L 0x3FFFFFF 0 trampoline perm va = (if j = 0x3FFFFFF then page_entry trampoline perm else L va)" for L perm
    using c(9) by (auto simp: with_range_def simp flip: j_def v)
  show ?thesis
    unfolding t v [symmetric] e(1) r unfolding v e(1) [symmetric] unfolding fixed_map_def c using e(2,3) by auto
qed

lemma kvm_map:
  assumes "kalloc_ok km" "KVM_PAGES \<le> card (free_pages km)" "page_aligned etext" "KERNBASE < etext" "etext < PHYSTOP"
  shows "\<exists>kpgtbl km' stack. kvmmake etext trampoline km = Ok (kpgtbl, km') \<and>
    (\<forall>va. page_aligned va \<longrightarrow> va < MAXVA \<longrightarrow> leaf (mem km') kpgtbl va = kernel_map etext trampoline stack va) \<and>
    (\<forall>p<NPROC. data_page km' {kpgtbl} (stack p)) \<and> inj_on stack {..<NPROC} \<and> kalloc_ok km' \<and> forest km' {kpgtbl} \<and>
    (\<forall>a. phys_page km a \<longrightarrow> 0 < refs km a \<longrightarrow> refs km' a = refs km a)"
proof -
  define e where "e = unat etext div 4096"
  have "etext < MAXVA" using assms(5) by (simp add: word_less_nat_alt unat_PHYSTOP unat_MAXVA)
  then have ee: "etext = vpage e" unfolding e_def by (rule page_of_aligned [OF assms(3)])
  have ue: "unat etext = 4096 * e" using page_aligned_unat_eq [OF assms(3)] by (simp add: e_def)
  have e: "0x80000 < e" "e < 0x88000"
    using assms(4,5) ue by (simp_all add: word_less_nat_alt unat_PHYSTOP KERNBASE_def)
  have room: "333 \<le> card (free_pages km)" using assms(2) by (simp add: KVM_PAGES_def)
  obtain r k1 k2 where k: "kalloc km = (r, k1)" "k2 = k1\<lparr>mem := memset (mem k1) r 0 4096\<rparr>" "upd_table r km k2 (\<lambda>_. 0) 1"
    using empty_root [OF assms(1)] room by auto
  have v: "vpage 0x10000 = UART0" "vpage 0x10001 = VIRTIO0" "vpage 0xC000 = PLIC" "vpage 0x80000 = KERNBASE"
    "vpage 0x3FFFFFF = TRAMPOLINE"
    by (simp_all add: vpage_def UART0_def VIRTIO0_def PLIC_def KERNBASE_def TRAMPOLINE_def MAXVA_def PGSIZE_def push_bit_eq_mult)
  have s: "of_nat (4096 * (0 + 1)) = PGSIZE" "of_nat (4096 * (1023 + 1)) = (0x400000 :: u64)"
    "of_nat (4096 * (e - 0x80001 + 1)) = etext - KERNBASE" "of_nat (4096 * (0x87FFF - e + 1)) = PHYSTOP - etext"
  proof -
    show "of_nat (4096 * (e - 0x80001 + 1)) = etext - KERNBASE" "of_nat (4096 * (0x87FFF - e + 1)) = PHYSTOP - etext"
      using e by (simp_all add: ee vpage_def of_nat_diff PHYSTOP_def KERNBASE_def algebra_simps)
  qed (simp_all add: PGSIZE_def)
  let ?rw = "PTE_R OR PTE_W" let ?rx = "PTE_R OR PTE_X"
  let ?A = "9 + 2 * ((e - 1) div 512 - 1024 + 1)"
  let ?L1 = "with_range (\<lambda>_. 0) 0x10000 0 UART0 ?rw" let ?L2 = "with_range ?L1 0x10001 0 VIRTIO0 ?rw"
  let ?L3 = "with_range ?L2 0xC000 1023 PLIC ?rw" let ?L4 = "with_range ?L3 0x80000 (e - 0x80001) KERNBASE ?rx"
  let ?L5 = "with_range ?L4 e (0x87FFF - e) etext ?rw" let ?L6 = "with_range ?L5 0x3FFFFFF 0 trampoline ?rx"
  have dv: "(e - 1) div 512 \<le> e div 512" "1024 \<le> (e - 1) div 512" "e div 512 \<le> 1087"
  proof -
    have "0x80000 div 512 \<le> (e - 1) div 512" "e div 512 \<le> 0x87FFF div 512" by (rule div_le_mono, use e in simp)+
    then show "1024 \<le> (e - 1) div 512" "e div 512 \<le> 1087" by simp_all
  qed (rule div_le_mono, simp)
  obtain k3 where m1: "kvmmap r UART0 UART0 PGSIZE ?rw k2 = Ok k3" "upd_table r km k3 ?L1 3"
    using kvmmap_range [where k = "0x10000" and n = "0" and c' = "3" and pa = UART0 and perm = "?rw", OF k(3), unfolded s v] room by auto
  obtain k4 where m2: "kvmmap r VIRTIO0 VIRTIO0 PGSIZE ?rw k3 = Ok k4" "upd_table r km k4 ?L2 5"
    using kvmmap_range [where k = "0x10001" and n = "0" and c' = "5" and pa = VIRTIO0 and perm = "?rw", OF m1(2), unfolded s v] room by (auto simp: with_range_def unat_vpage)
  obtain k5 where m3: "kvmmap r PLIC PLIC 0x400000 ?rw k4 = Ok k5" "upd_table r km k5 ?L3 9"
    using kvmmap_range [where k = "0xC000" and n = "1023" and c' = "9" and pa = PLIC and perm = "?rw", OF m2(2), unfolded s v] room by (auto simp: with_range_def unat_vpage)
  have A: "?A \<le> card (free_pages km)" "e - 1 < 0x4000000" using room dv e by simp_all
  have "0x80000 + (e - 0x80001) = e - 1" using e by simp
  note r4 = kvmmap_range [where k = "0x80000" and n = "e - 0x80001" and c' = "?A" and pa = KERNBASE and perm = "?rx", OF m3(2), unfolded s v this]
  obtain k6 where m4: "kvmmap r KERNBASE KERNBASE (etext - KERNBASE) ?rx k5 = Ok k6" "upd_table r km k6 ?L4 ?A"
    using r4 A e by (auto simp: with_range_def unat_vpage)
  have "e + (0x87FFF - e) = 0x87FFF" using e by simp
  note r5 = kvmmap_range [where k = "e" and n = "0x87FFF - e" and c' = "139" and pa = etext and perm = "?rw", OF m4(2), unfolded s v this, folded ee]
  have c5: "?A + 2 * (0x87FFF div 512 - e div 512 + 1) \<le> 139"
  proof -
    have "9 + 2 * (x - 1024 + 1) + 2 * (1087 - y + 1) \<le> 139" if "x \<le> y" "1024 \<le> x" "y \<le> 1087" for x y :: nat
      using that by arith
    from this [OF dv] show ?thesis by simp
  qed
  have f5: "?L4 (vpage j) AND PTE_V = 0" if "e \<le> j" "j \<le> 0x87FFF" for j
    using that e \<open>0x80000 + (e - 0x80001) = e - 1\<close> by (auto simp add: with_range_def unat_vpage)
  have f6: "?L5 (vpage 0x3FFFFFF) AND PTE_V = 0" using e by (auto simp: with_range_def unat_vpage)
  obtain k7 where m5: "kvmmap r etext etext (PHYSTOP - etext) ?rw k6 = Ok k7" "upd_table r km k7 ?L5 139"
    using r5 room f5 c5 by auto
  obtain k8 where m6: "kvmmap r TRAMPOLINE trampoline PGSIZE ?rx k7 = Ok k8" "upd_table r km k8 ?L6 141"
    using kvmmap_range [where k = "0x3FFFFFF" and n = "0" and c' = "141" and pa = trampoline and perm = "?rx", OF m5(2), unfolded s v] room f6 by (auto simp: v)
  have m7: "upd_table r km k8 (with_stacks (fixed_map etext trampoline) (\<lambda>_. 0) 0) 141"
    by (rule upd_table_cong [OF m6(2)]) (simp add: fixed_map_pages [OF ee e] with_stacks_def)
  have free: "fixed_map etext trampoline (KSTACK (of_nat q)) AND PTE_V = 0" if q: "q < 64" for q
  proof -
    have b: "stack_page q < 0x4000000" "0x88000 \<le> stack_page q" "stack_page q \<noteq> 0x3FFFFFF" using q by (auto simp: stack_page_def)
    then have "fixed_map etext trampoline (vpage (stack_page q)) = ?L6 (vpage (stack_page q))"
      by (intro fixed_map_pages [OF ee e, symmetric] page_aligned_vpage vpage_below) simp_all
    also have "\<dots> = 0" using b e by (auto simp: with_range_def unat_vpage)
    finally show ?thesis by (simp add: KSTACK_page [OF q])
  qed
  obtain k9 stack where m8: "proc_mapstacks_loop [0..<64] r k8 = Ok k9"
    "upd_table r km k9 (with_stacks (fixed_map etext trampoline) stack 64) 333"
    "\<forall>q<64. data_page k9 {r} (stack q)" "inj_on stack {..<64}"
    using mapstacks [OF m7, of 64] room free by auto
  have "kvmmake etext trampoline km = Ok (r, k9)"
    using k(1,2) m1(1) m2(1) m3(1) m4(1) m5(1) m6(1) m8(1)
    by (simp add: kvmmake_def Let_def outcome_simps proc_mapstacks_def NPROC_def)
  then show ?thesis using m8 by (intro exI [of _ r] exI [of _ k9] exI [of _ stack]) (simp add: upd_table_def kernel_map_def NPROC_def)
qed

text \<open>
  C8: when enough pages are free, \<open>kvmmake\<close> returns a page table in which the UART, the disk, the interrupt controller
  and the kernel's memory are mapped to themselves, code read-only and executable, data writable and not executable,
  the trampoline is at its address, each process has a stack on a page of its own between two unmapped pages, and
  nothing else is mapped; the allocator and all pages in use stay intact.
\<close>

theorem kvmmake_builds_the_kernel_map:
  assumes "kalloc_ok km" "KVM_PAGES \<le> card (free_pages km)" "page_aligned etext" "KERNBASE < etext" "etext < PHYSTOP"
  shows "\<exists>kpgtbl km' stack. kvmmake etext trampoline km = Ok (kpgtbl, km') \<and>
    (\<forall>va. page_aligned va \<longrightarrow> va < MAXVA \<longrightarrow> leaf (mem km') kpgtbl va = kernel_map etext trampoline stack va) \<and>
    (\<forall>p<NPROC. data_page km' {kpgtbl} (stack p)) \<and> inj_on stack {..<NPROC} \<and> kalloc_ok km' \<and> forest km' {kpgtbl} \<and>
    (\<forall>a. phys_page km a \<longrightarrow> 0 < refs km a \<longrightarrow> refs km' a = refs km a)"
  by (rule kvm_map [OF assms])

section \<open>After kinit\<close>

lemma kinit_leaves_room:
  assumes "0 < kend km" "kend km \<le> vpage (0x88000 - n)" "n < 0x88000"
  shows "\<exists>km'. kinit km = Ok km' \<and> kalloc_ok km' \<and> kend km' = kend km \<and> n \<le> card (free_pages km')"
proof -
  have "unat (kend km) \<le> 4096 * (0x88000 - n)" using assms(2,3) by (simp add: word_le_nat_alt unat_vpage)
  then have "kend km \<le> PHYSTOP" by (simp add: word_le_nat_alt unat_PHYSTOP)
  then obtain km' xs where k: "kinit km = Ok km'" "kmem_inv km' xs" "kend km' = kend km" "set xs = {a. phys_page km a}"
    using kinit_inv assms(1) by blast
  have "free_pages km' = set xs" using k(2) by (auto simp: free_pages_def kmem_inv_def)
  moreover have "vpage ` {0x88000 - n..<0x88000} \<subseteq> set xs"
    unfolding k(4)
  proof clarsimp
    fix j assume j: "557056 - n \<le> j" "j < 557056"
    then have "vpage (0x88000 - n) \<le> vpage j" by (simp add: word_le_nat_alt unat_vpage)
    then show "phys_page km (vpage j)"
      using j assms(2) by (auto simp: phys_page_def page_aligned_vpage word_less_nat_alt unat_PHYSTOP unat_vpage)
  qed
  moreover have "inj_on vpage {0x88000 - n..<0x88000}"
  proof (rule inj_onI)
    fix i j assume a: "i \<in> {0x88000 - n..<0x88000}" "j \<in> {0x88000 - n..<0x88000}" and e: "vpage i = vpage j"
    have "unat (vpage i) = 4096 * i" "unat (vpage j) = 4096 * j" using a by (simp_all add: unat_vpage)
    then have "4096 * i = 4096 * j" unfolding e by (rule trans [OF sym])
    then show "i = j" by simp
  qed
  then have "card (vpage ` {0x88000 - n..<0x88000}) = n" using assms(3) by (simp add: card_image)
  moreover have "card (vpage ` {0x88000 - n..<0x88000}) \<le> card (set xs)"
    if "vpage ` {0x88000 - n..<0x88000} \<subseteq> set xs"
    by (rule card_mono [OF _ that]) simp
  ultimately have "n \<le> card (free_pages km')" by simp
  then show ?thesis using k by (auto simp: kalloc_ok_def)
qed

definition boot_ram :: kmem where
  "boot_ram = \<lparr>mem = (\<lambda>_. 0), freelist = 0, pte_count = (\<lambda>_. 0), kend = 0x80020000\<rparr>"

theorem kvmmake_builds_the_kernel_map_witness:
  "\<exists>km kpgtbl km'. kinit boot_ram = Ok km \<and> kvmmake 0x80008000 0x80007000 km = Ok (kpgtbl, km') \<and>
    leaf (mem km') kpgtbl UART0 = page_entry UART0 (PTE_R OR PTE_W) \<and> leaf (mem km') kpgtbl 0 = 0"
proof -
  have "kend boot_ram \<le> vpage (0x88000 - 333)" by (simp add: boot_ram_def vpage_def)
  then obtain km where km: "kinit boot_ram = Ok km" "kalloc_ok km" "333 \<le> card (free_pages km)"
    using kinit_leaves_room [of boot_ram 333] by (auto simp: boot_ram_def)
  obtain kpgtbl km' stack where k: "kvmmake 0x80008000 0x80007000 km = Ok (kpgtbl, km')"
    "\<forall>va. page_aligned va \<longrightarrow> va < MAXVA \<longrightarrow> leaf (mem km') kpgtbl va = kernel_map 0x80008000 0x80007000 stack va"
    using kvmmake_builds_the_kernel_map [where km = km and etext = "0x80008000" and trampoline = "0x80007000"] km
    by (auto simp: KVM_PAGES_def page_aligned_def PGSIZE_def KERNBASE_def PHYSTOP_def)
  have s: "find (\<lambda>p. va = KSTACK (of_nat p)) [0..<64] = None" if "unat va < 0x88000000" for va
  proof -
    have "unat (vpage (stack_page p)) = 4096 * stack_page p" for p by (rule unat_vpage) (simp add: stack_page_def)
    then show ?thesis using that by (auto simp: find_None_iff KSTACK_page stack_page_def)
  qed
  have "leaf (mem km') kpgtbl UART0 = kernel_map 0x80008000 0x80007000 stack UART0"
    "leaf (mem km') kpgtbl 0 = kernel_map 0x80008000 0x80007000 stack 0"
    using k(2) by (simp_all add: page_aligned_def UART0_def PGSIZE_def MAXVA_def push_bit_eq_mult)
  moreover have "kernel_map 0x80008000 0x80007000 stack UART0 = page_entry UART0 (PTE_R OR PTE_W)"
    using s [of UART0] by (simp add: kernel_map_def with_stacks_def NPROC_def fixed_map_def UART0_def)
  moreover have "kernel_map 0x80008000 0x80007000 stack 0 = 0"
    using s [of 0] by (simp add: kernel_map_def with_stacks_def NPROC_def fixed_map_def layout_defs push_bit_eq_mult)
  ultimately show ?thesis using km(1) k(1) by metis
qed

end
