(* ===== verification/Start.thy ===== *)
theory Start
  imports Vm_Kernel
begin

text \<open>
  The machine before the kernel runs: the control registers of a hart with the accessors of \<open>riscv.h\<close> that
  \<open>start.c\<close> uses, \<open>start\<close> and \<open>timerinit\<close>, and the initialisation of the interrupt controller (\<open>plic.c\<close>) and
  of paging (\<open>kvminit\<close>, \<open>kvminithart\<close> of \<open>vm.c\<close>). Registers in memory are functions from addresses; \<open>mret\<close>
  and the rule by which the controller delivers interrupts are those of the RISC-V specifications.
\<close>

section \<open>Registers\<close>

datatype privilege = Machine_mode | Supervisor_mode | User_mode

record hart =
  h_id :: u64
  h_tp :: u64
  h_priv :: privilege
  h_pc :: u64
  h_mstatus :: u64
  h_mepc :: u64
  h_satp :: u64
  h_medeleg :: u64
  h_mideleg :: u64
  h_sie :: u64
  h_mie :: u64
  h_mtvec :: u64
  h_mscratch :: u64
  h_pmpaddr0 :: u64
  h_pmpcfg0 :: u64
  h_stvec :: u64
  h_tlb_stale :: bool

definition MSTATUS_MPP_MASK :: u64 where "MSTATUS_MPP_MASK = push_bit 11 3"
definition MSTATUS_MPP_S :: u64 where "MSTATUS_MPP_S = push_bit 11 1"
definition MSTATUS_MIE :: u64 where "MSTATUS_MIE = push_bit 3 1"
definition SIE_SEIE :: u64 where "SIE_SEIE = push_bit 9 1"
definition SIE_STIE :: u64 where "SIE_STIE = push_bit 5 1"
definition SIE_SSIE :: u64 where "SIE_SSIE = push_bit 1 1"
definition MIE_MTIE :: u64 where "MIE_MTIE = push_bit 7 1"
definition CLINT :: u64 where "CLINT = 0x2000000"
definition CLINT_MTIMECMP :: "u64 \<Rightarrow> u64" where "CLINT_MTIMECMP hartid = CLINT + 0x4000 + 8 * hartid"
definition CLINT_MTIME :: u64 where "CLINT_MTIME = CLINT + 0xBFF8"

definition r_mhartid :: "hart \<Rightarrow> u64" where "r_mhartid h = h_id h"
definition r_mstatus :: "hart \<Rightarrow> u64" where "r_mstatus h = h_mstatus h"
definition w_mstatus :: "u64 \<Rightarrow> hart \<Rightarrow> hart" where "w_mstatus x h = h\<lparr>h_mstatus := x\<rparr>"
definition w_mepc :: "u64 \<Rightarrow> hart \<Rightarrow> hart" where "w_mepc x h = h\<lparr>h_mepc := x\<rparr>"
definition w_satp :: "u64 \<Rightarrow> hart \<Rightarrow> hart" where "w_satp x h = h\<lparr>h_satp := x, h_tlb_stale := True\<rparr>"
definition w_medeleg :: "u64 \<Rightarrow> hart \<Rightarrow> hart" where "w_medeleg x h = h\<lparr>h_medeleg := x\<rparr>"
definition w_mideleg :: "u64 \<Rightarrow> hart \<Rightarrow> hart" where "w_mideleg x h = h\<lparr>h_mideleg := x\<rparr>"
definition r_sie :: "hart \<Rightarrow> u64" where "r_sie h = h_sie h"
definition w_sie :: "u64 \<Rightarrow> hart \<Rightarrow> hart" where "w_sie x h = h\<lparr>h_sie := x\<rparr>"
definition r_mie :: "hart \<Rightarrow> u64" where "r_mie h = h_mie h"
definition w_mie :: "u64 \<Rightarrow> hart \<Rightarrow> hart" where "w_mie x h = h\<lparr>h_mie := x\<rparr>"
definition w_mtvec :: "u64 \<Rightarrow> hart \<Rightarrow> hart" where "w_mtvec x h = h\<lparr>h_mtvec := x\<rparr>"
definition w_mscratch :: "u64 \<Rightarrow> hart \<Rightarrow> hart" where "w_mscratch x h = h\<lparr>h_mscratch := x\<rparr>"
definition w_pmpaddr0 :: "u64 \<Rightarrow> hart \<Rightarrow> hart" where "w_pmpaddr0 x h = h\<lparr>h_pmpaddr0 := x\<rparr>"
definition w_pmpcfg0 :: "u64 \<Rightarrow> hart \<Rightarrow> hart" where "w_pmpcfg0 x h = h\<lparr>h_pmpcfg0 := x\<rparr>"
definition w_stvec :: "u64 \<Rightarrow> hart \<Rightarrow> hart" where "w_stvec x h = h\<lparr>h_stvec := x\<rparr>"
definition w_tp :: "u64 \<Rightarrow> hart \<Rightarrow> hart" where "w_tp x h = h\<lparr>h_tp := x\<rparr>"
definition r_tp :: "hart \<Rightarrow> u64" where "r_tp h = h_tp h"
definition sfence_vma :: "hart \<Rightarrow> hart" where "sfence_vma h = h\<lparr>h_tlb_stale := False\<rparr>"

lemmas csr_defs = r_mhartid_def r_mstatus_def w_mstatus_def w_mepc_def w_satp_def w_medeleg_def w_mideleg_def
  r_sie_def w_sie_def r_mie_def w_mie_def w_mtvec_def w_mscratch_def w_pmpaddr0_def w_pmpcfg0_def w_stvec_def
  w_tp_def r_tp_def sfence_vma_def

lemmas csr_bit_defs = MSTATUS_MPP_MASK_def MSTATUS_MPP_S_def MSTATUS_MIE_def SIE_SEIE_def SIE_STIE_def SIE_SSIE_def
  MIE_MTIE_def

text \<open>The return from machine mode: to the mode in \<open>MPP\<close>, at \<open>mepc\<close>; \<open>MIE\<close> becomes \<open>MPIE\<close>.\<close>

definition mret :: "hart \<Rightarrow> hart" where
  "mret h =
     (let mpp = drop_bit 11 (h_mstatus h) AND 3
      in h\<lparr>h_priv := (if mpp = 0 then User_mode else if mpp = 1 then Supervisor_mode else Machine_mode),
           h_pc := h_mepc h,
           h_mstatus := (h_mstatus h AND NOT (push_bit 3 1 OR push_bit 7 1 OR push_bit 11 3)) OR
             (if bit (h_mstatus h) 7 then push_bit 3 1 else 0) OR push_bit 7 1\<rparr>)"

section \<open>start.c\<close>

record boot_machine =
  bm_hart :: hart
  bm_mmio :: "u64 \<Rightarrow> u64"
  timer_scratch :: "nat \<Rightarrow> nat \<Rightarrow> u64"

definition on_hart :: "(hart \<Rightarrow> hart) \<Rightarrow> 'z boot_machine_scheme \<Rightarrow> 'z boot_machine_scheme" where
  "on_hart f m = m\<lparr>bm_hart := f (bm_hart m)\<rparr>"

lemma on_hart_simps [simp]:
  "bm_hart (on_hart f m) = f (bm_hart m)" "bm_mmio (on_hart f m) = bm_mmio m" "timer_scratch (on_hart f m) = timer_scratch m"
  by (simp_all add: on_hart_def)

text \<open>\<open>int id = r_mhartid()\<close>, and its value as an address offset or index.\<close>

definition hart_int :: "hart \<Rightarrow> u64" where
  "hart_int h = scast (ucast (r_mhartid h) :: u32)"

definition timerinit :: "u64 \<Rightarrow> u64 \<Rightarrow> 'z boot_machine_scheme \<Rightarrow> 'z boot_machine_scheme" where
  "timerinit timervec scratch0 m =
     (let id = hart_int (bm_hart m);
          interval = 1000000;
          m = m\<lparr>bm_mmio := (bm_mmio m)(CLINT_MTIMECMP id := bm_mmio m CLINT_MTIME + interval)\<rparr>;
          m = m\<lparr>timer_scratch := (timer_scratch m)
                (unat id := (timer_scratch m (unat id))(3 := CLINT_MTIMECMP id, 4 := interval))\<rparr>;
          m = on_hart (w_mscratch (scratch0 + 40 * id)) m;
          m = on_hart (w_mtvec timervec) m;
          m = on_hart (\<lambda>h. w_mstatus (r_mstatus h OR MSTATUS_MIE) h) m
      in on_hart (\<lambda>h. w_mie (r_mie h OR MIE_MTIE) h) m)"

definition start :: "u64 \<Rightarrow> u64 \<Rightarrow> u64 \<Rightarrow> 'z boot_machine_scheme \<Rightarrow> 'z boot_machine_scheme" where
  "start main timervec scratch0 m =
     (let m = on_hart (\<lambda>h. w_mstatus ((r_mstatus h AND NOT MSTATUS_MPP_MASK) OR MSTATUS_MPP_S) h) m;
          m = on_hart (w_mepc main) m;
          m = on_hart (w_satp 0) m;
          m = on_hart (w_medeleg 0xffff) m;
          m = on_hart (w_mideleg 0xffff) m;
          m = on_hart (\<lambda>h. w_sie (r_sie h OR SIE_SEIE OR SIE_STIE OR SIE_SSIE) h) m;
          m = on_hart (w_pmpaddr0 0x3fffffffffffff) m;
          m = on_hart (w_pmpcfg0 0xf) m;
          m = timerinit timervec scratch0 m;
          m = on_hart (\<lambda>h. w_tp (hart_int h) h) m
      in on_hart mret m)"

lemma bit_three: "bit (3 :: u64) n \<longleftrightarrow> n = 0 \<or> n = 1"
  using bit_mask_iff [of 2 n, where 'a = "64 word"] by (auto simp: mask_eq_exp_minus_1)

lemma bit_three_int: "bit (3 :: int) n \<longleftrightarrow> n = 0 \<or> n = 1"
  using bit_mask_iff [of 2 n, where 'a = int] by (auto simp: mask_eq_exp_minus_1)

lemma mstatus_bits:
  "bit MSTATUS_MPP_MASK n \<longleftrightarrow> n = 11 \<or> n = 12" "bit MSTATUS_MPP_S n \<longleftrightarrow> n = 11" "bit MSTATUS_MIE n \<longleftrightarrow> n = 3"
  unfolding csr_bit_defs bit_push_bit_iff bit_three bit_1_iff by auto

lemma sie_bits:
  "bit SIE_SEIE n \<longleftrightarrow> n = 9" "bit SIE_STIE n \<longleftrightarrow> n = 5" "bit SIE_SSIE n \<longleftrightarrow> n = 1" "bit MIE_MTIE n \<longleftrightarrow> n = 7"
  unfolding csr_bit_defs bit_push_bit_iff bit_1_iff by auto

text \<open>
  After \<open>start\<close> the hart is in \<open>main\<close> in supervisor mode, without paging, with its number in \<open>tp\<close>, all traps
  delegated, all supervisor interrupts and the machine timer enabled; its own timer fires after the interval, its own
  scratch area is set up for \<open>timervec\<close>, those of the other harts are untouched.
\<close>

theorem start_enters_main:
  fixes m :: "'z boot_machine_scheme" and main timervec scratch0 :: u64
  assumes "h_id (bm_hart m) = of_nat i" "i < NCPU"
  defines "m' \<equiv> start main timervec scratch0 m"
  shows "h_priv (bm_hart m') = Supervisor_mode \<and> h_pc (bm_hart m') = main \<and> h_satp (bm_hart m') = 0 \<and>
    h_tp (bm_hart m') = of_nat i \<and> h_medeleg (bm_hart m') = 0xffff \<and> h_mideleg (bm_hart m') = 0xffff \<and>
    (\<forall>n\<in>{1, 5, 9}. bit (h_sie (bm_hart m')) n) \<and> bit (h_mie (bm_hart m')) 7 \<and>
    h_mtvec (bm_hart m') = timervec \<and> h_mscratch (bm_hart m') = scratch0 + 40 * of_nat i \<and>
    bm_mmio m' = (bm_mmio m)(CLINT_MTIMECMP (of_nat i) := bm_mmio m CLINT_MTIME + 1000000) \<and>
    timer_scratch m' i 3 = CLINT_MTIMECMP (of_nat i) \<and> timer_scratch m' i 4 = 1000000 \<and>
    (\<forall>j. j \<noteq> i \<longrightarrow> timer_scratch m' j = timer_scratch m j)"
proof -
  have i: "i < 8" using assms(2) by (simp add: NCPU_def)
  have "hart_int (bm_hart m) = of_nat i"
  proof -
    have "i \<in> {0, 1, 2, 3, 4, 5, 6, 7}" using i by auto
    then show ?thesis using assms(1) by (auto simp: hart_int_def r_mhartid_def)
  qed
  moreover have "unat (of_nat i :: u64) = i" using i by (simp add: unat_of_nat64)
  moreover have "drop_bit 11 ((w AND NOT MSTATUS_MPP_MASK) OR MSTATUS_MPP_S OR MSTATUS_MIE) AND 3 = (1 :: u64)" for w
    by (rule bit_word_eqI) (auto simp: bit_simps mstatus_bits bit_1_iff bit_three_int)
  ultimately show ?thesis
    unfolding m'_def start_def timerinit_def Let_def
    by (simp add: csr_defs mret_def hart_int_def Let_def sie_bits bit_or_iff or.assoc)
qed

section \<open>plic.c\<close>

type_synonym plic_regs = "u64 \<Rightarrow> u32"

definition PLIC_SENABLE :: "u64 \<Rightarrow> u64" where "PLIC_SENABLE hart = PLIC + 0x2080 + hart * 0x100"
definition PLIC_SPRIORITY :: "u64 \<Rightarrow> u64" where "PLIC_SPRIORITY hart = PLIC + 0x201000 + hart * 0x2000"

definition plicinit :: "plic_regs \<Rightarrow> plic_regs" where
  "plicinit r = r(PLIC + ucast UART0_IRQ * 4 := 1, PLIC + ucast VIRTIO0_IRQ * 4 := 1)"

definition plicinithart :: "nat \<Rightarrow> plic_regs \<Rightarrow> plic_regs" where
  "plicinithart hart r =
     r(PLIC_SENABLE (of_nat hart) := push_bit (unat UART0_IRQ) 1 OR push_bit (unat VIRTIO0_IRQ) 1,
       PLIC_SPRIORITY (of_nat hart) := 0)"

text \<open>
  The controller delivers an interrupt to a hart if it is enabled for it and its priority is above the hart's
  threshold (for the interrupts in the first of the enable registers).
\<close>

definition plic_delivers :: "plic_regs \<Rightarrow> nat \<Rightarrow> nat \<Rightarrow> bool" where
  "plic_delivers r hart irq \<longleftrightarrow>
     r (PLIC_SPRIORITY (of_nat hart)) < r (PLIC + of_nat irq * 4) \<and> bit (r (PLIC_SENABLE (of_nat hart))) irq"

definition plic_priorities :: "plic_regs \<Rightarrow> bool" where
  "plic_priorities r \<longleftrightarrow> (\<forall>irq<32. 0 < irq \<longrightarrow> r (PLIC + of_nat irq * 4) = (if irq = 10 \<or> irq = 1 then 1 else 0))"

definition plic_hart :: "plic_regs \<Rightarrow> nat \<Rightarrow> bool" where
  "plic_hart r hart \<longleftrightarrow> r (PLIC_SENABLE (of_nat hart)) = push_bit 10 1 OR push_bit 1 1 \<and> r (PLIC_SPRIORITY (of_nat hart)) = 0"

lemma plic_addresses:
  assumes "i < NCPU"
  shows "unat (PLIC_SENABLE (of_nat i)) = 0xC002080 + i * 0x100" "unat (PLIC_SPRIORITY (of_nat i)) = 0xC201000 + i * 0x2000"
proof -
  have i: "i < 8" using assms by (simp add: NCPU_def)
  have "PLIC_SENABLE (of_nat i) = of_nat (0xC002080 + i * 0x100)" "PLIC_SPRIORITY (of_nat i) = of_nat (0xC201000 + i * 0x2000)"
    by (simp_all add: PLIC_SENABLE_def PLIC_SPRIORITY_def PLIC_def)
  then show "unat (PLIC_SENABLE (of_nat i)) = 0xC002080 + i * 0x100" "unat (PLIC_SPRIORITY (of_nat i)) = 0xC201000 + i * 0x2000"
    using i by (simp_all add: unat_of_nat64 del: of_nat_add of_nat_mult)
qed

lemma plic_priority_address: "irq < 32 \<Longrightarrow> unat (PLIC + of_nat irq * 4) = 0xC000000 + irq * 4"
proof -
  assume i: "irq < 32"
  have "PLIC + of_nat irq * 4 = of_nat (0xC000000 + irq * 4)" by (simp add: PLIC_def)
  then show ?thesis using i by (simp add: unat_of_nat64 del: of_nat_add of_nat_mult)
qed

lemma plic_delivers_devices:
  assumes "plic_priorities r" "plic_hart r hart" "0 < irq" "irq < 32"
  shows "plic_delivers r hart irq \<longleftrightarrow> irq = unat UART0_IRQ \<or> irq = unat VIRTIO0_IRQ"
  using assms by (auto simp: plic_delivers_def plic_priorities_def plic_hart_def UART0_IRQ_def VIRTIO0_IRQ_def bit_or_iff
      bit_push_bit_iff bit_1_iff)

lemma plicinit_ok:
  assumes "\<forall>irq<32. 0 < irq \<longrightarrow> r (PLIC + of_nat irq * 4) = 0"
  shows "plic_priorities (plicinit r)"
proof -
  have "PLIC + of_nat irq * 4 = PLIC + of_nat j * 4 \<longleftrightarrow> irq = j" if "irq < 32" "j < 32" for irq j
    using plic_priority_address [OF that(1)] plic_priority_address [OF that(2)] by (auto simp: word_unat_eq_iff)
  from this [of _ 10] this [of _ 1] show ?thesis
    using assms by (auto simp: plic_priorities_def plicinit_def UART0_IRQ_def VIRTIO0_IRQ_def)
qed

lemma plicinithart_ok:
  assumes "hart < NCPU"
  shows "plic_hart (plicinithart hart r) hart"
    and "h < NCPU \<Longrightarrow> plic_hart r h \<Longrightarrow> plic_hart (plicinithart hart r) h"
    and "plic_priorities r \<Longrightarrow> plic_priorities (plicinithart hart r)"
    and "irq < 32 \<Longrightarrow> plicinithart hart r (PLIC + of_nat irq * 4) = r (PLIC + of_nat irq * 4)"
proof -
  note a = plic_addresses [OF assms]
  have ne: "PLIC_SENABLE (of_nat h) \<noteq> PLIC_SPRIORITY (of_nat hart)" if "h < NCPU" for h
    using plic_addresses(1) [OF that] a(2) that by (auto simp: word_unat_eq_iff NCPU_def)
  show self: "plic_hart (plicinithart hart r) hart"
    using ne [OF assms] by (simp add: plic_hart_def plicinithart_def UART0_IRQ_def VIRTIO0_IRQ_def)
  show "plic_hart (plicinithart hart r) h" if "h < NCPU" "plic_hart r h"
  proof (cases "h = hart")
    case False
    note b = plic_addresses [OF that(1)]
    have "PLIC_SENABLE (of_nat h) \<noteq> PLIC_SENABLE (of_nat hart)" "PLIC_SPRIORITY (of_nat h) \<noteq> PLIC_SPRIORITY (of_nat hart)"
      "PLIC_SPRIORITY (of_nat h) \<noteq> PLIC_SENABLE (of_nat hart)"
      using a b False assms that(1) by (auto simp: word_unat_eq_iff NCPU_def)
    then show ?thesis using that ne [OF that(1)] by (simp add: plic_hart_def plicinithart_def)
  qed (use self in simp)
  show p: "plicinithart hart r (PLIC + of_nat irq * 4) = r (PLIC + of_nat irq * 4)" if "irq < 32" for irq
    using plic_priority_address [OF that] a that by (auto simp: plicinithart_def word_unat_eq_iff)
  show "plic_priorities r \<Longrightarrow> plic_priorities (plicinithart hart r)"
    using p by (simp add: plic_priorities_def)
qed

section \<open>kvminit, kvminithart\<close>

text \<open>The new value of the global \<open>kernel_pagetable\<close>, and switching a hart to it.\<close>

definition kvminit :: "u64 \<Rightarrow> u64 \<Rightarrow> kmem \<Rightarrow> (u64 \<times> kmem) outcome" where
  "kvminit etext trampoline km = kvmmake etext trampoline km"

definition kvminithart :: "u64 \<Rightarrow> hart \<Rightarrow> hart" where
  "kvminithart kernel_pagetable h = sfence_vma (w_satp (MAKE_SATP kernel_pagetable) (sfence_vma h))"

end
