(* ===== verification/Boot.thy ===== *)
theory Boot
  imports Start
begin

text \<open>
  \<open>main.c\<close>: every hart runs \<open>main\<close>; hart 0 initialises the kernel and then sets \<open>started\<close>, the others wait for it.
  The harts are interleaved call by call. \<open>kinit\<close>, \<open>kvminit\<close> and the routines that set a hart up have
  their effect; \<open>virtio_disk_init\<close> and \<open>userinit\<close> may allocate pages and write to them; the other routines
  touch none of this state, and only the order of their calls is kept.
\<close>

section \<open>The program\<close>

datatype routine =
  Consoleinit | Printfinit | Printf_boot | Kinit | Kvminit | Kvminithart | Procinit | Trapinit | Trapinithart |
  Plicinit | Plicinithart | Binit | Iinit | Fileinit | Virtio_disk_init | Userinit

datatype main_stmt = Do routine | Set_started | While_not_started

definition init_calls :: "routine list" where
  "init_calls = [Consoleinit, Printfinit, Printf_boot, Printf_boot, Printf_boot, Kinit, Kvminit, Kvminithart, Procinit,
     Trapinit, Trapinithart, Plicinit, Plicinithart, Binit, Iinit, Fileinit, Virtio_disk_init, Userinit]"

text \<open>What is left of \<open>main\<close> before the call of \<open>scheduler\<close>.\<close>

definition main_code :: "nat \<Rightarrow> main_stmt list" where
  "main_code hart =
     (if hart = 0 then map Do init_calls @ [Set_started]
      else [While_not_started, Do Printf_boot, Do Kvminithart, Do Trapinithart, Do Plicinithart])"

record boot =
  bt_code :: "nat \<Rightarrow> main_stmt list"
  bt_started :: bool
  bt_calls :: "(nat \<times> routine) list"
  bt_km :: kmem
  kernel_pagetable :: u64
  bt_plic :: plic_regs
  bt_hart :: "nat \<Rightarrow> hart"

text \<open>The addresses \<open>etext\<close>, \<open>trampoline\<close> and \<open>kernelvec\<close> are arguments.\<close>

inductive run_call :: "u64 \<Rightarrow> u64 \<Rightarrow> u64 \<Rightarrow> nat \<Rightarrow> routine \<Rightarrow> boot \<Rightarrow> boot \<Rightarrow> bool"
  for etext trampoline kernelvec :: u64 where
  kinit: "kinit (bt_km s) = Ok km \<Longrightarrow> run_call etext trampoline kernelvec h Kinit s (s\<lparr>bt_km := km\<rparr>)"
| kvminit: "kvminit etext trampoline (bt_km s) = Ok (k, km) \<Longrightarrow>
    run_call etext trampoline kernelvec h Kvminit s (s\<lparr>kernel_pagetable := k, bt_km := km\<rparr>)"
| kvminithart: "run_call etext trampoline kernelvec h Kvminithart s
    (s\<lparr>bt_hart := (bt_hart s)(h := kvminithart (kernel_pagetable s) (bt_hart s h))\<rparr>)"
| trapinithart: "run_call etext trampoline kernelvec h Trapinithart s
    (s\<lparr>bt_hart := (bt_hart s)(h := w_stvec kernelvec (bt_hart s h))\<rparr>)"
| plicinit: "run_call etext trampoline kernelvec h Plicinit s (s\<lparr>bt_plic := plicinit (bt_plic s)\<rparr>)"
| plicinithart: "run_call etext trampoline kernelvec h Plicinithart s (s\<lparr>bt_plic := plicinithart h (bt_plic s)\<rparr>)"
| uses_memory: "f \<in> {Virtio_disk_init, Userinit} \<Longrightarrow> extends {kernel_pagetable s} (bt_km s) km \<Longrightarrow>
    run_call etext trampoline kernelvec h f s (s\<lparr>bt_km := km\<rparr>)"
| other: "f \<in> {Consoleinit, Printfinit, Printf_boot, Procinit, Trapinit, Binit, Iinit, Fileinit} \<Longrightarrow>
    run_call etext trampoline kernelvec h f s s"

inductive boot_step :: "u64 \<Rightarrow> u64 \<Rightarrow> u64 \<Rightarrow> boot \<Rightarrow> boot \<Rightarrow> bool"
  for etext trampoline kernelvec :: u64 where
  call: "h < NCPU \<Longrightarrow> bt_code s h = Do f # c \<Longrightarrow> run_call etext trampoline kernelvec h f s t \<Longrightarrow>
    boot_step etext trampoline kernelvec s (t\<lparr>bt_code := (bt_code t)(h := c), bt_calls := bt_calls t @ [(h, f)]\<rparr>)"
| set_started: "h < NCPU \<Longrightarrow> bt_code s h = Set_started # c \<Longrightarrow>
    boot_step etext trampoline kernelvec s (s\<lparr>bt_code := (bt_code s)(h := c), bt_started := True\<rparr>)"
| wait_over: "h < NCPU \<Longrightarrow> bt_code s h = While_not_started # c \<Longrightarrow> bt_started s \<Longrightarrow>
    boot_step etext trampoline kernelvec s (s\<lparr>bt_code := (bt_code s)(h := c)\<rparr>)"
| waiting: "h < NCPU \<Longrightarrow> bt_code s h = While_not_started # c \<Longrightarrow> \<not> bt_started s \<Longrightarrow> boot_step etext trampoline kernelvec s s"

text \<open>The state when the harts arrive in \<open>main\<close>: enough memory behind the kernel, the controller after reset.\<close>

definition boot_start :: "u64 \<Rightarrow> boot \<Rightarrow> bool" where
  "boot_start etext s \<longleftrightarrow> bt_code s = main_code \<and> \<not> bt_started s \<and> bt_calls s = [] \<and>
     page_aligned etext \<and> KERNBASE < etext \<and> etext \<le> kend (bt_km s) \<and> kend (bt_km s) \<le> vpage (0x88000 - KVM_PAGES) \<and>
     (\<forall>irq<32. 0 < irq \<longrightarrow> bt_plic s (PLIC + of_nat irq * 4) = 0)"

section \<open>The invariant\<close>

text \<open>The kernel's page table is complete.\<close>

definition kernel_mapped :: "u64 \<Rightarrow> u64 \<Rightarrow> boot \<Rightarrow> bool" where
  "kernel_mapped etext trampoline s \<longleftrightarrow>
     kalloc_ok (bt_km s) \<and> forest (bt_km s) {kernel_pagetable s} \<and>
     (\<exists>stack. \<forall>va. page_aligned va \<longrightarrow> va < MAXVA \<longrightarrow>
        leaf (mem (bt_km s)) (kernel_pagetable s) va = kernel_map etext trampoline stack va)"

definition on_kernel_table :: "boot \<Rightarrow> nat \<Rightarrow> bool" where
  "on_kernel_table s h \<longleftrightarrow> h_satp (bt_hart s h) = MAKE_SATP (kernel_pagetable s) \<and> \<not> h_tlb_stale (bt_hart s h)"

text \<open>After \<open>n\<close> statements of hart 0.\<close>

definition data_inv :: "u64 \<Rightarrow> u64 \<Rightarrow> nat \<Rightarrow> boot \<Rightarrow> bool" where
  "data_inv etext trampoline n s \<longleftrightarrow>
     (n \<le> 5 \<longrightarrow> page_aligned etext \<and> KERNBASE < etext \<and> etext \<le> kend (bt_km s) \<and>
        kend (bt_km s) \<le> vpage (0x88000 - KVM_PAGES)) \<and>
     (n = 6 \<longrightarrow> page_aligned etext \<and> KERNBASE < etext \<and> etext < PHYSTOP \<and> kalloc_ok (bt_km s) \<and>
        KVM_PAGES \<le> card (free_pages (bt_km s))) \<and>
     (7 \<le> n \<longrightarrow> kernel_mapped etext trampoline s) \<and>
     (n \<le> 11 \<longrightarrow> (\<forall>irq<32. 0 < irq \<longrightarrow> bt_plic s (PLIC + of_nat irq * 4) = 0)) \<and>
     (12 \<le> n \<longrightarrow> plic_priorities (bt_plic s))"

text \<open>A hart that calls \<open>kvminithart\<close>, \<open>trapinithart\<close> and \<open>plicinithart\<close> in its statements \<open>a\<close>, \<open>b\<close> and \<open>c\<close>.\<close>

definition hart_inv :: "u64 \<Rightarrow> nat \<Rightarrow> nat \<Rightarrow> nat \<Rightarrow> nat \<Rightarrow> boot \<Rightarrow> nat \<Rightarrow> bool" where
  "hart_inv kernelvec a b c n s h \<longleftrightarrow>
     (a \<le> n \<longrightarrow> on_kernel_table s h) \<and> (b \<le> n \<longrightarrow> h_stvec (bt_hart s h) = kernelvec) \<and> (c \<le> n \<longrightarrow> plic_hart (bt_plic s) h)"

lemma init_nth:
  assumes "n < 18"
  shows "init_calls ! n = Kinit \<longleftrightarrow> n = 5" "init_calls ! n = Kvminit \<longleftrightarrow> n = 6" "init_calls ! n = Kvminithart \<longleftrightarrow> n = 7"
    "init_calls ! n = Trapinithart \<longleftrightarrow> n = 10" "init_calls ! n = Plicinit \<longleftrightarrow> n = 11" "init_calls ! n = Plicinithart \<longleftrightarrow> n = 12"
    "init_calls ! n \<in> {Virtio_disk_init, Userinit} \<longleftrightarrow> n \<in> {16, 17}"
    "init_calls ! n \<in> {Consoleinit, Printfinit, Printf_boot, Procinit, Trapinit, Binit, Iinit, Fileinit} \<longleftrightarrow>
       n \<notin> {5, 6, 7, 10, 11, 12, 16, 17}"
proof -
  have c: "n \<in> set [0..<18]" using assms by simp
  have each: "P n" if "list_all P [0..<18]" for P using c that by (simp only: list_all_iff)
  show "init_calls ! n = Kinit \<longleftrightarrow> n = 5" "init_calls ! n = Kvminit \<longleftrightarrow> n = 6" "init_calls ! n = Kvminithart \<longleftrightarrow> n = 7"
    "init_calls ! n = Trapinithart \<longleftrightarrow> n = 10" "init_calls ! n = Plicinit \<longleftrightarrow> n = 11" "init_calls ! n = Plicinithart \<longleftrightarrow> n = 12"
    "init_calls ! n \<in> {Virtio_disk_init, Userinit} \<longleftrightarrow> n \<in> {16, 17}"
    "init_calls ! n \<in> {Consoleinit, Printfinit, Printf_boot, Procinit, Trapinit, Binit, Iinit, Fileinit} \<longleftrightarrow>
       n \<notin> {5, 6, 7, 10, 11, 12, 16, 17}"
    by (rule each, simp add: upt_rec init_calls_def)+
qed

lemma kinit_ok:
  assumes "KERNBASE < etext" "etext \<le> kend km" "kend km \<le> vpage (0x88000 - KVM_PAGES)" "kinit km = Ok km'"
  shows "etext < PHYSTOP \<and> kalloc_ok km' \<and> KVM_PAGES \<le> card (free_pages km')"
proof -
  have "0 < KERNBASE" by (simp add: KERNBASE_def)
  then have "0 < kend km" using less_le_trans [OF assms(1,2)] by (rule less_trans)
  then have "kalloc_ok km' \<and> KVM_PAGES \<le> card (free_pages km')"
    using kinit_leaves_room [OF _ assms(3)] assms(4) by (auto simp: KVM_PAGES_def)
  moreover have "unat etext \<le> unat (vpage (0x88000 - KVM_PAGES))" using assms(2,3) by (simp add: word_le_nat_alt)
  then have "etext < PHYSTOP" by (simp add: KVM_PAGES_def unat_vpage word_less_nat_alt unat_PHYSTOP)
  ultimately show ?thesis by blast
qed

lemma run_init:
  assumes d: "data_inv etext trampoline n s" and h: "hart_inv kernelvec 8 11 13 n s 0" and n: "n < 18"
    and r: "run_call etext trampoline kernelvec 0 (init_calls ! n) s t"
  shows "data_inv etext trampoline (Suc n) t \<and> hart_inv kernelvec 8 11 13 (Suc n) t 0"
  using r
proof (cases rule: run_call.cases)
  case (kinit km)
  then have "n = 5" using init_nth(1) [OF n] by simp
  then show ?thesis using kinit d h kinit_ok [of etext "bt_km s" km] by (simp add: data_inv_def hart_inv_def)
next
  case (kvminit k km)
  then have n6: "n = 6" using init_nth(2) [OF n] by simp
  then have a: "page_aligned etext" "KERNBASE < etext" "etext < PHYSTOP" "kalloc_ok (bt_km s)" "KVM_PAGES \<le> card (free_pages (bt_km s))"
    using d by (simp_all add: data_inv_def)
  have "kernel_mapped etext trampoline t"
    using kvm_map [OF a(4,5,1,2,3), of trampoline] kvminit by (auto simp: kvminit_def kernel_mapped_def)
  then show ?thesis using n6 d kvminit by (simp add: data_inv_def hart_inv_def)
next
  case kvminithart
  then have "n = 7" using init_nth(3) [OF n] by simp
  then show ?thesis using kvminithart d h
    by (simp add: data_inv_def hart_inv_def on_kernel_table_def kernel_mapped_def kvminithart_def csr_defs)
next
  case trapinithart
  then have "n = 10" using init_nth(4) [OF n] by simp
  then show ?thesis using trapinithart d h
    by (simp add: data_inv_def hart_inv_def on_kernel_table_def kernel_mapped_def csr_defs)
next
  case plicinit
  then have "n = 11" using init_nth(5) [OF n] by simp
  then show ?thesis using plicinit d h plicinit_ok
    by (simp add: data_inv_def hart_inv_def on_kernel_table_def kernel_mapped_def)
next
  case plicinithart
  then have "n = 12" using init_nth(6) [OF n] by simp
  then show ?thesis using plicinithart d h plicinithart_ok(1,3) [of 0]
    by (simp add: data_inv_def hart_inv_def on_kernel_table_def kernel_mapped_def NCPU_def)
next
  case (uses_memory km)
  then have "n \<in> {16, 17}" using init_nth(7) [OF n] by simp
  then have n16: "16 \<le> n" "Suc n \<noteq> 6" "n \<noteq> 5" by auto
  have m: "kernel_mapped etext trampoline s" using d n16(1) by (simp add: data_inv_def)
  have "leaf (mem km) (kernel_pagetable s) va = leaf (mem (bt_km s)) (kernel_pagetable s) va" for va
    using uses_memory(3) by (simp add: extends_def)
  then have "kernel_mapped etext trampoline t"
    using m uses_memory(1,3) by (simp add: kernel_mapped_def extends_def)
  then show ?thesis using uses_memory(1) d h n16 by (simp add: data_inv_def hart_inv_def on_kernel_table_def)
next
  case other
  then have "n \<notin> {5, 6, 7, 10, 11, 12, 16, 17}" using init_nth(8) [OF n] by simp
  then show ?thesis using other d h by (auto simp: data_inv_def hart_inv_def)
qed

text \<open>The other harts' calls.\<close>

definition hart_calls :: "routine list" where
  "hart_calls = [Printf_boot, Kvminithart, Trapinithart, Plicinithart]"

lemma run_hart:
  assumes d: "data_inv etext trampoline 19 s" and h: "hart_inv kernelvec 3 4 5 (Suc n) s h" and n: "n < 4" and hN: "h < NCPU"
    and r: "run_call etext trampoline kernelvec h (hart_calls ! n) s t"
  shows "data_inv etext trampoline 19 t \<and> hart_inv kernelvec 3 4 5 (Suc (Suc n)) t h"
    and "h' \<noteq> h \<Longrightarrow> h' < NCPU \<Longrightarrow> hart_inv kernelvec a b c m s h' \<Longrightarrow> hart_inv kernelvec a b c m t h'"
proof -
  have n4: "n \<in> {0, 1, 2, 3}" using n by auto
  have "(data_inv etext trampoline 19 t \<and> hart_inv kernelvec 3 4 5 (Suc (Suc n)) t h) \<and>
      (h' \<noteq> h \<longrightarrow> h' < NCPU \<longrightarrow> hart_inv kernelvec a b c m s h' \<longrightarrow> hart_inv kernelvec a b c m t h')"
    using r
  proof (cases rule: run_call.cases)
    case kvminithart
    then have "n = 1" using n4 by (auto simp: hart_calls_def)
    then show ?thesis using kvminithart d h
      by (simp add: data_inv_def hart_inv_def on_kernel_table_def kernel_mapped_def kvminithart_def csr_defs)
  next
    case trapinithart
    then have "n = 2" using n4 by (auto simp: hart_calls_def)
    then show ?thesis using trapinithart d h
      by (simp add: data_inv_def hart_inv_def on_kernel_table_def kernel_mapped_def csr_defs)
  next
    case plicinithart
    then have "n = 3" using n4 by (auto simp: hart_calls_def)
    then show ?thesis using plicinithart d h plicinithart_ok(1,2,3) [OF hN]
      by (simp add: data_inv_def hart_inv_def on_kernel_table_def kernel_mapped_def)
  next
    case other
    then have "n = 0" using n4 by (auto simp: hart_calls_def)
    then show ?thesis using other d h by (simp add: data_inv_def hart_inv_def)
  qed (use n4 in \<open>auto simp: hart_calls_def\<close>)
  then show "data_inv etext trampoline 19 t \<and> hart_inv kernelvec 3 4 5 (Suc (Suc n)) t h"
    "h' \<noteq> h \<Longrightarrow> h' < NCPU \<Longrightarrow> hart_inv kernelvec a b c m s h' \<Longrightarrow> hart_inv kernelvec a b c m t h'" by blast+
qed

section \<open>All harts\<close>

definition passed :: "boot \<Rightarrow> nat \<Rightarrow> nat" where
  "passed s h = length (main_code h) - length (bt_code s h)"

definition boot_inv :: "u64 \<Rightarrow> u64 \<Rightarrow> u64 \<Rightarrow> boot \<Rightarrow> bool" where
  "boot_inv etext trampoline kernelvec s \<longleftrightarrow>
     (\<forall>h. \<exists>n\<le>length (main_code h). bt_code s h = drop n (main_code h)) \<and>
     (bt_started s \<longleftrightarrow> passed s 0 = 19) \<and> (\<forall>h. h \<noteq> 0 \<longrightarrow> 0 < passed s h \<longrightarrow> passed s 0 = 19) \<and>
     (\<exists>rest. bt_calls s = map (Pair 0) (take (passed s 0) init_calls) @ rest \<and> (\<forall>c\<in>set rest. fst c \<noteq> 0) \<and>
        (rest \<noteq> [] \<longrightarrow> passed s 0 = 19)) \<and>
     data_inv etext trampoline (passed s 0) s \<and> hart_inv kernelvec 8 11 13 (passed s 0) s 0 \<and>
     (\<forall>h<NCPU. h \<noteq> 0 \<longrightarrow> hart_inv kernelvec 3 4 5 (passed s h) s h)"

lemma boot_invI:
  assumes "\<And>h. \<exists>n\<le>length (main_code h). bt_code s h = drop n (main_code h)" "bt_started s \<longleftrightarrow> passed s 0 = 19"
    and "\<And>h. h \<noteq> 0 \<Longrightarrow> 0 < passed s h \<Longrightarrow> passed s 0 = 19"
    and "bt_calls s = map (Pair 0) (take (passed s 0) init_calls) @ rest" "\<forall>c\<in>set rest. fst c \<noteq> 0"
    and "rest \<noteq> [] \<Longrightarrow> passed s 0 = 19" "data_inv etext trampoline (passed s 0) s"
    and "hart_inv kernelvec 8 11 13 (passed s 0) s 0"
    and "\<And>h. h < NCPU \<Longrightarrow> h \<noteq> 0 \<Longrightarrow> hart_inv kernelvec 3 4 5 (passed s h) s h"
  shows "boot_inv etext trampoline kernelvec s"
  unfolding boot_inv_def using assms by blast

lemma boot_invD:
  assumes "boot_inv etext trampoline kernelvec s"
  shows "\<exists>n\<le>length (main_code h). bt_code s h = drop n (main_code h)" "bt_started s \<longleftrightarrow> passed s 0 = 19"
    and "h \<noteq> 0 \<Longrightarrow> 0 < passed s h \<Longrightarrow> passed s 0 = 19"
    and "\<exists>rest. bt_calls s = map (Pair 0) (take (passed s 0) init_calls) @ rest \<and> (\<forall>c\<in>set rest. fst c \<noteq> 0) \<and>
        (rest \<noteq> [] \<longrightarrow> passed s 0 = 19)"
    and "data_inv etext trampoline (passed s 0) s" "hart_inv kernelvec 8 11 13 (passed s 0) s 0"
    and "h < NCPU \<Longrightarrow> h \<noteq> 0 \<Longrightarrow> hart_inv kernelvec 3 4 5 (passed s h) s h"
  using assms unfolding boot_inv_def by blast+

lemma boot_frame:
  assumes "bt_km t = bt_km s" "kernel_pagetable t = kernel_pagetable s" "bt_plic t = bt_plic s" "bt_hart t = bt_hart s"
  shows "data_inv etext trampoline n t = data_inv etext trampoline n s" "hart_inv kernelvec a b d n t k = hart_inv kernelvec a b d n s k"
  using assms by (simp_all add: data_inv_def hart_inv_def kernel_mapped_def on_kernel_table_def)

lemma hart_inv_start: "n < 3 \<Longrightarrow> hart_inv kernelvec 3 4 5 n s h"
  by (simp add: hart_inv_def)

lemma length_main: "length (main_code 0) = 19" "h \<noteq> 0 \<Longrightarrow> length (main_code h) = 5"
  by (simp_all add: main_code_def init_calls_def)

lemma main_nth:
  "n < 18 \<Longrightarrow> main_code 0 ! n = Do (init_calls ! n)" "main_code 0 ! 18 = Set_started"
  "h \<noteq> 0 \<Longrightarrow> main_code h ! 0 = While_not_started" "h \<noteq> 0 \<Longrightarrow> n < 4 \<Longrightarrow> main_code h ! Suc n = Do (hart_calls ! n)"
proof -
  have l: "length init_calls = 18" by (simp add: init_calls_def)
  show "n < 18 \<Longrightarrow> main_code 0 ! n = Do (init_calls ! n)" "main_code 0 ! 18 = Set_started"
    using l by (simp_all add: main_code_def nth_append)
  show "h \<noteq> 0 \<Longrightarrow> main_code h ! 0 = While_not_started" by (simp add: main_code_def)
  show "h \<noteq> 0 \<Longrightarrow> n < 4 \<Longrightarrow> main_code h ! Suc n = Do (hart_calls ! n)"
    by (auto simp: main_code_def hart_calls_def nth_Cons' less_Suc_eq numeral_eq_Suc)
qed

lemma boot_start_inv: "boot_start etext s \<Longrightarrow> boot_inv etext trampoline kernelvec s"
  by (auto simp: boot_start_def boot_inv_def passed_def data_inv_def hart_inv_def intro: exI [of _ 0])

lemma run_call_frame:
  "run_call etext trampoline kernelvec h f s t \<Longrightarrow> bt_code t = bt_code s \<and> bt_started t = bt_started s \<and> bt_calls t = bt_calls s"
  by (induction rule: run_call.induct) simp_all

text \<open>The position of a hart in its code.\<close>

lemma at_statement:
  assumes inv: "boot_inv etext trampoline kernelvec s" and c: "bt_code s h = x # c"
  shows "passed s h < length (main_code h)" "x = main_code h ! passed s h" "c = drop (Suc (passed s h)) (main_code h)"
    "bt_code s' h = c \<Longrightarrow> passed s' h = Suc (passed s h)"
proof -
  have "\<forall>h. \<exists>n\<le>length (main_code h). bt_code s h = drop n (main_code h)" using inv unfolding boot_inv_def by (rule conjunct1)
  then obtain n where n: "n \<le> length (main_code h)" "bt_code s h = drop n (main_code h)" by blast
  have p: "passed s h = n" using n by (simp add: passed_def)
  have l: "n < length (main_code h)" using n c by (cases "n = length (main_code h)") auto
  show "passed s h < length (main_code h)" using l p by simp
  have "x # c = main_code h ! n # drop (Suc n) (main_code h)" using Cons_nth_drop_Suc [OF l] n c by simp
  then show "x = main_code h ! passed s h" and c': "c = drop (Suc (passed s h)) (main_code h)" using p by simp_all
  show "bt_code s' h = c \<Longrightarrow> passed s' h = Suc (passed s h)" using l p unfolding c' by (simp add: passed_def [of s'])
qed

lemma at_call:
  assumes inv: "boot_inv etext trampoline kernelvec s" and c: "bt_code s h = Do f # c"
  shows "h = 0 \<Longrightarrow> passed s 0 < 18 \<and> f = init_calls ! passed s 0"
    "h \<noteq> 0 \<Longrightarrow> \<exists>n<4. passed s h = Suc n \<and> f = hart_calls ! n"
proof -
  note a = at_statement [OF inv c]
  show "passed s 0 < 18 \<and> f = init_calls ! passed s 0" if "h = 0"
  proof -
    have "passed s 0 < 19" using a(1) that length_main by simp
    moreover have "passed s 0 \<noteq> 18" using a(2) that main_nth(2) by auto
    ultimately have "passed s 0 < 18" by simp
    then show ?thesis using a(2) that main_nth(1) by simp
  qed
  show "\<exists>n<4. passed s h = Suc n \<and> f = hart_calls ! n" if h: "h \<noteq> 0"
  proof -
    have "passed s h \<noteq> 0"
    proof
      assume "passed s h = 0"
      then show False using a(2) main_nth(3) [OF h] by simp
    qed
    then obtain n where n: "passed s h = Suc n" by (cases "passed s h") auto
    then have "n < 4" using a(1) length_main(2) [OF h] by simp
    then show ?thesis using n a(2) main_nth(4) [OF h] by auto
  qed
qed

lemma boot_step_code:
  assumes inv: "boot_inv etext trampoline kernelvec s" and c: "bt_code s h = x # c" and s': "bt_code s' = (bt_code s)(h := c)"
  shows "\<exists>n\<le>length (main_code k). bt_code s' k = drop n (main_code k)" "passed s' h = Suc (passed s h)"
    "k \<noteq> h \<Longrightarrow> passed s' k = passed s k"
proof -
  note at = at_statement [OF inv c]
  show "\<exists>n\<le>length (main_code k). bt_code s' k = drop n (main_code k)"
    using boot_invD(1) [OF inv] at(1,3) s' by (cases "k = h") (auto intro: Suc_leI)
  show "passed s' h = Suc (passed s h)" by (rule at(4)) (simp add: s')
  show "k \<noteq> h \<Longrightarrow> passed s' k = passed s k" by (simp add: passed_def s')
qed

lemma call_first_hart:
  assumes inv: "boot_inv etext trampoline kernelvec s" and c: "bt_code s 0 = Do f # c"
    and r: "run_call etext trampoline kernelvec 0 f s t"
  shows "boot_inv etext trampoline kernelvec (t\<lparr>bt_code := (bt_code t)(0 := c), bt_calls := bt_calls t @ [(0, f)]\<rparr>)"
    (is "boot_inv _ _ _ ?s")
proof (rule boot_invI)
  note fr = run_call_frame [OF r]
  note n = at_call(1) [OF inv c refl]
  have cd: "bt_code ?s = (bt_code s)(0 := c)" using fr by simp
  note st = boot_step_code [OF inv c cd]
  show "\<exists>n\<le>length (main_code k). bt_code ?s k = drop n (main_code k)" for k by (rule st(1))
  have z: "passed s k = 0" if "k \<noteq> 0" for k using boot_invD(3) [OF inv that] n by fastforce
  show "bt_started ?s \<longleftrightarrow> passed ?s 0 = 19" using boot_invD(2) [OF inv] n fr st(2) by simp
  show "passed ?s 0 = 19" if "k \<noteq> 0" "0 < passed ?s k" for k using that st(3) [OF that(1)] z by simp
  obtain rest where rest: "bt_calls s = map (Pair 0) (take (passed s 0) init_calls) @ rest" "rest \<noteq> [] \<longrightarrow> passed s 0 = 19"
    using boot_invD(4) [OF inv] by blast
  have "take (Suc (passed s 0)) init_calls = take (passed s 0) init_calls @ [f]"
    using n take_Suc_conv_app_nth [of "passed s 0" init_calls] by (simp add: init_calls_def)
  moreover have "rest = []" using rest(2) n by auto
  ultimately show "bt_calls ?s = map (Pair 0) (take (passed ?s 0) init_calls) @ []"
    using rest(1) fr st(2) by simp
  have "data_inv etext trampoline (Suc (passed s 0)) t \<and> hart_inv kernelvec 8 11 13 (Suc (passed s 0)) t 0"
    by (rule run_init [OF boot_invD(5,6) [OF inv]]) (use n r in simp_all)
  then show "data_inv etext trampoline (passed ?s 0) ?s" "hart_inv kernelvec 8 11 13 (passed ?s 0) ?s 0"
    unfolding st(2) using boot_frame [of ?s t] by simp_all
  show "hart_inv kernelvec 3 4 5 (passed ?s k) ?s k" if "k \<noteq> 0" for k
    using z [OF that] st(3) [OF that] by (intro hart_inv_start) simp
qed simp_all

lemma call_other_hart:
  assumes inv: "boot_inv etext trampoline kernelvec s" and h: "h < NCPU" "h \<noteq> 0" and c: "bt_code s h = Do f # c"
    and r: "run_call etext trampoline kernelvec h f s t"
  shows "boot_inv etext trampoline kernelvec (t\<lparr>bt_code := (bt_code t)(h := c), bt_calls := bt_calls t @ [(h, f)]\<rparr>)"
    (is "boot_inv _ _ _ ?s")
proof -
  note fr = run_call_frame [OF r]
  obtain n where n: "n < 4" "passed s h = Suc n" "f = hart_calls ! n" using at_call(2) [OF inv c h(2)] by auto
  have cd: "bt_code ?s = (bt_code s)(h := c)" using fr by simp
  note st = boot_step_code [OF inv c cd]
  have p19: "passed s 0 = 19" using boot_invD(3) [OF inv h(2)] n(2) by simp
  then have p19': "passed ?s 0 = 19" using st(3) [of 0] h(2) by simp
  obtain rest where rest: "bt_calls s = map (Pair 0) (take 19 init_calls) @ rest" "\<forall>c\<in>set rest. fst c \<noteq> 0"
    using boot_invD(4) [OF inv] p19 by auto
  note i = boot_invD(5) [OF inv, unfolded p19] boot_invD(7) [OF inv h, unfolded n(2)]
  note rh = run_hart [OF i n(1) h(1) r [unfolded n(3)]]
  note bf = boot_frame [of ?s t, simplified]
  show ?thesis
  proof (rule boot_invI [of _ "rest @ [(h, f)]"])
    show "\<exists>n\<le>length (main_code k). bt_code ?s k = drop n (main_code k)" for k by (rule st(1))
    show "bt_started ?s \<longleftrightarrow> passed ?s 0 = 19" using boot_invD(2) [OF inv] p19 p19' fr by simp
    show "bt_calls ?s = map (Pair 0) (take (passed ?s 0) init_calls) @ rest @ [(h, f)]" using rest(1) fr p19' by simp
    show "\<forall>c\<in>set (rest @ [(h, f)]). fst c \<noteq> 0" using rest(2) h(2) by simp
    show "data_inv etext trampoline (passed ?s 0) ?s" using rh(1) bf(1) p19' by simp
    show "hart_inv kernelvec 8 11 13 (passed ?s 0) ?s 0"
      using rh(2) [OF _ _ boot_invD(6) [OF inv, unfolded p19]] h(2) bf(2) p19' by (simp add: NCPU_def)
    show "hart_inv kernelvec 3 4 5 (passed ?s k) ?s k" if k: "k < NCPU" "k \<noteq> 0" for k
    proof (cases "k = h")
      case True
      then show ?thesis using rh(1) st(2) n(2) bf(2) by simp
    next
      case False
      then show ?thesis using rh(2) [OF False k(1) boot_invD(7) [OF inv k]] st(3) bf(2) by simp
    qed
  qed (use p19' in simp_all)
qed

lemma boot_step_inv:
  assumes inv: "boot_inv etext trampoline kernelvec s" and step: "boot_step etext trampoline kernelvec s s'"
  shows "boot_inv etext trampoline kernelvec s'"
  using step
proof (cases rule: boot_step.cases)
  case (call h f c t)
  then show ?thesis using call_first_hart [OF inv, of f c t] call_other_hart [OF inv, of h f c t] by (cases "h = 0") simp_all
next
  case (set_started h c)
  note at = at_statement [OF inv set_started(3)]
  have h: "h = 0"
  proof (rule ccontr)
    assume ne: "h \<noteq> 0"
    then have "passed s h < 5" using at(1) length_main(2) by simp
    then show False using at(2) main_nth(3,4) [OF ne] by (cases "passed s h") auto
  qed
  have "passed s 0 < 19" using at(1) length_main(1) h by simp
  moreover have "\<not> passed s 0 < 18" using at(2) main_nth(1) [of "passed s 0"] h by auto
  ultimately have n: "passed s 0 = 18" by simp
  have cd: "bt_code s' = (bt_code s)(h := c)" using set_started(1) by simp
  note st = boot_step_code [OF inv set_started(3) cd]
  have p': "passed s' 0 = 19" using st(2) h n by simp
  have bf: "data_inv etext trampoline m s' = data_inv etext trampoline m s" "hart_inv kernelvec a b d m s' k = hart_inv kernelvec a b d m s k" for m a b d k
    by (rule boot_frame; simp add: set_started(1))+
  show ?thesis
  proof (rule boot_invI [of _ "[]"])
    show "\<exists>n\<le>length (main_code k). bt_code s' k = drop n (main_code k)" for k by (rule st(1))
    have "take 19 init_calls = take 18 init_calls" by (simp add: init_calls_def)
    then show "bt_calls s' = map (Pair 0) (take (passed s' 0) init_calls) @ []"
      using boot_invD(4) [OF inv] n p' set_started(1) by auto
    have "data_inv etext trampoline 18 s" "hart_inv kernelvec 8 11 13 18 s 0" using boot_invD(5,6) [OF inv] n by simp_all
    then have "data_inv etext trampoline 19 s" "hart_inv kernelvec 8 11 13 19 s 0" by (simp_all add: data_inv_def hart_inv_def)
    then show "data_inv etext trampoline (passed s' 0) s'" "hart_inv kernelvec 8 11 13 (passed s' 0) s' 0" using bf p' by simp_all
    show "hart_inv kernelvec 3 4 5 (passed s' k) s' k" if "k < NCPU" "k \<noteq> 0" for k
      using boot_invD(7) [OF inv that] st(3) [of k] h that(2) bf(2) by simp
  qed (use p' set_started(1) in simp_all)
next
  case (wait_over h c)
  note at = at_statement [OF inv wait_over(3)]
  have h: "h \<noteq> 0"
  proof
    assume h: "h = 0"
    then have "passed s 0 < 18 \<or> passed s 0 = 18" using at(1) length_main(1) by auto
    then show False using at(2) main_nth(1,2) h by auto
  qed
  have p0: "passed s h = 0"
  proof (cases "passed s h")
    case (Suc n)
    then show ?thesis using at(1,2) main_nth(4) [OF h, of n] length_main(2) [OF h] by simp
  qed
  have cd: "bt_code s' = (bt_code s)(h := c)" using wait_over(1) by simp
  note st = boot_step_code [OF inv wait_over(3) cd]
  have p19: "passed s 0 = 19" using boot_invD(2) [OF inv] wait_over(4) by simp
  have p19': "passed s' 0 = 19" using st(3) [of 0] h p19 by simp
  have bf: "data_inv etext trampoline m s' = data_inv etext trampoline m s" "hart_inv kernelvec a b d m s' k = hart_inv kernelvec a b d m s k" for m a b d k
    by (rule boot_frame; simp add: wait_over(1))+
  obtain rest where rest: "bt_calls s = map (Pair 0) (take 19 init_calls) @ rest" "\<forall>c\<in>set rest. fst c \<noteq> 0"
    using boot_invD(4) [OF inv] p19 by auto
  show ?thesis
  proof (rule boot_invI [of _ rest])
    show "\<exists>n\<le>length (main_code k). bt_code s' k = drop n (main_code k)" for k by (rule st(1))
    show "data_inv etext trampoline (passed s' 0) s'" "hart_inv kernelvec 8 11 13 (passed s' 0) s' 0"
      using boot_invD(5,6) [OF inv] p19 p19' bf by simp_all
    show "hart_inv kernelvec 3 4 5 (passed s' k) s' k" if k: "k < NCPU" "k \<noteq> 0" for k
    proof (cases "k = h")
      case True
      then show ?thesis using st(2) p0 by (intro hart_inv_start) simp
    next
      case False
      then show ?thesis using boot_invD(7) [OF inv k] st(3) bf(2) by simp
    qed
  qed (use rest p19' wait_over(1,4) in simp_all)
next
  case (waiting h c)
  then show ?thesis using inv by simp
qed

lemma boot_inv_reachable:
  assumes "boot_start etext s0" "(boot_step etext trampoline kernelvec)\<^sup>*\<^sup>* s0 s"
  shows "boot_inv etext trampoline kernelvec s"
  using assms(2)
proof (induction rule: rtranclp_induct)
  case base
  show ?case by (rule boot_start_inv [OF assms(1)])
next
  case (step s t)
  then show ?case by (blast intro: boot_step_inv)
qed


lemma first_call_returns:
  assumes inv: "boot_inv etext trampoline kernelvec s" and n: "passed s 0 < 18"
    and f: "init_calls ! passed s 0 \<in> {Kinit, Kvminit, Virtio_disk_init, Userinit}"
  shows "\<exists>t. run_call etext trampoline kernelvec 0 (init_calls ! passed s 0) s t"
proof -
  note d = boot_invD(5) [OF inv]
  consider "init_calls ! passed s 0 = Kinit" | "init_calls ! passed s 0 = Kvminit" |
    "init_calls ! passed s 0 \<in> {Virtio_disk_init, Userinit}" using f by blast
  then show ?thesis
  proof cases
    case 1
    then have "passed s 0 = 5" using init_nth(1) [OF n] by simp
    then have "KERNBASE < etext" "etext \<le> kend (bt_km s)" and l: "kend (bt_km s) \<le> vpage (0x88000 - KVM_PAGES)"
      using d by (simp_all add: data_inv_def)
    then have "0 < kend (bt_km s)" using less_le_trans less_trans [of 0 KERNBASE] by (fastforce simp: KERNBASE_def)
    then obtain km where "kinit (bt_km s) = Ok km"
      using kinit_leaves_room [OF _ l] by (auto simp: KVM_PAGES_def)
    then show ?thesis using run_call.kinit unfolding 1 by blast
  next
    case 2
    then have "passed s 0 = 6" using init_nth(2) [OF n] by simp
    then have b: "page_aligned etext" "KERNBASE < etext" "etext < PHYSTOP" "kalloc_ok (bt_km s)" "KVM_PAGES \<le> card (free_pages (bt_km s))"
      using d by (simp_all add: data_inv_def)
    obtain k km where "kvminit etext trampoline (bt_km s) = Ok (k, km)"
      using kvm_map [OF b(4,5,1,2,3), of trampoline] by (auto simp: kvminit_def)
    then show ?thesis using run_call.kvminit unfolding 2 by blast
  next
    case 3
    then have "16 \<le> passed s 0" using init_nth(7) [OF n] by auto
    then have "kernel_mapped etext trampoline s" using d by (simp add: data_inv_def)
    then have "extends {kernel_pagetable s} (bt_km s) (bt_km s)" by (intro extends_refl) (simp_all add: kernel_mapped_def)
    then show ?thesis using run_call.uses_memory [OF 3] by blast
  qed
qed

text \<open>No routine of \<open>main\<close> panics: every hart can make its next step, but for waiting for hart 0.\<close>

theorem boot_goes_on:
  assumes "boot_start etext s0" "(boot_step etext trampoline kernelvec)\<^sup>*\<^sup>* s0 s" "h < NCPU" "bt_code s h = x # c"
  shows "(\<exists>t. boot_step etext trampoline kernelvec s t \<and> bt_code t h = c) \<or> x = While_not_started \<and> bt_code s 0 \<noteq> []"
proof -
  have inv: "boot_inv etext trampoline kernelvec s" by (rule boot_inv_reachable [OF assms(1,2)])
  note at = at_statement [OF inv assms(4)]
  show ?thesis
  proof (cases x)
    case (Do f)
    note ac = at_call [OF inv assms(4) [unfolded Do]]
    have "length hart_calls = 4" by (simp add: hart_calls_def)
    then have other: "f \<in> set hart_calls" if "h \<noteq> 0" using ac(2) [OF that] nth_mem [of _ hart_calls] by auto
    have "\<exists>t. run_call etext trampoline kernelvec h f s t"
    proof (cases "f \<in> {Kinit, Kvminit, Virtio_disk_init, Userinit}")
      case True
      then have h: "h = 0" using other by (auto simp: hart_calls_def)
      then show ?thesis using first_call_returns [OF inv] ac(1) True by auto
    next
      case False
      then show ?thesis by (cases f) (auto intro: run_call.intros)
    qed
    then obtain t where r: "run_call etext trampoline kernelvec h f s t" by blast
    have "bt_code t = bt_code s" using run_call_frame [OF r] by simp
    then show ?thesis using boot_step.call [OF assms(3) assms(4) [unfolded Do] r] by fastforce
  next
    case Set_started
    then show ?thesis using boot_step.set_started [OF assms(3)] assms(4) by fastforce
  next
    case While_not_started
    show ?thesis
    proof (cases "bt_started s")
      case True
      then show ?thesis using boot_step.wait_over [OF assms(3)] assms(4) While_not_started by fastforce
    next
      case False
      then have "passed s 0 \<noteq> 19" using inv by (simp add: boot_inv_def)
      then have "bt_code s 0 \<noteq> []" using length_main(1) by (auto simp: passed_def)
      then show ?thesis using While_not_started by simp
    qed
  qed
qed

lemma first_hart_does_not_wait:
  assumes inv: "boot_inv etext trampoline kernelvec s" and c: "bt_code s 0 = x # c"
  shows "x \<noteq> While_not_started"
proof -
  note at = at_statement [OF inv c]
  have "passed s 0 < 18 \<or> passed s 0 = 18" using at(1) length_main(1) by auto
  then show ?thesis using at(2) main_nth(1,2) by auto
qed

lemma passed_mono:
  assumes inv: "boot_inv etext trampoline kernelvec s" and step: "boot_step etext trampoline kernelvec s t"
  shows "passed s k \<le> passed t k"
  using step
proof (cases rule: boot_step.cases)
  case (call h f c u)
  have cd: "bt_code t = (bt_code s)(h := c)" using call(1) run_call_frame [OF call(4)] by simp
  show ?thesis using boot_step_code(2,3) [OF inv call(3) cd] by (cases "k = h") auto
next
  case (set_started h c)
  have cd: "bt_code t = (bt_code s)(h := c)" using set_started(1) by simp
  show ?thesis using boot_step_code(2,3) [OF inv set_started(3) cd] by (cases "k = h") auto
next
  case (wait_over h c)
  have cd: "bt_code t = (bt_code s)(h := c)" using wait_over(1) by simp
  show ?thesis using boot_step_code(2,3) [OF inv wait_over(3) cd] by (cases "k = h") auto
next
  case (waiting h c)
  then show ?thesis by simp
qed

text \<open>From every reachable state, hart 0 and then any other hart can reach the scheduler.\<close>

lemma hart_finishes:
  assumes "boot_start etext s0" "(boot_step etext trampoline kernelvec)\<^sup>*\<^sup>* s0 s" "h < NCPU" "h \<noteq> 0 \<Longrightarrow> bt_code s 0 = []"
  shows "\<exists>t. (boot_step etext trampoline kernelvec)\<^sup>*\<^sup>* s0 t \<and> bt_code t h = []"
  using assms
proof (induction "length (bt_code s h)" arbitrary: s)
  case 0
  then show ?case by auto
next
  case (Suc n)
  then obtain x c where c: "bt_code s h = x # c" by (cases "bt_code s h") auto
  note inv = boot_inv_reachable [OF Suc.prems(1,2)]
  have "x \<noteq> While_not_started \<or> bt_code s 0 = []"
    using first_hart_does_not_wait [OF inv] c Suc.prems(4) by (cases "h = 0") auto
  then obtain t where t: "boot_step etext trampoline kernelvec s t" "bt_code t h = c"
    using boot_goes_on [OF Suc.prems(1-3) c] by blast
  have st: "(boot_step etext trampoline kernelvec)\<^sup>*\<^sup>* s0 t" using Suc.prems(2) t(1) by (rule rtranclp.rtrancl_into_rtrancl)
  moreover have "bt_code t 0 = []" if "h \<noteq> 0"
  proof -
    have "passed s 0 = 19" using Suc.prems(4) [OF that] length_main(1) by (simp add: passed_def)
    moreover have "passed s 0 \<le> passed t 0" using passed_mono [OF inv t(1)] .
    ultimately have "passed t 0 = 19" using length_main(1) by (simp add: passed_def)
    then have "length (bt_code t 0) = 0" unfolding passed_def length_main(1) by arith
    then show ?thesis by simp
  qed
  ultimately show ?case using Suc.hyps(1) [OF _ Suc.prems(1) st Suc.prems(3)] Suc.hyps(2) c t(2) by simp
qed

definition demo_hart :: "nat \<Rightarrow> hart" where
  "demo_hart i = \<lparr>h_id = of_nat i, h_tp = of_nat i, h_priv = Supervisor_mode, h_pc = 0x80000000, h_mstatus = 0, h_mepc = 0,
     h_satp = 0, h_medeleg = 0xffff, h_mideleg = 0xffff, h_sie = 0, h_mie = 0, h_mtvec = 0, h_mscratch = 0, h_pmpaddr0 = 0,
     h_pmpcfg0 = 0, h_stvec = 0, h_tlb_stale = False\<rparr>"

definition boot_demo :: boot where
  "boot_demo = \<lparr>bt_code = main_code, bt_started = False, bt_calls = [], bt_km = boot_ram, kernel_pagetable = 0,
     bt_plic = (\<lambda>_. 0), bt_hart = demo_hart\<rparr>"


end
