(* ===== verification/Mkfs.thy ===== *)
theory Mkfs
  imports Fs_Codec
begin

text \<open>
  \<open>mkfs/mkfs.c\<close>, the host tool that writes the first disk image. The state is the image file as a list of
  blocks and the two counters; the superblock is a constant. A failed system call (\<open>die\<close>) and a failed
  \<open>assert\<close> end the tool with a message; reading at or behind the end of the image fails. A host file is
  the list of byte strings that the successive calls of \<open>read\<close> return; \<open>mkfs_main\<close> starts with the empty image
  open, and its argument lists the files behind the image's name on the command line. The host is little-endian, so that
  the bytes of a structure in its memory are those that \<open>Fs\<close> decodes.
\<close>

section \<open>State and constants\<close>

record mkfs_state =
  m_img :: "block list"
  m_freeinode :: u32
  m_freeblock :: u32

definition xshort :: "u16 \<Rightarrow> u16" where
  "xshort x = word_of_bytes [ucast x, ucast (drop_bit 8 x)]"

definition xint :: "u32 \<Rightarrow> u32" where
  "xint x = word_of_bytes [ucast x, ucast (drop_bit 8 x), ucast (drop_bit 16 x), ucast (drop_bit 24 x)]"

definition NINODES :: u32 where "NINODES = 200"
definition nbitmap :: u32 where "nbitmap = of_nat FSSIZE div of_nat (BSIZE * 8) + 1"
definition ninodeblocks :: u32 where "ninodeblocks = NINODES div IPB + 1"
definition nlog :: u32 where "nlog = of_nat LOGSIZE"
definition nmeta :: u32 where "nmeta = 2 + nlog + ninodeblocks + nbitmap"
definition nblocks :: u32 where "nblocks = of_nat FSSIZE - nmeta"

definition mkfs_sb :: superblock where
  "mkfs_sb = \<lparr>sb_magic = FSMAGIC, sb_size = xint (of_nat FSSIZE), sb_nblocks = xint nblocks,
     sb_ninodes = xint NINODES, sb_nlog = xint nlog, sb_logstart = xint 2, sb_inodestart = xint (2 + nlog),
     sb_bmapstart = xint (2 + nlog + ninodeblocks)\<rparr>"

definition bytes_of_superblock :: "superblock \<Rightarrow> u8 list" where
  "bytes_of_superblock v = concat (map (bytes_of_word 4) [sb_magic v, sb_size v, sb_nblocks v, sb_ninodes v,
     sb_nlog v, sb_logstart v, sb_inodestart v, sb_bmapstart v])"

definition zeroes :: block where "zeroes = replicate BSIZE 0"

section \<open>Sectors and inodes\<close>

text \<open>Writing behind the end of the file leaves a hole of zeros.\<close>

definition put_block :: "nat \<Rightarrow> block \<Rightarrow> block list \<Rightarrow> block list" where
  "put_block n b img =
     (if n < length img then img[n := b] else img @ replicate (n - length img) zeroes @ [b])"

definition wsect :: "u32 \<Rightarrow> block \<Rightarrow> (mkfs_state, unit) kop" where
  "wsect sec buf = kmod (\<lambda>s. s\<lparr>m_img := put_block (unat sec) buf (m_img s)\<rparr>)"

definition rsect :: "u32 \<Rightarrow> (mkfs_state, block) kop" where
  "rsect sec = kbind (kget m_img) (\<lambda>img. if unat sec < length img then kret (img ! unat sec) else kpanic ''read'')"

definition winode :: "u32 \<Rightarrow> dinode \<Rightarrow> (mkfs_state, unit) kop" where
  "winode inum ip =
     (let bn = IBLOCK inum mkfs_sb
      in kbind (rsect bn) (\<lambda>buf. wsect bn (put_bytes (dinode_off inum) (bytes_of_dinode ip) buf)))"

definition rinode :: "u32 \<Rightarrow> (mkfs_state, dinode) kop" where
  "rinode inum =
     (let bn = IBLOCK inum mkfs_sb
      in kbind (rsect bn) (\<lambda>buf. kret (dinode_of_bytes (drop (dinode_off inum) buf))))"

definition mkfs_ialloc :: "u16 \<Rightarrow> (mkfs_state, u32) kop" where
  "mkfs_ialloc type =
     kbind (kget m_freeinode) (\<lambda>inum.
     kseq (kmod (\<lambda>s. s\<lparr>m_freeinode := inum + 1\<rparr>)) (
     kseq (winode inum \<lparr>d_type = xshort type, d_major = 0, d_minor = 0, d_nlink = xshort 1, d_size = xint 0,
       d_addrs = replicate (NDIRECT + 1) 0\<rparr>) (
     kret inum)))"

definition mkfs_balloc :: "u32 \<Rightarrow> (mkfs_state, unit) kop" where
  "mkfs_balloc n =
     (if unat n < BSIZE * 8
      then wsect (sb_bmapstart mkfs_sb) (fold set_bit_at [0..<unat n] zeroes)
      else kpanic ''assert'')"

section \<open>Appending to a file\<close>

text \<open>\<open>freeblock++\<close>\<close>

definition next_block :: "(mkfs_state, u32) kop" where
  "next_block = kbind (kget m_freeblock) (\<lambda>b. kseq (kmod (\<lambda>s. s\<lparr>m_freeblock := b + 1\<rparr>)) (kret b))"

text \<open>The address \<open>x\<close> of block \<open>fbn\<close>, allocated if need be, and the changed \<open>din\<close>.\<close>

definition iappend_block :: "nat \<Rightarrow> dinode \<Rightarrow> (mkfs_state, u32 \<times> dinode) kop" where
  "iappend_block fbn din =
     (if fbn < NDIRECT
      then kbind (if xint (d_addrs din ! fbn) = 0
                  then kbind next_block (\<lambda>b. kret (din\<lparr>d_addrs := (d_addrs din)[fbn := xint b]\<rparr>))
                  else kret din) (\<lambda>din.
           kret (xint (d_addrs din ! fbn), din))
      else kbind (if xint (d_addrs din ! NDIRECT) = 0
                  then kbind next_block (\<lambda>b. kret (din\<lparr>d_addrs := (d_addrs din)[NDIRECT := xint b]\<rparr>))
                  else kret din) (\<lambda>din.
           kbind (rsect (xint (d_addrs din ! NDIRECT))) (\<lambda>indirect.
           kbind (if get32 indirect (4 * (fbn - NDIRECT)) = 0
                  then kbind next_block (\<lambda>b.
                       let indirect = put32 (4 * (fbn - NDIRECT)) (xint b) indirect
                       in kseq (wsect (xint (d_addrs din ! NDIRECT)) indirect) (kret indirect))
                  else kret indirect) (\<lambda>indirect.
           kret (xint (get32 indirect (4 * (fbn - NDIRECT))), din)))))"

function iappend_loop :: "u8 list \<Rightarrow> nat \<Rightarrow> dinode \<Rightarrow> (mkfs_state, nat \<times> dinode) kop" where
  "iappend_loop p off din =
     (if p = [] then kret (off, din)
      else let fbn = off div BSIZE
        in if \<not> fbn < MAXFILE then kpanic ''assert''
           else kbind (iappend_block fbn din) (\<lambda>(x, din).
             let n1 = min (length p) ((fbn + 1) * BSIZE - off)
             in kbind (rsect x) (\<lambda>buf.
                kseq (wsect x (put_bytes (off - fbn * BSIZE) (take n1 p) buf))
                  (iappend_loop (drop n1 p) (off + n1) din))))"
  by pat_completeness auto
termination
proof (relation "measure (\<lambda>(p, _, _). length p)", goal_cases)
  case 1
  show ?case by simp
next
  case (2 p off din fbn xd x din' n1)
  have "off < (off div BSIZE + 1) * BSIZE" using dividend_less_div_times [of BSIZE off] by (simp add: BSIZE_def)
  then show ?case using 2 by (cases p) (auto simp: min_def)
qed

declare iappend_loop.simps [simp del]

definition iappend :: "u32 \<Rightarrow> u8 list \<Rightarrow> (mkfs_state, unit) kop" where
  "iappend inum p =
     kbind (rinode inum) (\<lambda>din.
     kbind (iappend_loop p (unat (xint (d_size din))) din) (\<lambda>(off, din).
       winode inum (din\<lparr>d_size := xint (of_nat off)\<rparr>)))"

section \<open>main\<close>

definition mkfs_dirent :: "u8 list \<Rightarrow> u32 \<Rightarrow> dirent" where
  "mkfs_dirent name inum = \<lparr>de_inum = xshort (ucast inum),
     de_name = map (strncpy (\<lambda>_. 0) (cstr_of name) (int DIRSIZ)) [0..<DIRSIZ]\<rparr>"

definition user_prefix :: "u8 list" where "user_prefix = [0x75, 0x73, 0x65, 0x72, 0x2F]"

text \<open>The name without \<open>user/\<close>, and then without a leading underscore.\<close>

definition drop_user :: "u8 list \<Rightarrow> u8 list" where
  "drop_user arg = (if take 5 arg = user_prefix then drop 5 arg else arg)"

definition drop_underscore :: "u8 list \<Rightarrow> u8 list" where
  "drop_underscore name = (case name of c # cs \<Rightarrow> if c = 0x5F then cs else name | [] \<Rightarrow> [])"

primrec iappend_all :: "u32 \<Rightarrow> u8 list list \<Rightarrow> (mkfs_state, unit) kop" where
  "iappend_all inum [] = kret ()"
| "iappend_all inum (buf # bufs) = kseq (iappend inum buf) (iappend_all inum bufs)"

definition add_file :: "u8 list \<times> u8 list list option \<Rightarrow> (mkfs_state, unit) kop" where
  "add_file f =
     (case f of (arg, file) \<Rightarrow>
       let shortname = drop_user arg
       in if slash \<in> set shortname then kpanic ''assert''
          else case file of None \<Rightarrow> kpanic ''open'' | Some bufs \<Rightarrow>
            let shortname = drop_underscore shortname
            in kbind (mkfs_ialloc T_FILE) (\<lambda>inum.
               kseq (iappend ROOTINO (bytes_of_dirent (mkfs_dirent shortname inum)))
                 (iappend_all inum bufs)))"

definition fix_root_size :: "(mkfs_state, unit) kop" where
  "fix_root_size =
     kbind (rinode ROOTINO) (\<lambda>din.
       let off = xint (d_size din); off = (off div of_nat BSIZE + 1) * of_nat BSIZE
       in winode ROOTINO (din\<lparr>d_size := xint off\<rparr>))"

definition mkfs_layout :: "(mkfs_state, unit) kop" where
  "mkfs_layout =
     kseq (kfor [0..<FSSIZE] (\<lambda>i. wsect (of_nat i) zeroes)) (
     wsect 1 (put_bytes 0 (bytes_of_superblock mkfs_sb) zeroes))"

definition mkfs_root :: "(mkfs_state, unit) kop" where
  "mkfs_root =
     kbind (mkfs_ialloc T_DIR) (\<lambda>rootino.
       if rootino \<noteq> ROOTINO then kpanic ''assert''
       else kseq (iappend rootino (bytes_of_dirent (mkfs_dirent [0x2E] rootino)))
              (iappend rootino (bytes_of_dirent (mkfs_dirent [0x2E, 0x2E] rootino))))"

definition mkfs_main :: "(u8 list \<times> u8 list list option) list \<Rightarrow> (mkfs_state, unit) kop" where
  "mkfs_main files =
     kseq mkfs_layout (
     kseq mkfs_root (
     kseq (kfor files add_file) (
     kseq fix_root_size (
     kbind (kget m_freeblock) mkfs_balloc))))"

definition mkfs_start :: mkfs_state where
  "mkfs_start = \<lparr>m_img = [], m_freeinode = 1, m_freeblock = nmeta\<rparr>"

end
