(* ===== verification/Mkfs_Inv.thy ===== *)
theory Mkfs_Inv
  imports Mkfs
begin

text \<open>
  The image that \<open>mkfs\<close> builds: which blocks belong to which inode, the bytes they hold, and what growing a
  file by a block and writing one of its blocks do to them. Inodes are named by natural numbers; \<open>dis\<close>
  gives their on-disk structures, \<open>N\<close> their numbers of data blocks.
\<close>

lemma xint_id [simp]: "xint x = x"
proof -
  have "[ucast x, ucast (drop_bit 8 x), ucast (drop_bit 16 x), ucast (drop_bit 24 x)] = bytes_of_word 4 x"
    by (simp add: numeral_eq_Suc drop_bit_drop_bit)
  then show ?thesis unfolding xint_def by (simp only: word32_of_bytes_of_word)
qed

lemma xshort_id [simp]: "xshort x = x"
proof -
  have "[ucast x, ucast (drop_bit 8 x)] = bytes_of_word 2 x" by (simp add: numeral_eq_Suc)
  then show ?thesis unfolding xshort_def by (simp only: word16_of_bytes_of_word)
qed

lemma layout_values:
  "nmeta = 46" "sb_inodestart mkfs_sb = 32" "sb_bmapstart mkfs_sb = 45"
  by (simp_all add: nmeta_def nlog_def ninodeblocks_def nbitmap_def mkfs_sb_def LOGSIZE_def MAXOPBLOCKS_def FSSIZE_def
      BSIZE_def NINODES_def IPB_def)

section \<open>Blocks of a file\<close>

definition addr_of :: "block list \<Rightarrow> dinode \<Rightarrow> nat \<Rightarrow> u32" where
  "addr_of img di k =
     (if k < NDIRECT then d_addrs di ! k else get32 (img ! unat (d_addrs di ! NDIRECT)) (4 * (k - NDIRECT)))"

definition owned :: "block list \<Rightarrow> dinode \<Rightarrow> nat \<Rightarrow> u32 list" where
  "owned img di n = map (addr_of img di) [0..<n] @ (if NDIRECT < n then [d_addrs di ! NDIRECT] else [])"

definition blocks_needed :: "nat \<Rightarrow> nat" where
  "blocks_needed n = n + (if NDIRECT < n then 1 else 0)"

definition file_data :: "block list \<Rightarrow> dinode \<Rightarrow> nat \<Rightarrow> u8 list" where
  "file_data img di n = concat (map (\<lambda>k. img ! unat (addr_of img di k)) [0..<n])"

definition shape :: "block list \<Rightarrow> dinode \<Rightarrow> nat \<Rightarrow> bool" where
  "shape img di n \<longleftrightarrow> length (d_addrs di) = NDIRECT + 1 \<and> n \<le> MAXFILE \<and>
     (\<forall>k<NDIRECT. d_addrs di ! k = 0 \<longleftrightarrow> n \<le> k) \<and> (d_addrs di ! NDIRECT = 0 \<longleftrightarrow> n \<le> NDIRECT) \<and>
     (NDIRECT < n \<longrightarrow> (\<forall>k. NDIRECT \<le> k \<longrightarrow> k < MAXFILE \<longrightarrow> (addr_of img di k = 0 \<longleftrightarrow> n \<le> k)))"

definition blocks_ok :: "block list \<Rightarrow> bool" where
  "blocks_ok img \<longleftrightarrow> length img = FSSIZE \<and> (\<forall>b\<in>set img. length b = BSIZE)"

definition image_ok :: "(nat \<Rightarrow> dinode) \<Rightarrow> (nat \<Rightarrow> nat) \<Rightarrow> block list \<Rightarrow> nat \<Rightarrow> u32 \<Rightarrow> bool" where
  "image_ok dis N img fi fb \<longleftrightarrow> blocks_ok img \<and>
     (\<forall>i\<in>{1..<fi}. shape img (dis i) (N i) \<and> distinct (owned img (dis i) (N i))) \<and>
     (\<forall>i\<in>{1..<fi}. \<forall>j\<in>{1..<fi}. i \<noteq> j \<longrightarrow> set (owned img (dis i) (N i)) \<inter> set (owned img (dis j) (N j)) = {}) \<and>
     (\<forall>x. nmeta \<le> x \<and> x < fb \<longleftrightarrow> (\<exists>i\<in>{1..<fi}. x \<in> set (owned img (dis i) (N i)))) \<and>
     unat fb = unat nmeta + (\<Sum>i\<in>{1..<fi}. blocks_needed (N i)) \<and> unat fb \<le> FSSIZE \<and>
     (\<forall>x. fb \<le> x \<longrightarrow> unat x < FSSIZE \<longrightarrow> img ! unat x = zeroes)"

lemma length_owned [simp]: "length (owned img di n) = blocks_needed n"
  by (simp add: owned_def blocks_needed_def)

lemma owned_frame:
  assumes "\<And>x. x \<in> set (owned img di n) \<Longrightarrow> img' ! unat x = img ! unat x"
  shows "k < n \<Longrightarrow> addr_of img' di k = addr_of img di k" "owned img' di n = owned img di n"
    "file_data img' di n = file_data img di n" "shape img' di n \<longleftrightarrow> shape img di n"
proof -
  have ind: "img' ! unat (d_addrs di ! NDIRECT) = img ! unat (d_addrs di ! NDIRECT)" if "NDIRECT < n"
    using that by (intro assms) (simp add: owned_def)
  show a: "addr_of img' di k = addr_of img di k" if "k < n" for k
    using ind that by (simp add: addr_of_def)
  then show "owned img' di n = owned img di n" by (simp add: owned_def)
  have "img' ! unat (addr_of img' di k) = img ! unat (addr_of img di k)" if "k < n" for k
    using assms [of "addr_of img di k"] a [OF that] that by (simp add: owned_def)
  then have "map (\<lambda>k. img' ! unat (addr_of img' di k)) [0..<n] = map (\<lambda>k. img ! unat (addr_of img di k)) [0..<n]"
    by simp
  then show "file_data img' di n = file_data img di n" unfolding file_data_def by (rule arg_cong)
  have "addr_of img' di k = addr_of img di k" if "NDIRECT < n" for k
    using ind [OF that] by (simp add: addr_of_def)
  then show "shape img' di n \<longleftrightarrow> shape img di n" by (auto simp: shape_def)
qed

lemma image_okD:
  assumes "image_ok dis N img fi fb"
  shows "length img = FSSIZE" "unat x < FSSIZE \<Longrightarrow> length (img ! unat x) = BSIZE"
    "i \<in> {1..<fi} \<Longrightarrow> shape img (dis i) (N i)" "i \<in> {1..<fi} \<Longrightarrow> distinct (owned img (dis i) (N i))"
    "i \<in> {1..<fi} \<Longrightarrow> x \<in> set (owned img (dis i) (N i)) \<Longrightarrow> nmeta \<le> x \<and> x < fb \<and> unat x < FSSIZE"
    "fb \<le> x \<Longrightarrow> unat x < FSSIZE \<Longrightarrow> img ! unat x = zeroes"
proof -
  show "length img = FSSIZE" "unat x < FSSIZE \<Longrightarrow> length (img ! unat x) = BSIZE"
    using assms by (auto simp: image_ok_def blocks_ok_def)
  show "i \<in> {1..<fi} \<Longrightarrow> x \<in> set (owned img (dis i) (N i)) \<Longrightarrow> nmeta \<le> x \<and> x < fb \<and> unat x < FSSIZE"
  proof -
    assume "i \<in> {1..<fi}" "x \<in> set (owned img (dis i) (N i))"
    then have "nmeta \<le> x \<and> x < fb" using assms unfolding image_ok_def by blast
    moreover have "unat fb \<le> FSSIZE" using assms by (simp add: image_ok_def)
    ultimately show ?thesis by (metis order_less_le_trans word_less_nat_alt)
  qed
qed (use assms in \<open>auto simp: image_ok_def\<close>)

text \<open>A change of the blocks of one file, and of fresh ones, leaves the other files alone.\<close>

lemma image_ok_grow:
  assumes ok: "image_ok dis N img fi fb" and i: "i \<in> {1..<fi}" and bl: "blocks_ok img'"
    and same: "\<And>x. x \<notin> set (owned img (dis i) (N i)) \<Longrightarrow> x < fb \<or> fb' \<le> x \<Longrightarrow> img' ! unat x = img ! unat x"
    and sh: "shape img' di n" and dist: "distinct (owned img' di n)"
    and own: "set (owned img' di n) = set (owned img (dis i) (N i)) \<union> {x. fb \<le> x \<and> x < fb'}"
    and cnt: "unat fb' + blocks_needed (N i) = unat fb + blocks_needed n" and le: "N i \<le> n" "unat fb' \<le> FSSIZE"
  shows "image_ok (dis(i := di)) (N(i := n)) img' fi fb'"
    and "j \<in> {1..<fi} \<Longrightarrow> j \<noteq> i \<Longrightarrow> file_data img' (dis j) (N j) = file_data img (dis j) (N j)"
    and "x < nmeta \<Longrightarrow> img' ! unat x = img ! unat x"
proof -
  note D = image_okD [OF ok]
  let ?dis = "dis(i := di)" let ?N = "N(i := n)"
  have ff: "fb \<le> fb'"
  proof -
    have "blocks_needed (N i) \<le> blocks_needed n" using le(1) by (auto simp: blocks_needed_def)
    then show ?thesis using cnt by (simp add: word_le_nat_alt)
  qed
  have other: "img' ! unat x = img ! unat x" if "x \<in> set (owned img (dis j) (N j))" "j \<in> {1..<fi}" "j \<noteq> i" for x j
  proof (rule same)
    show "x \<notin> set (owned img (dis i) (N i))" using ok i that unfolding image_ok_def by blast
    show "x < fb \<or> fb' \<le> x" using D(5) [OF that(2,1)] by blast
  qed
  have fr: "owned img' (dis j) (N j) = owned img (dis j) (N j)" "file_data img' (dis j) (N j) = file_data img (dis j) (N j)"
    "shape img' (dis j) (N j) \<longleftrightarrow> shape img (dis j) (N j)" if "j \<in> {1..<fi}" "j \<noteq> i" for j
    by (rule owned_frame, rule other [OF _ that], assumption)+
  show "j \<in> {1..<fi} \<Longrightarrow> j \<noteq> i \<Longrightarrow> file_data img' (dis j) (N j) = file_data img (dis j) (N j)" using fr(2) by blast
  show "x < nmeta \<Longrightarrow> img' ! unat x = img ! unat x"
  proof (rule same)
    assume x: "x < nmeta"
    then show "x \<notin> set (owned img (dis i) (N i))" using D(5) [OF i, of x] by auto
    have "nmeta \<le> fb" using ok by (simp add: image_ok_def word_le_nat_alt)
    then show "x < fb \<or> fb' \<le> x" using x by auto
  qed
  have o: "owned img' (?dis j) (?N j) = (if j = i then owned img' di n else owned img (dis j) (N j))" if "j \<in> {1..<fi}" for j
    using fr(1) [of j] that by auto
  have fresh: "x \<notin> set (owned img (dis j) (N j))" if "j \<in> {1..<fi}" "fb \<le> x" for j x
    using D(5) [OF that(1), of x] that(2) by auto
  have "shape img' (?dis j) (?N j) \<and> distinct (owned img' (?dis j) (?N j))" if j: "j \<in> {1..<fi}" for j
    using fr(3) [of j] j sh dist o [OF j] D(3,4) [OF j] by auto
  moreover have "set (owned img' (?dis j) (?N j)) \<inter> set (owned img' (?dis k) (?N k)) = {}"
    if "j \<in> {1..<fi}" "k \<in> {1..<fi}" "j \<noteq> k" for j k
  proof -
    have d: "set (owned img (dis j) (N j)) \<inter> set (owned img (dis k) (N k)) = {}" if "j \<in> {1..<fi}" "k \<in> {1..<fi}" "j \<noteq> k" for j k
      using ok that unfolding image_ok_def by blast
    show ?thesis unfolding o [OF that(1)] o [OF that(2)] using that d fresh i own by auto
  qed
  moreover have "nmeta \<le> x \<and> x < fb' \<longleftrightarrow> (\<exists>j\<in>{1..<fi}. x \<in> set (owned img' (?dis j) (?N j)))" for x
  proof -
    have "nmeta \<le> x \<and> x < fb \<longleftrightarrow> (\<exists>j\<in>{1..<fi}. x \<in> set (owned img (dis j) (N j)))" using ok by (simp add: image_ok_def)
    moreover have "nmeta \<le> fb" using ok by (simp add: image_ok_def word_le_nat_alt)
    moreover have "x \<in> set (owned img' (?dis j) (?N j)) \<longleftrightarrow> x \<in> set (owned img (dis j) (N j)) \<or> j = i \<and> fb \<le> x \<and> x < fb'"
      if "j \<in> {1..<fi}" for j
      unfolding o [OF that] using own by simp
    then have "(\<exists>j\<in>{1..<fi}. x \<in> set (owned img' (?dis j) (?N j))) \<longleftrightarrow>
        (\<exists>j\<in>{1..<fi}. x \<in> set (owned img (dis j) (N j))) \<or> (fb \<le> x \<and> x < fb')"
      using i by blast
    ultimately show ?thesis using ff by auto
  qed
  moreover have "unat fb' = unat nmeta + (\<Sum>j\<in>{1..<fi}. blocks_needed (?N j))"
  proof -
    have "(\<Sum>j\<in>{1..<fi}. blocks_needed (?N j)) = blocks_needed n + (\<Sum>j\<in>{1..<fi} - {i}. blocks_needed (N j))"
      using i by (subst sum.remove [of _ i]) auto
    moreover have "(\<Sum>j\<in>{1..<fi}. blocks_needed (N j)) = blocks_needed (N i) + (\<Sum>j\<in>{1..<fi} - {i}. blocks_needed (N j))"
      using i by (subst sum.remove [of _ i]) auto
    ultimately show ?thesis using ok cnt by (simp add: image_ok_def)
  qed
  moreover have "img' ! unat x = zeroes" if "fb' \<le> x" "unat x < FSSIZE" for x
  proof -
    have "fb \<le> x" using ff that(1) by simp
    then show ?thesis using same [of x] fresh [OF i] D(6) that by simp
  qed
  ultimately show "image_ok ?dis ?N img' fi fb'" using bl le(2) unfolding image_ok_def by blast
qed

section \<open>Writing a block of a file\<close>

lemma blocks_ok_update: "blocks_ok img \<Longrightarrow> length b = BSIZE \<Longrightarrow> blocks_ok (img[k := b])"
  using set_update_subset_insert [of img k b] by (auto simp: blocks_ok_def)

lemma addr_in_owned: "k < n \<Longrightarrow> addr_of img di k \<in> set (owned img di n)"
  by (simp add: owned_def)

lemma owned_distinct:
  assumes "distinct (owned img di n)"
  shows "k < n \<Longrightarrow> j < n \<Longrightarrow> addr_of img di k = addr_of img di j \<longleftrightarrow> k = j"
    and "NDIRECT < n \<Longrightarrow> k < n \<Longrightarrow> addr_of img di k \<noteq> d_addrs di ! NDIRECT"
proof -
  have "inj_on (addr_of img di) {0..<n}" using assms by (simp add: owned_def distinct_map split: if_splits)
  then show "k < n \<Longrightarrow> j < n \<Longrightarrow> addr_of img di k = addr_of img di j \<longleftrightarrow> k = j"
    by (auto dest: inj_onD)
  show "addr_of img di k \<noteq> d_addrs di ! NDIRECT" if "NDIRECT < n" "k < n"
  proof -
    have "d_addrs di ! NDIRECT \<notin> addr_of img di ` {0..<n}" using assms that(1) by (simp add: owned_def)
    moreover have "addr_of img di k \<in> addr_of img di ` {0..<n}" using that(2) by (intro imageI) simp
    ultimately show ?thesis by metis
  qed
qed

lemma length_concat_blocks: "(\<And>k. k < n \<Longrightarrow> length (f k) = m) \<Longrightarrow> length (concat (map f [0..<n])) = n * m"
  by (induction n) auto

lemma put_chunk:
  assumes "\<And>j. j < n \<Longrightarrow> length (f j) = m" "length b = m" "k < n"
  shows "concat (map (f(k := b)) [0..<n]) = put_bytes (k * m) b (concat (map f [0..<n]))"
proof -
  have u: "[0..<n] = [0..<k] @ k # [Suc k..<n]" using assms(3) upt_add_eq_append [of 0 k "n - k"] upt_conv_Cons [of k n] by simp
  have l: "length (concat (map f [0..<k])) = k * m" by (rule length_concat_blocks) (use assms in simp)
  have "concat (map (f(k := b)) [0..<k]) = concat (map f [0..<k])" "concat (map (f(k := b)) [Suc k..<n]) = concat (map f [Suc k..<n])"
    by (rule arg_cong [where f = concat], simp)+
  then show ?thesis using l assms by (simp add: u put_bytes_def)
qed

lemma unat_inj_u32: "unat (x :: u32) = unat y \<longleftrightarrow> x = y"
  by (simp add: word_unat_eq_iff)

lemma write_block_ok:
  assumes ok: "image_ok dis N img fi fb" and i: "i \<in> {1..<fi}" and k: "k < N i" and b: "length b = BSIZE"
  defines "img' \<equiv> img[unat (addr_of img (dis i) k) := b]"
  shows "image_ok dis N img' fi fb"
    and "file_data img' (dis i) (N i) = put_bytes (k * BSIZE) b (file_data img (dis i) (N i))"
    and "j \<in> {1..<fi} \<Longrightarrow> j \<noteq> i \<Longrightarrow> file_data img' (dis j) (N j) = file_data img (dis j) (N j)"
    and "x < nmeta \<Longrightarrow> img' ! unat x = img ! unat x"
proof -
  note D = image_okD [OF ok]
  let ?a = "addr_of img (dis i) k"
  note dist = owned_distinct [OF D(4) [OF i]]
  have a: "?a \<in> set (owned img (dis i) (N i))" by (rule addr_in_owned [OF k])
  note al = D(5) [OF i a]
  have out: "img' ! unat x = img ! unat x" if "x \<noteq> ?a" for x using that by (simp add: img'_def unat_inj_u32)
  have ind: "addr_of img' (dis i) j = addr_of img (dis i) j" if "j < NDIRECT \<or> NDIRECT < N i" for j
    using dist(2) [OF _ k] out that by (auto simp: addr_of_def)
  have ind': "addr_of img' (dis i) j = addr_of img (dis i) j" if "j < N i" for j
    using ind [of j] that by (cases "j < NDIRECT") auto
  have ow: "owned img' (dis i) (N i) = owned img (dis i) (N i)"
    using ind' unfolding owned_def by (auto intro!: map_cong)
  have sh: "shape img' (dis i) (N i)" using D(3) [OF i] ind by (auto simp: shape_def)
  have bl: "blocks_ok img'" unfolding img'_def by (rule blocks_ok_update [OF _ b]) (use ok in \<open>simp add: image_ok_def\<close>)
  have le: "unat fb \<le> FSSIZE" using ok by (simp add: image_ok_def)
  have same: "img' ! unat x = img ! unat x" if "x \<notin> set (owned img (dis i) (N i))" for x using that a out by metis
  have own: "set (owned img' (dis i) (N i)) = set (owned img (dis i) (N i)) \<union> {x. fb \<le> x \<and> x < fb}"
    using ow by auto
  have dst: "distinct (owned img' (dis i) (N i))" unfolding ow by (rule D(4) [OF i])
  note g = image_ok_grow [OF ok i bl same sh dst own refl order_refl le]
  show "image_ok dis N img' fi fb" using g(1) by simp
  show "j \<in> {1..<fi} \<Longrightarrow> j \<noteq> i \<Longrightarrow> file_data img' (dis j) (N j) = file_data img (dis j) (N j)" by (rule g(2))
  show "x < nmeta \<Longrightarrow> img' ! unat x = img ! unat x" by (rule g(3))
  let ?f = "\<lambda>j. img ! unat (addr_of img (dis i) j)"
  have f: "img' ! unat (addr_of img' (dis i) j) = (?f(k := b)) j" if "j < N i" for j
  proof (cases "j = k")
    case True
    then show ?thesis using ind' [OF k] al D(1) by (simp add: img'_def)
  next
    case False
    then show ?thesis using ind' [OF that] dist(1) [OF that k] out by simp
  qed
  then have "file_data img' (dis i) (N i) = concat (map (?f(k := b)) [0..<N i])"
    unfolding file_data_def by (intro arg_cong [where f = concat] map_cong) simp_all
  also have "\<dots> = put_bytes (k * BSIZE) b (concat (map ?f [0..<N i]))"
  proof (rule put_chunk [OF _ b k])
    show "length (?f j) = BSIZE" if "j < N i" for j
      using D(2) D(5) [OF i addr_in_owned [OF that]] by blast
  qed
  finally show "file_data img' (dis i) (N i) = put_bytes (k * BSIZE) b (file_data img (dis i) (N i))"
    by (simp add: file_data_def)
qed

section \<open>Growing a file by a block\<close>

text \<open>The result of \<open>iappend_block\<close> when it allocates: as \<open>image_ok_grow\<close>, with a block of zeros at the end of the file.\<close>

definition grown :: "(nat \<Rightarrow> dinode) \<Rightarrow> (nat \<Rightarrow> nat) \<Rightarrow> nat \<Rightarrow> nat \<Rightarrow> block list \<Rightarrow> dinode \<Rightarrow> block list \<Rightarrow> u32 \<Rightarrow> bool" where
  "grown dis N fi i img di img' fb' \<longleftrightarrow>
     image_ok (dis(i := di)) (N(i := N i + 1)) img' fi fb' \<and> (\<exists>as. di = (dis i)\<lparr>d_addrs := as\<rparr>) \<and>
     file_data img' di (N i + 1) = file_data img (dis i) (N i) @ zeroes \<and>
     (\<forall>j\<in>{1..<fi}. j \<noteq> i \<longrightarrow> file_data img' (dis j) (N j) = file_data img (dis j) (N j)) \<and>
     (\<forall>x<nmeta. img' ! unat x = img ! unat x)"

lemma get32_zeroes: "get32 zeroes k = 0"
proof -
  have z: "word_of_bytes (replicate n 0) = (0 :: u32)" for n by (induction n) simp_all
  show ?thesis unfolding get32_def zeroes_def by (simp add: z)
qed

lemma length_zeroes [simp]: "length zeroes = BSIZE"
  by (simp add: zeroes_def)

lemma unat_plus_small: "unat (x :: u32) + k \<le> FSSIZE \<Longrightarrow> unat (x + of_nat k) = unat x + k"
  by (subst unat_plus_simple [THEN iffD1]) (auto simp: no_olen_add_nat FSSIZE_def unsigned_of_nat take_bit_nat_eq_self)

lemma interval_one: "unat (x :: u32) + 1 \<le> FSSIZE \<Longrightarrow> {y. x \<le> y \<and> y < x + 1} = {x}"
  using unat_plus_small [of x 1] by (auto simp: word_le_nat_alt word_less_nat_alt unat_inj_u32 [symmetric])

lemma interval_two: "unat (x :: u32) + 2 \<le> FSSIZE \<Longrightarrow> {y. x \<le> y \<and> y < x + 2} = {x, x + 1}"
  using unat_plus_small [of x 1] unat_plus_small [of x 2]
  by (auto simp: word_le_nat_alt word_less_nat_alt unat_inj_u32 [symmetric])

lemma file_data_Suc: "file_data img di (n + 1) = file_data img di n @ img ! unat (addr_of img di n)"
  by (simp add: file_data_def)

lemma nmeta_fb: "image_ok dis N img fi fb \<Longrightarrow> 46 \<le> unat fb"
  by (simp add: image_ok_def layout_values)

lemma grow_direct:
  assumes ok: "image_ok dis N img fi fb" and i: "i \<in> {1..<fi}" and n: "N i < NDIRECT" and sp: "unat fb + 1 \<le> FSSIZE"
  defines "di \<equiv> (dis i)\<lparr>d_addrs := (d_addrs (dis i))[N i := fb]\<rparr>"
  shows "grown dis N fi i img di img (fb + 1)" and "addr_of img di (N i) = fb"
proof -
  note D = image_okD [OF ok]
  note S = D(3) [OF i]
  have len: "length (d_addrs (dis i)) = NDIRECT + 1" using S by (simp add: shape_def)
  have a: "addr_of img di k = (if k = N i then fb else addr_of img (dis i) k)" if "k < NDIRECT" for k
    using that n len by (simp add: addr_of_def di_def)
  show an: "addr_of img di (N i) = fb" using a [OF n] by simp
  have fresh: "fb \<notin> set (owned img (dis i) (N i))" using D(5) [OF i, of fb] by auto
  have m: "map (addr_of img di) [0..<N i] = map (addr_of img (dis i)) [0..<N i]" using a n by simp
  have o: "owned img di (N i + 1) = owned img (dis i) (N i) @ [fb]" using m n an by (simp add: owned_def)
  have fb0: "fb \<noteq> 0" using nmeta_fb [OF ok] by auto
  have "shape img di (N i + 1)" unfolding shape_def
  proof (intro conjI allI impI)
    show "length (d_addrs di) = NDIRECT + 1" by (simp add: di_def len)
    show "N i + 1 \<le> MAXFILE" using n by (simp add: MAXFILE_def NDIRECT_def)
    show "d_addrs di ! k = 0 \<longleftrightarrow> N i + 1 \<le> k" if "k < NDIRECT" for k
      using S that len fb0 n by (cases "k = N i") (auto simp: shape_def di_def nth_list_update)
    show "d_addrs di ! NDIRECT = 0 \<longleftrightarrow> N i + 1 \<le> NDIRECT" using S n by (simp add: shape_def di_def)
  qed (use n in simp)
  moreover have "distinct (owned img di (N i + 1))" unfolding o using fresh D(4) [OF i] by simp
  moreover have "set (owned img di (N i + 1)) = set (owned img (dis i) (N i)) \<union> {x. fb \<le> x \<and> x < fb + 1}"
    unfolding o interval_one [OF sp] by simp
  moreover have "unat (fb + 1) + blocks_needed (N i) = unat fb + blocks_needed (N i + 1)"
    using unat_plus_small [of fb 1] sp n by (simp add: blocks_needed_def)
  moreover have "unat (fb + 1) \<le> FSSIZE" using unat_plus_small [of fb 1] sp by simp
  moreover have "blocks_ok img" using ok by (simp add: image_ok_def)
  ultimately have g: "image_ok (dis(i := di)) (N(i := N i + 1)) img fi (fb + 1)"
    by (intro image_ok_grow(1) [OF ok i]) simp_all
  have "file_data img di (N i) = file_data img (dis i) (N i)"
  proof -
    have "map (\<lambda>k. img ! unat (addr_of img di k)) [0..<N i] = map (\<lambda>k. img ! unat (addr_of img (dis i) k)) [0..<N i]"
      using a n by simp
    then show ?thesis unfolding file_data_def by (rule arg_cong)
  qed
  moreover have "img ! unat fb = zeroes" using D(6) sp by simp
  ultimately have "file_data img di (N i + 1) = file_data img (dis i) (N i) @ zeroes"
    unfolding file_data_Suc an by simp
  then show "grown dis N fi i img di img (fb + 1)" using g by (auto simp: grown_def di_def)
qed

end
