(* ===== verification/Mkfs_Grow.thy ===== *)
theory Mkfs_Grow
  imports Mkfs_Inv
begin

text \<open>
  \<open>mkfs\<close>'s \<open>iappend\<close>: growing a file by a block that needs the indirect block, the allocation of the block at an offset,
  and the loop, which appends the bytes to the file and leaves the other files and the metadata alone.
\<close>

section \<open>Blocks reached through the indirect block\<close>

lemma grown_indirect:
  assumes ok: "image_ok dis N img fi fb" and i: "i \<in> {1..<fi}" and n: "NDIRECT \<le> N i" "N i < MAXFILE"
    and sp: "unat fb + (if N i = NDIRECT then 2 else 1) \<le> FSSIZE"
    and as: "length as = NDIRECT + 1" "\<And>k. k < NDIRECT \<Longrightarrow> as ! k = d_addrs (dis i) ! k"
    and ind: "as ! NDIRECT = (if N i = NDIRECT then fb else d_addrs (dis i) ! NDIRECT)"
    and b: "length b = BSIZE"
      "\<And>k. NDIRECT \<le> k \<Longrightarrow> k < MAXFILE \<Longrightarrow> get32 b (4 * (k - NDIRECT)) =
         (if k = N i then nb else if k < N i then addr_of img (dis i) k else 0)"
    and nb: "nb = (if N i = NDIRECT then fb + 1 else fb)"
    and fb': "fb' = (if N i = NDIRECT then fb + 2 else fb + 1)"
  defines "di \<equiv> (dis i)\<lparr>d_addrs := as\<rparr>" and "img' \<equiv> img[unat (as ! NDIRECT) := b]"
  shows "grown dis N fi i img di img' fb'" and "addr_of img' di (N i) = nb"
proof -
  note D = image_okD [OF ok]
  note S = D(3) [OF i]
  let ?a = "as ! NDIRECT" let ?o = "owned img (dis i) (N i)" let ?m = "map (addr_of img (dis i)) [0..<N i]"
  have o: "?o = ?m @ (if N i = NDIRECT then [] else [?a])" using n ind by (auto simp: owned_def)
  have fbs: "fb \<le> nb \<and> nb < fb' \<and> unat fb' \<le> FSSIZE \<and> 46 \<le> unat fb \<and> unat nb < FSSIZE"
    using sp unat_plus_small [of fb 1] unat_plus_small [of fb 2] nmeta_fb [OF ok]
    by (auto simp: nb fb' word_le_nat_alt word_less_nat_alt split: if_splits)
  have fresh: "x \<notin> set ?o" if "fb \<le> x" for x using D(5) [OF i, of x] that by auto
  have "?a = fb \<or> ?a \<in> set ?o" using o ind by auto
  then have al: "unat ?a < FSSIZE" using D(5) [OF i] sp by (auto split: if_splits)
  have nba: "nb \<noteq> ?a"
  proof (cases "N i = NDIRECT")
    case False
    then have "?a \<in> set ?o" using o by simp
    then show ?thesis using fresh [of nb] fbs by auto
  qed (use sp unat_plus_small [of fb 1] in \<open>auto simp: nb ind unat_inj_u32 [symmetric] split: if_splits\<close>)
  have nz: "fb \<noteq> 0" "nb \<noteq> 0" "?a \<noteq> 0"
  proof -
    show "fb \<noteq> 0" "nb \<noteq> 0" using fbs by auto
    then show "?a \<noteq> 0" using S n ind by (auto simp: shape_def)
  qed
  have b': "img' ! unat ?a = b" using al D(1) by (simp add: img'_def)
  have out: "img' ! unat x = img ! unat x" if "x \<noteq> ?a" for x using that by (simp add: img'_def unat_inj_u32)
  have ad: "addr_of img' di k = addr_of img (dis i) k" if "k < N i" for k
    using that n as(2) b(2) [of k] b' by (auto simp: addr_of_def [of img' di] di_def) (simp add: addr_of_def)
  show an: "addr_of img' di (N i) = nb" using n b(2) [of "N i"] b' by (simp add: addr_of_def di_def)
  have ma: "addr_of img (dis i) k \<noteq> ?a" if "k < N i" for k
  proof (cases "N i = NDIRECT")
    case True
    then show ?thesis using fresh [of fb] addr_in_owned [OF that, of img "dis i"] ind by auto
  next
    case False
    then show ?thesis using owned_distinct(2) [OF D(4) [OF i] _ that] n ind by simp
  qed
  have o': "owned img' di (N i + 1) = ?m @ [nb, ?a]" using n ad an by (simp add: owned_def di_def)
  have nbm: "nb \<notin> set ?m" using fresh [of nb] fbs unfolding o by simp
  have am: "?a \<notin> set ?m"
  proof
    assume "?a \<in> set ?m"
    then obtain k where "k < N i" "?a = addr_of img (dis i) k" by auto
    then show False using ma [of k] by simp
  qed
  have "distinct ?m" using D(4) [OF i] unfolding o by simp
  then have dst: "distinct (owned img' di (N i + 1))" unfolding o' using nba nbm am by simp
  have own: "set (owned img' di (N i + 1)) = set ?o \<union> {x. fb \<le> x \<and> x < fb'}"
    unfolding o o' using interval_one [of fb] interval_two [of fb] sp ind by (auto simp: nb fb' split: if_splits)
  have sh: "shape img' di (N i + 1)" unfolding shape_def
  proof (intro conjI allI impI)
    show "length (d_addrs di) = NDIRECT + 1" by (simp add: di_def as)
    show "N i + 1 \<le> MAXFILE" using n by simp
    show "d_addrs di ! k = 0 \<longleftrightarrow> N i + 1 \<le> k" if "k < NDIRECT" for k
      using S that n as(2) by (simp add: shape_def di_def)
    show "d_addrs di ! NDIRECT = 0 \<longleftrightarrow> N i + 1 \<le> NDIRECT" using n nz by (simp add: di_def)
    show "addr_of img' di k = 0 \<longleftrightarrow> N i + 1 \<le> k" if "NDIRECT \<le> k" "k < MAXFILE" for k
    proof -
      have "addr_of img' di k = get32 (img' ! unat ?a) (4 * (k - NDIRECT))" using that by (simp add: addr_of_def di_def)
      then have "addr_of img' di k = (if k = N i then nb else if k < N i then addr_of img (dis i) k else 0)"
        unfolding b' b(2) [OF that] .
      moreover have "addr_of img (dis i) k \<noteq> 0" if "k < N i"
        using S that \<open>NDIRECT \<le> k\<close> \<open>k < MAXFILE\<close> by (auto simp: shape_def)
      ultimately show ?thesis using nz by auto
    qed
  qed
  have cnt: "unat fb' + blocks_needed (N i) = unat fb + blocks_needed (N i + 1)"
    using sp unat_plus_small [of fb 1] unat_plus_small [of fb 2] n by (auto simp: fb' blocks_needed_def split: if_splits)
  have bl: "blocks_ok img'" unfolding img'_def by (rule blocks_ok_update [OF _ b(1)]) (use ok in \<open>simp add: image_ok_def\<close>)
  have same: "img' ! unat x = img ! unat x" if "x \<notin> set ?o" "x < fb \<or> fb' \<le> x" for x
  proof (rule out)
    show "x \<noteq> ?a" using that \<open>?a = fb \<or> ?a \<in> set ?o\<close> fbs by auto
  qed
  have le: "N i \<le> N i + 1" "unat fb' \<le> FSSIZE" using fbs by simp_all
  note g = image_ok_grow [OF ok i bl same sh dst own cnt le]
  have "file_data img' di (N i) = file_data img (dis i) (N i)"
    unfolding file_data_def by (intro arg_cong [where f = concat] map_cong) (simp_all add: ad out ma)
  moreover have "img' ! unat nb = zeroes" using D(6) [of nb] out [OF nba] fbs by simp
  ultimately have "file_data img' di (N i + 1) = file_data img (dis i) (N i) @ zeroes"
    unfolding file_data_Suc an by simp
  then show "grown dis N fi i img di img' fb'" unfolding grown_def using g by (auto simp: di_def)
qed

section \<open>The block at an offset\<close>

lemma rsect_ok: "unat a < length (m_img s) \<Longrightarrow> rsect a s = Ok (m_img s ! unat a, s)"
  by (simp add: rsect_def)

lemma wsect_ok: "unat a < length (m_img s) \<Longrightarrow> wsect a b s = Ok ((), s\<lparr>m_img := (m_img s)[unat a := b]\<rparr>)"
  by (simp add: wsect_def put_block_def)

lemma next_block_ok: "next_block s = Ok (m_freeblock s, s\<lparr>m_freeblock := m_freeblock s + 1\<rparr>)"
  by (simp add: next_block_def kseq_def kbind_def)

lemma iappend_block_kept:
  assumes ok: "image_ok dis N (m_img s) fi fb" and i: "i \<in> {1..<fi}" and k: "k < N i"
  shows "iappend_block k (dis i) s = Ok ((addr_of (m_img s) (dis i) k, dis i), s)"
proof (cases "k < NDIRECT")
  case True
  have "d_addrs (dis i) ! k \<noteq> 0" using image_okD(3) [OF ok i] True k by (simp add: shape_def)
  then show ?thesis using True by (simp add: iappend_block_def addr_of_def)
next
  case False
  let ?a = "d_addrs (dis i) ! NDIRECT"
  note S = image_okD(3) [OF ok i]
  have a: "?a \<noteq> 0" "addr_of (m_img s) (dis i) k \<noteq> 0" using S k False by (auto simp: shape_def)
  have "?a \<in> set (owned (m_img s) (dis i) (N i))" using k False by (simp add: owned_def)
  then have "unat ?a < length (m_img s)" using image_okD(1,5) [OF ok] i by simp
  then show ?thesis using False a by (simp add: iappend_block_def addr_of_def kbind_Ok rsect_ok)
qed

text \<open>The block behind the last one is allocated.\<close>

lemma iappend_block_grows:
  assumes ok: "image_ok dis N (m_img s) fi (m_freeblock s)" and i: "i \<in> {1..<fi}" and n: "N i < MAXFILE"
    and sp: "unat (m_freeblock s) + (if N i = NDIRECT then 2 else 1) \<le> FSSIZE"
  shows "\<exists>di img' fb'. iappend_block (N i) (dis i) s =
      Ok ((addr_of img' di (N i), di), s\<lparr>m_img := img', m_freeblock := fb'\<rparr>) \<and>
      grown dis N fi i (m_img s) di img' fb'"
proof -
  let ?fb = "m_freeblock s" let ?img = "m_img s" let ?a = "d_addrs (dis i) ! NDIRECT"
  note D = image_okD [OF ok]
  note S = D(3) [OF i]
  have len: "length (d_addrs (dis i)) = NDIRECT + 1" using S by (simp add: shape_def)
  have I: ?thesis if "iappend_block (N i) (dis i) s = Ok ((x, di), s\<lparr>m_img := img', m_freeblock := fb'\<rparr>)"
      "grown dis N fi i ?img di img' fb'" "addr_of img' di (N i) = x" for x di img' fb'
    using that by blast
  consider "N i < NDIRECT" | "N i = NDIRECT" | "NDIRECT < N i" by linarith
  then show ?thesis
  proof cases
    case 1
    let ?di = "(dis i)\<lparr>d_addrs := (d_addrs (dis i))[N i := ?fb]\<rparr>"
    have "d_addrs (dis i) ! N i = 0" using S 1 by (simp add: shape_def)
    then have "iappend_block (N i) (dis i) s = Ok ((?fb, ?di), s\<lparr>m_img := ?img, m_freeblock := ?fb + 1\<rparr>)"
      using 1 len by (simp add: iappend_block_def kbind_Ok next_block_ok)
    moreover have "unat ?fb + 1 \<le> FSSIZE" using sp 1 by simp
    note grow_direct [OF ok i 1 this]
    ultimately show ?thesis by (rule I)
  next
    case 2
    let ?b = "put32 0 (?fb + 1) zeroes" let ?as = "(d_addrs (dis i))[NDIRECT := ?fb]"
    have "?a = 0" using S 2 by (simp add: shape_def)
    moreover have "unat ?fb < length ?img" "?img ! unat ?fb = zeroes" using sp D(1,6) by (simp_all split: if_splits)
    ultimately have r: "iappend_block (N i) (dis i) s =
        Ok ((?fb + 1, (dis i)\<lparr>d_addrs := ?as\<rparr>), s\<lparr>m_img := ?img[unat ?fb := ?b], m_freeblock := ?fb + 2\<rparr>)"
      using 2 len by (simp add: iappend_block_def kbind_Ok kseq_Ok next_block_ok rsect_ok wsect_ok get32_zeroes BSIZE_def Let_def)
    have b: "get32 ?b (4 * (k - NDIRECT)) =
        (if k = N i then ?fb + 1 else if k < N i then addr_of ?img (dis i) k else 0)" if "NDIRECT \<le> k" for k
      using that 2 by (simp add: get32_put32_other get32_zeroes BSIZE_def)
    have g: "grown dis N fi i ?img ((dis i)\<lparr>d_addrs := ?as\<rparr>) (?img[unat (?as ! NDIRECT) := ?b]) (?fb + 2)"
      "addr_of (?img[unat (?as ! NDIRECT) := ?b]) ((dis i)\<lparr>d_addrs := ?as\<rparr>) (N i) = ?fb + 1"
      by (rule grown_indirect [OF ok i _ n sp, where fb' = "?fb + 2"]; use 2 len b in \<open>simp add: BSIZE_def\<close>)+
    show ?thesis by (rule I [OF _ g]) (use r len in simp)
  next
    case 3
    let ?b = "put32 (4 * (N i - NDIRECT)) ?fb (?img ! unat ?a)" let ?as = "d_addrs (dis i)"
    have a: "?a \<noteq> 0" "addr_of ?img (dis i) (N i) = 0" using S 3 n by (auto simp: shape_def)
    have "?a \<in> set (owned ?img (dis i) (N i))" using 3 by (simp add: owned_def)
    then have al: "unat ?a < length ?img" "length (?img ! unat ?a) = BSIZE" using D(1,2,5) i by simp_all
    have off: "4 * (N i - NDIRECT) + 4 \<le> BSIZE" using n by (simp add: MAXFILE_def NINDIRECT_def BSIZE_def)
    have r: "iappend_block (N i) (dis i) s =
        Ok ((?fb, dis i), s\<lparr>m_img := ?img[unat ?a := ?b], m_freeblock := ?fb + 1\<rparr>)"
      using 3 a al off by (simp add: iappend_block_def kbind_Ok kseq_Ok next_block_ok rsect_ok wsect_ok addr_of_def Let_def)
    have b: "get32 ?b (4 * (k - NDIRECT)) =
        (if k = N i then ?fb else if k < N i then addr_of ?img (dis i) k else 0)" if k: "NDIRECT \<le> k" "k < MAXFILE" for k
    proof (cases "k = N i")
      case True
      then show ?thesis using al off by simp
    next
      case False
      then have "get32 ?b (4 * (k - NDIRECT)) = addr_of ?img (dis i) k"
        using k 3 al off by (subst get32_put32_other) (auto simp: addr_of_def)
      then show ?thesis using False S k 3 by (auto simp: shape_def)
    qed
    have g: "grown dis N fi i ?img ((dis i)\<lparr>d_addrs := ?as\<rparr>) (?img[unat (?as ! NDIRECT) := ?b]) (?fb + 1)"
      "addr_of (?img[unat (?as ! NDIRECT) := ?b]) ((dis i)\<lparr>d_addrs := ?as\<rparr>) (N i) = ?fb"
      by (rule grown_indirect [OF ok i _ n sp, where fb' = "?fb + 1"]; use 3 len b al off in simp)+
    show ?thesis by (rule I [OF _ g]) (use r in simp)
  qed
qed

section \<open>The loop\<close>

definition nblk :: "nat \<Rightarrow> nat" where
  "nblk n = (n + BSIZE - 1) div BSIZE"

text \<open>The disk has room for files with these numbers of blocks.\<close>

definition fits :: "nat \<Rightarrow> (nat \<Rightarrow> nat) \<Rightarrow> bool" where
  "fits fi N \<longleftrightarrow> unat nmeta + (\<Sum>j\<in>{1..<fi}. blocks_needed (N j)) \<le> FSSIZE"

text \<open>The content \<open>C i\<close> of each inode is in its blocks, the rest of the last one is zero.\<close>

definition files_ok :: "(nat \<Rightarrow> dinode) \<Rightarrow> (nat \<Rightarrow> u8 list) \<Rightarrow> block list \<Rightarrow> nat \<Rightarrow> u32 \<Rightarrow> bool" where
  "files_ok dis C img fi fb \<longleftrightarrow> image_ok dis (\<lambda>i. nblk (length (C i))) img fi fb \<and>
     (\<forall>i\<in>{1..<fi}. file_data img (dis i) (nblk (length (C i))) =
        C i @ replicate (nblk (length (C i)) * BSIZE - length (C i)) 0)"

lemma nblk_eq: "k * BSIZE < n \<Longrightarrow> n \<le> (k + 1) * BSIZE \<Longrightarrow> nblk n = k + 1"
  unfolding nblk_def by (rule div_nat_eqI) (auto simp: BSIZE_def)

lemma nblk_mult: "nblk (k * BSIZE) = k"
  unfolding nblk_def by (rule div_nat_eqI) (auto simp: BSIZE_def)

lemma nblk_mono: "m \<le> n \<Longrightarrow> nblk m \<le> nblk n"
  unfolding nblk_def by (intro div_le_mono) simp

lemma blocks_needed_mono: "m \<le> n \<Longrightarrow> blocks_needed m \<le> blocks_needed n"
  by (auto simp: blocks_needed_def)

lemma fits_mono: "fits fi N \<Longrightarrow> (\<And>j. N' j \<le> N j) \<Longrightarrow> fits fi N'"
proof -
  assume f: "fits fi N" and le: "\<And>j. N' j \<le> N j"
  have "(\<Sum>j\<in>{1..<fi}. blocks_needed (N' j)) \<le> (\<Sum>j\<in>{1..<fi}. blocks_needed (N j))"
    by (intro sum_mono blocks_needed_mono le)
  then show ?thesis using f by (simp add: fits_def)
qed

lemma room:
  assumes ok: "image_ok dis N img fi fb" and i: "i \<in> {1..<fi}" and f: "fits fi (N(i := m))" and m: "N i < m"
  shows "unat fb + (if N i = NDIRECT then 2 else 1) \<le> FSSIZE"
proof -
  let ?s = "\<Sum>j\<in>{1..<fi} - {i}. blocks_needed (N j)"
  have "(\<Sum>j\<in>{1..<fi}. blocks_needed (N j)) = blocks_needed (N i) + ?s"
    "(\<Sum>j\<in>{1..<fi}. blocks_needed ((N(i := m)) j)) = blocks_needed m + ?s"
    using i by (subst sum.remove [of _ i]; auto)+
  moreover have "blocks_needed (N i + 1) \<le> blocks_needed m" using m by (intro blocks_needed_mono) simp
  moreover have "blocks_needed (N i + 1) = blocks_needed (N i) + (if N i = NDIRECT then 2 else 1)"
    by (auto simp: blocks_needed_def)
  ultimately show ?thesis using ok f by (simp add: image_ok_def fits_def)
qed

text \<open>The block at the end of the file is there when \<open>iappend\<close> writes to it.\<close>

lemma iappend_block_reaches:
  assumes ok: "files_ok dis C (m_img s) fi (m_freeblock s)" and i: "i \<in> {1..<fi}"
    and n: "length (C i) div BSIZE < MAXFILE"
  defines "N \<equiv> \<lambda>i. nblk (length (C i))" and "k \<equiv> length (C i) div BSIZE"
  assumes f: "fits fi (N(i := m))" and m: "k < m"
  shows "\<exists>di img' fb'. iappend_block k (dis i) s =
      Ok ((addr_of img' di k, di), s\<lparr>m_img := img', m_freeblock := fb'\<rparr>) \<and>
      image_ok (dis(i := di)) (N(i := k + 1)) img' fi fb' \<and> (\<exists>as. di = (dis i)\<lparr>d_addrs := as\<rparr>) \<and>
      file_data img' di (k + 1) = C i @ replicate ((k + 1) * BSIZE - length (C i)) 0 \<and>
      (\<forall>j\<in>{1..<fi}. j \<noteq> i \<longrightarrow> file_data img' (dis j) (N j) = file_data (m_img s) (dis j) (N j)) \<and>
      (\<forall>x<nmeta. img' ! unat x = m_img s ! unat x)"
proof -
  have io: "image_ok dis N (m_img s) fi (m_freeblock s)" and fd: "file_data (m_img s) (dis i) (N i) =
      C i @ replicate (N i * BSIZE - length (C i)) 0"
    using ok i by (simp_all add: files_ok_def N_def)
  show ?thesis
  proof (cases "length (C i) = k * BSIZE")
    case True
    then have Ni: "N i = k" by (simp add: N_def nblk_mult)
    note g = iappend_block_grows [OF io i, unfolded Ni, OF n [folded k_def] room [OF io i f, unfolded Ni, OF m]]
    have "file_data (m_img s) (dis i) k @ zeroes = C i @ replicate ((k + 1) * BSIZE - length (C i)) 0"
      using fd True by (simp add: Ni zeroes_def)
    then show ?thesis using g unfolding grown_def Ni by metis
  next
    case False
    have "k * BSIZE \<le> length (C i)" "length (C i) < (k + 1) * BSIZE"
      using dividend_less_div_times [of BSIZE "length (C i)"] by (simp_all add: k_def BSIZE_def)
    then have Ni: "N i = k + 1" using False nblk_eq [of k "length (C i)"] by (simp add: N_def)
    then have "N(i := k + 1) = N" by auto
    moreover have "m_img s = m_img s" "s\<lparr>m_img := m_img s, m_freeblock := m_freeblock s\<rparr> = s" by simp_all
    moreover have "\<exists>as. dis i = (dis i)\<lparr>d_addrs := as\<rparr>" by (rule exI [of _ "d_addrs (dis i)"]) simp
    moreover have "k < N i" using Ni by simp
    note iappend_block_kept [OF io i this]
    ultimately show ?thesis using io fd Ni by (intro exI [of _ "dis i"] exI [of _ "m_img s"] exI [of _ "m_freeblock s"]) auto
  qed
qed

lemma put_chunk_at_end:
  assumes "k \<le> length c" "length ch \<le> z"
  shows "put_bytes k (put_bytes (length c - k) ch (drop k (c @ replicate z 0))) (c @ replicate z 0) =
    (c @ ch) @ replicate (z - length ch) 0"
proof -
  have b: "put_bytes (length c - k) ch (drop k (c @ replicate z 0)) = drop k c @ ch @ replicate (z - length ch) 0"
    using assms by (simp add: put_bytes_def)
  have "k + length (drop k c @ ch @ replicate (z - length ch) 0) = length (c @ replicate z 0)" using assms by simp
  then have "put_bytes k (drop k c @ ch @ replicate (z - length ch) 0) (c @ replicate z 0) =
      take k c @ drop k c @ ch @ replicate (z - length ch) 0"
    using assms by (simp add: put_bytes_def)
  then show ?thesis unfolding b by simp
qed

lemma length_file_data:
  assumes "image_ok dis N img fi fb" "i \<in> {1..<fi}" "n \<le> N i"
  shows "length (file_data img (dis i) n) = n * BSIZE"
  unfolding file_data_def
proof (rule length_concat_blocks)
  show "length (img ! unat (addr_of img (dis i) k)) = BSIZE" if "k < n" for k
    using image_okD(2,5) [OF assms(1)] addr_in_owned [of k "N i"] that assms(2,3) by fastforce
qed

text \<open>One round of the loop appends what fits into the last block.\<close>

lemma append_chunk:
  assumes ok: "files_ok dis C (m_img s) fi (m_freeblock s)" and i: "i \<in> {1..<fi}"
    and len: "length (C i) + length p \<le> MAXFILE * BSIZE" and p: "p \<noteq> []"
    and f: "fits fi (\<lambda>j. nblk (length ((C(i := C i @ p)) j)))"
  defines "k \<equiv> length (C i) div BSIZE"
  defines "n1 \<equiv> min (length p) ((k + 1) * BSIZE - length (C i))"
  shows "\<exists>di img' fb'. k < MAXFILE \<and> 0 < n1 \<and>
      iappend_block k (dis i) s = Ok ((addr_of img' di k, di), s\<lparr>m_img := img', m_freeblock := fb'\<rparr>) \<and>
      unat (addr_of img' di k) < length img' \<and> (\<exists>as. di = (dis i)\<lparr>d_addrs := as\<rparr>) \<and>
      (let x = unat (addr_of img' di k); img'' = img'[x := put_bytes (length (C i) - k * BSIZE) (take n1 p) (img' ! x)]
       in files_ok (dis(i := di)) (C(i := C i @ take n1 p)) img'' fi fb' \<and>
         (\<forall>x<nmeta. img'' ! unat x = m_img s ! unat x))"
proof -
  let ?N = "\<lambda>i. nblk (length (C i))" let ?m = "nblk (length (C i) + length p)" let ?C' = "C(i := C i @ take n1 p)"
  have k: "k * BSIZE \<le> length (C i)" "length (C i) < (k + 1) * BSIZE"
    using dividend_less_div_times [of BSIZE "length (C i)"] by (simp_all add: k_def BSIZE_def)
  have n1: "0 < n1" "n1 \<le> length p" "n1 \<le> (k + 1) * BSIZE - length (C i)" using k p by (simp_all add: n1_def)
  have "length (C i) < MAXFILE * BSIZE" using len p by (cases p) simp_all
  then have kM: "k < MAXFILE" unfolding k_def by (simp add: less_mult_imp_div_less)
  have e: "nblk (length (C i) + n1) = k + 1" by (rule nblk_eq) (use k n1 in auto)
  have "k + 1 \<le> ?m" unfolding e [symmetric] by (intro nblk_mono) (use n1 in simp)
  then have m: "k < ?m" by simp
  have "(\<lambda>j. nblk (length ((C(i := C i @ p)) j))) = ?N(i := ?m)" by auto
  then have f': "fits fi (?N(i := ?m))" using f by simp
  obtain di img' fb' where r: "iappend_block k (dis i) s = Ok ((addr_of img' di k, di), s\<lparr>m_img := img', m_freeblock := fb'\<rparr>)"
    and io: "image_ok (dis(i := di)) (?N(i := k + 1)) img' fi fb'" and as: "\<exists>as. di = (dis i)\<lparr>d_addrs := as\<rparr>"
    and fd: "file_data img' di (k + 1) = C i @ replicate ((k + 1) * BSIZE - length (C i)) 0"
    and oth: "\<And>j. j \<in> {1..<fi} \<Longrightarrow> j \<noteq> i \<Longrightarrow> file_data img' (dis j) (?N j) = file_data (m_img s) (dis j) (?N j)"
    and meta: "\<And>x. x < nmeta \<Longrightarrow> img' ! unat x = m_img s ! unat x"
    using iappend_block_reaches [OF ok i kM [unfolded k_def] f' m [unfolded k_def]] unfolding k_def by blast
  let ?x = "unat (addr_of img' di k)"
  let ?b = "put_bytes (length (C i) - k * BSIZE) (take n1 p) (img' ! ?x)"
  have "length (file_data img' di k) = k * BSIZE" using length_file_data [OF io i, of k] by simp
  then have blk: "img' ! ?x = drop (k * BSIZE) (C i @ replicate ((k + 1) * BSIZE - length (C i)) 0)"
    unfolding fd [symmetric] file_data_Suc by simp
  have "addr_of img' di k \<in> set (owned img' di (k + 1))" by (rule addr_in_owned) simp
  then have x: "?x < FSSIZE" using image_okD(5) [OF io i] by simp
  then have lb: "length ?b = BSIZE" using image_okD(2) [OF io x] k n1 by simp
  note w = write_block_ok [OF io i _ lb, of k, simplified]
  let ?img = "img'[?x := ?b]"
  have mn: "min (length p) n1 = n1" using n1 by simp
  have N': "(\<lambda>j. nblk (length (?C' j))) = ?N(i := k + 1)" using e n1 by (auto simp: min_def)
  have "file_data ?img di (k + 1) = put_bytes (k * BSIZE) ?b (file_data img' di (k + 1))" using w(2) by simp
  also have "\<dots> = (C i @ take n1 p) @ replicate ((k + 1) * BSIZE - length (C i) - length (take n1 p)) 0"
    unfolding fd blk by (rule put_chunk_at_end) (use k n1 in simp_all)
  finally have "file_data ?img di (k + 1) = (C i @ take n1 p) @ replicate ((k + 1) * BSIZE - length (C i @ take n1 p)) 0"
    by (simp only: length_append diff_diff_left)
  moreover have "file_data ?img (dis j) (?N j) = C j @ replicate (?N j * BSIZE - length (C j)) 0"
    if "j \<in> {1..<fi}" "j \<noteq> i" for j
    using w(3) [of j] oth [OF that] ok that by (simp add: files_ok_def)
  ultimately have "files_ok (dis(i := di)) ?C' ?img fi fb'"
    unfolding files_ok_def N' using w(1) e mn by simp
  moreover have "\<forall>x<nmeta. ?img ! unat x = m_img s ! unat x" using w(4) meta by simp
  moreover have "?x < length img'" using x image_okD(1) [OF io] by simp
  ultimately show ?thesis using kM n1(1) r as unfolding Let_def by blast
qed

text \<open>All rounds together append all bytes.\<close>

lemma iappend_loop_appends:
  assumes "files_ok dis C (m_img s) fi (m_freeblock s)" "i \<in> {1..<fi}"
    and "length (C i) + length p \<le> MAXFILE * BSIZE" "fits fi (\<lambda>j. nblk (length ((C(i := C i @ p)) j)))"
  shows "\<exists>di img' fb'. iappend_loop p (length (C i)) (dis i) s =
      Ok ((length (C i) + length p, di), s\<lparr>m_img := img', m_freeblock := fb'\<rparr>) \<and>
      (\<exists>as. di = (dis i)\<lparr>d_addrs := as\<rparr>) \<and> files_ok (dis(i := di)) (C(i := C i @ p)) img' fi fb' \<and>
      (\<forall>x<nmeta. img' ! unat x = m_img s ! unat x)"
  using assms
proof (induction "length p" arbitrary: p s dis C rule: less_induct)
  case less
  show ?case
  proof (cases "p = []")
    case True
    moreover have "\<exists>as. dis i = (dis i)\<lparr>d_addrs := as\<rparr>" by (rule exI [of _ "d_addrs (dis i)"]) simp
    ultimately show ?thesis using less.prems(1)
      by (intro exI [of _ "dis i"] exI [of _ "m_img s"] exI [of _ "m_freeblock s"]) (simp add: iappend_loop.simps)
  next
    case False
    let ?k = "length (C i) div BSIZE"
    let ?n1 = "min (length p) ((?k + 1) * BSIZE - length (C i))"
    obtain di img1 fb1 where kM: "?k < MAXFILE" and n1: "0 < ?n1"
      and r: "iappend_block ?k (dis i) s = Ok ((addr_of img1 di ?k, di), s\<lparr>m_img := img1, m_freeblock := fb1\<rparr>)"
      and x: "unat (addr_of img1 di ?k) < length img1" and as: "\<exists>as. di = (dis i)\<lparr>d_addrs := as\<rparr>"
      and rest: "let x = unat (addr_of img1 di ?k);
          img'' = img1[x := put_bytes (length (C i) - ?k * BSIZE) (take ?n1 p) (img1 ! x)]
       in files_ok (dis(i := di)) (C(i := C i @ take ?n1 p)) img'' fi fb1 \<and>
         (\<forall>x<nmeta. img'' ! unat x = m_img s ! unat x)"
      using append_chunk [OF less.prems(1,2,3) False less.prems(4)] by blast
    let ?x = "unat (addr_of img1 di ?k)"
    define img2 where "img2 = img1[?x := put_bytes (length (C i) - ?k * BSIZE) (take ?n1 p) (img1 ! ?x)]"
    define n1 where "n1 = ?n1"
    define s2 where "s2 = s\<lparr>m_img := img1, m_freeblock := fb1, m_img := img2\<rparr>"
    let ?C = "C(i := C i @ take n1 p)" let ?dis = "dis(i := di)"
    have ok: "files_ok ?dis ?C (m_img s2) fi (m_freeblock s2)" "\<forall>x<nmeta. m_img s2 ! unat x = m_img s ! unat x"
      using rest by (simp_all add: Let_def img2_def n1_def s2_def)
    have n1': "0 < n1" "n1 \<le> length p" using n1 by (simp_all add: n1_def)
    have l: "length (?C i) = length (C i) + n1" using n1' by simp
    have "?C(i := ?C i @ drop n1 p) = C(i := C i @ p)" by simp
    then obtain di' img' fb' as' where r2: "iappend_loop (drop n1 p) (length (?C i)) (?dis i) s2 =
        Ok ((length (?C i) + length (drop n1 p), di'), s2\<lparr>m_img := img', m_freeblock := fb'\<rparr>)"
      and di': "di' = (?dis i)\<lparr>d_addrs := as'\<rparr>" and ok': "files_ok (?dis(i := di')) (C(i := C i @ p)) img' fi fb'"
      and meta: "\<forall>x<nmeta. img' ! unat x = m_img s2 ! unat x"
      using less.hyps [OF _ ok(1) less.prems(2), of "drop n1 p"] less.prems(3,4) n1' False l by auto
    have "iappend_loop p (length (C i)) (dis i) s = iappend_loop (drop n1 p) (length (C i) + n1) di s2"
      using False kM x by (subst iappend_loop.simps)
        (simp add: Let_def r kbind_Ok kseq_Ok rsect_ok wsect_ok s2_def img2_def n1_def)
    also have "\<dots> = Ok ((length (C i) + length p, di'), s\<lparr>m_img := img', m_freeblock := fb'\<rparr>)"
      using r2 n1' by (simp add: s2_def min_absorb2)
    finally have r3: "iappend_loop p (length (C i)) (dis i) s =
        Ok ((length (C i) + length p, di'), s\<lparr>m_img := img', m_freeblock := fb'\<rparr>)" .
    have "di' = (dis i)\<lparr>d_addrs := as'\<rparr>" using as di' by auto
    moreover have "\<forall>x<nmeta. img' ! unat x = m_img s ! unat x" using meta ok(2) by simp
    moreover have "files_ok (dis(i := di')) (C(i := C i @ p)) img' fi fb'" using ok' by simp
    ultimately show ?thesis using r3 by blast
  qed
qed

end
