(* ===== verification/Mkfs_Correct.thy ===== *)
theory Mkfs_Correct
  imports Mkfs_Grow
begin

text \<open>
  What the image of \<open>mkfs\<close> holds at the end: inodes, files, the root directory, the free map.
  \<open>mkfs_ok\<close> is the invariant between two calls of \<open>iappend\<close> or \<open>ialloc\<close>.
\<close>

section \<open>Inodes in the image\<close>

definition inodes_max :: nat where
  "inodes_max = 208"

definition dinode_at :: "block list \<Rightarrow> nat \<Rightarrow> dinode" where
  "dinode_at img i = dinode_of_bytes (drop (dinode_off (of_nat i)) (img ! unat (IBLOCK (of_nat i) mkfs_sb)))"

lemma inode_place:
  assumes "i < inodes_max"
  shows "unat (IBLOCK (of_nat i) mkfs_sb) = 32 + i div 16" "unat ((of_nat i :: u32) mod IPB) = i mod 16"
proof -
  have i: "unat (of_nat i :: u32) = i" using assms by (simp add: inodes_max_def unsigned_of_nat take_bit_nat_eq_self)
  show "unat ((of_nat i :: u32) mod IPB) = i mod 16" by (simp add: IPB_def unat_mod i)
  have d: "unat ((of_nat i :: u32) div IPB) = i div 16" by (simp add: IPB_def unat_div i)
  have "i div 16 < 13" using assms by (simp add: inodes_max_def div_less_iff_less_mult)
  then show "unat (IBLOCK (of_nat i) mkfs_sb) = 32 + i div 16"
    using d by (simp add: IBLOCK_def layout_values unat_word_ariths)
qed

lemma winode_ok:
  assumes bl: "blocks_ok (m_img s)" and i: "i < inodes_max" and di: "length (d_addrs di) = NDIRECT + 1"
  shows "\<exists>img'. winode (of_nat i) di s = Ok ((), s\<lparr>m_img := img'\<rparr>) \<and> blocks_ok img' \<and>
    (\<forall>j<inodes_max. dinode_at img' j = (if j = i then di else dinode_at (m_img s) j)) \<and>
    (\<forall>x. x < 32 \<or> 45 \<le> x \<longrightarrow> img' ! x = m_img s ! x)"
proof -
  let ?b = "32 + i div 16" let ?blk = "m_img s ! ?b"
  let ?new = "put_bytes (dinode_off (of_nat i)) (bytes_of_dinode di) ?blk"
  let ?img = "(m_img s)[?b := ?new]"
  note p = inode_place [OF i]
  have d: "i div 16 < 13" using i by (simp add: inodes_max_def div_less_iff_less_mult)
  have len: "length (m_img s) = FSSIZE" "?b < length (m_img s)" using bl d by (simp_all add: blocks_ok_def FSSIZE_def)
  then have lb: "length ?blk = BSIZE" using bl nth_mem unfolding blocks_ok_def by blast
  have ln: "length ?new = BSIZE"
    using dinode_off_bound [of "of_nat i"] lb by (simp add: length_bytes_of_dinode [OF di])
  have "winode (of_nat i) di s = Ok ((), s\<lparr>m_img := ?img\<rparr>)"
    using len by (simp add: winode_def Let_def kbind_Ok rsect_ok wsect_ok p)
  moreover have "blocks_ok ?img" by (rule blocks_ok_update [OF bl ln])
  moreover have "dinode_at ?img j = (if j = i then di else dinode_at (m_img s) j)" if j: "j < inodes_max" for j
  proof -
    note pj = inode_place [OF j]
    have "dinode_at ?img i = di"
    proof -
      obtain k :: nat where k: "k < inodes_max" "k mod 16 \<noteq> i mod 16"
        by (rule that [of "if i mod 16 = 0 then 1 else 0"]) (auto simp: inodes_max_def)
      then have "(of_nat k :: u32) mod IPB \<noteq> of_nat i mod IPB" using p(2) inode_place(2) [OF k(1)] by metis
      then show ?thesis using dinode_roundtrip [OF lb di, THEN conjunct1] len by (simp add: dinode_at_def p)
    qed
    moreover have "dinode_at ?img j = dinode_at (m_img s) j" if ne: "j \<noteq> i"
    proof (cases "j div 16 = i div 16")
      case True
      then have "j mod 16 \<noteq> i mod 16" using ne by (metis div_mult_mod_eq)
      then have "(of_nat j :: u32) mod IPB \<noteq> of_nat i mod IPB" using p(2) pj(2) by metis
      then show ?thesis using dinode_roundtrip [OF lb di, THEN conjunct2] len True by (simp add: dinode_at_def pj)
    qed (simp add: dinode_at_def pj)
    ultimately show ?thesis by simp
  qed
  moreover have "\<forall>x. x < 32 \<or> 45 \<le> x \<longrightarrow> ?img ! x = m_img s ! x" using d by auto
  ultimately show ?thesis by blast
qed

lemma rinode_ok:
  assumes "blocks_ok (m_img s)" "i < inodes_max"
  shows "rinode (of_nat i) s = Ok (dinode_at (m_img s) i, s)"
proof -
  have "i div 16 < 13" using assms(2) by (simp add: inodes_max_def div_less_iff_less_mult)
  then have "32 + i div 16 < length (m_img s)" using assms(1) by (simp add: blocks_ok_def FSSIZE_def)
  then show ?thesis by (simp add: rinode_def Let_def kbind_Ok rsect_ok inode_place [OF assms(2)] dinode_at_def)
qed

section \<open>Changes of the metadata\<close>

lemma addrs_cong:
  assumes "d_addrs di' = d_addrs di"
  shows "addr_of img di' = addr_of img di" "owned img di' n = owned img di n"
    "file_data img di' n = file_data img di n" "shape img di' n \<longleftrightarrow> shape img di n"
proof -
  show a: "addr_of img di' = addr_of img di" using assms by (simp add: addr_of_def fun_eq_iff)
  show "owned img di' n = owned img di n" "file_data img di' n = file_data img di n" "shape img di' n \<longleftrightarrow> shape img di n"
    by (simp_all add: owned_def file_data_def shape_def a assms)
qed

lemma files_ok_frame:
  assumes ok: "files_ok dis C img fi fb" and bl: "blocks_ok img'"
    and a: "\<And>i. i \<in> {1..<fi} \<Longrightarrow> d_addrs (dis' i) = d_addrs (dis i)"
    and same: "\<And>x. nmeta \<le> x \<Longrightarrow> unat x < FSSIZE \<Longrightarrow> img' ! unat x = img ! unat x"
  shows "files_ok dis' C img' fi fb"
proof -
  let ?N = "\<lambda>i. nblk (length (C i))"
  have ok': "image_ok dis ?N img fi fb" using ok by (simp add: files_ok_def)
  note D = image_okD [OF ok']
  have s: "img' ! unat x = img ! unat x" if "i \<in> {1..<fi}" "x \<in> set (owned img (dis i) (?N i))" for i x
    using D(5) [OF that] by (intro same) auto
  have e: "owned img' (dis' i) (?N i) = owned img (dis i) (?N i)"
    "file_data img' (dis' i) (?N i) = file_data img (dis i) (?N i)"
    "shape img' (dis' i) (?N i) \<longleftrightarrow> shape img (dis i) (?N i)" if i: "i \<in> {1..<fi}" for i
    unfolding addrs_cong [OF a [OF i]] by (rule owned_frame [OF s [OF i]], assumption)+
  have fbn: "nmeta \<le> fb" using ok' by (simp add: image_ok_def word_le_nat_alt)
  have z: "img' ! unat x = zeroes" if "fb \<le> x" "unat x < FSSIZE" for x
    using same [of x] D(6) [OF that] fbn that by simp
  have "image_ok dis' ?N img' fi fb"
    unfolding image_ok_def
  proof (intro conjI)
    show "\<forall>i\<in>{1..<fi}. shape img' (dis' i) (?N i) \<and> distinct (owned img' (dis' i) (?N i))" using D(3,4) e by simp
    show "\<forall>i\<in>{1..<fi}. \<forall>j\<in>{1..<fi}. i \<noteq> j \<longrightarrow> set (owned img' (dis' i) (?N i)) \<inter> set (owned img' (dis' j) (?N j)) = {}"
      using ok' e unfolding image_ok_def by simp
    show "\<forall>x. nmeta \<le> x \<and> x < fb \<longleftrightarrow> (\<exists>i\<in>{1..<fi}. x \<in> set (owned img' (dis' i) (?N i)))"
    proof
      fix x
      have "(\<exists>i\<in>{1..<fi}. x \<in> set (owned img' (dis' i) (?N i))) \<longleftrightarrow> (\<exists>i\<in>{1..<fi}. x \<in> set (owned img (dis i) (?N i)))"
        by (rule bex_cong [OF refl]) (simp add: e)
      then show "nmeta \<le> x \<and> x < fb \<longleftrightarrow> (\<exists>i\<in>{1..<fi}. x \<in> set (owned img' (dis' i) (?N i)))"
        using ok' unfolding image_ok_def by blast
    qed
  qed (use bl z ok' in \<open>auto simp: image_ok_def\<close>)
  then show ?thesis using ok e by (simp add: files_ok_def)
qed

text \<open>A new inode has no blocks.\<close>

lemma files_ok_new:
  assumes ok: "files_ok dis C img fi fb" and fi: "1 \<le> fi" and z: "d_addrs (dis fi) = replicate (NDIRECT + 1) 0"
  shows "files_ok dis (C(fi := [])) img (fi + 1) fb"
proof -
  let ?N = "\<lambda>i. nblk (length (C i))" let ?N' = "\<lambda>i. nblk (length ((C(fi := [])) i))"
  have ok': "image_ok dis ?N img fi fb" using ok by (simp add: files_ok_def)
  have n0: "nblk 0 = 0" using nblk_mult [of 0] by simp
  have dom: "{1..<fi + 1} = insert fi {1..<fi}" using fi by auto
  have o: "owned img (dis fi) 0 = []" by (simp add: owned_def)
  have sh: "shape img (dis fi) 0" by (simp add: shape_def z del: replicate_Suc)
  have same: "?N' i = ?N i" if "i \<in> {1..<fi}" for i using that by auto
  have "image_ok dis ?N' img (fi + 1) fb"
    unfolding image_ok_def dom
  proof (intro conjI)
    show "\<forall>i\<in>insert fi {1..<fi}. shape img (dis i) (?N' i) \<and> distinct (owned img (dis i) (?N' i))"
      using ok' n0 o sh by (auto simp: image_ok_def)
    show "\<forall>i\<in>insert fi {1..<fi}. \<forall>j\<in>insert fi {1..<fi}. i \<noteq> j \<longrightarrow>
        set (owned img (dis i) (?N' i)) \<inter> set (owned img (dis j) (?N' j)) = {}"
      using ok' n0 o by (auto simp: image_ok_def)
    show "\<forall>x. nmeta \<le> x \<and> x < fb \<longleftrightarrow> (\<exists>i\<in>insert fi {1..<fi}. x \<in> set (owned img (dis i) (?N' i)))"
      using ok' n0 o unfolding image_ok_def by auto
    show "unat fb = unat nmeta + (\<Sum>i\<in>insert fi {1..<fi}. blocks_needed (?N' i))"
      using ok' n0 by (simp add: image_ok_def blocks_needed_def)
  qed (use ok' in \<open>auto simp: image_ok_def\<close>)
  then show ?thesis using ok n0 by (auto simp: files_ok_def file_data_def)
qed

section \<open>Appending to a file and allocating an inode\<close>

text \<open>Inode \<open>i\<close> has type \<open>T i\<close> and content \<open>C i\<close>; the others are free.\<close>

definition mkfs_ok :: "(nat \<Rightarrow> u16) \<Rightarrow> (nat \<Rightarrow> u8 list) \<Rightarrow> nat \<Rightarrow> mkfs_state \<Rightarrow> bool" where
  "mkfs_ok T C fi s \<longleftrightarrow> files_ok (dinode_at (m_img s)) C (m_img s) fi (m_freeblock s) \<and>
     m_freeinode s = of_nat fi \<and> 1 \<le> fi \<and> fi \<le> inodes_max \<and> superblock_of_bytes (m_img s ! 1) = mkfs_sb \<and>
     (\<forall>i<inodes_max. if 1 \<le> i \<and> i < fi
        then d_type (dinode_at (m_img s) i) = T i \<and> d_nlink (dinode_at (m_img s) i) = 1 \<and>
          d_size (dinode_at (m_img s) i) = of_nat (length (C i))
        else d_type (dinode_at (m_img s) i) = 0)"

lemma runsI: "m s = Ok (x, t) \<Longrightarrow> Q x t \<Longrightarrow> runs m s Q"
  by (simp add: runs_def)

lemma dinode_at_cong: "img' ! unat (IBLOCK (of_nat i) mkfs_sb) = img ! unat (IBLOCK (of_nat i) mkfs_sb) \<Longrightarrow>
    dinode_at img' i = dinode_at img i"
  by (simp add: dinode_at_def)

lemma iappend_ok:
  assumes ok: "mkfs_ok T C fi s" and i: "i \<in> {1..<fi}" and len: "length (C i) + length p \<le> MAXFILE * BSIZE"
    and f: "fits fi (\<lambda>j. nblk (length ((C(i := C i @ p)) j)))"
  shows "runs (iappend (of_nat i) p) s (\<lambda>_. mkfs_ok T (C(i := C i @ p)) fi)"
proof -
  let ?dis = "dinode_at (m_img s)" let ?C = "C(i := C i @ p)"
  have fo: "files_ok ?dis C (m_img s) fi (m_freeblock s)" and fi: "fi \<le> inodes_max" and
    H: "\<And>j. j < inodes_max \<Longrightarrow> if 1 \<le> j \<and> j < fi
        then d_type (?dis j) = T j \<and> d_nlink (?dis j) = 1 \<and> d_size (?dis j) = of_nat (length (C j))
        else d_type (?dis j) = 0"
    using ok by (simp_all add: mkfs_ok_def)
  have im: "i < inodes_max" using i fi by simp
  have bl: "blocks_ok (m_img s)" using fo by (simp add: files_ok_def image_ok_def)
  have "d_size (?dis i) = of_nat (length (C i))" using H [OF im] i by simp
  moreover have "length (C i) < 2 ^ 32" using len by (simp add: MAXFILE_def NDIRECT_def NINDIRECT_def BSIZE_def)
  ultimately have sz: "unat (d_size (?dis i)) = length (C i)"
    by (simp add: unsigned_of_nat take_bit_nat_eq_self)
  obtain di img1 fb1 as where r1: "iappend_loop p (length (C i)) (?dis i) s =
      Ok ((length (C i) + length p, di), s\<lparr>m_img := img1, m_freeblock := fb1\<rparr>)"
    and di: "di = (?dis i)\<lparr>d_addrs := as\<rparr>" and ok1: "files_ok (?dis(i := di)) ?C img1 fi fb1"
    and meta: "\<And>x. x < nmeta \<Longrightarrow> img1 ! unat x = m_img s ! unat x"
    using iappend_loop_appends [OF fo i len f] by blast
  let ?s1 = "s\<lparr>m_img := img1, m_freeblock := fb1\<rparr>" let ?di = "di\<lparr>d_size := of_nat (length (C i) + length p)\<rparr>"
  have bl1: "blocks_ok (m_img ?s1)" using ok1 by (simp add: files_ok_def image_ok_def)
  have "image_ok (?dis(i := di)) (\<lambda>i. nblk (length (?C i))) img1 fi fb1" using ok1 by (simp add: files_ok_def)
  note image_okD(3) [OF this i]
  then have ld: "length (d_addrs ?di) = NDIRECT + 1" by (simp add: shape_def)
  obtain img2 where r2: "winode (of_nat i) ?di ?s1 = Ok ((), ?s1\<lparr>m_img := img2\<rparr>)" and bl2: "blocks_ok img2"
    and at2: "\<And>j. j < inodes_max \<Longrightarrow> dinode_at img2 j = (if j = i then ?di else dinode_at (m_img ?s1) j)"
    and keep: "\<And>x. x < 32 \<or> 45 \<le> x \<Longrightarrow> img2 ! x = m_img ?s1 ! x"
    using winode_ok [OF bl1 im ld] by blast
  have at1: "dinode_at img1 j = ?dis j" if j: "j < inodes_max" for j
  proof (rule dinode_at_cong, rule meta)
    have "j div 16 < 13" using j by (simp add: inodes_max_def div_less_iff_less_mult)
    then show "IBLOCK (of_nat j) mkfs_sb < nmeta" using inode_place(1) [OF j] by (simp add: word_less_nat_alt layout_values)
  qed
  let ?s2 = "?s1\<lparr>m_img := img2\<rparr>"
  have "iappend (of_nat i) p s = Ok ((), ?s2)"
    using r1 r2 by (simp add: iappend_def kbind_Ok rinode_ok [OF bl im] sz)
  moreover have "files_ok (dinode_at img2) ?C img2 fi fb1"
  proof (rule files_ok_frame [OF ok1 bl2])
    show "d_addrs (dinode_at img2 j) = d_addrs ((?dis(i := di)) j)" if "j \<in> {1..<fi}" for j
      using at2 [of j] at1 [of j] fi that by simp
    show "img2 ! unat x = img1 ! unat x" if "nmeta \<le> x" for x
      using that keep [of "unat x"] by (simp add: layout_values word_le_nat_alt)
  qed
  moreover have "img2 ! 1 = m_img s ! 1" using keep [of 1] meta [of 1] by (simp add: layout_values)
  moreover have "if 1 \<le> j \<and> j < fi
        then d_type (dinode_at img2 j) = T j \<and> d_nlink (dinode_at img2 j) = 1 \<and>
          d_size (dinode_at img2 j) = of_nat (length (?C j))
        else d_type (dinode_at img2 j) = 0" if "j < inodes_max" for j
    using H [OF that] at2 [OF that] at1 [OF that] di by auto
  ultimately show ?thesis using ok by (intro runsI) (auto simp: mkfs_ok_def)
qed

lemma mkfs_ialloc_ok:
  assumes ok: "mkfs_ok T C fi s" and fi: "fi < inodes_max"
  shows "runs (mkfs_ialloc t) s (\<lambda>inum. \<lambda>s. inum = of_nat fi \<and> mkfs_ok (T(fi := t)) (C(fi := [])) (fi + 1) s)"
proof -
  let ?di = "\<lparr>d_type = t, d_major = 0, d_minor = 0, d_nlink = 1, d_size = 0, d_addrs = replicate (NDIRECT + 1) 0\<rparr>"
  let ?s1 = "s\<lparr>m_freeinode := of_nat fi + 1\<rparr>"
  have fo: "files_ok (dinode_at (m_img s)) C (m_img s) fi (m_freeblock s)" and f: "m_freeinode s = of_nat fi" "1 \<le> fi"
    using ok by (simp_all add: mkfs_ok_def)
  have bl: "blocks_ok (m_img ?s1)" using fo by (simp add: files_ok_def image_ok_def)
  have ld: "length (d_addrs ?di) = NDIRECT + 1" by simp
  obtain img2 where r2: "winode (of_nat fi) ?di ?s1 = Ok ((), ?s1\<lparr>m_img := img2\<rparr>)" and bl2: "blocks_ok img2"
    and at2: "\<And>j. j < inodes_max \<Longrightarrow> dinode_at img2 j = (if j = fi then ?di else dinode_at (m_img ?s1) j)"
    and keep: "\<And>x. x < 32 \<or> 45 \<le> x \<Longrightarrow> img2 ! x = m_img ?s1 ! x"
    using winode_ok [OF bl fi ld] by blast
  have "mkfs_ialloc t s = Ok (of_nat fi, ?s1\<lparr>m_img := img2\<rparr>)"
    using r2 f by (simp add: mkfs_ialloc_def kseq_Ok)
  moreover have "files_ok (dinode_at img2) C img2 fi (m_freeblock s)"
  proof (rule files_ok_frame [OF fo bl2])
    show "d_addrs (dinode_at img2 j) = d_addrs (dinode_at (m_img s) j)" if "j \<in> {1..<fi}" for j
      using at2 [of j] fi that by simp
    show "img2 ! unat x = m_img s ! unat x" if "nmeta \<le> x" for x
      using that keep [of "unat x"] by (simp add: layout_values word_le_nat_alt)
  qed
  then have "files_ok (dinode_at img2) (C(fi := [])) img2 (fi + 1) (m_freeblock s)"
    by (rule files_ok_new [OF _ f(2)]) (simp add: at2 fi)
  moreover have "if 1 \<le> j \<and> j < fi + 1
        then d_type (dinode_at img2 j) = (T(fi := t)) j \<and> d_nlink (dinode_at img2 j) = 1 \<and>
          d_size (dinode_at img2 j) = of_nat (length ((C(fi := [])) j))
        else d_type (dinode_at img2 j) = 0" if "j < inodes_max" for j
    using ok that at2 [OF that] f(2) by (auto simp: mkfs_ok_def)
  moreover have "img2 ! 1 = m_img s ! 1" using keep [of 1] by simp
  ultimately show ?thesis using ok fi by (intro runsI) (auto simp: mkfs_ok_def)
qed

end
