(* ===== verification/Mkfs_Main.thy ===== *)
theory Mkfs_Main
  imports Mkfs_Correct
begin

text \<open>
  \<open>mkfs\<close>'s \<open>main\<close>: the image that it writes for a list of files, as one statement over the bytes of the image.
\<close>

section \<open>The specification\<close>

definition file_bytes :: "u8 list \<times> u8 list list option \<Rightarrow> u8 list" where
  "file_bytes f = (case snd f of None \<Rightarrow> [] | Some bufs \<Rightarrow> concat bufs)"

definition entry_bytes :: "u8 list \<Rightarrow> nat \<Rightarrow> u8 list" where
  "entry_bytes name i = bytes_of_dirent (mkfs_dirent name (of_nat i))"

definition root_bytes :: "(u8 list \<times> u8 list list option) list \<Rightarrow> u8 list" where
  "root_bytes files = entry_bytes [0x2E] 1 @ entry_bytes [0x2E, 0x2E] 1 @
     concat (map (\<lambda>k. entry_bytes (drop_underscore (drop_user (fst (files ! k)))) (k + 2)) [0..<length files])"

text \<open>The root directory is inode 1, the files follow in the order of the command line.\<close>

definition contents :: "(u8 list \<times> u8 list list option) list \<Rightarrow> nat \<Rightarrow> u8 list" where
  "contents files i = (if i = 1 then root_bytes files
     else if 2 \<le> i \<and> i < 2 + length files then file_bytes (files ! (i - 2)) else [])"

definition mkfs_type :: "nat \<Rightarrow> u16" where
  "mkfs_type i = (if i = 1 then T_DIR else T_FILE)"

definition data_blocks :: "block list \<Rightarrow> nat \<Rightarrow> nat \<Rightarrow> u32 list" where
  "data_blocks img i n = owned img (dinode_at img i) (nblk n)"

definition holds_file :: "block list \<Rightarrow> nat \<Rightarrow> u16 \<Rightarrow> u8 list \<Rightarrow> bool" where
  "holds_file img i t c \<longleftrightarrow> d_type (dinode_at img i) = t \<and> d_nlink (dinode_at img i) = 1 \<and>
     take (length c) (file_data img (dinode_at img i) (nblk (length c))) = c"

text \<open>
  The image for a list of files: superblock, inodes, contents; the directory's size is rounded up past its last
  entry; no block is used twice, and the free map has the metadata and the blocks in use.
\<close>

definition mkfs_image :: "(u8 list \<times> u8 list list option) list \<Rightarrow> block list \<Rightarrow> bool" where
  "mkfs_image files img \<longleftrightarrow>
     (let fi = 2 + length files;
          blocks = concat (map (\<lambda>i. data_blocks img i (length (contents files i))) [1..<fi])
      in superblock_of_bytes (img ! 1) = mkfs_sb \<and>
         (\<forall>i\<in>{1..<fi}. holds_file img i (mkfs_type i) (contents files i)) \<and>
         (\<forall>i\<in>{2..<fi}. d_size (dinode_at img i) = of_nat (length (contents files i))) \<and>
         d_size (dinode_at img 1) = of_nat ((length (root_bytes files) div BSIZE + 1) * BSIZE) \<and>
         (\<forall>i<inodes_max. i \<notin> {1..<fi} \<longrightarrow> d_type (dinode_at img i) = 0) \<and>
         distinct blocks \<and> in_use (img ! 45) = {0..<46} \<union> unat ` set blocks)"

lemma length_entry_bytes [simp]: "length (entry_bytes name i) = 16"
  by (simp add: entry_bytes_def bytes_of_dirent_def mkfs_dirent_def DIRSIZ_def)

lemma length_root_bytes: "length (root_bytes files) = 16 * (2 + length files)"
  by (simp add: root_bytes_def length_concat comp_def sum_list_triv)

lemma contents_Suc:
  assumes "k < length files"
  shows "contents (take (Suc k) files) = (contents (take k files))
    (1 := contents (take k files) 1 @ entry_bytes (drop_underscore (drop_user (fst (files ! k)))) (k + 2),
     k + 2 := file_bytes (files ! k))"
proof
  fix i
  have e: "concat (map (\<lambda>j. entry_bytes (drop_underscore (drop_user (fst (take m files ! j)))) (j + 2)) [0..<k]) =
      concat (map (\<lambda>j. entry_bytes (drop_underscore (drop_user (fst (files ! j)))) (j + 2)) [0..<k])" if "k \<le> m" for m
    using that by (intro arg_cong [where f = concat] map_cong) simp_all
  have r: "root_bytes (take (Suc k) files) =
      root_bytes (take k files) @ entry_bytes (drop_underscore (drop_user (fst (files ! k)))) (k + 2)"
    using assms e [of k] e [of "Suc k"] by (simp add: root_bytes_def min_absorb2)
  show "contents (take (Suc k) files) i = ((contents (take k files))
    (1 := contents (take k files) 1 @ entry_bytes (drop_underscore (drop_user (fst (files ! k)))) (k + 2),
     k + 2 := file_bytes (files ! k))) i"
  proof (cases "i = 1 \<or> i = k + 2")
    case True
    then show ?thesis using assms r by (auto simp: contents_def)
  next
    case False
    then have "2 \<le> i \<and> i < 2 + Suc k \<longleftrightarrow> 2 \<le> i \<and> i - 2 < k" by auto
    then show ?thesis using assms False by (auto simp: contents_def min_absorb2)
  qed
qed

lemma contents_mono: "k \<le> length files \<Longrightarrow> length (contents (take k files) i) \<le> length (contents files i)"
  by (auto simp: contents_def length_root_bytes)

lemma fits_le:
  assumes "fits fi' N'" "fi \<le> fi'" "\<And>i. i < fi \<Longrightarrow> N i \<le> N' i"
  shows "fits fi N"
proof -
  have "(\<Sum>j\<in>{1..<fi}. blocks_needed (N j)) \<le> (\<Sum>j\<in>{1..<fi}. blocks_needed (N' j))"
    by (intro sum_mono blocks_needed_mono) (use assms(3) in simp)
  also have "\<dots> \<le> (\<Sum>j\<in>{1..<fi'}. blocks_needed (N' j))" by (rule sum_mono2) (use assms(2) in auto)
  finally show ?thesis using assms(1) by (simp add: fits_def)
qed

section \<open>The empty file system\<close>

lemma superblock_roundtrip: "superblock_of_bytes (bytes_of_superblock v @ rest) = v"
  by (simp add: superblock_of_bytes_def bytes_of_superblock_def get32_def)

lemma dinode_at_zero: "img ! unat (IBLOCK (of_nat i) mkfs_sb) = zeroes \<Longrightarrow> d_type (dinode_at img i) = 0"
proof -
  have z: "word_of_bytes (replicate n 0) = (0 :: u16)" for n by (induction n) simp_all
  show "img ! unat (IBLOCK (of_nat i) mkfs_sb) = zeroes \<Longrightarrow> d_type (dinode_at img i) = 0"
    by (simp add: dinode_at_def dinode_of_bytes_def get16_def zeroes_def z)
qed

lemma mkfs_layout_ok: "runs mkfs_layout mkfs_start (\<lambda>_. mkfs_ok T C 1)"
proof -
  let ?I = "\<lambda>i s. s = mkfs_start\<lparr>m_img := replicate i zeroes\<rparr>"
  have l: "runs (kfor [0..<FSSIZE] (\<lambda>i. wsect (of_nat i) zeroes)) mkfs_start (\<lambda>_. ?I FSSIZE)"
  proof (rule runs_kfor)
    show "?I 0 mkfs_start" by (simp add: mkfs_start_def)
    show "runs (wsect (of_nat i) zeroes) t (\<lambda>_. ?I (Suc i))" if "i < FSSIZE" "?I i t" for i t
    proof -
      have "unat (of_nat i :: u32) = i" using that(1) by (simp add: FSSIZE_def unsigned_of_nat take_bit_nat_eq_self)
      then show ?thesis using that(2) by (simp add: wsect_def put_block_def replicate_append_same)
    qed
  qed simp
  have "runs (wsect 1 (put_bytes 0 (bytes_of_superblock mkfs_sb) zeroes)) (mkfs_start\<lparr>m_img := replicate FSSIZE zeroes\<rparr>)
      (\<lambda>_. mkfs_ok T C 1)"
  proof (rule runsI [OF wsect_ok])
    let ?b = "put_bytes 0 (bytes_of_superblock mkfs_sb) zeroes" let ?img = "(replicate FSSIZE zeroes)[1 := ?b]"
    have lb: "length ?b = BSIZE" by (simp add: bytes_of_superblock_def BSIZE_def)
    have at: "?img ! x = zeroes" if "x < FSSIZE" "x \<noteq> 1" for x using that by simp
    have "files_ok (dinode_at ?img) C ?img 1 nmeta"
      unfolding files_ok_def image_ok_def
    proof (intro conjI allI impI)
      show "blocks_ok ?img" by (rule blocks_ok_update [OF _ lb]) (simp add: blocks_ok_def)
      show "?img ! unat x = zeroes" if "nmeta \<le> x" "unat x < FSSIZE" for x
        using that by (intro at) (auto simp: layout_values word_le_nat_alt)
    qed (auto simp: layout_values FSSIZE_def)
    moreover have "d_type (dinode_at ?img i) = 0" if i: "i < inodes_max" for i
    proof (intro dinode_at_zero at)
      have "i div 16 < 13" using i by (simp add: inodes_max_def div_less_iff_less_mult)
      then show "unat (IBLOCK (of_nat i) mkfs_sb) < FSSIZE" "unat (IBLOCK (of_nat i) mkfs_sb) \<noteq> 1"
        using inode_place(1) [OF i] by (simp_all add: FSSIZE_def)
    qed
    moreover have "superblock_of_bytes (?img ! 1) = mkfs_sb"
      by (simp add: FSSIZE_def put_bytes_def superblock_roundtrip)
    ultimately show "mkfs_ok T C 1 (mkfs_start\<lparr>m_img := replicate FSSIZE zeroes, m_img := (m_img (mkfs_start\<lparr>m_img := replicate FSSIZE zeroes\<rparr>))[unat 1 := ?b]\<rparr>)"
      by (simp add: mkfs_ok_def mkfs_start_def inodes_max_def)
  qed (simp add: FSSIZE_def)
  then show ?thesis unfolding mkfs_layout_def runs_kseq
    by (intro runs_mono [OF l]) simp
qed

section \<open>The files\<close>

lemma iappend_all_ok:
  assumes "mkfs_ok T C fi s" "i \<in> {1..<fi}" "length (C i) + length (concat bufs) \<le> MAXFILE * BSIZE"
    "fits fi (\<lambda>j. nblk (length ((C(i := C i @ concat bufs)) j)))"
  shows "runs (iappend_all (of_nat i) bufs) s (\<lambda>_. mkfs_ok T (C(i := C i @ concat bufs)) fi)"
  using assms
proof (induction bufs arbitrary: C s)
  case Nil
  then show ?case by (simp add: runs_def)
next
  case (Cons b bufs)
  let ?C = "C(i := C i @ b)"
  have f: "fits fi (\<lambda>j. nblk (length (?C j)))" by (rule fits_mono [OF Cons.prems(4)]) (simp add: nblk_mono)
  have "runs (iappend (of_nat i) b) s (\<lambda>_. mkfs_ok T ?C fi)"
    by (rule iappend_ok [OF Cons.prems(1,2) _ f]) (use Cons.prems(3) in simp)
  then show ?case unfolding iappend_all.simps runs_kseq
  proof (rule runs_mono)
    show "runs (iappend_all (of_nat i) bufs) t (\<lambda>_. mkfs_ok T (C(i := C i @ concat (b # bufs))) fi)"
      if "mkfs_ok T ?C fi t" for t
    proof -
      have e: "?C(i := ?C i @ concat bufs) = C(i := C i @ concat (b # bufs))" by simp
      show ?thesis by (rule Cons.IH [OF that Cons.prems(2), unfolded e]) (use Cons.prems(3,4) in simp_all)
    qed
  qed
qed

text \<open>What \<open>mkfs\<close> asks of its arguments: names without slashes, files that open, not too large, and room for them.\<close>

definition mkfs_input_ok :: "(u8 list \<times> u8 list list option) list \<Rightarrow> bool" where
  "mkfs_input_ok files \<longleftrightarrow>
     (\<forall>f\<in>set files. slash \<notin> set (drop_user (fst f)) \<and> snd f \<noteq> None \<and> length (file_bytes f) \<le> MAXFILE * BSIZE) \<and>
     2 + length files \<le> inodes_max \<and>
     unat nmeta + sum_list (map (\<lambda>i. blocks_needed (nblk (length (contents files i)))) [1..<2 + length files]) \<le> FSSIZE"

lemma mkfs_input_fits:
  assumes "mkfs_input_ok files"
  shows "fits (2 + length files) (\<lambda>i. nblk (length (contents files i)))"
proof -
  have "sum_list (map (\<lambda>i. blocks_needed (nblk (length (contents files i)))) [1..<2 + length files]) =
      (\<Sum>i\<in>{1..<2 + length files}. blocks_needed (nblk (length (contents files i))))"
    by (simp only: sum_set_upt_conv_sum_list_nat [symmetric] set_upt)
  then show ?thesis using assms by (simp add: fits_def mkfs_input_ok_def)
qed

lemma root_small: "length files + 2 \<le> inodes_max \<Longrightarrow> length (root_bytes files) \<le> MAXFILE * BSIZE"
  by (simp add: length_root_bytes inodes_max_def MAXFILE_def NDIRECT_def NINDIRECT_def BSIZE_def)

lemma add_file_ok:
  assumes input: "mkfs_input_ok files" and k: "k < length files"
    and ok: "mkfs_ok mkfs_type (contents (take k files)) (k + 2) s"
  shows "runs (add_file (files ! k)) s (\<lambda>_. mkfs_ok mkfs_type (contents (take (Suc k) files)) (Suc k + 2))"
proof -
  let ?f = "files ! k" let ?C0 = "contents (take k files)" let ?C2 = "contents (take (Suc k) files)"
  let ?name = "drop_underscore (drop_user (fst ?f))"
  let ?C1 = "?C0(1 := ?C0 1 @ entry_bytes ?name (k + 2))"
  have f: "?f \<in> set files" "k + 2 < inodes_max" using k input by (simp_all add: mkfs_input_ok_def)
  obtain arg bufs where fe: "?f = (arg, Some bufs)" and sl: "slash \<notin> set (drop_user arg)"
    and len: "length (concat bufs) \<le> MAXFILE * BSIZE"
    using input f(1) by (cases ?f) (auto simp: mkfs_input_ok_def file_bytes_def)
  have fb: "file_bytes ?f = concat bufs" by (simp add: fe file_bytes_def)
  have C0: "?C0(k + 2 := []) = ?C0" using k by (auto simp: contents_def)
  have C2: "?C2 = ?C1(k + 2 := ?C1 (k + 2) @ concat bufs)"
    unfolding contents_Suc [OF k] fb using k by (auto simp: contents_def)
  have T: "mkfs_type(k + 2 := T_FILE) = mkfs_type" by (auto simp: mkfs_type_def)
  have f2: "fits (k + 2 + 1) (\<lambda>j. nblk (length (?C2 j)))"
    by (rule fits_le [OF mkfs_input_fits [OF input]]) (use k in \<open>auto intro!: nblk_mono contents_mono\<close>)
  then have f1: "fits (k + 2 + 1) (\<lambda>j. nblk (length (?C1 j)))"
    by (rule fits_mono) (auto simp: C2 intro: nblk_mono)
  have "length (contents (take (Suc k) files) 1) \<le> MAXFILE * BSIZE"
    using contents_mono [of "Suc k" files 1] k root_small [of files] input by (simp add: contents_def mkfs_input_ok_def)
  then have l1: "length (?C0 1) + length (entry_bytes ?name (k + 2)) \<le> MAXFILE * BSIZE" by (simp add: C2)
  have one: "(1 :: nat) \<in> {1..<k + 2 + 1}" "k + 2 \<in> {1..<k + 2 + 1}" by simp_all
  have a1: "runs (mkfs_ialloc T_FILE) s (\<lambda>inum s. inum = of_nat (k + 2) \<and> mkfs_ok mkfs_type ?C0 (k + 2 + 1) s)"
    using mkfs_ialloc_ok [OF ok f(2), of T_FILE] unfolding T C0 .
  have a2: "runs (iappend ROOTINO (entry_bytes ?name (k + 2))) t (\<lambda>_. mkfs_ok mkfs_type ?C1 (k + 2 + 1))"
    if "mkfs_ok mkfs_type ?C0 (k + 2 + 1) t" for t
    using iappend_ok [OF that one(1) l1 f1] by (simp add: ROOTINO_def)
  have a3: "runs (iappend_all (of_nat (k + 2)) bufs) t (\<lambda>_. mkfs_ok mkfs_type ?C2 (k + 2 + 1))"
    if "mkfs_ok mkfs_type ?C1 (k + 2 + 1) t" for t
    unfolding C2 by (rule iappend_all_ok [OF that one(2)]) (use len f2 k in \<open>simp_all add: C2 contents_def\<close>)
  have "runs (kbind (mkfs_ialloc T_FILE) (\<lambda>inum. kseq (iappend ROOTINO (bytes_of_dirent (mkfs_dirent ?name inum)))
      (iappend_all inum bufs))) s (\<lambda>_. mkfs_ok mkfs_type ?C2 (k + 2 + 1))"
    unfolding runs_simps
  proof (rule runs_mono [OF a1], elim conjE, simp only:)
    show "runs (iappend ROOTINO (bytes_of_dirent (mkfs_dirent ?name (of_nat (k + 2))))) t
        (\<lambda>_ t. runs (iappend_all (of_nat (k + 2)) bufs) t (\<lambda>_. mkfs_ok mkfs_type ?C2 (k + 2 + 1)))"
      if "mkfs_ok mkfs_type ?C0 (k + 2 + 1) t" for t
      by (rule runs_mono [OF a2 [OF that, unfolded entry_bytes_def [of _ "k + 2"]]]) (rule a3, simp add: entry_bytes_def)
  qed
  then show ?thesis using sl by (simp add: fe add_file_def Let_def)
qed

section \<open>The free map and the size of the root directory\<close>

lemma in_use_zeroes: "in_use zeroes = {}"
  by (auto simp: in_use_def bit_clear_def zeroes_def BPB_def BSIZE_def)

lemma fold_set_bits: "n \<le> BPB \<Longrightarrow> in_use (fold set_bit_at [0..<n] zeroes) = {0..<n} \<and> length (fold set_bit_at [0..<n] zeroes) = BSIZE"
proof (induction n)
  case 0
  then show ?case by (simp add: in_use_zeroes)
next
  case (Suc n)
  then have "in_use (fold set_bit_at [0..<n] zeroes) = {0..<n}" "length (fold set_bit_at [0..<n] zeroes) = BSIZE" by simp_all
  then show ?case using set_clear_bit [of "fold set_bit_at [0..<n] zeroes" n] Suc.prems by auto
qed

lemma distinct_concat_map:
  "distinct xs \<Longrightarrow> (\<And>x. x \<in> set xs \<Longrightarrow> distinct (f x)) \<Longrightarrow>
     (\<And>x y. x \<in> set xs \<Longrightarrow> y \<in> set xs \<Longrightarrow> x \<noteq> y \<Longrightarrow> set (f x) \<inter> set (f y) = {}) \<Longrightarrow> distinct (concat (map f xs))"
proof (induction xs)
  case (Cons x xs)
  have "distinct (concat (map f xs))" using Cons by (intro Cons.IH) auto
  moreover have "set (f x) \<inter> set (f y) = {}" if "y \<in> set xs" for y using Cons.prems(1) that by (intro Cons.prems(3)) auto
  ultimately show ?case using Cons.prems(2) by auto
qed simp

lemma files_ok_blocks:
  assumes "files_ok dis C img fi fb"
  defines "blocks \<equiv> concat (map (\<lambda>i. owned img (dis i) (nblk (length (C i)))) [1..<fi])"
  shows "distinct blocks" "{0..<46} \<union> unat ` set blocks = {0..<unat fb}"
proof -
  have ok: "image_ok dis (\<lambda>i. nblk (length (C i))) img fi fb" using assms by (simp add: files_ok_def)
  show "distinct blocks" unfolding blocks_def using ok by (intro distinct_concat_map) (auto simp: image_ok_def)
  have "set blocks = (\<Union>i\<in>{1..<fi}. set (owned img (dis i) (nblk (length (C i)))))" by (simp add: blocks_def)
  also have "\<dots> = {x. nmeta \<le> x \<and> x < fb}" using ok unfolding image_ok_def by blast
  finally have "unat ` set blocks = unat ` {x. nmeta \<le> x \<and> x < fb}" by simp
  also have "\<dots> = {46..<unat fb}"
  proof (intro equalityI subsetI)
    fix n assume n: "n \<in> {46..<unat fb}"
    moreover have "unat fb \<le> FSSIZE" using ok by (simp add: image_ok_def)
    ultimately have "unat (of_nat n :: u32) = n" by (simp add: FSSIZE_def unsigned_of_nat take_bit_nat_eq_self)
    then show "n \<in> unat ` {x. nmeta \<le> x \<and> x < fb}"
      using n by (intro image_eqI [of _ _ "of_nat n"]) (auto simp: word_le_nat_alt word_less_nat_alt layout_values)
  qed (auto simp: word_le_nat_alt word_less_nat_alt layout_values)
  finally show "{0..<46} \<union> unat ` set blocks = {0..<unat fb}" using nmeta_fb [OF ok] by auto
qed

lemma mkfs_root_ok:
  assumes input: "mkfs_input_ok files" and ok: "mkfs_ok mkfs_type (\<lambda>_. []) 1 s"
  shows "runs mkfs_root s (\<lambda>_. mkfs_ok mkfs_type (contents []) 2)"
proof -
  let ?e1 = "entry_bytes [0x2E] 1" let ?e2 = "entry_bytes [0x2E, 0x2E] 1"
  let ?C1 = "(\<lambda>_. [])(1 := ?e1)"
  have T: "mkfs_type(1 := T_DIR) = mkfs_type" by (auto simp: mkfs_type_def)
  have C0: "(\<lambda>_. [])(1 := []) = (\<lambda>_. [] :: u8 list)" by auto
  have C1: "(\<lambda>_. [])(1 := [] @ ?e1) = ?C1" by simp
  have C2: "?C1(1 := ?C1 1 @ ?e2) = contents []" by (auto simp: contents_def root_bytes_def)
  have small: "length ?e1 \<le> MAXFILE * BSIZE" "length (?C1 1) + length ?e2 \<le> MAXFILE * BSIZE"
    by (simp_all add: MAXFILE_def NDIRECT_def NINDIRECT_def BSIZE_def)
  have f2: "fits 2 (\<lambda>j. nblk (length (contents [] j)))"
    by (rule fits_le [OF mkfs_input_fits [OF input]]) (auto intro!: nblk_mono simp: contents_def length_root_bytes)
  have f1: "fits 2 (\<lambda>j. nblk (length (?C1 j)))"
    by (rule fits_mono [OF f2]) (auto intro!: nblk_mono simp: contents_def length_root_bytes)
  have a1: "runs (mkfs_ialloc T_DIR) s (\<lambda>inum s. inum = of_nat 1 \<and> mkfs_ok mkfs_type (\<lambda>_. []) (1 + 1) s)"
    using mkfs_ialloc_ok [OF ok, of T_DIR] unfolding T C0 by (simp add: inodes_max_def)
  have one: "(1 :: nat) \<in> {1..<2}" by simp
  have a2: "runs (iappend (of_nat 1) ?e1) t (\<lambda>_. mkfs_ok mkfs_type ?C1 2)" if "mkfs_ok mkfs_type (\<lambda>_. []) (1 + 1) t" for t
  proof -
    have "mkfs_ok mkfs_type (\<lambda>_. []) 2 t" using that by (simp add: numeral_2_eq_2)
    from iappend_ok [OF this one, of ?e1, unfolded C1] show ?thesis using small(1) f1 by simp
  qed
  have a3: "runs (iappend (of_nat 1) ?e2) t (\<lambda>_. mkfs_ok mkfs_type (contents []) 2)" if "mkfs_ok mkfs_type ?C1 2 t" for t
    by (rule iappend_ok [OF that one small(2), unfolded C2]) (rule f2)
  have "runs (kseq (iappend (of_nat 1) ?e1) (iappend (of_nat 1) ?e2)) t (\<lambda>_. mkfs_ok mkfs_type (contents []) 2)"
    if "mkfs_ok mkfs_type (\<lambda>_. []) (1 + 1) t" for t
    unfolding runs_kseq by (rule runs_mono [OF a2 [OF that]]) (rule a3)
  then show ?thesis unfolding mkfs_root_def runs_kbind
    by (intro runs_mono [OF a1]) (auto simp: ROOTINO_def entry_bytes_def)
qed

lemma kfor_map: "kfor (map g xs) f = kfor xs (\<lambda>x. f (g x))"
  by (induction xs) simp_all

text \<open>The last two steps.\<close>

lemma mkfs_finish:
  assumes ok: "mkfs_ok mkfs_type (contents files) (2 + length files) s" and fi: "2 + length files \<le> inodes_max"
  shows "runs (kseq fix_root_size (kbind (kget m_freeblock) mkfs_balloc)) s (\<lambda>_ t. mkfs_image files (m_img t))"
proof -
  let ?fi = "2 + length files" let ?C = "contents files" let ?dis = "dinode_at (m_img s)"
  let ?n = "length (root_bytes files)" let ?fb = "m_freeblock s"
  have fo: "files_ok ?dis ?C (m_img s) ?fi ?fb" and sb: "superblock_of_bytes (m_img s ! 1) = mkfs_sb"
    and H: "\<And>j. j < inodes_max \<Longrightarrow> if 1 \<le> j \<and> j < ?fi
        then d_type (?dis j) = mkfs_type j \<and> d_nlink (?dis j) = 1 \<and> d_size (?dis j) = of_nat (length (?C j))
        else d_type (?dis j) = 0"
    using ok by (simp_all add: mkfs_ok_def)
  have io: "image_ok ?dis (\<lambda>i. nblk (length (?C i))) (m_img s) ?fi ?fb" using fo by (simp add: files_ok_def)
  have bl: "blocks_ok (m_img s)" using io by (simp add: image_ok_def)
  have im: "1 < inodes_max" by (simp add: inodes_max_def)
  have small: "?n < 3329" using fi by (simp add: length_root_bytes inodes_max_def)
  define size :: u32 where "size = of_nat ((?n div BSIZE + 1) * BSIZE)"
  define di where "di = (?dis 1)\<lparr>d_size := size\<rparr>"
  have "length (d_addrs (?dis 1)) = NDIRECT + 1" using image_okD(3) [OF io, of 1] by (simp add: shape_def)
  then have ld: "length (d_addrs di) = NDIRECT + 1" by (simp add: di_def)
  obtain img2 where r2: "winode (of_nat 1) di s = Ok ((), s\<lparr>m_img := img2\<rparr>)" and bl2: "blocks_ok img2"
    and at2: "\<And>j. j < inodes_max \<Longrightarrow> dinode_at img2 j = (if j = 1 then di else ?dis j)"
    and keep: "\<And>x. x < 32 \<or> 45 \<le> x \<Longrightarrow> img2 ! x = m_img s ! x"
    using winode_ok [OF bl im ld] by blast
  have "d_size (?dis 1) = of_nat ?n" using H [OF im] by (simp add: contents_def)
  moreover have "(of_nat ?n :: u32) div of_nat BSIZE = of_nat (?n div BSIZE)"
    using small by (intro word_unat_eq_iff [THEN iffD2])
      (simp add: unat_div unsigned_of_nat take_bit_nat_eq_self BSIZE_def div_less_dividend less_imp_le_nat)
  ultimately have "fix_root_size s = Ok ((), s\<lparr>m_img := img2\<rparr>)"
    using r2 rinode_ok [OF bl im] by (simp add: fix_root_size_def kbind_Ok ROOTINO_def Let_def di_def size_def distrib_right add.commute)
  moreover define bm where "bm = fold set_bit_at [0..<unat ?fb] zeroes"
  moreover define img3 where "img3 = img2[45 := bm]"
  have fbs: "unat ?fb \<le> FSSIZE" using io by (simp add: image_ok_def)
  then have bm: "in_use bm = {0..<unat ?fb}" "length bm = BSIZE"
    using fold_set_bits [of "unat ?fb"] by (simp_all add: bm_def FSSIZE_def BPB_def)
  have len2: "length img2 = FSSIZE" using bl2 by (simp add: blocks_ok_def)
  moreover have "unat ?fb < BSIZE * 8" using fbs by (simp add: FSSIZE_def BSIZE_def)
  ultimately have run: "runs (kseq fix_root_size (kbind (kget m_freeblock) mkfs_balloc)) s (\<lambda>_ t. m_img t = img3)"
    by (simp add: runs_def kseq_Ok mkfs_balloc_def wsect_ok layout_values FSSIZE_def img3_def bm_def)
  have bl3: "blocks_ok img3" unfolding img3_def by (rule blocks_ok_update [OF bl2 bm(2)])
  have at3: "dinode_at img3 j = (if j = 1 then di else ?dis j)" if j: "j < inodes_max" for j
  proof -
    have "j div 16 < 13" using j by (simp add: inodes_max_def div_less_iff_less_mult)
    then have "dinode_at img3 j = dinode_at img2 j"
      using inode_place(1) [OF j] by (intro dinode_at_cong) (simp add: img3_def)
    then show ?thesis using at2 [OF j] by simp
  qed
  have fo3: "files_ok (dinode_at img3) ?C img3 ?fi ?fb"
  proof (rule files_ok_frame [OF fo bl3])
    show "d_addrs (dinode_at img3 i) = d_addrs (?dis i)" if "i \<in> {1..<?fi}" for i
      using at3 [of i] that fi by (auto simp: di_def)
    show "img3 ! unat x = m_img s ! unat x" if "nmeta \<le> x" for x
      using that keep [of "unat x"] by (simp add: img3_def layout_values word_le_nat_alt)
  qed
  have "holds_file img3 i (mkfs_type i) (?C i)" if i: "i \<in> {1..<?fi}" for i
  proof -
    have "file_data img3 (dinode_at img3 i) (nblk (length (?C i))) =
        ?C i @ replicate (nblk (length (?C i)) * BSIZE - length (?C i)) 0"
      using fo3 i unfolding files_ok_def by blast
    moreover have "d_type (dinode_at img3 i) = mkfs_type i \<and> d_nlink (dinode_at img3 i) = 1"
      using H [of i] at3 [of i] i fi by (auto simp: di_def)
    ultimately show ?thesis by (simp add: holds_file_def)
  qed
  moreover have "d_size (dinode_at img3 i) = of_nat (length (?C i))" if "i \<in> {2..<?fi}" for i
    using H [of i] at3 [of i] that fi by auto
  moreover have "d_size (dinode_at img3 1) = size" using at3 [OF im] by (simp add: di_def)
  moreover have "d_type (dinode_at img3 i) = 0" if "i < inodes_max" "i \<notin> {1..<?fi}" for i
    using H [OF that(1)] at3 [OF that(1)] that(2) by auto
  moreover have "superblock_of_bytes (img3 ! 1) = mkfs_sb" using sb keep [of 1] by (simp add: img3_def)
  moreover have "in_use (img3 ! 45) = {0..<unat ?fb}" using bm len2 by (simp add: img3_def FSSIZE_def)
  moreover note files_ok_blocks [OF fo3, folded data_blocks_def]
  ultimately have "mkfs_image files img3" unfolding mkfs_image_def Let_def size_def by blast
  then show ?thesis using run by (auto elim: runs_mono)
qed

text \<open>
  C30: for every list of files that it accepts, \<open>mkfs\<close> ends normally and the image holds a superblock with the
  layout, the root directory with \<open>.\<close>, \<open>..\<close> and an entry for each file, under each entry's inode number the
  bytes that were read from the file, free inodes otherwise, and a free map that marks exactly the metadata
  and the blocks of the files, none of which is used twice.
\<close>

theorem mkfs_builds_the_image:
  assumes "mkfs_input_ok files"
  shows "runs (mkfs_main files) mkfs_start (\<lambda>_ s. mkfs_image files (m_img s))"
proof -
  let ?ok = "\<lambda>k. mkfs_ok mkfs_type (contents (take k files)) (k + 2)"
  have "files = map ((!) files) [0..<length files]" by (simp add: map_nth)
  then have loop: "kfor files add_file = kfor [0..<length files] (\<lambda>k. add_file (files ! k))"
    using kfor_map [of "(!) files" "[0..<length files]" add_file] by simp
  have files: "runs (kfor files add_file) s (\<lambda>_. ?ok (length files))" if "mkfs_ok mkfs_type (contents []) 2 s" for s
    unfolding loop by (rule runs_kfor) (use that add_file_ok [OF assms] in \<open>simp_all add: numeral_2_eq_2\<close>)
  have fi: "2 + length files \<le> inodes_max" using assms by (simp add: mkfs_input_ok_def)
  show ?thesis unfolding mkfs_main_def runs_kseq
  proof (rule runs_mono [OF mkfs_layout_ok], rule runs_mono [OF mkfs_root_ok [OF assms]], assumption, rule runs_mono [OF files], assumption)
    fix s assume "?ok (length files) s"
    then have "mkfs_ok mkfs_type (contents files) (2 + length files) s" by (simp add: add.commute)
    then show "runs fix_root_size s (\<lambda>_ t. runs (kbind (kget m_freeblock) mkfs_balloc) t (\<lambda>_ s. mkfs_image files (m_img s)))"
      using mkfs_finish [OF _ fi] by (simp add: runs_kseq)
  qed
qed

theorem mkfs_builds_the_image_witness:
  "runs (mkfs_main [([0x75, 0x73, 0x65, 0x72, 0x2F, 0x5F, 0x61], Some [[1, 2], [3]]), ([0x62], Some [])]) mkfs_start
     (\<lambda>_ s. holds_file (m_img s) 2 T_FILE [1, 2, 3] \<and> holds_file (m_img s) 3 T_FILE [])"
proof -
  let ?files = "[([0x75, 0x73, 0x65, 0x72, 0x2F, 0x5F, 0x61], Some [[1, 2], [3]]), ([0x62], Some [])] ::
    (u8 list \<times> u8 list list option) list"
  have n: "nblk 64 = 1" "nblk (Suc (Suc (Suc 0))) = 1" "nblk 0 = 0" by (simp_all add: nblk_def BSIZE_def)
  have "length (root_bytes ?files) = 64" by (simp add: length_root_bytes)
  then have c: "length (contents ?files 1) = 64" "contents ?files 2 = [1, 2, 3]" "contents ?files 3 = []"
    by (simp_all add: contents_def file_bytes_def)
  have u: "[1..<2 + length ?files] = [1, 2, 3]" by (simp add: upt_rec)
  have "mkfs_input_ok ?files"
    unfolding mkfs_input_ok_def u
    by (simp add: c [simplified] n blocks_needed_def layout_values FSSIZE_def inodes_max_def drop_user_def user_prefix_def
        file_bytes_def MAXFILE_def NDIRECT_def NINDIRECT_def BSIZE_def)
  from mkfs_builds_the_image [OF this] show ?thesis
  proof (rule runs_mono)
    fix s assume "mkfs_image ?files (m_img s)"
    then have "\<forall>i\<in>{1..<4}. holds_file (m_img s) i (mkfs_type i) (contents ?files i)" by (simp add: mkfs_image_def Let_def)
    then have "holds_file (m_img s) 2 (mkfs_type 2) (contents ?files 2)" "holds_file (m_img s) 3 (mkfs_type 3) (contents ?files 3)"
      by simp_all
    then show "holds_file (m_img s) 2 T_FILE [1, 2, 3] \<and> holds_file (m_img s) 3 T_FILE []"
      unfolding c by (simp add: mkfs_type_def)
  qed
qed

end
