(* ===== verification/Ulib.thy ===== *)
theory Ulib
  imports Cstring
begin

text \<open>
  The user library, \<open>user/ulib.c\<close>. As in \<open>Cstring\<close>, a \<open>const char *\<close> is the stream of bytes
  from the pointer on, and a routine that writes through a pointer acts on the process's memory.
  Names that the kernel's \<open>string.c\<close> also has carry the prefix \<open>u_\<close>. A loop that ends only at
  a NUL byte is a partial function: \<open>None\<close> when there is none.

  System calls are outside this file: \<open>gets\<close> reads from the list of bytes that the reads of
  standard input return one at a time (the end of the list is a read that returns no byte).
\<close>

section \<open>Strings\<close>

partial_function (option) u_strcpy :: "memory \<Rightarrow> u64 \<Rightarrow> u64 \<Rightarrow> memory option" where
  "u_strcpy m s t =
     (let c = m t; m = m(s := c)
      in if c \<noteq> 0 then u_strcpy m (s + 1) (t + 1) else Some m)"

partial_function (option) u_strcmp :: "cstr \<Rightarrow> cstr \<Rightarrow> int option" where
  "u_strcmp p q =
     (if p 0 \<noteq> 0 \<and> p 0 = q 0 then u_strcmp (incr p) (incr q)
      else Some (uint (p 0) - uint (q 0)))"

partial_function (option) u_strlen_loop :: "cstr \<Rightarrow> u32 \<Rightarrow> u32 option" where
  "u_strlen_loop s n = (if s (unat n) \<noteq> 0 then u_strlen_loop s (n + 1) else Some n)"

definition u_strlen :: "cstr \<Rightarrow> u32 option" where
  "u_strlen s = u_strlen_loop s 0"

text \<open>The result of \<open>strchr\<close> is the distance of the pointer it returns, or \<open>None\<close> for 0.\<close>

partial_function (option) u_strchr_loop :: "cstr \<Rightarrow> u8 \<Rightarrow> nat \<Rightarrow> nat option option" where
  "u_strchr_loop s c i =
     (if s i \<noteq> 0 then (if s i = c then Some (Some i) else u_strchr_loop s c (Suc i))
      else Some None)"

definition u_strchr :: "cstr \<Rightarrow> u8 \<Rightarrow> nat option option" where
  "u_strchr s c = u_strchr_loop s c 0"

partial_function (option) atoi_loop :: "cstr \<Rightarrow> u32 \<Rightarrow> u32 option" where
  "atoi_loop s n =
     (if 0x30 \<le> s 0 \<and> s 0 \<le> 0x39 then atoi_loop (incr s) (n * 10 + ucast (s 0) - 0x30)
      else Some n)"

definition atoi :: "cstr \<Rightarrow> u32 option" where
  "atoi s = atoi_loop s 0"

section \<open>Memory\<close>

primrec u_memset_loop :: "nat \<Rightarrow> memory \<Rightarrow> u64 \<Rightarrow> u8 \<Rightarrow> nat \<Rightarrow> memory" where
  "u_memset_loop 0 m cdst c i = m"
| "u_memset_loop (Suc k) m cdst c i = u_memset_loop k (m(cdst + of_nat i := c)) cdst c (Suc i)"

definition u_memset :: "memory \<Rightarrow> u64 \<Rightarrow> u8 \<Rightarrow> u32 \<Rightarrow> memory" where
  "u_memset m dst c n = u_memset_loop (unat n) m dst c 0"

definition u_memmove :: "memory \<Rightarrow> u64 \<Rightarrow> u64 \<Rightarrow> int \<Rightarrow> memory" where
  "u_memmove m vdst vsrc n =
     (if vsrc > vdst then memmove_up (nat n) m vdst vsrc
      else memmove_down (nat n) m (vdst + of_int n) (vsrc + of_int n))"

primrec u_memcmp_loop :: "nat \<Rightarrow> cstr \<Rightarrow> cstr \<Rightarrow> int" where
  "u_memcmp_loop 0 p1 p2 = 0"
| "u_memcmp_loop (Suc n) p1 p2 =
     (if p1 0 \<noteq> p2 0 then uint (p1 0) - uint (p2 0) else u_memcmp_loop n (incr p1) (incr p2))"

definition u_memcmp :: "cstr \<Rightarrow> cstr \<Rightarrow> u32 \<Rightarrow> int" where
  "u_memcmp s1 s2 n = u_memcmp_loop (unat n) s1 s2"

definition u_memcpy :: "memory \<Rightarrow> u64 \<Rightarrow> u64 \<Rightarrow> u32 \<Rightarrow> memory" where
  "u_memcpy m dst src n = u_memmove m dst src (sint n)"

section \<open>Lines of input\<close>

primrec gets_loop :: "nat \<Rightarrow> u8 list \<Rightarrow> u8 list \<Rightarrow> u8 list \<times> u8 list" where
  "gets_loop 0 buf inp = (buf, inp)"
| "gets_loop (Suc k) buf inp =
     (case inp of
        [] \<Rightarrow> (buf, [])
      | c # inp \<Rightarrow>
          let buf = buf @ [c]
          in if c = 0x0A \<or> c = 0x0D then (buf, inp) else gets_loop k buf inp)"

text \<open>
  The bytes that \<open>gets\<close> stores before its final NUL, and the input left. (With \<open>n\<close>, its \<open>max\<close>, at most
  0 the NUL is still stored.)
\<close>

definition gets :: "int \<Rightarrow> u8 list \<Rightarrow> u8 list \<times> u8 list" where
  "gets n inp = gets_loop (nat (n - 1)) [] inp"

section \<open>Strings as lists\<close>

text \<open>The stream a pointer to the NUL-terminated string \<open>xs\<close> sees.\<close>

definition cstr_of :: "u8 list \<Rightarrow> cstr" where
  "cstr_of xs = (\<lambda>i. if i < length xs then xs ! i else 0)"

lemma cstr_of_0: "cstr_of xs 0 = (case xs of [] \<Rightarrow> 0 | x # _ \<Rightarrow> x)"
  by (cases xs) (auto simp: cstr_of_def)

lemma incr_cstr_of [simp]: "incr (cstr_of (x # xs)) = cstr_of xs"
  by (auto simp: cstr_of_def incr_def fun_eq_iff)

lemma cstr_of_nth: "i < length xs \<Longrightarrow> cstr_of xs i = xs ! i"
  by (simp add: cstr_of_def)

lemma cstr_of_end: "length xs \<le> i \<Longrightarrow> cstr_of xs i = 0"
  by (simp add: cstr_of_def)

lemma u_strcmp_eq:
  assumes "0 \<notin> set xs" and "0 \<notin> set ys"
  shows "\<exists>r. u_strcmp (cstr_of xs) (cstr_of ys) = Some r \<and> (r = 0 \<longleftrightarrow> xs = ys)"
  using assms
proof (induction xs arbitrary: ys)
  case Nil
  then show ?case
    by (cases ys) (auto simp: u_strcmp.simps cstr_of_0 unsigned_eq_0_iff)
next
  case (Cons x xs)
  show ?case
  proof (cases ys)
    case Nil
    then show ?thesis using Cons.prems by (auto simp: u_strcmp.simps cstr_of_0 unsigned_eq_0_iff)
  next
    case [simp]: (Cons y ys')
    show ?thesis
    proof (cases "x = y")
      case True
      then show ?thesis using Cons.IH [of ys'] Cons.prems
        by (subst u_strcmp.simps) (auto simp: cstr_of_0)
    next
      case False
      then have "uint x - uint y \<noteq> 0" by (simp add: word_uint_eq_iff)
      then show ?thesis using False by (subst u_strcmp.simps) (auto simp: cstr_of_0)
    qed
  qed
qed

lemma u_strlen_loop_stops:
  assumes "0 \<notin> set xs" and "length xs < 2 ^ 32" and "unat n + k = length xs"
  shows "u_strlen_loop (cstr_of xs) n = Some (of_nat (length xs))"
  using assms(3)
proof (induction k arbitrary: n)
  case 0
  then have "of_nat (unat n) = (of_nat (length xs) :: u32)" by simp
  then have "n = of_nat (length xs)" by simp
  then show ?case using 0 by (subst u_strlen_loop.simps) (simp add: cstr_of_def)
next
  case (Suc k)
  have lt: "unat n < length xs" using Suc.prems by simp
  have nz: "cstr_of xs (unat n) \<noteq> 0"
    using lt assms(1) by (metis cstr_of_nth nth_mem)
  have "unat (n + 1) + k = length xs"
    using Suc.prems assms(2) by (simp add: unat_word_ariths)
  from Suc.IH [OF this] nz show ?case by (subst u_strlen_loop.simps) simp
qed

lemma u_strlen_length:
  "0 \<notin> set xs \<Longrightarrow> length xs < 2 ^ 32 \<Longrightarrow> u_strlen (cstr_of xs) = Some (of_nat (length xs))"
  unfolding u_strlen_def by (rule u_strlen_loop_stops [where k = "length xs"]) auto

lemma u_strchr_loop_finds:
  assumes "0 \<notin> set xs"
  shows "i \<le> length xs \<Longrightarrow> u_strchr_loop (cstr_of xs) c i =
     Some (if c \<in> set (drop i xs) then Some (i + length (takeWhile (\<lambda>x. x \<noteq> c) (drop i xs))) else None)"
proof (induction "length xs - i" arbitrary: i)
  case 0
  then show ?case by (subst u_strchr_loop.simps) (simp add: cstr_of_def)
next
  case (Suc k)
  have lt: "i < length xs" using Suc.hyps by simp
  have nz: "cstr_of xs i \<noteq> 0" using lt assms by (metis cstr_of_nth nth_mem)
  have IH: "u_strchr_loop (cstr_of xs) c (Suc i) = Some (if c \<in> set (drop (Suc i) xs)
      then Some (Suc i + length (takeWhile (\<lambda>x. x \<noteq> c) (drop (Suc i) xs))) else None)"
    using Suc.hyps lt by auto
  have d: "drop i xs = xs ! i # drop (Suc i) xs" using lt by (simp add: Cons_nth_drop_Suc)
  show ?case using nz IH by (subst u_strchr_loop.simps) (auto simp: d cstr_of_nth [OF lt])
qed

lemma u_strchr_finds:
  "0 \<notin> set xs \<Longrightarrow> u_strchr (cstr_of xs) c =
     Some (if c \<in> set xs then Some (length (takeWhile (\<lambda>x. x \<noteq> c) xs)) else None)"
  using u_strchr_loop_finds [of xs 0 c] by (simp add: u_strchr_def)

end
