(* ===== verification/Uprintf.thy ===== *)
theory Uprintf
  imports Ulib
begin

text \<open>
  \<open>user/printf.c\<close>: the bytes that \<open>fprintf\<close> and \<open>printf\<close> write, one \<open>write\<close> of one byte after the
  other, as a list; \<open>fprintf\<close> pairs it with the file descriptor. An argument of the wrong kind or a
  missing one, undefined in C, reads as zero. The last theorem says that \<open>atoi\<close> of \<open>ulib.c\<close>
  reads back what \<open>printf\<close> prints for \<open>%d\<close>.
\<close>

section \<open>Numbers\<close>

definition u_digit :: "nat \<Rightarrow> u8" where
  "u_digit n = of_char (''0123456789ABCDEF'' ! n)"

text \<open>The digits in the order in which the loop stores them, least significant first.\<close>

function u_digits :: "u32 \<Rightarrow> u32 \<Rightarrow> u8 list" where
  "u_digits base x =
     u_digit (unat (x mod base)) # (if x div base = 0 \<or> base \<le> 1 then [] else u_digits base (x div base))"
  by pat_completeness auto
termination
proof (relation "measure (\<lambda>(base, x). unat x)", goal_cases)
  case 1
  then show ?case by simp
next
  case (2 base x)
  then have "unat base > 1" "unat x div unat base \<noteq> 0"
    by (auto simp: word_less_nat_alt not_le word_unat_eq_iff unat_div)
  then have "unat x > 0" by (metis div_0 gr_zeroI)
  then show ?case using \<open>unat base > 1\<close> by (simp add: unat_div div_less_dividend)
qed

declare u_digits.simps [simp del]

definition u_printint :: "u32 \<Rightarrow> u32 \<Rightarrow> bool \<Rightarrow> u8 list" where
  "u_printint xx base sign =
     (let neg = (sign \<and> sint xx < 0); x = (if neg then - xx else xx)
      in rev (u_digits base x @ (if neg then [0x2D] else [])))"

definition u_printptr :: "u64 \<Rightarrow> u8 list" where
  "u_printptr x = [0x30, 0x78] @ map (\<lambda>i. u_digit (unat (drop_bit 60 (push_bit (4 * i) x)))) [0..<16]"

section \<open>vprintf\<close>

datatype varg = VInt u32 | VLong u64 | VStr "u8 list option"

primrec va_int :: "varg \<Rightarrow> u32" where
  "va_int (VInt x) = x" | "va_int (VLong x) = 0" | "va_int (VStr s) = 0"

primrec va_long :: "varg \<Rightarrow> u64" where
  "va_long (VInt x) = 0" | "va_long (VLong x) = x" | "va_long (VStr s) = 0"

primrec va_str :: "varg \<Rightarrow> u8 list option" where
  "va_str (VInt x) = None" | "va_str (VLong x) = None" | "va_str (VStr s) = s"

definition va_head :: "varg list \<Rightarrow> varg" where
  "va_head ap = (case ap of [] \<Rightarrow> VInt 0 | a # _ \<Rightarrow> a)"

text \<open>\<open>(null)\<close>, the string printed for a null pointer.\<close>

definition null_str :: "u8 list" where
  "null_str = [0x28, 0x6E, 0x75, 0x6C, 0x6C, 0x29]"

text \<open>The flag is the \<open>state\<close> of the loop: a percent sign has been read.\<close>

fun vprintf_loop :: "bool \<Rightarrow> u8 list \<Rightarrow> varg list \<Rightarrow> u8 list" where
  "vprintf_loop state [] ap = []"
| "vprintf_loop False (c # fmt) ap =
     (if c = 0x25 then vprintf_loop True fmt ap else c # vprintf_loop False fmt ap)"
| "vprintf_loop True (c # fmt) ap =
     (if c = 0x64 then u_printint (va_int (va_head ap)) 10 True @ vprintf_loop False fmt (tl ap)
      else if c = 0x6C then u_printint (ucast (va_long (va_head ap))) 10 False @ vprintf_loop False fmt (tl ap)
      else if c = 0x78 then u_printint (va_int (va_head ap)) 16 False @ vprintf_loop False fmt (tl ap)
      else if c = 0x70 then u_printptr (va_long (va_head ap)) @ vprintf_loop False fmt (tl ap)
      else if c = 0x73
      then (case va_str (va_head ap) of None \<Rightarrow> null_str | Some s \<Rightarrow> s) @ vprintf_loop False fmt (tl ap)
      else if c = 0x63 then ucast (va_int (va_head ap)) # vprintf_loop False fmt (tl ap)
      else if c = 0x25 then c # vprintf_loop False fmt ap
      else 0x25 # c # vprintf_loop False fmt ap)"

definition vprintf :: "u8 list \<Rightarrow> varg list \<Rightarrow> u8 list" where
  "vprintf fmt ap = vprintf_loop False fmt ap"

definition fprintf :: "int \<Rightarrow> u8 list \<Rightarrow> varg list \<Rightarrow> int \<times> u8 list" where
  "fprintf fd fmt ap = (fd, vprintf fmt ap)"

definition u_printf :: "u8 list \<Rightarrow> varg list \<Rightarrow> int \<times> u8 list" where
  "u_printf fmt ap = (1, vprintf fmt ap)"

section \<open>Reading a number back\<close>

text \<open>What \<open>atoi\<close> computes on a list of decimal digits.\<close>

definition dec_value :: "u32 \<Rightarrow> u8 list \<Rightarrow> u32" where
  "dec_value n ds = foldl (\<lambda>n c. n * 10 + ucast c - 0x30) n ds"

definition is_digit :: "u8 \<Rightarrow> bool" where
  "is_digit c \<longleftrightarrow> 0x30 \<le> c \<and> c \<le> 0x39"

lemma atoi_loop_digits:
  "\<forall>c\<in>set ds. is_digit c \<Longrightarrow> \<not> is_digit (cstr_of rest 0) \<Longrightarrow>
   atoi_loop (cstr_of (ds @ rest)) n = Some (dec_value n ds)"
proof (induction ds arbitrary: n)
  case Nil
  then show ?case by (subst atoi_loop.simps) (auto simp: dec_value_def is_digit_def)
next
  case (Cons d ds)
  then show ?case
    by (subst atoi_loop.simps) (auto simp: cstr_of_0 is_digit_def dec_value_def)
qed

lemma u_digit_10: "n < 10 \<Longrightarrow> is_digit (u_digit n) \<and> ucast (u_digit n) = (of_nat n + 0x30 :: u32)"
proof -
  have "list_all (\<lambda>n. is_digit (u_digit n) \<and> ucast (u_digit n) = (of_nat n + 0x30 :: u32)) [0..<10]"
    by code_simp
  then show "n < 10 \<Longrightarrow> is_digit (u_digit n) \<and> ucast (u_digit n) = (of_nat n + 0x30 :: u32)"
    by (simp add: list_all_iff)
qed

lemma u_digits_10:
  "\<forall>c\<in>set (u_digits 10 x). is_digit c" "dec_value 0 (rev (u_digits 10 x)) = x"
proof (induction "10 :: u32" x rule: u_digits.induct)
  case (1 x)
  have r: "unat (x mod 10) < 10" by (simp add: unat_mod)
  have split: "x div 10 * 10 + x mod 10 = x" by (rule div_mult_mod_eq)
  have hd: "ucast (u_digit (unat (x mod 10))) = (x mod 10 + 0x30 :: u32)"
    using u_digit_10 [OF r] by simp
  {
    case 1
    show ?case using u_digit_10 [OF r] "1.hyps"(1) by (subst u_digits.simps) auto
  next
    case 2
    show ?case
    proof (cases "x div 10 = 0")
      case True
      then show ?thesis using hd split by (subst u_digits.simps) (simp add: dec_value_def)
    next
      case False
      have le: "\<not> (10 :: u32) \<le> 1" by (simp add: word_le_nat_alt)
      from False this have "dec_value 0 (rev (u_digits 10 (x div 10))) = x div 10"
        using "1.hyps"(2) by blast
      then show ?thesis using hd split False le
        by (subst u_digits.simps) (simp add: dec_value_def)
    qed
  }
qed

text \<open>
  What the user library's \<open>printf\<close> prints for \<open>%d\<close> of a non-negative number, followed by
  anything that does not start with a digit, \<open>atoi\<close> reads back as that number.
\<close>

theorem atoi_reads_what_printf_prints:
  assumes "0 \<le> sint x" and "\<not> is_digit (cstr_of rest 0)"
  shows "atoi (cstr_of (vprintf [0x25, 0x64] [VInt x] @ rest)) = Some x"
proof -
  have p: "vprintf [0x25, 0x64] [VInt x] = rev (u_digits 10 x)"
    using assms(1) by (simp add: vprintf_def va_head_def u_printint_def)
  have "atoi_loop (cstr_of (rev (u_digits 10 x) @ rest)) 0 = Some (dec_value 0 (rev (u_digits 10 x)))"
    by (rule atoi_loop_digits [OF _ assms(2)]) (use u_digits_10(1) in auto)
  then show ?thesis by (simp add: p atoi_def u_digits_10(2))
qed

theorem atoi_reads_what_printf_prints_witness:
  "atoi (cstr_of (vprintf [0x25, 0x64] [VInt 40] @ [0x20, 0x37])) = Some 40"
  by (rule atoi_reads_what_printf_prints) (simp_all add: cstr_of_0 is_digit_def)

end
