(* ===== verification/Umalloc.thy ===== *)
theory Umalloc
  imports Prelude
begin

text \<open>
  The memory allocator of the user library, \<open>user/umalloc.c\<close>: a circular list of free blocks in the
  order of their addresses. A pointer is the number of the byte it points to (user addresses are
  below 2^38, so pointer arithmetic never wraps), a size is a \<open>uint\<close> in units of the 16 bytes of a
  header. \<open>None\<close> is a search that does not end. The system call \<open>sbrk\<close> is a parameter on the state
  of the operating system: the old break, or \<open>None\<close> for -1.
\<close>

record 's uheap =
  u_ptr :: "nat \<Rightarrow> nat"
  u_size :: "nat \<Rightarrow> u32"
  freep :: nat
  os :: 's

definition HDR :: nat where "HDR = 16"

definition set_ptr :: "nat \<Rightarrow> nat \<Rightarrow> ('s, 'z) uheap_scheme \<Rightarrow> ('s, 'z) uheap_scheme" where
  "set_ptr p q h = h\<lparr>u_ptr := (u_ptr h)(p := q)\<rparr>"

definition set_size :: "nat \<Rightarrow> u32 \<Rightarrow> ('s, 'z) uheap_scheme \<Rightarrow> ('s, 'z) uheap_scheme" where
  "set_size p n h = h\<lparr>u_size := (u_size h)(p := n)\<rparr>"

text \<open>\<open>p + p->s.size\<close>\<close>

definition block_end :: "('s, 'z) uheap_scheme \<Rightarrow> nat \<Rightarrow> nat" where
  "block_end h p = p + HDR * unat (u_size h p)"

partial_function (option) free_find :: "('s, 'z) uheap_scheme \<Rightarrow> nat \<Rightarrow> nat \<Rightarrow> nat option" where
  "free_find h bp p =
     (if p < bp \<and> bp < u_ptr h p then Some p
      else if u_ptr h p \<le> p \<and> (p < bp \<or> bp < u_ptr h p) then Some p
      else free_find h bp (u_ptr h p))"

definition link_block :: "nat \<Rightarrow> nat \<Rightarrow> ('s, 'z) uheap_scheme \<Rightarrow> ('s, 'z) uheap_scheme" where
  "link_block bp p h =
     (let h = (if block_end h bp = u_ptr h p
               then let h = set_size bp (u_size h bp + u_size h (u_ptr h p)) h
                    in set_ptr bp (u_ptr h (u_ptr h p)) h
               else set_ptr bp (u_ptr h p) h);
          h = (if block_end h p = bp
               then let h = set_size p (u_size h p + u_size h bp) h
                    in set_ptr p (u_ptr h bp) h
               else set_ptr p bp h)
      in h\<lparr>freep := p\<rparr>)"

definition free :: "nat \<Rightarrow> ('s, 'z) uheap_scheme \<Rightarrow> ('s, 'z) uheap_scheme option" where
  "free ap h =
     (let bp = ap - HDR in map_option (\<lambda>p. link_block bp p h) (free_find h bp (freep h)))"

text \<open>The argument of \<open>sbrk\<close>: \<open>nu * sizeof(Header)\<close> is converted to \<open>int\<close>.\<close>

definition request :: "u32 \<Rightarrow> int" where
  "request nu = sint (of_nat (unat nu * HDR) :: u32)"

text \<open>The result is the new \<open>freep\<close>, or 0.\<close>

definition morecore ::
    "(int \<Rightarrow> 's \<Rightarrow> nat option \<times> 's) \<Rightarrow> u32 \<Rightarrow> ('s, 'z) uheap_scheme \<Rightarrow> (nat \<times> ('s, 'z) uheap_scheme) option" where
  "morecore sbrk nu h =
     (let nu = (if nu < 4096 then 4096 else nu);
          (p, s) = sbrk (request nu) (os h);
          h = h\<lparr>os := s\<rparr>
      in case p of
           None \<Rightarrow> Some (0, h)
         | Some hp \<Rightarrow> map_option (\<lambda>h. (freep h, h)) (free (hp + HDR) (set_size hp nu h)))"

text \<open>Take \<open>nunits\<close> from the block \<open>p\<close>, from its end if it is larger.\<close>

definition carve :: "u32 \<Rightarrow> nat \<Rightarrow> nat \<Rightarrow> ('s, 'z) uheap_scheme \<Rightarrow> nat \<times> ('s, 'z) uheap_scheme" where
  "carve nunits prevp p h =
     (let (p, h) =
        (if u_size h p = nunits then (p, set_ptr prevp (u_ptr h p) h)
         else let h = set_size p (u_size h p - nunits) h; p = block_end h p
              in (p, set_size p nunits h))
      in (p + HDR, h\<lparr>freep := prevp\<rparr>))"

partial_function (option) malloc_loop ::
    "(int \<Rightarrow> 's \<Rightarrow> nat option \<times> 's) \<Rightarrow> u32 \<Rightarrow> nat \<Rightarrow> nat \<Rightarrow> ('s, 'z) uheap_scheme \<Rightarrow>
      (nat \<times> ('s, 'z) uheap_scheme) option" where
  "malloc_loop sbrk nunits prevp p h =
     (if u_size h p \<ge> nunits then Some (carve nunits prevp p h)
      else if p = freep h
      then (case morecore sbrk nunits h of
              None \<Rightarrow> None
            | Some (p, h) \<Rightarrow>
                if p = 0 then Some (0, h) else malloc_loop sbrk nunits p (u_ptr h p) h)
      else malloc_loop sbrk nunits p (u_ptr h p) h)"

text \<open>\<open>base\<close> is the address of the static header.\<close>

definition malloc ::
    "(int \<Rightarrow> 's \<Rightarrow> nat option \<times> 's) \<Rightarrow> nat \<Rightarrow> u32 \<Rightarrow> ('s, 'z) uheap_scheme \<Rightarrow>
      (nat \<times> ('s, 'z) uheap_scheme) option" where
  "malloc sbrk base nbytes h =
     (let nunits = of_nat ((unat nbytes + HDR - 1) div HDR + 1) :: u32;
          h = (if freep h = 0 then set_size base 0 (set_ptr base base (h\<lparr>freep := base\<rparr>)) else h)
      in malloc_loop sbrk nunits (freep h) (u_ptr h (freep h)) h)"

end
