(* ===== verification/Umalloc_Props.thy ===== *)
theory Umalloc_Props
  imports Umalloc
begin

text \<open>
  The free list of \<open>user/umalloc.c\<close> as a list of blocks: the search of \<open>free\<close> ends at the block before
  the freed one, linking it joins neighbours and keeps the list in order, \<open>malloc\<close> takes a block or the
  end of one out of it. From these, the invariant of any program that allocates, writes and frees.
\<close>

section \<open>The circular list\<close>

text \<open>Blocks as pairs of address and size; the last one points to \<open>e\<close>.\<close>

type_synonym block = "nat \<times> nat"

primrec first :: "block list \<Rightarrow> nat \<Rightarrow> nat" where
  "first [] e = e"
| "first (b # bs) e = fst b"

primrec linked :: "('s, 'z) uheap_scheme \<Rightarrow> block list \<Rightarrow> nat \<Rightarrow> bool" where
  "linked h [] e \<longleftrightarrow> True"
| "linked h (b # bs) e \<longleftrightarrow>
     unat (u_size h (fst b)) = snd b \<and> u_ptr h (fst b) = first bs e \<and> linked h bs e"

abbreviation before :: "block \<Rightarrow> block \<Rightarrow> bool" where
  "before \<equiv> \<lambda>x y. fst x + HDR * snd x < fst y"

text \<open>
  The free list: the static header with size 0 first, then the free blocks in order, none empty, no
  two adjacent, all below \<open>lim\<close>.
\<close>

definition HEAP_LIMIT :: nat where "HEAP_LIMIT = 2 ^ 36"

definition ring :: "nat \<Rightarrow> nat \<Rightarrow> ('s, 'z) uheap_scheme \<Rightarrow> block list \<Rightarrow> bool" where
  "ring base lim h bs \<longleftrightarrow>
     0 < base \<and> linked h ((base, 0) # bs) base \<and> sorted_wrt before ((base, 0) # bs) \<and>
     (\<forall>b\<in>set bs. 0 < snd b \<and> fst b + HDR * snd b \<le> lim) \<and>
     freep h \<in> fst ` set ((base, 0) # bs) \<and> base \<le> lim \<and> lim < HEAP_LIMIT"

lemma HDR_pos [simp]: "0 < HDR" "HDR \<noteq> 0"
  by (simp_all add: HDR_def)

lemma first_append: "first (xs @ ys) e = first xs (first ys e)"
  by (cases xs) auto

lemma linked_append: "linked h (xs @ ys) e \<longleftrightarrow> linked h xs (first ys e) \<and> linked h ys e"
  by (induction xs) (auto simp: first_append)

lemma linked_cong:
  "\<forall>b\<in>set bs. u_ptr h' (fst b) = u_ptr h (fst b) \<and> u_size h' (fst b) = u_size h (fst b) \<Longrightarrow>
   linked h' bs e = linked h bs e"
  by (induction bs) auto

lemma sorted_distinct:
  "sorted_wrt before bs \<Longrightarrow> distinct (map fst bs)"
  by (induction bs) (force dest: add_lessD1)+

section \<open>Where free looks\<close>

lemma find_low:
  "linked h zs e \<Longrightarrow> sorted_wrt before zs \<Longrightarrow> \<forall>b\<in>set zs. fst b < e \<Longrightarrow> e < bp \<Longrightarrow>
   free_find h bp (first zs e) = free_find h bp e"
proof (induction zs)
  case (Cons z zs)
  have n: "u_ptr h (fst z) = first zs e" using Cons.prems(1) by simp
  have lt: "fst z < first zs e" using Cons.prems(2,3) by (cases zs) (auto dest: add_lessD1)
  have "first zs e < bp" using Cons.prems(3,4) by (cases zs) (auto intro: less_trans)
  then have "free_find h bp (fst z) = free_find h bp (first zs e)"
    using n lt by (subst free_find.simps) (auto split: if_splits)
  then show ?case using Cons by simp
qed simp

lemma find_high:
  "linked h zs e \<Longrightarrow> sorted_wrt before zs \<Longrightarrow> \<forall>b\<in>set zs. bp < fst b \<Longrightarrow> e < bp \<Longrightarrow>
   free_find h bp (first zs e) = free_find h bp e"
proof (induction zs)
  case (Cons z zs)
  have n: "u_ptr h (fst z) = first zs e" "bp < fst z" using Cons.prems(1,3) by simp_all
  have "free_find h bp (fst z) = free_find h bp (first zs e)"
  proof (cases zs)
    case Nil
    then show ?thesis using n Cons.prems(3,4) by (subst free_find.simps) auto
  next
    case (Cons y ys)
    then have "fst z < first zs e" "bp < first zs e" using Cons.prems(2,3) \<open>zs = y # ys\<close> Cons
      by (auto dest: add_lessD1)
    then show ?thesis using n by (subst free_find.simps) auto
  qed
  then show ?case using Cons by simp
qed simp

text \<open>From every block of the list the search ends at the one before the freed block.\<close>

lemma free_find_predecessor:
  assumes l: "linked h (xs @ (a, s) # ys) e" and so: "sorted_wrt before (xs @ (a, s) # ys)"
    and e: "first (xs @ (a, s) # ys) 0 = e" and a: "a < bp" and ys: "\<forall>b\<in>set ys. bp < fst b"
    and st: "st \<in> fst ` set (xs @ (a, s) # ys)"
  shows "free_find h bp st = Some a"
proof -
  have xs: "\<forall>b\<in>set xs. fst b < a" using so by (auto simp: sorted_wrt_append dest: add_lessD1)
  have ea: "e \<le> a" using e xs by (cases xs) auto
  have p: "u_ptr h a = first ys e" using l by (simp add: linked_append)
  have at: "free_find h bp a = Some a"
  proof (cases ys)
    case Nil
    then show ?thesis using p a ea by (subst free_find.simps) auto
  next
    case (Cons y ys')
    then show ?thesis using p a ys by (subst free_find.simps) auto
  qed
  have low: "free_find h bp (first (us @ [(a, s)]) 0) = Some a" if "xs = vs @ us" for us vs
  proof -
    have "first (us @ [(a, s)]) 0 = first us a" by (cases us) auto
    moreover have "free_find h bp (first us a) = free_find h bp a"
      by (rule find_low) (use l so xs a that in \<open>auto simp: linked_append sorted_wrt_append first_append\<close>)
    ultimately show ?thesis using at by simp
  qed
  have ae: "free_find h bp e = Some a"
    using low [of "[]" xs] e by (cases xs) (auto simp: first_append)
  have high: "free_find h bp (first us e) = Some a" if "ys = vs @ us" for us vs
  proof -
    have "free_find h bp (first us e) = free_find h bp e"
      by (rule find_high) (use l so ys ea a that in \<open>auto simp: linked_append sorted_wrt_append\<close>)
    then show ?thesis using ae by simp
  qed
  from st consider b where "b \<in> set xs" "st = fst b" | "st = a" | b where "b \<in> set ys" "st = fst b" by auto
  then show ?thesis
  proof cases
    case 1
    then obtain vs us where "xs = vs @ b # us" by (meson split_list)
    then show ?thesis using low [of vs "b # us"] 1 by simp
  next
    case 2
    then show ?thesis using at by simp
  next
    case 3
    then obtain vs us where "ys = vs @ b # us" by (meson split_list)
    then show ?thesis using high [of vs "b # us"] 3 by simp
  qed
qed

section \<open>What free does\<close>

text \<open>A block put before others, joined with the first one if they touch.\<close>

definition merge :: "block \<Rightarrow> block list \<Rightarrow> block list" where
  "merge b ys =
     (case ys of
        y # ys' \<Rightarrow> if fst b + HDR * snd b = fst y then (fst b, snd b + snd y) # ys' else b # ys
      | [] \<Rightarrow> [b])"

lemma unat_add_sizes:
  fixes m n :: u32
  assumes "a + HDR * (unat m + unat n) < HEAP_LIMIT"
  shows "unat (m + n) = unat m + unat n"
  using assms by (subst unat_add_lem [THEN iffD1]) (auto simp: HDR_def HEAP_LIMIT_def)

text \<open>The two halves of \<open>link_block\<close>.\<close>

definition link_right :: "nat \<Rightarrow> nat \<Rightarrow> ('s, 'z) uheap_scheme \<Rightarrow> ('s, 'z) uheap_scheme" where
  "link_right bp p h =
     (if block_end h bp = u_ptr h p
      then let h = set_size bp (u_size h bp + u_size h (u_ptr h p)) h
           in set_ptr bp (u_ptr h (u_ptr h p)) h
      else set_ptr bp (u_ptr h p) h)"

definition link_left :: "nat \<Rightarrow> nat \<Rightarrow> ('s, 'z) uheap_scheme \<Rightarrow> ('s, 'z) uheap_scheme" where
  "link_left bp p h =
     (if block_end h p = bp
      then let h = set_size p (u_size h p + u_size h bp) h
           in set_ptr p (u_ptr h bp) h
      else set_ptr p bp h)"

lemma link_block_halves: "link_block bp p h = (link_left bp p (link_right bp p h))\<lparr>freep := p\<rparr>"
  by (simp add: link_block_def link_right_def link_left_def Let_def)

lemma linked_freep [simp]: "linked (h\<lparr>freep := p\<rparr>) bs e = linked h bs e"
  by (rule linked_cong) simp

lemma link_right_other:
  "x \<noteq> bp \<Longrightarrow> u_ptr (link_right bp p h) x = u_ptr h x \<and> u_size (link_right bp p h) x = u_size h x"
  by (simp add: link_right_def set_ptr_def set_size_def Let_def)

lemma link_left_other:
  "x \<noteq> p \<Longrightarrow> u_ptr (link_left bp p h) x = u_ptr h x \<and> u_size (link_left bp p h) x = u_size h x"
  by (simp add: link_left_def set_ptr_def set_size_def Let_def)

lemma link_right_list:
  assumes l: "linked h ys e" and p: "u_ptr h a = first ys e" and n: "unat (u_size h bp) = n"
    and e: "e < bp" and bys: "\<forall>y\<in>set ys. bp < fst y"
    and lim: "\<forall>b\<in>set ((bp, n) # ys). fst b + HDR * snd b < HEAP_LIMIT"
  shows "linked (link_right bp a h) (merge (bp, n) ys) e"
proof (cases ys)
  case Nil
  then show ?thesis using p n e
    by (simp add: merge_def link_right_def block_end_def set_ptr_def)
next
  case (Cons y ys')
  have keep: "linked (link_right bp a h) us e = linked h us e" if "set us \<subseteq> set ys" for us
    by (rule linked_cong) (use that bys in \<open>auto intro!: link_right_other\<close>)
  show ?thesis
  proof (cases "bp + HDR * n = fst y")
    case True
    have "bp + HDR * (n + snd y) < HEAP_LIMIT"
      using lim True by (simp add: Cons algebra_simps)
    then have "unat (u_size h bp + u_size h (fst y)) = n + snd y"
      using unat_add_sizes [of bp "u_size h bp" "u_size h (fst y)"] n l Cons by simp
    then show ?thesis using True p n l keep [of ys'] bys Cons
      by (simp add: merge_def link_right_def block_end_def set_ptr_def set_size_def Let_def subset_insertI)
  next
    case False
    then show ?thesis using p n l keep [of ys] bys Cons
      by (simp add: merge_def link_right_def block_end_def set_ptr_def)
  qed
qed

lemma merge_first: "\<exists>m ys'. merge (bp, n) ys = (bp, m) # ys' \<and> set ys' \<subseteq> set ys"
  by (cases ys) (auto simp: merge_def)

lemma link_left_list:
  assumes l: "linked h ((bp, m) # ys) e" and s: "unat (u_size h a) = s" and a: "a < bp"
    and ys: "\<forall>y\<in>set ys. a < fst y"
    and lim: "bp + HDR * m < HEAP_LIMIT"
  shows "linked (link_left bp a h) (merge (a, s) ((bp, m) # ys)) e"
proof -
  have keep: "linked (link_left bp a h) us e = linked h us e" if "set us \<subseteq> set ((bp, m) # ys)" for us
    by (rule linked_cong) (use that a ys in \<open>auto intro!: link_left_other\<close>)
  show ?thesis
  proof (cases "a + HDR * s = bp")
    case True
    have "a + HDR * (s + m) < HEAP_LIMIT" using lim True by (simp add: algebra_simps)
    then have "unat (u_size h a + u_size h bp) = s + m"
      using unat_add_sizes [of a "u_size h a" "u_size h bp"] s l by simp
    then show ?thesis using True s l keep [of ys] a
      by (simp add: merge_def link_left_def block_end_def set_ptr_def set_size_def Let_def subset_insertI)
  next
    case False
    then show ?thesis using s l keep [of "(bp, m) # ys"]
      by (simp add: merge_def link_left_def block_end_def set_ptr_def)
  qed
qed

lemma link_block_list:
  assumes l: "linked h (xs @ (a, s) # ys) e"
    and n: "unat (u_size h bp) = n" and ab: "a < bp" "e \<le> a"
    and xs: "\<forall>b\<in>set xs. fst b < a" and bys: "\<forall>y\<in>set ys. bp < fst y"
    and lim: "\<forall>b\<in>set (merge (bp, n) ys). fst b + HDR * snd b < HEAP_LIMIT"
      "\<forall>b\<in>set ((bp, n) # ys). fst b + HDR * snd b < HEAP_LIMIT"
  shows "linked (link_block bp a h) (xs @ merge (a, s) (merge (bp, n) ys)) e"
proof -
  let ?h = "link_right bp a h"
  obtain m ys' where r: "merge (bp, n) ys = (bp, m) # ys'" "set ys' \<subseteq> set ys"
    using merge_first by blast
  have pa: "u_ptr h a = first ys e" and sa: "unat (u_size h a) = s" and lx: "linked h xs a" and ly: "linked h ys e"
    using l by (auto simp: linked_append)
  have lr: "linked ?h ((bp, m) # ys') e"
    using link_right_list [OF ly pa n _ bys lim(2)] ab r(1) by simp
  have sa': "unat (u_size ?h a) = s" using link_right_other [of a bp a h] ab sa by simp
  have "linked (link_left bp a ?h) (merge (a, s) ((bp, m) # ys')) e"
    by (rule link_left_list [OF lr sa' ab(1)]) (use r bys ab lim(1) in fastforce)+
  moreover have "linked (link_left bp a ?h) xs a"
  proof -
    have "linked (link_left bp a ?h) xs a = linked h xs a"
    proof (rule linked_cong, rule ballI)
      fix b
      assume "b \<in> set xs"
      then have "fst b \<noteq> a" "fst b \<noteq> bp" using xs ab(1) by auto
      then show "u_ptr (link_left bp a ?h) (fst b) = u_ptr h (fst b) \<and>
          u_size (link_left bp a ?h) (fst b) = u_size h (fst b)"
        by (simp add: link_left_other link_right_other)
    qed
    then show ?thesis using lx by simp
  qed
  moreover have "first (merge (a, s) ((bp, m) # ys')) e = a" by (simp add: merge_def)
  ultimately show ?thesis by (simp add: link_block_halves linked_append r(1))
qed

definition bytes_of :: "block \<Rightarrow> nat set" where
  "bytes_of b = {fst b ..< fst b + HDR * snd b}"

definition free_bytes :: "block list \<Rightarrow> nat set" where
  "free_bytes bs = (\<Union>b\<in>set bs. bytes_of b)"

lemma free_bytes_simps [simp]:
  "free_bytes [] = {}" "free_bytes (b # bs) = bytes_of b \<union> free_bytes bs"
  "free_bytes (xs @ ys) = free_bytes xs \<union> free_bytes ys"
  by (auto simp: free_bytes_def)

lemma bytes_of_join: "fst b + HDR * snd b = fst y \<Longrightarrow> bytes_of (fst b, snd b + snd y) = bytes_of b \<union> bytes_of y"
  by (auto simp: bytes_of_def algebra_simps)

text \<open>Every block is nonempty and ends at \<open>lim\<close> at the latest.\<close>

definition blocks_ok :: "nat \<Rightarrow> block list \<Rightarrow> bool" where
  "blocks_ok lim bs \<longleftrightarrow> (\<forall>b\<in>set bs. 0 < snd b \<and> fst b + HDR * snd b \<le> lim)"

lemma blocks_ok_simps [simp]:
  "blocks_ok lim []" "blocks_ok lim (b # bs) \<longleftrightarrow> 0 < snd b \<and> fst b + HDR * snd b \<le> lim \<and> blocks_ok lim bs"
  "blocks_ok lim (xs @ ys) \<longleftrightarrow> blocks_ok lim xs \<and> blocks_ok lim ys"
  by (auto simp: blocks_ok_def)

lemma before_gap:
  "sorted_wrt before (y # ys) \<Longrightarrow> z \<in> set ys \<Longrightarrow> fst y < fst z"
  by (auto dest: add_lessD1)

lemma merge_cases:
  assumes "sorted_wrt before ys" and "\<forall>y\<in>set ys. fst b + HDR * snd b \<le> fst y"
  obtains (join) y ys' where "ys = y # ys'" "fst b + HDR * snd b = fst y" "merge b ys = (fst b, snd b + snd y) # ys'"
  | (apart) "merge b ys = b # ys" "\<forall>y\<in>set ys. fst b + HDR * snd b < fst y"
proof (cases ys)
  case Nil
  then show ?thesis using apart by (simp add: merge_def)
next
  case (Cons y ys')
  show ?thesis
  proof (cases "fst b + HDR * snd b = fst y")
    case True
    then show ?thesis using join [OF Cons] Cons by (simp add: merge_def)
  next
    case False
    then have "fst b + HDR * snd b < fst y" using assms(2) Cons by auto
    moreover have "fst b + HDR * snd b < fst z" if "z \<in> set ys'" for z
      using before_gap [of y ys' z] that assms(1) calculation Cons by auto
    ultimately show ?thesis using apart False Cons by (auto simp: merge_def)
  qed
qed

lemma merge_ok:
  assumes s: "sorted_wrt before ys" and g: "\<forall>y\<in>set ys. fst b + HDR * snd b \<le> fst y"
  shows "sorted_wrt before (merge b ys)" and "free_bytes (merge b ys) = bytes_of b \<union> free_bytes ys"
    and "blocks_ok lim ys \<Longrightarrow> fst b + HDR * snd b \<le> lim \<Longrightarrow> \<forall>c\<in>set (merge b ys). fst c + HDR * snd c \<le> lim"
    and "\<forall>c\<in>set (merge b ys). fst c = fst b \<or> c \<in> set ys"
    and "\<exists>c\<in>set (merge b ys). fst c = fst b \<and> snd b \<le> snd c"
    and "0 < snd b \<Longrightarrow> blocks_ok lim ys \<Longrightarrow> \<forall>c\<in>set (merge b ys). 0 < snd c"
proof -
  have *: "sorted_wrt before (merge b ys) \<and> free_bytes (merge b ys) = bytes_of b \<union> free_bytes ys \<and>
     (\<forall>lim. blocks_ok lim ys \<longrightarrow> fst b + HDR * snd b \<le> lim \<longrightarrow> (\<forall>c\<in>set (merge b ys). fst c + HDR * snd c \<le> lim)) \<and>
     (\<forall>c\<in>set (merge b ys). fst c = fst b \<or> c \<in> set ys) \<and>
     (\<exists>c\<in>set (merge b ys). fst c = fst b \<and> snd b \<le> snd c) \<and>
     (\<forall>lim. 0 < snd b \<longrightarrow> blocks_ok lim ys \<longrightarrow> (\<forall>c\<in>set (merge b ys). 0 < snd c))"
    using s g
  proof (cases rule: merge_cases)
    case (join y ys')
    then have "fst b + HDR * (snd b + snd y) = fst y + HDR * snd y" by (simp add: algebra_simps)
    then show ?thesis using s bytes_of_join [OF join(2)] join by (auto simp: blocks_ok_def)
  next
    case apart
    then show ?thesis using s by (auto simp: blocks_ok_def)
  qed
  show "sorted_wrt before (merge b ys)" "free_bytes (merge b ys) = bytes_of b \<union> free_bytes ys"
    "blocks_ok lim ys \<Longrightarrow> fst b + HDR * snd b \<le> lim \<Longrightarrow> \<forall>c\<in>set (merge b ys). fst c + HDR * snd c \<le> lim"
    "\<forall>c\<in>set (merge b ys). fst c = fst b \<or> c \<in> set ys"
    "\<exists>c\<in>set (merge b ys). fst c = fst b \<and> snd b \<le> snd c"
    "0 < snd b \<Longrightarrow> blocks_ok lim ys \<Longrightarrow> \<forall>c\<in>set (merge b ys). 0 < snd c"
    using * by blast+
qed

text \<open>Where a block that is disjoint from the free ones belongs.\<close>

lemma split_at:
  assumes so: "sorted_wrt before ((base, 0) # bs)" and ok: "blocks_ok lim bs"
    and n: "0 < n" "base < bp" and d: "bytes_of (bp, n) \<inter> free_bytes bs = {}"
  obtains xs a s ys where "(base, 0) # bs = xs @ (a, s) # ys" "a < bp" "a + HDR * s \<le> bp"
    "\<forall>y\<in>set ys. bp + HDR * n \<le> fst y"
proof -
  let ?L = "(base, 0) # bs" let ?P = "\<lambda>b. fst b < bp"
  have ne: "takeWhile ?P ?L \<noteq> []" using n by simp
  define xs where "xs = butlast (takeWhile ?P ?L)"
  define as where "as = last (takeWhile ?P ?L)"
  obtain a s where as: "as = (a, s)" by force
  define ys where "ys = dropWhile ?P ?L"
  have L: "?L = xs @ (a, s) # ys"
    using takeWhile_dropWhile_id [of ?P ?L] append_butlast_last_id [OF ne] as
    unfolding xs_def as_def ys_def by (metis append.assoc append_Cons append_Nil)
  have "as \<in> set (takeWhile ?P ?L)" unfolding as_def using ne by (rule last_in_set)
  then have a: "a < bp" using as by (auto dest: set_takeWhileD)
  have disj: "fst b + HDR * snd b \<le> bp \<or> bp + HDR * n \<le> fst b" if b: "b \<in> set ?L" for b
  proof (cases "b = (base, 0)")
    case True
    then show ?thesis using n by simp
  next
    case False
    then have m: "b \<in> set bs" "0 < snd b" using b ok by (auto simp: blocks_ok_def)
    then have "bytes_of (bp, n) \<inter> bytes_of b = {}" using d by (auto simp: free_bytes_def)
    then have "max bp (fst b) \<notin> bytes_of (bp, n) \<inter> bytes_of b" by simp
    then show ?thesis using n m by (auto simp: bytes_of_def max_def split: if_splits)
  qed
  have sl: "a + HDR * s \<le> bp"
    using disj [of "(a, s)"] L a n by (metis HDR_pos(1) add_leD1 fst_conv in_set_conv_decomp not_le snd_conv)
  have "bp + HDR * n \<le> fst y" if y: "y \<in> set ys" for y
  proof -
    obtain z zs where z: "ys = z # zs" using y by (cases ys) auto
    then have "\<not> fst z < bp" using hd_dropWhile [of ?P ?L] unfolding ys_def by (metis list.distinct(1) list.sel(1))
    moreover have "fst z \<le> fst y" 
    proof -
      have "sorted_wrt before (z # zs)" using so unfolding L z by (simp add: sorted_wrt_append)
      then show ?thesis using y z before_gap [of z zs y] by auto
    qed
    ultimately have "bp \<le> fst y" by simp
    moreover have yL: "y \<in> set ?L" using y by (subst L) simp
    moreover have "0 < snd y \<or> y = (base, 0)" using yL ok by (auto simp: blocks_ok_def)
    ultimately show ?thesis using disj [OF yL] n by (auto simp: HDR_def)
  qed
  then show ?thesis using that [OF L a sl] by blast
qed

lemma merge_keeps_size: "z \<in> set ys \<Longrightarrow> \<exists>c\<in>set (merge b ys). snd z \<le> snd c"
  by (cases ys) (auto simp: merge_def)

lemma sorted_around:
  assumes "sorted_wrt before (xs @ (a, s) # ys)"
  shows "\<forall>b\<in>set xs. fst b + HDR * snd b < a" "\<forall>b\<in>set xs. fst b < a" "\<forall>y\<in>set ys. a + HDR * s < fst y"
  using assms by (auto simp: sorted_wrt_append dest: add_lessD1)

lemma link_block_size:
  assumes "x \<noteq> bp" "a + HDR * s = bp \<Longrightarrow> x \<noteq> a" "unat (u_size h a) = s"
  shows "u_size (link_block bp a h) x = u_size h x"
proof (cases "a = bp")
  case True
  then show ?thesis using assms(1) by (simp add: link_block_halves link_left_other link_right_other)
next
  case False
  then have "u_size (link_right bp a h) a = u_size h a" by (simp add: link_right_other)
  then have "u_size (link_left bp a (link_right bp a h)) x = u_size (link_right bp a h) x"
    using assms(2,3) by (auto simp: link_left_def block_end_def set_ptr_def set_size_def Let_def)
  then show ?thesis using assms(1) by (simp add: link_block_halves link_right_other)
qed

text \<open>The list with a new block, joined with its neighbours.\<close>

lemma insert_block:
  assumes so: "sorted_wrt before (xs @ (a, s) # ys)" and L: "(base, 0) # bs = xs @ (a, s) # ys"
    and ok: "blocks_ok lim bs" and bl: "base \<le> lim" and n: "0 < n" and bp: "bp + HDR * n \<le> lim"
    and a: "a < bp" "a + HDR * s \<le> bp" and ys: "\<forall>y\<in>set ys. bp + HDR * n \<le> fst y"
  obtains bs' where "xs @ merge (a, s) (merge (bp, n) ys) = (base, 0) # bs'" "blocks_ok lim bs'"
    "sorted_wrt before ((base, 0) # bs')" "free_bytes bs' = free_bytes bs \<union> bytes_of (bp, n)"
    "\<exists>b\<in>set bs'. n \<le> snd b" "a \<in> fst ` set ((base, 0) # bs')"
    "\<forall>c\<in>set (merge (bp, n) ys). fst c + HDR * snd c \<le> lim" "\<forall>c\<in>set ys. fst c + HDR * snd c \<le> lim"
proof -
  let ?zs = "merge (bp, n) ys" let ?L = "xs @ merge (a, s) ?zs"
  note ar = sorted_around [OF so]
  have sy: "sorted_wrt before ys" using so by (simp add: sorted_wrt_append)
  have oky: "blocks_ok lim ys" using L ok by (cases xs) auto
  note m1 = merge_ok [OF sy, of "(bp, n)", simplified, OF ys]
  have lz: "bp \<le> fst z" if "z \<in> set ?zs" for z
    using that m1(4) ys by (metis add_leD1 order_refl)
  have gz: "\<forall>z\<in>set ?zs. a + HDR * s \<le> fst z" using lz a(2) le_trans by blast
  note m2 = merge_ok [OF m1(1), of "(a, s)", simplified, OF gz]
  have endz: "\<forall>c\<in>set ?zs. fst c + HDR * snd c \<le> lim" by (rule m1(3) [OF oky bp])
  have okz: "blocks_ok lim ?zs" using endz m1(6) [OF n oky] by (auto simp: blocks_ok_def)
  have "\<exists>bs'. ?L = (base, 0) # bs' \<and> blocks_ok lim bs'"
  proof (cases xs)
    case Nil
    then have e: "a = base" "s = 0" using L by auto
    have "merge (a, s) ?zs = (a, s) # ?zs" using merge_first [of bp n ys] a(1) e by (auto simp: merge_def)
    then show ?thesis using Nil e okz by simp
  next
    case (Cons x xs')
    then have "x = (base, 0)" and b: "bs = xs' @ (a, s) # ys" using L by auto
    moreover have "blocks_ok lim (merge (a, s) ?zs)"
      using m2(3) [OF okz] m2(6) [OF _ okz] ok b by (auto simp: blocks_ok_def)
    ultimately show ?thesis using Cons ok by simp
  qed
  then obtain bs' where L': "?L = (base, 0) # bs'" "blocks_ok lim bs'" by blast
  have lo: "a \<le> fst c" if c: "c \<in> set (merge (a, s) ?zs)" for c
  proof -
    have "fst c = a \<or> bp \<le> fst c" using c m2(4) lz by blast
    then show ?thesis using a(1) by auto
  qed
  have "sorted_wrt before ?L" using so m2(1) ar(1) lo by (auto simp: sorted_wrt_append intro: less_le_trans)
  moreover have "a \<in> fst ` set ?L" using m2(5) by force
  moreover have "free_bytes bs' = free_bytes bs \<union> bytes_of (bp, n)"
  proof -
    have "free_bytes ?L = free_bytes xs \<union> (bytes_of (a, s) \<union> (bytes_of (bp, n) \<union> free_bytes ys))"
      using m1(2) m2(2) by simp
    also have "\<dots> = free_bytes ((base, 0) # bs) \<union> bytes_of (bp, n)" unfolding L by auto
    finally show ?thesis unfolding L' by (simp add: bytes_of_def)
  qed
  moreover have "\<exists>b\<in>set bs'. n \<le> snd b"
  proof -
    obtain c where "c \<in> set ?zs" "n \<le> snd c" using m1(5) by auto
    then obtain c' where "c' \<in> set ?L" "n \<le> snd c'"
      using merge_keeps_size [of c ?zs "(a, s)"] by (auto intro: le_trans)
    then show ?thesis using n unfolding L' by auto
  qed
  ultimately show ?thesis using that L' endz oky by (simp add: blocks_ok_def)
qed

text \<open>
  \<open>free\<close> of a block disjoint from the free ones keeps the list well-formed and adds exactly the
  bytes of the block, joined with its free neighbours.
\<close>

lemma free_ring:
  fixes h :: "('s, 'z) uheap_scheme"
  assumes r: "ring base lim h bs"
    and n: "unat (u_size h bp) = n" "0 < n" and bp: "base < bp" "bp + HDR * n \<le> lim"
    and d: "bytes_of (bp, n) \<inter> free_bytes bs = {}"
  shows "\<exists>h' bs'. free (bp + HDR) h = Some h' \<and> ring base lim h' bs' \<and>
    free_bytes bs' = free_bytes bs \<union> bytes_of (bp, n) \<and> os h' = os h \<and> (\<exists>b\<in>set bs'. n \<le> snd b) \<and>
    (\<forall>x. x \<notin> free_bytes bs' \<longrightarrow> u_size h' x = u_size h x)"
proof -
  have so: "sorted_wrt before ((base, 0) # bs)" and ok: "blocks_ok lim bs"
    and l: "linked h ((base, 0) # bs) base" and lt: "lim < HEAP_LIMIT" "base \<le> lim" "0 < base"
    and fp: "freep h \<in> fst ` set ((base, 0) # bs)"
    using r by (auto simp: ring_def blocks_ok_def)
  obtain xs a s ys where L: "(base, 0) # bs = xs @ (a, s) # ys" and a: "a < bp" "a + HDR * s \<le> bp"
      and ys: "\<forall>y\<in>set ys. bp + HDR * n \<le> fst y"
    using split_at [OF so ok n(2) bp(1) d] .
  note so' = so [unfolded L] and l' = l [unfolded L]
  have ea: "base \<le> a" using L sorted_around(2) [OF so'] by (cases xs) auto
  have ysn: "\<forall>y\<in>set ys. bp < fst y" using ys n(2) by (auto simp: HDR_def)
  obtain bs' where L': "xs @ merge (a, s) (merge (bp, n) ys) = (base, 0) # bs'" and ok': "blocks_ok lim bs'"
      and so2: "sorted_wrt before ((base, 0) # bs')" and fb: "free_bytes bs' = free_bytes bs \<union> bytes_of (bp, n)"
      and big: "\<exists>b\<in>set bs'. n \<le> snd b" and am: "a \<in> fst ` set ((base, 0) # bs')"
      and ends: "\<forall>c\<in>set (merge (bp, n) ys). fst c + HDR * snd c \<le> lim" "\<forall>c\<in>set ys. fst c + HDR * snd c \<le> lim"
    using insert_block [OF so' L ok lt(2) n(2) bp(2) a ys] .
  have f: "free_find h bp (freep h) = Some a"
  proof (rule free_find_predecessor [OF l' so' _ a(1) ysn])
    show "first (xs @ (a, s) # ys) 0 = base" using arg_cong [OF L, of "\<lambda>l. first l 0"] by simp
    show "freep h \<in> fst ` set (xs @ (a, s) # ys)" using fp unfolding L .
  qed
  have "linked (link_block bp a h) (xs @ merge (a, s) (merge (bp, n) ys)) base"
  proof (rule link_block_list [OF l' n(1) a(1) ea sorted_around(2) [OF so'] ysn])
    show "\<forall>b\<in>set (merge (bp, n) ys). fst b + HDR * snd b < HEAP_LIMIT" using ends(1) lt(1) by (meson le_less_trans)
    have "\<forall>b\<in>set ((bp, n) # ys). fst b + HDR * snd b \<le> lim" using bp(2) ends(2) by simp
    then show "\<forall>b\<in>set ((bp, n) # ys). fst b + HDR * snd b < HEAP_LIMIT" using lt(1) by (meson le_less_trans)
  qed
  then have r': "ring base lim (link_block bp a h) bs'"
    using so2 am ok' lt unfolding ring_def L' by (auto simp: blocks_ok_def link_block_halves)
  have "u_size (link_block bp a h) x = u_size h x" if x: "x \<notin> free_bytes bs'" for x
  proof (rule link_block_size)
    show "x \<noteq> bp" using x n(2) fb by (auto simp: bytes_of_def)
    show "unat (u_size h a) = s" using l' by (simp add: linked_append)
    assume "a + HDR * s = bp"
    then have "0 < s" using a(1) by (cases s) auto
    then have "a \<in> free_bytes ((base, 0) # bs)" unfolding L by (simp add: bytes_of_def)
    then show "x \<noteq> a" using fb x by (auto simp: bytes_of_def)
  qed
  moreover have "os (link_block bp a h) = os h"
    by (simp add: link_block_halves link_left_def link_right_def set_ptr_def set_size_def Let_def)
  ultimately show ?thesis using f r' fb big by (auto simp: free_def)
qed

section \<open>What malloc does\<close>

lemma ring_heads:
  assumes "ring base lim h bs" "b \<in> set bs"
  shows "fst b \<in> bytes_of b" "fst b \<in> free_bytes bs" "base < fst b"
  using assms by (auto simp: ring_def bytes_of_def free_bytes_def)

lemma ring_freep:
  assumes r: "ring base lim h bs"
  shows "freep h \<noteq> 0"
proof -
  have "freep h = base \<or> (\<exists>b\<in>set bs. freep h = fst b)" "0 < base" using r by (auto simp: ring_def)
  then have "base \<le> freep h" using ring_heads(3) [OF r] by (metis less_imp_le order_refl)
  then show ?thesis using \<open>0 < base\<close> by simp
qed

lemma free_bytes_below:
  assumes r: "ring base lim h bs"
  shows "free_bytes bs \<subseteq> {base<..<lim}"
proof
  fix x
  assume "x \<in> free_bytes bs"
  then obtain b where b: "b \<in> set bs" "x \<in> bytes_of b" by (auto simp: free_bytes_def)
  then have "fst b + HDR * snd b \<le> lim" using r by (auto simp: ring_def)
  then show "x \<in> {base<..<lim}" using b ring_heads(3) [OF r b(1)] by (auto simp: bytes_of_def)
qed

text \<open>Headers outside the free blocks do not matter.\<close>

lemma ring_change:
  assumes r: "ring base lim h bs" and "lim \<le> lim'" "lim' < HEAP_LIMIT" "freep h' = freep h"
    and k: "\<And>x. x \<in> insert base (free_bytes bs) \<Longrightarrow> u_ptr h' x = u_ptr h x \<and> u_size h' x = u_size h x"
  shows "ring base lim' h' bs"
proof -
  have "linked h' ((base, 0) # bs) base = linked h ((base, 0) # bs) base"
    by (rule linked_cong) (use k ring_heads(2) [OF r] in auto)
  then show ?thesis using r assms(2-4) unfolding ring_def
    by (auto simp del: linked.simps intro: le_trans)
qed

lemma split_unique: "xs @ z # ys = xs' @ z # ys' \<Longrightarrow> z \<notin> set xs \<Longrightarrow> z \<notin> set xs' \<Longrightarrow> xs = xs' \<and> ys = ys'"
  by (induction xs arbitrary: xs') (auto simp: Cons_eq_append_conv)

lemma linked_size: "linked h bs e \<Longrightarrow> b \<in> set bs \<Longrightarrow> unat (u_size h (fst b)) = snd b"
  by (induction bs) auto

lemma unique_predecessor:
  assumes l: "linked h (xs @ (a, t) # (p, s) # ys) e" and so: "sorted_wrt before (xs @ (a, t) # (p, s) # ys)"
    and e: "e \<noteq> p" and b: "b \<in> set (xs @ (a, t) # (p, s) # ys)" "u_ptr h (fst b) = p"
  shows "fst b = a"
proof -
  let ?L = "xs @ (a, t) # (p, s) # ys"
  have di: "distinct (map fst ?L)" by (rule sorted_distinct [OF so])
  obtain us vs where L: "?L = us @ b # vs" using b(1) by (meson split_list)
  have "u_ptr h (fst b) = first vs e" using l unfolding L by (simp add: linked_append)
  then obtain v vs' where v: "vs = v # vs'" "fst v = p" using b(2) e by (cases vs) auto
  have "(p, snd v) \<in> set ?L" unfolding L v(1) using v(2) by (cases v) simp
  moreover have "(p, s) \<in> set ?L" by simp
  ultimately have "snd v = s" using eq_key_imp_eq_value [OF di] by blast
  then have "v = (p, s)" using v(2) by (cases v) simp
  then have "(xs @ [(a, t)]) @ (p, s) # ys = (us @ [b]) @ (p, s) # vs'" using L v(1) by simp
  moreover have "(p, s) \<notin> set (xs @ [(a, t)])" using di by force
  moreover have "(p, s) \<notin> set (us @ [b])" using di unfolding L v(1) \<open>v = (p, s)\<close> by force
  ultimately have "xs @ [(a, t)] = us @ [b]" using split_unique by metis
  then show ?thesis by (cases b) simp
qed

text \<open>One round through the list, from the block behind \<open>prevp\<close> to \<open>freep\<close>.\<close>

lemma malloc_scan:
  fixes h :: "('s, 'z) uheap_scheme"
  assumes "linked h zs e" and "distinct (map fst zs)" and "zs \<noteq> []" and "fst (last zs) = freep h"
    and "u_ptr h prevp = first zs e"
  shows "((\<exists>z\<in>set zs. unat nunits \<le> snd z) \<longrightarrow>
      (\<exists>prev z. z \<in> set zs \<and> unat nunits \<le> snd z \<and> prev \<in> insert prevp (fst ` set zs) \<and> u_ptr h prev = fst z \<and>
        malloc_loop sbrk nunits prevp (first zs e) h = Some (carve nunits prev (fst z) h))) \<and>
    ((\<forall>z\<in>set zs. snd z < unat nunits) \<longrightarrow>
      malloc_loop sbrk nunits prevp (first zs e) h =
        (case morecore sbrk nunits h of
           None \<Rightarrow> None
         | Some (p, h) \<Rightarrow> if p = 0 then Some (0, h) else malloc_loop sbrk nunits p (u_ptr h p) h))"
  using assms
proof (induction zs arbitrary: prevp)
  case (Cons z zs)
  have sz: "nunits \<le> u_size h (fst z) \<longleftrightarrow> unat nunits \<le> snd z" using Cons.prems(1) by (simp add: word_le_nat_alt)
  show ?case
  proof (cases "unat nunits \<le> snd z")
    case True
    then have "malloc_loop sbrk nunits prevp (fst z) h = Some (carve nunits prevp (fst z) h)"
      using sz by (subst malloc_loop.simps) simp
    then show ?thesis using True Cons.prems(5) by force
  next
    case small: False
    show ?thesis
    proof (cases "zs = []")
      case True
      then show ?thesis using Cons.prems(4) sz small by (subst malloc_loop.simps) simp
    next
      case False
      have "fst z \<noteq> freep h"
        using Cons.prems(2,4) False by (metis distinct.simps(2) image_eqI last_ConsR last_in_set list.simps(9) list.set_map)
      then have step: "malloc_loop sbrk nunits prevp (fst z) h = malloc_loop sbrk nunits (fst z) (first zs e) h"
        using small sz Cons.prems(1) by (subst malloc_loop.simps) simp
      note IH = Cons.IH [of "fst z"]
      have "linked h zs e" "distinct (map fst zs)" "fst (last zs) = freep h" "u_ptr h (fst z) = first zs e"
        using Cons.prems False by auto
      note IH' = IH [OF this(1,2) False this(3,4)]
      show ?thesis
      proof (intro conjI impI)
        assume "\<exists>y\<in>set (z # zs). unat nunits \<le> snd y"
        then have "\<exists>y\<in>set zs. unat nunits \<le> snd y" using small by auto
        then obtain prev y where "y \<in> set zs" "unat nunits \<le> snd y" "prev \<in> insert (fst z) (fst ` set zs)"
            "u_ptr h prev = fst y" "malloc_loop sbrk nunits (fst z) (first zs e) h = Some (carve nunits prev (fst y) h)"
          using IH' by blast
        then show "\<exists>prev y. y \<in> set (z # zs) \<and> unat nunits \<le> snd y \<and> prev \<in> insert prevp (fst ` set (z # zs)) \<and>
            u_ptr h prev = fst y \<and>
            malloc_loop sbrk nunits prevp (first (z # zs) e) h = Some (carve nunits prev (fst y) h)"
          using step by (intro exI [of _ prev] exI [of _ y]) auto
      next
        assume "\<forall>y\<in>set (z # zs). snd y < unat nunits"
        then show "malloc_loop sbrk nunits prevp (first (z # zs) e) h =
            (case morecore sbrk nunits h of
               None \<Rightarrow> None
             | Some (p, h) \<Rightarrow> if p = 0 then Some (0, h) else malloc_loop sbrk nunits p (u_ptr h p) h)"
          using IH' step by simp
      qed
    qed
  qed
qed simp

text \<open>The list around one of its blocks.\<close>

lemma ring_split:
  assumes r: "ring base lim h bs" and z: "(p, s) \<in> set bs"
  obtains xs a t us ys where "bs = us @ (p, s) # ys" "(base, 0) # us = xs @ [(a, t)]"
    "u_ptr h p = first ys base" "unat (u_size h p) = s"
    "\<forall>b\<in>set ((base, 0) # us). fst b + HDR * snd b < p" "\<forall>y\<in>set ys. p + HDR * s < fst y"
    "linked h ((base, 0) # us) p" "linked h ys base" "free_bytes bs = free_bytes us \<union> bytes_of (p, s) \<union> free_bytes ys"
    "free_bytes us \<subseteq> {..<p}" "free_bytes ys \<subseteq> {p + HDR * s<..}"
proof -
  have so: "sorted_wrt before ((base, 0) # bs)" and l: "linked h ((base, 0) # bs) base"
    using r by (auto simp: ring_def)
  obtain us ys where bs: "bs = us @ (p, s) # ys" using z by (meson split_list)
  obtain xs a t where us: "(base, 0) # us = xs @ [(a, t)]"
    by (metis append_butlast_last_id list.distinct(1) prod.collapse)
  have gaps: "\<forall>b\<in>set ((base, 0) # us). fst b + HDR * snd b < p" "\<forall>y\<in>set ys. p + HDR * s < fst y"
    using so unfolding bs by (auto simp: sorted_wrt_append)
  show ?thesis
  proof (rule that [OF bs us _ _ gaps])
    show "u_ptr h p = first ys base" "unat (u_size h p) = s" "linked h ((base, 0) # us) p" "linked h ys base"
      using l unfolding bs by (auto simp: linked_append first_append)
    show "free_bytes bs = free_bytes us \<union> bytes_of (p, s) \<union> free_bytes ys" by (auto simp: bs)
    show "free_bytes us \<subseteq> {..<p}" "free_bytes ys \<subseteq> {p + HDR * s<..}"
      using gaps by (fastforce simp: free_bytes_def bytes_of_def)+
  qed
qed

lemma ring_predecessor:
  assumes r: "ring base lim h (us @ (p, s) # ys)" and us: "(base, 0) # us = xs @ [(a, t)]"
    and prev: "prev \<in> fst ` set ((base, 0) # us @ (p, s) # ys)" "u_ptr h prev = p"
  shows "prev = a"
proof -
  have L: "(base, 0) # us @ (p, s) # ys = xs @ (a, t) # (p, s) # ys"
    using us by (metis append.assoc append_Cons append_Nil)
  have so: "sorted_wrt before (xs @ (a, t) # (p, s) # ys)" and l: "linked h (xs @ (a, t) # (p, s) # ys) base"
    using r unfolding ring_def L by simp_all
  have "base \<noteq> p" using ring_heads(3) [OF r, of "(p, s)"] by simp
  then show ?thesis using unique_predecessor [OF l so] prev unfolding L by fastforce
qed

text \<open>Taking a whole block out of the list.\<close>

lemma carve_whole:
  fixes h :: "('s, 'z) uheap_scheme"
  assumes r: "ring base lim h (us @ (p, s) # ys)" and us: "(base, 0) # us = xs @ [(a, t)]"
  shows "ring base lim ((set_ptr a (first ys base) h)\<lparr>freep := a\<rparr>) (us @ ys)"
proof -
  let ?h = "set_ptr a (first ys base) h"
  have L: "(base, 0) # us @ vs = xs @ (a, t) # vs" for vs using us by (metis append.assoc append_Cons append_Nil)
  have so: "sorted_wrt before (xs @ (a, t) # (p, s) # ys)" and l: "linked h (xs @ (a, t) # (p, s) # ys) base"
    using r unfolding ring_def L by simp_all
  have "linked ?h xs a = linked h xs a" "linked ?h ys base = linked h ys base"
    using sorted_around [OF so] by (auto intro!: linked_cong simp: set_ptr_def)
  then have "linked ?h ((base, 0) # us @ ys) base"
    unfolding L using l by (auto simp: linked_append set_ptr_def)
  moreover have "sorted_wrt before ((base, 0) # us @ ys)" unfolding L using so by (auto simp: sorted_wrt_append)
  moreover have "a \<in> fst ` set ((base, 0) # us @ ys)" unfolding L by simp
  ultimately show ?thesis using r unfolding ring_def by auto
qed

text \<open>Taking the end of a block; \<open>m\<close> units of it stay.\<close>

lemma carve_end:
  fixes h :: "('s, 'z) uheap_scheme"
  assumes r: "ring base lim h (us @ (p, s) # ys)" and a: "a \<in> fst ` set ((base, 0) # us)"
    and m: "unat k = m" "0 < m" "m < s"
  shows "ring base lim ((set_size (p + HDR * m) n (set_size p k h))\<lparr>freep := a\<rparr>) (us @ (p, m) # ys)"
proof -
  let ?q = "p + HDR * m" let ?h = "set_size ?q n (set_size p k h)"
  obtain gaps: "\<forall>b\<in>set ((base, 0) # us). fst b + HDR * snd b < p" "\<forall>y\<in>set ys. p + HDR * s < fst y"
      and l: "linked h ((base, 0) # us) p" "linked h ys base" "u_ptr h p = first ys base"
    using r by (auto simp: ring_def sorted_wrt_append linked_append first_append)
  have e: "?q < p + HDR * s" and qp: "p < ?q" using m by (auto simp: HDR_def)
  have "linked ?h ((base, 0) # us) p = linked h ((base, 0) # us) p"
    by (rule linked_cong) (use gaps qp in \<open>fastforce simp: set_size_def dest: add_lessD1\<close>)
  moreover have "linked ?h ys base = linked h ys base"
    by (rule linked_cong) (use gaps e qp in \<open>fastforce simp: set_size_def dest: add_lessD1\<close>)
  ultimately have "linked ?h (((base, 0) # us) @ (p, m) # ys) base"
    unfolding linked_append using l m(1) qp by (simp add: set_size_def)
  moreover have "\<forall>y\<in>set ys. ?q < fst y" using gaps(2) e by (meson less_trans)
  then have "sorted_wrt before ((base, 0) # us @ (p, m) # ys)"
    using r by (auto simp: ring_def sorted_wrt_append)
  moreover have "p + HDR * s \<le> lim" using r by (simp add: ring_def)
  then have "?q \<le> lim" using e by (meson less_imp_le less_le_trans)
  moreover have "a \<in> fst ` set ((base, 0) # us @ (p, m) # ys)" using a by auto
  ultimately show ?thesis using r m(2) unfolding ring_def by auto
qed

lemma carve_ring:
  fixes h :: "('s, 'z) uheap_scheme"
  assumes r: "ring base lim h bs" and z: "z \<in> set bs" "unat nunits \<le> snd z" and n: "0 < unat nunits"
    and prev: "prev \<in> fst ` set ((base, 0) # bs)" "u_ptr h prev = fst z"
  shows "\<exists>r h' bs'. carve nunits prev (fst z) h = (r + HDR, h') \<and> ring base lim h' bs' \<and>
    bytes_of (r, unat nunits) \<subseteq> bytes_of z \<and>
    free_bytes bs' = free_bytes bs - bytes_of (r, unat nunits) \<and> u_size h' r = nunits \<and> os h' = os h \<and>
    (\<forall>x. x \<notin> bytes_of z \<longrightarrow> u_size h' x = u_size h x)"
proof -
  obtain p s where zp: "z = (p, s)" by force
  obtain xs a t us ys where sp: "bs = us @ (p, s) # ys" "(base, 0) # us = xs @ [(a, t)]"
    "u_ptr h p = first ys base" "unat (u_size h p) = s" "free_bytes bs = free_bytes us \<union> bytes_of (p, s) \<union> free_bytes ys"
    "free_bytes us \<subseteq> {..<p}" "free_bytes ys \<subseteq> {p + HDR * s<..}"
    using ring_split [OF r z(1) [unfolded zp]] by metis
  note r' = r [unfolded sp(1)]
  have pa: "prev = a" using ring_predecessor [OF r' sp(2)] prev unfolding sp(1) zp by simp
  show ?thesis
  proof (cases "s = unat nunits")
    case True
    let ?h = "(set_ptr a (first ys base) h)\<lparr>freep := a\<rparr>"
    have un: "u_size h p = nunits" using sp(4) True by (simp add: word_unat_eq_iff)
    then have "carve nunits prev (fst z) h = (p + HDR, ?h)" using sp(3) pa zp by (simp add: carve_def)
    moreover have "free_bytes (us @ ys) = free_bytes bs - bytes_of (p, unat nunits)"
      unfolding sp(5) True [symmetric] using sp(6,7) by (auto simp: bytes_of_def)
    ultimately show ?thesis using carve_whole [OF r' sp(2)] un True zp
      by (intro exI [of _ p] exI [of _ ?h] exI [of _ "us @ ys"]) (auto simp: set_ptr_def)
  next
    case False
    then have lt: "unat nunits < s" using z(2) zp by simp
    let ?m = "s - unat nunits" let ?q = "p + HDR * ?m"
    let ?h = "(set_size ?q nunits (set_size p (u_size h p - nunits) h))\<lparr>freep := a\<rparr>"
    have m: "unat (u_size h p - nunits) = ?m" using lt sp(4) by (subst unat_sub) (auto simp: word_le_nat_alt)
    have "u_size h p \<noteq> nunits" using lt sp(4) by auto
    then have c: "carve nunits prev (fst z) h = (?q + HDR, ?h)"
      using pa zp m by (simp add: carve_def block_end_def Let_def set_size_def)
    have qp: "p < ?q" "?q + HDR * unat nunits = p + HDR * s" using lt by (auto simp: HDR_def)
    have "a \<in> fst ` set ((base, 0) # us)" unfolding sp(2) by simp
    then have "ring base lim ?h (us @ (p, ?m) # ys)" using carve_end [OF r' _ m] lt n by simp
    moreover have "free_bytes (us @ (p, ?m) # ys) = free_bytes bs - bytes_of (?q, unat nunits)"
      unfolding sp(5) using sp(6,7) qp by (auto simp: bytes_of_def)
    moreover have "bytes_of (?q, unat nunits) \<subseteq> bytes_of z" using qp zp by (auto simp: bytes_of_def)
    moreover have "p \<in> bytes_of z" "?q \<in> bytes_of z" using qp n lt zp by (auto simp: bytes_of_def HDR_def)
    ultimately show ?thesis using c
      by (intro exI [of _ ?q] exI [of _ ?h] exI [of _ "us @ (p, ?m) # ys"]) (auto simp: set_size_def)
  qed
qed

text \<open>
  The promise of \<open>sbrk\<close> for a positive argument: it fails, or the break moves up by that much and the
  result is the old break; the address space ends below \<open>HEAP_LIMIT\<close>.
\<close>

definition grows_by :: "(int \<Rightarrow> 's \<Rightarrow> nat option \<times> 's) \<Rightarrow> ('s \<Rightarrow> nat) \<Rightarrow> bool" where
  "grows_by sbrk brk \<longleftrightarrow>
     (\<forall>k s. 0 < k \<longrightarrow>
        (case sbrk k s of
           (None, s') \<Rightarrow> brk s' = brk s
         | (Some p, s') \<Rightarrow> p = brk s \<and> brk s' = brk s + nat k \<and> brk s' < HEAP_LIMIT))"

lemma sint_of_nat_small: "k < 2 ^ 31 \<Longrightarrow> sint (of_nat k :: u32) = int k"
  by (simp add: signed_of_nat signed_take_bit_int_eq_self)

lemma request_eq: "unat nu * HDR < 2 ^ 31 \<Longrightarrow> request nu = int (unat nu * HDR)"
  unfolding request_def by (rule sint_of_nat_small)

lemma morecore_ring:
  fixes h :: "('s, 'z) uheap_scheme"
  assumes r: "ring base (brk (os h)) h bs" and g: "grows_by sbrk brk"
    and nu: "unat nu * HDR < 2 ^ 31" "0 < unat nu" and b: "base < brk (os h)"
  shows "(\<exists>s. morecore sbrk nu h = Some (0, h\<lparr>os := s\<rparr>) \<and> brk s = brk (os h)) \<or>
    (\<exists>h' bs'. morecore sbrk nu h = Some (freep h', h') \<and> freep h' \<noteq> 0 \<and> ring base (brk (os h')) h' bs' \<and>
       brk (os h) \<le> brk (os h') \<and> free_bytes bs' = free_bytes bs \<union> {brk (os h) ..< brk (os h')} \<and>
       (\<exists>z\<in>set bs'. unat nu \<le> snd z) \<and> (\<forall>x. x \<notin> free_bytes bs' \<longrightarrow> u_size h' x = u_size h x))"
proof -
  define nu' where "nu' = (if nu < 4096 then 4096 else nu)"
  have nu': "unat nu' * HDR < 2 ^ 31" "0 < unat nu'" "unat nu \<le> unat nu'"
    using nu by (auto simp: nu'_def HDR_def word_less_nat_alt)
  obtain q s where q: "sbrk (request nu') (os h) = (q, s)" by force
  have rq: "request nu' = int (unat nu' * HDR)" by (rule request_eq [OF nu'(1)])
  have "0 < unat nu' * HDR" using nu'(2) by simp
  then have pos: "0 < request nu'" unfolding rq by (simp only: of_nat_0_less_iff)
  have m: "morecore sbrk nu h =
      (case q of None \<Rightarrow> Some (0, h\<lparr>os := s\<rparr>)
       | Some hp \<Rightarrow> map_option (\<lambda>h. (freep h, h)) (free (hp + HDR) (set_size hp nu' (h\<lparr>os := s\<rparr>))))"
    using q by (simp add: morecore_def nu'_def [symmetric] Let_def split: option.split)
  show ?thesis
  proof (cases q)
    case None
    then have "brk s = brk (os h)" using g q pos unfolding grows_by_def by (auto dest!: spec [of _ "request nu'"] spec [of _ "os h"])
    then show ?thesis using m None by auto
  next
    case (Some hp)
    then have hp: "hp = brk (os h)" "brk s = brk (os h) + unat nu' * HDR" "brk s < HEAP_LIMIT"
      using g q pos rq unfolding grows_by_def
      by (auto dest!: spec [of _ "request nu'"] spec [of _ "os h"] simp: nat_mult_distrib)
    let ?h = "set_size hp nu' (h\<lparr>os := s\<rparr>)"
    have r1: "ring base (brk s) ?h bs"
      by (rule ring_change [OF r]) (use hp b free_bytes_below [OF r] in \<open>auto simp: set_size_def\<close>)
    have d: "bytes_of (hp, unat nu') \<inter> free_bytes bs = {}"
      using free_bytes_below [OF r] hp(1) by (auto simp: bytes_of_def)
    obtain h' bs' where f: "free (hp + HDR) ?h = Some h'" "ring base (brk s) h' bs'"
        "free_bytes bs' = free_bytes bs \<union> bytes_of (hp, unat nu')" "os h' = s" "\<exists>b\<in>set bs'. unat nu' \<le> snd b"
        "\<forall>x. x \<notin> free_bytes bs' \<longrightarrow> u_size h' x = u_size ?h x"
      using free_ring [OF r1 _ nu'(2) _ _ d] hp b by (auto simp: set_size_def mult.commute)
    have "freep h' \<noteq> 0" by (rule ring_freep [OF f(2)])
    moreover have "bytes_of (hp, unat nu') = {brk (os h) ..< brk s}" using hp by (simp add: bytes_of_def mult.commute)
    moreover have "\<exists>z\<in>set bs'. unat nu \<le> snd z" using f(5) nu'(3) by (auto intro: le_trans)
    moreover have "u_size h' x = u_size h x" if "x \<notin> free_bytes bs'" for x
    proof -
      have "hp \<in> free_bytes bs'" using f(3) nu'(2) by (simp add: bytes_of_def)
      then show ?thesis using f(6) that by (auto simp: set_size_def)
    qed
    ultimately show ?thesis using m Some f(1-5) hp by auto
  qed
qed

text \<open>The state of the allocator: not used yet, or with a well-formed free list below the break.\<close>

definition heap_ok :: "('s \<Rightarrow> nat) \<Rightarrow> nat \<Rightarrow> ('s, 'z) uheap_scheme \<Rightarrow> block list \<Rightarrow> bool" where
  "heap_ok brk base h bs \<longleftrightarrow>
     0 < base \<and> base < brk (os h) \<and> brk (os h) < HEAP_LIMIT \<and>
     (if freep h = 0 then bs = [] else ring base (brk (os h)) h bs)"

definition units :: "u32 \<Rightarrow> nat" where
  "units nbytes = (unat nbytes + HDR - 1) div HDR + 1"

text \<open>The block \<open>(q, n)\<close> moves from the free bytes, perhaps with new ones, to the caller.\<close>

definition takes :: "('s \<Rightarrow> nat) \<Rightarrow> nat \<Rightarrow> nat \<Rightarrow> nat \<Rightarrow> ('s, 'z) uheap_scheme \<Rightarrow> block list \<Rightarrow>
    ('s, 'z) uheap_scheme \<Rightarrow> block list \<Rightarrow> bool" where
  "takes brk base q n h bs h' bs' \<longleftrightarrow>
     (let avail = free_bytes bs \<union> {brk (os h) ..< brk (os h')}
      in bytes_of (q, n) \<subseteq> avail \<and> free_bytes bs' = avail - bytes_of (q, n) \<and>
         unat (u_size h' q) = n \<and> (\<forall>x. x \<notin> avail \<longrightarrow> x \<noteq> base \<longrightarrow> u_size h' x = u_size h x))"

lemma rotation:
  assumes r: "ring base lim h bs"
  shows "\<exists>zs e. linked h zs e \<and> distinct (map fst zs) \<and> zs \<noteq> [] \<and> fst (last zs) = freep h \<and>
    u_ptr h (freep h) = first zs e \<and> set zs = set ((base, 0) # bs)"
proof -
  have l: "linked h ((base, 0) # bs) base" and so: "sorted_wrt before ((base, 0) # bs)"
    and fp: "freep h \<in> fst ` set ((base, 0) # bs)" using r by (auto simp: ring_def)
  obtain us f vs where L: "(base, 0) # bs = us @ f # vs" "fst f = freep h"
    using fp by (metis (no_types, lifting) imageE split_list)
  have f1: "first (us @ f # vs) e = base" for e using arg_cong [OF L(1), of "\<lambda>l. first l e"] by simp
  let ?zs = "vs @ us @ [f]" let ?e = "first vs base"
  have "linked h ?zs ?e"
    using l f1 [of ?e] unfolding L(1) by (auto simp: linked_append first_append)
  moreover have "distinct (map fst ?zs)" using sorted_distinct [OF so] unfolding L(1) by auto
  moreover have "u_ptr h (freep h) = first ?zs ?e"
    using l L(2) f1 [of ?e] unfolding L(1) by (cases vs) (auto simp: linked_append first_append)
  moreover have "set ?zs = set ((base, 0) # bs)" unfolding L(1) by auto
  ultimately show ?thesis using L(2) by (intro exI [of _ ?zs] exI [of _ ?e]) auto
qed

text \<open>When some free block is large enough, one round finds it.\<close>

lemma malloc_loop_found:
  fixes h :: "('s, 'z) uheap_scheme"
  assumes r: "ring base (brk (os h)) h bs" and n: "0 < unat nunits" and z: "\<exists>z\<in>set bs. unat nunits \<le> snd z"
  shows "\<exists>q h' bs'. malloc_loop sbrk nunits (freep h) (u_ptr h (freep h)) h = Some (q + HDR, h') \<and>
    ring base (brk (os h')) h' bs' \<and> takes brk base q (unat nunits) h bs h' bs' \<and> os h' = os h"
proof -
  obtain zs e where zs: "linked h zs e" "distinct (map fst zs)" "zs \<noteq> []" "fst (last zs) = freep h"
      "u_ptr h (freep h) = first zs e" "set zs = set ((base, 0) # bs)"
    using rotation [OF r] by blast
  have "\<exists>z\<in>set zs. unat nunits \<le> snd z" using z zs(6) by auto
  then obtain prev z where pz: "z \<in> set zs" "unat nunits \<le> snd z" "prev \<in> insert (freep h) (fst ` set zs)"
      "u_ptr h prev = fst z" "malloc_loop sbrk nunits (freep h) (first zs e) h = Some (carve nunits prev (fst z) h)"
    using malloc_scan [OF zs(1-5), of nunits sbrk] by blast
  have zb: "z \<in> set bs" using pz(1,2) zs(6) n by auto
  have pr: "prev \<in> fst ` set ((base, 0) # bs)" using pz(3) zs(3,4,6) by (metis image_eqI insert_iff last_in_set)
  obtain q h' bs' where c: "carve nunits prev (fst z) h = (q + HDR, h')" "ring base (brk (os h)) h' bs'"
      "bytes_of (q, unat nunits) \<subseteq> bytes_of z" "free_bytes bs' = free_bytes bs - bytes_of (q, unat nunits)"
      "u_size h' q = nunits" "os h' = os h" "\<forall>x. x \<notin> bytes_of z \<longrightarrow> u_size h' x = u_size h x"
    using carve_ring [OF r zb pz(2) n pr pz(4)] by blast
  have "bytes_of z \<subseteq> free_bytes bs" using zb by (auto simp: free_bytes_def)
  then have "takes brk base q (unat nunits) h bs h' bs'" using c by (auto simp: takes_def Let_def)
  then show ?thesis using c pz(5) zs(5) by (intro exI [of _ q] exI [of _ h'] exI [of _ bs']) simp
qed

lemma units_bounds:
  assumes "unat nbytes + 2 * HDR < 2 ^ 31"
  shows "unat (of_nat (units nbytes) :: u32) = units nbytes" "units nbytes * HDR < 2 ^ 31"
    "unat nbytes \<le> HDR * (units nbytes - 1)" "0 < units nbytes"
proof -
  have u: "(unat nbytes + 15) div 16 * 16 \<le> unat nbytes + 15" by simp
  show "units nbytes * HDR < 2 ^ 31" using assms u by (simp add: units_def HDR_def)
  then have "units nbytes < 2 ^ 32" by (simp add: HDR_def)
  then show "unat (of_nat (units nbytes) :: u32) = units nbytes" by (simp add: unat_of_nat)
  have "unat nbytes + 15 < 16 * ((unat nbytes + 15) div 16) + 16" by presburger
  then show "unat nbytes \<le> HDR * (units nbytes - 1)" by (simp add: units_def HDR_def)
  show "0 < units nbytes" by (simp add: units_def)
qed

lemma malloc_loop_result:
  fixes h :: "('s, 'z) uheap_scheme"
  assumes r: "ring base (brk (os h)) h bs" and b: "base < brk (os h)" and g: "grows_by sbrk brk"
    and n: "unat nunits * HDR < 2 ^ 31" "0 < unat nunits"
  shows "(\<exists>s. malloc_loop sbrk nunits (freep h) (u_ptr h (freep h)) h = Some (0, h\<lparr>os := s\<rparr>) \<and> brk s = brk (os h)) \<or>
    (\<exists>q h' bs'. malloc_loop sbrk nunits (freep h) (u_ptr h (freep h)) h = Some (q + HDR, h') \<and>
       ring base (brk (os h')) h' bs' \<and> brk (os h) \<le> brk (os h') \<and> takes brk base q (unat nunits) h bs h' bs')"
proof (cases "\<exists>z\<in>set bs. unat nunits \<le> snd z")
  case True
  then obtain q h' bs' where "malloc_loop sbrk nunits (freep h) (u_ptr h (freep h)) h = Some (q + HDR, h')"
      "ring base (brk (os h')) h' bs'" "takes brk base q (unat nunits) h bs h' bs'" "os h' = os h"
    using malloc_loop_found [where brk = brk, OF r n(2) True] by blast
  then show ?thesis by (intro disjI2 exI [of _ q] exI [of _ h'] exI [of _ bs']) simp
next
  case False
  obtain zs e where zs: "linked h zs e" "distinct (map fst zs)" "zs \<noteq> []" "fst (last zs) = freep h"
      "u_ptr h (freep h) = first zs e" "set zs = set ((base, 0) # bs)"
    using rotation [OF r] by blast
  have "\<forall>z\<in>set zs. snd z < unat nunits" using False n(2) zs(6) by auto
  then have m: "malloc_loop sbrk nunits (freep h) (u_ptr h (freep h)) h =
      (case morecore sbrk nunits h of
         None \<Rightarrow> None
       | Some (p, h) \<Rightarrow> if p = 0 then Some (0, h) else malloc_loop sbrk nunits p (u_ptr h p) h)"
    using malloc_scan [OF zs(1-5), of nunits sbrk] zs(5) by simp
  from morecore_ring [OF r g n b] show ?thesis
  proof
    assume "\<exists>s. morecore sbrk nunits h = Some (0, h\<lparr>os := s\<rparr>) \<and> brk s = brk (os h)"
    then show ?thesis using m by auto
  next
    assume "\<exists>h' bs'. morecore sbrk nunits h = Some (freep h', h') \<and> freep h' \<noteq> 0 \<and> ring base (brk (os h')) h' bs' \<and>
       brk (os h) \<le> brk (os h') \<and> free_bytes bs' = free_bytes bs \<union> {brk (os h) ..< brk (os h')} \<and>
       (\<exists>z\<in>set bs'. unat nunits \<le> snd z) \<and> (\<forall>x. x \<notin> free_bytes bs' \<longrightarrow> u_size h' x = u_size h x)"
    then obtain h1 bs1 where c: "morecore sbrk nunits h = Some (freep h1, h1)" "freep h1 \<noteq> 0"
        "ring base (brk (os h1)) h1 bs1" "brk (os h) \<le> brk (os h1)"
        "free_bytes bs1 = free_bytes bs \<union> {brk (os h) ..< brk (os h1)}" "\<exists>z\<in>set bs1. unat nunits \<le> snd z"
        "\<forall>x. x \<notin> free_bytes bs1 \<longrightarrow> u_size h1 x = u_size h x"
      by blast
    obtain q h' bs' where f: "malloc_loop sbrk nunits (freep h1) (u_ptr h1 (freep h1)) h1 = Some (q + HDR, h')"
        "ring base (brk (os h')) h' bs'" "takes brk base q (unat nunits) h1 bs1 h' bs'" "os h' = os h1"
      using malloc_loop_found [where brk = brk, OF c(3) n(2) c(6)] by blast
    have "takes brk base q (unat nunits) h bs h' bs'" using f(3,4) c(5,7) by (auto simp: takes_def Let_def)
    then show ?thesis using m c f by (intro disjI2 exI [of _ q] exI [of _ h'] exI [of _ bs']) simp
  qed
qed

lemma malloc_result:
  fixes h :: "('s, 'z) uheap_scheme"
  assumes ok: "heap_ok brk base h bs" and g: "grows_by sbrk brk" and n: "unat nbytes + 2 * HDR < 2 ^ 31"
  shows "\<exists>r h' bs'. malloc sbrk base nbytes h = Some (r, h') \<and> heap_ok brk base h' bs' \<and> freep h' \<noteq> 0 \<and>
    brk (os h) \<le> brk (os h') \<and>
    (if r = 0 then free_bytes bs' = free_bytes bs \<and> (\<forall>x. x \<noteq> base \<longrightarrow> u_size h' x = u_size h x)
     else \<exists>q. r = q + HDR \<and> takes brk base q (units nbytes) h bs h' bs')"
proof -
  note u = units_bounds [OF n]
  define h0 where "h0 = (if freep h = 0 then set_size base 0 (set_ptr base base (h\<lparr>freep := base\<rparr>)) else h)"
  have b: "0 < base" "base < brk (os h)" "brk (os h) < HEAP_LIMIT" using ok by (auto simp: heap_ok_def)
  have os0: "os h0 = os h" and size0: "\<forall>x. x \<noteq> base \<longrightarrow> u_size h0 x = u_size h x"
    by (auto simp: h0_def set_size_def set_ptr_def)
  have r: "ring base (brk (os h0)) h0 bs"
    using ok b by (auto simp: heap_ok_def h0_def ring_def set_size_def set_ptr_def split: if_splits)
  have m: "malloc sbrk base nbytes h = malloc_loop sbrk (of_nat (units nbytes)) (freep h0) (u_ptr h0 (freep h0)) h0"
    by (simp add: malloc_def h0_def units_def Let_def)
  have tk: "takes brk base q k h bs h' bs'" if "takes brk base q k h0 bs h' bs'" for q k h' bs'
    using that os0 size0 by (auto simp: takes_def Let_def)
  have b0: "base < brk (os h0)" using b os0 by simp
  have okI: "heap_ok brk base h' bs' \<and> freep h' \<noteq> 0" if "ring base (brk (os h')) h' bs'" "brk (os h) \<le> brk (os h')" for h' :: "('s, 'z) uheap_scheme" and bs'
    using that ring_freep [OF that(1)] b by (auto simp: heap_ok_def ring_def)
  have "unat (of_nat (units nbytes) :: u32) * HDR < 2 ^ 31" "0 < unat (of_nat (units nbytes) :: u32)" using u by simp_all
  from malloc_loop_result [where sbrk = sbrk and brk = brk, OF r b0 g this, unfolded u(1) m [symmetric] os0] show ?thesis
  proof
    assume "\<exists>s. malloc sbrk base nbytes h = Some (0, h0\<lparr>os := s\<rparr>) \<and> brk s = brk (os h)"
    then obtain s where s: "malloc sbrk base nbytes h = Some (0, h0\<lparr>os := s\<rparr>)" "brk s = brk (os h)" by blast
    have "ring base (brk s) (h0\<lparr>os := s\<rparr>) bs" by (rule ring_change [OF r]) (use s(2) b os0 in auto)
    then have "heap_ok brk base (h0\<lparr>os := s\<rparr>) bs \<and> freep (h0\<lparr>os := s\<rparr>) \<noteq> 0" using s(2) by (intro okI) auto
    then show ?thesis using s size0 by (intro exI [of _ 0] exI [of _ "h0\<lparr>os := s\<rparr>"] exI [of _ bs]) simp
  next
    assume "\<exists>q h' bs'. malloc sbrk base nbytes h = Some (q + HDR, h') \<and> ring base (brk (os h')) h' bs' \<and>
      brk (os h) \<le> brk (os h') \<and> takes brk base q (units nbytes) h0 bs h' bs'"
    then obtain q h' bs' where q: "malloc sbrk base nbytes h = Some (q + HDR, h')" "ring base (brk (os h')) h' bs'"
        "brk (os h) \<le> brk (os h')" "takes brk base q (units nbytes) h0 bs h' bs'"
      by blast
    then show ?thesis using okI tk by (intro exI [of _ "q + HDR"] exI [of _ h'] exI [of _ bs']) auto
  qed
qed

section \<open>A program that allocates, writes and frees\<close>

text \<open>
  The live blocks are the results of \<open>malloc\<close> that were not freed, with the number of bytes asked
  for. Between the calls the program writes what it likes into the bytes it asked for, also over
  places that once were headers.
\<close>

type_synonym live = "(nat \<times> u32) list"

definition user_bytes :: "nat \<times> u32 \<Rightarrow> nat set" where
  "user_bytes = (\<lambda>(r, nbytes). {r ..< r + unat nbytes})"

definition header_at :: "nat \<Rightarrow> nat set" where
  "header_at x = {x ..< x + HDR}"

inductive alloc_run ::
    "(int \<Rightarrow> 's \<Rightarrow> nat option \<times> 's) \<Rightarrow> nat \<Rightarrow> ('s, 'z) uheap_scheme \<Rightarrow> live \<Rightarrow> ('s, 'z) uheap_scheme \<Rightarrow> bool"
  for sbrk base h0
where
  start: "alloc_run sbrk base h0 [] h0"
| failed: "alloc_run sbrk base h0 ls h \<Longrightarrow> unat nbytes + 2 * HDR < 2 ^ 31 \<Longrightarrow>
    malloc sbrk base nbytes h = Some (0, h') \<Longrightarrow> alloc_run sbrk base h0 ls h'"
| allocated: "alloc_run sbrk base h0 ls h \<Longrightarrow> unat nbytes + 2 * HDR < 2 ^ 31 \<Longrightarrow>
    malloc sbrk base nbytes h = Some (r, h') \<Longrightarrow> r \<noteq> 0 \<Longrightarrow> alloc_run sbrk base h0 ((r, nbytes) # ls) h'"
| freed: "alloc_run sbrk base h0 ls h \<Longrightarrow> (r, nbytes) \<in> set ls \<Longrightarrow>
    free r h = Some h' \<Longrightarrow> alloc_run sbrk base h0 (remove1 (r, nbytes) ls) h'"
| wrote: "alloc_run sbrk base h0 ls h \<Longrightarrow> b \<in> set ls \<Longrightarrow> freep h' = freep h \<Longrightarrow> os h' = os h \<Longrightarrow>
    (\<And>x. header_at x \<inter> user_bytes b = {} \<Longrightarrow> u_ptr h' x = u_ptr h x \<and> u_size h' x = u_size h x) \<Longrightarrow>
    alloc_run sbrk base h0 ls h'"

text \<open>A live block with its header.\<close>

definition whole :: "nat \<times> u32 \<Rightarrow> nat set" where
  "whole = (\<lambda>(r, nbytes). bytes_of (r - HDR, units nbytes))"

definition live_ok :: "('s \<Rightarrow> nat) \<Rightarrow> nat \<Rightarrow> ('s, 'z) uheap_scheme \<Rightarrow> block list \<Rightarrow> nat \<times> u32 \<Rightarrow> bool" where
  "live_ok brk base h bs c \<longleftrightarrow>
     HDR \<le> fst c \<and> unat (snd c) + 2 * HDR < 2 ^ 31 \<and> unat (u_size h (fst c - HDR)) = units (snd c) \<and>
     whole c \<subseteq> {base + HDR ..< brk (os h)} \<and> whole c \<inter> free_bytes bs = {}"

abbreviation apart :: "live \<Rightarrow> bool" where
  "apart \<equiv> sorted_wrt (\<lambda>b c. whole b \<inter> whole c = {})"

definition alloc_inv :: "('s \<Rightarrow> nat) \<Rightarrow> nat \<Rightarrow> live \<Rightarrow> ('s, 'z) uheap_scheme \<Rightarrow> block list \<Rightarrow> bool" where
  "alloc_inv brk base ls h bs \<longleftrightarrow>
     heap_ok brk base h bs \<and> (\<forall>c\<in>set ls. live_ok brk base h bs c) \<and> apart ls \<and>
     (freep h = 0 \<longrightarrow> ls = []) \<and> free_bytes bs \<subseteq> {base + HDR..} \<and> base + HDR \<le> brk (os h)"

lemma live_header:
  assumes "live_ok brk base h bs c"
  shows "fst c - HDR \<in> whole c" "whole c \<noteq> {}" "fst c - HDR \<noteq> base" "fst c \<noteq> 0"
    "user_bytes c \<subseteq> whole c" "\<And>x. x \<notin> whole c \<Longrightarrow> header_at x \<inter> user_bytes c = {}"
    "header_at (fst c - HDR) \<inter> user_bytes c = {}"
proof -
  obtain r n where b: "c = (r, n)" by force
  have r: "HDR \<le> r" and n: "unat n + 2 * HDR < 2 ^ 31" and w: "whole c \<subseteq> {base + HDR ..< brk (os h)}"
    using assms b by (auto simp: live_ok_def)
  note u = units_bounds [OF n]
  have e: "r - HDR + HDR * units n = r + HDR * (units n - 1)"
    using r u(4) by (cases "units n") (auto simp: algebra_simps)
  show h: "fst c - HDR \<in> whole c" using u(4) by (simp add: b whole_def bytes_of_def)
  then show "whole c \<noteq> {}" by auto
  have "base + HDR \<le> fst c - HDR" using h w by auto
  then show "fst c - HDR \<noteq> base" "fst c \<noteq> 0" by (auto simp: HDR_def)
  show "user_bytes c \<subseteq> whole c" using u(3) e r by (auto simp: b user_bytes_def whole_def bytes_of_def)
  show "header_at x \<inter> user_bytes c = {}" if "x \<notin> whole c" for x
    using that u(3) e r by (auto simp: b user_bytes_def whole_def bytes_of_def header_at_def)
  show "header_at (fst c - HDR) \<inter> user_bytes c = {}" using r by (auto simp: b user_bytes_def header_at_def)
qed

lemma apart_member:
  "apart ls \<Longrightarrow> b \<in> set ls \<Longrightarrow> c \<in> set ls \<Longrightarrow> b \<noteq> c \<Longrightarrow> whole b \<inter> whole c = {}"
  by (induction ls) auto

lemma apart_remove1:
  assumes "apart ls" "b \<in> set ls" "whole b \<noteq> {}"
  shows "apart (remove1 b ls) \<and> (\<forall>c\<in>set (remove1 b ls). whole b \<inter> whole c = {})"
  using assms
proof (induction ls)
  case (Cons a ls)
  then show ?case using notin_set_remove1 by (cases "a = b") (auto dest: notin_set_remove1)
qed simp

lemma inv_wrote:
  assumes i: "alloc_inv brk base ls h bs" and b: "b \<in> set ls" and s: "freep h' = freep h" "os h' = os h"
    and w: "\<And>x. header_at x \<inter> user_bytes b = {} \<Longrightarrow> u_ptr h' x = u_ptr h x \<and> u_size h' x = u_size h x"
  shows "alloc_inv brk base ls h' bs"
proof -
  have lb: "live_ok brk base h bs b" using i b by (simp add: alloc_inv_def)
  have r: "ring base (brk (os h)) h bs" using i b by (auto simp: alloc_inv_def heap_ok_def split: if_splits)
  have rr: "ring base (brk (os h)) h' bs"
  proof (rule ring_change [OF r])
    fix x
    assume x: "x \<in> insert base (free_bytes bs)"
    have "base \<notin> whole b" using lb by (auto simp: live_ok_def HDR_def)
    then have "x \<notin> whole b" using x lb by (auto simp: live_ok_def)
    then show "u_ptr h' x = u_ptr h x \<and> u_size h' x = u_size h x" using w live_header(6) [OF lb] by blast
  qed (use s r in \<open>auto simp: ring_def\<close>)
  have "live_ok brk base h' bs c" if c: "c \<in> set ls" for c
  proof -
    have lc: "live_ok brk base h bs c" using i c by (simp add: alloc_inv_def)
    have "header_at (fst c - HDR) \<inter> user_bytes b = {}"
    proof (cases "c = b")
      case True
      then show ?thesis using live_header(7) [OF lb] by simp
    next
      case False
      have "apart ls" using i by (simp add: alloc_inv_def)
      then have "whole b \<inter> whole c = {}" using apart_member [OF _ b c] False by auto
      then show ?thesis using live_header(1) [OF lc] live_header(6) [OF lb] by blast
    qed
    then show ?thesis using lc w s by (simp add: live_ok_def)
  qed
  moreover have "freep h' \<noteq> 0" using ring_freep [OF rr] .
  ultimately show ?thesis using i rr s by (auto simp: alloc_inv_def heap_ok_def)
qed

lemma inv_malloc:
  fixes h :: "('s, 'z) uheap_scheme"
  assumes i: "alloc_inv brk base ls h bs" and g: "grows_by sbrk brk" and n: "unat nbytes + 2 * HDR < 2 ^ 31"
  shows "\<exists>r h' bs'. malloc sbrk base nbytes h = Some (r, h') \<and>
    alloc_inv brk base (if r = 0 then ls else (r, nbytes) # ls) h' bs'"
proof -
  have ok: "heap_ok brk base h bs" using i by (simp add: alloc_inv_def)
  obtain r h' bs' where m: "malloc sbrk base nbytes h = Some (r, h')" "heap_ok brk base h' bs'" "freep h' \<noteq> 0"
      "brk (os h) \<le> brk (os h')"
      "if r = 0 then free_bytes bs' = free_bytes bs \<and> (\<forall>x. x \<noteq> base \<longrightarrow> u_size h' x = u_size h x)
       else \<exists>q. r = q + HDR \<and> takes brk base q (units nbytes) h bs h' bs'"
    using malloc_result [OF ok g n] by blast
  show ?thesis
  proof (cases "r = 0")
    case True
    have "live_ok brk base h' bs' c" if "c \<in> set ls" for c
    proof -
      have lc: "live_ok brk base h bs c" using i that by (simp add: alloc_inv_def)
      then show ?thesis using m(4,5) True live_header(3) [OF lc] by (auto simp: live_ok_def)
    qed
    then have "alloc_inv brk base ls h' bs'" using i m True by (auto simp: alloc_inv_def)
    then show ?thesis using m(1) True by auto
  next
    case False
    then obtain q where q: "r = q + HDR" "takes brk base q (units nbytes) h bs h' bs'" using m(5) by auto
    let ?avail = "free_bytes bs \<union> {brk (os h) ..< brk (os h')}"
    have w: "whole (r, nbytes) = bytes_of (q, units nbytes)" by (simp add: whole_def q(1))
    have t: "whole (r, nbytes) \<subseteq> ?avail" "free_bytes bs' = ?avail - whole (r, nbytes)"
        "unat (u_size h' q) = units nbytes" "\<And>x. x \<notin> ?avail \<Longrightarrow> x \<noteq> base \<Longrightarrow> u_size h' x = u_size h x"
      using q(2) unfolding w by (simp_all add: takes_def Let_def)
    have below: "free_bytes bs \<subseteq> {base + HDR ..< brk (os h)}"
    proof -
      have "free_bytes bs \<subseteq> {..<brk (os h)}"
      proof (cases "freep h = 0")
        case True
        then show ?thesis using ok by (simp add: heap_ok_def)
      next
        case False
        then show ?thesis using ok free_bytes_below by (fastforce simp: heap_ok_def)
      qed
      then show ?thesis using i by (auto simp: alloc_inv_def)
    qed
    have av: "?avail \<subseteq> {base + HDR ..< brk (os h')}" using below i m(4) by (auto simp: alloc_inv_def)
    have new: "live_ok brk base h' bs' (r, nbytes)"
      using n q(1) t(1-3) av by (auto simp: live_ok_def)
    have old: "live_ok brk base h' bs' c \<and> whole (r, nbytes) \<inter> whole c = {}" if "c \<in> set ls" for c
    proof -
      have lc: "live_ok brk base h bs c" using i that by (simp add: alloc_inv_def)
      have wc: "whole c \<inter> ?avail = {}" using lc by (auto simp: live_ok_def)
      then have "fst c - HDR \<notin> ?avail" using live_header(1) [OF lc] by blast
      then have "u_size h' (fst c - HDR) = u_size h (fst c - HDR)" using t(4) live_header(3) [OF lc] by blast
      then show ?thesis using lc wc t(1,2) m(4) by (auto simp: live_ok_def)
    qed
    have "free_bytes bs' \<subseteq> {base + HDR..}" using t(2) av by auto
    then have "alloc_inv brk base ((r, nbytes) # ls) h' bs'"
      using i m new old by (auto simp: alloc_inv_def)
    then show ?thesis using m(1) False by auto
  qed
qed

lemma inv_free:
  fixes h :: "('s, 'z) uheap_scheme"
  assumes i: "alloc_inv brk base ls h bs" and c: "c \<in> set ls"
  shows "\<exists>h' bs'. free (fst c) h = Some h' \<and> alloc_inv brk base (remove1 c ls) h' bs'"
proof -
  have lc: "live_ok brk base h bs c" using i c by (simp add: alloc_inv_def)
  obtain r n where rn: "c = (r, n)" by force
  have ap: "apart ls" using i by (simp add: alloc_inv_def)
  let ?bp = "r - HDR"
  have ring: "ring base (brk (os h)) h bs" using i c by (auto simp: alloc_inv_def heap_ok_def split: if_splits)
  have w: "whole c = bytes_of (?bp, units n)" by (simp add: whole_def rn)
  have n: "unat n + 2 * HDR < 2 ^ 31" "HDR \<le> r" "unat (u_size h ?bp) = units n" using lc rn by (auto simp: live_ok_def)
  have sub: "whole c \<subseteq> {base + HDR ..< brk (os h)}" "whole c \<inter> free_bytes bs = {}" using lc by (auto simp: live_ok_def)
  have hb: "base < ?bp" using live_header(1) [OF lc] sub(1) rn by (auto simp: HDR_def)
  have he: "?bp + HDR * units n \<le> brk (os h)"
  proof -
    have "?bp + HDR * units n - 1 \<in> whole c"
      using units_bounds(4) [OF n(1)] unfolding w by (auto simp: bytes_of_def HDR_def)
    then have "?bp + HDR * units n - 1 < brk (os h)" using sub(1) by auto
    then show ?thesis by linarith
  qed
  obtain h' bs' where f: "free (?bp + HDR) h = Some h'" "ring base (brk (os h)) h' bs'"
      "free_bytes bs' = free_bytes bs \<union> whole c" "os h' = os h" "\<forall>x. x \<notin> free_bytes bs' \<longrightarrow> u_size h' x = u_size h x"
    using free_ring [OF ring n(3) units_bounds(4) [OF n(1)] hb he] sub(2) unfolding w by blast
  note rm = apart_remove1 [OF ap c live_header(2) [OF lc]]
  have "live_ok brk base h' bs' d" if d: "d \<in> set (remove1 c ls)" for d
  proof -
    have ld: "live_ok brk base h bs d" using i d notin_set_remove1 by (fastforce simp: alloc_inv_def)
    have dj: "whole d \<inter> free_bytes bs' = {}" using rm d f(3) ld by (auto simp: live_ok_def)
    then have "u_size h' (fst d - HDR) = u_size h (fst d - HDR)" using f(5) live_header(1) [OF ld] by blast
    then show ?thesis using ld dj f(4) by (simp add: live_ok_def)
  qed
  moreover have "free_bytes bs' \<subseteq> {base + HDR..}" using i f(3) sub(1) by (auto simp: alloc_inv_def)
  moreover have "heap_ok brk base h' bs'" using i f ring_freep [OF f(2)] by (auto simp: alloc_inv_def heap_ok_def)
  ultimately have "alloc_inv brk base (remove1 c ls) h' bs'"
    using i rm ring_freep [OF f(2)] f(4) by (auto simp: alloc_inv_def)
  then show ?thesis using f(1) n(2) rn by auto
qed

lemma alloc_run_inv:
  assumes "alloc_run sbrk base h0 ls h" and g: "grows_by sbrk brk"
    and s: "freep h0 = 0" "0 < base" "base + HDR \<le> brk (os h0)" "brk (os h0) < HEAP_LIMIT"
  shows "\<exists>bs. alloc_inv brk base ls h bs"
  using assms(1)
proof induction
  case start
  have "alloc_inv brk base [] h0 []" using s by (simp add: alloc_inv_def heap_ok_def HDR_def)
  then show ?case by blast
next
  case (failed ls h nbytes h')
  then show ?case using inv_malloc [OF _ g, of base ls h _ nbytes] by fastforce
next
  case (allocated ls h nbytes r h')
  then show ?case using inv_malloc [OF _ g, of base ls h _ nbytes] by fastforce
next
  case (freed ls h r nbytes h')
  then show ?case using inv_free [of brk base ls h _ "(r, nbytes)"] by fastforce
next
  case (wrote ls h b h')
  then show ?case using inv_wrote [of brk base ls h _ b h'] by blast
qed

text \<open>
  C36: in a program that allocates, frees what it allocated and writes into the bytes it asked for,
  in any order, the live blocks never overlap, lie in the memory that \<open>sbrk\<close> gave, and neither
  \<open>malloc\<close> nor \<open>free\<close> of a live block searches for ever; for requests below 2 GB.
\<close>

theorem live_blocks_are_disjoint:
  assumes "alloc_run sbrk base h0 ls h" and "grows_by sbrk brk"
    and "freep h0 = 0" and "0 < base" and "base + HDR \<le> brk (os h0)" and "brk (os h0) < HEAP_LIMIT"
  shows "sorted_wrt (\<lambda>b c. user_bytes b \<inter> user_bytes c = {}) ls \<and>
    (\<forall>b\<in>set ls. user_bytes b \<subseteq> {base + HDR ..< brk (os h)} \<and> free (fst b) h \<noteq> None) \<and>
    (\<forall>nbytes. unat nbytes + 2 * HDR < 2 ^ 31 \<longrightarrow> malloc sbrk base nbytes h \<noteq> None)"
proof -
  obtain bs where i: "alloc_inv brk base ls h bs" using alloc_run_inv [OF assms] by blast
  have l: "live_ok brk base h bs b" if "b \<in> set ls" for b using i that by (simp add: alloc_inv_def)
  have "apart ls" using i by (simp add: alloc_inv_def)
  then have "sorted_wrt (\<lambda>b c. user_bytes b \<inter> user_bytes c = {}) ls"
    by (rule sorted_wrt_mono_rel [rotated]) (use live_header(5) l in blast)
  moreover have "user_bytes b \<subseteq> {base + HDR ..< brk (os h)} \<and> free (fst b) h \<noteq> None" if b: "b \<in> set ls" for b
    using live_header(5) [OF l [OF b]] l [OF b] inv_free [OF i b] by (fastforce simp: live_ok_def)
  moreover have "malloc sbrk base nbytes h \<noteq> None" if "unat nbytes + 2 * HDR < 2 ^ 31" for nbytes
    using inv_malloc [OF i assms(2) that] by auto
  ultimately show ?thesis by blast
qed

text \<open>A program that allocates twice and frees the first block again.\<close>

definition demo_sbrk :: "int \<Rightarrow> nat \<Rightarrow> nat option \<times> nat" where
  "demo_sbrk k s = (if s + nat k < HEAP_LIMIT then (Some s, s + nat k) else (None, s))"

definition demo_heap :: "nat uheap" where
  "demo_heap = \<lparr>u_ptr = (\<lambda>_. 0), u_size = (\<lambda>_. 0), freep = 0, os = 0x4000\<rparr>"

lemma demo_grows: "grows_by demo_sbrk (\<lambda>s. s)"
  by (auto simp: grows_by_def demo_sbrk_def)

lemma demo_request: "request 4096 = 0x10000"
  using request_eq [of 4096] by (simp add: HDR_def)

lemmas demo_defs = malloc_def HDR_def set_size_def set_ptr_def malloc_loop.simps morecore_def free_def
  free_find.simps link_block_def block_end_def carve_def Let_def demo_request demo_sbrk_def HEAP_LIMIT_def

definition demo_heap1 :: "nat uheap" where
  "demo_heap1 = \<lparr>u_ptr = (\<lambda>_. 0)(0x4000 := 0x1000, 0x1000 := 0x4000),
     u_size = (\<lambda>_. 0)(0x1000 := 0, 0x4000 := 4088, 0x13F80 := 8), freep = 0x1000, os = 0x14000\<rparr>"

lemma demo_malloc1: "malloc demo_sbrk 0x1000 100 demo_heap = Some (0x13F90, demo_heap1)"
  by (simp add: demo_heap_def demo_heap1_def demo_defs)

definition demo_heap2 :: "nat uheap" where
  "demo_heap2 = demo_heap1\<lparr>u_size := (u_size demo_heap1)(0x4000 := 4085, 0x13F50 := 3)\<rparr>"

lemma demo_malloc2: "malloc demo_sbrk 0x1000 24 demo_heap1 = Some (0x13F60, demo_heap2)"
  by (simp add: demo_heap1_def demo_heap2_def demo_defs)

lemma demo_free: "\<exists>h. free 0x13F90 demo_heap2 = Some h \<and> os h = 0x14000"
  by (simp add: demo_heap1_def demo_heap2_def demo_defs)

theorem live_blocks_are_disjoint_witness:
  "sorted_wrt (\<lambda>b c. user_bytes b \<inter> user_bytes c = {}) [(0x13F60, 24), (0x13F90, 100)] \<and>
   user_bytes (0x13F90, 100) \<subseteq> {0x1010 ..< 0x14000} \<and> free 0x13F90 demo_heap2 \<noteq> None"
proof -
  have "alloc_run demo_sbrk 0x1000 demo_heap [(0x13F90, 100)] demo_heap1"
    by (rule allocated [OF start _ demo_malloc1]) (simp_all add: HDR_def)
  then have "alloc_run demo_sbrk 0x1000 demo_heap [(0x13F60, 24), (0x13F90, 100)] demo_heap2"
    by (rule allocated [OF _ _ demo_malloc2]) (simp_all add: HDR_def)
  note live_blocks_are_disjoint [OF this demo_grows]
  then show ?thesis by (simp add: demo_heap_def demo_heap1_def demo_heap2_def HDR_def HEAP_LIMIT_def)
qed

end
