(* ===== verification/Grep.thy ===== *)
theory Grep
  imports Main "HOL-Library.Word"
begin

text \<open>
  \<open>user/grep.c\<close>: the matcher for the operators \<open>^ . * $\<close>, shown equivalent to membership in the
  language that a pattern denotes, and the loop that reads a file through a buffer of 1024 bytes
  and prints the matching lines.

  A C string is the list of its bytes before the NUL; \<open>text + 1\<close> is \<open>tl\<close> and a read of the
  terminating NUL is the case of the empty list. The system call \<open>read\<close> is a parameter: a function
  from the number of bytes asked for and the state of the file to the bytes it returns.
\<close>

type_synonym bytes = "8 word list"

abbreviation (input) caret :: "8 word" where "caret \<equiv> 0x5E"
abbreviation (input) dollar :: "8 word" where "dollar \<equiv> 0x24"
abbreviation (input) star :: "8 word" where "star \<equiv> 0x2A"
abbreviation (input) dot :: "8 word" where "dot \<equiv> 0x2E"
abbreviation (input) newline :: "8 word" where "newline \<equiv> 0x0A"

section \<open>The matcher\<close>

function matchhere :: "bytes \<Rightarrow> bytes \<Rightarrow> bool" and matchstar :: "8 word \<Rightarrow> bytes \<Rightarrow> bytes \<Rightarrow> bool" where
  "matchhere re text =
     (if re = [] then True
      else if tl re \<noteq> [] \<and> hd (tl re) = star then matchstar (hd re) (tl (tl re)) text
      else if hd re = dollar \<and> tl re = [] then text = []
      else if text \<noteq> [] \<and> (hd re = dot \<or> hd re = hd text) then matchhere (tl re) (tl text)
      else False)"
| "matchstar c re text =
     (if matchhere re text then True
      else if text \<noteq> [] \<and> (hd text = c \<or> c = dot) then matchstar c re (tl text)
      else False)"
  by pat_completeness auto
termination
  by (relation "inv_image (less_than <*lex*> less_than <*lex*> less_than)
      (case_sum (\<lambda>(re, t). (length re, length t, 0)) (\<lambda>(c, re, t). (length re, length t, Suc 0)))")
    (auto simp: neq_Nil_conv)

declare matchhere.simps [simp del] matchstar.simps [simp del]

text \<open>The \<open>do\<close> loop of \<open>match\<close>: the empty string at the end of the text is tried too.\<close>

fun match_loop :: "bytes \<Rightarrow> bytes \<Rightarrow> bool" where
  "match_loop re text =
     (if matchhere re text then True
      else if text \<noteq> [] then match_loop re (tl text) else False)"

declare match_loop.simps [simp del]

definition match :: "bytes \<Rightarrow> bytes \<Rightarrow> bool" where
  "match re text =
     (if re \<noteq> [] \<and> hd re = caret then matchhere (tl re) text else match_loop re text)"

section \<open>The language of a pattern\<close>

text \<open>
  A pattern is a sequence of items, a set of bytes each and whether it is repeated, and perhaps a
  dollar sign at the end.
\<close>

definition symbol :: "8 word \<Rightarrow> 8 word set" where
  "symbol c = (if c = dot then UNIV else {c})"

fun items :: "bytes \<Rightarrow> (8 word set \<times> bool) list" where
  "items [] = []"
| "items (c # re) =
     (if re \<noteq> [] \<and> hd re = star then (symbol c, True) # items (tl re)
      else if c = dollar \<and> re = [] then []
      else (symbol c, False) # items re)"

fun at_end :: "bytes \<Rightarrow> bool" where
  "at_end [] = False"
| "at_end (c # re) =
     (if re \<noteq> [] \<and> hd re = star then at_end (tl re) else if c = dollar \<and> re = [] then True else at_end re)"

fun words :: "(8 word set \<times> bool) list \<Rightarrow> bytes set" where
  "words [] = {[]}"
| "words ((A, False) # is) = {a # w |a w. a \<in> A \<and> w \<in> words is}"
| "words ((A, True) # is) = {u @ w |u w. u \<in> lists A \<and> w \<in> words is}"

definition prefix_in :: "bytes \<Rightarrow> bytes \<Rightarrow> bool" where
  "prefix_in re text \<longleftrightarrow> (\<exists>u v. text = u @ v \<and> u \<in> words (items re) \<and> (at_end re \<longrightarrow> v = []))"

lemma symbol_iff: "a \<in> symbol c \<longleftrightarrow> c = dot \<or> a = c"
  by (simp add: symbol_def)

lemma prefix_in_star:
  assumes "re \<noteq> []" "tl re \<noteq> []" "hd (tl re) = star"
  shows "prefix_in re text \<longleftrightarrow>
    (\<exists>u t. text = u @ t \<and> u \<in> lists (symbol (hd re)) \<and> prefix_in (tl (tl re)) t)"
proof -
  obtain c re' where re: "re = c # star # re'" using assms by (cases re; cases "tl re") auto
  have i: "items re = (symbol c, True) # items re'" and e: "at_end re = at_end re'"
    by (simp_all add: re)
  show ?thesis
  proof
    assume "prefix_in re text"
    then obtain x v where "text = x @ v" "at_end re' \<longrightarrow> v = []"
        "x \<in> words ((symbol c, True) # items re')"
      unfolding prefix_in_def i e by blast
    moreover from this obtain u w where "x = u @ w" "u \<in> lists (symbol c)" "w \<in> words (items re')"
      by auto
    ultimately show "\<exists>u t. text = u @ t \<and> u \<in> lists (symbol (hd re)) \<and> prefix_in (tl (tl re)) t"
      by (intro exI [of _ u] exI [of _ "w @ v"]) (auto simp: re prefix_in_def)
  next
    assume "\<exists>u t. text = u @ t \<and> u \<in> lists (symbol (hd re)) \<and> prefix_in (tl (tl re)) t"
    then obtain u w v where "text = u @ w @ v" "u \<in> lists (symbol c)" "w \<in> words (items re')"
        "at_end re' \<longrightarrow> v = []"
      by (auto simp: re prefix_in_def)
    then show "prefix_in re text"
      unfolding prefix_in_def i e words.simps by (intro exI [of _ "u @ w"] exI [of _ v]) auto
  qed
qed

lemma prefix_in_plain:
  assumes "re \<noteq> []" "\<not> (tl re \<noteq> [] \<and> hd (tl re) = star)" "\<not> (hd re = dollar \<and> tl re = [])"
  shows "prefix_in re text \<longleftrightarrow>
    text \<noteq> [] \<and> hd text \<in> symbol (hd re) \<and> prefix_in (tl re) (tl text)"
proof -
  obtain c re' where re: "re = c # re'" using assms by (cases re) auto
  have i: "items re = (symbol c, False) # items re'" and e: "at_end re = at_end re'"
    using assms by (auto simp: re)
  show ?thesis unfolding prefix_in_def i e by (cases "text") (auto simp: re Cons_eq_append_conv)
qed

definition star_in :: "8 word set \<Rightarrow> (bytes \<Rightarrow> bool) \<Rightarrow> bytes \<Rightarrow> bool" where
  "star_in A P text \<longleftrightarrow> (\<exists>u t. text = u @ t \<and> u \<in> lists A \<and> P t)"

lemma star_in_unfold:
  "star_in A P text \<longleftrightarrow> P text \<or> (text \<noteq> [] \<and> hd text \<in> A \<and> star_in A P (tl text))"
proof
  assume "star_in A P text"
  then obtain u t where "text = u @ t" "u \<in> lists A" "P t" by (auto simp: star_in_def)
  then show "P text \<or> (text \<noteq> [] \<and> hd text \<in> A \<and> star_in A P (tl text))"
    by (cases u) (auto simp: star_in_def)
next
  assume "P text \<or> (text \<noteq> [] \<and> hd text \<in> A \<and> star_in A P (tl text))"
  then show "star_in A P text"
  proof
    assume "P text"
    then show ?thesis unfolding star_in_def by (intro exI [of _ "[]"] exI [of _ "text"]) simp
  next
    assume *: "text \<noteq> [] \<and> hd text \<in> A \<and> star_in A P (tl text)"
    then obtain u t where "tl text = u @ t" "u \<in> lists A" "P t" by (auto simp: star_in_def)
    then show ?thesis unfolding star_in_def using *
      by (intro exI [of _ "hd text # u"] exI [of _ t]) (cases "text"; simp)
  qed
qed

lemma matchhere_iff: "matchhere re text \<longleftrightarrow> prefix_in re text"
  and matchstar_iff: "matchstar c re text \<longleftrightarrow> star_in (symbol c) (prefix_in re) text"
proof (induction re "text" and c re "text" rule: matchhere_matchstar.induct)
  case (1 re "text")
  show ?case
  proof (cases "re = []")
    case True
    then show ?thesis by (simp add: matchhere.simps prefix_in_def)
  next
    case ne: False
    show ?thesis
    proof (cases "tl re \<noteq> [] \<and> hd (tl re) = star")
      case True
      have "matchhere re text = matchstar (hd re) (tl (tl re)) text"
        using ne True by (subst matchhere.simps) simp
      also have "\<dots> = prefix_in re text"
        unfolding 1(1) [OF ne True] unfolding star_in_def
        by (rule prefix_in_star [symmetric]) (use ne True in auto)
      finally show ?thesis .
    next
      case ns: False
      show ?thesis
      proof (cases "hd re = dollar \<and> tl re = []")
        case True
        then have "re = [dollar]" using ne by (cases re) auto
        then show ?thesis by (simp add: matchhere.simps prefix_in_def)
      next
        case False
        have "matchhere re text =
            (text \<noteq> [] \<and> (hd re = dot \<or> hd re = hd text) \<and> matchhere (tl re) (tl text))"
          using ne ns False by (subst matchhere.simps) (simp only: if_False split: if_split, blast)
        also have "\<dots> = (text \<noteq> [] \<and> hd text \<in> symbol (hd re) \<and> prefix_in (tl re) (tl text))"
          using 1(2) [OF ne ns False] by (auto simp: symbol_iff)
        also have "\<dots> = prefix_in re text"
          by (rule prefix_in_plain [symmetric]) (use ne ns False in auto)
        finally show ?thesis .
      qed
    qed
  qed
next
  case (2 c re "text")
  have "matchstar c re text =
      (prefix_in re text \<or> (text \<noteq> [] \<and> hd text \<in> symbol c \<and> matchstar c re (tl text)))"
    by (subst matchstar.simps) (auto simp: 2(1) symbol_iff)
  also have "\<dots> = star_in (symbol c) (prefix_in re) text"
    using 2 unfolding star_in_unfold [of _ _ "text"] by (auto simp: symbol_iff)
  finally show ?case .
qed

lemma match_loop_iff: "match_loop re text \<longleftrightarrow> (\<exists>t v. text = t @ v \<and> prefix_in re v)"
proof (induction re "text" rule: match_loop.induct)
  case (1 re "text")
  show ?case
  proof (cases "prefix_in re text")
    case True
    then show ?thesis by (subst match_loop.simps) (force simp: matchhere_iff intro: exI [of _ "[]"])
  next
    case False
    then show ?thesis using 1
      by (subst match_loop.simps) (cases "text"; auto simp: matchhere_iff Cons_eq_append_conv)
  qed
qed

text \<open>
  C34: the matcher accepts a text exactly if it is \<open>t @ u @ v\<close> with \<open>u\<close> in the language of the
  pattern, where \<open>t\<close> is empty if the pattern starts with a caret and \<open>v\<close> is empty if it ends with
  a dollar sign.
\<close>

theorem match_iff_in_language:
  "match re text \<longleftrightarrow>
     (let anchored = (re \<noteq> [] \<and> hd re = caret); body = (if anchored then tl re else re)
      in \<exists>t u v. text = t @ u @ v \<and> u \<in> words (items body) \<and>
           (\<not> anchored \<or> t = []) \<and> (\<not> at_end body \<or> v = []))"
proof (cases "re \<noteq> [] \<and> hd re = caret")
  case True
  then show ?thesis by (auto simp: match_def matchhere_iff prefix_in_def Let_def)
next
  case False
  then show ?thesis
    unfolding match_def Let_def match_loop_iff prefix_in_def by (simp only: if_False) blast
qed

text \<open>\<open>ab*$\<close> on \<open>xabb\<close>.\<close>

theorem match_iff_in_language_witness:
  "\<exists>t u v. [0x78, 0x61, 0x62, 0x62] = t @ u @ v \<and> u \<in> words (items [0x61, 0x62, star, dollar]) \<and> v = []"
proof -
  have "match [0x61, 0x62, star, dollar] [0x78, 0x61, 0x62, 0x62]"
    by (simp add: match_def match_loop.simps matchhere.simps matchstar.simps)
  then show ?thesis unfolding match_iff_in_language by (simp add: Let_def)
qed

section \<open>The reading loop\<close>

text \<open>
  The inner loop: \<open>p\<close> is what is left of the buffer. \<open>strchr\<close> looks no further than the first NUL.
  The result is what was written to the standard output and the bytes that stay in the buffer.
\<close>

function grep_lines :: "bytes \<Rightarrow> bytes \<Rightarrow> bytes \<times> bytes" where
  "grep_lines pattern p =
     (let str = takeWhile (\<lambda>c. c \<noteq> 0) p
      in if newline \<notin> set str then ([], p)
         else let q = length (takeWhile (\<lambda>c. c \<noteq> newline) str);
                  line = take q p;
                  (out, rest) = grep_lines pattern (drop (Suc q) p)
              in ((if match pattern line then take (Suc q) p else []) @ out, rest))"
  by pat_completeness auto
termination
  by (relation "measure (\<lambda>(_, p). length p)") (auto intro!: diff_less elim: length_pos_if_in_set [OF set_takeWhileD [THEN conjunct1]])

declare grep_lines.simps [simp del]

definition GREP_BUF :: nat where "GREP_BUF = 1024"

text \<open>
  \<open>rd k s\<close> stands for \<open>read(fd, buf+m, k)\<close>: the bytes read, none at the end of the file or on an
  error. \<open>buf\<close> is the first \<open>m\<close> bytes of the buffer, \<open>out\<close> what was printed so far.
\<close>

partial_function (option) grep_loop ::
    "(nat \<Rightarrow> 's \<Rightarrow> bytes \<times> 's) \<Rightarrow> bytes \<Rightarrow> bytes \<Rightarrow> bytes \<Rightarrow> 's \<Rightarrow> (bytes \<times> 's) option" where
  "grep_loop rd pattern buf out s =
     (let (chunk, s) = rd (GREP_BUF - length buf - 1) s
      in if chunk = [] then Some (out, s)
         else let (o2, rest) = grep_lines pattern (buf @ chunk)
              in grep_loop rd pattern rest (out @ o2) s)"

definition grep :: "(nat \<Rightarrow> 's \<Rightarrow> bytes \<times> 's) \<Rightarrow> bytes \<Rightarrow> 's \<Rightarrow> (bytes \<times> 's) option" where
  "grep rd pattern s = grep_loop rd pattern [] [] s"

section \<open>What grep prints\<close>

text \<open>The complete lines of a text, and what follows the last newline.\<close>

fun split_lines :: "bytes \<Rightarrow> bytes list \<times> bytes" where
  "split_lines [] = ([], [])"
| "split_lines (c # cs) =
     (case split_lines cs of
        (ls, r) \<Rightarrow>
          if c = newline then ([] # ls, r)
          else (case ls of [] \<Rightarrow> ([], c # r) | l # ls' \<Rightarrow> ((c # l) # ls', r)))"

definition matching :: "bytes \<Rightarrow> bytes list \<Rightarrow> bytes" where
  "matching pattern ls = concat (map (\<lambda>l. l @ [newline]) (filter (match pattern) ls))"

lemma matching_simps [simp]:
  "matching pattern [] = []"
  "matching pattern (l # ls) = (if match pattern l then l @ [newline] else []) @ matching pattern ls"
  "matching pattern (ls @ ks) = matching pattern ls @ matching pattern ks"
  by (simp_all add: matching_def)

lemma split_lines_plain: "newline \<notin> set p \<Longrightarrow> split_lines p = ([], p)"
  by (induction p) auto

lemma split_lines_line:
  "newline \<notin> set l \<Longrightarrow> split_lines (l @ newline # p) = (l # fst (split_lines p), snd (split_lines p))"
  by (induction l) (auto split: prod.splits)

lemma split_lines_rest_plain: "newline \<notin> set (snd (split_lines p))"
  by (induction p) (auto split: prod.splits list.splits)

lemma split_lines_append:
  "split_lines (p @ q) =
     (fst (split_lines p) @ fst (split_lines (snd (split_lines p) @ q)), snd (split_lines (snd (split_lines p) @ q)))"
  by (induction p) (auto split: prod.splits list.splits)

lemma grep_lines_split:
  "0 \<notin> set p \<Longrightarrow> grep_lines pattern p = (matching pattern (fst (split_lines p)), snd (split_lines p))"
proof (induction pattern p rule: grep_lines.induct)
  case (1 pattern p)
  have str: "takeWhile (\<lambda>c. c \<noteq> 0) p = p" using 1(2) by (auto simp: takeWhile_eq_all_conv)
  show ?case
  proof (cases "newline \<in> set p")
    case False
    then show ?thesis by (subst grep_lines.simps) (simp add: str split_lines_plain)
  next
    case True
    then obtain l r where p: "p = l @ newline # r" "newline \<notin> set l" by (meson split_list_first)
    have q: "length (takeWhile (\<lambda>c. c \<noteq> newline) p) = length l"
      unfolding p by (subst takeWhile_append2) (use p(2) in auto)
    have "grep_lines pattern r = (matching pattern (fst (split_lines r)), snd (split_lines r))"
      using 1(1) [OF refl, unfolded str] True 1(2) q by (simp add: p)
    then show ?thesis
      using True by (subst grep_lines.simps) (simp add: str q, simp add: p split_lines_line)
  qed
qed

text \<open>
  The promise of \<open>read\<close> on a file whose unread contents are \<open>rem s\<close>: it returns some of them, in
  order, at most as many as asked for, and none only at the end or if none were asked for.
\<close>

definition reads_from :: "(nat \<Rightarrow> 's \<Rightarrow> bytes \<times> 's) \<Rightarrow> ('s \<Rightarrow> bytes) \<Rightarrow> bool" where
  "reads_from rd rem \<longleftrightarrow>
     (\<forall>k s. let (chunk, s') = rd k s
            in rem s = chunk @ rem s' \<and> length chunk \<le> k \<and> (chunk = [] \<longrightarrow> k = 0 \<or> rem s = []))"

lemma set_split_rest: "set (snd (split_lines p)) \<subseteq> set p"
  by (induction p) (auto split: prod.splits list.splits)

lemma split_lines_prefix:
  "newline \<notin> set buf \<Longrightarrow> split_lines (buf @ r) =
     (case fst (split_lines r) of
        [] \<Rightarrow> ([], buf @ snd (split_lines r))
      | l # ls \<Rightarrow> ((buf @ l) # ls, snd (split_lines r)))"
  by (induction buf; cases "split_lines r") (auto split: prod.splits list.splits)

text \<open>Every line, newline included, fits the buffer next to the final NUL.\<close>

definition lines_fit :: "bytes \<Rightarrow> bool" where
  "lines_fit p \<longleftrightarrow>
     (\<forall>l\<in>set (fst (split_lines p)). length l < GREP_BUF - 1) \<and> length (snd (split_lines p)) < GREP_BUF - 1"

lemma lines_fit_prefix: "newline \<notin> set buf \<Longrightarrow> lines_fit (buf @ r) \<Longrightarrow> length buf < GREP_BUF - 1"
  by (auto simp: lines_fit_def split_lines_prefix split: list.splits)

lemma lines_fit_rest: "lines_fit (p @ q) \<Longrightarrow> lines_fit (snd (split_lines p) @ q)"
  unfolding lines_fit_def by (subst (asm) (1 2) split_lines_append) auto

lemma grep_loop_lines:
  assumes rd: "reads_from rd rem"
  shows "newline \<notin> set buf \<Longrightarrow> 0 \<notin> set (buf @ rem s) \<Longrightarrow> lines_fit (buf @ rem s) \<Longrightarrow>
    \<exists>s'. grep_loop rd pattern buf out s =
      Some (out @ matching pattern (fst (split_lines (buf @ rem s))), s') \<and> rem s' = []"
proof (induction "length (rem s)" arbitrary: s buf out rule: less_induct)
  case less
  obtain chunk s1 where r: "rd (GREP_BUF - length buf - 1) s = (chunk, s1)" by force
  have c: "rem s = chunk @ rem s1" "chunk = [] \<longrightarrow> GREP_BUF - length buf - 1 = 0 \<or> rem s = []"
    using rd r unfolding reads_from_def Let_def by (auto dest!: spec [of _ "GREP_BUF - length buf - 1"] spec [of _ s])
  have room: "length buf < GREP_BUF - 1" by (rule lines_fit_prefix [OF less.prems(1,3)])
  show ?case
  proof (cases "chunk = []")
    case True
    then have "rem s = []" using c room by auto
    then show ?thesis using True c(1) less.prems(1)
      using r by (subst grep_loop.simps) (simp add: split_lines_plain)
  next
    case False
    let ?rest = "snd (split_lines (buf @ chunk))"
    have g: "grep_lines pattern (buf @ chunk) = (matching pattern (fst (split_lines (buf @ chunk))), ?rest)"
      by (rule grep_lines_split) (use less.prems(2) c(1) in auto)
    have sub: "set ?rest \<subseteq> set (buf @ chunk)" by (rule set_split_rest)
    have "\<exists>s'. grep_loop rd pattern ?rest (out @ matching pattern (fst (split_lines (buf @ chunk)))) s1 =
        Some ((out @ matching pattern (fst (split_lines (buf @ chunk)))) @
          matching pattern (fst (split_lines (?rest @ rem s1))), s') \<and> rem s' = []"
    proof (rule less.hyps)
      show "length (rem s1) < length (rem s)" using c(1) False by simp
      show "newline \<notin> set ?rest" by (rule split_lines_rest_plain)
      show "0 \<notin> set (?rest @ rem s1)" using less.prems(2) sub c(1) by auto
      show "lines_fit (?rest @ rem s1)"
        by (rule lines_fit_rest) (use less.prems(3) c(1) in simp)
    qed
    moreover have "fst (split_lines (buf @ rem s)) =
        fst (split_lines (buf @ chunk)) @ fst (split_lines (?rest @ rem s1))"
      using split_lines_append [of "buf @ chunk" "rem s1"] c(1) by simp
    ultimately show ?thesis using False r g by (subst grep_loop.simps) simp
  qed
qed

text \<open>
  C35: on a file without NUL bytes whose lines fit the buffer, \<open>grep\<close> returns after reading all of
  it, however the reads cut it up, and prints exactly the complete lines that match, in order.
\<close>

theorem grep_prints_matching_lines:
  assumes "reads_from rd rem" and "0 \<notin> set (rem s)" and "lines_fit (rem s)"
  shows "\<exists>s'. grep rd pattern s = Some (matching pattern (fst (split_lines (rem s))), s') \<and> rem s' = []"
  unfolding grep_def using grep_loop_lines [OF assms(1), of "[]" s pattern "[]"] assms(2,3) by simp

text \<open>Reads of at most three bytes from a file of four lines, the last one not ended.\<close>

definition demo_file :: bytes where
  "demo_file = [0x61, 0x62, newline, 0x62, newline, 0x63, 0x61, 0x62, newline, 0x61, 0x62]"

definition demo_read :: "nat \<Rightarrow> bytes \<Rightarrow> bytes \<times> bytes" where
  "demo_read k s = (take (min k 3) s, drop (min k 3) s)"

lemma demo_reads_from: "reads_from demo_read (\<lambda>s. s)"
  by (auto simp: reads_from_def demo_read_def min_def)

theorem grep_prints_matching_lines_witness:
  "\<exists>s'. grep demo_read [0x61, 0x62, dollar] demo_file =
     Some ([0x61, 0x62, newline, 0x63, 0x61, 0x62, newline], s') \<and> s' = []"
proof -
  have l: "split_lines demo_file = ([[0x61, 0x62], [0x62], [0x63, 0x61, 0x62]], [0x61, 0x62])"
    by (simp add: demo_file_def)
  have m: "matching [0x61, 0x62, dollar] (fst (split_lines demo_file)) =
      [0x61, 0x62, newline, 0x63, 0x61, 0x62, newline]"
    by (simp add: l match_def match_loop.simps matchhere.simps)
  have "lines_fit demo_file" by (simp add: lines_fit_def l GREP_BUF_def)
  moreover have "0 \<notin> set demo_file" by (simp add: demo_file_def)
  ultimately show ?thesis
    using grep_prints_matching_lines [OF demo_reads_from, of demo_file "[0x61, 0x62, dollar]"] m by simp
qed

end
