(* ===== verification/Sh.thy ===== *)
theory Sh
  imports Fcntl
begin

text \<open>
  The parser of the shell, \<open>user/sh.c\<close>. The command line is the list \<open>buf\<close> of the bytes before the
  NUL; a \<open>char *\<close> into it is a position, \<open>es\<close> the position of the NUL, and \<open>*s\<close> is \<open>at buf s\<close>.
  The functions that advance \<open>*ps\<close> return the new position. A call of \<open>panic\<close>, which prints its
  message and exits, is the result \<open>Inl\<close> of the message.
\<close>

type_synonym line = "8 word list"

definition at :: "line \<Rightarrow> nat \<Rightarrow> 8 word" where
  "at buf s = (if s < length buf then buf ! s else 0)"

text \<open>\<open>whitespace\<close> and \<open>symbols\<close>; \<open>strchr\<close> never finds the NUL.\<close>

definition whitespace :: "8 word list" where
  "whitespace = [0x20, 0x09, 0x0D, 0x0A, 0x0B]"

definition symbols :: "8 word list" where
  "symbols = [0x3C, 0x7C, 0x3E, 0x26, 0x3B, 0x28, 0x29]"

section \<open>Parsed commands\<close>

text \<open>
  A word of the command line is the pair of the positions of its first byte and behind its last
  one (\<open>argv\<close> and \<open>eargv\<close>, \<open>file\<close> and \<open>efile\<close>); commands are polymorphic in the words so that
  \<open>map_cmd\<close> can replace a span by the text it delimits. A type byte the code does not know does not occur,
  and \<open>malloc\<close> is assumed to return memory, as the code does.
\<close>

type_synonym span = "nat \<times> nat"

datatype 'w cmd =
    EXEC "'w list"
  | REDIR "'w cmd" 'w u32 int
  | PIPE "'w cmd" "'w cmd"
  | LIST "'w cmd" "'w cmd"
  | BACK "'w cmd"

definition MAXARGS :: nat where "MAXARGS = 10"

section \<open>Tokens\<close>

function skip :: "(8 word \<Rightarrow> bool) \<Rightarrow> line \<Rightarrow> nat \<Rightarrow> nat" where
  "skip P buf s = (if s < length buf \<and> P (at buf s) then skip P buf (Suc s) else s)"
  by pat_completeness auto
termination by (relation "measure (\<lambda>(P, buf, s). length buf - s)") auto

declare skip.simps [simp del]

abbreviation is_ws :: "8 word \<Rightarrow> bool" where "is_ws c \<equiv> c \<in> set whitespace"
abbreviation is_plain :: "8 word \<Rightarrow> bool" where
  "is_plain c \<equiv> c \<notin> set whitespace \<and> c \<notin> set symbols"

text \<open>The result is the token, its span and the new position.\<close>

definition gettoken :: "line \<Rightarrow> nat \<Rightarrow> 8 word \<times> span \<times> nat" where
  "gettoken buf s =
     (let q = skip is_ws buf s; c = at buf q;
          (ret, eq) =
            (if c = 0 then (c, q)
             else if c \<in> set [0x7C, 0x28, 0x29, 0x3B, 0x26, 0x3C] then (c, Suc q)
             else if c = 0x3E
             then (if at buf (Suc q) = 0x3E then (0x2B, Suc (Suc q)) else (c, Suc q))
             else (0x61, skip is_plain buf q))
      in (ret, (q, eq), skip is_ws buf eq))"

definition peek :: "line \<Rightarrow> nat \<Rightarrow> 8 word list \<Rightarrow> bool \<times> nat" where
  "peek buf s toks =
     (let s = skip is_ws buf s in (at buf s \<noteq> 0 \<and> at buf s \<in> set toks, s))"

lemma skip_ge: "s \<le> skip P buf s"
  by (induction P buf s rule: skip.induct) (subst skip.simps, auto)

lemma skip_le: "s \<le> length buf \<Longrightarrow> skip P buf s \<le> length buf"
  by (induction P buf s rule: skip.induct) (subst skip.simps, auto)

lemma skip_gt: "s < length buf \<Longrightarrow> P (at buf s) \<Longrightarrow> s < skip P buf s"
  using skip_ge [of "Suc s" P buf] by (subst skip.simps) auto

lemma skip_stop: "skip P buf s < length buf \<Longrightarrow> \<not> P (at buf (skip P buf s))"
  by (induction P buf s rule: skip.induct) (subst (asm) (2) skip.simps, subst skip.simps, auto split: if_splits)

lemma skip_stays: "\<not> P (at buf s) \<Longrightarrow> skip P buf s = s"
  by (subst skip.simps) auto

lemma skip_skip [simp]: "skip P buf (skip P buf s) = skip P buf s"
  by (cases "skip P buf s < length buf") (simp_all add: skip_stays skip_stop, subst skip.simps, simp)

lemma at_end [simp]: "length buf \<le> s \<Longrightarrow> at buf s = 0"
  by (simp add: at_def)

lemma at_nonzero: "at buf s \<noteq> 0 \<Longrightarrow> s < length buf"
  by (simp add: at_def split: if_splits)

lemma gettoken_cases:
  assumes "gettoken buf s = (tok, (q, eq), s')"
  shows "q = skip is_ws buf s" and "s' = skip is_ws buf eq"
    and "tok = 0 \<Longrightarrow> at buf q = 0 \<and> eq = q" and "tok \<noteq> 0 \<Longrightarrow> at buf q \<noteq> 0 \<and> q < eq"
proof -
  let ?q = "skip is_ws buf s"
  have e: "?q < skip is_plain buf ?q" if "at buf ?q \<noteq> 0" "is_plain (at buf ?q)"
    by (rule skip_gt [where P = is_plain, OF at_nonzero [OF that(1)] that(2)])
  have ws: "\<not> is_ws (at buf ?q)" if "at buf ?q \<noteq> 0"
    using skip_stop [of is_ws buf s] at_nonzero [OF that] by auto
  note d = assms [unfolded gettoken_def Let_def, simplified prod.inject split_beta]
  show "q = ?q" "s' = skip is_ws buf eq" using d by auto
  show "tok = 0 \<Longrightarrow> at buf q = 0 \<and> eq = q"
    using d by (auto split: if_splits)
  show "tok \<noteq> 0 \<Longrightarrow> at buf q \<noteq> 0 \<and> q < eq"
    using d e ws by (auto simp: symbols_def split: if_splits)
qed

lemma gettoken_ge:
  assumes "gettoken buf s = (tok, sp, s')"
  shows "s \<le> s'" and "tok \<noteq> 0 \<Longrightarrow> s < s'" and "tok \<noteq> 0 \<Longrightarrow> s < length buf"
proof -
  obtain q eq where sp: "sp = (q, eq)" by force
  note g = gettoken_cases [OF assms [unfolded sp]]
  have q: "s \<le> q" unfolding g(1) by (rule skip_ge)
  have w: "eq \<le> s'" unfolding g(2) by (rule skip_ge)
  show "s \<le> s'" "tok \<noteq> 0 \<Longrightarrow> s < s'" using q w g(3,4) by (cases "tok = 0"; simp)+
  show "tok \<noteq> 0 \<Longrightarrow> s < length buf" using q g(4) at_nonzero [of buf q] by simp
qed

lemma peek_ge:
  assumes "peek buf s toks = (b, s')"
  shows "s \<le> s'" and "b \<Longrightarrow> s' < length buf \<and> at buf s' \<in> set toks"
  using assms skip_ge [of s is_ws buf] by (auto simp: peek_def Let_def intro: at_nonzero)

section \<open>The parser\<close>

primrec rbind :: "string + 'a \<Rightarrow> ('a \<Rightarrow> string + 'b) \<Rightarrow> string + 'b" where
  "rbind (Inl e) f = Inl e"
| "rbind (Inr x) f = f x"

lemma rbind_cong [fundef_cong]:
  "x = y \<Longrightarrow> (\<And>z. y = Inr z \<Longrightarrow> f z = g z) \<Longrightarrow> rbind x f = rbind y g"
  by (cases y) auto

lemma rbind_Inr: "rbind x f = Inr y \<longleftrightarrow> (\<exists>z. x = Inr z \<and> f z = Inr y)"
  by (cases x) auto

text \<open>
  \<open>parseredirs\<close> wraps the command it is given; the wrappers are kept in a list, because the code
  fills in the arguments of the innermost \<open>EXEC\<close> node while it is already wrapped.
\<close>

type_synonym 'w redir = "'w \<times> u32 \<times> int"

definition redirs :: "8 word \<Rightarrow> 'w \<Rightarrow> 'w redir list" where
  "redirs tok f =
     (if tok = 0x3C then [(f, O_RDONLY, 0)]
      else if tok = 0x3E then [(f, O_WRONLY OR O_CREATE OR O_TRUNC, 1)]
      else if tok = 0x2B then [(f, O_WRONLY OR O_CREATE, 1)]
      else [])"

definition wrap :: "'w cmd \<Rightarrow> 'w redir list \<Rightarrow> 'w cmd" where
  "wrap c rs = foldl (\<lambda>c (f, mode, fd). REDIR c f mode fd) c rs"

lemma peek_gettoken:
  assumes "peek buf s toks = (True, s1)" "gettoken buf s1 = (tok, sp, s2)"
  shows "s < s2" "s < length buf"
proof -
  have a: "at buf s1 \<noteq> 0" using assms(1) by (auto simp: peek_def Let_def)
  obtain q eq where sp: "sp = (q, eq)" by force
  have "q = s1"
    using gettoken_cases(1) [OF assms(2) [unfolded sp]] assms(1) skip_skip
    by (auto simp: peek_def Let_def)
  then have "tok \<noteq> 0" using gettoken_cases(3) [OF assms(2) [unfolded sp]] a
    by blast
  then show "s < s2" "s < length buf"
    using gettoken_ge [OF assms(2)] peek_ge(1) [OF assms(1)] by auto
qed

lemma peek_step:
  "peek buf s toks = (True, s1) \<Longrightarrow> gettoken buf s1 = (tok, sp, s2) \<Longrightarrow> length buf - s2 < length buf - s"
  using peek_gettoken by (meson diff_less_mono2)

lemma redirs_step:
  assumes "peek buf s toks = (True, s1)" "gettoken buf s1 = (tok, sp, s2)" "gettoken buf s2 = (0x61, f, s3)"
  shows "length buf - s3 < length buf - s"
  using peek_ge [OF assms(1)] gettoken_ge(1) [OF assms(2)] gettoken_ge(2) [OF assms(3)] by auto

function parseredirs :: "line \<Rightarrow> span redir list \<Rightarrow> nat \<Rightarrow> string + span redir list \<times> nat" where
  "parseredirs buf rs s =
     (case peek buf s [0x3C, 0x3E] of (b, s) \<Rightarrow>
        if \<not> b then Inr (rs, s)
        else case gettoken buf s of (tok, _, s) \<Rightarrow>
             case gettoken buf s of (tok2, f, s) \<Rightarrow>
               if tok2 \<noteq> 0x61 then Inl ''missing file for redirection''
               else parseredirs buf (rs @ redirs tok f) s)"
  by pat_completeness auto
termination
  by (relation "measure (\<lambda>(buf, _, s). length buf - s)") (auto intro!: redirs_step [OF sym sym sym])

declare parseredirs.simps [simp del]

lemma parseredirs_ge: "parseredirs buf rs s = Inr (rs', s') \<Longrightarrow> s \<le> s'"
proof (induction buf rs s rule: parseredirs.induct)
  case (1 buf rs s)
  obtain b s1 where p: "peek buf s [0x3C, 0x3E] = (b, s1)" by force
  obtain tok sp s2 where g: "gettoken buf s1 = (tok, sp, s2)" by (metis prod_cases3)
  obtain tok2 f s3 where h: "gettoken buf s2 = (tok2, f, s3)" by (metis prod_cases3)
  have ge: "s \<le> s1" "s1 \<le> s2" "s2 \<le> s3"
    using peek_ge(1) [OF p] gettoken_ge(1) [OF g] gettoken_ge(1) [OF h] by auto
  show ?case
  proof (cases "b \<and> tok2 = 0x61")
    case True
    then have "s3 \<le> s'" using 1 p g h
      by (subst (asm) (2) parseredirs.simps) (auto split: prod.splits if_splits)
    then show ?thesis using ge by simp
  next
    case False
    then show ?thesis using 1(2) p g h ge
      by (subst (asm) parseredirs.simps) (auto split: if_splits)
  qed
qed

lemma args_step:
  assumes "peek buf s toks = (b, s1)" "gettoken buf s1 = (0x61, a, s2)" "parseredirs buf rs s2 = Inr (rs', s3)"
  shows "length buf - s3 < length buf - s"
  using peek_ge(1) [OF assms(1)] gettoken_ge(2,3) [OF assms(2)] parseredirs_ge [OF assms(3)] by auto

text \<open>The loop of \<open>parseexec\<close> over the arguments.\<close>

function parseargs ::
    "line \<Rightarrow> span list \<Rightarrow> span redir list \<Rightarrow> nat \<Rightarrow> string + (span list \<times> span redir list) \<times> nat" where
  "parseargs buf args rs s =
     (case peek buf s [0x7C, 0x29, 0x26, 0x3B] of (b, s) \<Rightarrow>
        if b then Inr ((args, rs), s)
        else case gettoken buf s of (tok, a, s) \<Rightarrow>
               if tok = 0 then Inr ((args, rs), s)
               else if tok \<noteq> 0x61 then Inl ''syntax''
               else let args = args @ [a]
                    in if length args \<ge> MAXARGS then Inl ''too many args''
                       else rbind (parseredirs buf rs s) (\<lambda>(rs, s). parseargs buf args rs s))"
  by pat_completeness auto
termination
  by (relation "measure (\<lambda>(buf, _, _, s). length buf - s)")
    (auto intro!: args_step [OF sym sym])

declare parseargs.simps [simp del]

lemma parseargs_ge: "parseargs buf args rs s = Inr (z, s') \<Longrightarrow> s \<le> s'"
proof (induction buf args rs s rule: parseargs.induct)
  case (1 buf args rs s)
  obtain b s1 where p: "peek buf s [0x7C, 0x29, 0x26, 0x3B] = (b, s1)" by force
  obtain tok a s2 where g: "gettoken buf s1 = (tok, a, s2)" by (metis prod_cases3)
  have ge: "s \<le> s1" "s1 \<le> s2" using peek_ge(1) [OF p] gettoken_ge(1) [OF g] by auto
  show ?case
  proof (cases "\<not> b \<and> tok = 0x61 \<and> length (args @ [a]) < MAXARGS")
    case True
    then obtain rs3 s3 where "parseredirs buf rs s2 = Inr (rs3, s3)"
        "parseargs buf (args @ [a]) rs3 s3 = Inr (z, s')"
      using 1(2) p g by (subst (asm) (2) parseargs.simps) (auto simp: rbind_Inr Let_def)
    moreover from this have "s3 \<le> s'" using 1(1) [OF p [symmetric] _ g [symmetric] refl, of "args @ [a]"] True by auto
    ultimately show ?thesis using ge parseredirs_ge by (metis order_trans)
  next
    case False
    then show ?thesis using 1(2) p g ge
      by (subst (asm) parseargs.simps) (auto simp: Let_def split: if_splits)
  qed
qed

text \<open>The loop of \<open>parseline\<close> over ampersands.\<close>

function parsebacks :: "line \<Rightarrow> span cmd \<Rightarrow> nat \<Rightarrow> span cmd \<times> nat" where
  "parsebacks buf c s =
     (case peek buf s [0x26] of (b, s) \<Rightarrow>
        if b then case gettoken buf s of (_, _, s) \<Rightarrow> parsebacks buf (BACK c) s
        else (c, s))"
  by pat_completeness auto
termination
  by (relation "measure (\<lambda>(buf, _, s). length buf - s)") (auto intro!: peek_step [OF sym sym])

declare parsebacks.simps [simp del]

lemma parsebacks_ge: "parsebacks buf c s = (c', s') \<Longrightarrow> s \<le> s'"
proof (induction buf c s rule: parsebacks.induct)
  case (1 buf c s)
  obtain b s1 where p: "peek buf s [0x26] = (b, s1)" by force
  obtain tok a s2 where g: "gettoken buf s1 = (tok, a, s2)" by (metis prod_cases3)
  have ge: "s \<le> s1" "s1 \<le> s2" using peek_ge(1) [OF p] gettoken_ge(1) [OF g] by auto
  show ?case
  proof (cases b)
    case True
    then have "s2 \<le> s'" using 1 p g by (subst (asm) (2) parsebacks.simps) auto
    then show ?thesis using ge by simp
  next
    case False
    then show ?thesis using 1(2) p ge by (subst (asm) parsebacks.simps) auto
  qed
qed

text \<open>
  The recursive descent. It ends because a nested call starts behind a symbol: the position never
  moves back (\<open>parse_ge\<close>).
\<close>

function parseline :: "line \<Rightarrow> nat \<Rightarrow> string + span cmd \<times> nat"
  and parsepipe :: "line \<Rightarrow> nat \<Rightarrow> string + span cmd \<times> nat"
  and parseexec :: "line \<Rightarrow> nat \<Rightarrow> string + span cmd \<times> nat"
  and parseblock :: "line \<Rightarrow> nat \<Rightarrow> string + span cmd \<times> nat" where
  "parseline buf s =
     rbind (parsepipe buf s) (\<lambda>(c, s).
       case parsebacks buf c s of (c, s) \<Rightarrow>
       case peek buf s [0x3B] of (b, s) \<Rightarrow>
         if b then case gettoken buf s of (_, _, s) \<Rightarrow>
                     rbind (parseline buf s) (\<lambda>(c2, s). Inr (LIST c c2, s))
         else Inr (c, s))"
| "parsepipe buf s =
     rbind (parseexec buf s) (\<lambda>(c, s).
       case peek buf s [0x7C] of (b, s) \<Rightarrow>
         if b then case gettoken buf s of (_, _, s) \<Rightarrow>
                     rbind (parsepipe buf s) (\<lambda>(c2, s). Inr (PIPE c c2, s))
         else Inr (c, s))"
| "parseexec buf s =
     (case peek buf s [0x28] of (b, s) \<Rightarrow>
        if b then parseblock buf s
        else rbind (parseredirs buf [] s) (\<lambda>(rs, s).
             rbind (parseargs buf [] rs s) (\<lambda>((args, rs), s). Inr (wrap (EXEC args) rs, s))))"
| "parseblock buf s =
     (case peek buf s [0x28] of (b, s) \<Rightarrow>
        if \<not> b then Inl ''parseblock''
        else case gettoken buf s of (_, _, s) \<Rightarrow>
             rbind (parseline buf s) (\<lambda>(c, s).
               case peek buf s [0x29] of (b, s) \<Rightarrow>
                 if \<not> b then Inl ''syntax - missing )''
                 else case gettoken buf s of (_, _, s) \<Rightarrow>
                      rbind (parseredirs buf [] s) (\<lambda>(rs, s). Inr (wrap c rs, s))))"
  by pat_completeness auto

lemma parse_ge_dom:
  "parseline_parsepipe_parseexec_parseblock_dom (Inl (Inl (buf1, s1))) \<Longrightarrow>
     parseline buf1 s1 = Inr (c1, t1) \<Longrightarrow> s1 \<le> t1"
  "parseline_parsepipe_parseexec_parseblock_dom (Inl (Inr (buf2, s2))) \<Longrightarrow>
     parsepipe buf2 s2 = Inr (c2, t2) \<Longrightarrow> s2 \<le> t2"
  "parseline_parsepipe_parseexec_parseblock_dom (Inr (Inl (buf3, s3))) \<Longrightarrow>
     parseexec buf3 s3 = Inr (c3, t3) \<Longrightarrow> s3 \<le> t3"
  "parseline_parsepipe_parseexec_parseblock_dom (Inr (Inr (buf4, s4))) \<Longrightarrow>
     parseblock buf4 s4 = Inr (c4, t4) \<Longrightarrow> s4 \<le> t4"
proof (induction buf1 s1 and buf2 s2 and buf3 s3 and buf4 s4 arbitrary: c1 t1 and c2 t2 and c3 t3 and c4 t4
    rule: parseline_parsepipe_parseexec_parseblock.pinduct)
  case (1 buf s)
  from 1(4) obtain c sa where p: "parsepipe buf s = Inr (c, sa)"
    unfolding parseline.psimps [OF 1(1)] rbind_Inr by force
  obtain cb sb where q: "parsebacks buf c sa = (cb, sb)" by force
  obtain b sc where r: "peek buf sb [0x3B] = (b, sc)" by force
  note e = p q r
  then have ge: "s \<le> sa" "sa \<le> sb" "sb \<le> sc" using 1(2) parsebacks_ge peek_ge(1) by blast+
  show ?case
  proof (cases b)
    case True
    obtain tok sp sd where g: "gettoken buf sc = (tok, sp, sd)" by (metis prod_cases3)
    have "\<And>c t. parseline buf sd = Inr (c, t) \<Longrightarrow> sd \<le> t"
      using 1(3) [OF e(1) refl e(2) [symmetric] e(3) [symmetric] True g [symmetric] refl] .
    then show ?thesis using 1(4) e g ge True gettoken_ge(1) [OF g]
      by (auto simp: parseline.psimps [OF 1(1)] rbind_Inr)
  next
    case False
    then show ?thesis using 1(4) e ge by (simp add: parseline.psimps [OF 1(1)])
  qed
next
  case (2 buf s)
  from 2(4) obtain c sa where p: "parseexec buf s = Inr (c, sa)"
    unfolding parsepipe.psimps [OF 2(1)] rbind_Inr by force
  obtain b sc where q: "peek buf sa [0x7C] = (b, sc)" by force
  note e = p q
  then have ge: "s \<le> sa" "sa \<le> sc" using 2(2) peek_ge(1) by blast+
  show ?case
  proof (cases b)
    case True
    obtain tok sp sd where g: "gettoken buf sc = (tok, sp, sd)" by (metis prod_cases3)
    have "\<And>c t. parsepipe buf sd = Inr (c, t) \<Longrightarrow> sd \<le> t"
      using 2(3) [OF e(1) refl e(2) [symmetric] True g [symmetric] refl] .
    then show ?thesis using 2(4) e g ge True gettoken_ge(1) [OF g]
      by (auto simp: parsepipe.psimps [OF 2(1)] rbind_Inr)
  next
    case False
    then show ?thesis using 2(4) e ge by (simp add: parsepipe.psimps [OF 2(1)])
  qed
next
  case (3 buf s)
  obtain b sa where e: "peek buf s [0x28] = (b, sa)" by force
  have ge: "s \<le> sa" using peek_ge(1) [OF e] .
  show ?case
  proof (cases b)
    case True
    then have "sa \<le> t3" using 3(2) [OF e [symmetric] True] 3(3) e by (simp add: parseexec.psimps [OF 3(1)])
    then show ?thesis using ge by simp
  next
    case False
    then show ?thesis using 3(3) e ge
      by (auto simp: parseexec.psimps [OF 3(1)] rbind_Inr dest!: parseredirs_ge parseargs_ge)
  qed
next
  case (4 buf s)
  obtain b sa where e: "peek buf s [0x28] = (b, sa)" by force
  obtain tok sp sb where g: "gettoken buf sa = (tok, sp, sb)" by (metis prod_cases3)
  have ge: "s \<le> sa" "sa \<le> sb" using peek_ge(1) [OF e] gettoken_ge(1) [OF g] by auto
  have b: b using 4(3) e by (simp add: parseblock.psimps [OF 4(1)] split: if_split_asm)
  from 4(3) obtain c sc where l: "parseline buf sb = Inr (c, sc)"
    using e g b by (auto simp: parseblock.psimps [OF 4(1)] rbind_Inr)
  then have "sb \<le> sc" using 4(2) [OF e [symmetric] _ g [symmetric] refl] b by blast
  then show ?case using 4(3) e g b l ge
    by (auto simp: parseblock.psimps [OF 4(1)] rbind_Inr split: prod.split_asm if_split_asm
      dest!: parseredirs_ge peek_ge(1) gettoken_ge(1))
qed

lemma parseline_step:
  assumes "parseline_parsepipe_parseexec_parseblock_dom (Inl (Inr (buf, s)))"
    "parsepipe buf s = Inr (c, s1)" "parsebacks buf c s1 = (c2, s2)"
    "peek buf s2 toks = (True, s3)" "gettoken buf s3 = (tok, sp, s4)"
  shows "length buf - s4 < length buf - s"
  using parse_ge_dom(2) [OF assms(1,2)] parsebacks_ge [OF assms(3)] peek_gettoken [OF assms(4,5)] by simp

lemma parsepipe_step:
  assumes "parseline_parsepipe_parseexec_parseblock_dom (Inr (Inl (buf, s)))"
    "parseexec buf s = Inr (c, s2)" "peek buf s2 toks = (True, s3)" "gettoken buf s3 = (tok, sp, s4)"
  shows "length buf - s4 < length buf - s"
  using parse_ge_dom(3) [OF assms(1,2)] peek_gettoken [OF assms(3,4)] by simp

termination parseline
proof (relation "inv_image (less_than <*lex*> less_than)
    (case_sum (case_sum (\<lambda>(buf, s). (length buf - s, 3 :: nat)) (\<lambda>(buf, s). (length buf - s, 2)))
              (case_sum (\<lambda>(buf, s). (length buf - s, 1)) (\<lambda>(buf, s). (length buf - s, 0))))",
    goal_cases)
  case 1
  show ?case by (intro wf_inv_image wf_lex_prod wf_less_than)
next
  case (3 buf s)
  then show ?case by (auto intro!: parseline_step [OF _ _ sym sym sym])
next
  case (5 buf s)
  then show ?case by (auto intro!: parsepipe_step [OF _ _ sym sym])
next
  case (6 buf s)
  then show ?case by (auto dest!: sym [of _ "peek _ _ _"] peek_ge(1) intro: le_neq_trans)
next
  case (7 buf s)
  then show ?case by (auto intro!: peek_step [OF sym sym])
qed auto

declare parseline.simps [simp del] parsepipe.simps [simp del] parseexec.simps [simp del]
  parseblock.simps [simp del]

text \<open>\<open>nulterminate\<close> writes a NUL behind every word; at \<open>es\<close>, behind the list, there is one already.\<close>

primrec nulterminate :: "span cmd \<Rightarrow> line \<Rightarrow> line" where
  "nulterminate (EXEC args) buf = foldl (\<lambda>buf (q, eq). buf[eq := 0]) buf args"
| "nulterminate (REDIR c f mode fd) buf = (nulterminate c buf)[snd f := 0]"
| "nulterminate (PIPE l r) buf = nulterminate r (nulterminate l buf)"
| "nulterminate (LIST l r) buf = nulterminate r (nulterminate l buf)"
| "nulterminate (BACK c) buf = nulterminate c buf"

text \<open>The parsed command and the command line with the words terminated.\<close>

definition parsecmd :: "line \<Rightarrow> string + span cmd \<times> line" where
  "parsecmd buf =
     rbind (parseline buf 0) (\<lambda>(c, s).
       case peek buf s [] of (_, s) \<Rightarrow>
         if s \<noteq> length buf then Inl ''syntax'' else Inr (c, nulterminate c buf))"

end
