(* ===== verification/Sh_Props.thy ===== *)
theory Sh_Props
  imports Sh
begin

text \<open>
  The parser of the shell against the syntax it accepts: the tokens of a command line, the tokens
  that spell a command (\<open>toks\<close>, with parentheses where the grammar needs them), and the two
  results: every word of a parsed command is delimited and terminated correctly, and a command
  line that spells a command parses to it.
\<close>

section \<open>The tokens of a command line\<close>

datatype 'w token = Word 'w | Sym "8 word"

function tokens :: "line \<Rightarrow> nat \<Rightarrow> span token list" where
  "tokens buf s =
     (case gettoken buf s of (tok, sp, s') \<Rightarrow>
        if tok = 0 then [] else (if tok = 0x61 then Word sp else Sym tok) # tokens buf s')"
  by pat_completeness auto
termination
  by (relation "measure (\<lambda>(buf, s). length buf - s)")
    (auto intro!: diff_less_mono2 dest: gettoken_ge(2,3) [OF sym])

declare tokens.simps [simp del]

lemma gettoken_skip [simp]: "gettoken buf (skip is_ws buf s) = gettoken buf s"
  by (simp add: gettoken_def Let_def)

lemma tokens_skip [simp]: "tokens buf (skip is_ws buf s) = tokens buf s"
  by (subst (1 2) tokens.simps) simp

lemma peek_tokens: "peek buf s toks = (b, s') \<Longrightarrow> tokens buf s' = tokens buf s"
  by (auto simp: peek_def Let_def)

lemma gettoken_tokens:
  assumes "gettoken buf s = (tok, sp, s')"
  shows "tokens buf s = (if tok = 0 then [] else (if tok = 0x61 then Word sp else Sym tok) # tokens buf s')"
  using assms by (subst tokens.simps) simp

text \<open>The first byte of the next token, 0 at the end of the line.\<close>

definition first_sym :: "'w token list \<Rightarrow> 8 word" where
  "first_sym ts = (case ts of Sym c # _ \<Rightarrow> if c = 0x2B then 0x3E else c | _ \<Rightarrow> 0)"

lemma first_sym_simps [simp]:
  "first_sym [] = 0" "first_sym (Word w # ts) = 0"
  "first_sym (Sym c # ts) = (if c = 0x2B then 0x3E else c)"
  by (simp_all add: first_sym_def)

lemma gettoken_first:
  assumes "gettoken buf s = (tok, sp, s')" and "c \<in> set symbols"
  shows "at buf (skip is_ws buf s) = c \<longleftrightarrow> tok \<noteq> 0 \<and> tok \<noteq> 0x61 \<and> (if tok = 0x2B then 0x3E else tok) = c"
  using assms by (auto simp: gettoken_def Let_def symbols_def split: if_splits)

lemma peek_first:
  assumes "set toks \<subseteq> set symbols" and "peek buf s toks = (b, s')"
  shows "b \<longleftrightarrow> first_sym (tokens buf s) \<in> set toks"
proof -
  obtain tok sp s2 where g: "gettoken buf s = (tok, sp, s2)" by (metis prod_cases3)
  have z: "0 \<notin> set symbols" by (simp add: symbols_def)
  have "b \<longleftrightarrow> (\<exists>c\<in>set toks. at buf (skip is_ws buf s) = c)"
    using assms z by (auto simp: peek_def Let_def)
  also have "\<dots> \<longleftrightarrow> first_sym (tokens buf s) \<in> set toks"
    using gettoken_first [OF g] gettoken_tokens [OF g] assms(1) z by (auto simp: subset_iff)
  finally show ?thesis .
qed

lemma peek_no:
  "set toks \<subseteq> set symbols \<Longrightarrow> first_sym (tokens buf s) \<notin> set toks \<Longrightarrow>
   peek buf s toks = (False, skip is_ws buf s)"
  using peek_first [of toks buf s] by (cases "peek buf s toks") (auto simp: peek_def Let_def)

lemma peek_yes:
  "set toks \<subseteq> set symbols \<Longrightarrow> first_sym (tokens buf s) \<in> set toks \<Longrightarrow>
   peek buf s toks = (True, skip is_ws buf s)"
  using peek_first [of toks buf s] by (cases "peek buf s toks") (auto simp: peek_def Let_def)

lemma next_token:
  "tokens buf s = Word sp # ts \<Longrightarrow> \<exists>s'. gettoken buf s = (0x61, sp, s') \<and> tokens buf s' = ts"
  "tokens buf s = Sym c # ts \<Longrightarrow> \<exists>sp s'. gettoken buf s = (c, sp, s') \<and> c \<noteq> 0 \<and> c \<noteq> 0x61 \<and> tokens buf s' = ts"
  "tokens buf s = [] \<Longrightarrow> \<exists>sp s'. gettoken buf s = (0, sp, s')"
  by (cases "gettoken buf s"; force simp: gettoken_tokens split: if_splits)+

lemma gettoken_end:
  "gettoken buf s = (0, sp, s') \<Longrightarrow> tokens buf s' = []"
proof -
  assume g: "gettoken buf s = (0, sp, s')"
  obtain q eq where sp: "sp = (q, eq)" by force
  note c = gettoken_cases [OF g [unfolded sp]]
  have "at buf q = 0" "s' = skip is_ws buf q" using c(2,3) by auto
  moreover have "skip is_ws buf q = q" using c(1) by simp
  ultimately show ?thesis by (subst tokens.simps) (simp add: gettoken_def)
qed

section \<open>Commands as tokens\<close>

definition redir_sym :: "u32 \<Rightarrow> int \<Rightarrow> 8 word" where
  "redir_sym mode fd =
     (if fd = 0 then 0x3C else if mode = O_WRONLY OR O_CREATE OR O_TRUNC then 0x3E else 0x2B)"

definition redir_toks :: "'w redir list \<Rightarrow> 'w token list" where
  "redir_toks rs = concat (map (\<lambda>(f, mode, fd). [Sym (redir_sym mode fd), Word f]) rs)"

definition redir_ok :: "'w redir \<Rightarrow> bool" where
  "redir_ok r \<longleftrightarrow> snd r \<in> {(O_RDONLY, 0), (O_WRONLY OR O_CREATE OR O_TRUNC, 1), (O_WRONLY OR O_CREATE, 1)}"

definition par :: "bool \<Rightarrow> 'w token list \<Rightarrow> 'w token list" where
  "par b ts = (if b then Sym 0x28 # ts @ [Sym 0x29] else ts)"

text \<open>
  The levels of the grammar: 0 a line, 1 a pipeline in the background, 2 a pipeline, 3 a command
  with its redirections.
\<close>

primrec toks :: "nat \<Rightarrow> 'w cmd \<Rightarrow> 'w token list" where
  "toks l (EXEC args) = map Word args"
| "toks l (REDIR c f mode fd) = toks 3 c @ [Sym (redir_sym mode fd), Word f]"
| "toks l (PIPE a b) = par (3 \<le> l) (toks 3 a @ Sym 0x7C # toks 2 b)"
| "toks l (BACK c) = par (2 \<le> l) (toks 1 c @ [Sym 0x26])"
| "toks l (LIST a b) = par (1 \<le> l) (toks 1 a @ Sym 0x3B # toks 0 b)"

primrec cmd_ok :: "'w cmd \<Rightarrow> bool" where
  "cmd_ok (EXEC args) \<longleftrightarrow> length args < MAXARGS"
| "cmd_ok (REDIR c f mode fd) \<longleftrightarrow> cmd_ok c \<and> redir_ok (f, mode, fd)"
| "cmd_ok (PIPE a b) \<longleftrightarrow> cmd_ok a \<and> cmd_ok b"
| "cmd_ok (BACK c) \<longleftrightarrow> cmd_ok c"
| "cmd_ok (LIST a b) \<longleftrightarrow> cmd_ok a \<and> cmd_ok b"

lemma redirs_redir_sym: "redir_ok (f, mode, fd) \<Longrightarrow> redirs (redir_sym mode fd) f = [(f, mode, fd)]"
  by (auto simp: redir_ok_def redirs_def redir_sym_def O_WRONLY_def O_CREATE_def O_TRUNC_def)

lemma first_redir_sym: "(if redir_sym mode fd = 0x2B then 0x3E else redir_sym mode fd) \<in> {0x3C, 0x3E}"
  by (auto simp: redir_sym_def)

lemma redir_toks_simps [simp]:
  "redir_toks [] = []"
  "redir_toks ((f, mode, fd) # rs) = Sym (redir_sym mode fd) # Word f # redir_toks rs"
  by (simp_all add: redir_toks_def)

lemma first_redir_toks:
  "first_sym (redir_toks rs @ rest) \<in> (if rs = [] then {first_sym rest} else {0x3C, 0x3E})"
  by (cases rs) (auto simp: redir_sym_def split: if_splits)

section \<open>A line that spells a command parses to it\<close>

lemma symbols_list: "set symbols = {0x3C, 0x7C, 0x3E, 0x26, 0x3B, 0x28, 0x29}"
  by (simp add: symbols_def)

lemma parseredirs_toks:
  assumes "first_sym rest \<notin> {0x3C, 0x3E}"
  shows "tokens buf s = redir_toks rs @ rest \<Longrightarrow> \<forall>r\<in>set rs. redir_ok r \<Longrightarrow>
    \<exists>s'. parseredirs buf acc s = Inr (acc @ rs, s') \<and> tokens buf s' = rest"
proof (induction rs arbitrary: acc s)
  case Nil
  have "peek buf s [0x3C, 0x3E] = (False, skip is_ws buf s)"
    by (rule peek_no) (use assms Nil in \<open>auto simp: symbols_list\<close>)
  then show ?case using Nil by (subst parseredirs.simps) simp
next
  case (Cons r rs)
  obtain f mode fd where r: "r = (f, mode, fd)" by (metis prod_cases3)
  have "peek buf s [0x3C, 0x3E] = (True, skip is_ws buf s)"
    by (rule peek_yes) (use Cons.prems first_redir_sym [of mode fd] in \<open>auto simp: symbols_list r\<close>)
  moreover obtain sp s1 where "gettoken buf s = (redir_sym mode fd, sp, s1)"
      "tokens buf s1 = Word f # redir_toks rs @ rest"
    using next_token(2) [of buf s] Cons.prems(1) by (auto simp: r)
  moreover from this(2) obtain s2 where "gettoken buf s1 = (0x61, f, s2)" "tokens buf s2 = redir_toks rs @ rest"
    using next_token(1) by blast
  moreover from this(2) obtain s' where "parseredirs buf (acc @ [r]) s2 = Inr ((acc @ [r]) @ rs, s')"
      "tokens buf s' = rest"
    using Cons.IH Cons.prems(2) by (metis list.set_intros(2))
  ultimately show ?case using Cons.prems(2)
    by (subst parseredirs.simps) (auto simp: r redirs_redir_sym)
qed

text \<open>The tokens that may follow a command with its redirections.\<close>

abbreviation ends_exec :: "'w token list \<Rightarrow> bool" where
  "ends_exec rest \<equiv> rest = [] \<or> first_sym rest \<in> {0x7C, 0x29, 0x26, 0x3B}"

lemma parseargs_toks:
  assumes e: "ends_exec rest" and "\<forall>r\<in>set rs. redir_ok r"
  shows "tokens buf s = map Word args @ (if args = [] then [] else redir_toks rs) @ rest \<Longrightarrow>
    length acc + length args < MAXARGS \<Longrightarrow>
    \<exists>s'. parseargs buf acc rs0 s = Inr ((acc @ args, rs0 @ (if args = [] then [] else rs)), s') \<and> tokens buf s' = rest"
proof (induction args arbitrary: acc rs0 s)
  case Nil
  show ?case
  proof (cases "rest = []")
    case True
    then have t: "tokens buf s = []" using Nil by simp
    have "peek buf s [0x7C, 0x29, 0x26, 0x3B] = (False, skip is_ws buf s)"
      by (rule peek_no) (auto simp: symbols_list t)
    moreover obtain sp s' where "gettoken buf s = (0, sp, s')" "tokens buf s' = []"
      using next_token(3) [OF t] gettoken_end [of buf s] by metis
    ultimately show ?thesis using True by (subst parseargs.simps) simp
  next
    case False
    have "peek buf s [0x7C, 0x29, 0x26, 0x3B] = (True, skip is_ws buf s)"
      by (rule peek_yes) (use Nil False e in \<open>auto simp: symbols_list\<close>)
    then show ?thesis using Nil by (subst parseargs.simps) simp
  qed
next
  case (Cons a args)
  let ?rs = "if args = [] then rs else []"
  have t: "tokens buf s = Word a # map Word args @ redir_toks rs @ rest" using Cons.prems(1) by simp
  have "peek buf s [0x7C, 0x29, 0x26, 0x3B] = (False, skip is_ws buf s)"
    by (rule peek_no) (auto simp: symbols_list t)
  moreover obtain s1 where "gettoken buf s = (0x61, a, s1)" and t1: "tokens buf s1 = map Word args @ redir_toks rs @ rest"
    using next_token(1) [OF t] by blast
  moreover obtain s2 where "parseredirs buf rs0 s1 = Inr (rs0 @ ?rs, s2)"
      and t2: "tokens buf s2 = map Word args @ (if args = [] then [] else redir_toks rs) @ rest"
  proof (cases args)
    case Nil
    then show ?thesis using parseredirs_toks [of rest buf s1 rs rs0] t1 e assms(2) that by auto
  next
    case (Cons b args')
    then show ?thesis using parseredirs_toks [of "tokens buf s1" buf s1 "[]" rs0] t1 that by auto
  qed
  moreover obtain s' where "parseargs buf (acc @ [a]) (rs0 @ ?rs) s2 =
      Inr (((acc @ [a]) @ args, (rs0 @ ?rs) @ (if args = [] then [] else rs)), s')" "tokens buf s' = rest"
    using Cons.IH [OF t2, of "acc @ [a]" "rs0 @ ?rs"] Cons.prems(2) by auto
  ultimately show ?case using Cons.prems(2)
    by (subst parseargs.simps) auto
qed

text \<open>What each level of the descent does on the tokens of a command.\<close>

definition exec_good :: "line \<Rightarrow> span cmd \<Rightarrow> bool" where
  "exec_good buf c \<longleftrightarrow> (\<forall>s rs rest. tokens buf s = toks 3 c @ redir_toks rs @ rest \<longrightarrow>
     (\<forall>r\<in>set rs. redir_ok r) \<longrightarrow> ends_exec rest \<longrightarrow>
     (\<exists>s'. parseexec buf s = Inr (wrap c rs, s') \<and> tokens buf s' = rest))"

definition pipe_good :: "line \<Rightarrow> span cmd \<Rightarrow> bool" where
  "pipe_good buf c \<longleftrightarrow> (\<forall>s rest. tokens buf s = toks 2 c @ rest \<longrightarrow>
     rest = [] \<or> first_sym rest \<in> {0x29, 0x26, 0x3B} \<longrightarrow>
     (\<exists>s'. parsepipe buf s = Inr (c, s') \<and> tokens buf s' = rest))"

definition back_good :: "line \<Rightarrow> span cmd \<Rightarrow> bool" where
  "back_good buf c \<longleftrightarrow> (\<forall>s rest. tokens buf s = toks 1 c @ rest \<longrightarrow>
     rest = [] \<or> first_sym rest \<in> {0x29, 0x26, 0x3B} \<longrightarrow>
     (\<exists>c0 s0 s'. parsepipe buf s = Inr (c0, s0) \<and> parsebacks buf c0 s0 = parsebacks buf c s' \<and>
        tokens buf s' = rest))"

definition line_good :: "line \<Rightarrow> span cmd \<Rightarrow> bool" where
  "line_good buf c \<longleftrightarrow> (\<forall>s rest. tokens buf s = toks 0 c @ rest \<longrightarrow>
     rest = [] \<or> first_sym rest = 0x29 \<longrightarrow>
     (\<exists>s'. parseline buf s = Inr (c, s') \<and> tokens buf s' = rest))"

lemma wrap_simps [simp]:
  "wrap c [] = c" "wrap c ((f, mode, fd) # rs) = wrap (REDIR c f mode fd) rs"
  by (simp_all add: wrap_def)

lemma exec_good_EXEC: "length args < MAXARGS \<Longrightarrow> exec_good buf (EXEC args)"
  unfolding exec_good_def
proof (intro allI impI)
  fix s rs rest
  assume l: "length args < MAXARGS" and t: "tokens buf s = toks 3 (EXEC args) @ redir_toks rs @ rest"
    and ok: "\<forall>r\<in>set rs. redir_ok r" and e: "ends_exec rest"
  let ?r1 = "if args = [] then rs else []" let ?r2 = "if args = [] then [] else rs"
  have "first_sym (tokens buf s) \<notin> {0x28}"
    using t e first_redir_toks [of rs rest] by (cases args) (auto split: if_splits)
  then have p: "peek buf s [0x28] = (False, skip is_ws buf s)"
    by (intro peek_no) (auto simp: symbols_list)
  obtain s1 where r: "parseredirs buf [] (skip is_ws buf s) = Inr (?r1, s1)"
      and t1: "tokens buf s1 = map Word args @ (if args = [] then [] else redir_toks rs) @ rest"
  proof (cases args)
    case Nil
    then show ?thesis using parseredirs_toks [of rest buf "skip is_ws buf s" rs "[]"] t e ok that by auto
  next
    case (Cons b args')
    then show ?thesis using parseredirs_toks [of "tokens buf s" buf "skip is_ws buf s" "[]" "[]"] t that by auto
  qed
  obtain s' where "parseargs buf [] ?r1 s1 = Inr ((args, ?r1 @ ?r2), s')" "tokens buf s' = rest"
    using parseargs_toks [OF e ok t1, of "[]" ?r1] l by auto
  then show "\<exists>s'. parseexec buf s = Inr (wrap (EXEC args) rs, s') \<and> tokens buf s' = rest"
    using p r by (subst parseexec.simps) auto
qed

lemma exec_good_REDIR:
  assumes "exec_good buf c" "redir_ok (f, mode, fd)"
  shows "exec_good buf (REDIR c f mode fd)"
  unfolding exec_good_def
proof (intro allI impI)
  fix s rs rest
  assume "tokens buf s = toks 3 (REDIR c f mode fd) @ redir_toks rs @ rest"
    and "\<forall>r\<in>set rs. redir_ok r" and "ends_exec rest"
  then show "\<exists>s'. parseexec buf s = Inr (wrap (REDIR c f mode fd) rs, s') \<and> tokens buf s' = rest"
    using assms(1) [unfolded exec_good_def, THEN spec [of _ s], THEN spec [of _ "(f, mode, fd) # rs"],
        THEN spec [of _ rest]] assms(2) by auto
qed

lemma exec_good_block:
  assumes l: "line_good buf c" and t3: "toks 3 c = par True (toks 0 c)"
  shows "exec_good buf c"
  unfolding exec_good_def
proof (intro allI impI)
  fix s rs rest
  assume t: "tokens buf s = toks 3 c @ redir_toks rs @ rest"
    and ok: "\<forall>r\<in>set rs. redir_ok r" and e: "ends_exec rest"
  let ?s = "skip is_ws buf s"
  have t0: "tokens buf s = Sym 0x28 # toks 0 c @ Sym 0x29 # redir_toks rs @ rest"
    by (simp add: t t3 par_def)
  have p: "peek buf s [0x28] = (True, ?s)" "peek buf ?s [0x28] = (True, ?s)"
    by (subst peek_yes; simp add: symbols_list t0)+
  obtain sp s1 where g: "gettoken buf s = (0x28, sp, s1)"
      and t1: "tokens buf s1 = toks 0 c @ Sym 0x29 # redir_toks rs @ rest"
    using next_token(2) [OF t0] by blast
  obtain s2 where pl: "parseline buf s1 = Inr (c, s2)" and t2: "tokens buf s2 = Sym 0x29 # redir_toks rs @ rest"
    using l t1 unfolding line_good_def by fastforce
  have p2: "peek buf s2 [0x29] = (True, skip is_ws buf s2)"
    by (rule peek_yes) (simp_all add: symbols_list t2)
  obtain sp3 s3 where g3: "gettoken buf s2 = (0x29, sp3, s3)" and t3: "tokens buf s3 = redir_toks rs @ rest"
    using next_token(2) [OF t2] by blast
  obtain s' where "parseredirs buf [] s3 = Inr (rs, s')" "tokens buf s' = rest"
    using parseredirs_toks [OF _ t3 ok, of "[]"] e by auto
  then show "\<exists>s'. parseexec buf s = Inr (wrap c rs, s') \<and> tokens buf s' = rest"
    using p g pl p2 g3 by (subst parseexec.simps) (simp add: parseblock.simps [of buf ?s])
qed

lemma pipe_good_exec:
  assumes g: "exec_good buf c" and t2: "toks 2 c = toks 3 c"
  shows "pipe_good buf c"
  unfolding pipe_good_def
proof (intro allI impI)
  fix s rest
  assume t: "tokens buf s = toks 2 c @ rest" and e: "rest = [] \<or> first_sym rest \<in> {0x29, 0x26, 0x3B}"
  then obtain s' where x: "parseexec buf s = Inr (c, s')" "tokens buf s' = rest"
    using g [unfolded exec_good_def, rule_format, of s "[]" rest] t2 by auto
  have "peek buf s' [0x7C] = (False, skip is_ws buf s')"
    by (rule peek_no) (use e x in \<open>auto simp: symbols_list\<close>)
  then show "\<exists>s'. parsepipe buf s = Inr (c, s') \<and> tokens buf s' = rest"
    using x by (subst parsepipe.simps) simp
qed

lemma pipe_good_PIPE:
  assumes ga: "exec_good buf a" and gb: "pipe_good buf b"
  shows "pipe_good buf (PIPE a b)"
  unfolding pipe_good_def
proof (intro allI impI)
  fix s rest
  assume t: "tokens buf s = toks 2 (PIPE a b) @ rest" and e: "rest = [] \<or> first_sym rest \<in> {0x29, 0x26, 0x3B}"
  then obtain s1 where x: "parseexec buf s = Inr (a, s1)" "tokens buf s1 = Sym 0x7C # toks 2 b @ rest"
    using ga [unfolded exec_good_def, rule_format, of s "[]" "Sym 0x7C # toks 2 b @ rest"] by (auto simp: par_def)
  have p: "peek buf s1 [0x7C] = (True, skip is_ws buf s1)"
    by (rule peek_yes) (simp_all add: symbols_list x)
  obtain sp s2 where g: "gettoken buf s1 = (0x7C, sp, s2)" "tokens buf s2 = toks 2 b @ rest"
    using next_token(2) [OF x(2)] by blast
  obtain s' where "parsepipe buf s2 = Inr (b, s')" "tokens buf s' = rest"
    using gb g(2) e unfolding pipe_good_def by blast
  then show "\<exists>s'. parsepipe buf s = Inr (PIPE a b, s') \<and> tokens buf s' = rest"
    using x p g by (subst parsepipe.simps) simp
qed

lemma back_good_pipe: "pipe_good buf c \<Longrightarrow> toks 1 c = toks 2 c \<Longrightarrow> back_good buf c"
  unfolding pipe_good_def back_good_def by metis

lemma back_good_BACK:
  assumes g: "back_good buf c"
  shows "back_good buf (BACK c)"
  unfolding back_good_def
proof (intro allI impI)
  fix s rest
  assume t: "tokens buf s = toks 1 (BACK c) @ rest" and e: "rest = [] \<or> first_sym rest \<in> {0x29, 0x26, 0x3B}"
  then obtain c0 s0 s1 where x: "parsepipe buf s = Inr (c0, s0)" "parsebacks buf c0 s0 = parsebacks buf c s1"
      "tokens buf s1 = Sym 0x26 # rest"
    using g [unfolded back_good_def, rule_format, of s "Sym 0x26 # rest"] by (auto simp: par_def)
  have p: "peek buf s1 [0x26] = (True, skip is_ws buf s1)"
    by (rule peek_yes) (simp_all add: symbols_list x)
  obtain sp s2 where g: "gettoken buf s1 = (0x26, sp, s2)" "tokens buf s2 = rest"
    using next_token(2) [OF x(3)] by blast
  have "parsebacks buf c s1 = parsebacks buf (BACK c) s2"
    by (subst parsebacks.simps) (simp add: p g)
  then show "\<exists>c0 s0 s'. parsepipe buf s = Inr (c0, s0) \<and>
      parsebacks buf c0 s0 = parsebacks buf (BACK c) s' \<and> tokens buf s' = rest"
    using x g by metis
qed

text \<open>The beginning of \<open>parseline\<close>, up to the semicolon.\<close>

lemma parseline_back:
  assumes g: "back_good buf c" and t: "tokens buf s = toks 1 c @ rest"
    and e: "rest = [] \<or> first_sym rest \<in> {0x29, 0x3B}"
  shows "\<exists>c0 s0 s1. parsepipe buf s = Inr (c0, s0) \<and> parsebacks buf c0 s0 = (c, s1) \<and> tokens buf s1 = rest"
proof -
  obtain c0 s0 s1 where x: "parsepipe buf s = Inr (c0, s0)" "parsebacks buf c0 s0 = parsebacks buf c s1"
      "tokens buf s1 = rest"
    using g [unfolded back_good_def, rule_format, OF t] e by blast
  have "peek buf s1 [0x26] = (False, skip is_ws buf s1)"
    by (rule peek_no) (use e x in \<open>auto simp: symbols_list\<close>)
  then have "parsebacks buf c s1 = (c, skip is_ws buf s1)"
    by (subst parsebacks.simps) simp
  then show ?thesis using x by (metis tokens_skip)
qed

lemma line_good_back:
  assumes g: "back_good buf c" and t0: "toks 0 c = toks 1 c"
  shows "line_good buf c"
  unfolding line_good_def
proof (intro allI impI)
  fix s rest
  assume t: "tokens buf s = toks 0 c @ rest" and e: "rest = [] \<or> first_sym rest = 0x29"
  then obtain c0 s0 s1 where x: "parsepipe buf s = Inr (c0, s0)" "parsebacks buf c0 s0 = (c, s1)" "tokens buf s1 = rest"
    using parseline_back [OF g, of s rest] t0 by auto
  have "peek buf s1 [0x3B] = (False, skip is_ws buf s1)"
    by (rule peek_no) (use e x in \<open>auto simp: symbols_list\<close>)
  then show "\<exists>s'. parseline buf s = Inr (c, s') \<and> tokens buf s' = rest"
    using x by (subst parseline.simps) simp
qed

lemma line_good_LIST:
  assumes ga: "back_good buf a" and gb: "line_good buf b"
  shows "line_good buf (LIST a b)"
  unfolding line_good_def
proof (intro allI impI)
  fix s rest
  assume t: "tokens buf s = toks 0 (LIST a b) @ rest" and e: "rest = [] \<or> first_sym rest = 0x29"
  then obtain c0 s0 s1 where x: "parsepipe buf s = Inr (c0, s0)" "parsebacks buf c0 s0 = (a, s1)"
      "tokens buf s1 = Sym 0x3B # toks 0 b @ rest"
    using parseline_back [OF ga, of s "Sym 0x3B # toks 0 b @ rest"] by (auto simp: par_def)
  have p: "peek buf s1 [0x3B] = (True, skip is_ws buf s1)"
    by (rule peek_yes) (simp_all add: symbols_list x)
  obtain sp s2 where g: "gettoken buf s1 = (0x3B, sp, s2)" "tokens buf s2 = toks 0 b @ rest"
    using next_token(2) [OF x(3)] by blast
  obtain s' where "parseline buf s2 = Inr (b, s')" "tokens buf s' = rest"
    using gb g(2) e unfolding line_good_def by blast
  then show "\<exists>s'. parseline buf s = Inr (LIST a b, s') \<and> tokens buf s' = rest"
    using x p g by (subst parseline.simps) simp
qed

lemma all_good:
  "cmd_ok c \<Longrightarrow> exec_good buf c \<and> pipe_good buf c \<and> back_good buf c \<and> line_good buf c"
proof (induction c)
  case (EXEC args)
  then have "exec_good buf (EXEC args)" by (simp add: exec_good_EXEC)
  then show ?case by (simp add: pipe_good_exec back_good_pipe line_good_back)
next
  case (REDIR c f mode fd)
  then have "exec_good buf (REDIR c f mode fd)" by (simp add: exec_good_REDIR)
  then show ?case by (simp add: pipe_good_exec back_good_pipe line_good_back)
next
  case (PIPE a b)
  then have "pipe_good buf (PIPE a b)" by (simp add: pipe_good_PIPE)
  then have "back_good buf (PIPE a b)" by (rule back_good_pipe) (simp add: par_def)
  moreover from this have "line_good buf (PIPE a b)" by (rule line_good_back) (simp add: par_def)
  moreover from this have "exec_good buf (PIPE a b)" by (rule exec_good_block) (simp add: par_def)
  ultimately show ?case using \<open>pipe_good buf (PIPE a b)\<close> by simp
next
  case (LIST a b)
  then have "line_good buf (LIST a b)" by (simp add: line_good_LIST)
  moreover from this have "exec_good buf (LIST a b)" by (rule exec_good_block) (simp add: par_def)
  moreover from this have "pipe_good buf (LIST a b)" by (rule pipe_good_exec) (simp add: par_def)
  moreover from this have "back_good buf (LIST a b)" by (rule back_good_pipe) (simp add: par_def)
  ultimately show ?case by simp
next
  case (BACK c)
  then have "back_good buf (BACK c)" by (simp add: back_good_BACK)
  moreover from this have "line_good buf (BACK c)" by (rule line_good_back) (simp add: par_def)
  moreover from this have "exec_good buf (BACK c)" by (rule exec_good_block) (simp add: par_def)
  moreover from this have "pipe_good buf (BACK c)" by (rule pipe_good_exec) (simp add: par_def)
  ultimately show ?case by simp
qed

lemma tokens_Nil:
  assumes "0 \<notin> set buf" and "tokens buf s = []" and "s \<le> length buf"
  shows "skip is_ws buf s = length buf"
proof -
  obtain sp s' where g: "gettoken buf s = (0, sp, s')" using next_token(3) [OF assms(2)] by blast
  obtain q eq where sp: "sp = (q, eq)" by force
  have "at buf (skip is_ws buf s) = 0" using gettoken_cases(1,3) [OF g [unfolded sp]] by simp
  then have "\<not> skip is_ws buf s < length buf" using assms(1) by (auto simp: at_def) (metis nth_mem)
  then show ?thesis using skip_le [OF assms(3), of is_ws] by simp
qed

section \<open>Spelling a command out\<close>

text \<open>Every token after a space.\<close>

primrec token_text :: "line token \<Rightarrow> line" where
  "token_text (Word w) = w"
| "token_text (Sym c) = (if c = 0x2B then [0x3E, 0x3E] else [c])"

definition render :: "line token list \<Rightarrow> line" where
  "render ts = concat (map (\<lambda>t. 0x20 # token_text t) ts)"

definition word_ok :: "line \<Rightarrow> bool" where
  "word_ok w \<longleftrightarrow> w \<noteq> [] \<and> (\<forall>c\<in>set w. c \<noteq> 0 \<and> is_plain c)"

primrec token_ok :: "line token \<Rightarrow> bool" where
  "token_ok (Word w) \<longleftrightarrow> word_ok w"
| "token_ok (Sym c) \<longleftrightarrow> c = 0x2B \<or> c \<in> set symbols"

definition word_at :: "line \<Rightarrow> span \<Rightarrow> line" where
  "word_at buf = (\<lambda>(q, eq). take (eq - q) (drop q buf))"

definition command_line :: "line cmd \<Rightarrow> line" where
  "command_line c = render (toks 0 c)"

lemma at_append: "at (pre @ c # rest) (length pre) = c"
  by (simp add: at_def)

lemma skip_run:
  "\<forall>c\<in>set xs. P c \<Longrightarrow> rest = [] \<or> \<not> P (hd rest) \<Longrightarrow>
   skip P (pre @ xs @ rest) (length pre) = length (pre @ xs)"
proof (induction xs arbitrary: pre)
  case Nil
  then show ?case by (cases rest) (auto simp: skip.simps [of P _ "length pre"] at_append)
next
  case (Cons x xs)
  have "skip P ((pre @ [x]) @ xs @ rest) (length (pre @ [x])) = length ((pre @ [x]) @ xs)"
    using Cons.IH [of "pre @ [x]"] Cons.prems by simp
  then show ?case using Cons.prems by (subst skip.simps) (simp add: at_append)
qed

lemma whitespace_list: "set whitespace = {0x20, 0x09, 0x0D, 0x0A, 0x0B}"
  by (simp add: whitespace_def)

lemma render_simps [simp]: "render [] = []" "render (t # ts) = 0x20 # token_text t @ render ts"
  by (simp_all add: render_def)

lemma render_start: "render ts = [] \<or> hd (render ts) = 0x20"
  by (cases ts) auto

lemma token_text_start: "token_ok t \<Longrightarrow> \<exists>c cs. token_text t = c # cs \<and> \<not> is_ws c \<and> c \<noteq> 0"
  by (cases t; cases "token_text t") (auto simp: word_ok_def symbols_list whitespace_list)

lemma skip_space:
  assumes "token_ok t"
  shows "skip is_ws (pre @ render (t # ts)) (length pre) = length (pre @ [0x20])"
proof -
  obtain c cs where c: "token_text t = c # cs" "\<not> is_ws c" using token_text_start [OF assms] by blast
  have "skip is_ws (pre @ [0x20] @ (token_text t @ render ts)) (length pre) = length (pre @ [0x20])"
    by (rule skip_run) (use c in \<open>auto simp: whitespace_list\<close>)
  then show ?thesis by simp
qed

lemma gettoken_render:
  fixes pre :: line
  assumes "token_ok t"
  defines "p \<equiv> length (pre @ [0x20])"
  defines "e \<equiv> p + length (token_text t)"
  shows "gettoken (pre @ render (t # ts)) (length pre) =
    (case t of Word w \<Rightarrow> 0x61 | Sym c \<Rightarrow> c, (p, e), skip is_ws (pre @ render (t # ts)) e)"
proof -
  let ?buf = "pre @ render (t # ts)"
  note q = skip_space [OF assms(1), of pre ts, folded p_def]
  have b: "?buf = (pre @ [0x20]) @ token_text t @ render ts" by simp
  show ?thesis
  proof (cases t)
    case (Word w)
    then obtain c cs where w: "w = c # cs" "is_plain c" "c \<noteq> 0" using assms(1) by (cases w) (auto simp: word_ok_def)
    have a: "at ?buf p = c" unfolding p_def b using at_append [of "pre @ [0x20]"] by (simp add: Word w)
    have s: "skip is_plain ?buf p = e"
      unfolding p_def e_def b
      by (subst skip_run) (use assms(1) render_start [of ts] in \<open>auto simp: Word word_ok_def whitespace_list\<close>)
    show ?thesis using w a s q by (simp add: gettoken_def Let_def Word symbols_list)
  next
    case (Sym c)
    have a: "at ?buf p = hd (token_text t)"
      unfolding p_def b using at_append [of "pre @ [0x20]"] by (simp add: Sym)
    have a2: "at ?buf (Suc p) = (if c = 0x2B then 0x3E else if ts = [] then 0 else 0x20)"
      unfolding p_def by (cases ts) (auto simp: Sym at_def nth_append)
    show ?thesis using assms(1) q a a2
      by (auto simp: gettoken_def Let_def Sym symbols_list e_def split: if_splits)
  qed
qed

lemma tokens_render:
  "\<forall>t\<in>set ts. token_ok t \<Longrightarrow>
   map (map_token (word_at (pre @ render ts))) (tokens (pre @ render ts) (length pre)) = ts"
proof (induction ts arbitrary: pre)
  case Nil
  have "gettoken pre (length pre) = (0, (length pre, length pre), length pre)"
    by (simp add: gettoken_def Let_def skip.simps [of _ pre "length pre"])
  then show ?case by (subst tokens.simps) simp
next
  case (Cons t ts)
  let ?buf = "pre @ render (t # ts)" let ?pre = "pre @ 0x20 # token_text t"
  have b: "?buf = ?pre @ render ts" by simp
  note g = gettoken_render [of t pre ts]
  have IH: "map (map_token (word_at ?buf)) (tokens ?buf (length ?pre)) = ts"
    unfolding b using Cons.IH [of ?pre] Cons.prems by simp
  have w: "word_at ?buf (length (pre @ [0x20]), length (pre @ [0x20]) + length (token_text t)) = token_text t"
    by (simp add: word_at_def)
  have "tokens ?buf (length pre) =
      (case t of Word w \<Rightarrow> Word (length (pre @ [0x20]), length (pre @ [0x20]) + length (token_text t))
       | Sym c \<Rightarrow> Sym c) # tokens ?buf (length ?pre)"
    using gettoken_tokens [OF g] Cons.prems by (auto simp: symbols_list split: token.splits)
  then show ?case using IH w by (cases t) simp_all
qed

text \<open>A command whose tokens are known up to the words.\<close>

lemma map_par: "map (map_token f) ts = par b us \<Longrightarrow> \<exists>vs. ts = par b vs \<and> map (map_token f) vs = us"
proof (cases b)
  case True
  assume "map (map_token f) ts = par b us"
  then obtain x vs y where "ts = x # vs @ [y]" "map_token f x = Sym 0x28" "map_token f y = Sym 0x29"
      "map (map_token f) vs = us"
    using True by (auto simp: par_def map_eq_Cons_conv map_eq_append_conv)
  then show ?thesis using True by (cases x; cases y) (auto simp: par_def)
qed (auto simp: par_def)

lemma map_token_Sym: "map_token f x = Sym c \<longleftrightarrow> x = Sym c" "Sym c = map_token f x \<longleftrightarrow> x = Sym c"
  by (cases x; auto)+

lemma map_Word: "map (map_token f) ts = map Word ws \<Longrightarrow> \<exists>vs. ts = map Word vs \<and> map f vs = ws"
proof (induction ts arbitrary: ws)
  case (Cons t ts)
  then obtain w ws' where w: "ws = w # ws'" by (cases ws) auto
  obtain v where "t = Word v" "f v = w" using Cons.prems w by (cases t) auto
  moreover obtain vs where "ts = map Word vs" "map f vs = ws'" using Cons w by auto
  ultimately have "t # ts = map Word (v # vs) \<and> map f (v # vs) = ws" using w by simp
  then show ?case by (intro exI [of _ "v # vs"])
qed auto

lemma map_toks:
  "map (map_token f) ts = toks l c \<Longrightarrow> \<exists>pc. toks l pc = ts \<and> map_cmd f pc = c"
proof (induction c arbitrary: l ts)
  case (EXEC args)
  then obtain vs where "ts = map Word vs" "map f vs = args" using map_Word [of f ts args] by auto
  then show ?case by (intro exI [of _ "EXEC vs"]) simp
next
  case (REDIR c g mode fd)
  then obtain us v where "ts = us @ [Sym (redir_sym mode fd), Word v]" "map (map_token f) us = toks 3 c" "f v = g"
    by (auto simp: map_eq_append_conv map_eq_Cons_conv map_token_Sym)
      (metis token.exhaust token.inject(1) token.map(1) token.map(2) token.distinct(1))
  moreover from this(2) obtain pc where "toks 3 pc = us" "map_cmd f pc = c" using REDIR.IH by blast
  ultimately show ?case by (intro exI [of _ "REDIR pc v mode fd"]) simp
next
  case (PIPE a b)
  obtain vs where "ts = par (3 \<le> l) vs" "map (map_token f) vs = toks 3 a @ Sym 0x7C # toks 2 b"
    using map_par [of f ts "3 \<le> l"] PIPE.prems by auto
  moreover from this(2) obtain us ws where "vs = us @ Sym 0x7C # ws" "map (map_token f) us = toks 3 a"
      "map (map_token f) ws = toks 2 b"
    by (auto simp: map_eq_append_conv map_eq_Cons_conv map_token_Sym)
  moreover obtain pa pb where "toks 3 pa = us" "map_cmd f pa = a" "toks 2 pb = ws" "map_cmd f pb = b"
    using PIPE.IH calculation(4,5) by blast
  ultimately show ?case by (intro exI [of _ "PIPE pa pb"]) simp
next
  case (LIST a b)
  obtain vs where "ts = par (1 \<le> l) vs" "map (map_token f) vs = toks 1 a @ Sym 0x3B # toks 0 b"
    using map_par [of f ts "1 \<le> l"] LIST.prems by auto
  moreover from this(2) obtain us ws where "vs = us @ Sym 0x3B # ws" "map (map_token f) us = toks 1 a"
      "map (map_token f) ws = toks 0 b"
    by (auto simp: map_eq_append_conv map_eq_Cons_conv map_token_Sym)
  moreover obtain pa pb where "toks 1 pa = us" "map_cmd f pa = a" "toks 0 pb = ws" "map_cmd f pb = b"
    using LIST.IH calculation(4,5) by blast
  ultimately show ?case by (intro exI [of _ "LIST pa pb"]) simp
next
  case (BACK c)
  obtain vs where "ts = par (2 \<le> l) vs" "map (map_token f) vs = toks 1 c @ [Sym 0x26]"
    using map_par [of f ts "2 \<le> l"] BACK.prems by auto
  moreover from this(2) obtain us where "vs = us @ [Sym 0x26]" "map (map_token f) us = toks 1 c"
    by (auto simp: map_eq_append_conv map_eq_Cons_conv map_token_Sym)
  moreover obtain pc where "toks 1 pc = us" "map_cmd f pc = c" using BACK.IH calculation(4) by blast
  ultimately show ?case by (intro exI [of _ "BACK pc"]) simp
qed

lemma cmd_ok_map [simp]: "cmd_ok (map_cmd f c) = cmd_ok c"
  by (induction c) (auto simp: redir_ok_def)

section \<open>Words are delimited and terminated\<close>

text \<open>A span holds plain bytes and ends where no plain byte follows.\<close>

definition good_span :: "line \<Rightarrow> span \<Rightarrow> bool" where
  "good_span buf = (\<lambda>(q, eq). q < eq \<and> eq \<le> length buf \<and>
     (\<forall>i. q \<le> i \<longrightarrow> i < eq \<longrightarrow> is_plain (buf ! i)) \<and> (eq < length buf \<longrightarrow> \<not> is_plain (buf ! eq)))"

lemma skip_range: "s \<le> i \<Longrightarrow> i < skip P buf s \<Longrightarrow> i < length buf \<and> P (at buf i)"
proof (induction P buf s rule: skip.induct)
  case (1 P buf s)
  then show ?case
    by (cases "i = s") (auto simp: skip.simps [of P buf s] split: if_splits)
qed

lemma gettoken_word:
  assumes "gettoken buf s = (0x61, sp, s')"
  shows "good_span buf sp"
proof -
  obtain q eq where sp: "sp = (q, eq)" by force
  note g = gettoken_cases [OF assms [unfolded sp]]
  have q: "at buf q \<noteq> 0" "q < eq" using g(4) by auto
  have e: "eq = skip is_plain buf q"
    using assms q(1) by (auto simp: sp gettoken_def Let_def split: if_splits)
  have "eq \<le> length buf" unfolding e by (rule skip_le) (use at_nonzero [OF q(1)] in simp)
  moreover have "is_plain (buf ! i)" if "q \<le> i" "i < eq" for i
    using skip_range [where P = is_plain, of q i buf] that e by (simp add: at_def split: if_splits)
  moreover have "\<not> is_plain (buf ! eq)" if "eq < length buf"
    using skip_stop [of is_plain buf q] that e by (auto simp: at_def)
  ultimately show ?thesis using q(2) by (auto simp: good_span_def sp)
qed

definition redirs_good :: "line \<Rightarrow> span redir list \<Rightarrow> bool" where
  "redirs_good buf rs \<longleftrightarrow> (\<forall>r\<in>set rs. good_span buf (fst r))"

definition spans_good :: "line \<Rightarrow> span cmd \<Rightarrow> bool" where
  "spans_good buf c \<longleftrightarrow> (\<forall>sp\<in>set_cmd c. good_span buf sp)"

lemma spans_good_simps [simp]:
  "spans_good buf (EXEC args) \<longleftrightarrow> (\<forall>sp\<in>set args. good_span buf sp)"
  "spans_good buf (REDIR c f mode fd) \<longleftrightarrow> spans_good buf c \<and> good_span buf f"
  "spans_good buf (PIPE a b) \<longleftrightarrow> spans_good buf a \<and> spans_good buf b"
  "spans_good buf (LIST a b) \<longleftrightarrow> spans_good buf a \<and> spans_good buf b"
  "spans_good buf (BACK c) \<longleftrightarrow> spans_good buf c"
  by (auto simp: spans_good_def)

lemma spans_good_wrap: "spans_good buf (wrap c rs) \<longleftrightarrow> spans_good buf c \<and> redirs_good buf rs"
  by (induction rs arbitrary: c) (force simp: redirs_good_def)+

lemma peek_le: "peek buf s ts = (b, s') \<Longrightarrow> s \<le> length buf \<Longrightarrow> s' \<le> length buf"
  by (auto simp: peek_def Let_def intro: skip_le)

lemma gettoken_le:
  assumes "gettoken buf s = (tok, sp, s')" and s: "s \<le> length buf"
  shows "s' \<le> length buf"
proof -
  let ?q = "skip is_ws buf s"
  have "?q \<le> length buf" by (rule skip_le [OF s])
  moreover have "skip is_plain buf ?q \<le> length buf" by (intro skip_le s)
  moreover have "at buf ?q \<noteq> 0 \<Longrightarrow> Suc ?q \<le> length buf"
    using at_nonzero by (metis Suc_leI)
  moreover have "at buf (Suc ?q) \<noteq> 0 \<Longrightarrow> Suc (Suc ?q) \<le> length buf"
    using at_nonzero by (metis Suc_leI)
  ultimately show ?thesis using assms(1)
    by (auto simp: gettoken_def Let_def split: if_splits intro!: skip_le)
qed

lemma parseredirs_good:
  "parseredirs buf rs s = Inr (rs', s') \<Longrightarrow> redirs_good buf rs \<Longrightarrow>
   redirs_good buf rs' \<and> (s \<le> length buf \<longrightarrow> s' \<le> length buf)"
proof (induction buf rs s rule: parseredirs.induct)
  case (1 buf rs s)
  obtain b s1 where p: "peek buf s [0x3C, 0x3E] = (b, s1)" by force
  obtain tok sp s2 where g: "gettoken buf s1 = (tok, sp, s2)" by (metis prod_cases3)
  obtain tok2 f s3 where h: "gettoken buf s2 = (tok2, f, s3)" by (metis prod_cases3)
  have le: "s \<le> length buf \<longrightarrow> s1 \<le> length buf \<and> s3 \<le> length buf"
    using peek_le [OF p] gettoken_le [OF g] gettoken_le [OF h] by auto
  show ?case
  proof (cases "b \<and> tok2 = 0x61")
    case True
    then have "redirs_good buf (rs @ redirs tok f)"
      using 1(3) gettoken_word h by (auto simp: redirs_good_def redirs_def)
    then show ?thesis using 1 p g h True le
      by (subst (asm) (2) parseredirs.simps) (auto split: prod.splits if_splits)
  next
    case False
    then show ?thesis using 1(2,3) p g h le
      by (subst (asm) parseredirs.simps) (auto split: if_splits)
  qed
qed

lemma parseargs_good:
  "parseargs buf args rs s = Inr ((args', rs'), s') \<Longrightarrow> \<forall>a\<in>set args. good_span buf a \<Longrightarrow>
   redirs_good buf rs \<Longrightarrow>
   (\<forall>a\<in>set args'. good_span buf a) \<and> redirs_good buf rs' \<and> (s \<le> length buf \<longrightarrow> s' \<le> length buf)"
proof (induction buf args rs s rule: parseargs.induct)
  case (1 buf args rs s)
  obtain b s1 where p: "peek buf s [0x7C, 0x29, 0x26, 0x3B] = (b, s1)" by force
  obtain tok a s2 where g: "gettoken buf s1 = (tok, a, s2)" by (metis prod_cases3)
  have le: "s \<le> length buf \<longrightarrow> s1 \<le> length buf \<and> s2 \<le> length buf"
    using peek_le [OF p] gettoken_le [OF g] by auto
  show ?case
  proof (cases "\<not> b \<and> tok = 0x61 \<and> length (args @ [a]) < MAXARGS")
    case True
    then obtain rs3 s3 where r: "parseredirs buf rs s2 = Inr (rs3, s3)"
        "parseargs buf (args @ [a]) rs3 s3 = Inr ((args', rs'), s')"
      using 1(2) p g by (subst (asm) (2) parseargs.simps) (auto simp: rbind_Inr Let_def)
    have "redirs_good buf rs3" "good_span buf a" "s2 \<le> length buf \<longrightarrow> s3 \<le> length buf"
      using parseredirs_good [OF r(1) 1(4)] gettoken_word g True by auto
    then show ?thesis using 1(1) [OF p [symmetric] _ g [symmetric] refl, of "args @ [a]"] r True 1(3) le by auto
  next
    case False
    then show ?thesis using 1(2-) p g le
      by (subst (asm) parseargs.simps) (auto simp: Let_def split: if_splits)
  qed
qed

lemma parsebacks_good: "parsebacks buf c s = (c', s') \<Longrightarrow> spans_good buf c \<Longrightarrow>
   spans_good buf c' \<and> (s \<le> length buf \<longrightarrow> s' \<le> length buf)"
proof (induction buf c s rule: parsebacks.induct)
  case (1 buf c s)
  obtain b s1 where p: "peek buf s [0x26] = (b, s1)" by force
  obtain tok a s2 where g: "gettoken buf s1 = (tok, a, s2)" by (metis prod_cases3)
  have "s \<le> length buf \<longrightarrow> s1 \<le> length buf \<and> s2 \<le> length buf"
    using peek_le [OF p] gettoken_le [OF g] by auto
  then show ?case using 1 p g
    by (subst (asm) (2) parsebacks.simps) (cases b; auto)
qed

lemma parse_good:
  "parseline buf1 s1 = Inr (c1, t1) \<Longrightarrow> spans_good buf1 c1 \<and> (s1 \<le> length buf1 \<longrightarrow> t1 \<le> length buf1)"
  "parsepipe buf2 s2 = Inr (c2, t2) \<Longrightarrow> spans_good buf2 c2 \<and> (s2 \<le> length buf2 \<longrightarrow> t2 \<le> length buf2)"
  "parseexec buf3 s3 = Inr (c3, t3) \<Longrightarrow> spans_good buf3 c3 \<and> (s3 \<le> length buf3 \<longrightarrow> t3 \<le> length buf3)"
  "parseblock buf4 s4 = Inr (c4, t4) \<Longrightarrow> spans_good buf4 c4 \<and> (s4 \<le> length buf4 \<longrightarrow> t4 \<le> length buf4)"
proof (induction buf1 s1 and buf2 s2 and buf3 s3 and buf4 s4 arbitrary: c1 t1 and c2 t2 and c3 t3 and c4 t4
    rule: parseline_parsepipe_parseexec_parseblock.induct)
  case (1 buf s)
  from 1(3) obtain c sa where p: "parsepipe buf s = Inr (c, sa)"
    unfolding parseline.simps [of buf s] rbind_Inr by force
  obtain cb sb where q: "parsebacks buf c sa = (cb, sb)" by force
  obtain b sc where r: "peek buf sb [0x3B] = (b, sc)" by force
  obtain tok sp sd where g: "gettoken buf sc = (tok, sp, sd)" by (metis prod_cases3)
  have cb: "spans_good buf cb" "s \<le> length buf \<longrightarrow> sc \<le> length buf \<and> sd \<le> length buf"
    using 1(1) [OF p] parsebacks_good [OF q] peek_le [OF r] gettoken_le [OF g] by auto
  show ?case
  proof (cases b)
    case True
    have "\<And>c t. parseline buf sd = Inr (c, t) \<Longrightarrow>
        spans_good buf c \<and> (sd \<le> length buf \<longrightarrow> t \<le> length buf)"
      using 1(2) [OF p refl q [symmetric] r [symmetric] True g [symmetric] refl] .
    then show ?thesis using 1(3) p q r g cb True by (auto simp: parseline.simps [of buf s] rbind_Inr)
  next
    case False
    then show ?thesis using 1(3) p q r cb by (simp add: parseline.simps [of buf s])
  qed
next
  case (2 buf s)
  from 2(3) obtain c sa where p: "parseexec buf s = Inr (c, sa)"
    unfolding parsepipe.simps [of buf s] rbind_Inr by force
  obtain b sc where q: "peek buf sa [0x7C] = (b, sc)" by force
  obtain tok sp sd where g: "gettoken buf sc = (tok, sp, sd)" by (metis prod_cases3)
  have le: "s \<le> length buf \<longrightarrow> sc \<le> length buf \<and> sd \<le> length buf"
    using 2(1) [OF p] peek_le [OF q] gettoken_le [OF g] by auto
  show ?case
  proof (cases b)
    case True
    have "\<And>c t. parsepipe buf sd = Inr (c, t) \<Longrightarrow>
        spans_good buf c \<and> (sd \<le> length buf \<longrightarrow> t \<le> length buf)"
      using 2(2) [OF p refl q [symmetric] True g [symmetric] refl] .
    then show ?thesis using 2(1) [OF p] 2(3) p q g True le by (auto simp: parsepipe.simps [of buf s] rbind_Inr)
  next
    case False
    then show ?thesis using 2(1) [OF p] 2(3) p q le by (simp add: parsepipe.simps [of buf s])
  qed
next
  case (3 buf s)
  obtain b sa where e: "peek buf s [0x28] = (b, sa)" by force
  note le = peek_le [OF e]
  show ?case
  proof (cases b)
    case True
    then show ?thesis using 3(1) [OF e [symmetric] True] 3(2) e le by (simp add: parseexec.simps [of buf s])
  next
    case False
    then obtain rs1 s1 args rs2 where "parseredirs buf [] sa = Inr (rs1, s1)"
        "parseargs buf [] rs1 s1 = Inr ((args, rs2), t3)" "c3 = wrap (EXEC args) rs2"
      using 3(2) e by (auto simp: parseexec.simps [of buf s] rbind_Inr)
    moreover from this(1) have "redirs_good buf rs1 \<and> (sa \<le> length buf \<longrightarrow> s1 \<le> length buf)"
      by (rule parseredirs_good) (simp add: redirs_good_def)
    ultimately show ?thesis using parseargs_good [of buf "[]" rs1 s1 args rs2 t3] le
      by (auto simp: spans_good_wrap)
  qed
next
  case (4 buf s)
  obtain b sa where e: "peek buf s [0x28] = (b, sa)" by force
  obtain tok sp sb where g: "gettoken buf sa = (tok, sp, sb)" by (metis prod_cases3)
  have b: b using 4(2) e by (simp add: parseblock.simps [of buf s] split: if_split_asm)
  from 4(2) obtain c sc where l: "parseline buf sb = Inr (c, sc)"
    using e g b by (auto simp: parseblock.simps [of buf s] rbind_Inr)
  have c: "spans_good buf c \<and> (sb \<le> length buf \<longrightarrow> sc \<le> length buf)"
    using 4(1) [OF e [symmetric] _ g [symmetric] refl] b l by blast
  obtain b2 sd where e2: "peek buf sc [0x29] = (b2, sd)" by force
  obtain tok2 sp2 s1 where g2: "gettoken buf sd = (tok2, sp2, s1)" by (metis prod_cases3)
  from 4(2) obtain rs where r: "parseredirs buf [] s1 = Inr (rs, t4)" "c4 = wrap c rs"
    using e g b l e2 g2 by (auto simp: parseblock.simps [of buf s] rbind_Inr split: if_split_asm)
  have "redirs_good buf rs \<and> (s1 \<le> length buf \<longrightarrow> t4 \<le> length buf)"
    by (rule parseredirs_good [OF r(1)]) (simp add: redirs_good_def)
  then show ?case using c r(2) peek_le [OF e] gettoken_le [OF g] peek_le [OF e2] gettoken_le [OF g2]
    by (auto simp: spans_good_wrap)
qed

lemma length_foldl_cut: "length (foldl (\<lambda>b (q, eq). b[eq := 0]) buf args) = length buf"
  by (induction args arbitrary: buf) auto

lemma length_nulterminate [simp]: "length (nulterminate c buf) = length buf"
  by (induction c arbitrary: buf) (simp_all add: length_foldl_cut)

lemma nth_foldl_cut:
  "i < length buf \<Longrightarrow> foldl (\<lambda>b (q, eq). b[eq := 0]) buf args ! i = (if i \<in> snd ` set args then 0 else buf ! i)"
  for buf :: line
proof (induction args arbitrary: buf)
  case (Cons a args)
  then show ?case by (cases a) (auto simp: nth_list_update)
qed simp

lemma nth_nulterminate:
  "i < length buf \<Longrightarrow> nulterminate c buf ! i = (if i \<in> snd ` set_cmd c then 0 else buf ! i)"
proof (induction c arbitrary: buf)
  case (REDIR c f mode fd)
  then show ?case by (cases "i = snd f") (simp_all add: nth_list_update)
qed (simp_all add: nth_foldl_cut image_Un)

text \<open>The C string found at a position of the command line.\<close>

definition string_at :: "line \<Rightarrow> nat \<Rightarrow> line" where
  "string_at buf q = takeWhile (\<lambda>c. c \<noteq> 0) (drop q buf)"

lemma string_at_word:
  assumes z: "0 \<notin> set buf" and sp: "spans_good buf c" "(q, eq) \<in> set_cmd c"
  shows "string_at (nulterminate c buf) q = word_at buf (q, eq)"
proof -
  let ?b = "nulterminate c buf"
  have g: "q < eq" "eq \<le> length buf" "\<And>i. q \<le> i \<Longrightarrow> i < eq \<Longrightarrow> is_plain (buf ! i)"
    using sp by (auto simp: spans_good_def good_span_def)
  have keep: "?b ! i = buf ! i" if i: "q \<le> i" "i < eq" for i
  proof -
    have "i \<noteq> snd sp" if "sp \<in> set_cmd c" for sp
      using sp(1) that g(3) [OF i] i(2) g(2) by (cases sp) (auto simp: spans_good_def good_span_def)
    then have "i \<notin> snd ` set_cmd c" by blast
    then show ?thesis using i g(2) by (simp add: nth_nulterminate)
  qed
  have w: "take (eq - q) (drop q ?b) = word_at buf (q, eq)"
    by (rule nth_equalityI) (use g(2) keep in \<open>auto simp: word_at_def\<close>)
  have nz: "x \<noteq> 0" if "x \<in> set (word_at buf (q, eq))" for x
    using that z by (auto simp: word_at_def dest: in_set_takeD in_set_dropD)
  have rest: "takeWhile (\<lambda>c. c \<noteq> 0) (drop eq ?b) = []"
  proof (cases "eq < length buf")
    case True
    have "eq \<in> snd ` set_cmd c" using sp(2) by force
    then have "?b ! eq = 0" using True by (simp add: nth_nulterminate)
    then show ?thesis using True by (simp add: Cons_nth_drop_Suc [symmetric])
  qed simp
  have "drop q ?b = word_at buf (q, eq) @ drop eq ?b"
    using w append_take_drop_id [of "eq - q" "drop q ?b"] g(1) by simp
  then show ?thesis using nz rest by (simp add: string_at_def takeWhile_append2)
qed

text \<open>
  C38: whatever the command line, when it parses, every argument and file name of the command is,
  as a C string in the line that \<open>nulterminate\<close> leaves, exactly the bytes between the two
  positions that the parser noted, and that is a nonempty word without blanks and symbols.
\<close>

theorem parsed_words_are_terminated:
  assumes "0 \<notin> set buf" and "parsecmd buf = Inr (c, buf')" and "(q, eq) \<in> set_cmd c"
  shows "string_at buf' q = word_at buf (q, eq) \<and> word_at buf (q, eq) \<noteq> [] \<and>
    (\<forall>x\<in>set (word_at buf (q, eq)). is_plain x)"
proof -
  obtain s where "parseline buf 0 = Inr (c, s)" and b: "buf' = nulterminate c buf"
    using assms(2) by (cases "parseline buf 0") (auto simp: parsecmd_def peek_def Let_def split: if_split_asm)
  then have g: "spans_good buf c" using parse_good(1) by blast
  then have "good_span buf (q, eq)" using assms(3) by (auto simp: spans_good_def)
  then have w: "q < eq" "eq \<le> length buf" "\<And>i. q \<le> i \<Longrightarrow> i < eq \<Longrightarrow> is_plain (buf ! i)"
    by (auto simp: good_span_def)
  have "is_plain x" if x: "x \<in> set (word_at buf (q, eq))" for x
  proof -
    obtain i where "i < eq - q" "x = buf ! (q + i)"
      using x by (auto simp: word_at_def in_set_conv_nth [of x])
    then show ?thesis using w(3) [of "q + i"] by simp
  qed
  moreover have "word_at buf (q, eq) \<noteq> []" using w(1,2) by (simp add: word_at_def)
  ultimately have "word_at buf (q, eq) \<noteq> []" "\<forall>x\<in>set (word_at buf (q, eq)). is_plain x" by blast+
  then show ?thesis using string_at_word [OF assms(1) g assms(3)] b by simp
qed

text \<open>\<open>echo hi|cat>f\<close>\<close>

definition demo_line :: line where
  "demo_line = [0x65, 0x63, 0x68, 0x6F, 0x20, 0x68, 0x69, 0x7C, 0x63, 0x61, 0x74, 0x3E, 0x66]"

lemma parse_demo_line:
  "parsecmd demo_line = Inr (PIPE (EXEC [(0, 4), (5, 7)]) (REDIR (EXEC [(8, 11)]) (12, 13) 0x601 1),
     [0x65, 0x63, 0x68, 0x6F, 0, 0x68, 0x69, 0, 0x63, 0x61, 0x74, 0, 0x66])"
  by code_simp

theorem parsed_words_are_terminated_witness:
  "string_at [0x65, 0x63, 0x68, 0x6F, 0, 0x68, 0x69, 0, 0x63, 0x61, 0x74, 0, 0x66] 8 = [0x63, 0x61, 0x74]"
proof -
  have "0 \<notin> set demo_line" by (simp add: demo_line_def)
  from parsed_words_are_terminated [OF this parse_demo_line, of 8 11]
  show ?thesis by (simp add: word_at_def demo_line_def)
qed

section \<open>Round trip\<close>

lemma redir_sym_symbol: "redir_sym mode fd = 0x2B \<or> redir_sym mode fd \<in> set symbols"
  by (simp add: redir_sym_def symbols_list)

lemma toks_ok:
  "\<forall>w\<in>set_cmd c. word_ok w \<Longrightarrow> \<forall>t\<in>set (toks l c). token_ok t"
proof (induction c arbitrary: l)
  case (REDIR c f mode fd)
  then show ?case using redir_sym_symbol [of mode fd] by auto
qed (auto simp: par_def symbols_list)

lemma token_text_nonzero: "token_ok t \<Longrightarrow> 0 \<notin> set (token_text t)"
  by (cases t) (auto simp: word_ok_def symbols_list)

lemma render_nonzero: "\<forall>t\<in>set ts. token_ok t \<Longrightarrow> 0 \<notin> set (render ts)"
  by (induction ts) (auto dest: token_text_nonzero)

text \<open>
  C37: a command line that spells a command, every token after a space and parentheses where the
  grammar needs them, parses without error to that command, with its words as C strings.
\<close>

theorem command_line_roundtrip:
  assumes "cmd_ok c" and "\<forall>w\<in>set_cmd c. word_ok w"
  shows "\<exists>pc buf'. parsecmd (command_line c) = Inr (pc, buf') \<and>
    map_cmd (\<lambda>(q, eq). string_at buf' q) pc = c"
proof -
  let ?buf = "command_line c"
  have tok: "\<forall>t\<in>set (toks 0 c). token_ok t" by (rule toks_ok [OF assms(2)])
  have t: "map (map_token (word_at ?buf)) (tokens ?buf 0) = toks 0 c"
    using tokens_render [OF tok, of "[]"] by (simp add: command_line_def)
  obtain pc where pc: "toks 0 pc = tokens ?buf 0" "map_cmd (word_at ?buf) pc = c" using map_toks [OF t] by blast
  have "cmd_ok pc" using assms(1) pc(2) cmd_ok_map by metis
  then have "line_good ?buf pc" using all_good by blast
  then obtain s' where s': "parseline ?buf 0 = Inr (pc, s')" "tokens ?buf s' = []"
    using pc(1) unfolding line_good_def by force
  have nz: "0 \<notin> set ?buf" using render_nonzero [OF tok] by (simp add: command_line_def)
  have "s' \<le> length ?buf" using parse_good(1) [OF s'(1)] by simp
  then have "skip is_ws ?buf s' = length ?buf" by (rule tokens_Nil [OF nz s'(2)])
  then have p: "parsecmd ?buf = Inr (pc, nulterminate pc ?buf)"
    by (simp add: parsecmd_def s'(1) peek_def)
  moreover have "map_cmd (\<lambda>(q, eq). string_at (nulterminate pc ?buf) q) pc = map_cmd (word_at ?buf) pc"
    by (rule cmd.map_cong0) (use string_at_word [OF nz conjunct1 [OF parse_good(1) [OF s'(1)]]] in auto)
  ultimately show ?thesis using pc(2) by auto
qed

text \<open>\<open>(a ; b) | c > d &\<close>\<close>

definition demo_cmd :: "line cmd" where
  "demo_cmd = BACK (PIPE (LIST (EXEC [[0x61]]) (EXEC [[0x62]])) (REDIR (EXEC [[0x63]]) [0x64] 0x601 1))"

theorem command_line_roundtrip_witness:
  "\<exists>pc buf'. parsecmd [0x20, 0x28, 0x20, 0x61, 0x20, 0x3B, 0x20, 0x62, 0x20, 0x29, 0x20, 0x7C, 0x20, 0x63,
      0x20, 0x3E, 0x20, 0x64, 0x20, 0x26] = Inr (pc, buf') \<and>
    map_cmd (\<lambda>(q, eq). string_at buf' q) pc = demo_cmd"
proof -
  have "cmd_ok demo_cmd"
    by (simp add: demo_cmd_def MAXARGS_def redir_ok_def O_WRONLY_def O_CREATE_def O_TRUNC_def)
  moreover have "\<forall>w\<in>set_cmd demo_cmd. word_ok w"
    by (simp add: demo_cmd_def word_ok_def whitespace_list symbols_list)
  moreover have "command_line demo_cmd = [0x20, 0x28, 0x20, 0x61, 0x20, 0x3B, 0x20, 0x62, 0x20, 0x29, 0x20, 0x7C,
      0x20, 0x63, 0x20, 0x3E, 0x20, 0x64, 0x20, 0x26]"
    by code_simp
  ultimately show ?thesis using command_line_roundtrip [of demo_cmd] by simp
qed

end
