(* ===== verification/Sh_Run.thy ===== *)
theory Sh_Run
  imports Sh
begin

text \<open>
  How the shell runs a parsed command (\<open>runcmd\<close> of \<open>user/sh.c\<close>), and which program ends up with
  which open files. A process is the tree of the system calls it makes, each continuing with the
  call's result; \<open>fork\<close> continues twice, with 0 in the child. Words are the strings that
  \<open>nulterminate\<close> left. \<open>Print\<close> stands for a call of \<open>fprintf\<close>, a series of \<open>write\<close>s.
\<close>

section \<open>runcmd\<close>

datatype sys = Close int | Dup int | Open line u32 | Exec line "line list" | Wait | Print int line

datatype prog =
    Exit int
  | Call sys "int \<Rightarrow> prog"
  | Pipe "int \<Rightarrow> int \<Rightarrow> int \<Rightarrow> prog"
  | Fork "int \<Rightarrow> prog"

definition text_bytes :: "string \<Rightarrow> line" where
  "text_bytes = map of_char"

definition panic :: "string \<Rightarrow> prog" where
  "panic s = Call (Print 2 (text_bytes s @ [0x0A])) (\<lambda>_. Exit 1)"

definition fork1 :: "(int \<Rightarrow> prog) \<Rightarrow> prog" where
  "fork1 k = Fork (\<lambda>pid. if pid = - 1 then panic ''fork'' else k pid)"

definition calls :: "sys list \<Rightarrow> prog \<Rightarrow> prog" where
  "calls ss p = foldr (\<lambda>s p. Call s (\<lambda>_. p)) ss p"

primrec runcmd :: "line cmd \<Rightarrow> prog" where
  "runcmd (EXEC argv) =
     (if argv = [] then Exit 1
      else Call (Exec (hd argv) argv) (\<lambda>_.
           Call (Print 2 (text_bytes ''exec '' @ hd argv @ text_bytes '' failed'' @ [0x0A])) (\<lambda>_. Exit 0)))"
| "runcmd (REDIR c f mode fd) =
     Call (Close fd) (\<lambda>_.
     Call (Open f mode) (\<lambda>r.
       if r < 0 then Call (Print 2 (text_bytes ''open '' @ f @ text_bytes '' failed'' @ [0x0A])) (\<lambda>_. Exit 1)
       else runcmd c))"
| "runcmd (LIST l r) =
     fork1 (\<lambda>pid. if pid = 0 then runcmd l else Call Wait (\<lambda>_. runcmd r))"
| "runcmd (PIPE l r) =
     Pipe (\<lambda>ret p0 p1.
       if ret < 0 then panic ''pipe''
       else fork1 (\<lambda>pid.
         if pid = 0 then calls [Close 1, Dup p1, Close p0, Close p1] (runcmd l)
         else fork1 (\<lambda>pid.
           if pid = 0 then calls [Close 0, Dup p0, Close p0, Close p1] (runcmd r)
           else calls [Close p0, Close p1, Wait, Wait] (Exit 0))))"
| "runcmd (BACK c) = fork1 (\<lambda>pid. if pid = 0 then runcmd c else Exit 0)"

section \<open>File descriptors\<close>

text \<open>
  What the system calls do to the open files of a process while they succeed: \<open>open\<close>, \<open>dup\<close> and
  \<open>pipe\<close> take the lowest free of the 16 descriptors, \<open>fork\<close> copies them. A pipe is named by the
  place of its creation. The result of a run lists the programs executed with their open files.
\<close>

datatype file_obj = Start int | Path line u32 | ReadEnd "nat list" | WriteEnd "nat list"

type_synonym fdtab = "int \<Rightarrow> file_obj option"

definition lowest :: "fdtab \<Rightarrow> int" where
  "lowest fds = (case find (\<lambda>fd. fds fd = None) (map int [0..<16]) of None \<Rightarrow> - 1 | Some fd \<Rightarrow> fd)"

definition install :: "fdtab \<Rightarrow> file_obj \<Rightarrow> int \<times> fdtab" where
  "install fds x = (let fd = lowest fds in if fd < 0 then (- 1, fds) else (fd, fds(fd := Some x)))"

definition do_sys :: "sys \<Rightarrow> fdtab \<Rightarrow> int \<times> fdtab" where
  "do_sys s fds =
     (case s of
        Close fd \<Rightarrow> (0, fds(fd := None))
      | Dup fd \<Rightarrow> (case fds fd of None \<Rightarrow> (- 1, fds) | Some x \<Rightarrow> install fds x)
      | Open f mode \<Rightarrow> install fds (Path f mode)
      | Wait \<Rightarrow> (1, fds)
      | _ \<Rightarrow> (0, fds))"

primrec run :: "prog \<Rightarrow> nat list \<Rightarrow> fdtab \<Rightarrow> (line list \<times> fdtab) list" where
  "run (Exit n) w fds = []"
| "run (Call s k) w fds =
     (case s of
        Exec path argv \<Rightarrow> [(argv, fds)]
      | _ \<Rightarrow> run (k (fst (do_sys s fds))) w (snd (do_sys s fds)))"
| "run (Pipe k) w fds =
     (let (p0, fds) = install fds (ReadEnd w); (p1, fds) = install fds (WriteEnd w)
      in if p0 < 0 \<or> p1 < 0 then run (k (- 1) 0 0) w fds else run (k 0 p0 p1) w fds)"
| "run (Fork k) w fds = run (k 0) (0 # w) fds @ run (k 1) (1 # w) fds"

text \<open>Which programs the command should run, with which files.\<close>

primrec plumbing :: "line cmd \<Rightarrow> nat list \<Rightarrow> fdtab \<Rightarrow> (line list \<times> fdtab) list" where
  "plumbing (EXEC argv) w fds = (if argv = [] then [] else [(argv, fds)])"
| "plumbing (REDIR c f mode fd) w fds = plumbing c w (fds(fd := Some (Path f mode)))"
| "plumbing (LIST l r) w fds = plumbing l (0 # w) fds @ plumbing r (1 # w) fds"
| "plumbing (PIPE l r) w fds =
     plumbing l (0 # w) (fds(1 := Some (WriteEnd w))) @ plumbing r (0 # 1 # w) (fds(0 := Some (ReadEnd w)))"
| "plumbing (BACK c) w fds = plumbing c (0 # w) fds"

definition std_fds :: "fdtab \<Rightarrow> bool" where
  "std_fds fds \<longleftrightarrow> (\<forall>fd. fds fd \<noteq> None \<longleftrightarrow> fd \<in> {0, 1, 2})"

primrec redirs_std :: "'w cmd \<Rightarrow> bool" where
  "redirs_std (EXEC argv) \<longleftrightarrow> True"
| "redirs_std (REDIR c f mode fd) \<longleftrightarrow> redirs_std c \<and> fd \<in> {0, 1}"
| "redirs_std (LIST l r) \<longleftrightarrow> redirs_std l \<and> redirs_std r"
| "redirs_std (PIPE l r) \<longleftrightarrow> redirs_std l \<and> redirs_std r"
| "redirs_std (BACK c) \<longleftrightarrow> redirs_std c"

lemma find_map_upt: "find P (map int [a..<b]) = (if a < b then if P (int a) then Some (int a)
    else find P (map int [Suc a..<b]) else None)"
  by (simp add: upt_conv_Cons)

lemma lowest_std:
  assumes "fds 0 \<noteq> None \<longrightarrow> fds 1 \<noteq> None \<longrightarrow> fds 2 \<noteq> None \<longrightarrow> fds 3 \<noteq> None \<longrightarrow> fds 4 = None"
  shows "lowest fds = (if fds 0 = None then 0 else if fds 1 = None then 1 else if fds 2 = None then 2
    else if fds 3 = None then 3 else 4)"
  using assms by (simp add: lowest_def upt_rec)

lemma run_calls:
  "run (calls (s # ss) p) w fds =
     (case s of Exec path argv \<Rightarrow> [(argv, fds)] | _ \<Rightarrow> run (calls ss p) w (snd (do_sys s fds)))"
  by (cases s) (simp_all add: calls_def)

lemma run_calls_Nil [simp]: "run (calls [] p) w fds = run p w fds"
  by (simp add: calls_def)

lemma std_fds_upd: "std_fds fds \<Longrightarrow> fd \<in> {0, 1} \<Longrightarrow> std_fds (fds(fd := Some x))"
  by (auto simp: std_fds_def)

text \<open>The two children of a pipeline.\<close>

lemma std_fds_at:
  assumes "std_fds fds"
  shows "fds 0 \<noteq> None \<and> fds 1 \<noteq> None \<and> fds 2 \<noteq> None \<and> fds 3 = None \<and> fds 4 = None"
  using assms [unfolded std_fds_def, THEN spec, of 0] assms [unfolded std_fds_def, THEN spec, of 1]
    assms [unfolded std_fds_def, THEN spec, of 2] assms [unfolded std_fds_def, THEN spec, of 3]
    assms [unfolded std_fds_def, THEN spec, of 4] by simp

lemma install_pipe:
  assumes "std_fds fds"
  shows "install fds r = (3, fds(3 := Some r))"
    "install (fds(3 := Some r)) x = (4, fds(3 := Some r, 4 := Some x))"
  using std_fds_at [OF assms] by (simp_all add: install_def lowest_std Let_def)

lemma pipe_left:
  assumes "std_fds fds"
  shows "run (calls [Close 1, Dup 4, Close 3, Close 4] p) w (fds(3 := Some r, 4 := Some x)) =
    run p w (fds(1 := Some x))"
proof -
  have "fds(3 := None, 4 := None, 1 := Some x) = fds(1 := Some x)"
    using std_fds_at [OF assms] by (auto simp: fun_eq_iff)
  then show ?thesis using std_fds_at [OF assms]
    by (simp add: run_calls do_sys_def install_def lowest_std Let_def fun_upd_twist, auto)
qed

lemma pipe_right:
  assumes "std_fds fds"
  shows "run (calls [Close 0, Dup 3, Close 3, Close 4] p) w (fds(3 := Some r, 4 := Some x)) =
    run p w (fds(0 := Some r))"
proof -
  have "fds(3 := None, 4 := None, 0 := Some r) = fds(0 := Some r)"
    using std_fds_at [OF assms] by (auto simp: fun_eq_iff)
  then show ?thesis using std_fds_at [OF assms]
    by (simp add: run_calls do_sys_def install_def lowest_std Let_def fun_upd_twist)
qed

lemma run_parent: "run (calls [Close a, Close b, Wait, Wait] (Exit 0)) w fds = []"
  by (simp add: run_calls)

text \<open>
  C39: run with the three standard descriptors open, and while the system calls succeed, a command
  runs exactly the programs it names, and each of them has exactly three open files: its input and
  output are the pipe ends and files that the command's structure gives it, and no other end of a
  pipe stays open, so the reader of a pipe sees its end when the writer exits.
\<close>

theorem runcmd_connects_the_programs:
  assumes "redirs_std c" and "std_fds fds"
  shows "run (runcmd c) w fds = plumbing c w fds \<and> (\<forall>(argv, t)\<in>set (plumbing c w fds). std_fds t)"
  using assms
proof (induction c arbitrary: w fds)
  case (EXEC argv)
  then show ?case by simp
next
  case (REDIR c f mode fd)
  have fd: "fd = 0 \<or> fd = 1" using REDIR.prems(1) by auto
  then have "lowest (fds(fd := None)) = fd" using std_fds_at [OF REDIR.prems(2)] by (auto simp: lowest_std)
  then have i: "install (fds(fd := None)) x = (fd, fds(fd := Some x))" for x
    using fd by (auto simp: install_def Let_def)
  let ?t = "fds(fd := Some (Path f mode))"
  have t: "std_fds ?t" using std_fds_upd REDIR.prems by simp
  have "run (runcmd c) w ?t = plumbing c w ?t \<and> (\<forall>(argv, t)\<in>set (plumbing c w ?t). std_fds t)"
    by (rule REDIR.IH [OF _ t]) (use REDIR.prems in simp)
  moreover have "run (runcmd (REDIR c f mode fd)) w fds = run (runcmd c) w ?t"
    using fd by (auto simp: do_sys_def i)
  ultimately show ?case by simp
next
  case (PIPE l r)
  have 1: "run (runcmd (PIPE l r)) w fds =
      run (runcmd l) (0 # w) (fds(1 := Some (WriteEnd w))) @
      run (runcmd r) (0 # 1 # w) (fds(0 := Some (ReadEnd w)))"
    by (simp add: install_pipe [OF PIPE.prems(2)] fork1_def pipe_left [OF PIPE.prems(2)]
      pipe_right [OF PIPE.prems(2)] run_parent)
  let ?t = "fds(1 := Some (WriteEnd w))" let ?u = "fds(0 := Some (ReadEnd w))"
  have t: "std_fds ?t" "std_fds ?u" using std_fds_upd PIPE.prems by simp_all
  have "run (runcmd l) (0 # w) ?t = plumbing l (0 # w) ?t \<and> (\<forall>(argv, t)\<in>set (plumbing l (0 # w) ?t). std_fds t)"
    by (rule PIPE.IH(1) [OF _ t(1)]) (use PIPE.prems in simp)
  moreover have "run (runcmd r) (0 # 1 # w) ?u = plumbing r (0 # 1 # w) ?u \<and>
      (\<forall>(argv, t)\<in>set (plumbing r (0 # 1 # w) ?u). std_fds t)"
    by (rule PIPE.IH(2) [OF _ t(2)]) (use PIPE.prems in simp)
  ultimately show ?case unfolding 1 plumbing.simps by (simp add: ball_Un)
next
  case (LIST l r)
  then show ?case by (simp add: fork1_def do_sys_def ball_Un)
next
  case (BACK c)
  then show ?case by (simp add: fork1_def)
qed

text \<open>\<open>a < f | b\<close>\<close>

theorem runcmd_connects_the_programs_witness:
  "run (runcmd (PIPE (REDIR (EXEC [[0x61]]) [0x66] 0 0) (EXEC [[0x62]]))) []
     (\<lambda>fd. if fd \<in> {0, 1, 2} then Some (Start fd) else None) =
   [([[0x61]], (\<lambda>fd. if fd \<in> {0, 1, 2} then Some (Start fd) else None)(1 := Some (WriteEnd []), 0 := Some (Path [0x66] 0))),
    ([[0x62]], (\<lambda>fd. if fd \<in> {0, 1, 2} then Some (Start fd) else None)(0 := Some (ReadEnd [])))]"
proof -
  have "std_fds (\<lambda>fd. if fd \<in> {0, 1, 2} then Some (Start fd) else None)" by (simp add: std_fds_def)
  from runcmd_connects_the_programs [OF _ this, of "PIPE (REDIR (EXEC [[0x61]]) [0x66] 0 0) (EXEC [[0x62]])" "[]"]
  show ?thesis by simp
qed

end
